(* ===== verification/Prelude.thy ===== *)
theory Prelude
  imports Main "HOL-Library.Word" "HOL-Library.Monad_Syntax"
begin

text \<open>
  Shared vocabulary of the development: the machine integer types of
  \<^verbatim>\<open>include/rtdef.h\<close>, the error codes and object classes, the assertion
  combinator, the theorem collections, and the generic lemmas on lists, options and words that
  the component theories use.

  A kernel routine is a function from the state it may change to an \<open>option\<close> of its result
  and the new state. \<open>None\<close> stands for a call that does not come back: an
  \<^verbatim>\<open>RT_ASSERT\<close> that fails (\<^verbatim>\<open>rt_assert_handler\<close> spins for
  ever), a loop that does not end, or an access that C leaves undefined (a table index out of
  range, the first element of an empty intrusive list).
\<close>

unbundle bit_operations_syntax

section \<open>Machine integers and error codes\<close>

type_synonym u8 = "8 word"
type_synonym u16 = "16 word"
type_synonym u32 = "32 word"

text \<open>\<^verbatim>\<open>rt_err_t\<close> is a \<^verbatim>\<open>long\<close>; every code is small, so \<open>int\<close> is exact.\<close>

type_synonym rt_err = int

abbreviation (input) RT_EOK :: rt_err where "RT_EOK \<equiv> 0"
abbreviation (input) RT_ERROR :: rt_err where "RT_ERROR \<equiv> 1"
abbreviation (input) RT_ETIMEOUT :: rt_err where "RT_ETIMEOUT \<equiv> 2"
abbreviation (input) RT_EFULL :: rt_err where "RT_EFULL \<equiv> 3"
abbreviation (input) RT_EEMPTY :: rt_err where "RT_EEMPTY \<equiv> 4"
abbreviation (input) RT_ENOMEM :: rt_err where "RT_ENOMEM \<equiv> 5"
abbreviation (input) RT_ENOSYS :: rt_err where "RT_ENOSYS \<equiv> 6"
abbreviation (input) RT_EBUSY :: rt_err where "RT_EBUSY \<equiv> 7"
abbreviation (input) RT_EIO :: rt_err where "RT_EIO \<equiv> 8"
abbreviation (input) RT_EINTR :: rt_err where "RT_EINTR \<equiv> 9"
abbreviation (input) RT_EINVAL :: rt_err where "RT_EINVAL \<equiv> 10"

abbreviation (input) RT_TICK_MAX :: u32 where "RT_TICK_MAX \<equiv> 0xffffffff"

text \<open>\<^verbatim>\<open>RT_ALIGN\<close> and \<^verbatim>\<open>RT_ALIGN_DOWN\<close> of \<^verbatim>\<open>rtdef.h\<close> on 32-bit sizes.\<close>

definition RT_ALIGN :: "u32 \<Rightarrow> u32 \<Rightarrow> u32" where
  "RT_ALIGN sz al = (sz + al - 1) AND NOT (al - 1)"

definition RT_ALIGN_DOWN :: "u32 \<Rightarrow> u32 \<Rightarrow> u32" where
  "RT_ALIGN_DOWN sz al = sz AND NOT (al - 1)"

section \<open>Assertions\<close>

definition rt_assert :: "bool \<Rightarrow> unit option" where
  "rt_assert b = (if b then Some () else None)"

lemma rt_assert_simps [simp]:
  "rt_assert True = Some ()" "rt_assert False = None"
  by (simp_all add: rt_assert_def)

lemma rt_assert_eq_Some [simp]: "rt_assert b = Some u \<longleftrightarrow> b"
  by (simp add: rt_assert_def)

lemma bind_rt_assert_eq_Some [simp]:
  "(rt_assert b \<bind> f) = Some r \<longleftrightarrow> b \<and> f () = Some r"
  by (cases b) simp_all

lemma bind_Some_iff: "(m \<bind> f) = Some r \<longleftrightarrow> (\<exists>x. m = Some x \<and> f x = Some r)"
  by (cases m) auto

text \<open>The signed reading of a 32-bit word.\<close>

lemma sint_u32:
  fixes w :: u32
  shows "sint w = (if uint w < 2147483648 then uint w else uint w - 4294967296)"
proof -
  have u: "0 \<le> uint w" "uint w < 4294967296"
    using uint_lt2p [of w] by simp_all
  have "sint w = (uint w + 2147483648) mod 4294967296 - 2147483648"
    by (simp add: sint_uint signed_take_bit_eq_take_bit_shift take_bit_eq_mod)
  also have "\<dots> = (if uint w < 2147483648 then uint w else uint w - 4294967296)"
  proof (cases "uint w < 2147483648")
    case False
    have "(uint w + 2147483648) mod 4294967296 = (uint w + 2147483648 - 4294967296) mod 4294967296"
      by (rule minus_mod_self2 [symmetric])
    also have "\<dots> = uint w - 2147483648" using u False by (subst mod_pos_pos_trivial) simp_all
    finally show ?thesis using False by simp
  qed (use u in simp)
  finally show ?thesis .
qed

text \<open>Rounding by masks.\<close>

lemma and_not_mask:
  fixes x :: u32
  shows "unat (x AND NOT (mask n)) = unat x div 2 ^ n * 2 ^ n"
proof -
  have "x AND NOT (mask n) = push_bit n (drop_bit n x)"
    by (rule bit_word_eqI) (auto simp: bit_simps)
  moreover have "take_bit 32 (unat x) = unat x"
    using unsigned_less [of x, where 'a = nat] by (simp add: take_bit_nat_eq_self_iff)
  ultimately have "unat (x AND NOT (mask n)) = take_bit 32 (push_bit n (drop_bit n (unat x)))"
    by (simp add: unsigned_push_bit_eq unsigned_drop_bit_eq)
  also have "\<dots> = push_bit n (drop_bit n (unat x))"
  proof -
    have "unat x div 2 ^ n * 2 ^ n \<le> unat x" by simp
    also have "\<dots> < 2 ^ 32" using unsigned_less [of x, where 'a = nat] by simp
    finally show ?thesis by (simp add: take_bit_nat_eq_self_iff push_bit_eq_mult drop_bit_eq_div)
  qed
  finally show ?thesis by (simp add: push_bit_eq_mult drop_bit_eq_div)
qed

lemma RT_ALIGN_4:
  assumes "unat sz + 3 < 2 ^ 32"
  shows "unat (RT_ALIGN sz 4) = (unat sz + 3) div 4 * 4"
proof -
  have m: "(4 - 1 :: u32) = mask 2" by (simp add: mask_eq_exp_minus_1)
  have "unat (sz + 3) = unat sz + 3" using assms by (simp add: unat_word_ariths)
  moreover have "RT_ALIGN sz 4 = (sz + 3) AND NOT (mask 2)" by (simp add: RT_ALIGN_def mask_eq_exp_minus_1 add_diff_eq [symmetric])
  ultimately show ?thesis using and_not_mask [of "sz + 3" 2] by simp
qed

section \<open>Theorem collections\<close>

named_theorems defs "unfolding equations of the kernel operations"
named_theorems frame "fields an operation leaves alone"

section \<open>Lists\<close>

lemma removeAll_middle:
  "distinct (ys @ x # zs) \<Longrightarrow> removeAll x (ys @ x # zs) = ys @ zs"
  by auto

lemma removeAll_eq_Nil_distinct:
  "distinct xs \<Longrightarrow> x \<in> set xs \<Longrightarrow> removeAll x xs = [] \<longleftrightarrow> xs = [x]"
  by (cases xs) (auto split: if_splits dest: arg_cong [where f = set])

end
