(* ===== verification/RtList.thy ===== *)
theory RtList
  imports Prelude
begin

text \<open>
  The intrusive lists of \<^verbatim>\<open>include/rtservice.h\<close>. The first part is the code:
  circular doubly linked lists over a heap of nodes (\<open>nxt\<close> and \<open>prv\<close> are the
  fields of \<^verbatim>\<open>struct rt_list_node\<close>, addresses are natural numbers), and
  the singly linked lists of \<^verbatim>\<open>rt_slist_t\<close>. The predicates
  \<open>dlist\<close> and \<open>slist\<close> say that a heap holds a given sequence of nodes
  behind a head.

  The second part is the list store the kernel model works on: a function from list heads to
  the sequence of nodes behind each head. The simulation \<open>store_rep\<close> relates the two;
  every pointer routine implements its list-store counterpart.
\<close>

section \<open>Doubly linked lists: the code\<close>

type_synonym addr = nat

record list_heap =
  nxt :: "addr \<Rightarrow> addr"
  prv :: "addr \<Rightarrow> addr"

definition set_nxt :: "addr \<Rightarrow> addr \<Rightarrow> list_heap \<Rightarrow> list_heap" where
  "set_nxt a v h = h\<lparr>nxt := (nxt h)(a := v)\<rparr>"

definition set_prv :: "addr \<Rightarrow> addr \<Rightarrow> list_heap \<Rightarrow> list_heap" where
  "set_prv a v h = h\<lparr>prv := (prv h)(a := v)\<rparr>"

definition rt_list_init :: "addr \<Rightarrow> list_heap \<Rightarrow> list_heap" where
  "rt_list_init l h = set_nxt l l (set_prv l l h)"

definition rt_list_insert_after :: "addr \<Rightarrow> addr \<Rightarrow> list_heap \<Rightarrow> list_heap" where
  "rt_list_insert_after l n h =
     (let h = set_prv (nxt h l) n h;
          h = set_nxt n (nxt h l) h;
          h = set_nxt l n h
      in set_prv n l h)"

definition rt_list_insert_before :: "addr \<Rightarrow> addr \<Rightarrow> list_heap \<Rightarrow> list_heap" where
  "rt_list_insert_before l n h =
     (let h = set_nxt (prv h l) n h;
          h = set_prv n (prv h l) h;
          h = set_prv l n h
      in set_nxt n l h)"

definition rt_list_remove :: "addr \<Rightarrow> list_heap \<Rightarrow> list_heap" where
  "rt_list_remove n h =
     (let h = set_prv (nxt h n) (prv h n) h;
          h = set_nxt (prv h n) (nxt h n) h
      in set_nxt n n (set_prv n n h))"

definition rt_list_isempty :: "addr \<Rightarrow> list_heap \<Rightarrow> bool" where
  "rt_list_isempty l h \<longleftrightarrow> nxt h l = l"

partial_function (option) rt_list_len_loop ::
    "list_heap \<Rightarrow> addr \<Rightarrow> addr \<Rightarrow> u32 \<Rightarrow> u32 option" where
  "rt_list_len_loop h l p len =
     (if nxt h p \<noteq> l then rt_list_len_loop h l (nxt h p) (len + 1) else Some len)"

definition rt_list_len :: "addr \<Rightarrow> list_heap \<Rightarrow> u32 option" where
  "rt_list_len l h = rt_list_len_loop h l l 0"

section \<open>Singly linked lists: the code\<close>

text \<open>\<open>None\<close> is \<^verbatim>\<open>RT_NULL\<close>; the loops follow \<^verbatim>\<open>next\<close> pointers to the end.\<close>

type_synonym slist_heap = "addr \<Rightarrow> addr option"

definition rt_slist_init :: "addr \<Rightarrow> slist_heap \<Rightarrow> slist_heap" where
  "rt_slist_init l h = h(l := None)"

partial_function (option) rt_slist_tail :: "slist_heap \<Rightarrow> addr \<Rightarrow> addr option" where
  "rt_slist_tail h l = (case h l of None \<Rightarrow> Some l | Some m \<Rightarrow> rt_slist_tail h m)"

definition rt_slist_append :: "addr \<Rightarrow> addr \<Rightarrow> slist_heap \<Rightarrow> slist_heap option" where
  "rt_slist_append l n h =
     (case rt_slist_tail h l of None \<Rightarrow> None | Some node \<Rightarrow> Some (h(node := Some n, n := None)))"

definition rt_slist_insert :: "addr \<Rightarrow> addr \<Rightarrow> slist_heap \<Rightarrow> slist_heap" where
  "rt_slist_insert l n h = (let h = h(n := h l) in h(l := Some n))"

partial_function (option) rt_slist_len_loop ::
    "slist_heap \<Rightarrow> addr option \<Rightarrow> u32 \<Rightarrow> u32 option" where
  "rt_slist_len_loop h p len =
     (case p of None \<Rightarrow> Some len | Some q \<Rightarrow> rt_slist_len_loop h (h q) (len + 1))"

definition rt_slist_len :: "addr \<Rightarrow> slist_heap \<Rightarrow> u32 option" where
  "rt_slist_len l h = rt_slist_len_loop h (h l) 0"

partial_function (option) rt_slist_find :: "slist_heap \<Rightarrow> addr \<Rightarrow> addr \<Rightarrow> addr option" where
  "rt_slist_find h node n =
     (case h node of
        None \<Rightarrow> Some node
      | Some m \<Rightarrow> if m \<noteq> n then rt_slist_find h m n else Some node)"

definition rt_slist_remove :: "addr \<Rightarrow> addr \<Rightarrow> slist_heap \<Rightarrow> slist_heap option" where
  "rt_slist_remove l n h =
     (case rt_slist_find h l n of
        None \<Rightarrow> None
      | Some node \<Rightarrow> Some (case h node of None \<Rightarrow> h | Some m \<Rightarrow> h(node := h m)))"

definition rt_slist_first :: "addr \<Rightarrow> slist_heap \<Rightarrow> addr option" where
  "rt_slist_first l h = h l"

definition rt_slist_isempty :: "addr \<Rightarrow> slist_heap \<Rightarrow> bool" where
  "rt_slist_isempty l h \<longleftrightarrow> h l = None"

section \<open>Doubly linked lists: what the heap holds\<close>

fun seg :: "list_heap \<Rightarrow> addr \<Rightarrow> addr list \<Rightarrow> addr \<Rightarrow> bool" where
  "seg h a [] b \<longleftrightarrow> nxt h a = b \<and> prv h b = a"
| "seg h a (x # xs) b \<longleftrightarrow> nxt h a = x \<and> prv h x = a \<and> seg h x xs b"

definition dlist :: "list_heap \<Rightarrow> addr \<Rightarrow> addr list \<Rightarrow> bool" where
  "dlist h l xs \<longleftrightarrow> distinct (l # xs) \<and> seg h l xs l"

lemma seg_append [simp]:
  "seg h a (xs @ y # ys) b \<longleftrightarrow> seg h a xs y \<and> seg h y ys b"
  by (induction xs arbitrary: a) auto

text \<open>A segment only reads \<open>nxt\<close> of its start and inner nodes and \<open>prv\<close> of its inner nodes and end.\<close>

lemma seg_cong:
  "\<lbrakk>\<And>x. x \<in> insert a (set xs) \<Longrightarrow> nxt h' x = nxt h x;
    \<And>x. x \<in> insert b (set xs) \<Longrightarrow> prv h' x = prv h x\<rbrakk>
   \<Longrightarrow> seg h' a xs b \<longleftrightarrow> seg h a xs b"
  by (induction xs arbitrary: a) auto

lemma seg_nxt: "seg h a xs b \<Longrightarrow> nxt h a = hd (xs @ [b])"
  by (cases xs) auto

lemma seg_prv: "seg h a xs b \<Longrightarrow> prv h b = last (a # xs)"
  by (induction xs arbitrary: a) auto

lemma heap_sel [simp]:
  "nxt (set_nxt a v h) = (nxt h)(a := v)" "prv (set_nxt a v h) = prv h"
  "prv (set_prv a v h) = (prv h)(a := v)" "nxt (set_prv a v h) = nxt h"
  by (simp_all add: set_nxt_def set_prv_def)

lemma dlist_init: "dlist (rt_list_init l h) l []"
  by (simp add: dlist_def rt_list_init_def)

lemma dlist_distinct: "dlist h l xs \<Longrightarrow> distinct (l # xs)"
  by (simp add: dlist_def)

lemma isempty_dlist: "dlist h l xs \<Longrightarrow> rt_list_isempty l h \<longleftrightarrow> xs = []"
  by (cases xs) (auto simp: dlist_def rt_list_isempty_def)

text \<open>
  Inserting a node between two neighbours, and unlinking one, in terms of the final
  \<open>nxt\<close> and \<open>prv\<close> fields: the routines below only differ in how they get there.
\<close>

lemma seg_upto:
  assumes "seg h l ys b" "distinct (l # ys)" "n \<notin> set (l # ys)" "c \<notin> set ys"
    and "nxt h' = (nxt h)(last (l # ys) := m, n := v)"
    and "prv h' = (prv h)(n := w, c := u)" and "prv h' m = last (l # ys)"
  shows "seg h' l ys m"
proof (cases ys rule: rev_cases)
  case Nil
  with assms show ?thesis by auto
next
  case (snoc xs x)
  then have "seg h l xs x" using assms(1) by simp
  moreover have "seg h' l xs x = seg h l xs x"
    using snoc assms(2-6) by (intro seg_cong) auto
  ultimately show ?thesis using snoc assms by auto
qed

lemma seg_from:
  assumes "seg h b zs l" "distinct (l # zs)" "n \<notin> set (l # zs)" "c \<notin> set zs"
    and "prv h' = (prv h)(hd (zs @ [l]) := m, n := v)"
    and "nxt h' = (nxt h)(n := w, c := u)" and "nxt h' m = hd (zs @ [l])"
  shows "seg h' m zs l"
proof (cases zs)
  case Nil
  with assms show ?thesis by auto
next
  case (Cons x xs)
  then have "seg h x xs l" using assms(1) by simp
  moreover have "seg h' x xs l = seg h x xs l"
    using Cons assms(2-6) by (intro seg_cong) auto
  ultimately show ?thesis using Cons assms by auto
qed

lemma seg_split: "seg h a (ys @ zs) b \<Longrightarrow> seg h a ys (hd (zs @ [b])) \<and> seg h (last (a # ys)) zs b"
proof (induction ys arbitrary: a)
  case Nil
  then show ?case by (cases zs) auto
next
  case (Cons y ys)
  then show ?case by auto
qed

lemma hd_app_mem: "hd (zs @ [l]) \<in> insert l (set zs)"
  by (cases zs) auto

lemma last_Cons_mem: "last (l # ys) \<in> insert l (set ys)"
  by (cases ys rule: rev_cases) auto

lemma ends_apart:
  "distinct (l # ys @ zs) \<Longrightarrow> last (l # ys) \<notin> set zs \<and> hd (zs @ [l]) \<notin> set ys"
  by (cases zs; cases ys rule: rev_cases) auto

lemma dlist_splice:
  assumes d: "dlist h l (ys @ zs)" and n: "n \<notin> set (l # ys @ zs)"
    and nx: "nxt h' = (nxt h)(last (l # ys) := n, n := hd (zs @ [l]))"
    and pr: "prv h' = (prv h)(n := last (l # ys), hd (zs @ [l]) := n)"
  shows "dlist h' l (ys @ n # zs)"
proof -
  from d have dist: "distinct (l # ys @ zs)" and s: "seg h l (ys @ zs) l"
    by (auto simp: dlist_def)
  note sp = seg_split [OF s]
  have ab: "last (l # ys) \<notin> set zs" "hd (zs @ [l]) \<notin> set ys"
    "last (l # ys) \<noteq> n" "hd (zs @ [l]) \<noteq> n"
    using ends_apart [OF dist] n last_Cons_mem [of l ys] hd_app_mem [of zs l] by auto
  have "seg h' l ys n"
    by (rule seg_upto [OF conjunct1 [OF sp] _ _ ab(2) nx pr]) (use dist n ab pr in auto)
  moreover have nx': "nxt h' = (nxt h)(n := hd (zs @ [l]), last (l # ys) := n)"
    and pr': "prv h' = (prv h)(hd (zs @ [l]) := n, n := last (l # ys))"
    using nx pr ab by (simp_all add: fun_upd_twist)
  have "seg h' n zs l"
    by (rule seg_from [OF conjunct2 [OF sp] _ _ ab(1) pr' nx']) (use dist n ab nx in auto)
  ultimately show ?thesis using dist n by (auto simp: dlist_def)
qed

lemma dlist_unsplice:
  assumes d: "dlist h l (ys @ n # zs)"
    and nx: "nxt h' = (nxt h)(last (l # ys) := hd (zs @ [l]), n := n)"
    and pr: "prv h' = (prv h)(hd (zs @ [l]) := last (l # ys), n := n)"
  shows "dlist h' l (ys @ zs)"
proof -
  from d have dist: "distinct (l # ys @ n # zs)" and s: "seg h l (ys @ n # zs) l"
    by (auto simp: dlist_def)
  have ab: "last (l # ys) \<notin> set zs" "hd (zs @ [l]) \<notin> set ys"
    "last (l # ys) \<noteq> n" "hd (zs @ [l]) \<noteq> n"
    using ends_apart [of l ys zs] dist last_Cons_mem [of l ys] hd_app_mem [of zs l] by auto
  from s have s1: "seg h l ys n" and s2: "seg h n zs l" by auto
  have nx': "nxt h' = (nxt h)(n := n, last (l # ys) := hd (zs @ [l]))"
    and pr': "prv h' = (prv h)(n := n, hd (zs @ [l]) := last (l # ys))"
    using nx pr ab by (simp_all add: fun_upd_twist)
  have "seg h' l ys (hd (zs @ [l]))"
    by (rule seg_upto [OF s1 _ _ ab(2) nx pr']) (use dist ab pr in auto)
  moreover have "seg h' (last (l # ys)) zs l"
    by (rule seg_from [OF s2 _ _ ab(1) pr nx']) (use dist ab nx in auto)
  ultimately have "seg h' l (ys @ zs) l"
    by (cases zs; cases ys rule: rev_cases) auto
  then show ?thesis using dist by (auto simp: dlist_def)
qed

text \<open>The neighbours of a node in a list.\<close>

lemma dlist_neighbours:
  assumes "dlist h l (ys @ x # zs)"
  shows "prv h x = last (l # ys)" "nxt h x = hd (zs @ [l])"
  using assms by (auto simp: dlist_def dest: seg_prv seg_nxt)

lemma dlist_head_neighbours:
  assumes "dlist h l xs"
  shows "prv h l = last (l # xs)" "nxt h l = hd (xs @ [l])"
  using assms by (auto simp: dlist_def dest: seg_prv seg_nxt)

text \<open>What the routines write, when the pointers involved do not alias.\<close>

lemma insert_before_fields:
  assumes "n \<noteq> l" "n \<noteq> prv h l"
  shows "nxt (rt_list_insert_before l n h) = (nxt h)(prv h l := n, n := l)"
    and "prv (rt_list_insert_before l n h) = (prv h)(n := prv h l, l := n)"
  using assms by (auto simp: rt_list_insert_before_def Let_def)

lemma insert_after_fields:
  assumes "n \<noteq> l" "n \<noteq> nxt h l"
  shows "nxt (rt_list_insert_after l n h) = (nxt h)(l := n, n := nxt h l)"
    and "prv (rt_list_insert_after l n h) = (prv h)(n := l, nxt h l := n)"
  using assms by (auto simp: rt_list_insert_after_def Let_def)

lemma remove_fields:
  assumes "nxt h n \<noteq> n" "prv h n \<noteq> n"
  shows "nxt (rt_list_remove n h) = (nxt h)(prv h n := nxt h n, n := n)"
    and "prv (rt_list_remove n h) = (prv h)(nxt h n := prv h n, n := n)"
  using assms by (auto simp: rt_list_remove_def Let_def)

lemma dlist_insert_before_head:
  assumes d: "dlist h l xs" and n: "n \<notin> set (l # xs)"
  shows "dlist (rt_list_insert_before l n h) l (xs @ [n])"
proof -
  note p = dlist_head_neighbours(1) [OF d]
  have "n \<noteq> l" "n \<noteq> prv h l" using n p last_Cons_mem [of l xs] by auto
  note f = insert_before_fields [OF this]
  show ?thesis
    using dlist_splice [of h l xs "[]" n] d n f p by simp
qed

lemma dlist_insert_before_node:
  assumes d: "dlist h l (ys @ x # zs)" and n: "n \<notin> set (l # ys @ x # zs)"
  shows "dlist (rt_list_insert_before x n h) l (ys @ n # x # zs)"
proof -
  note p = dlist_neighbours(1) [OF d]
  have "n \<noteq> x" "n \<noteq> prv h x" using n p last_Cons_mem [of l ys] by auto
  note f = insert_before_fields [OF this]
  show ?thesis
    using dlist_splice [of h l ys "x # zs" n] d n f p by simp
qed

lemma dlist_insert_after_head:
  assumes d: "dlist h l xs" and n: "n \<notin> set (l # xs)"
  shows "dlist (rt_list_insert_after l n h) l (n # xs)"
proof -
  note p = dlist_head_neighbours(2) [OF d]
  have "n \<noteq> l" "n \<noteq> nxt h l" using n p hd_app_mem [of xs l] by auto
  note f = insert_after_fields [OF this]
  show ?thesis
    using dlist_splice [of h l "[]" xs n] d n f p by simp
qed

lemma dlist_insert_after_node:
  assumes d: "dlist h l (ys @ x # zs)" and n: "n \<notin> set (l # ys @ x # zs)"
  shows "dlist (rt_list_insert_after x n h) l (ys @ x # n # zs)"
proof -
  note p = dlist_neighbours(2) [OF d]
  have "n \<noteq> x" "n \<noteq> nxt h x" using n p hd_app_mem [of zs l] by auto
  note f = insert_after_fields [OF this]
  show ?thesis
    using dlist_splice [of h l "ys @ [x]" zs n] d n f p by simp
qed

lemma dlist_remove_fields:
  assumes d: "dlist h l (ys @ x # zs)"
  shows "nxt (rt_list_remove x h) = (nxt h)(last (l # ys) := hd (zs @ [l]), x := x)"
    and "prv (rt_list_remove x h) = (prv h)(hd (zs @ [l]) := last (l # ys), x := x)"
proof -
  note p = dlist_neighbours [OF d]
  have "nxt h x \<noteq> x" "prv h x \<noteq> x"
    using p dlist_distinct [OF d] last_Cons_mem [of l ys] hd_app_mem [of zs l] by auto
  from remove_fields [OF this] p
  show "nxt (rt_list_remove x h) = (nxt h)(last (l # ys) := hd (zs @ [l]), x := x)"
    and "prv (rt_list_remove x h) = (prv h)(hd (zs @ [l]) := last (l # ys), x := x)"
    by simp_all
qed

lemma dlist_remove_node:
  assumes d: "dlist h l (ys @ x # zs)"
  shows "dlist (rt_list_remove x h) l (ys @ zs)"
  by (rule dlist_unsplice [OF d]) (rule dlist_remove_fields [OF d])+

text \<open>The removed node is left linked to itself, so removing it again changes nothing.\<close>

lemma remove_self:
  "nxt (rt_list_remove x h) x = x" "prv (rt_list_remove x h) x = x"
  by (simp_all add: rt_list_remove_def Let_def)

lemma remove_unlinked:
  assumes "nxt h x = x" "prv h x = x"
  shows "rt_list_remove x h = h"
  using assms by (simp add: rt_list_remove_def Let_def set_nxt_def set_prv_def fun_upd_idem)

text \<open>The test of \<^verbatim>\<open>rt_thread_yield\<close>: a node is not alone on its list.\<close>

lemma not_alone_iff:
  assumes "dlist h l xs" "x \<in> set xs"
  shows "nxt h x \<noteq> prv h x \<longleftrightarrow> length xs \<ge> 2"
proof -
  obtain ys zs where xs: "xs = ys @ x # zs" using assms(2) by (meson split_list)
  note p = dlist_neighbours [OF assms(1) [unfolded xs]]
  have "distinct (l # ys @ x # zs)" using assms(1) xs by (simp add: dlist_def)
  then show ?thesis unfolding p xs
    by (cases zs; cases ys rule: rev_cases) auto
qed

text \<open>\<^verbatim>\<open>rt_list_len\<close> walks the whole ring once; its counter is an \<^verbatim>\<open>unsigned int\<close>.\<close>

lemma len_loop_seg:
  assumes "seg h p xs l" "l \<notin> set xs"
  shows "rt_list_len_loop h l p k = Some (k + of_nat (length xs))"
  using assms
proof (induction xs arbitrary: p k)
  case Nil
  then show ?case by (subst rt_list_len_loop.simps) simp
next
  case (Cons x xs)
  then have "rt_list_len_loop h l p k = rt_list_len_loop h l x (k + 1)"
    by (subst rt_list_len_loop.simps) auto
  with Cons show ?case by (simp add: algebra_simps)
qed

lemma rt_list_len_dlist: "dlist h l xs \<Longrightarrow> rt_list_len l h = Some (of_nat (length xs))"
  unfolding rt_list_len_def by (subst len_loop_seg) (auto simp: dlist_def)

section \<open>The list store of the kernel model\<close>

type_synonym ('h, 'n) store = "'h \<Rightarrow> 'n list"

definition ls_insert_before :: "'h \<Rightarrow> 'n \<Rightarrow> ('h, 'n) store \<Rightarrow> ('h, 'n) store" where
  "ls_insert_before h n S = S(h := S h @ [n])"

definition ls_insert_after :: "'h \<Rightarrow> 'n \<Rightarrow> ('h, 'n) store \<Rightarrow> ('h, 'n) store" where
  "ls_insert_after h n S = S(h := n # S h)"

text \<open>Insertion in front of the first node that satisfies \<open>P\<close>, at the end if there is none.\<close>

definition ls_insert_where :: "'h \<Rightarrow> ('n \<Rightarrow> bool) \<Rightarrow> 'n \<Rightarrow> ('h, 'n) store \<Rightarrow> ('h, 'n) store" where
  "ls_insert_where h P n S =
     S(h := takeWhile (\<lambda>x. \<not> P x) (S h) @ n # dropWhile (\<lambda>x. \<not> P x) (S h))"

definition ls_remove :: "'n \<Rightarrow> ('h, 'n) store \<Rightarrow> ('h, 'n) store" where
  "ls_remove n S = (\<lambda>h. removeAll n (S h))"

definition unlinked :: "'n \<Rightarrow> ('h, 'n) store \<Rightarrow> bool" where
  "unlinked n S \<longleftrightarrow> (\<forall>h. n \<notin> set (S h))"

lemma unlinked_remove [simp]: "unlinked n (ls_remove n S)"
  by (simp add: unlinked_def ls_remove_def)

lemma ls_remove_unlinked: "unlinked n S \<Longrightarrow> ls_remove n S = S"
  by (auto simp: unlinked_def ls_remove_def)

lemma set_ls_remove [simp]: "set (ls_remove n S h) = set (S h) - {n}"
  by (simp add: ls_remove_def)

text \<open>No node is on a list twice or on two lists.\<close>

definition lists_wf :: "('h, 'n) store \<Rightarrow> bool" where
  "lists_wf S \<longleftrightarrow> (\<forall>h. distinct (S h)) \<and> (\<forall>h h' n. n \<in> set (S h) \<longrightarrow> n \<in> set (S h') \<longrightarrow> h = h')"

lemma lists_wf_same: "lists_wf S \<Longrightarrow> n \<in> set (S h) \<Longrightarrow> n \<in> set (S h') \<Longrightarrow> h = h'"
  unfolding lists_wf_def by blast

lemma lists_wf_distinct [simp]: "lists_wf S \<Longrightarrow> distinct (S h)"
  unfolding lists_wf_def by blast

lemma lists_wf_remove: "lists_wf S \<Longrightarrow> lists_wf (ls_remove n S)"
  unfolding lists_wf_def by (auto simp: ls_remove_def distinct_removeAll)

lemma lists_wf_insert_before: "lists_wf S \<Longrightarrow> unlinked n S \<Longrightarrow> lists_wf (ls_insert_before h n S)"
  unfolding lists_wf_def unlinked_def by (auto simp: ls_insert_before_def split: if_splits)

lemma lists_wf_insert_after: "lists_wf S \<Longrightarrow> unlinked n S \<Longrightarrow> lists_wf (ls_insert_after h n S)"
  unfolding lists_wf_def unlinked_def by (auto simp: ls_insert_after_def split: if_splits)

lemma set_insert_where:
  "set (ls_insert_where h P n S h') = (if h' = h then insert n (set (S h)) else set (S h'))"
proof -
  have "set (takeWhile (\<lambda>x. \<not> P x) (S h)) \<union> set (dropWhile (\<lambda>x. \<not> P x) (S h)) = set (S h)"
    by (metis set_append takeWhile_dropWhile_id)
  then show ?thesis by (auto simp: ls_insert_where_def)
qed

lemma lists_wf_insert_where:
  assumes "lists_wf S" "unlinked n S"
  shows "lists_wf (ls_insert_where h P n S)"
proof -
  have d: "set (takeWhile (\<lambda>x. \<not> P x) (S h)) \<inter> set (dropWhile (\<lambda>x. \<not> P x) (S h)) = {}"
    using distinct_append [of "takeWhile (\<lambda>x. \<not> P x) (S h)" "dropWhile (\<lambda>x. \<not> P x) (S h)"]
      assms(1) by simp
  have m: "n \<notin> set (takeWhile (\<lambda>x. \<not> P x) (S h))" "n \<notin> set (dropWhile (\<lambda>x. \<not> P x) (S h))"
    using assms(2) by (auto simp: unlinked_def dest: set_takeWhileD set_dropWhileD)
  have "distinct (ls_insert_where h P n S h')" for h'
    using d m assms(1) by (auto simp: ls_insert_where_def)
  moreover have "h' = h''"
    if "x \<in> set (ls_insert_where h P n S h')" "x \<in> set (ls_insert_where h P n S h'')" for x h' h''
    using that lists_wf_same [OF assms(1)] assms(2)
    by (auto simp: set_insert_where unlinked_def split: if_splits)
  ultimately show ?thesis unfolding lists_wf_def by blast
qed

text \<open>
  The simulation: behind every head address the heap holds exactly the nodes of the store,
  and a node on no list is linked to itself.
\<close>

definition store_rep :: "('h \<Rightarrow> addr) \<Rightarrow> ('n \<Rightarrow> addr) \<Rightarrow> list_heap \<Rightarrow> ('h, 'n) store \<Rightarrow> bool" where
  "store_rep hd_of nd_of H S \<longleftrightarrow>
     inj hd_of \<and> inj nd_of \<and> (\<forall>h n. hd_of h \<noteq> nd_of n) \<and> lists_wf S \<and>
     (\<forall>h. dlist H (hd_of h) (map nd_of (S h))) \<and>
     (\<forall>n. unlinked n S \<longrightarrow> nxt H (nd_of n) = nd_of n \<and> prv H (nd_of n) = nd_of n)"

lemma dlist_frame:
  assumes "dlist H l xs" "\<And>x. x \<in> set (l # xs) \<Longrightarrow> nxt H' x = nxt H x \<and> prv H' x = prv H x"
  shows "dlist H' l xs"
  using assms seg_cong [of l xs H' H l] by (auto simp: dlist_def)

text \<open>
  One list changes; the routine writes only to that list's head, its nodes and the node moved.
\<close>

lemma store_rep_update:
  assumes r: "store_rep hd_of nd_of H S"
    and wf: "lists_wf (S(h := ys))"
    and d: "dlist H' (hd_of h) (map nd_of ys)"
    and ys: "insert n (set ys) = insert n (set (S h))"
    and free: "\<And>h'. h' \<noteq> h \<Longrightarrow> n \<notin> set (S h')"
    and fr: "\<And>x. x \<notin> insert (hd_of h) (insert (nd_of n) (nd_of ` set (S h))) \<Longrightarrow>
               nxt H' x = nxt H x \<and> prv H' x = prv H x"
    and n: "n \<notin> set ys \<Longrightarrow> nxt H' (nd_of n) = nd_of n \<and> prv H' (nd_of n) = nd_of n"
  shows "store_rep hd_of nd_of H' (S(h := ys))"
proof -
  from r have inj: "inj hd_of" "inj nd_of" "\<And>h n. hd_of h \<noteq> nd_of n" and w: "lists_wf S"
    by (auto simp: store_rep_def)
  have "dlist H' (hd_of h') (map nd_of ((S(h := ys)) h'))" for h'
  proof (cases "h' = h")
    case True
    with d show ?thesis by simp
  next
    case False
    have "dlist H (hd_of h') (map nd_of (S h'))" using r by (simp add: store_rep_def)
    then have "dlist H' (hd_of h') (map nd_of (S h'))"
      by (rule dlist_frame)
         (use False inj inj(3) [symmetric] free [OF False] lists_wf_same [OF w] in
            \<open>auto intro!: fr [THEN conjunct1] fr [THEN conjunct2] dest: injD\<close>)
    with False show ?thesis by simp
  qed
  moreover have "nxt H' (nd_of m) = nd_of m \<and> prv H' (nd_of m) = nd_of m"
    if m: "unlinked m (S(h := ys))" for m
  proof (cases "m = n")
    case True
    with n m show ?thesis by (simp add: unlinked_def split: if_splits)
  next
    case False
    then have "unlinked m S" using m ys unfolding unlinked_def
      by (metis fun_upd_apply insert_iff)
    moreover from this have "nd_of m \<notin> insert (hd_of h) (insert (nd_of n) (nd_of ` set (S h)))"
      using False inj(3) [of h m] injD [OF inj(2)] by (auto simp: unlinked_def)
    ultimately show ?thesis using r fr [of "nd_of m"] by (simp add: store_rep_def)
  qed
  ultimately show ?thesis using inj wf by (simp add: store_rep_def)
qed

text \<open>The pointer routines implement the list store.\<close>

lemma rep_insert_before:
  assumes r: "store_rep hd_of nd_of H S" and u: "unlinked n S"
  shows "store_rep hd_of nd_of (rt_list_insert_before (hd_of h) (nd_of n) H) (ls_insert_before h n S)"
proof -
  from r have inj: "inj hd_of" "inj nd_of" "\<And>h n. nd_of n \<noteq> hd_of h" and w: "lists_wf S"
    and d: "dlist H (hd_of h) (map nd_of (S h))"
    by (auto simp: store_rep_def dest: not_sym)
  have n: "nd_of n \<notin> set (hd_of h # map nd_of (S h))"
    using u inj by (auto simp: unlinked_def dest: injD)
  have p: "prv H (hd_of h) \<in> set (hd_of h # map nd_of (S h))"
    using dlist_head_neighbours(1) [OF d] last_Cons_mem [of "hd_of h" "map nd_of (S h)"] by auto
  have ne: "nd_of n \<noteq> hd_of h" "nd_of n \<noteq> prv H (hd_of h)" using n p by auto
  note f = insert_before_fields [OF ne]
  show ?thesis unfolding ls_insert_before_def
    by (rule store_rep_update [OF r, where n = n])
       (use u p n w dlist_insert_before_head [OF d n] lists_wf_insert_before [OF w u, of h] in
         \<open>auto simp: unlinked_def f ls_insert_before_def\<close>)
qed

lemma rep_insert_after:
  assumes r: "store_rep hd_of nd_of H S" and u: "unlinked n S"
  shows "store_rep hd_of nd_of (rt_list_insert_after (hd_of h) (nd_of n) H) (ls_insert_after h n S)"
proof -
  from r have inj: "inj hd_of" "inj nd_of" "\<And>h n. nd_of n \<noteq> hd_of h" and w: "lists_wf S"
    and d: "dlist H (hd_of h) (map nd_of (S h))"
    by (auto simp: store_rep_def dest: not_sym)
  have n: "nd_of n \<notin> set (hd_of h # map nd_of (S h))"
    using u inj by (auto simp: unlinked_def dest: injD)
  have p: "nxt H (hd_of h) \<in> set (hd_of h # map nd_of (S h))"
    using dlist_head_neighbours(2) [OF d] hd_app_mem [of "map nd_of (S h)" "hd_of h"] by auto
  have ne: "nd_of n \<noteq> hd_of h" "nd_of n \<noteq> nxt H (hd_of h)" using n p by auto
  note f = insert_after_fields [OF ne]
  show ?thesis unfolding ls_insert_after_def
    by (rule store_rep_update [OF r, where n = n])
       (use u p n w dlist_insert_after_head [OF d n] lists_wf_insert_after [OF w u, of h] in
         \<open>auto simp: unlinked_def f ls_insert_after_def\<close>)
qed

lemma rep_remove:
  assumes r: "store_rep hd_of nd_of H S"
  shows "store_rep hd_of nd_of (rt_list_remove (nd_of n) H) (ls_remove n S)"
proof (cases "unlinked n S")
  case True
  with r have "rt_list_remove (nd_of n) H = H"
    by (intro remove_unlinked) (auto simp: store_rep_def)
  with True r show ?thesis by (simp add: ls_remove_unlinked)
next
  case False
  then obtain h ys zs where sh: "S h = ys @ n # zs" by (auto simp: unlinked_def dest: split_list)
  from r have w: "lists_wf S" and d: "dlist H (hd_of h) (map nd_of (S h))"
    by (auto simp: store_rep_def)
  have other: "n \<notin> set (S h')" if "h' \<noteq> h" for h'
    using lists_wf_same [OF w, of n h h'] that sh by auto
  have dn: "distinct (ys @ n # zs)" using w sh by (metis lists_wf_distinct)
  have st: "ls_remove n S = S(h := ys @ zs)"
    using dn sh other by (auto simp: ls_remove_def fun_eq_iff)
  note d' = d [unfolded sh, simplified]
  note f = dlist_remove_fields [OF d']
  have q: "last (hd_of h # map nd_of ys) \<in> insert (hd_of h) (nd_of ` set (S h))"
    "hd (map nd_of zs @ [hd_of h]) \<in> insert (hd_of h) (nd_of ` set (S h))"
    using last_Cons_mem [of "hd_of h" "map nd_of ys"] hd_app_mem [of "map nd_of zs" "hd_of h"] sh
    by auto
  show ?thesis unfolding st
    by (rule store_rep_update [OF r, where n = n])
       (use other sh q st lists_wf_remove [OF w, of n] dlist_remove_node [OF d'] in
         \<open>auto simp: f remove_self\<close>)
qed

lemma rep_insert_where:
  assumes r: "store_rep hd_of nd_of H S" and u: "unlinked n S"
    and sh: "S h = ys @ x # zs" and P: "P x" and ys: "\<forall>y \<in> set ys. \<not> P y"
  shows "store_rep hd_of nd_of (rt_list_insert_before (nd_of x) (nd_of n) H) (ls_insert_where h P n S)"
proof -
  from r have inj: "inj hd_of" "inj nd_of" "\<And>h n. nd_of n \<noteq> hd_of h" and w: "lists_wf S"
    and d: "dlist H (hd_of h) (map nd_of (S h))"
    by (auto simp: store_rep_def dest: not_sym)
  have st: "ls_insert_where h P n S = S(h := ys @ n # x # zs)"
    using sh P ys by (simp add: ls_insert_where_def takeWhile_append dropWhile_append)
  have "n \<notin> set (S h)" using u by (simp add: unlinked_def)
  then have n: "nd_of n \<notin> set (hd_of h # map nd_of ys @ nd_of x # map nd_of zs)"
    using inj sh by (auto dest: injD)
  note d' = d [unfolded sh, simplified]
  have p: "prv H (nd_of x) \<in> insert (hd_of h) (nd_of ` set (S h))"
    using dlist_neighbours(1) [OF d'] last_Cons_mem [of "hd_of h" "map nd_of ys"] sh by auto
  have ne: "nd_of n \<noteq> nd_of x" "nd_of n \<noteq> prv H (nd_of x)" using n p sh by auto
  note f = insert_before_fields [OF ne]
  show ?thesis unfolding st
    by (rule store_rep_update [OF r, where n = n])
       (use u p n sh st lists_wf_insert_where [OF w u, of h P] dlist_insert_before_node [OF d' n] in
         \<open>auto simp: unlinked_def f\<close>)
qed

lemma rep_isempty: "store_rep hd_of nd_of H S \<Longrightarrow> rt_list_isempty (hd_of h) H \<longleftrightarrow> S h = []"
  by (auto simp: store_rep_def dest: isempty_dlist)

lemma rep_len: "store_rep hd_of nd_of H S \<Longrightarrow> rt_list_len (hd_of h) H = Some (of_nat (length (S h)))"
  using rt_list_len_dlist [of H "hd_of h" "map nd_of (S h)"] by (simp add: store_rep_def)

section \<open>The interface the kernel relies on\<close>

text \<open>
  What a client of the lists may assume: each routine acts on the store of sequences as its
  name says. The facts proved inside hold of any implementation.
\<close>

locale list_impl =
  fixes rep :: "'heap \<Rightarrow> ('h, 'n) store \<Rightarrow> bool"
    and ins_before :: "'h \<Rightarrow> 'n \<Rightarrow> 'heap \<Rightarrow> 'heap"
    and ins_after :: "'h \<Rightarrow> 'n \<Rightarrow> 'heap \<Rightarrow> 'heap"
    and unlink :: "'n \<Rightarrow> 'heap \<Rightarrow> 'heap"
    and isempty :: "'h \<Rightarrow> 'heap \<Rightarrow> bool"
  assumes before: "rep H S \<Longrightarrow> unlinked n S \<Longrightarrow> rep (ins_before h n H) (ls_insert_before h n S)"
    and after: "rep H S \<Longrightarrow> unlinked n S \<Longrightarrow> rep (ins_after h n H) (ls_insert_after h n S)"
    and unlink: "rep H S \<Longrightarrow> rep (unlink n H) (ls_remove n S)"
    and empty: "rep H S \<Longrightarrow> isempty h H \<longleftrightarrow> S h = []"
begin

text \<open>Moving a node to the end of a queue, from wherever it is (the core of a yield and of a resume).\<close>

lemma requeue: "rep H S \<Longrightarrow> rep (ins_before h n (unlink n H)) (ls_insert_before h n (ls_remove n S))"
  by (simp add: before unlink)

text \<open>Queueing a sequence of fresh nodes in order leaves them in that order behind what was there.\<close>

lemma queue_all:
  "\<lbrakk>rep H S; distinct ns; \<forall>n \<in> set ns. unlinked n S\<rbrakk>
   \<Longrightarrow> rep (fold (ins_before h) ns H) (S(h := S h @ ns))"
proof (induction ns arbitrary: H S)
  case Nil
  then show ?case by simp
next
  case (Cons n ns)
  have "rep (ins_before h n H) (ls_insert_before h n S)" using Cons.prems by (simp add: before)
  moreover have "\<forall>m \<in> set ns. unlinked m (ls_insert_before h n S)"
    using Cons.prems by (auto simp: unlinked_def ls_insert_before_def)
  ultimately have "rep (fold (ins_before h) ns (ins_before h n H))
      ((ls_insert_before h n S)(h := ls_insert_before h n S h @ ns))"
    using Cons.prems(2) by (intro Cons.IH) auto
  then show ?case by (simp add: ls_insert_before_def fun_upd_def cong: if_cong)
qed

lemma drained: "rep H S \<Longrightarrow> S h = [n] \<Longrightarrow> isempty h (unlink n H)"
  by (simp add: empty [OF unlink] ls_remove_def)

end

interpretation ring: list_impl "store_rep hd_of nd_of"
    "\<lambda>h n. rt_list_insert_before (hd_of h) (nd_of n)"
    "\<lambda>h n. rt_list_insert_after (hd_of h) (nd_of n)"
    "\<lambda>n. rt_list_remove (nd_of n)" "\<lambda>h. rt_list_isempty (hd_of h)"
  for hd_of :: "'h \<Rightarrow> addr" and nd_of :: "'n \<Rightarrow> addr"
  by unfold_locales (rule rep_insert_before rep_insert_after rep_remove rep_isempty; assumption)+

section \<open>Singly linked lists: what the heap holds\<close>

fun slist :: "slist_heap \<Rightarrow> addr option \<Rightarrow> addr list \<Rightarrow> bool" where
  "slist h p [] \<longleftrightarrow> p = None"
| "slist h p (x # xs) \<longleftrightarrow> p = Some x \<and> slist h (h x) xs"

lemma slist_frame: "slist h p xs \<Longrightarrow> n \<notin> set xs \<Longrightarrow> slist (h(n := v)) p xs"
  by (induction xs arbitrary: p) auto

lemma rt_slist_tail_slist: "slist h (h l) xs \<Longrightarrow> rt_slist_tail h l = Some (last (l # xs))"
  by (induction xs arbitrary: l) (subst rt_slist_tail.simps; auto)+

lemma slist_snoc:
  "\<lbrakk>slist h (h l) xs; distinct (l # xs); n \<notin> set (l # xs)\<rbrakk>
   \<Longrightarrow> slist (h(last (l # xs) := Some n, n := None)) ((h(last (l # xs) := Some n, n := None)) l) (xs @ [n])"
proof (induction xs arbitrary: l)
  case Nil
  then show ?case by auto
next
  case (Cons x xs)
  have "slist (h(last (x # xs) := Some n, n := None))
      ((h(last (x # xs) := Some n, n := None)) x) (xs @ [n])"
    by (rule Cons.IH) (use Cons.prems in auto)
  with Cons.prems show ?case by (auto simp: fun_upd_def split: if_splits)
qed

lemma rt_slist_append_slist:
  assumes "slist h (h l) xs" "distinct (l # xs)" "n \<notin> set (l # xs)"
  shows "\<exists>h'. rt_slist_append l n h = Some h' \<and> slist h' (h' l) (xs @ [n])"
  using slist_snoc [OF assms] rt_slist_tail_slist [OF assms(1)] by (simp add: rt_slist_append_def)

lemma rt_slist_insert_slist:
  assumes "slist h (h l) xs" "distinct (l # xs)" "n \<notin> set (l # xs)"
  shows "slist (rt_slist_insert l n h) (rt_slist_insert l n h l) (n # xs)"
  using assms by (auto simp: rt_slist_insert_def Let_def intro!: slist_frame)

lemma rt_slist_len_loop_slist:
  "slist h p xs \<Longrightarrow> rt_slist_len_loop h p k = Some (k + of_nat (length xs))"
proof (induction xs arbitrary: p k)
  case Nil
  then show ?case by (subst rt_slist_len_loop.simps) simp
next
  case (Cons x xs)
  then have "rt_slist_len_loop h p k = rt_slist_len_loop h (h x) (k + 1)"
    by (subst rt_slist_len_loop.simps) simp
  with Cons show ?case by (simp add: algebra_simps)
qed

lemma rt_slist_len_slist: "slist h (h l) xs \<Longrightarrow> rt_slist_len l h = Some (of_nat (length xs))"
  by (simp add: rt_slist_len_def rt_slist_len_loop_slist)

lemma rt_slist_find_mem:
  "slist h (h x) xs \<Longrightarrow> rt_slist_find h x n = Some node \<Longrightarrow> node \<in> insert x (set xs)"
proof (induction xs arbitrary: x)
  case Nil
  then show ?case by (subst (asm) rt_slist_find.simps) simp
next
  case (Cons y ys)
  then show ?case by (subst (asm) (2) rt_slist_find.simps) (auto split: if_splits)
qed

lemma rt_slist_remove_slist:
  assumes "slist h (h l) xs" "distinct (l # xs)"
  shows "\<exists>h'. rt_slist_remove l n h = Some h' \<and> slist h' (h' l) (remove1 n xs)"
  using assms
proof (induction xs arbitrary: l)
  case Nil
  then have "rt_slist_find h l n = Some l" by (subst rt_slist_find.simps) simp
  with Nil show ?case by (simp add: rt_slist_remove_def)
next
  case (Cons x xs)
  show ?case
  proof (cases "x = n")
    case True
    with Cons.prems have "rt_slist_find h l n = Some l" by (subst rt_slist_find.simps) simp
    with True Cons.prems show ?thesis by (auto simp: rt_slist_remove_def intro: slist_frame)
  next
    case False
    with Cons.prems have f: "rt_slist_find h l n = rt_slist_find h x n"
      by (subst rt_slist_find.simps) simp
    from Cons obtain h' where h': "rt_slist_remove x n h = Some h'" "slist h' (h' x) (remove1 n xs)"
      by auto
    have "h' l = h l"
    proof -
      obtain node where nd: "rt_slist_find h x n = Some node"
        and hh: "h' = (case h node of None \<Rightarrow> h | Some m \<Rightarrow> h(node := h m))"
        using h'(1) by (auto simp: rt_slist_remove_def split: option.splits)
      have "node \<in> insert x (set xs)"
        using nd Cons.prems by (auto dest!: rt_slist_find_mem)
      then show ?thesis using hh Cons.prems by (auto split: option.splits)
    qed
    with f h' Cons.prems False show ?thesis by (auto simp: rt_slist_remove_def)
  qed
qed

end
