(* ===== verification/Kservice.thy ===== *)
theory Kservice
  imports Prelude
begin

text \<open>
  The library routines of \<^verbatim>\<open>src/kservice.c\<close> the kernel is built on: find-first-set
  with its lookup table, the memory routines with their word-at-a-time fast paths, and the
  string routines. Memory is a function from addresses to bytes, little endian; a C string is
  the list of the bytes of its buffer, and reading past that buffer is \<open>None\<close>.
\<close>

section \<open>Find first set\<close>

definition lowest_bit_bitmap :: "nat list" where
  "lowest_bit_bitmap =
   [0, 0, 1, 0, 2, 0, 1, 0, 3, 0, 1, 0, 2, 0, 1, 0,
    4, 0, 1, 0, 2, 0, 1, 0, 3, 0, 1, 0, 2, 0, 1, 0,
    5, 0, 1, 0, 2, 0, 1, 0, 3, 0, 1, 0, 2, 0, 1, 0,
    4, 0, 1, 0, 2, 0, 1, 0, 3, 0, 1, 0, 2, 0, 1, 0,
    6, 0, 1, 0, 2, 0, 1, 0, 3, 0, 1, 0, 2, 0, 1, 0,
    4, 0, 1, 0, 2, 0, 1, 0, 3, 0, 1, 0, 2, 0, 1, 0,
    5, 0, 1, 0, 2, 0, 1, 0, 3, 0, 1, 0, 2, 0, 1, 0,
    4, 0, 1, 0, 2, 0, 1, 0, 3, 0, 1, 0, 2, 0, 1, 0,
    7, 0, 1, 0, 2, 0, 1, 0, 3, 0, 1, 0, 2, 0, 1, 0,
    4, 0, 1, 0, 2, 0, 1, 0, 3, 0, 1, 0, 2, 0, 1, 0,
    5, 0, 1, 0, 2, 0, 1, 0, 3, 0, 1, 0, 2, 0, 1, 0,
    4, 0, 1, 0, 2, 0, 1, 0, 3, 0, 1, 0, 2, 0, 1, 0,
    6, 0, 1, 0, 2, 0, 1, 0, 3, 0, 1, 0, 2, 0, 1, 0,
    4, 0, 1, 0, 2, 0, 1, 0, 3, 0, 1, 0, 2, 0, 1, 0,
    5, 0, 1, 0, 2, 0, 1, 0, 3, 0, 1, 0, 2, 0, 1, 0,
    4, 0, 1, 0, 2, 0, 1, 0, 3, 0, 1, 0, 2, 0, 1, 0]"

definition rt_ffs :: "u32 \<Rightarrow> nat" where
  "rt_ffs v =
     (if v = 0 then 0
      else if v AND 0xff \<noteq> 0 then lowest_bit_bitmap ! unat (v AND 0xff) + 1
      else if v AND 0xff00 \<noteq> 0 then lowest_bit_bitmap ! unat (drop_bit 8 (v AND 0xff00)) + 9
      else if v AND 0xff0000 \<noteq> 0 then lowest_bit_bitmap ! unat (drop_bit 16 (v AND 0xff0000)) + 17
      else lowest_bit_bitmap ! unat (drop_bit 24 (v AND 0xff000000)) + 25)"

text \<open>The table holds, for every non-zero byte, the index of its lowest bit.\<close>

definition lowest_bit :: "nat \<Rightarrow> nat \<Rightarrow> bool" where
  "lowest_bit k n \<longleftrightarrow> bit n k \<and> (\<forall>i < k. \<not> bit n i)"

fun bitmap_gen :: "nat \<Rightarrow> nat list" where
  "bitmap_gen 0 = [0]"
| "bitmap_gen (Suc k) = bitmap_gen k @ (bitmap_gen k)[0 := k]"

lemma bitmap_gen_8: "lowest_bit_bitmap = bitmap_gen 8"
  by (simp add: lowest_bit_bitmap_def eval_nat_numeral)

lemma length_bitmap_gen [simp]: "length (bitmap_gen k) = 2 ^ k"
  by (induction k) simp_all

lemma bit_add_pow2:
  assumes "i < k" shows "bit (2 ^ k + m :: nat) i \<longleftrightarrow> bit m i"
proof -
  have "(2 ^ k + m) div 2 ^ i = 2 ^ (k - i) + m div 2 ^ i"
  proof -
    have "(2::nat) ^ k = 2 ^ i * 2 ^ (k - i)" using assms by (simp flip: power_add)
    then show ?thesis by simp
  qed
  then show ?thesis using assms by (simp add: bit_iff_odd)
qed

lemma bitmap_gen_lowest:
  "0 < n \<Longrightarrow> n < 2 ^ k \<Longrightarrow> bitmap_gen k ! n < k \<and> lowest_bit (bitmap_gen k ! n) n"
proof (induction k arbitrary: n)
  case 0
  then show ?case by simp
next
  case (Suc k)
  show ?case
  proof (cases "n < 2 ^ k")
    case True
    with Suc show ?thesis by (simp add: nth_append less_Suc_eq)
  next
    case False
    define m where "m = n - 2 ^ k"
    have n: "n = 2 ^ k + m" and m: "m < 2 ^ k" using False Suc.prems by (simp_all add: m_def)
    have nth: "bitmap_gen (Suc k) ! n = (if m = 0 then k else bitmap_gen k ! m)"
      using n m by (simp add: nth_append nth_list_update)
    show ?thesis
    proof (cases "m = 0")
      case True
      then show ?thesis using nth n by (auto simp: lowest_bit_def bit_exp_iff)
    next
      case False
      then have "bitmap_gen k ! m < k" "lowest_bit (bitmap_gen k ! m) m"
        using Suc.IH [of m] m by auto
      then show ?thesis using False n nth by (auto simp: lowest_bit_def bit_add_pow2)
    qed
  qed
qed

lemma lowest_bit_bitmap_correct:
  "0 < n \<Longrightarrow> n < 256 \<Longrightarrow> lowest_bit_bitmap ! n < 8 \<and> lowest_bit (lowest_bit_bitmap ! n) n"
  using bitmap_gen_lowest [of n 8] by (simp add: bitmap_gen_8)

text \<open>One byte of the word: bits \<open>k\<close> to \<open>k + 7\<close>, with the bits below all zero.\<close>

lemma bit_byte: "bit (unat (drop_bit k v AND (0xff :: u32))) i \<longleftrightarrow> bit v (k + i) \<and> i < 8"
proof -
  have "drop_bit k v AND (0xff :: u32) = take_bit 8 (drop_bit k v)"
    by (simp add: take_bit_eq_mask mask_eq_exp_minus_1)
  then show ?thesis
    by (auto simp: bit_unsigned_iff bit_take_bit_iff bit_drop_bit_eq)
qed

lemma byte_less: "unat (drop_bit k v AND (0xff :: u32)) < 256"
proof -
  have "drop_bit k v AND (0xff :: u32) \<le> 0xff" by (rule word_and_le1)
  then have "unat (drop_bit k v AND (0xff :: u32)) \<le> unat (0xff :: u32)" by (simp add: word_le_nat_alt)
  then show ?thesis by simp
qed

lemma byte_lowest:
  assumes "drop_bit k v AND (0xff :: u32) \<noteq> 0" "\<forall>i < k. \<not> bit v i"
  defines "b \<equiv> lowest_bit_bitmap ! unat (drop_bit k v AND (0xff :: u32))"
  shows "bit v (k + b) \<and> (\<forall>i < k + b. \<not> bit v i)"
proof -
  have "0 < unat (drop_bit k v AND (0xff :: u32))" using assms(1) by (simp add: unat_gt_0)
  then have b: "b < 8" "lowest_bit b (unat (drop_bit k v AND (0xff :: u32)))"
    using lowest_bit_bitmap_correct byte_less unfolding b_def by blast+
  then have "bit v (k + b)" and low: "\<And>i. i < b \<Longrightarrow> \<not> bit v (k + i)"
    by (auto simp: lowest_bit_def bit_byte)
  moreover have "\<not> bit v i" if "i < k + b" for i
    using that assms(2) low [of "i - k"] by (cases "i < k") auto
  ultimately show ?thesis by blast
qed

lemma byte_first_set:
  assumes "drop_bit k v AND (0xff :: u32) \<noteq> 0" "\<forall>i < k. \<not> bit v i"
    and "r = lowest_bit_bitmap ! unat (drop_bit k v AND (0xff :: u32)) + Suc k"
  shows "0 < r \<and> bit v (r - 1) \<and> (\<forall>i < r - 1. \<not> bit v i)"
proof -
  have "r - 1 = k + lowest_bit_bitmap ! unat (drop_bit k v AND (0xff :: u32))" "0 < r"
    using assms(3) by simp_all
  with byte_lowest [OF assms(1,2)] show ?thesis by metis
qed

lemma byte_masks:
  "drop_bit 8 (v AND 0xff00) = drop_bit 8 v AND (0xff :: u32)"
  "drop_bit 16 (v AND 0xff0000) = drop_bit 16 v AND (0xff :: u32)"
  "drop_bit 24 (v AND 0xff000000) = drop_bit 24 v AND (0xff :: u32)"
  by (simp_all add: drop_bit_and)

lemma byte_zero:
  assumes "drop_bit k v AND (0xff :: u32) = 0" "\<forall>i < k. \<not> bit v i"
  shows "\<forall>i < k + 8. \<not> bit v i"
proof (intro allI impI)
  fix i assume i: "i < k + 8"
  show "\<not> bit v i"
  proof (cases "i < k")
    case True
    with assms(2) show ?thesis by blast
  next
    case False
    have "\<not> bit (unat (drop_bit k v AND (0xff :: u32))) (i - k)" using assms(1) by simp
    with False i show ?thesis by (auto simp: bit_byte)
  qed
qed

lemma masked_zero_gen:
  fixes v :: u32
  assumes "k + 8 \<le> 32"
  shows "v AND push_bit k 0xff = 0 \<longleftrightarrow> drop_bit k v AND 0xff = 0"
proof -
  have "v AND push_bit k 0xff = push_bit k (drop_bit k v AND 0xff)"
    by (rule bit_word_eqI) (auto simp: bit_simps)
  moreover have "x = 0" if "push_bit k x = 0" "\<And>i. bit x i \<Longrightarrow> i < 8" for x :: u32
  proof (rule bit_word_eqI)
    fix i assume "i < LENGTH(32)"
    have "\<not> bit (push_bit k x) (k + i)" unfolding that(1) by simp
    with that(2) [of i] assms show "bit x i = bit (0 :: u32) i"
      by (auto simp: bit_push_bit_iff)
  qed
  moreover have "bit (drop_bit k v AND 0xff) i \<Longrightarrow> i < 8" for i
    using bit_byte [of k v i] by (simp add: bit_unsigned_iff)
  ultimately show ?thesis by (metis push_bit_of_0)
qed

lemma masked_zero:
  "v AND 0xff00 = 0 \<longleftrightarrow> drop_bit 8 v AND (0xff :: u32) = 0"
  "v AND 0xff0000 = 0 \<longleftrightarrow> drop_bit 16 v AND (0xff :: u32) = 0"
  using masked_zero_gen [of 8 v] masked_zero_gen [of 16 v] by simp_all

lemma rt_ffs_zero [simp]: "rt_ffs 0 = 0"
  by (simp add: rt_ffs_def)

lemma rt_ffs_bytes:
  "rt_ffs v =
     (if v = 0 then 0
      else if v AND 0xff \<noteq> 0 then lowest_bit_bitmap ! unat (v AND 0xff) + 1
      else if drop_bit 8 v AND 0xff \<noteq> 0 then lowest_bit_bitmap ! unat (drop_bit 8 v AND 0xff) + 9
      else if drop_bit 16 v AND 0xff \<noteq> 0 then lowest_bit_bitmap ! unat (drop_bit 16 v AND 0xff) + 17
      else lowest_bit_bitmap ! unat (drop_bit 24 v AND 0xff) + 25)"
  unfolding rt_ffs_def byte_masks masked_zero ..

text \<open>The result is the one-based index of the lowest bit set.\<close>

lemma rt_ffs_lowest:
  assumes "v \<noteq> 0"
  shows "0 < rt_ffs v \<and> bit v (rt_ffs v - 1) \<and> (\<forall>i < rt_ffs v - 1. \<not> bit v i)"
proof -
  have z8: "\<forall>i < 8. \<not> bit v i" if "v AND 0xff = 0"
    using byte_zero [of 0 v] that by simp
  have z16: "\<forall>i < 16. \<not> bit v i" if "v AND 0xff = 0" "v AND 0xff00 = 0"
    using byte_zero [OF that(2) [unfolded masked_zero] z8 [OF that(1)]] by simp
  have z24: "\<forall>i < 24. \<not> bit v i" if "v AND 0xff = 0" "v AND 0xff00 = 0" "v AND 0xff0000 = 0"
    using byte_zero [OF that(3) [unfolded masked_zero] z16 [OF that(1,2)]] by simp
  consider (a) "v AND 0xff \<noteq> 0" | (b) "v AND 0xff = 0" "v AND 0xff00 \<noteq> 0"
    | (c) "v AND 0xff = 0" "v AND 0xff00 = 0" "v AND 0xff0000 \<noteq> 0"
    | (d) "v AND 0xff = 0" "v AND 0xff00 = 0" "v AND 0xff0000 = 0" by blast
  then show ?thesis
  proof cases
    case a
    then show ?thesis using assms by (intro byte_first_set [of 0]) (simp_all add: rt_ffs_bytes)
  next
    case b
    from z8 [OF b(1)] b assms show ?thesis
      by (intro byte_first_set [of 8]) (simp_all add: rt_ffs_bytes masked_zero)
  next
    case c
    from z16 [OF c(1,2)] c assms show ?thesis
      by (intro byte_first_set [of 16]) (simp_all add: rt_ffs_bytes masked_zero)
  next
    case d
    then have z: "\<forall>i < 24. \<not> bit v i" by (rule z24)
    have nz: "drop_bit 24 v AND 0xff \<noteq> 0"
    proof
      assume "drop_bit 24 v AND 0xff = 0"
      from byte_zero [OF this z] have "\<forall>i < 32. \<not> bit v i" by simp
      then have "v = 0" by (intro bit_word_eqI) simp
      with assms show False ..
    qed
    with d z assms show ?thesis
      by (intro byte_first_set [of 24]) (simp_all add: rt_ffs_bytes masked_zero)
  qed
qed

lemma rt_ffs_le: "rt_ffs v \<le> 32"
proof (cases "v = 0")
  case False
  then have "rt_ffs v - 1 < 32" using rt_ffs_lowest [of v] bit_imp_le_length [of v] by auto
  then show ?thesis by simp
qed simp

lemma rt_ffs_eqI: "bit v k \<Longrightarrow> \<forall>i < k. \<not> bit v i \<Longrightarrow> rt_ffs v = Suc k"
proof -
  assume b: "bit v k" and l: "\<forall>i < k. \<not> bit v i"
  then have "v \<noteq> 0" by auto
  from rt_ffs_lowest [OF this] b l have "rt_ffs v - 1 = k" "0 < rt_ffs v"
    by (metis linorder_neqE_nat)+
  then show ?thesis by simp
qed

section \<open>Memory routines\<close>

type_synonym memory = "nat \<Rightarrow> u8"

definition store32 :: "nat \<Rightarrow> u32 \<Rightarrow> memory \<Rightarrow> memory" where
  "store32 a w m = m(a := ucast w, a + 1 := ucast (drop_bit 8 w),
                     a + 2 := ucast (drop_bit 16 w), a + 3 := ucast (drop_bit 24 w))"

definition load32 :: "nat \<Rightarrow> memory \<Rightarrow> u32" where
  "load32 a m = ucast (m a) OR push_bit 8 (ucast (m (a + 1)))
     OR push_bit 16 (ucast (m (a + 2))) OR push_bit 24 (ucast (m (a + 3)))"

subsection \<open>The code\<close>

text \<open>\<^verbatim>\<open>rt_memset\<close>: four words at a time, then words, then bytes.\<close>

fun memset_blocks :: "nat \<Rightarrow> nat \<Rightarrow> u32 \<Rightarrow> memory \<Rightarrow> nat \<times> nat \<times> memory" where
  "memset_blocks a count buffer m =
     (if count \<ge> 16
      then memset_blocks (a + 16) (count - 16) buffer
             (store32 (a + 12) buffer (store32 (a + 8) buffer
               (store32 (a + 4) buffer (store32 a buffer m))))
      else (a, count, m))"

fun memset_words :: "nat \<Rightarrow> nat \<Rightarrow> u32 \<Rightarrow> memory \<Rightarrow> nat \<times> nat \<times> memory" where
  "memset_words a count buffer m =
     (if count \<ge> 4 then memset_words (a + 4) (count - 4) buffer (store32 a buffer m)
      else (a, count, m))"

fun memset_bytes :: "nat \<Rightarrow> nat \<Rightarrow> u8 \<Rightarrow> memory \<Rightarrow> memory" where
  "memset_bytes a 0 d m = m"
| "memset_bytes a (Suc count) d m = memset_bytes (a + 1) count d (m(a := d))"

definition rt_memset :: "nat \<Rightarrow> u32 \<Rightarrow> nat \<Rightarrow> memory \<Rightarrow> memory" where
  "rt_memset s c count m =
     (let d = c AND 0xff in
      if \<not> count < 4 \<and> s mod 4 = 0
      then let buffer = push_bit 8 d OR d;
               buffer = buffer OR push_bit 16 buffer;
               (a, count, m) = memset_blocks s count buffer m;
               (a, count, m) = memset_words a count buffer m
           in memset_bytes a count (ucast d) m
      else memset_bytes s count (ucast d) m)"

text \<open>\<^verbatim>\<open>rt_memcpy\<close>: the same three loops, from \<open>s\<close> to \<open>d\<close>.\<close>

definition copy32 :: "nat \<Rightarrow> nat \<Rightarrow> memory \<Rightarrow> memory" where
  "copy32 d s m = store32 d (load32 s m) m"

fun memcpy_blocks :: "nat \<Rightarrow> nat \<Rightarrow> nat \<Rightarrow> memory \<Rightarrow> nat \<times> nat \<times> nat \<times> memory" where
  "memcpy_blocks d s len m =
     (if len \<ge> 16
      then memcpy_blocks (d + 16) (s + 16) (len - 16)
             (copy32 (d + 12) (s + 12) (copy32 (d + 8) (s + 8)
               (copy32 (d + 4) (s + 4) (copy32 d s m))))
      else (d, s, len, m))"

fun memcpy_words :: "nat \<Rightarrow> nat \<Rightarrow> nat \<Rightarrow> memory \<Rightarrow> nat \<times> nat \<times> nat \<times> memory" where
  "memcpy_words d s len m =
     (if len \<ge> 4 then memcpy_words (d + 4) (s + 4) (len - 4) (copy32 d s m) else (d, s, len, m))"

fun memcpy_bytes :: "nat \<Rightarrow> nat \<Rightarrow> nat \<Rightarrow> memory \<Rightarrow> memory" where
  "memcpy_bytes d s 0 m = m"
| "memcpy_bytes d s (Suc len) m = memcpy_bytes (d + 1) (s + 1) len (m(d := m s))"

definition rt_memcpy :: "nat \<Rightarrow> nat \<Rightarrow> nat \<Rightarrow> memory \<Rightarrow> memory" where
  "rt_memcpy dst src count m =
     (if \<not> count < 16 \<and> src mod 4 = 0 \<and> dst mod 4 = 0
      then let (d, s, len, m) = memcpy_blocks dst src count m;
               (d, s, len, m) = memcpy_words d s len m
           in memcpy_bytes d s len m
      else memcpy_bytes dst src count m)"

fun memmove_down :: "nat \<Rightarrow> nat \<Rightarrow> nat \<Rightarrow> memory \<Rightarrow> memory" where
  "memmove_down tmp s 0 m = m"
| "memmove_down tmp s (Suc n) m = memmove_down tmp s n (m(tmp + n := m (s + n)))"

definition rt_memmove :: "nat \<Rightarrow> nat \<Rightarrow> nat \<Rightarrow> memory \<Rightarrow> memory" where
  "rt_memmove dest src n m =
     (if src < dest \<and> dest < src + n then memmove_down dest src n m
      else memcpy_bytes dest src n m)"

fun rt_memcmp :: "nat \<Rightarrow> nat \<Rightarrow> nat \<Rightarrow> memory \<Rightarrow> int" where
  "rt_memcmp cs ct 0 m = 0"
| "rt_memcmp cs ct (Suc count) m =
     (if uint (m cs) - uint (m ct) \<noteq> 0 then uint (m cs) - uint (m ct)
      else rt_memcmp (cs + 1) (ct + 1) count m)"

declare memset_blocks.simps [simp del] memset_words.simps [simp del]
  memcpy_blocks.simps [simp del] memcpy_words.simps [simp del]

subsection \<open>What they compute\<close>

definition filled :: "nat \<Rightarrow> nat \<Rightarrow> u8 \<Rightarrow> memory \<Rightarrow> memory" where
  "filled a n d m = (\<lambda>x. if a \<le> x \<and> x < a + n then d else m x)"

definition copied :: "nat \<Rightarrow> nat \<Rightarrow> nat \<Rightarrow> memory \<Rightarrow> memory" where
  "copied d s n m = (\<lambda>x. if d \<le> x \<and> x < d + n then m (s + (x - d)) else m x)"

lemma filled_0 [simp]: "filled a 0 d m = m"
  by (auto simp: filled_def fun_eq_iff)

lemma filled_filled: "filled (a + k) n d (filled a k d m) = filled a (k + n) d m"
  by (auto simp: filled_def)

lemma upd_eq_filled: "m(a := d) = filled a 1 d m"
  by (auto simp: filled_def)

lemma memset_bytes_filled: "memset_bytes a n d m = filled a n d m"
proof (induction n arbitrary: a m)
  case (Suc n)
  then show ?case using filled_filled [of a 1 n d m] by (simp add: upd_eq_filled)
qed simp

text \<open>Every byte of the replicated word is the byte.\<close>

definition splat :: "u8 \<Rightarrow> u32 \<Rightarrow> bool" where
  "splat d w \<longleftrightarrow> ucast w = d \<and> ucast (drop_bit 8 w) = d \<and> ucast (drop_bit 16 w) = d \<and> ucast (drop_bit 24 w) = d"

lemma splat_buffer:
  fixes c :: u32
  defines "b \<equiv> push_bit 8 (c AND 0xff) OR (c AND 0xff)"
  shows "splat (ucast (c AND 0xff)) (b OR push_bit 16 b)"
proof -
  have m: "(0xff :: u32) = mask 8" by (simp add: mask_eq_exp_minus_1)
  show ?thesis unfolding splat_def b_def m
    by (intro conjI; rule bit_word_eqI) (auto simp: bit_simps)
qed

lemma store32_splat: "splat d w \<Longrightarrow> store32 a w m = filled a 4 d m"
  by (rule ext) (auto simp: store32_def filled_def splat_def)

lemma memset_words_filled:
  "splat d w \<Longrightarrow> memset_words a n w m = (a', n', m') \<Longrightarrow>
     memset_bytes a' n' d m' = filled a n d m"
proof (induction a n w m rule: memset_words.induct)
  case (1 a n w m)
  show ?case
  proof (cases "n \<ge> 4")
    case True
    then have "memset_bytes a' n' d m' = filled (a + 4) (n - 4) d (store32 a w m)"
      using "1.prems" by (intro "1.IH") (simp_all add: memset_words.simps [of a n])
    then show ?thesis using True "1.prems"(1) filled_filled [of a 4 "n - 4" d m]
      by (simp add: store32_splat)
  next
    case False
    then show ?thesis using "1.prems" by (simp add: memset_words.simps [of a n] memset_bytes_filled)
  qed
qed

lemma memset_blocks_filled:
  "splat d w \<Longrightarrow> memset_blocks a n w m = (a', n', m') \<Longrightarrow>
     filled a' n' d m' = filled a n d m"
proof (induction a n w m rule: memset_blocks.induct)
  case (1 a n w m)
  show ?case
  proof (cases "n \<ge> 16")
    case True
    have f: "store32 (a + 12) w (store32 (a + 8) w (store32 (a + 4) w (store32 a w m))) = filled a 16 d m"
      using "1.prems"(1) filled_filled [of a 12 4 d m] filled_filled [of a 8 4 d m]
        filled_filled [of a 4 4 d m] by (simp add: store32_splat)
    have "filled a' n' d m' = filled (a + 16) (n - 16) d (filled a 16 d m)"
      using True "1.prems" unfolding f [symmetric]
      by (intro "1.IH") (simp_all add: memset_blocks.simps [of a n])
    then show ?thesis using True filled_filled [of a 16 "n - 16" d m] by simp
  next
    case False
    then show ?thesis using "1.prems" by (simp add: memset_blocks.simps [of a n])
  qed
qed

lemma rt_memset_filled: "rt_memset s c n m = filled s n (ucast (c AND 0xff)) m"
proof (cases "\<not> n < 4 \<and> s mod 4 = 0")
  case True
  define b where "b = push_bit 8 (c AND 0xff) OR (c AND 0xff)"
  obtain a n' m' where mb: "memset_blocks s n (b OR push_bit 16 b) m = (a, n', m')"
    by (metis prod_cases3)
  obtain a2 n2 m2 where mw: "memset_words a n' (b OR push_bit 16 b) m' = (a2, n2, m2)"
    by (metis prod_cases3)
  note sp = splat_buffer [of c, folded b_def]
  have "rt_memset s c n m = memset_bytes a2 n2 (ucast (c AND 0xff)) m2"
    using True mb mw by (simp add: rt_memset_def b_def Let_def)
  then show ?thesis
    using memset_words_filled [OF sp mw] memset_blocks_filled [OF sp mb] by simp
next
  case False
  then show ?thesis unfolding rt_memset_def Let_def if_not_P [OF False] by (intro memset_bytes_filled)
qed

text \<open>
  Copying upwards is right when the destination does not lie inside the source block: it starts
  at or below the source, or at or above the source's end.
\<close>

definition forward_safe :: "nat \<Rightarrow> nat \<Rightarrow> nat \<Rightarrow> bool" where
  "forward_safe d s n \<longleftrightarrow> d \<le> s \<or> s + n \<le> d"

lemma copied_0 [simp]: "copied d s 0 m = m"
  by (auto simp: copied_def fun_eq_iff)

lemma copied_copied:
  "forward_safe d s (k + n) \<Longrightarrow> copied (d + k) (s + k) n (copied d s k m) = copied d s (k + n) m"
  by (rule ext) (auto simp: copied_def forward_safe_def)

lemma upd_eq_copied: "m(d := m s) = copied d s 1 m"
  by (auto simp: copied_def fun_eq_iff)

lemma memcpy_bytes_copied: "forward_safe d s n \<Longrightarrow> memcpy_bytes d s n m = copied d s n m"
proof (induction n arbitrary: d s m)
  case (Suc n)
  then have "memcpy_bytes (d + 1) (s + 1) n (m(d := m s)) = copied (d + 1) (s + 1) n (m(d := m s))"
    by (intro Suc.IH) (auto simp: forward_safe_def)
  then show ?case using copied_copied [of d s 1 n m] Suc.prems by (simp add: upd_eq_copied)
qed simp

lemma memmove_down_copied: "s \<le> d \<Longrightarrow> memmove_down d s n m = copied d s n m"
proof (induction n arbitrary: m)
  case (Suc n)
  then have "memmove_down d s (Suc n) m = copied d s n (m(d + n := m (s + n)))" by simp
  also have "\<dots> = copied d s (Suc n) m" using Suc.prems by (auto simp: copied_def fun_eq_iff less_Suc_eq)
  finally show ?case .
qed simp

lemma load32_bytes:
  "ucast (load32 a m) = m a" "ucast (drop_bit 8 (load32 a m)) = m (a + 1)"
  "ucast (drop_bit 16 (load32 a m)) = m (a + 2)" "ucast (drop_bit 24 (load32 a m)) = m (a + 3)"
  by (rule bit_word_eqI; auto simp: load32_def bit_simps dest: bit_imp_le_length)+

lemma copy32_copied: "copy32 d s m = copied d s 4 m"
proof
  fix x
  consider "x = d" | "x = d + 1" | "x = d + 2" | "x = d + 3" | "x < d \<or> d + 4 \<le> x" by linarith
  then show "copy32 d s m x = copied d s 4 m x"
    by cases (auto simp: copy32_def store32_def copied_def load32_bytes)
qed

lemma memcpy_words_copied:
  "forward_safe d s n \<Longrightarrow> memcpy_words d s n m = (d', s', n', m') \<Longrightarrow>
     memcpy_bytes d' s' n' m' = copied d s n m"
proof (induction d s n m rule: memcpy_words.induct)
  case (1 d s n m)
  show ?case
  proof (cases "n \<ge> 4")
    case True
    then have "memcpy_bytes d' s' n' m' = copied (d + 4) (s + 4) (n - 4) (copy32 d s m)"
      using "1.prems" by (intro "1.IH") (auto simp: memcpy_words.simps [of d s n] forward_safe_def)
    then show ?thesis using True "1.prems"(1) copied_copied [of d s 4 "n - 4" m]
      by (simp add: copy32_copied)
  next
    case False
    then show ?thesis using "1.prems" by (simp add: memcpy_words.simps [of d s n] memcpy_bytes_copied)
  qed
qed

lemma memcpy_blocks_copied:
  "forward_safe d s n \<Longrightarrow> memcpy_blocks d s n m = (d', s', n', m') \<Longrightarrow>
     forward_safe d' s' n' \<and> copied d' s' n' m' = copied d s n m"
proof (induction d s n m rule: memcpy_blocks.induct)
  case (1 d s n m)
  show ?case
  proof (cases "n \<ge> 16")
    case True
    have sf: "forward_safe d s k" if "k \<le> 16" for k
      using True "1.prems"(1) that by (auto simp: forward_safe_def)
    have f: "copy32 (d + 12) (s + 12) (copy32 (d + 8) (s + 8) (copy32 (d + 4) (s + 4) (copy32 d s m)))
        = copied d s 16 m"
      using copied_copied [of d s 12 4 m] copied_copied [of d s 8 4 m] copied_copied [of d s 4 4 m]
      by (simp add: copy32_copied sf)
    have "forward_safe d' s' n' \<and> copied d' s' n' m' = copied (d + 16) (s + 16) (n - 16) (copied d s 16 m)"
      using True "1.prems" unfolding f [symmetric]
      by (intro "1.IH") (auto simp: memcpy_blocks.simps [of d s n] forward_safe_def)
    then show ?thesis using True "1.prems"(1) copied_copied [of d s 16 "n - 16" m] by simp
  next
    case False
    then show ?thesis using "1.prems" by (simp add: memcpy_blocks.simps [of d s n])
  qed
qed

lemma rt_memcpy_copied:
  assumes "forward_safe d s n" shows "rt_memcpy d s n m = copied d s n m"
proof (cases "\<not> n < 16 \<and> s mod 4 = 0 \<and> d mod 4 = 0")
  case True
  obtain d1 s1 n1 m1 where mb: "memcpy_blocks d s n m = (d1, s1, n1, m1)" by (metis prod_cases4)
  obtain d2 s2 n2 m2 where mw: "memcpy_words d1 s1 n1 m1 = (d2, s2, n2, m2)" by (metis prod_cases4)
  have "rt_memcpy d s n m = memcpy_bytes d2 s2 n2 m2" using True mb mw by (simp add: rt_memcpy_def)
  then show ?thesis
    using memcpy_blocks_copied [OF assms mb] memcpy_words_copied [OF _ mw] by simp
next
  case False
  then show ?thesis unfolding rt_memcpy_def if_not_P [OF False] by (intro memcpy_bytes_copied assms)
qed

lemma rt_memmove_copied: "rt_memmove d s n m = copied d s n m"
proof (cases "s < d \<and> d < s + n")
  case True
  then show ?thesis unfolding rt_memmove_def if_P [OF True] by (intro memmove_down_copied) simp
next
  case False
  then have "forward_safe d s n" by (auto simp: forward_safe_def)
  then show ?thesis unfolding rt_memmove_def if_not_P [OF False] by (rule memcpy_bytes_copied)
qed

lemma rt_memcmp_zero: "rt_memcmp a b n m = 0 \<longleftrightarrow> (\<forall>i < n. m (a + i) = m (b + i))"
proof (induction n arbitrary: a b)
  case (Suc n)
  show ?case
    using Suc.IH [of "a + 1" "b + 1"] by (auto simp: less_Suc_eq_0_disj word_uint_eq_iff)
qed simp

section \<open>String routines\<close>

text \<open>A buffer is the list of its bytes; running off its end is \<open>None\<close>.\<close>

type_synonym cbuf = "u8 list"

subsection \<open>The code\<close>

text \<open>
  \<^verbatim>\<open>rt_strncpy\<close>: the inner loop pads with zeros once the terminator has been copied;
  the first argument is the rest of the destination.
\<close>

fun rt_strncpy :: "cbuf \<Rightarrow> cbuf \<Rightarrow> nat \<Rightarrow> cbuf option" where
  "rt_strncpy d s 0 = Some d"
| "rt_strncpy (_ # d) (c # s) (Suc n) =
     (if c = 0 then (if length d < n then None else Some (0 # replicate n 0 @ drop n d))
      else map_option ((#) c) (rt_strncpy d s n))"
| "rt_strncpy _ _ (Suc n) = None"

text \<open>
  \<^verbatim>\<open>rt_strncmp\<close>: the difference of the two bytes is stored in a
  \<^verbatim>\<open>signed char\<close>, so it is reduced to eight bits and read as two's complement.
\<close>

fun rt_strncmp :: "cbuf \<Rightarrow> cbuf \<Rightarrow> nat \<Rightarrow> int option" where
  "rt_strncmp cs ct 0 = Some 0"
| "rt_strncmp (c # cs) (t # ct) (Suc n) =
     (if c - t \<noteq> 0 \<or> c = 0 then Some (sint (c - t)) else rt_strncmp cs ct n)"
| "rt_strncmp _ _ (Suc n) = None"

fun rt_strcmp :: "cbuf \<Rightarrow> cbuf \<Rightarrow> int option" where
  "rt_strcmp (c # cs) (t # ct) =
     (if c \<noteq> 0 \<and> c = t then rt_strcmp cs ct else Some (uint c - uint t))"
| "rt_strcmp _ _ = None"

text \<open>\<^verbatim>\<open>rt_strnlen\<close> reads the next byte before it compares the count with the bound.\<close>

fun rt_strnlen :: "cbuf \<Rightarrow> nat \<Rightarrow> nat option" where
  "rt_strnlen [] maxlen = None"
| "rt_strnlen (c # s) maxlen =
     (if c \<noteq> 0 \<and> 0 < maxlen then map_option Suc (rt_strnlen s (maxlen - 1)) else Some 0)"

fun rt_strlen :: "cbuf \<Rightarrow> nat option" where
  "rt_strlen [] = None"
| "rt_strlen (c # s) = (if c \<noteq> 0 then map_option Suc (rt_strlen s) else Some 0)"

fun to_lower :: "u8 \<Rightarrow> u8" where
  "to_lower c = (if 65 \<le> c \<and> c \<le> 90 then c + 32 else c)"

fun rt_strcasecmp :: "cbuf \<Rightarrow> cbuf \<Rightarrow> int option" where
  "rt_strcasecmp (a # as) (b # bs) =
     (let ca = to_lower a; cb = to_lower b
      in if ca = cb \<and> ca \<noteq> 0 then rt_strcasecmp as bs else Some (uint ca - uint cb))"
| "rt_strcasecmp _ _ = None"

text \<open>\<^verbatim>\<open>rt_strstr\<close> returns the offset of the match; \<open>l1\<close> is the length left.\<close>

fun strstr_loop :: "cbuf \<Rightarrow> cbuf \<Rightarrow> nat \<Rightarrow> nat \<Rightarrow> nat \<Rightarrow> nat option" where
  "strstr_loop s1 s2 l1 l2 off =
     (if l2 \<le> l1 \<and> 0 < l1
      then if take l2 s1 = take l2 s2 then Some off
           else strstr_loop (tl s1) s2 (l1 - 1) l2 (off + 1)
      else None)"

declare strstr_loop.simps [simp del]

definition rt_strstr :: "cbuf \<Rightarrow> cbuf \<Rightarrow> nat option option" where
  "rt_strstr s1 s2 =
     do { l2 \<leftarrow> rt_strlen s2;
          if l2 = 0 then Some (Some 0)
          else do { l1 \<leftarrow> rt_strlen s1; Some (strstr_loop s1 s2 l1 l2 0) } }"

subsection \<open>What they compute\<close>

text \<open>The text of a buffer: the bytes before the terminator, at most \<open>n\<close> of them.\<close>

definition text_of :: "cbuf \<Rightarrow> cbuf" where
  "text_of s = takeWhile (\<lambda>c. c \<noteq> 0) s"

definition terminated :: "cbuf \<Rightarrow> bool" where
  "terminated s \<longleftrightarrow> 0 \<in> set s"

lemma rt_strlen_eq: "rt_strlen s = (if terminated s then Some (length (text_of s)) else None)"
  by (induction s) (auto simp: terminated_def text_of_def)

lemma rt_strncpy_result:
  "\<lbrakk>n \<le> length d; terminated s \<or> n \<le> length s\<rbrakk> \<Longrightarrow>
   rt_strncpy d s n =
     Some (take n (text_of s) @ replicate (n - length (text_of s)) 0 @ drop n d)"
proof (induction d s n rule: rt_strncpy.induct)
  case (2 x d c s n)
  show ?case
  proof (cases "c = 0")
    case True
    then show ?thesis using "2.prems" by (simp add: text_of_def)
  next
    case False
    then have "rt_strncpy d s n =
        Some (take n (text_of s) @ replicate (n - length (text_of s)) 0 @ drop n d)"
      using "2.prems" by (intro "2.IH") (auto simp: terminated_def)
    with False show ?thesis by (simp add: text_of_def)
  qed
qed (auto simp: terminated_def)

lemma rt_strncpy_length: "rt_strncpy d s n = Some d' \<Longrightarrow> length d' = length d"
  by (induction d s n arbitrary: d' rule: rt_strncpy.induct) (auto split: if_splits)

lemma rt_strncmp_zero:
  "rt_strncmp cs ct n = Some r \<Longrightarrow> r = 0 \<longleftrightarrow> take n (text_of cs) = take n (text_of ct)"
proof (induction cs ct n rule: rt_strncmp.induct)
  case (2 c cs t ct n)
  show ?case
  proof (cases "c - t \<noteq> 0 \<or> c = 0")
    case True
    then have r: "r = sint (c - t)" using "2.prems" by simp
    have "r = 0 \<longleftrightarrow> c = t" unfolding r by (metis eq_iff_diff_eq_0 signed_0 sint_0 signed_eq_0_iff)
    then show ?thesis using True by (auto simp: text_of_def)
  next
    case False
    then show ?thesis using "2.IH" "2.prems" by (auto simp: text_of_def)
  qed
qed auto

lemma rt_strncmp_defined:
  "\<lbrakk>n \<le> length cs \<or> terminated cs; n \<le> length ct \<or> terminated ct\<rbrakk> \<Longrightarrow> rt_strncmp cs ct n \<noteq> None"
proof (induction cs ct n rule: rt_strncmp.induct)
  case (2 c cs t ct n)
  show ?case
  proof (cases "c - t \<noteq> 0 \<or> c = 0")
    case False
    with 2 show ?thesis by (auto simp: terminated_def)
  qed simp
qed (auto simp: terminated_def)

text \<open>A name copied with \<^verbatim>\<open>rt_strncpy\<close> compares equal to its source.\<close>

lemma text_of_padded: "text_of (take n (text_of s) @ replicate k 0 @ xs) = take n (text_of s)"
  if "0 < k \<or> xs = []"
proof -
  have nz: "\<forall>c \<in> set (take n (text_of s)). c \<noteq> 0"
    by (auto simp: text_of_def dest: in_set_takeD set_takeWhileD)
  have "takeWhile (\<lambda>c. c \<noteq> 0) (replicate k 0 @ xs) = []"
    using that by (cases k) auto
  moreover have "takeWhile (\<lambda>c. c \<noteq> 0) (take n (text_of s) @ ys)
      = take n (text_of s) @ takeWhile (\<lambda>c. c \<noteq> 0) ys" for ys
    using nz by (intro takeWhile_append2) blast
  ultimately show ?thesis by (simp add: text_of_def)
qed

lemma rt_strncpy_strncmp:
  assumes "length d = n" "terminated s \<or> n \<le> length s"
  shows "\<exists>d'. rt_strncpy d s n = Some d' \<and> length d' = n \<and> rt_strncmp d' s n = Some 0"
proof -
  let ?d = "take n (text_of s) @ replicate (n - length (text_of s)) 0"
  have c: "rt_strncpy d s n = Some ?d" using rt_strncpy_result [of n d s] assms by simp
  have l: "length ?d = n" by simp
  obtain r where r: "rt_strncmp ?d s n = Some r"
    using rt_strncmp_defined [of n ?d s] assms(2) l by auto
  have "take n (text_of ?d) = take n (text_of s)"
    using text_of_padded [of "n - length (text_of s)" "[]" n s] by simp
  then have "r = 0" using rt_strncmp_zero [OF r] by simp
  with c l r show ?thesis by blast
qed

end
