(* ===== verification/KState.thy ===== *)
theory KState
  imports RtList Kservice
begin

text \<open>
  The data of the kernel: the control blocks of \<^verbatim>\<open>include/rtdef.h\<close> as records and
  the global variables of \<^verbatim>\<open>src/*.c\<close> as one record \<open>kernel\<close>. The
  configuration is that of \<^verbatim>\<open>bsp/stm32f4xx-HAL/rtconfig.h\<close>: 32 priorities, names
  of 8 bytes, alignment 4, 1000 ticks per second, assertions and context checks on, one row of
  the timer skip list, no soft timers, no modules.

  Control blocks live in maps from identifiers (their addresses) to records, so a null or
  dangling pointer is a failed lookup. The \<^verbatim>\<open>struct rt_object\<close> header at the start
  of every control block is kept in a map of its own, \<open>objects\<close>, indexed by \<open>oid\<close>.
  The \<^verbatim>\<open>tlist\<close> nodes of threads and the \<^verbatim>\<open>list\<close> nodes of
  objects are list stores (theory \<^verbatim>\<open>RtList\<close>).
\<close>

section \<open>Configuration and constants\<close>

definition RT_NAME_MAX :: nat where "RT_NAME_MAX = 8"
definition RT_THREAD_PRIORITY_MAX :: nat where "RT_THREAD_PRIORITY_MAX = 32"
definition RT_TICK_PER_SECOND :: int where "RT_TICK_PER_SECOND = 1000"

abbreviation (input) RT_Object_Class_Thread :: u8 where "RT_Object_Class_Thread \<equiv> 0"
abbreviation (input) RT_Object_Class_Semaphore :: u8 where "RT_Object_Class_Semaphore \<equiv> 1"
abbreviation (input) RT_Object_Class_Mutex :: u8 where "RT_Object_Class_Mutex \<equiv> 2"
abbreviation (input) RT_Object_Class_Event :: u8 where "RT_Object_Class_Event \<equiv> 3"
abbreviation (input) RT_Object_Class_MailBox :: u8 where "RT_Object_Class_MailBox \<equiv> 4"
abbreviation (input) RT_Object_Class_MessageQueue :: u8 where "RT_Object_Class_MessageQueue \<equiv> 5"
abbreviation (input) RT_Object_Class_MemHeap :: u8 where "RT_Object_Class_MemHeap \<equiv> 6"
abbreviation (input) RT_Object_Class_MemPool :: u8 where "RT_Object_Class_MemPool \<equiv> 7"
abbreviation (input) RT_Object_Class_Device :: u8 where "RT_Object_Class_Device \<equiv> 8"
abbreviation (input) RT_Object_Class_Timer :: u8 where "RT_Object_Class_Timer \<equiv> 9"
abbreviation (input) RT_Object_Class_Unknown :: u8 where "RT_Object_Class_Unknown \<equiv> 11"
abbreviation (input) RT_Object_Class_Static :: u8 where "RT_Object_Class_Static \<equiv> 0x80"

abbreviation (input) RT_TIMER_FLAG_ACTIVATED :: u8 where "RT_TIMER_FLAG_ACTIVATED \<equiv> 1"
abbreviation (input) RT_TIMER_FLAG_ONE_SHOT :: u8 where "RT_TIMER_FLAG_ONE_SHOT \<equiv> 0"
abbreviation (input) RT_TIMER_FLAG_PERIODIC :: u8 where "RT_TIMER_FLAG_PERIODIC \<equiv> 2"

abbreviation (input) RT_TIMER_CTRL_SET_TIME :: int where "RT_TIMER_CTRL_SET_TIME \<equiv> 0"
abbreviation (input) RT_TIMER_CTRL_GET_TIME :: int where "RT_TIMER_CTRL_GET_TIME \<equiv> 1"
abbreviation (input) RT_TIMER_CTRL_SET_ONESHOT :: int where "RT_TIMER_CTRL_SET_ONESHOT \<equiv> 2"
abbreviation (input) RT_TIMER_CTRL_SET_PERIODIC :: int where "RT_TIMER_CTRL_SET_PERIODIC \<equiv> 3"

abbreviation (input) RT_THREAD_INIT :: u8 where "RT_THREAD_INIT \<equiv> 0"
abbreviation (input) RT_THREAD_READY :: u8 where "RT_THREAD_READY \<equiv> 1"
abbreviation (input) RT_THREAD_SUSPEND :: u8 where "RT_THREAD_SUSPEND \<equiv> 2"
abbreviation (input) RT_THREAD_CLOSE :: u8 where "RT_THREAD_CLOSE \<equiv> 4"
abbreviation (input) RT_THREAD_STAT_MASK :: u8 where "RT_THREAD_STAT_MASK \<equiv> 0x0f"

abbreviation (input) RT_THREAD_CTRL_STARTUP :: int where "RT_THREAD_CTRL_STARTUP \<equiv> 0"
abbreviation (input) RT_THREAD_CTRL_CLOSE :: int where "RT_THREAD_CTRL_CLOSE \<equiv> 1"
abbreviation (input) RT_THREAD_CTRL_CHANGE_PRIORITY :: int where "RT_THREAD_CTRL_CHANGE_PRIORITY \<equiv> 2"

abbreviation (input) RT_IPC_FLAG_FIFO :: u8 where "RT_IPC_FLAG_FIFO \<equiv> 0"
abbreviation (input) RT_IPC_FLAG_PRIO :: u8 where "RT_IPC_FLAG_PRIO \<equiv> 1"
abbreviation (input) RT_IPC_CMD_RESET :: int where "RT_IPC_CMD_RESET \<equiv> 1"

abbreviation (input) RT_EVENT_FLAG_AND :: u8 where "RT_EVENT_FLAG_AND \<equiv> 1"
abbreviation (input) RT_EVENT_FLAG_OR :: u8 where "RT_EVENT_FLAG_OR \<equiv> 2"
abbreviation (input) RT_EVENT_FLAG_CLEAR :: u8 where "RT_EVENT_FLAG_CLEAR \<equiv> 4"

section \<open>Identifiers and list heads\<close>

type_synonym tid = nat

text \<open>A timer is the one built into a thread, or one the application made.\<close>

datatype timer_id = ThreadTimer tid | UserTimer nat

datatype oid = OThread tid | OTimer timer_id | OSem nat | OMutex nat | OEvent nat
  | OMailBox nat | OMsgQueue nat | OMemPool nat | OMemHeap nat | ODevice nat

text \<open>
  The lists a thread's \<^verbatim>\<open>tlist\<close> node can be on: an entry of
  \<^verbatim>\<open>rt_thread_priority_table\<close>, \<^verbatim>\<open>rt_thread_defunct\<close>, the
  \<^verbatim>\<open>suspend_thread\<close> list of an IPC object or memory pool, or the
  \<^verbatim>\<open>suspend_sender_thread\<close> list of a mailbox. \<open>DriverQ d k\<close> is list \<open>k\<close>
  of structure \<open>d\<close> of the drivers, which is not a kernel object.
\<close>

datatype thead = Ready nat | Defunct | SuspendQ oid | SenderQ nat | DriverQ nat nat

section \<open>Control blocks\<close>

record rt_object =
  obj_name :: "u8 list"
  obj_type :: u8
  obj_flag :: u8

text \<open>\<^verbatim>\<open>timeout_func\<close> together with its \<^verbatim>\<open>parameter\<close>.\<close>

datatype timeout_fn = Rt_thread_timeout tid | User_timeout nat

record rt_timer =
  timeout_func :: timeout_fn
  timer_init_tick :: u32
  timeout_tick :: u32

record rt_thread =
  entry :: u32
  parameter :: u32
  sp :: u32
  stack_addr :: u32
  stack_size :: u32
  stack_guard :: u8  \<comment> \<open>the byte at \<open>stack_addr\<close>, \<^verbatim>\<open>'#'\<close> until the stack overflows\<close>
  thread_error :: rt_err
  stat :: u8
  current_priority :: u8
  init_priority :: u8
  number_mask :: u32
  event_set :: u32
  event_info :: u8
  thread_init_tick :: u32
  remaining_tick :: u32
  cleanup :: "nat option"
  user_data :: u32

record rt_semaphore =
  sem_value :: u16

record rt_mutex =
  mutex_value :: u16
  original_priority :: u8
  hold :: u8
  owner :: "tid option"

record rt_event =
  event_bits :: u32

record rt_mailbox =
  mb_pool :: "u32 list"
  mb_size :: u16
  mb_entry :: u16
  in_offset :: u16
  out_offset :: u16

text \<open>
  A message queue with its pool: slot \<open>i\<close> of the pool holds a \<^verbatim>\<open>struct
  rt_mq_message\<close> (\<open>mq_next\<close>) followed by \<open>msg_size\<close> bytes (\<open>mq_data\<close>).
\<close>

record rt_messagequeue =
  msg_size :: u16
  max_msgs :: u16
  mq_entry :: u16
  msg_queue_head :: "nat option"
  msg_queue_tail :: "nat option"
  msg_queue_free :: "nat option"
  mq_next :: "nat \<Rightarrow> nat option"
  mq_data :: "nat \<Rightarrow> u8 list"

text \<open>
  A memory pool. Block \<open>i\<close> starts with one pointer: the next free block while the block is
  free (\<open>BFree\<close>), the pool it belongs to once allocated (\<open>BUsed\<close>).
\<close>

datatype block_link = BFree "nat option" | BUsed nat

record rt_mempool =
  block_size :: u32
  block_list :: "nat option"
  block_total_count :: u32
  block_free_count :: u32
  suspend_thread_count :: u32
  block_links :: "nat \<Rightarrow> block_link"

section \<open>The kernel's global state\<close>

record kernel =
  rt_tick :: u32
  rt_interrupt_nest :: u8
  rt_scheduler_lock_nest :: u16  \<comment> \<open>an \<^verbatim>\<open>rt_int16_t\<close>: read with \<open>sint\<close>\<close>
  rt_current_thread :: "tid option"
  rt_current_priority :: u8
  rt_thread_ready_priority_group :: u32
  rt_errno :: rt_err
  random_nr :: u32
  tlists :: "(thead, tid) store"
  threads :: "tid \<Rightarrow> rt_thread option"
  rt_timer_list :: "timer_id list"
  timers :: "timer_id \<Rightarrow> rt_timer option"
  containers :: "(u8, oid) store"
  objects :: "oid \<Rightarrow> rt_object option"
  sems :: "nat \<Rightarrow> rt_semaphore option"
  mutexes :: "nat \<Rightarrow> rt_mutex option"
  events :: "nat \<Rightarrow> rt_event option"
  mailboxes :: "nat \<Rightarrow> rt_mailbox option"
  msgqueues :: "nat \<Rightarrow> rt_messagequeue option"
  mempools :: "nat \<Rightarrow> rt_mempool option"

text \<open>The state at reset: \<^verbatim>\<open>.bss\<close> is zero, every list is empty.\<close>

definition kernel0 :: kernel where
  "kernel0 = \<lparr>rt_tick = 0, rt_interrupt_nest = 0, rt_scheduler_lock_nest = 0,
     rt_current_thread = None, rt_current_priority = 0, rt_thread_ready_priority_group = 0,
     rt_errno = 0, random_nr = 0, tlists = (\<lambda>_. []), threads = Map.empty, rt_timer_list = [],
     timers = Map.empty, containers = (\<lambda>_. []), objects = Map.empty, sems = Map.empty,
     mutexes = Map.empty, events = Map.empty, mailboxes = Map.empty, msgqueues = Map.empty,
     mempools = Map.empty\<rparr>"

text \<open>Field writes through a pointer.\<close>

definition upd_thread :: "tid \<Rightarrow> (rt_thread \<Rightarrow> rt_thread) \<Rightarrow> kernel \<Rightarrow> kernel" where
  "upd_thread t f s = s\<lparr>threads := (threads s)(t := map_option f (threads s t))\<rparr>"

definition upd_object :: "oid \<Rightarrow> (rt_object \<Rightarrow> rt_object) \<Rightarrow> kernel \<Rightarrow> kernel" where
  "upd_object ob f s = s\<lparr>objects := (objects s)(ob := map_option f (objects s ob))\<rparr>"

definition upd_timer :: "timer_id \<Rightarrow> (rt_timer \<Rightarrow> rt_timer) \<Rightarrow> kernel \<Rightarrow> kernel" where
  "upd_timer tm f s = s\<lparr>timers := (timers s)(tm := map_option f (timers s tm))\<rparr>"

text \<open>The result of a call that may block: a value, or the thread is suspended and its code goes
  on, from the point after \<^verbatim>\<open>rt_schedule\<close>, when it next runs.\<close>

datatype 'a outcome = Return 'a | Pending

text \<open>\<^verbatim>\<open>RT_DEBUG_NOT_IN_INTERRUPT\<close> and \<^verbatim>\<open>RT_DEBUG_IN_THREAD_CONTEXT\<close>.\<close>

definition not_in_interrupt :: "kernel \<Rightarrow> unit option" where
  "not_in_interrupt s = rt_assert (rt_interrupt_nest s = 0)"

definition in_thread_context :: "kernel \<Rightarrow> unit option" where
  "in_thread_context s = rt_assert (rt_current_thread s \<noteq> None \<and> rt_interrupt_nest s = 0)"

end
