(* ===== verification/Objects.thy ===== *)
theory Objects
  imports KState
begin

text \<open>
  Kernel objects (\<^verbatim>\<open>src/object.c\<close>): the container of each class, initialisation,
  detaching, allocation and deletion of an object, and the queries on its type.
  \<^verbatim>\<open>rt_object_find\<close> locks the scheduler and is in theory
  \<^verbatim>\<open>Scheduler\<close>. The address \<^verbatim>\<open>RT_KERNEL_MALLOC\<close> returns is an
  argument of \<open>rt_object_allocate\<close>; the allocator is in theory \<^verbatim>\<open>Mem\<close>.
\<close>

section \<open>The code\<close>

definition rt_object_container :: "u8 list" where
  "rt_object_container =
     [RT_Object_Class_Thread, RT_Object_Class_Semaphore, RT_Object_Class_Mutex,
      RT_Object_Class_Event, RT_Object_Class_MailBox, RT_Object_Class_MessageQueue,
      RT_Object_Class_MemHeap, RT_Object_Class_MemPool, RT_Object_Class_Device,
      RT_Object_Class_Timer]"

definition rt_object_get_information :: "u8 \<Rightarrow> u8 option" where
  "rt_object_get_information ty = find (\<lambda>c. c = ty) rt_object_container"

text \<open>The header bytes of an object not yet initialised: static storage is zero.\<close>

definition blank_object :: rt_object where
  "blank_object = \<lparr>obj_name = replicate RT_NAME_MAX 0, obj_type = 0, obj_flag = 0\<rparr>"

definition obj_mem :: "kernel \<Rightarrow> oid \<Rightarrow> rt_object" where
  "obj_mem s ob = (case objects s ob of None \<Rightarrow> blank_object | Some x \<Rightarrow> x)"

definition rt_object_init :: "oid \<Rightarrow> u8 \<Rightarrow> cbuf \<Rightarrow> kernel \<Rightarrow> kernel option" where
  "rt_object_init ob ty name s =
     do { information \<leftarrow> rt_object_get_information ty;
          let x = (obj_mem s ob)\<lparr>obj_type := ty OR RT_Object_Class_Static\<rparr>;
          nm \<leftarrow> rt_strncpy (obj_name x) name RT_NAME_MAX;
          Some (s\<lparr>objects := (objects s)(ob \<mapsto> x\<lparr>obj_name := nm\<rparr>),
                  containers := ls_insert_after information ob (containers s)\<rparr>) }"

definition rt_object_detach :: "oid \<Rightarrow> kernel \<Rightarrow> kernel option" where
  "rt_object_detach ob s =
     do { x \<leftarrow> objects s ob;
          Some (s\<lparr>objects := (objects s)(ob \<mapsto> x\<lparr>obj_type := 0\<rparr>),
                  containers := ls_remove ob (containers s)\<rparr>) }"

definition rt_object_allocate :: "u8 \<Rightarrow> cbuf \<Rightarrow> oid option \<Rightarrow> kernel \<Rightarrow> (oid option \<times> kernel) option" where
  "rt_object_allocate ty name mem s =
     do { not_in_interrupt s;
          information \<leftarrow> rt_object_get_information ty;
          case mem of
            None \<Rightarrow> Some (None, s)
          | Some ob \<Rightarrow>
              do { nm \<leftarrow> rt_strncpy (replicate RT_NAME_MAX 0) name RT_NAME_MAX;
                   Some (Some ob,
                     s\<lparr>objects := (objects s)(ob \<mapsto> \<lparr>obj_name = nm, obj_type = ty, obj_flag = 0\<rparr>),
                       containers := ls_insert_after information ob (containers s)\<rparr>) } }"

definition rt_object_delete :: "oid \<Rightarrow> kernel \<Rightarrow> kernel option" where
  "rt_object_delete ob s =
     do { x \<leftarrow> objects s ob;
          rt_assert (obj_type x AND RT_Object_Class_Static = 0);
          Some (s\<lparr>objects := (objects s)(ob := None),
                  containers := ls_remove ob (containers s)\<rparr>) }"

definition rt_object_is_systemobject :: "kernel \<Rightarrow> oid \<Rightarrow> bool option" where
  "rt_object_is_systemobject s ob =
     do { x \<leftarrow> objects s ob; Some (obj_type x AND RT_Object_Class_Static \<noteq> 0) }"

definition rt_object_get_type :: "kernel \<Rightarrow> oid \<Rightarrow> u8 option" where
  "rt_object_get_type s ob =
     do { x \<leftarrow> objects s ob; Some (obj_type x AND NOT RT_Object_Class_Static) }"

text \<open>The parameter check most routines open with.\<close>

definition check_type :: "kernel \<Rightarrow> oid \<Rightarrow> u8 \<Rightarrow> unit option" where
  "check_type s ob ty = do { ty' \<leftarrow> rt_object_get_type s ob; rt_assert (ty' = ty) }"

text \<open>The loop of \<^verbatim>\<open>rt_object_find\<close> and \<^verbatim>\<open>rt_thread_find\<close>.\<close>

fun find_by_name :: "(oid \<Rightarrow> rt_object option) \<Rightarrow> cbuf \<Rightarrow> oid list \<Rightarrow> oid option option" where
  "find_by_name objs name [] = Some None"
| "find_by_name objs name (ob # obs) =
     do { x \<leftarrow> objs ob;
          r \<leftarrow> rt_strncmp (obj_name x) name RT_NAME_MAX;
          if r = 0 then Some (Some ob) else find_by_name objs name obs }"

section \<open>Lemmas\<close>

lemma find_eq_if: "find (\<lambda>c. c = x) xs = (if x \<in> set xs then Some x else None)"
  by (induction xs) auto

lemma get_information_eq [simp]:
  "rt_object_get_information ty = (if ty \<in> set rt_object_container then Some ty else None)"
  by (simp add: rt_object_get_information_def find_eq_if)

text \<open>The class codes leave the static bit free.\<close>

lemma class_codes:
  assumes "ty \<in> set rt_object_container"
  shows "ty AND RT_Object_Class_Static = 0" "ty AND NOT RT_Object_Class_Static = ty"
    "(ty OR RT_Object_Class_Static) AND RT_Object_Class_Static \<noteq> 0"
    "(ty OR RT_Object_Class_Static) AND NOT RT_Object_Class_Static = ty"
  using assms by (auto simp: rt_object_container_def)

lemma check_type_iff [simp]:
  "check_type s ob ty = Some u \<longleftrightarrow>
     (\<exists>x. objects s ob = Some x \<and> obj_type x AND NOT RT_Object_Class_Static = ty)"
  by (auto simp: check_type_def rt_object_get_type_def bind_Some_iff)

lemma check_type_known:
  "objects s ob = Some x \<Longrightarrow>
     check_type s ob ty = rt_assert (obj_type x AND NOT RT_Object_Class_Static = ty)"
  by (simp add: check_type_def rt_object_get_type_def)

lemma check_type_cong: "objects s = objects s' \<Longrightarrow> check_type s = check_type s'"
  by (simp add: check_type_def rt_object_get_type_def fun_eq_iff)

lemma obj_name_length: "length (obj_name (obj_mem s ob)) = RT_NAME_MAX"
  if "\<And>x. objects s ob = Some x \<Longrightarrow> length (obj_name x) = RT_NAME_MAX"
  using that by (cases "objects s ob") (auto simp: obj_mem_def blank_object_def)

text \<open>Names fill their field and every object is on at most one container list.\<close>

definition objects_wf :: "kernel \<Rightarrow> bool" where
  "objects_wf s \<longleftrightarrow>
     (\<forall>ob x. objects s ob = Some x \<longrightarrow> length (obj_name x) = RT_NAME_MAX) \<and>
     lists_wf (containers s) \<and>
     (\<forall>ty ob. ob \<in> set (containers s ty) \<longrightarrow>
        (\<exists>x. objects s ob = Some x \<and> obj_type x AND NOT RT_Object_Class_Static = ty))"

lemma objects_wfD:
  assumes "objects_wf s"
  shows "objects s ob = Some x \<Longrightarrow> length (obj_name x) = RT_NAME_MAX"
    and "lists_wf (containers s)"
    and "ob \<in> set (containers s ty) \<Longrightarrow>
           \<exists>x. objects s ob = Some x \<and> obj_type x AND NOT RT_Object_Class_Static = ty"
  using assms unfolding objects_wf_def by blast+

lemma rt_object_init_defined:
  assumes wf: "objects_wf s" and ty: "ty \<in> set rt_object_container"
    and name: "terminated name \<or> RT_NAME_MAX \<le> length name"
  shows "\<exists>nm. length nm = RT_NAME_MAX \<and> rt_strncmp nm name RT_NAME_MAX = Some 0 \<and>
           rt_object_init ob ty name s =
             Some (s\<lparr>objects := (objects s)(ob \<mapsto>
                       (obj_mem s ob)\<lparr>obj_type := ty OR RT_Object_Class_Static, obj_name := nm\<rparr>),
                     containers := ls_insert_after ty ob (containers s)\<rparr>)"
proof -
  have "length (obj_name (obj_mem s ob)) = RT_NAME_MAX"
    using objects_wfD(1) [OF wf] by (rule obj_name_length)
  from rt_strncpy_strncmp [OF this name] obtain nm where
    "rt_strncpy (obj_name (obj_mem s ob)) name RT_NAME_MAX = Some nm"
    "length nm = RT_NAME_MAX" "rt_strncmp nm name RT_NAME_MAX = Some 0" by blast
  then show ?thesis using ty by (auto simp: rt_object_init_def Let_def)
qed

lemma rt_object_init_wf:
  assumes wf: "objects_wf s" and fresh: "unlinked ob (containers s)"
    and run: "rt_object_init ob ty name s = Some s'"
  shows "objects_wf s'"
proof -
  from run obtain nm where ty: "ty \<in> set rt_object_container"
    and nm: "rt_strncpy (obj_name (obj_mem s ob)) name RT_NAME_MAX = Some nm"
    and s': "s' = s\<lparr>objects := (objects s)(ob \<mapsto>
                 (obj_mem s ob)\<lparr>obj_type := ty OR RT_Object_Class_Static, obj_name := nm\<rparr>),
               containers := ls_insert_after ty ob (containers s)\<rparr>"
    by (auto simp: rt_object_init_def bind_Some_iff Let_def split: if_splits)
  have len: "length (obj_name (obj_mem s ob)) = RT_NAME_MAX"
    using objects_wfD(1) [OF wf] by (rule obj_name_length)
  have "length nm = RT_NAME_MAX"
    using rt_strncpy_length [OF nm] len by simp
  moreover have "lists_wf (ls_insert_after ty ob (containers s))"
    using objects_wfD(2) [OF wf] fresh by (rule lists_wf_insert_after)
  moreover have "\<exists>x. objects s' ob' = Some x \<and> obj_type x AND NOT RT_Object_Class_Static = ty'"
    if "ob' \<in> set (containers s' ty')" for ob' ty'
    using that fresh objects_wfD(3) [OF wf, of ob' ty'] class_codes [OF ty]
    by (auto simp: s' ls_insert_after_def unlinked_def split: if_splits)
  ultimately show ?thesis
    using objects_wfD(1) [OF wf] by (auto simp: objects_wf_def s' split: if_splits)
qed

lemma rt_object_detach_wf:
  assumes "objects_wf s" "rt_object_detach ob s = Some s'"
  shows "objects_wf s'" and "unlinked ob (containers s')"
  using assms
  by (auto simp: rt_object_detach_def objects_wf_def bind_Some_iff lists_wf_remove split: if_splits)

lemma rt_object_delete_wf:
  assumes "objects_wf s" "rt_object_delete ob s = Some s'"
  shows "objects_wf s'" and "unlinked ob (containers s')" and "objects s' ob = None"
  using assms
  by (auto simp: rt_object_delete_def objects_wf_def bind_Some_iff lists_wf_remove split: if_splits)

end
