(* ===== verification/Timers.thy ===== *)
theory Timers
  imports Objects
begin

text \<open>
  Timers (\<^verbatim>\<open>src/timer.c\<close>): initialisation, start, stop, control, detaching and
  deletion. Active timers are on one list in the order they expire; the comparison of
  \<^verbatim>\<open>rt_timer_start\<close> is on differences of 32-bit ticks, so that it survives the
  wrap-around of the tick counter. The interrupt side, \<^verbatim>\<open>rt_timer_check\<close>, calls
  the thread code and is in theory \<^verbatim>\<open>Clock\<close>.
\<close>

section \<open>The code\<close>

definition set_flag :: "timer_id \<Rightarrow> (u8 \<Rightarrow> u8) \<Rightarrow> kernel \<Rightarrow> kernel" where
  "set_flag tm f = upd_object (OTimer tm) (\<lambda>x. x\<lparr>obj_flag := f (obj_flag x)\<rparr>)"

text \<open>\<^verbatim>\<open>_rt_timer_init\<close>; the row node of the timer starts out on no list.\<close>

definition rt_timer_init_fields :: "timer_id \<Rightarrow> timeout_fn \<Rightarrow> u32 \<Rightarrow> u8 \<Rightarrow> kernel \<Rightarrow> kernel" where
  "rt_timer_init_fields tm timeout time flag s =
     (let s = set_flag tm (\<lambda>_. flag) s;
          s = set_flag tm (\<lambda>f. f AND NOT RT_TIMER_FLAG_ACTIVATED) s
      in s\<lparr>timers := (timers s)(tm \<mapsto>
             \<lparr>timeout_func = timeout, timer_init_tick = time, timeout_tick = 0\<rparr>)\<rparr>)"

definition rt_timer_list_next_timeout :: "kernel \<Rightarrow> u32 option" where
  "rt_timer_list_next_timeout s =
     (case rt_timer_list s of
        [] \<Rightarrow> Some RT_TICK_MAX
      | tm # _ \<Rightarrow> do { t \<leftarrow> timers s tm; Some (timeout_tick t) })"

text \<open>\<^verbatim>\<open>_rt_timer_remove\<close>\<close>

definition rt_timer_remove :: "timer_id \<Rightarrow> kernel \<Rightarrow> kernel" where
  "rt_timer_remove tm s = s\<lparr>rt_timer_list := removeAll tm (rt_timer_list s)\<rparr>"

definition rt_timer_init :: "timer_id \<Rightarrow> cbuf \<Rightarrow> timeout_fn \<Rightarrow> u32 \<Rightarrow> u8 \<Rightarrow> kernel \<Rightarrow> kernel option" where
  "rt_timer_init tm name timeout time flag s =
     do { s \<leftarrow> rt_object_init (OTimer tm) RT_Object_Class_Timer name s;
          Some (rt_timer_init_fields tm timeout time flag s) }"

definition rt_timer_detach :: "timer_id \<Rightarrow> kernel \<Rightarrow> (rt_err \<times> kernel) option" where
  "rt_timer_detach tm s =
     do { check_type s (OTimer tm) RT_Object_Class_Timer;
          sys \<leftarrow> rt_object_is_systemobject s (OTimer tm);
          rt_assert sys;
          s \<leftarrow> rt_object_detach (OTimer tm) (rt_timer_remove tm s);
          Some (RT_EOK, s) }"

definition rt_timer_create ::
    "cbuf \<Rightarrow> timeout_fn \<Rightarrow> u32 \<Rightarrow> u8 \<Rightarrow> timer_id option \<Rightarrow> kernel \<Rightarrow> (timer_id option \<times> kernel) option" where
  "rt_timer_create name timeout time flag mem s =
     do { (r, s) \<leftarrow> rt_object_allocate RT_Object_Class_Timer name (map_option OTimer mem) s;
          case (r, mem) of
            (Some _, Some tm) \<Rightarrow> Some (Some tm, rt_timer_init_fields tm timeout time flag s)
          | _ \<Rightarrow> Some (None, s) }"

definition rt_timer_delete :: "timer_id \<Rightarrow> kernel \<Rightarrow> (rt_err \<times> kernel) option" where
  "rt_timer_delete tm s =
     do { check_type s (OTimer tm) RT_Object_Class_Timer;
          sys \<leftarrow> rt_object_is_systemobject s (OTimer tm);
          rt_assert (\<not> sys);
          s \<leftarrow> rt_object_delete (OTimer tm) (rt_timer_remove tm s);
          Some (RT_EOK, s\<lparr>timers := (timers s)(tm := None)\<rparr>) }"

text \<open>
  The walk of \<^verbatim>\<open>rt_timer_start\<close> along the (single) row: equal deadlines are passed,
  the first later one stops the walk, and the timer goes in front of it.
\<close>

fun timer_insert :: "(timer_id \<Rightarrow> u32) \<Rightarrow> timer_id \<Rightarrow> timer_id list \<Rightarrow> timer_id list" where
  "timer_insert tt tm [] = [tm]"
| "timer_insert tt tm (x # xs) =
     (if tt x - tt tm = 0 then x # timer_insert tt tm xs
      else if tt x - tt tm < RT_TICK_MAX div 2 then tm # x # xs
      else x # timer_insert tt tm xs)"

definition timeout_of :: "kernel \<Rightarrow> timer_id \<Rightarrow> u32" where
  "timeout_of s tm = (case timers s tm of None \<Rightarrow> 0 | Some t \<Rightarrow> timeout_tick t)"

definition rt_timer_start :: "timer_id \<Rightarrow> kernel \<Rightarrow> (rt_err \<times> kernel) option" where
  "rt_timer_start tm s =
     do { t \<leftarrow> timers s tm;
          check_type s (OTimer tm) RT_Object_Class_Timer;
          let s = rt_timer_remove tm s;
          let s = set_flag tm (\<lambda>f. f AND NOT RT_TIMER_FLAG_ACTIVATED) s;
          rt_assert (timer_init_tick t < RT_TICK_MAX div 2);
          let s = upd_timer tm (\<lambda>t. t\<lparr>timeout_tick := rt_tick s + timer_init_tick t\<rparr>) s;
          let s = s\<lparr>random_nr := random_nr s + 1\<rparr>;
          let s = s\<lparr>rt_timer_list := timer_insert (timeout_of s) tm (rt_timer_list s)\<rparr>;
          let s = set_flag tm (\<lambda>f. f OR RT_TIMER_FLAG_ACTIVATED) s;
          Some (RT_EOK, s) }"

definition rt_timer_stop :: "timer_id \<Rightarrow> kernel \<Rightarrow> (rt_err \<times> kernel) option" where
  "rt_timer_stop tm s =
     do { check_type s (OTimer tm) RT_Object_Class_Timer;
          x \<leftarrow> objects s (OTimer tm);
          if obj_flag x AND RT_TIMER_FLAG_ACTIVATED = 0 then Some (- RT_ERROR, s)
          else let s = rt_timer_remove tm s;
                   s = set_flag tm (\<lambda>f. f AND NOT RT_TIMER_FLAG_ACTIVATED) s
               in Some (RT_EOK, s) }"

text \<open>\<^verbatim>\<open>*arg\<close> is passed in and its value afterwards returned.\<close>

definition rt_timer_control :: "timer_id \<Rightarrow> int \<Rightarrow> u32 \<Rightarrow> kernel \<Rightarrow> (rt_err \<times> u32 \<times> kernel) option" where
  "rt_timer_control tm cmd arg s =
     do { t \<leftarrow> timers s tm;
          check_type s (OTimer tm) RT_Object_Class_Timer;
          if cmd = RT_TIMER_CTRL_GET_TIME then Some (RT_EOK, timer_init_tick t, s)
          else if cmd = RT_TIMER_CTRL_SET_TIME
          then Some (RT_EOK, arg, upd_timer tm (\<lambda>t. t\<lparr>timer_init_tick := arg\<rparr>) s)
          else if cmd = RT_TIMER_CTRL_SET_ONESHOT
          then Some (RT_EOK, arg, set_flag tm (\<lambda>f. f AND NOT RT_TIMER_FLAG_PERIODIC) s)
          else if cmd = RT_TIMER_CTRL_SET_PERIODIC
          then Some (RT_EOK, arg, set_flag tm (\<lambda>f. f OR RT_TIMER_FLAG_PERIODIC) s)
          else Some (RT_EOK, arg, s) }"

section \<open>Lemmas\<close>

lemma upd_object_sel [simp]:
  "objects (upd_object ob f s) = (objects s)(ob := map_option f (objects s ob))"
  "timers (upd_object ob f s) = timers s" "rt_timer_list (upd_object ob f s) = rt_timer_list s"
  "rt_tick (upd_object ob f s) = rt_tick s" "threads (upd_object ob f s) = threads s"
  "tlists (upd_object ob f s) = tlists s" "containers (upd_object ob f s) = containers s"
  by (simp_all add: upd_object_def)

lemma upd_timer_sel [simp]:
  "timers (upd_timer tm f s) = (timers s)(tm := map_option f (timers s tm))"
  "objects (upd_timer tm f s) = objects s" "rt_timer_list (upd_timer tm f s) = rt_timer_list s"
  "rt_tick (upd_timer tm f s) = rt_tick s" "threads (upd_timer tm f s) = threads s"
  "tlists (upd_timer tm f s) = tlists s" "containers (upd_timer tm f s) = containers s"
  by (simp_all add: upd_timer_def)

text \<open>
  The active timers: no timer twice, each of them a timer object marked active, deadlines less
  than half the tick range ahead of the current tick and in order of expiry. A deadline may be one
  tick in the past: the tick interrupt advances the tick first and handles the timers then.
  \<open>until\<close> counts from that earliest deadline.
\<close>

definition due_in :: "kernel \<Rightarrow> timer_id \<Rightarrow> u32" where
  "due_in s tm = timeout_of s tm - rt_tick s"

definition until :: "kernel \<Rightarrow> timer_id \<Rightarrow> u32" where
  "until s tm = due_in s tm + 1"

definition is_timer :: "kernel \<Rightarrow> timer_id \<Rightarrow> bool" where
  "is_timer s tm \<longleftrightarrow> timers s tm \<noteq> None \<and>
     (\<exists>x. objects s (OTimer tm) = Some x \<and> obj_type x AND NOT RT_Object_Class_Static = RT_Object_Class_Timer)"

definition timer_active :: "kernel \<Rightarrow> timer_id \<Rightarrow> bool" where
  "timer_active s tm \<longleftrightarrow>
     (\<exists>x. objects s (OTimer tm) = Some x \<and> obj_flag x AND RT_TIMER_FLAG_ACTIVATED \<noteq> 0)"

definition timers_wf :: "kernel \<Rightarrow> bool" where
  "timers_wf s \<longleftrightarrow>
     distinct (rt_timer_list s) \<and>
     (\<forall>tm \<in> set (rt_timer_list s). is_timer s tm \<and> timer_active s tm \<and>
        until s tm < 0x80000000) \<and>
     sorted (map (until s) (rt_timer_list s))"

text \<open>Within half the tick range, the wrapping comparison of the code is the order of deadlines.\<close>

lemma wrap_compare:
  fixes a b n :: u32
  assumes "a - n < 0x80000000" "b - n < 0x80000000" "b - n \<noteq> 0"
  shows "a - b \<noteq> 0 \<and> a - b < 0x7fffffff \<longleftrightarrow> b - n < a - n"
proof -
  define x y where "x = a - n" and "y = b - n"
  have d: "a - b = x - y" by (simp add: x_def y_def)
  have x: "unat x < 0x80000000" and y: "unat y < 0x80000000" "0 < unat y"
    using assms by (simp_all add: x_def y_def word_less_nat_alt unat_gt_0)
  show ?thesis
  proof (cases "y \<le> x")
    case True
    then have "unat (x - y) = unat x - unat y" by (simp add: unat_sub word_le_nat_alt)
    then have "x - y < 0x7fffffff" using x y by (simp add: word_less_nat_alt)
    moreover have "x - y \<noteq> 0 \<longleftrightarrow> y < x" using True by auto
    ultimately show ?thesis unfolding d x_def [symmetric] y_def [symmetric] by simp
  next
    case False
    then have lt: "unat x < unat y" by (simp add: word_le_nat_alt)
    then have "unat (x - y) = 2 ^ 32 + unat x - unat y"
      using unat_sub_if' [of x y] by (simp split: if_splits)
    then have "\<not> x - y < 0x7fffffff" using x y lt by (simp add: word_less_nat_alt)
    then show ?thesis unfolding d x_def [symmetric] y_def [symmetric] using False by auto
  qed
qed

lemma RT_TICK_MAX_half: "RT_TICK_MAX div 2 = (0x7fffffff :: u32)"
  by simp

text \<open>The walk puts the timer behind everything due no later and in front of the rest.\<close>

lemma timer_insert_split:
  assumes "tt tm - n < 0x80000000" "tt tm - n \<noteq> 0" "\<forall>x \<in> set xs. tt x - n < 0x80000000"
    and "sorted (map (\<lambda>x. tt x - n) xs)"
  shows "timer_insert tt tm xs =
     filter (\<lambda>x. tt x - n \<le> tt tm - n) xs @ tm # filter (\<lambda>x. tt tm - n < tt x - n) xs"
  using assms(3,4)
proof (induction xs)
  case (Cons x xs)
  have c: "tt x - tt tm \<noteq> 0 \<and> tt x - tt tm < 0x7fffffff \<longleftrightarrow> tt tm - n < tt x - n"
    using wrap_compare [of "tt x" n "tt tm"] assms(1,2) Cons.prems by simp
  show ?case
  proof (cases "tt tm - n < tt x - n")
    case True
    then have later: "\<forall>y \<in> set (x # xs). tt tm - n < tt y - n"
      using Cons.prems by (auto dest: order_less_le_trans)
    then have "filter (\<lambda>x. tt x - n \<le> tt tm - n) (x # xs) = []"
      by (simp add: filter_empty_conv not_le)
    moreover have "filter (\<lambda>x. tt tm - n < tt x - n) (x # xs) = x # xs"
      using later by (simp add: filter_id_conv)
    ultimately show ?thesis using True c by simp
  next
    case False
    then show ?thesis using c Cons by (auto simp: not_less)
  qed
qed simp

lemma set_timer_insert [simp]: "set (timer_insert tt tm xs) = insert tm (set xs)"
  by (induction xs) auto

lemma distinct_timer_insert: "distinct xs \<Longrightarrow> tm \<notin> set xs \<Longrightarrow> distinct (timer_insert tt tm xs)"
  by (induction xs) auto

section \<open>Stopping and starting\<close>

text \<open>The state with a timer taken off the list and its flag cleared.\<close>

definition timer_off :: "timer_id \<Rightarrow> kernel \<Rightarrow> kernel" where
  "timer_off tm s = set_flag tm (\<lambda>f. f AND NOT RT_TIMER_FLAG_ACTIVATED) (rt_timer_remove tm s)"

lemma timer_off_sel [simp]:
  "rt_timer_list (timer_off tm s) = removeAll tm (rt_timer_list s)"
  "timers (timer_off tm s) = timers s"
  "objects (timer_off tm s) = (objects s)(OTimer tm :=
     map_option (\<lambda>x. x\<lparr>obj_flag := obj_flag x AND NOT RT_TIMER_FLAG_ACTIVATED\<rparr>) (objects s (OTimer tm)))"
  "rt_tick (timer_off tm s) = rt_tick s" "threads (timer_off tm s) = threads s"
  "tlists (timer_off tm s) = tlists s" "containers (timer_off tm s) = containers s"
  "rt_thread_ready_priority_group (timer_off tm s) = rt_thread_ready_priority_group s"
  "rt_current_thread (timer_off tm s) = rt_current_thread s"
  "rt_scheduler_lock_nest (timer_off tm s) = rt_scheduler_lock_nest s"
  "rt_interrupt_nest (timer_off tm s) = rt_interrupt_nest s"
  by (simp_all add: timer_off_def set_flag_def rt_timer_remove_def upd_object_def)

lemma timers_wfD:
  assumes "timers_wf s"
  shows "distinct (rt_timer_list s)" "sorted (map (until s) (rt_timer_list s))"
    "tm \<in> set (rt_timer_list s) \<Longrightarrow> is_timer s tm"
    "tm \<in> set (rt_timer_list s) \<Longrightarrow> timer_active s tm"
    "tm \<in> set (rt_timer_list s) \<Longrightarrow> until s tm < 0x80000000"
  using assms unfolding timers_wf_def by blast+

lemma and_not_one: "f AND 1 = 0 \<Longrightarrow> f AND NOT 1 = (f :: u8)"
proof -
  assume a: "f AND 1 = 0"
  have "f = (f AND 1) OR (f AND NOT 1)" by (rule bit_word_eqI) (auto simp: bit_simps)
  with a show ?thesis by simp
qed

text \<open>Whatever the flag says, a stopped timer is off: the flag is set for every listed timer.\<close>

lemma rt_timer_stop_off:
  assumes wf: "timers_wf s" and tm: "is_timer s tm"
  shows "\<exists>r. rt_timer_stop tm s = Some (r, timer_off tm s)"
proof -
  obtain x where x: "objects s (OTimer tm) = Some x"
    "obj_type x AND NOT RT_Object_Class_Static = RT_Object_Class_Timer"
    using tm by (auto simp: is_timer_def)
  show ?thesis
  proof (cases "obj_flag x AND RT_TIMER_FLAG_ACTIVATED = 0")
    case True
    then have "tm \<notin> set (rt_timer_list s)"
      using timers_wfD(4) [OF wf, of tm] x by (auto simp: timer_active_def)
    then have "timer_off tm s = s"
      using x and_not_one [OF True]
      by (simp add: timer_off_def set_flag_def rt_timer_remove_def upd_object_def fun_upd_idem)
    then show ?thesis using True x by (simp add: rt_timer_stop_def check_type_known)
  next
    case False
    then show ?thesis using x by (simp add: rt_timer_stop_def check_type_known timer_off_def Let_def)
  qed
qed

text \<open>\<open>timers_wf\<close> looks at the listed timers only.\<close>

lemma timers_wf_cong:
  assumes "timers_wf s" and "rt_timer_list s' = rt_timer_list s" "rt_tick s' = rt_tick s"
    and "\<And>tm. tm \<in> set (rt_timer_list s) \<Longrightarrow> objects s' (OTimer tm) = objects s (OTimer tm)"
    and "\<And>tm. tm \<in> set (rt_timer_list s) \<Longrightarrow> timers s' tm = timers s tm"
  shows "timers_wf s'"
proof -
  have "until s' tm = until s tm" if "tm \<in> set (rt_timer_list s)" for tm
    using assms that by (simp add: until_def due_in_def timeout_of_def)
  note d = this
  have "map (until s') (rt_timer_list s) = map (until s) (rt_timer_list s)"
    by (rule map_cong) (simp_all add: d)
  with timers_wfD(2) [OF assms(1)] have "sorted (map (until s') (rt_timer_list s'))"
    using assms(2) by (simp del: map_eq_conv)
  moreover have "is_timer s' tm \<and> timer_active s' tm \<and> until s' tm < 0x80000000"
    if "tm \<in> set (rt_timer_list s)" for tm
    using assms(4,5) [OF that] d [OF that] timers_wfD(3-5) [OF assms(1) that]
    by (simp add: is_timer_def timer_active_def)
  ultimately show ?thesis using timers_wfD(1) [OF assms(1)] assms(2)
    by (simp add: timers_wf_def)
qed

lemma timers_wf_remove:
  assumes wf: "timers_wf s"
  shows "timers_wf (rt_timer_remove tm s)"
proof -
  have "sorted (map (until s) (removeAll tm (rt_timer_list s)))"
    using timers_wfD(2) [OF wf] by (metis removeAll_filter_not_eq sorted_filter)
  then show ?thesis using wf
    by (auto simp: timers_wf_def rt_timer_remove_def is_timer_def timer_active_def until_def due_in_def timeout_of_def
        distinct_removeAll cong: map_cong)
qed

lemma timers_wf_off: assumes "timers_wf s" shows "timers_wf (timer_off tm s)"
  by (rule timers_wf_cong [OF timers_wf_remove [OF assms, of tm]])
     (auto simp: rt_timer_remove_def)

text \<open>
  A started timer is due in its period, behind every timer due no later and in front of the
  others; nothing else changes.
\<close>

definition timer_on :: "timer_id \<Rightarrow> kernel \<Rightarrow> kernel" where
  "timer_on tm s =
     (let t = the (timers s tm); ys = removeAll tm (rt_timer_list s) in
      s\<lparr>timers := (timers s)(tm \<mapsto> t\<lparr>timeout_tick := rt_tick s + timer_init_tick t\<rparr>),
        rt_timer_list := filter (\<lambda>x. until s x \<le> timer_init_tick t + 1) ys @ tm #
                         filter (\<lambda>x. timer_init_tick t + 1 < until s x) ys,
        objects := (objects s)(OTimer tm := map_option (\<lambda>x. x\<lparr>obj_flag :=
                     obj_flag x AND NOT RT_TIMER_FLAG_ACTIVATED OR RT_TIMER_FLAG_ACTIVATED\<rparr>) (objects s (OTimer tm))),
        random_nr := random_nr s + 1\<rparr>)"

lemma timer_on_sel [simp]:
  "rt_tick (timer_on tm s) = rt_tick s" "threads (timer_on tm s) = threads s"
  "tlists (timer_on tm s) = tlists s" "containers (timer_on tm s) = containers s"
  "rt_thread_ready_priority_group (timer_on tm s) = rt_thread_ready_priority_group s"
  "rt_current_thread (timer_on tm s) = rt_current_thread s"
  "rt_scheduler_lock_nest (timer_on tm s) = rt_scheduler_lock_nest s"
  "rt_interrupt_nest (timer_on tm s) = rt_interrupt_nest s"
  "objects (timer_on tm s) = (objects s)(OTimer tm := map_option (\<lambda>x. x\<lparr>obj_flag :=
     obj_flag x AND NOT RT_TIMER_FLAG_ACTIVATED OR RT_TIMER_FLAG_ACTIVATED\<rparr>) (objects s (OTimer tm)))"
  "timers (timer_on tm s) = (timers s)(tm \<mapsto>
     (the (timers s tm))\<lparr>timeout_tick := rt_tick s + timer_init_tick (the (timers s tm))\<rparr>)"
  by (simp_all add: timer_on_def Let_def)

lemma plus_one_small:
  assumes "(n :: u32) < RT_TICK_MAX div 2"
  shows "n + 1 < 0x80000000" "n + 1 \<noteq> 0" "n < n + 1"
proof -
  have n: "unat n < 0x7fffffff" using assms by (simp add: word_less_nat_alt)
  then have u: "unat (n + 1) = unat n + 1" by (simp add: unat_word_ariths)
  show "n + 1 < 0x80000000" "n < n + 1" using n u by (simp_all add: word_less_nat_alt)
  show "n + 1 \<noteq> 0" using u by (metis add_is_0 one_neq_zero unat_0)
qed

lemma sorted_removeAll: "sorted (map f xs) \<Longrightarrow> sorted (map f (removeAll x xs))"
  by (metis removeAll_filter_not_eq sorted_filter)

lemma rt_timer_start_on:
  assumes wf: "timers_wf s" and tm: "is_timer s tm" and t: "timers s tm = Some t"
    and small: "timer_init_tick t < RT_TICK_MAX div 2"
  shows "rt_timer_start tm s = Some (RT_EOK, timer_on tm s)"
proof -
  obtain x where x: "objects s (OTimer tm) = Some x"
    "obj_type x AND NOT RT_Object_Class_Static = RT_Object_Class_Timer"
    using tm by (auto simp: is_timer_def)
  define ys where "ys = removeAll tm (rt_timer_list s)"
  define n where "n = rt_tick s - 1"
  define tt where "tt = (\<lambda>y. if y = tm then rt_tick s + timer_init_tick t else timeout_of s y)"
  have due: "tt y - n = until s y" if "y \<in> set ys" for y
    using that by (auto simp: tt_def ys_def due_in_def until_def n_def)
  have me: "tt tm - n = timer_init_tick t + 1" by (simp add: tt_def n_def)
  have "timer_insert tt tm ys = filter (\<lambda>y. tt y - n \<le> timer_init_tick t + 1) ys @ tm #
          filter (\<lambda>y. timer_init_tick t + 1 < tt y - n) ys"
    unfolding me [symmetric]
  proof (rule timer_insert_split)
    show "tt tm - n < 0x80000000" "tt tm - n \<noteq> 0" unfolding me using plus_one_small [OF small] by simp_all
    show "\<forall>x\<in>set ys. tt x - n < 0x80000000"
      using timers_wfD(5) [OF wf] due by (auto simp: ys_def)
    have "map (until s) ys = map (\<lambda>x. tt x - n) ys" using due by simp
    moreover have "sorted (map (until s) ys)"
      using timers_wfD(2) [OF wf] unfolding ys_def by (rule sorted_removeAll)
    ultimately show "sorted (map (\<lambda>x. tt x - n) ys)" by (simp only:)
  qed
  also have "filter (\<lambda>y. tt y - n \<le> timer_init_tick t + 1) ys =
      filter (\<lambda>y. until s y \<le> timer_init_tick t + 1) ys"
    using due by (intro filter_cong) auto
  also have "filter (\<lambda>y. timer_init_tick t + 1 < tt y - n) ys =
      filter (\<lambda>y. timer_init_tick t + 1 < until s y) ys"
    using due by (intro filter_cong) auto
  finally have ins: "timer_insert tt tm ys = filter (\<lambda>y. until s y \<le> timer_init_tick t + 1) ys @ tm #
      filter (\<lambda>y. timer_init_tick t + 1 < until s y) ys" .
  let ?s = "upd_timer tm (\<lambda>t. t\<lparr>timeout_tick := rt_tick s + timer_init_tick t\<rparr>)
              (set_flag tm (\<lambda>f. f AND NOT RT_TIMER_FLAG_ACTIVATED) (rt_timer_remove tm s))"
  have tt': "timeout_of (?s\<lparr>random_nr := random_nr ?s + 1\<rparr>) = tt"
    using t by (auto simp: fun_eq_iff timeout_of_def tt_def upd_timer_def set_flag_def upd_object_def rt_timer_remove_def)
  show ?thesis
    using t x small tt' ins
    by (simp add: rt_timer_start_def check_type_known Let_def timer_on_def set_flag_def upd_object_def
        upd_timer_def rt_timer_remove_def ys_def [symmetric] cong: filter_cong)
qed

lemma set_timer_on: "set (rt_timer_list (timer_on tm s)) = insert tm (set (rt_timer_list s))"
  by (auto simp: timer_on_def Let_def not_less)

lemma until_timer_on:
  assumes "timers s tm = Some t"
  shows "until (timer_on tm s) y = (if y = tm then timer_init_tick t + 1 else until s y)"
  using assms by (simp add: until_def due_in_def timeout_of_def)

lemma timers_wf_on:
  assumes wf: "timers_wf s" and tm: "is_timer s tm" and t: "timers s tm = Some t"
    and small: "timer_init_tick t < RT_TICK_MAX div 2"
  shows "timers_wf (timer_on tm s)"
proof -
  define ys where "ys = removeAll tm (rt_timer_list s)"
  let ?s = "timer_on tm s"
  have l: "rt_timer_list ?s = filter (\<lambda>y. until s y \<le> timer_init_tick t + 1) ys @ tm #
      filter (\<lambda>y. timer_init_tick t + 1 < until s y) ys"
    using t by (simp add: timer_on_def Let_def ys_def)
  note d = until_timer_on [OF t]
  have sy: "sorted (map (until s) ys)"
    using timers_wfD(2) [OF wf] unfolding ys_def by (rule sorted_removeAll)
  have nin: "tm \<notin> set ys" by (simp add: ys_def)
  have m: "map (until ?s) (filter P ys) = map (until s) (filter P ys)" for P
    using nin by (auto simp: d)
  have so: "sorted (map (until ?s) (rt_timer_list ?s))"
    unfolding l map_append list.map m sorted_append
    using sy by (auto simp: sorted_filter d dest: order_less_imp_le)
  have di: "distinct (rt_timer_list ?s)"
    unfolding l using timers_wfD(1) [OF wf] nin by (auto simp: ys_def distinct_removeAll not_less)
  have fl: "(f AND NOT 1 OR 1) AND 1 \<noteq> (0 :: u8)" for f
  proof
    assume "(f AND NOT 1 OR 1) AND 1 = 0"
    then have "\<not> bit ((f AND NOT 1 OR 1) AND 1) 0" by (simp only: bit_0_eq) simp
    then show False by (simp add: bit_simps)
  qed
  have "is_timer ?s y \<and> timer_active ?s y \<and> until ?s y < 0x80000000"
    if y: "y \<in> insert tm (set (rt_timer_list s))" for y
  proof (cases "y = tm")
    case True
    then show ?thesis using tm t plus_one_small(1) [OF small] fl d by (auto simp: is_timer_def timer_active_def)
  next
    case False
    then show ?thesis using y timers_wfD(3-5) [OF wf, of y] d
      by (auto simp: is_timer_def timer_active_def)
  qed
  then show ?thesis using so di by (simp add: timers_wf_def set_timer_on)
qed

end
