(* ===== verification/Scheduler.thy ===== *)
theory Scheduler
  imports Timers
begin

text \<open>
  The scheduler (\<^verbatim>\<open>src/scheduler.c\<close>, with 32 priorities), the interrupt nesting
  counter (\<^verbatim>\<open>src/irq.c\<close>), and \<^verbatim>\<open>rt_object_find\<close>, which runs
  with the scheduler locked.

  A context switch only changes \<open>rt_current_thread\<close>: what a thread does after a call of
  \<^verbatim>\<open>rt_schedule\<close> happens when it is the current thread again. Routines that have
  code there are split at that point in the theories that model them.
\<close>

section \<open>The code\<close>

text \<open>\<^verbatim>\<open>&rt_thread_priority_table[p]\<close>, an array of 32 lists.\<close>

definition priority_slot :: "u8 \<Rightarrow> thead option" where
  "priority_slot p = (if unat p < RT_THREAD_PRIORITY_MAX then Some (Ready (unat p)) else None)"

text \<open>
  \<^verbatim>\<open>_rt_scheduler_stack_check\<close>: on an overflow the system stops with interrupts off
  (\<open>None\<close>); the warning it may print otherwise changes nothing.
\<close>

definition rt_scheduler_stack_check :: "rt_thread \<Rightarrow> unit option" where
  "rt_scheduler_stack_check th =
     (if stack_guard th \<noteq> 0x23 \<or> sp th \<le> stack_addr th \<or> stack_addr th + stack_size th < sp th
      then None else Some ())"

definition rt_system_scheduler_init :: "kernel \<Rightarrow> kernel" where
  "rt_system_scheduler_init s =
     s\<lparr>rt_scheduler_lock_nest := 0,
       tlists := (\<lambda>h. case h of
                    Ready p \<Rightarrow> if p < RT_THREAD_PRIORITY_MAX then [] else tlists s h
                  | Defunct \<Rightarrow> []
                  | _ \<Rightarrow> tlists s h),
       rt_current_priority := of_nat (RT_THREAD_PRIORITY_MAX - 1),
       rt_current_thread := None,
       rt_thread_ready_priority_group := 0\<rparr>"

text \<open>
  \<^verbatim>\<open>__rt_ffs(rt_thread_ready_priority_group) - 1\<close> and the first thread of that
  table entry; with no bit set, or an empty entry, C reads outside the table or off the list.
\<close>

definition highest_ready :: "kernel \<Rightarrow> (nat \<times> tid) option" where
  "highest_ready s =
     (let n = rt_ffs (rt_thread_ready_priority_group s) in
      if n = 0 then None
      else case tlists s (Ready (n - 1)) of [] \<Rightarrow> None | t # _ \<Rightarrow> Some (n - 1, t))"

definition rt_system_scheduler_start :: "kernel \<Rightarrow> kernel option" where
  "rt_system_scheduler_start s =
     do { (p, to_thread) \<leftarrow> highest_ready s; Some (s\<lparr>rt_current_thread := Some to_thread\<rparr>) }"

definition rt_schedule :: "kernel \<Rightarrow> kernel option" where
  "rt_schedule s =
     (if rt_scheduler_lock_nest s = 0
      then do { (p, to_thread) \<leftarrow> highest_ready s;
                if Some to_thread \<noteq> rt_current_thread s
                then do { let s = s\<lparr>rt_current_priority := of_nat p, rt_current_thread := Some to_thread\<rparr>;
                          th \<leftarrow> threads s to_thread;
                          rt_scheduler_stack_check th;
                          Some s }
                else Some s }
      else Some s)"

definition rt_schedule_insert_thread :: "tid \<Rightarrow> kernel \<Rightarrow> kernel option" where
  "rt_schedule_insert_thread t s =
     do { th \<leftarrow> threads s t;
          let th = th\<lparr>stat := RT_THREAD_READY OR (stat th AND NOT RT_THREAD_STAT_MASK)\<rparr>;
          let s = s\<lparr>threads := (threads s)(t \<mapsto> th)\<rparr>;
          slot \<leftarrow> priority_slot (current_priority th);
          let s = s\<lparr>tlists := ls_insert_before slot t (tlists s)\<rparr>;
          Some (s\<lparr>rt_thread_ready_priority_group := rt_thread_ready_priority_group s OR number_mask th\<rparr>) }"

definition rt_schedule_remove_thread :: "tid \<Rightarrow> kernel \<Rightarrow> kernel option" where
  "rt_schedule_remove_thread t s =
     do { th \<leftarrow> threads s t;
          let s = s\<lparr>tlists := ls_remove t (tlists s)\<rparr>;
          slot \<leftarrow> priority_slot (current_priority th);
          Some (if tlists s slot = []
                then s\<lparr>rt_thread_ready_priority_group :=
                         rt_thread_ready_priority_group s AND NOT (number_mask th)\<rparr>
                else s) }"

definition rt_enter_critical :: "kernel \<Rightarrow> kernel" where
  "rt_enter_critical s = s\<lparr>rt_scheduler_lock_nest := rt_scheduler_lock_nest s + 1\<rparr>"

definition rt_exit_critical :: "kernel \<Rightarrow> kernel option" where
  "rt_exit_critical s =
     (let s = s\<lparr>rt_scheduler_lock_nest := rt_scheduler_lock_nest s - 1\<rparr> in
      if sint (rt_scheduler_lock_nest s) \<le> 0
      then rt_schedule (s\<lparr>rt_scheduler_lock_nest := 0\<rparr>)
      else Some s)"

definition rt_critical_level :: "kernel \<Rightarrow> u16" where
  "rt_critical_level s = rt_scheduler_lock_nest s"

text \<open>\<^verbatim>\<open>src/irq.c\<close>\<close>

definition rt_interrupt_enter :: "kernel \<Rightarrow> kernel" where
  "rt_interrupt_enter s = s\<lparr>rt_interrupt_nest := rt_interrupt_nest s + 1\<rparr>"

definition rt_interrupt_leave :: "kernel \<Rightarrow> kernel" where
  "rt_interrupt_leave s = s\<lparr>rt_interrupt_nest := rt_interrupt_nest s - 1\<rparr>"

definition rt_interrupt_get_nest :: "kernel \<Rightarrow> u8" where
  "rt_interrupt_get_nest s = rt_interrupt_nest s"

text \<open>\<^verbatim>\<open>rt_object_find\<close>; a null name is \<open>None\<close>.\<close>

definition rt_object_find :: "cbuf option \<Rightarrow> u8 \<Rightarrow> kernel \<Rightarrow> (oid option \<times> kernel) option" where
  "rt_object_find name ty s =
     (case name of
        None \<Rightarrow> Some (None, s)
      | Some name \<Rightarrow>
          if ty > RT_Object_Class_Unknown then Some (None, s)
          else do { not_in_interrupt s;
                    let s = rt_enter_critical s;
                    information \<leftarrow> rt_object_get_information ty;
                    r \<leftarrow> find_by_name (objects s) name (containers s information);
                    s \<leftarrow> rt_exit_critical s;
                    Some (r, s) })"

section \<open>Thread states\<close>

definition stat_of :: "rt_thread \<Rightarrow> u8" where
  "stat_of th = stat th AND RT_THREAD_STAT_MASK"

lemma stat_of_set: "stat_of (th\<lparr>stat := c OR (x AND NOT RT_THREAD_STAT_MASK)\<rparr>) = c AND RT_THREAD_STAT_MASK"
proof -
  have "(c OR (x AND NOT m)) AND m = c AND (m :: u8)" for m
    by (rule bit_word_eqI) (auto simp: bit_simps)
  from this [of 15] show ?thesis by (simp add: stat_of_def)
qed

lemma stat_of_upd [simp]:
  "stat_of (th\<lparr>thread_error := e\<rparr>) = stat_of th" "stat_of (th\<lparr>current_priority := p\<rparr>) = stat_of th"
  "stat_of (th\<lparr>number_mask := n\<rparr>) = stat_of th" "stat_of (th\<lparr>event_set := es\<rparr>) = stat_of th"
  "stat_of (th\<lparr>event_info := ei\<rparr>) = stat_of th" "stat_of (th\<lparr>remaining_tick := k\<rparr>) = stat_of th"
  "stat_of (th\<lparr>stat := c\<rparr>) = c AND RT_THREAD_STAT_MASK"
  by (simp_all add: stat_of_def)

section \<open>The scheduler invariant\<close>

text \<open>
  The ready table, its bitmap and the state of every thread agree:
  a thread is on at most one list, and that list fits its state; a ready thread is on the list
  of its current priority; the bit of a priority is set exactly when its list is not empty.
\<close>

definition prio_mask :: "rt_thread \<Rightarrow> bool" where
  "prio_mask th \<longleftrightarrow> number_mask th = 2 ^ unat (current_priority th)"

text \<open>A thread that was never started has an empty mask, and may be closed in that state.\<close>

definition mask_ok :: "rt_thread \<Rightarrow> bool" where
  "mask_ok th \<longleftrightarrow> prio_mask th \<or>
     number_mask th = 0 \<and> stat_of th \<noteq> RT_THREAD_READY \<and> stat_of th \<noteq> RT_THREAD_SUSPEND"

definition sched_wf :: "kernel \<Rightarrow> bool" where
  "sched_wf s \<longleftrightarrow>
     lists_wf (tlists s) \<and>
     (\<forall>h t. t \<in> set (tlists s h) \<longrightarrow>
        (\<exists>th. threads s t = Some th \<and>
           (case h of
              Ready p \<Rightarrow> stat_of th = RT_THREAD_READY \<and> p = unat (current_priority th)
            | Defunct \<Rightarrow> stat_of th = RT_THREAD_CLOSE
            | _ \<Rightarrow> stat_of th = RT_THREAD_SUSPEND))) \<and>
     (\<forall>t th. threads s t = Some th \<longrightarrow>
        unat (current_priority th) < RT_THREAD_PRIORITY_MAX \<and>
        mask_ok th \<and>
        (stat_of th = RT_THREAD_READY \<longrightarrow> t \<in> set (tlists s (Ready (unat (current_priority th)))))) \<and>
     (\<forall>p < RT_THREAD_PRIORITY_MAX.
        bit (rt_thread_ready_priority_group s) p \<longleftrightarrow> tlists s (Ready p) \<noteq> [])"

lemma sched_wf_lists: "sched_wf s \<Longrightarrow> lists_wf (tlists s)"
  by (simp add: sched_wf_def)

lemma sched_wf_member:
  assumes "sched_wf s" "t \<in> set (tlists s h)"
  obtains th where "threads s t = Some th"
    "case h of Ready p \<Rightarrow> stat_of th = RT_THREAD_READY \<and> p = unat (current_priority th)
       | Defunct \<Rightarrow> stat_of th = RT_THREAD_CLOSE | _ \<Rightarrow> stat_of th = RT_THREAD_SUSPEND"
  using assms unfolding sched_wf_def by blast

lemma sched_wf_prio:
  "sched_wf s \<Longrightarrow> threads s t = Some th \<Longrightarrow> unat (current_priority th) < RT_THREAD_PRIORITY_MAX"
  unfolding sched_wf_def by blast

lemma sched_wf_mask:
  "sched_wf s \<Longrightarrow> threads s t = Some th \<Longrightarrow> mask_ok th"
  unfolding sched_wf_def by blast

lemma sched_wf_prio_mask:
  "\<lbrakk>sched_wf s; threads s t = Some th; stat_of th = RT_THREAD_READY \<or> stat_of th = RT_THREAD_SUSPEND\<rbrakk>
   \<Longrightarrow> number_mask th = 2 ^ unat (current_priority th)"
  using sched_wf_mask [of s t th] by (auto simp: mask_ok_def prio_mask_def)

lemma sched_wf_ready:
  "\<lbrakk>sched_wf s; threads s t = Some th; stat_of th = RT_THREAD_READY\<rbrakk>
   \<Longrightarrow> t \<in> set (tlists s (Ready (unat (current_priority th))))"
  unfolding sched_wf_def by blast

lemma sched_wf_group:
  "sched_wf s \<Longrightarrow> p < RT_THREAD_PRIORITY_MAX \<Longrightarrow>
     bit (rt_thread_ready_priority_group s) p \<longleftrightarrow> tlists s (Ready p) \<noteq> []"
  unfolding sched_wf_def by blast

lemma priority_slot_eq [simp]:
  "unat p < RT_THREAD_PRIORITY_MAX \<Longrightarrow> priority_slot p = Some (Ready (unat p))"
  by (simp add: priority_slot_def)

lemma bit_mask_or:
  "k < RT_THREAD_PRIORITY_MAX \<Longrightarrow> bit (g OR 2 ^ k :: u32) p \<longleftrightarrow> bit g p \<or> p = k"
  by (auto simp: bit_simps RT_THREAD_PRIORITY_MAX_def)

lemma bit_mask_clear:
  "p < RT_THREAD_PRIORITY_MAX \<Longrightarrow> bit (g AND NOT (2 ^ k) :: u32) p \<longleftrightarrow> bit g p \<and> p \<noteq> k"
  by (auto simp: bit_simps RT_THREAD_PRIORITY_MAX_def)

text \<open>A thread leaves whatever list it is on and is no longer ready.\<close>

lemma sched_wf_unready:
  assumes wf: "sched_wf s" and t: "threads s t = Some th"
    and st: "stat_of th' \<noteq> RT_THREAD_READY" and ok: "mask_ok th'"
    and same: "current_priority th' = current_priority th"
    and l: "l = ls_remove t (tlists s)"
    and g: "g = (if l (Ready (unat (current_priority th))) = []
                 then rt_thread_ready_priority_group s AND NOT (number_mask th)
                 else rt_thread_ready_priority_group s)"
  shows "sched_wf (s\<lparr>threads := (threads s)(t \<mapsto> th'), tlists := l, rt_thread_ready_priority_group := g\<rparr>)"
proof -
  let ?p = "unat (current_priority th)"
  have m: "number_mask th = 2 ^ ?p \<or> number_mask th = 0 \<and> stat_of th \<noteq> RT_THREAD_READY"
    using sched_wf_mask [OF wf t] by (auto simp: mask_ok_def prio_mask_def)
  have nin: "t \<notin> set (tlists s (Ready q))" if "stat_of th \<noteq> RT_THREAD_READY" for q
    using sched_wf_member [OF wf, of t "Ready q"] t that by force
  have "bit g p \<longleftrightarrow> l (Ready p) \<noteq> []" if p: "p < RT_THREAD_PRIORITY_MAX" for p
  proof (cases "p = ?p")
    case True
    then show ?thesis using g m p sched_wf_group [OF wf p] nin
      by (auto simp: bit_mask_clear l ls_remove_def)
  next
    case False
    then have "t \<notin> set (tlists s (Ready p))"
      using sched_wf_member [OF wf, of t "Ready p"] t by force
    then have "l (Ready p) = tlists s (Ready p)" by (simp add: l ls_remove_def)
    then show ?thesis using g m p False sched_wf_group [OF wf p] by (auto simp: bit_mask_clear)
  qed
  moreover have "lists_wf l" using sched_wf_lists [OF wf] by (simp add: l lists_wf_remove)
  moreover have "\<exists>uh. threads s u = Some uh \<and> (case h of
        Ready p \<Rightarrow> stat_of uh = RT_THREAD_READY \<and> p = unat (current_priority uh)
      | Defunct \<Rightarrow> stat_of uh = RT_THREAD_CLOSE | _ \<Rightarrow> stat_of uh = RT_THREAD_SUSPEND) \<and> u \<noteq> t"
    if "u \<in> set (l h)" for u h
    using that sched_wf_member [OF wf, of u h] by (auto simp: l)
  moreover have "unat (current_priority th') < RT_THREAD_PRIORITY_MAX"
    using sched_wf_prio [OF wf t] same by simp
  ultimately show ?thesis using wf st ok
    unfolding sched_wf_def by (auto simp: l split: if_splits)
qed

text \<open>A thread leaves whatever list it is on and becomes ready.\<close>

lemma sched_wf_makeready:
  assumes wf: "sched_wf s" and t: "threads s t = Some th"
    and nr: "stat_of th = RT_THREAD_SUSPEND"
    and st: "stat_of th' = RT_THREAD_READY"
    and same: "current_priority th' = current_priority th" "number_mask th' = number_mask th"
    and l: "l = ls_insert_before (Ready (unat (current_priority th))) t (ls_remove t (tlists s))"
    and g: "g = rt_thread_ready_priority_group s OR number_mask th"
  shows "sched_wf (s\<lparr>threads := (threads s)(t \<mapsto> th'), tlists := l, rt_thread_ready_priority_group := g\<rparr>)"
proof -
  let ?p = "unat (current_priority th)"
  have m: "number_mask th = 2 ^ ?p" using sched_wf_prio_mask [OF wf t] nr by simp
  have p: "?p < RT_THREAD_PRIORITY_MAX" using sched_wf_prio [OF wf t] .
  have nin: "t \<notin> set (tlists s (Ready q))" for q
    using sched_wf_member [OF wf, of t "Ready q"] t nr by force
  have "bit g q \<longleftrightarrow> l (Ready q) \<noteq> []" if q: "q < RT_THREAD_PRIORITY_MAX" for q
    using sched_wf_group [OF wf q] nin [of q] unfolding g m bit_mask_or [OF p]
    by (auto simp: l ls_insert_before_def ls_remove_def)
  moreover have "lists_wf l"
    using sched_wf_lists [OF wf] by (simp add: l lists_wf_insert_before lists_wf_remove)
  moreover have mem: "u \<in> set (l h) \<longleftrightarrow> (if u = t then h = Ready ?p else u \<in> set (tlists s h))" for u h
    by (auto simp: l ls_insert_before_def)
  moreover have "mask_ok th'" using m same by (simp add: prio_mask_def mask_ok_def)
  ultimately show ?thesis using wf st same p
    unfolding sched_wf_def by (auto split: if_splits)
qed

text \<open>A suspended thread on no list is put on a waiting list, or a closed one on the defunct list.\<close>

lemma sched_wf_park:
  assumes wf: "sched_wf s" and t: "threads s t = Some th"
    and h: "(\<exists>x y d k. h = SuspendQ x \<or> h = SenderQ y \<or> h = DriverQ d k) \<and> stat_of th = RT_THREAD_SUSPEND \<or>
            h = Defunct \<and> stat_of th = RT_THREAD_CLOSE"
    and l: "lists_wf l" and mem: "\<And>u h'. u \<in> set (l h') \<longleftrightarrow> u \<in> set (tlists s h') \<or> u = t \<and> h' = h"
    and rdy: "\<And>p. l (Ready p) = tlists s (Ready p)"
  shows "sched_wf (s\<lparr>tlists := l\<rparr>)"
  using wf t h l unfolding sched_wf_def by (auto simp: mem rdy)

text \<open>Fields of a thread the scheduler does not look at.\<close>

definition sched_view :: "rt_thread \<Rightarrow> u8 \<times> u8 \<times> u32" where
  "sched_view th = (stat_of th, current_priority th, number_mask th)"

lemma sched_wf_view:
  assumes wf: "sched_wf s"
    and same: "tlists s' = tlists s" "rt_thread_ready_priority_group s' = rt_thread_ready_priority_group s"
    and v: "\<And>u. map_option sched_view (threads s' u) = map_option sched_view (threads s u)"
  shows "sched_wf s'"
proof -
  have fwd: "\<exists>b. threads s' u = Some b \<and> stat_of b = stat_of a \<and> current_priority b = current_priority a"
    if "threads s u = Some a" for u a
    using v [of u] that by (cases "threads s' u") (auto simp: sched_view_def)
  have bwd: "\<exists>a. threads s u = Some a \<and> stat_of b = stat_of a \<and>
      current_priority b = current_priority a \<and> number_mask b = number_mask a"
    if "threads s' u = Some b" for u b
    using v [of u] that by (cases "threads s u") (auto simp: sched_view_def)
  have "\<exists>b. threads s' u = Some b \<and> (case h of
        Ready p \<Rightarrow> stat_of b = RT_THREAD_READY \<and> p = unat (current_priority b)
      | Defunct \<Rightarrow> stat_of b = RT_THREAD_CLOSE | _ \<Rightarrow> stat_of b = RT_THREAD_SUSPEND)"
    if u: "u \<in> set (tlists s h)" for u h
  proof -
    obtain a where a: "threads s u = Some a" and c: "case h of
        Ready p \<Rightarrow> stat_of a = RT_THREAD_READY \<and> p = unat (current_priority a)
      | Defunct \<Rightarrow> stat_of a = RT_THREAD_CLOSE | _ \<Rightarrow> stat_of a = RT_THREAD_SUSPEND"
      using sched_wf_member [OF wf u] by blast
    obtain b where "threads s' u = Some b" "stat_of b = stat_of a" "current_priority b = current_priority a"
      using fwd [OF a] by blast
    with c show ?thesis by (cases h) auto
  qed
  moreover have "unat (current_priority b) < RT_THREAD_PRIORITY_MAX \<and>
        mask_ok b \<and>
        (stat_of b = RT_THREAD_READY \<longrightarrow> u \<in> set (tlists s (Ready (unat (current_priority b)))))"
    if b: "threads s' u = Some b" for u b
  proof -
    obtain a where a: "threads s u = Some a" "stat_of b = stat_of a"
      "current_priority b = current_priority a" "number_mask b = number_mask a"
      using bwd [OF b] by blast
    then show ?thesis
      using sched_wf_prio [OF wf a(1)] sched_wf_mask [OF wf a(1)] sched_wf_ready [OF wf a(1)]
      by (simp add: prio_mask_def mask_ok_def)
  qed
  ultimately show ?thesis using sched_wf_lists [OF wf] sched_wf_group [OF wf]
    unfolding sched_wf_def same by blast
qed

lemma sched_wf_upd_thread:
  assumes "sched_wf s" "\<And>th. threads s t = Some th \<Longrightarrow> sched_view (f th) = sched_view th"
  shows "sched_wf (upd_thread t f s)"
proof (rule sched_wf_view [OF assms(1)])
  show "map_option sched_view (threads (upd_thread t f s) u) = map_option sched_view (threads s u)" for u
    using assms(2) by (cases "threads s t") (auto simp: upd_thread_def)
qed (simp_all add: upd_thread_def)

lemma sched_wf_cong:
  "\<lbrakk>sched_wf s; threads s' = threads s; tlists s' = tlists s;
    rt_thread_ready_priority_group s' = rt_thread_ready_priority_group s\<rbrakk> \<Longrightarrow> sched_wf s'"
  by (simp add: sched_wf_def)

section \<open>The choice of the next thread\<close>

text \<open>\<^verbatim>\<open>highest_ready\<close> finds the first thread of the highest non-empty priority.\<close>

lemma highest_ready_spec:
  assumes wf: "sched_wf s" and r: "tlists s (Ready q) \<noteq> []" and q: "q < RT_THREAD_PRIORITY_MAX"
  shows "\<exists>p t. highest_ready s = Some (p, t) \<and> p \<le> q \<and> tlists s (Ready p) \<noteq> [] \<and>
           t = hd (tlists s (Ready p)) \<and> (\<forall>p' < p. tlists s (Ready p') = [])"
proof -
  let ?g = "rt_thread_ready_priority_group s"
  have bq: "bit ?g q" using sched_wf_group [OF wf q] r by simp
  then have "?g \<noteq> 0" by auto
  from rt_ffs_lowest [OF this] have n: "0 < rt_ffs ?g" "bit ?g (rt_ffs ?g - 1)"
    and low: "\<And>i. i < rt_ffs ?g - 1 \<Longrightarrow> \<not> bit ?g i" by auto
  define p where "p = rt_ffs ?g - 1"
  have p32: "p < RT_THREAD_PRIORITY_MAX"
    using rt_ffs_le [of ?g] n by (simp add: p_def RT_THREAD_PRIORITY_MAX_def)
  have "tlists s (Ready p) \<noteq> []" using n sched_wf_group [OF wf p32] by (simp add: p_def)
  moreover have "\<forall>p' < p. tlists s (Ready p') = []"
    using low sched_wf_group [OF wf] p32 by (auto simp: p_def)
  moreover have "p \<le> q" using low [of q] bq unfolding p_def by linarith
  moreover have "highest_ready s = Some (p, hd (tlists s (Ready p)))"
    using n calculation(1) by (auto simp: highest_ready_def Let_def p_def split: list.splits)
  ultimately show ?thesis by blast
qed

lemma rt_schedule_wf: "sched_wf s \<Longrightarrow> rt_schedule s = Some s' \<Longrightarrow> sched_wf s'"
  by (auto simp: rt_schedule_def bind_Some_iff Let_def split: if_splits intro: sched_wf_cong)

lemma rt_schedule_frame:
  assumes "rt_schedule s = Some s'"
  shows "\<exists>p c. s' = s\<lparr>rt_current_priority := p, rt_current_thread := c\<rparr>"
proof (cases "s' = s")
  case True
  then have "s' = s\<lparr>rt_current_priority := rt_current_priority s, rt_current_thread := rt_current_thread s\<rparr>"
    by simp
  then show ?thesis by blast
next
  case False
  then show ?thesis using assms
    by (auto simp: rt_schedule_def bind_Some_iff Let_def split: if_splits)
qed

end
