(* ===== verification/Threads.thy ===== *)
theory Threads
  imports Scheduler
begin

text \<open>
  Threads (\<^verbatim>\<open>src/thread.c\<close>) and the initial stack frame of
  \<^verbatim>\<open>libcpu/arm/cortex-m4/cpuport.c\<close>. A control block handed to an
  initialisation routine is fresh storage: its list node is on no list. A thread that suspends
  itself goes on after \<^verbatim>\<open>rt_schedule\<close> when it runs again; that part of
  \<^verbatim>\<open>rt_thread_sleep\<close> is \<open>rt_thread_sleep_resumed\<close>. The sections after the
  code give the invariant of the kernel's core state and what each operation does to it.
\<close>

section \<open>The code\<close>

text \<open>\<^verbatim>\<open>1 << p\<close> on 32 bits; C leaves a larger shift undefined.\<close>

definition shift_one :: "u8 \<Rightarrow> u32 option" where
  "shift_one p = (if unat p < 32 then Some (push_bit (unat p) 1) else None)"

text \<open>
  \<^verbatim>\<open>rt_hw_stack_init\<close>: the new stack pointer and the words of
  \<^verbatim>\<open>struct stack_frame\<close> (flag, r4 to r11, r0 to r3, r12, lr, pc, psr) stored there.
\<close>

definition rt_hw_stack_init :: "u32 \<Rightarrow> u32 \<Rightarrow> u32 \<Rightarrow> u32 \<Rightarrow> u32 \<times> u32 list" where
  "rt_hw_stack_init tentry param stack_addr' texit =
     (let stk = stack_addr' + 4;
          stk = RT_ALIGN_DOWN stk 8;
          stk = stk - 68
      in (stk, [0] @ replicate 8 0xdeadbeef @ [param, 0, 0, 0, 0, texit, tentry, 0x01000000]))"

text \<open>
  The byte at the lowest stack address after the stack was filled with
  \<^verbatim>\<open>'#'\<close> and the frame (little endian) stored at \<open>stk\<close>.
\<close>

definition first_stack_byte :: "u32 \<Rightarrow> u32 \<Rightarrow> u32 \<Rightarrow> u32 list \<Rightarrow> u8" where
  "first_stack_byte addr sz stk frm =
     (let off = unat (addr - stk) in
      if off < 68 then ucast (drop_bit (8 * (off mod 4)) (frm ! (off div 4)))
      else if sz = 0 then 0 else 0x23)"

definition rt_thread_init_fields ::
    "tid \<Rightarrow> u32 \<Rightarrow> u32 \<Rightarrow> u32 \<Rightarrow> u32 \<Rightarrow> u8 \<Rightarrow> u32 \<Rightarrow> u32 \<Rightarrow> kernel \<Rightarrow> (rt_err \<times> kernel) option" where
  "rt_thread_init_fields t entry' parameter' stack_start stack_size' priority tick texit s =
     do { let (sp', frm) = rt_hw_stack_init entry' parameter' (stack_start + stack_size' - 4) texit;
          rt_assert (unat priority < RT_THREAD_PRIORITY_MAX);
          let old = threads s t;
          let th = \<lparr>entry = entry', parameter = parameter', sp = sp', stack_addr = stack_start,
                    stack_size = stack_size',
                    stack_guard = first_stack_byte stack_start stack_size' sp' frm,
                    thread_error = RT_EOK, stat = RT_THREAD_INIT, current_priority = priority,
                    init_priority = priority, number_mask = 0,
                    event_set = (case old of None \<Rightarrow> 0 | Some x \<Rightarrow> event_set x),
                    event_info = (case old of None \<Rightarrow> 0 | Some x \<Rightarrow> event_info x),
                    thread_init_tick = tick, remaining_tick = tick, cleanup = None, user_data = 0\<rparr>;
          let s = s\<lparr>threads := (threads s)(t \<mapsto> th)\<rparr>;
          x \<leftarrow> objects s (OThread t);
          s \<leftarrow> rt_timer_init (ThreadTimer t) (obj_name x) (Rt_thread_timeout t) 0 RT_TIMER_FLAG_ONE_SHOT s;
          Some (RT_EOK, s) }"

text \<open>\<open>texit\<close> is the address of \<^verbatim>\<open>rt_thread_exit\<close>.\<close>

definition rt_thread_init ::
    "tid \<Rightarrow> cbuf \<Rightarrow> u32 \<Rightarrow> u32 \<Rightarrow> u32 \<Rightarrow> u32 \<Rightarrow> u8 \<Rightarrow> u32 \<Rightarrow> u32 \<Rightarrow> kernel \<Rightarrow> (rt_err \<times> kernel) option" where
  "rt_thread_init t name entry' parameter' stack_start stack_size' priority tick texit s =
     do { rt_assert (stack_start \<noteq> 0);
          s \<leftarrow> rt_object_init (OThread t) RT_Object_Class_Thread name s;
          rt_thread_init_fields t entry' parameter' stack_start stack_size' priority tick texit s }"

definition rt_thread_self :: "kernel \<Rightarrow> tid option" where
  "rt_thread_self s = rt_current_thread s"

definition rt_thread_suspend :: "tid \<Rightarrow> kernel \<Rightarrow> (rt_err \<times> kernel) option" where
  "rt_thread_suspend t s =
     do { check_type s (OThread t) RT_Object_Class_Thread;
          th \<leftarrow> threads s t;
          if stat th AND RT_THREAD_STAT_MASK \<noteq> RT_THREAD_READY then Some (- RT_ERROR, s)
          else do { let s = upd_thread t (\<lambda>th. th\<lparr>stat := RT_THREAD_SUSPEND OR (stat th AND NOT RT_THREAD_STAT_MASK)\<rparr>) s;
                    s \<leftarrow> rt_schedule_remove_thread t s;
                    (_, s) \<leftarrow> rt_timer_stop (ThreadTimer t) s;
                    Some (RT_EOK, s) } }"

definition rt_thread_resume :: "tid \<Rightarrow> kernel \<Rightarrow> (rt_err \<times> kernel) option" where
  "rt_thread_resume t s =
     do { check_type s (OThread t) RT_Object_Class_Thread;
          th \<leftarrow> threads s t;
          if stat th AND RT_THREAD_STAT_MASK \<noteq> RT_THREAD_SUSPEND then Some (- RT_ERROR, s)
          else do { let s = s\<lparr>tlists := ls_remove t (tlists s)\<rparr>;
                    (_, s) \<leftarrow> rt_timer_stop (ThreadTimer t) s;
                    s \<leftarrow> rt_schedule_insert_thread t s;
                    Some (RT_EOK, s) } }"

definition rt_thread_startup :: "tid \<Rightarrow> kernel \<Rightarrow> (rt_err \<times> kernel) option" where
  "rt_thread_startup t s =
     do { th \<leftarrow> threads s t;
          rt_assert (stat th AND RT_THREAD_STAT_MASK = RT_THREAD_INIT);
          check_type s (OThread t) RT_Object_Class_Thread;
          m \<leftarrow> shift_one (init_priority th);
          let s = upd_thread t (\<lambda>th. th\<lparr>current_priority := init_priority th, number_mask := m,
                                       stat := RT_THREAD_SUSPEND\<rparr>) s;
          (_, s) \<leftarrow> rt_thread_resume t s;
          s \<leftarrow> (if rt_thread_self s \<noteq> None then rt_schedule s else Some s);
          Some (RT_EOK, s) }"

text \<open>The common part of \<^verbatim>\<open>rt_thread_detach\<close> and \<^verbatim>\<open>rt_thread_delete\<close>.\<close>

definition thread_close :: "tid \<Rightarrow> kernel \<Rightarrow> kernel option" where
  "thread_close t s =
     do { th \<leftarrow> threads s t;
          s \<leftarrow> (if stat th AND RT_THREAD_STAT_MASK \<noteq> RT_THREAD_INIT
                then rt_schedule_remove_thread t s else Some s);
          (_, s) \<leftarrow> rt_timer_detach (ThreadTimer t) s;
          Some (upd_thread t (\<lambda>th. th\<lparr>stat := RT_THREAD_CLOSE\<rparr>) s) }"

definition rt_thread_detach :: "tid \<Rightarrow> kernel \<Rightarrow> (rt_err \<times> kernel) option" where
  "rt_thread_detach t s =
     do { check_type s (OThread t) RT_Object_Class_Thread;
          sys \<leftarrow> rt_object_is_systemobject s (OThread t);
          rt_assert sys;
          s \<leftarrow> thread_close t s;
          s \<leftarrow> rt_object_detach (OThread t) s;
          th \<leftarrow> threads s t;
          Some (RT_EOK, if cleanup th \<noteq> None
                        then s\<lparr>tlists := ls_insert_after Defunct t (tlists s)\<rparr> else s) }"

text \<open>\<open>mem\<close> and \<open>stack\<close>: what the two calls of \<^verbatim>\<open>RT_KERNEL_MALLOC\<close> return.\<close>

definition rt_thread_create ::
    "cbuf \<Rightarrow> u32 \<Rightarrow> u32 \<Rightarrow> u32 \<Rightarrow> u8 \<Rightarrow> u32 \<Rightarrow> u32 \<Rightarrow> tid option \<Rightarrow> u32 \<Rightarrow> kernel \<Rightarrow> (tid option \<times> kernel) option" where
  "rt_thread_create name entry' parameter' stack_size' priority tick texit mem stack s =
     do { (r, s) \<leftarrow> rt_object_allocate RT_Object_Class_Thread name (map_option OThread mem) s;
          case (r, mem) of
            (Some _, Some t) \<Rightarrow>
              if stack = 0 then do { s \<leftarrow> rt_object_delete (OThread t) s; Some (None, s) }
              else do { (_, s) \<leftarrow> rt_thread_init_fields t entry' parameter' stack stack_size' priority tick texit s;
                        Some (Some t, s) }
          | _ \<Rightarrow> Some (None, s) }"

definition rt_thread_delete :: "tid \<Rightarrow> kernel \<Rightarrow> (rt_err \<times> kernel) option" where
  "rt_thread_delete t s =
     do { check_type s (OThread t) RT_Object_Class_Thread;
          sys \<leftarrow> rt_object_is_systemobject s (OThread t);
          rt_assert (\<not> sys);
          s \<leftarrow> thread_close t s;
          Some (RT_EOK, s\<lparr>tlists := ls_insert_after Defunct t (tlists s)\<rparr>) }"

text \<open>The current thread runs off its entry function; it never runs again.\<close>

definition rt_thread_exit :: "kernel \<Rightarrow> kernel option" where
  "rt_thread_exit s =
     do { t \<leftarrow> rt_current_thread s;
          s \<leftarrow> rt_schedule_remove_thread t s;
          let s = upd_thread t (\<lambda>th. th\<lparr>stat := RT_THREAD_CLOSE\<rparr>) s;
          (_, s) \<leftarrow> rt_timer_detach (ThreadTimer t) s;
          sys \<leftarrow> rt_object_is_systemobject s (OThread t);
          th \<leftarrow> threads s t;
          s \<leftarrow> (if sys \<and> cleanup th = None then rt_object_detach (OThread t) s
                else Some (s\<lparr>tlists := ls_insert_after Defunct t (tlists s)\<rparr>));
          rt_schedule s }"

text \<open>
  \<^verbatim>\<open>tlist.next != tlist.prev\<close> of a ready thread holds when its table entry has two
  nodes or more (lemma \<open>not_alone_iff\<close>).
\<close>

definition rt_thread_yield :: "kernel \<Rightarrow> (rt_err \<times> kernel) option" where
  "rt_thread_yield s =
     do { t \<leftarrow> rt_current_thread s;
          th \<leftarrow> threads s t;
          if stat th AND RT_THREAD_STAT_MASK = RT_THREAD_READY then
            do { slot \<leftarrow> priority_slot (current_priority th);
                 if 2 \<le> length (tlists s slot)
                 then do { let s = s\<lparr>tlists := ls_insert_before slot t (ls_remove t (tlists s))\<rparr>;
                           s \<leftarrow> rt_schedule s;
                           Some (RT_EOK, s) }
                 else Some (RT_EOK, s) }
          else Some (RT_EOK, s) }"

text \<open>Setting the thread's timer and starting it, as every routine that waits with a limit does.\<close>

definition start_thread_timer :: "tid \<Rightarrow> u32 \<Rightarrow> kernel \<Rightarrow> kernel option" where
  "start_thread_timer t time s =
     do { (_, _, s) \<leftarrow> rt_timer_control (ThreadTimer t) RT_TIMER_CTRL_SET_TIME time s;
          (_, s) \<leftarrow> rt_timer_start (ThreadTimer t) s;
          Some s }"

definition rt_thread_sleep :: "u32 \<Rightarrow> kernel \<Rightarrow> (rt_err outcome \<times> kernel) option" where
  "rt_thread_sleep tick s =
     do { t \<leftarrow> rt_current_thread s;
          check_type s (OThread t) RT_Object_Class_Thread;
          (_, s) \<leftarrow> rt_thread_suspend t s;
          s \<leftarrow> start_thread_timer t tick s;
          s \<leftarrow> rt_schedule s;
          Some (Pending, s) }"

definition rt_thread_sleep_resumed :: "tid \<Rightarrow> kernel \<Rightarrow> (rt_err \<times> kernel) option" where
  "rt_thread_sleep_resumed t s =
     do { th \<leftarrow> threads s t;
          Some (RT_EOK, if thread_error th = - RT_ETIMEOUT
                        then upd_thread t (\<lambda>th. th\<lparr>thread_error := RT_EOK\<rparr>) s else s) }"

definition rt_thread_delay :: "u32 \<Rightarrow> kernel \<Rightarrow> (rt_err outcome \<times> kernel) option" where
  "rt_thread_delay tick = rt_thread_sleep tick"

text \<open>\<^verbatim>\<open>rt_tick_from_millisecond\<close>; signed overflow is undefined in C.\<close>

definition rt_tick_from_millisecond :: "int \<Rightarrow> int option" where
  "rt_tick_from_millisecond ms =
     (if ms < 0 then Some (- 1)
      else if RT_TICK_PER_SECOND * ms + 999 < 2 ^ 31
      then Some ((RT_TICK_PER_SECOND * ms + 999) div 1000) else None)"

definition rt_thread_mdelay :: "int \<Rightarrow> kernel \<Rightarrow> (rt_err outcome \<times> kernel) option" where
  "rt_thread_mdelay ms s =
     do { tick \<leftarrow> rt_tick_from_millisecond ms; rt_thread_sleep (of_int tick) s }"

definition change_priority :: "tid \<Rightarrow> u8 \<Rightarrow> kernel \<Rightarrow> kernel option" where
  "change_priority t p s =
     do { th \<leftarrow> threads s t;
          if stat th AND RT_THREAD_STAT_MASK = RT_THREAD_READY
          then do { s \<leftarrow> rt_schedule_remove_thread t s;
                    m \<leftarrow> shift_one p;
                    rt_schedule_insert_thread t
                      (upd_thread t (\<lambda>th. th\<lparr>current_priority := p, number_mask := m\<rparr>) s) }
          else do { m \<leftarrow> shift_one p;
                    Some (upd_thread t (\<lambda>th. th\<lparr>current_priority := p, number_mask := m\<rparr>) s) } }"

text \<open>\<open>arg\<close> is the byte \<^verbatim>\<open>*(rt_uint8_t *)arg\<close>.\<close>

definition rt_thread_control :: "tid \<Rightarrow> int \<Rightarrow> u8 \<Rightarrow> kernel \<Rightarrow> (rt_err \<times> kernel) option" where
  "rt_thread_control t cmd arg s =
     do { check_type s (OThread t) RT_Object_Class_Thread;
          if cmd = RT_THREAD_CTRL_CHANGE_PRIORITY
          then do { s \<leftarrow> change_priority t arg s; Some (RT_EOK, s) }
          else if cmd = RT_THREAD_CTRL_STARTUP then rt_thread_startup t s
          else if cmd = RT_THREAD_CTRL_CLOSE then rt_thread_delete t s
          else Some (RT_EOK, s) }"

definition rt_thread_timeout :: "tid \<Rightarrow> kernel \<Rightarrow> kernel option" where
  "rt_thread_timeout t s =
     do { th \<leftarrow> threads s t;
          rt_assert (stat th AND RT_THREAD_STAT_MASK = RT_THREAD_SUSPEND);
          check_type s (OThread t) RT_Object_Class_Thread;
          let s = upd_thread t (\<lambda>th. th\<lparr>thread_error := - RT_ETIMEOUT\<rparr>) s;
          let s = s\<lparr>tlists := ls_remove t (tlists s)\<rparr>;
          s \<leftarrow> rt_schedule_insert_thread t s;
          rt_schedule s }"

definition rt_thread_find :: "cbuf \<Rightarrow> kernel \<Rightarrow> (tid option \<times> kernel) option" where
  "rt_thread_find name s =
     do { let s = (if rt_thread_self s \<noteq> None then rt_enter_critical s else s);
          information \<leftarrow> rt_object_get_information RT_Object_Class_Thread;
          r \<leftarrow> find_by_name (objects s) name (containers s information);
          s \<leftarrow> (if rt_thread_self s \<noteq> None then rt_exit_critical s else Some s);
          Some (case r of Some (OThread t) \<Rightarrow> Some t | _ \<Rightarrow> None, s) }"

section \<open>The invariant of the core state\<close>

text \<open>
  A thread that is not closed has its object header and its built-in timer: a static one-shot
  timer object whose timeout function is \<^verbatim>\<open>rt_thread_timeout\<close> on the thread.
\<close>

definition thread_obj :: "kernel \<Rightarrow> tid \<Rightarrow> bool" where
  "thread_obj s t \<longleftrightarrow>
     (\<exists>x. objects s (OThread t) = Some x \<and> obj_type x AND NOT RT_Object_Class_Static = RT_Object_Class_Thread) \<and>
     (\<exists>y. objects s (OTimer (ThreadTimer t)) = Some y \<and>
        obj_type y = RT_Object_Class_Timer OR RT_Object_Class_Static \<and>
        obj_flag y AND RT_TIMER_FLAG_PERIODIC = 0) \<and>
     map_option timeout_func (timers s (ThreadTimer t)) = Some (Rt_thread_timeout t)"

text \<open>Only suspended threads have their timer running.\<close>

definition threads_wf :: "kernel \<Rightarrow> bool" where
  "threads_wf s \<longleftrightarrow>
     (\<forall>t th. threads s t = Some th \<longrightarrow> stat_of th \<noteq> RT_THREAD_CLOSE \<longrightarrow> thread_obj s t) \<and>
     (\<forall>t. ThreadTimer t \<in> set (rt_timer_list s) \<longrightarrow>
        (\<exists>th. threads s t = Some th \<and> stat_of th = RT_THREAD_SUSPEND))"

definition kernel_wf :: "kernel \<Rightarrow> bool" where
  "kernel_wf s \<longleftrightarrow> sched_wf s \<and> timers_wf s \<and> objects_wf s \<and> threads_wf s"

lemma kernel_wfD:
  assumes "kernel_wf s"
  shows "sched_wf s" "timers_wf s" "objects_wf s" "threads_wf s"
  using assms by (simp_all add: kernel_wf_def)

lemma threads_wfD:
  assumes "threads_wf s"
  shows "threads s t = Some th \<Longrightarrow> stat_of th \<noteq> RT_THREAD_CLOSE \<Longrightarrow> thread_obj s t"
    and "ThreadTimer t \<in> set (rt_timer_list s) \<Longrightarrow>
           \<exists>th. threads s t = Some th \<and> stat_of th = RT_THREAD_SUSPEND"
  using assms unfolding threads_wf_def by blast+

lemma thread_objE:
  assumes "thread_obj s t"
  obtains x y tm where "objects s (OThread t) = Some x"
    "obj_type x AND NOT RT_Object_Class_Static = RT_Object_Class_Thread"
    "objects s (OTimer (ThreadTimer t)) = Some y"
    "obj_type y = RT_Object_Class_Timer OR RT_Object_Class_Static"
    "obj_flag y AND RT_TIMER_FLAG_PERIODIC = 0"
    "timers s (ThreadTimer t) = Some tm" "timeout_func tm = Rt_thread_timeout t"
  using assms unfolding thread_obj_def by (auto simp: map_option_eq_Some)

lemma thread_obj_timer: "thread_obj s t \<Longrightarrow> is_timer s (ThreadTimer t)"
  by (auto elim!: thread_objE simp: is_timer_def)

lemma thread_obj_check: "thread_obj s t \<Longrightarrow> check_type s (OThread t) RT_Object_Class_Thread = Some ()"
  by (auto elim!: thread_objE simp: check_type_known)

text \<open>What an object header keeps when timers are started and stopped.\<close>

definition obj_view :: "rt_object \<Rightarrow> u8 list \<times> u8 \<times> u8" where
  "obj_view x = (obj_name x, obj_type x, obj_flag x AND NOT RT_TIMER_FLAG_ACTIVATED)"

lemma obj_view_flag:
  "obj_view (x\<lparr>obj_flag := obj_flag x AND NOT 1\<rparr>) = obj_view x"
  "obj_view (x\<lparr>obj_flag := obj_flag x AND NOT 1 OR 1\<rparr>) = obj_view x"
proof -
  have "(f AND NOT 1 OR 1) AND NOT 1 = f AND NOT (1 :: u8)" for f
    by (rule bit_word_eqI) (auto simp: bit_simps)
  then show "obj_view (x\<lparr>obj_flag := obj_flag x AND NOT 1 OR 1\<rparr>) = obj_view x"
    by (simp add: obj_view_def)
qed (simp add: obj_view_def and.assoc)

lemmas obj_view_flag_simps [simp] = obj_view_flag [simplified]

lemma flag_periodic: "f AND NOT 1 = g AND NOT 1 \<Longrightarrow> f AND 2 = g AND (2 :: u8)"
proof -
  assume a: "f AND NOT 1 = g AND NOT 1"
  have "(x AND NOT 1) AND 2 = x AND (2 :: u8)" for x
    by (simp add: and.assoc)
  with a show ?thesis by metis
qed

lemma thread_obj_cong:
  assumes o: "thread_obj s t"
    and v: "\<And>ob. map_option obj_view (objects s' ob) = map_option obj_view (objects s ob)"
    and f: "map_option timeout_func (timers s' (ThreadTimer t)) = map_option timeout_func (timers s (ThreadTimer t))"
  shows "thread_obj s' t"
proof -
  obtain x y where x: "objects s (OThread t) = Some x" "obj_type x AND NOT RT_Object_Class_Static = RT_Object_Class_Thread"
    and y: "objects s (OTimer (ThreadTimer t)) = Some y"
      "obj_type y = RT_Object_Class_Timer OR RT_Object_Class_Static" "obj_flag y AND RT_TIMER_FLAG_PERIODIC = 0"
    using o by (rule thread_objE)
  obtain x' where "objects s' (OThread t) = Some x'" "obj_view x' = obj_view x"
    using v [of "OThread t"] x by (cases "objects s' (OThread t)") auto
  moreover obtain y' where "objects s' (OTimer (ThreadTimer t)) = Some y'" "obj_view y' = obj_view y"
    using v [of "OTimer (ThreadTimer t)"] y by (cases "objects s' (OTimer (ThreadTimer t))") auto
  moreover from this(2) y have "obj_type y' = RT_Object_Class_Timer OR RT_Object_Class_Static"
    "obj_flag y' AND RT_TIMER_FLAG_PERIODIC = 0"
    using flag_periodic [of "obj_flag y'" "obj_flag y"] by (simp_all add: obj_view_def)
  ultimately show ?thesis using x o f by (auto simp: thread_obj_def obj_view_def)
qed

lemma objects_wf_cong:
  assumes wf: "objects_wf s" and c: "containers s' = containers s"
    and v: "\<And>ob. map_option obj_view (objects s' ob) = map_option obj_view (objects s ob)"
  shows "objects_wf s'"
proof -
  have bwd: "\<exists>x. objects s ob = Some x \<and> obj_view x = obj_view x'" if "objects s' ob = Some x'" for ob x'
    using v [of ob] that by (cases "objects s ob") auto
  have fwd: "\<exists>x'. objects s' ob = Some x' \<and> obj_view x = obj_view x'" if "objects s ob = Some x" for ob x
    using v [of ob] that by (cases "objects s' ob") auto
  have "length (obj_name x') = RT_NAME_MAX" if "objects s' ob = Some x'" for ob x'
    using bwd [OF that] objects_wfD(1) [OF wf, of ob] by (auto simp: obj_view_def)
  moreover have "\<exists>x. objects s' ob = Some x \<and> obj_type x AND NOT RT_Object_Class_Static = ty"
    if "ob \<in> set (containers s ty)" for ob ty
    using objects_wfD(3) [OF wf that] fwd by (fastforce simp: obj_view_def)
  ultimately show ?thesis using objects_wfD(2) [OF wf] by (simp add: objects_wf_def c)
qed

text \<open>
  One rule for the operations that move a thread between states or switch a timer: the four parts of
  the invariant from what changed.
\<close>

lemma threads_wf_cong:
  assumes wf: "threads_wf s"
    and v: "\<And>ob. map_option obj_view (objects s' ob) = map_option obj_view (objects s ob)"
    and f: "\<And>t. map_option timeout_func (timers s' (ThreadTimer t)) = map_option timeout_func (timers s (ThreadTimer t))"
    and live: "\<And>t th. threads s' t = Some th \<Longrightarrow> stat_of th \<noteq> RT_THREAD_CLOSE \<Longrightarrow>
                 \<exists>th'. threads s t = Some th' \<and> stat_of th' \<noteq> RT_THREAD_CLOSE"
    and l: "\<And>t. ThreadTimer t \<in> set (rt_timer_list s') \<Longrightarrow>
              \<exists>th. threads s' t = Some th \<and> stat_of th = RT_THREAD_SUSPEND"
  shows "threads_wf s'"
  unfolding threads_wf_def using l live thread_obj_cong [OF threads_wfD(1) [OF wf] v f] by blast

section \<open>Suspending and resuming\<close>

text \<open>The fields the core operations leave alone.\<close>

definition same_rest :: "kernel \<Rightarrow> kernel \<Rightarrow> bool" where
  "same_rest s s' \<longleftrightarrow>
     sems s' = sems s \<and> mutexes s' = mutexes s \<and> events s' = events s \<and> mailboxes s' = mailboxes s \<and>
     msgqueues s' = msgqueues s \<and> mempools s' = mempools s \<and> rt_tick s' = rt_tick s \<and>
     rt_interrupt_nest s' = rt_interrupt_nest s \<and> rt_scheduler_lock_nest s' = rt_scheduler_lock_nest s \<and>
     rt_errno s' = rt_errno s \<and> containers s' = containers s \<and>
     (\<forall>ob. map_option obj_view (objects s' ob) = map_option obj_view (objects s ob))"

lemma same_rest_refl [simp]: "same_rest s s"
  by (simp add: same_rest_def)

lemma same_rest_trans [trans]: "same_rest s s' \<Longrightarrow> same_rest s' s'' \<Longrightarrow> same_rest s s''"
  by (simp add: same_rest_def)

lemma same_restD [frame]:
  assumes "same_rest s s'"
  shows "sems s' = sems s" "mutexes s' = mutexes s" "events s' = events s"
    "mailboxes s' = mailboxes s" "msgqueues s' = msgqueues s" "mempools s' = mempools s"
    "rt_tick s' = rt_tick s" "rt_interrupt_nest s' = rt_interrupt_nest s"
    "rt_scheduler_lock_nest s' = rt_scheduler_lock_nest s" "containers s' = containers s"
    "rt_errno s' = rt_errno s"
  using assms by (simp_all add: same_rest_def)

lemma same_rest_view:
  "same_rest s s' \<Longrightarrow> map_option obj_view (objects s' ob) = map_option obj_view (objects s ob)"
  by (simp add: same_rest_def)

lemma same_rest_check:
  assumes "same_rest s s'"
  shows "check_type s' ob ty = check_type s ob ty"
    "rt_object_is_systemobject s' ob = rt_object_is_systemobject s ob"
proof -
  have v: "map_option obj_view (objects s' ob) = map_option obj_view (objects s ob)"
    using assms by (simp add: same_rest_def)
  show "check_type s' ob ty = check_type s ob ty"
    "rt_object_is_systemobject s' ob = rt_object_is_systemobject s ob"
    using v by (cases "objects s ob"; cases "objects s' ob";
        simp add: check_type_def rt_object_get_type_def rt_object_is_systemobject_def obj_view_def)+
qed

lemma same_rest_timer_off: "same_rest s (timer_off tm s)"
  by (simp add: same_rest_def timer_off_def set_flag_def rt_timer_remove_def upd_object_def option.map_comp comp_def)

lemma same_rest_timer_on: "same_rest s (timer_on tm s)"
  by (simp add: same_rest_def timer_on_def Let_def option.map_comp comp_def)

definition set_stat :: "u8 \<Rightarrow> rt_thread \<Rightarrow> rt_thread" where
  "set_stat c th = th\<lparr>stat := c OR (stat th AND NOT RT_THREAD_STAT_MASK)\<rparr>"

lemma set_stat_sel [simp]:
  "stat_of (set_stat c th) = c AND RT_THREAD_STAT_MASK"
  "current_priority (set_stat c th) = current_priority th" "number_mask (set_stat c th) = number_mask th"
  "init_priority (set_stat c th) = init_priority th" "thread_error (set_stat c th) = thread_error th"
  "event_set (set_stat c th) = event_set th" "event_info (set_stat c th) = event_info th"
  "sp (set_stat c th) = sp th" "stack_addr (set_stat c th) = stack_addr th"
  "stack_size (set_stat c th) = stack_size th" "stack_guard (set_stat c th) = stack_guard th"
  by (simp_all add: set_stat_def stat_of_set [simplified])

text \<open>\<^verbatim>\<open>rt_schedule_remove_thread\<close> and \<^verbatim>\<open>rt_schedule_insert_thread\<close> in full.\<close>

definition group_without :: "tid \<Rightarrow> rt_thread \<Rightarrow> kernel \<Rightarrow> u32" where
  "group_without t th s =
     (if ls_remove t (tlists s) (Ready (unat (current_priority th))) = []
      then rt_thread_ready_priority_group s AND NOT (number_mask th)
      else rt_thread_ready_priority_group s)"

lemma rt_schedule_remove_thread_eq:
  assumes "threads s t = Some th" "unat (current_priority th) < RT_THREAD_PRIORITY_MAX"
  shows "rt_schedule_remove_thread t s =
     Some (s\<lparr>tlists := ls_remove t (tlists s), rt_thread_ready_priority_group := group_without t th s\<rparr>)"
  using assms by (simp add: rt_schedule_remove_thread_def Let_def group_without_def)

lemma rt_schedule_insert_thread_eq:
  assumes "threads s t = Some th" "unat (current_priority th) < RT_THREAD_PRIORITY_MAX"
  shows "rt_schedule_insert_thread t s =
     Some (s\<lparr>threads := (threads s)(t \<mapsto> set_stat RT_THREAD_READY th),
             tlists := ls_insert_before (Ready (unat (current_priority th))) t (tlists s),
             rt_thread_ready_priority_group := rt_thread_ready_priority_group s OR number_mask th\<rparr>)"
  using assms by (simp add: rt_schedule_insert_thread_def Let_def set_stat_def)

text \<open>The state after a thread is suspended, and after one is made ready.\<close>

definition suspended :: "tid \<Rightarrow> rt_thread \<Rightarrow> kernel \<Rightarrow> kernel" where
  "suspended t th s =
     timer_off (ThreadTimer t) (s\<lparr>threads := (threads s)(t \<mapsto> set_stat RT_THREAD_SUSPEND th),
        tlists := ls_remove t (tlists s), rt_thread_ready_priority_group := group_without t th s\<rparr>)"

definition readied :: "tid \<Rightarrow> rt_thread \<Rightarrow> kernel \<Rightarrow> kernel" where
  "readied t th s =
     s\<lparr>threads := (threads s)(t \<mapsto> set_stat RT_THREAD_READY th),
       tlists := ls_insert_before (Ready (unat (current_priority th))) t (ls_remove t (tlists s)),
       rt_thread_ready_priority_group := rt_thread_ready_priority_group s OR number_mask th\<rparr>"

lemma suspended_sel [simp]:
  "threads (suspended t th s) = (threads s)(t \<mapsto> set_stat RT_THREAD_SUSPEND th)"
  "tlists (suspended t th s) = ls_remove t (tlists s)"
  "rt_timer_list (suspended t th s) = removeAll (ThreadTimer t) (rt_timer_list s)"
  "timers (suspended t th s) = timers s" "rt_current_thread (suspended t th s) = rt_current_thread s"
  by (simp_all add: suspended_def)

lemma readied_sel [simp]:
  "threads (readied t th s) = (threads s)(t \<mapsto> set_stat RT_THREAD_READY th)"
  "tlists (readied t th s) = ls_insert_before (Ready (unat (current_priority th))) t (ls_remove t (tlists s))"
  "rt_timer_list (readied t th s) = rt_timer_list s" "timers (readied t th s) = timers s"
  "objects (readied t th s) = objects s" "rt_current_thread (readied t th s) = rt_current_thread s"
  "rt_tick (readied t th s) = rt_tick s" "containers (readied t th s) = containers s"
  by (simp_all add: readied_def)

lemma same_rest_suspended: "same_rest s (suspended t th s)"
proof -
  have "same_rest s (s\<lparr>threads := a, tlists := b, rt_thread_ready_priority_group := c\<rparr>)" for a b c
    by (simp add: same_rest_def)
  then show ?thesis unfolding suspended_def by (rule same_rest_trans [OF _ same_rest_timer_off])
qed

lemma same_rest_readied: "same_rest s (readied t th s)"
  by (simp add: same_rest_def readied_def)

lemma rt_thread_suspend_eq:
  assumes wf: "kernel_wf s" and t: "threads s t = Some th"
  shows "rt_thread_suspend t s =
     (if stat_of th = RT_THREAD_CLOSE then rt_thread_suspend t s
      else if stat_of th = RT_THREAD_READY then Some (RT_EOK, suspended t th s)
      else Some (- RT_ERROR, s))"
proof (cases "stat_of th = RT_THREAD_CLOSE")
  case False
  note obj = threads_wfD(1) [OF kernel_wfD(4) [OF wf] t False]
  note p = sched_wf_prio [OF kernel_wfD(1) [OF wf] t]
  let ?u = "upd_thread t (\<lambda>th. th\<lparr>stat := RT_THREAD_SUSPEND OR (stat th AND NOT RT_THREAD_STAT_MASK)\<rparr>) s"
  let ?v = "s\<lparr>threads := (threads s)(t \<mapsto> set_stat RT_THREAD_SUSPEND th),
              tlists := ls_remove t (tlists s), rt_thread_ready_priority_group := group_without t th s\<rparr>"
  have u: "?u = s\<lparr>threads := (threads s)(t \<mapsto> set_stat RT_THREAD_SUSPEND th)\<rparr>"
    using t by (simp add: upd_thread_def set_stat_def)
  have r: "rt_schedule_remove_thread t ?u = Some ?v"
    using p unfolding u
    by (simp add: rt_schedule_remove_thread_eq [where th = "set_stat RT_THREAD_SUSPEND th"] group_without_def)
  have tw: "timers_wf ?v" by (rule timers_wf_cong [OF kernel_wfD(2) [OF wf]]) simp_all
  have "is_timer ?v (ThreadTimer t)" using thread_obj_timer [OF obj] by (simp add: is_timer_def)
  from rt_timer_stop_off [OF tw this] obtain q where
    q: "rt_timer_stop (ThreadTimer t) ?v = Some (q, timer_off (ThreadTimer t) ?v)" by blast
  show ?thesis using False thread_obj_check [OF obj] t r q
    by (simp add: rt_thread_suspend_def stat_of_def suspended_def Let_def del: check_type_iff)
qed simp

lemma rt_thread_resume_eq:
  assumes wf: "kernel_wf s" and t: "threads s t = Some th"
  shows "rt_thread_resume t s =
     (if stat_of th = RT_THREAD_CLOSE then rt_thread_resume t s
      else if stat_of th = RT_THREAD_SUSPEND then Some (RT_EOK, readied t th (timer_off (ThreadTimer t) s))
      else Some (- RT_ERROR, s))"
proof (cases "stat_of th = RT_THREAD_CLOSE")
  case False
  note obj = threads_wfD(1) [OF kernel_wfD(4) [OF wf] t False]
  note p = sched_wf_prio [OF kernel_wfD(1) [OF wf] t]
  let ?v = "s\<lparr>tlists := ls_remove t (tlists s)\<rparr>"
  have tw: "timers_wf ?v" by (rule timers_wf_cong [OF kernel_wfD(2) [OF wf]]) simp_all
  have "is_timer ?v (ThreadTimer t)" using thread_obj_timer [OF obj] by (simp add: is_timer_def)
  from rt_timer_stop_off [OF tw this] obtain q where
    q: "rt_timer_stop (ThreadTimer t) ?v = Some (q, timer_off (ThreadTimer t) ?v)" by blast
  have c: "timer_off (ThreadTimer t) ?v = (timer_off (ThreadTimer t) s)\<lparr>tlists := ls_remove t (tlists s)\<rparr>"
    by (simp add: timer_off_def set_flag_def rt_timer_remove_def upd_object_def)
  have i: "rt_schedule_insert_thread t (timer_off (ThreadTimer t) ?v) =
      Some (readied t th (timer_off (ThreadTimer t) s))"
    using t p by (simp add: rt_schedule_insert_thread_eq [where th = th] readied_def c)
  show ?thesis using False thread_obj_check [OF obj] t q i
    by (simp add: rt_thread_resume_def stat_of_def Let_def del: check_type_iff)
qed simp

section \<open>The invariant is kept\<close>

lemma kernel_wf_rest:
  assumes "kernel_wf s" and "sched_wf s'" "timers_wf s'" and "same_rest s s'"
    and "\<And>t. map_option timeout_func (timers s' (ThreadTimer t)) = map_option timeout_func (timers s (ThreadTimer t))"
    and "\<And>t th. threads s' t = Some th \<Longrightarrow> stat_of th \<noteq> RT_THREAD_CLOSE \<Longrightarrow>
           \<exists>th'. threads s t = Some th' \<and> stat_of th' \<noteq> RT_THREAD_CLOSE"
    and "\<And>t. ThreadTimer t \<in> set (rt_timer_list s') \<Longrightarrow>
           \<exists>th. threads s' t = Some th \<and> stat_of th = RT_THREAD_SUSPEND"
  shows "kernel_wf s'"
proof -
  have "objects_wf s'" using kernel_wfD(3) [OF assms(1)] assms(4)
    by (auto simp: same_rest_def intro: objects_wf_cong)
  moreover have "threads_wf s'"
    by (rule threads_wf_cong [OF kernel_wfD(4) [OF assms(1)]])
       (use assms(4-7) in \<open>auto simp: same_rest_def\<close>)
  ultimately show ?thesis using assms(2,3) by (simp add: kernel_wf_def)
qed

lemma timer_off_wf: assumes "kernel_wf s" shows "kernel_wf (timer_off tm s)"
proof (rule kernel_wf_rest [OF assms _ _ same_rest_timer_off])
  show "sched_wf (timer_off tm s)" by (rule sched_wf_cong [OF kernel_wfD(1) [OF assms]]) simp_all
  show "timers_wf (timer_off tm s)" by (rule timers_wf_off [OF kernel_wfD(2) [OF assms]])
qed (use threads_wfD(2) [OF kernel_wfD(4) [OF assms]] in auto)

lemma timer_on_wf:
  assumes wf: "kernel_wf s" and t: "threads s t = Some th" "stat_of th = RT_THREAD_SUSPEND"
    and tm: "timers s (ThreadTimer t) = Some tm" "timer_init_tick tm < RT_TICK_MAX div 2"
  shows "kernel_wf (timer_on (ThreadTimer t) s)"
proof (rule kernel_wf_rest [OF wf _ _ same_rest_timer_on])
  show "sched_wf (timer_on (ThreadTimer t) s)"
    by (rule sched_wf_cong [OF kernel_wfD(1) [OF wf]]) simp_all
  have "is_timer s (ThreadTimer t)"
    using threads_wfD(1) [OF kernel_wfD(4) [OF wf] t(1)] t(2) by (simp add: thread_obj_timer)
  then show "timers_wf (timer_on (ThreadTimer t) s)"
    using tm by (intro timers_wf_on [OF kernel_wfD(2) [OF wf]])
  fix u assume "ThreadTimer u \<in> set (rt_timer_list (timer_on (ThreadTimer t) s))"
  then have "u = t \<or> ThreadTimer u \<in> set (rt_timer_list s)"
    by (auto simp: timer_on_def Let_def split: if_splits)
  then show "\<exists>th. threads (timer_on (ThreadTimer t) s) u = Some th \<and> stat_of th = RT_THREAD_SUSPEND"
    using t threads_wfD(2) [OF kernel_wfD(4) [OF wf]] by auto
qed (use tm in auto)

lemma suspended_wf:
  assumes wf: "kernel_wf s" and t: "threads s t = Some th" "stat_of th = RT_THREAD_READY"
  shows "kernel_wf (suspended t th s)"
proof (rule kernel_wf_rest [OF wf _ _ same_rest_suspended])
  let ?v = "s\<lparr>threads := (threads s)(t \<mapsto> set_stat RT_THREAD_SUSPEND th),
              tlists := ls_remove t (tlists s), rt_thread_ready_priority_group := group_without t th s\<rparr>"
  note sw = kernel_wfD(1) [OF wf]
  have "sched_wf ?v"
    by (rule sched_wf_unready [OF sw t(1)])
       (use sched_wf_prio_mask [OF sw t(1)] t in \<open>simp_all add: mask_ok_def prio_mask_def group_without_def\<close>)
  then show "sched_wf (suspended t th s)"
    unfolding suspended_def by (rule sched_wf_cong) simp_all
  have "timers_wf ?v" by (rule timers_wf_cong [OF kernel_wfD(2) [OF wf]]) simp_all
  then show "timers_wf (suspended t th s)" unfolding suspended_def by (rule timers_wf_off)
  fix u assume "ThreadTimer u \<in> set (rt_timer_list (suspended t th s))"
  then show "\<exists>th'. threads (suspended t th s) u = Some th' \<and> stat_of th' = RT_THREAD_SUSPEND"
    using threads_wfD(2) [OF kernel_wfD(4) [OF wf]] by auto
qed (use t in \<open>auto split: if_splits\<close>)

lemma readied_wf:
  assumes wf: "kernel_wf s" and t: "threads s t = Some th" "stat_of th = RT_THREAD_SUSPEND"
    and off: "ThreadTimer t \<notin> set (rt_timer_list s)"
  shows "kernel_wf (readied t th s)"
proof (rule kernel_wf_rest [OF wf _ _ same_rest_readied])
  show "sched_wf (readied t th s)"
    unfolding readied_def
    by (rule sched_wf_makeready [OF kernel_wfD(1) [OF wf] t]) (simp_all add: set_stat_def stat_of_set [simplified])
  show "timers_wf (readied t th s)"
    by (rule timers_wf_cong [OF kernel_wfD(2) [OF wf]]) simp_all
  fix u assume "ThreadTimer u \<in> set (rt_timer_list (readied t th s))"
  then show "\<exists>th'. threads (readied t th s) u = Some th' \<and> stat_of th' = RT_THREAD_SUSPEND"
    using threads_wfD(2) [OF kernel_wfD(4) [OF wf]] off by auto
qed (use t in \<open>auto split: if_splits\<close>)

lemma resumed_wf:
  assumes "kernel_wf s" "threads s t = Some th" "stat_of th = RT_THREAD_SUSPEND"
  shows "kernel_wf (readied t th (timer_off (ThreadTimer t) s))"
  by (rule readied_wf [OF timer_off_wf]) (use assms in simp_all)

text \<open>Changes of thread fields the invariant does not look at, and of list membership.\<close>

lemma kernel_wf_view:
  assumes wf: "kernel_wf s"
    and same: "tlists s' = tlists s" "rt_thread_ready_priority_group s' = rt_thread_ready_priority_group s"
      "rt_timer_list s' = rt_timer_list s" "rt_tick s' = rt_tick s" "objects s' = objects s"
      "timers s' = timers s" "containers s' = containers s"
    and v: "\<And>u. map_option sched_view (threads s' u) = map_option sched_view (threads s u)"
  shows "kernel_wf s'"
proof -
  have fwd: "\<exists>b. threads s' u = Some b \<and> stat_of b = stat_of a" if "threads s u = Some a" for u a
    using v [of u] that by (cases "threads s' u") (auto simp: sched_view_def)
  have bwd: "\<exists>a. threads s u = Some a \<and> stat_of b = stat_of a" if "threads s' u = Some b" for u b
    using v [of u] that by (cases "threads s u") (auto simp: sched_view_def)
  have "sched_wf s'" by (rule sched_wf_view [OF kernel_wfD(1) [OF wf]]) (use same v in simp_all)
  moreover have "timers_wf s'" by (rule timers_wf_cong [OF kernel_wfD(2) [OF wf]]) (use same in simp_all)
  moreover have "objects_wf s'" using kernel_wfD(3) [OF wf] same by (simp add: objects_wf_def)
  moreover have "threads_wf s'"
    by (rule threads_wf_cong [OF kernel_wfD(4) [OF wf]])
       (use same fwd bwd threads_wfD(2) [OF kernel_wfD(4) [OF wf]] in \<open>fastforce+\<close>)
  ultimately show ?thesis by (simp add: kernel_wf_def)
qed

lemma kernel_wf_upd_thread:
  assumes "kernel_wf s" "\<And>th. threads s t = Some th \<Longrightarrow> sched_view (f th) = sched_view th"
  shows "kernel_wf (upd_thread t f s)"
proof (rule kernel_wf_view [OF assms(1)])
  show "map_option sched_view (threads (upd_thread t f s) u) = map_option sched_view (threads s u)" for u
    using assms(2) by (cases "threads s t") (auto simp: upd_thread_def)
qed (simp_all add: upd_thread_def)

lemma kernel_wf_tlists:
  assumes "kernel_wf s" "sched_wf (s\<lparr>tlists := l\<rparr>)"
  shows "kernel_wf (s\<lparr>tlists := l\<rparr>)"
  by (rule kernel_wf_rest [OF assms(1,2)])
     (use threads_wfD(2) [OF kernel_wfD(4) [OF assms(1)]] in
       \<open>auto simp: same_rest_def intro: timers_wf_cong [OF kernel_wfD(2) [OF assms(1)]]\<close>)

lemma rt_schedule_kernel_wf:
  assumes "kernel_wf s" "rt_schedule s = Some s'"
  shows "kernel_wf s'"
  using rt_schedule_frame [OF assms(2)] assms(1) by (auto intro: kernel_wf_view)

lemma kernel_wf_ipc [simp]:
  "kernel_wf (s\<lparr>sems := a\<rparr>) = kernel_wf s" "kernel_wf (s\<lparr>mutexes := b\<rparr>) = kernel_wf s"
  "kernel_wf (s\<lparr>events := c\<rparr>) = kernel_wf s" "kernel_wf (s\<lparr>mailboxes := d\<rparr>) = kernel_wf s"
  "kernel_wf (s\<lparr>msgqueues := e\<rparr>) = kernel_wf s" "kernel_wf (s\<lparr>mempools := f\<rparr>) = kernel_wf s"
  by (auto elim: kernel_wf_view)

lemma rt_schedule_rest: "rt_schedule s = Some s' \<Longrightarrow> same_rest s s'"
  by (auto dest!: rt_schedule_frame simp: same_rest_def)

lemma rt_schedule_core:
  assumes "rt_schedule s = Some s'"
  shows "threads s' = threads s" "tlists s' = tlists s" "rt_timer_list s' = rt_timer_list s"
    "timers s' = timers s" "objects s' = objects s"
    "rt_thread_ready_priority_group s' = rt_thread_ready_priority_group s"
  using rt_schedule_frame [OF assms] by auto

section \<open>The next thread to run\<close>

text \<open>Some thread is ready (the idle thread always is) and no live thread has overrun its stack.\<close>

definition stacks_ok :: "kernel \<Rightarrow> bool" where
  "stacks_ok s \<longleftrightarrow> (\<forall>t th. threads s t = Some th \<longrightarrow>
     stat_of th = RT_THREAD_READY \<or> stat_of th = RT_THREAD_SUSPEND \<longrightarrow> rt_scheduler_stack_check th = Some ())"

definition runnable :: "kernel \<Rightarrow> bool" where
  "runnable s \<longleftrightarrow> (\<exists>t th. threads s t = Some th \<and> stat_of th = RT_THREAD_READY) \<and> stacks_ok s"

text \<open>The current thread is the first of the most urgent ready threads.\<close>

definition runs_highest :: "kernel \<Rightarrow> bool" where
  "runs_highest s \<longleftrightarrow>
     (\<exists>t th. rt_current_thread s = Some t \<and> threads s t = Some th \<and> stat_of th = RT_THREAD_READY \<and>
        t = hd (tlists s (Ready (unat (current_priority th)))) \<and>
        (\<forall>u uh. threads s u = Some uh \<and> stat_of uh = RT_THREAD_READY \<longrightarrow>
           current_priority th \<le> current_priority uh))"

lemma rt_schedule_picks:
  assumes wf: "sched_wf s" and run: "runnable s"
  shows "\<exists>s'. rt_schedule s = Some s' \<and> (rt_scheduler_lock_nest s = 0 \<longrightarrow> runs_highest s')"
proof (cases "rt_scheduler_lock_nest s = 0")
  case True
  obtain v vh where v: "threads s v = Some vh" "stat_of vh = RT_THREAD_READY"
    using run by (auto simp: runnable_def)
  obtain p t where pt: "highest_ready s = Some (p, t)" "tlists s (Ready p) \<noteq> []"
      "t = hd (tlists s (Ready p))" "\<forall>p' < p. tlists s (Ready p') = []"
    using highest_ready_spec [OF wf _ sched_wf_prio [OF wf v(1)]] sched_wf_ready [OF wf v]
    by (metis empty_iff empty_set)
  then have "t \<in> set (tlists s (Ready p))" by simp
  from sched_wf_member [OF wf this] obtain th where
    th: "threads s t = Some th" "stat_of th = RT_THREAD_READY" "p = unat (current_priority th)" by auto
  have low: "current_priority th \<le> current_priority uh"
    if "threads s u = Some uh" "stat_of uh = RT_THREAD_READY" for u uh
  proof -
    have "tlists s (Ready (unat (current_priority uh))) \<noteq> []" using sched_wf_ready [OF wf that] by auto
    then have "p \<le> unat (current_priority uh)" using pt(4) not_less by blast
    then show ?thesis using th by (simp add: word_le_nat_alt)
  qed
  have chk: "rt_scheduler_stack_check th = Some ()" using run th by (auto simp: runnable_def stacks_ok_def)
  show ?thesis
  proof (cases "rt_current_thread s = Some t")
    case eq: True
    then have "rt_schedule s = Some s" using True pt by (simp add: rt_schedule_def)
    then show ?thesis using eq th pt low by (auto simp: runs_highest_def)
  next
    case False
    let ?s = "s\<lparr>rt_current_priority := of_nat p, rt_current_thread := Some t\<rparr>"
    have "rt_schedule s = Some ?s" using True pt False th chk by (auto simp: rt_schedule_def)
    moreover have "runs_highest ?s" using th pt low by (auto simp: runs_highest_def)
    ultimately show ?thesis by blast
  qed
qed (simp add: rt_schedule_def)

section \<open>Changing a priority\<close>

lemma set_stat_same: "stat_of th = c \<Longrightarrow> set_stat c th = th"
proof -
  assume c: "stat_of th = c"
  have "(x AND m) OR (x AND NOT m) = (x :: u8)" for x m
    by (rule bit_word_eqI) (auto simp: bit_simps)
  from this [of "stat th" 15] c show ?thesis by (simp add: set_stat_def stat_of_def)
qed

definition with_prio :: "u8 \<Rightarrow> rt_thread \<Rightarrow> rt_thread" where
  "with_prio p th = th\<lparr>current_priority := p, number_mask := 2 ^ unat p\<rparr>"

lemma with_prio_sel [simp]:
  "stat_of (with_prio p th) = stat_of th" "current_priority (with_prio p th) = p"
  "number_mask (with_prio p th) = 2 ^ unat p" "stat (with_prio p th) = stat th"
  by (simp_all add: with_prio_def stat_of_def)

definition reprioritised :: "tid \<Rightarrow> rt_thread \<Rightarrow> u8 \<Rightarrow> kernel \<Rightarrow> kernel" where
  "reprioritised t th p s =
     (if stat_of th = RT_THREAD_READY
      then s\<lparr>threads := (threads s)(t \<mapsto> with_prio p th),
             tlists := ls_insert_before (Ready (unat p)) t (ls_remove t (tlists s)),
             rt_thread_ready_priority_group := group_without t th s OR 2 ^ unat p\<rparr>
      else s\<lparr>threads := (threads s)(t \<mapsto> with_prio p th)\<rparr>)"

lemma shift_one_eq: "unat p < RT_THREAD_PRIORITY_MAX \<Longrightarrow> shift_one p = Some (2 ^ unat p)"
  by (simp add: shift_one_def RT_THREAD_PRIORITY_MAX_def)

lemma change_priority_eq:
  assumes wf: "kernel_wf s" and t: "threads s t = Some th" and p: "unat p < RT_THREAD_PRIORITY_MAX"
  shows "change_priority t p s = Some (reprioritised t th p s)"
proof -
  note q = sched_wf_prio [OF kernel_wfD(1) [OF wf] t]
  have u: "upd_thread t (\<lambda>th. th\<lparr>current_priority := p, number_mask := 2 ^ unat p\<rparr>) s' =
      s'\<lparr>threads := (threads s')(t \<mapsto> with_prio p th)\<rparr>" if "threads s' t = Some th" for s'
    using that by (simp add: upd_thread_def with_prio_def)
  show ?thesis
  proof (cases "stat_of th = RT_THREAD_READY")
    case True
    have r: "set_stat RT_THREAD_READY (with_prio p th) = with_prio p th"
      using True by (simp add: set_stat_same)
    show ?thesis using True t p
      by (simp add: change_priority_def stat_of_def rt_schedule_remove_thread_eq [OF t q] shift_one_eq
          u rt_schedule_insert_thread_eq [where th = "with_prio p th"] reprioritised_def r)
  next
    case False
    then show ?thesis using t p
      by (simp add: change_priority_def stat_of_def shift_one_eq u reprioritised_def)
  qed
qed

lemma sched_wf_reprio:
  assumes wf: "sched_wf s" and t: "threads s t = Some th" "stat_of th \<noteq> RT_THREAD_READY"
    and p: "unat p < RT_THREAD_PRIORITY_MAX"
  shows "sched_wf (s\<lparr>threads := (threads s)(t \<mapsto> with_prio p th)\<rparr>)"
proof -
  have "\<exists>uh. ((threads s)(t \<mapsto> with_prio p th)) u = Some uh \<and> (case h of
        Ready p \<Rightarrow> stat_of uh = RT_THREAD_READY \<and> p = unat (current_priority uh)
      | Defunct \<Rightarrow> stat_of uh = RT_THREAD_CLOSE | _ \<Rightarrow> stat_of uh = RT_THREAD_SUSPEND)"
    if u: "u \<in> set (tlists s h)" for u h
  proof -
    obtain uh where "threads s u = Some uh" "case h of
        Ready p \<Rightarrow> stat_of uh = RT_THREAD_READY \<and> p = unat (current_priority uh)
      | Defunct \<Rightarrow> stat_of uh = RT_THREAD_CLOSE | _ \<Rightarrow> stat_of uh = RT_THREAD_SUSPEND"
      using sched_wf_member [OF wf u] .
    then show ?thesis using t by (cases h; cases "u = t") auto
  qed
  moreover have "mask_ok (with_prio p th)" by (simp add: mask_ok_def prio_mask_def)
  ultimately show ?thesis using wf t p unfolding sched_wf_def by (auto split: if_splits)
qed

lemma reprioritised_sched_wf:
  assumes wf: "sched_wf s" and t: "threads s t = Some th" and p: "unat p < RT_THREAD_PRIORITY_MAX"
  shows "sched_wf (reprioritised t th p s)"
proof (cases "stat_of th = RT_THREAD_READY")
  case True
  let ?a = "s\<lparr>threads := (threads s)(t \<mapsto> set_stat RT_THREAD_SUSPEND th),
              tlists := ls_remove t (tlists s), rt_thread_ready_priority_group := group_without t th s\<rparr>"
  let ?bt = "with_prio p (set_stat RT_THREAD_SUSPEND th)"
  let ?b = "?a\<lparr>threads := (threads ?a)(t \<mapsto> ?bt)\<rparr>"
  have a: "sched_wf ?a"
    by (rule sched_wf_unready [OF wf t])
       (use sched_wf_prio_mask [OF wf t] True in \<open>simp_all add: mask_ok_def prio_mask_def group_without_def\<close>)
  have b: "sched_wf ?b"
    by (rule sched_wf_reprio [OF a]) (use p in simp_all)
  have "sched_wf (?b\<lparr>threads := (threads ?b)(t \<mapsto> with_prio p th),
      tlists := ls_insert_before (Ready (unat p)) t (ls_remove t (tlists ?b)),
      rt_thread_ready_priority_group := rt_thread_ready_priority_group ?b OR 2 ^ unat p\<rparr>)"
    by (rule sched_wf_makeready [OF b, where th = ?bt]) (use True in simp_all)
  moreover have "ls_remove t (ls_remove t (tlists s)) = ls_remove t (tlists s)"
    by (simp add: ls_remove_def fun_eq_iff)
  ultimately show ?thesis using True by (simp add: reprioritised_def)
next
  case False
  then show ?thesis using sched_wf_reprio [OF wf t False p] by (simp add: reprioritised_def)
qed

lemma same_rest_reprioritised: "same_rest s (reprioritised t th p s)"
  by (simp add: same_rest_def reprioritised_def)

lemma reprioritised_sel [simp]:
  "threads (reprioritised t th p s) = (threads s)(t \<mapsto> with_prio p th)"
  "rt_timer_list (reprioritised t th p s) = rt_timer_list s"
  "timers (reprioritised t th p s) = timers s" "objects (reprioritised t th p s) = objects s"
  "rt_current_thread (reprioritised t th p s) = rt_current_thread s"
  "rt_tick (reprioritised t th p s) = rt_tick s"
  "tlists (reprioritised t th p s) (SuspendQ ob) = (if stat_of th = RT_THREAD_READY
     then removeAll t (tlists s (SuspendQ ob)) else tlists s (SuspendQ ob))"
  by (simp_all add: reprioritised_def ls_insert_before_def ls_remove_def)

lemma reprioritised_wf:
  assumes wf: "kernel_wf s" and t: "threads s t = Some th" and p: "unat p < RT_THREAD_PRIORITY_MAX"
  shows "kernel_wf (reprioritised t th p s)"
proof (rule kernel_wf_rest [OF wf _ _ same_rest_reprioritised])
  show "sched_wf (reprioritised t th p s)" by (rule reprioritised_sched_wf [OF kernel_wfD(1) [OF wf] t p])
  show "timers_wf (reprioritised t th p s)" by (rule timers_wf_cong [OF kernel_wfD(2) [OF wf]]) simp_all
  show "\<exists>th'. threads (reprioritised t th p s) u = Some th' \<and> stat_of th' = RT_THREAD_SUSPEND"
    if "ThreadTimer u \<in> set (rt_timer_list (reprioritised t th p s))" for u
    using that threads_wfD(2) [OF kernel_wfD(4) [OF wf], of u] t by auto
qed (use t in \<open>auto split: if_splits\<close>)

section \<open>Arming the thread timer\<close>

definition armed :: "tid \<Rightarrow> u32 \<Rightarrow> kernel \<Rightarrow> kernel" where
  "armed t time s =
     timer_on (ThreadTimer t) (upd_timer (ThreadTimer t) (\<lambda>x. x\<lparr>timer_init_tick := time\<rparr>) s)"

lemma armed_sel [simp]:
  "threads (armed t time s) = threads s" "tlists (armed t time s) = tlists s"
  "rt_current_thread (armed t time s) = rt_current_thread s"
  "rt_thread_ready_priority_group (armed t time s) = rt_thread_ready_priority_group s"
  "rt_scheduler_lock_nest (armed t time s) = rt_scheduler_lock_nest s"
  by (simp_all add: armed_def upd_timer_def)

lemma same_rest_armed: "same_rest s (armed t time s)"
  unfolding armed_def
  by (rule same_rest_trans [OF _ same_rest_timer_on]) (simp add: same_rest_def upd_timer_def)

lemma upd_timer_init_wf:
  assumes "kernel_wf s"
  shows "kernel_wf (upd_timer tm (\<lambda>x. x\<lparr>timer_init_tick := time\<rparr>) s)" (is "kernel_wf ?s")
proof -
  have tt: "timeout_of ?s = timeout_of s"
    by (auto simp: timeout_of_def fun_eq_iff split: option.splits)
  then have "until ?s = until s" by (simp add: until_def due_in_def fun_eq_iff)
  then have "timers_wf ?s" using kernel_wfD(2) [OF assms]
    by (simp add: timers_wf_def is_timer_def timer_active_def)
  moreover have "sched_wf ?s"
    by (rule sched_wf_cong [OF kernel_wfD(1) [OF assms]]) (simp_all add: upd_timer_def)
  ultimately show ?thesis
    by - (rule kernel_wf_rest [OF assms], assumption+,
       use threads_wfD(2) [OF kernel_wfD(4) [OF assms]] in
         \<open>auto simp: same_rest_def upd_timer_def option.map_comp comp_def\<close>)
qed

lemma start_thread_timer_eq:
  assumes wf: "kernel_wf s" and t: "threads s t = Some th" "stat_of th = RT_THREAD_SUSPEND"
    and small: "time < RT_TICK_MAX div 2"
  shows "start_thread_timer t time s = Some (armed t time s)" and "kernel_wf (armed t time s)"
proof -
  let ?u = "upd_timer (ThreadTimer t) (\<lambda>x. x\<lparr>timer_init_tick := time\<rparr>) s"
  have "thread_obj s t" using threads_wfD(1) [OF kernel_wfD(4) [OF wf] t(1)] t(2) by simp
  then obtain y tm where y: "objects s (OTimer (ThreadTimer t)) = Some y"
      "obj_type y = RT_Object_Class_Timer OR RT_Object_Class_Static"
      and tm: "timers s (ThreadTimer t) = Some tm"
    by (rule thread_objE)
  have u: "kernel_wf ?u" using wf by (rule upd_timer_init_wf)
  have tm': "timers ?u (ThreadTimer t) = Some (tm\<lparr>timer_init_tick := time\<rparr>)" using tm by simp
  have it: "is_timer ?u (ThreadTimer t)" using y tm by (simp add: is_timer_def)
  have "rt_timer_start (ThreadTimer t) ?u = Some (RT_EOK, armed t time s)"
    using rt_timer_start_on [OF kernel_wfD(2) [OF u] it tm'] small by (simp add: armed_def)
  then show "start_thread_timer t time s = Some (armed t time s)"
    using y tm by (simp add: start_thread_timer_def rt_timer_control_def check_type_known)
  show "kernel_wf (armed t time s)" unfolding armed_def
    by (rule timer_on_wf [OF u _ t(2) tm']) (use t small in simp_all)
qed

lemma armed_due:
  assumes "timers s (ThreadTimer t) = Some tm"
  shows "ThreadTimer t \<in> set (rt_timer_list (armed t time s))"
    and "due_in (armed t time s) (ThreadTimer t) = time"
  using assms by (simp_all add: armed_def timer_on_def Let_def due_in_def timeout_of_def)

end
