(* ===== verification/ThreadOps.thy ===== *)
theory ThreadOps
  imports Threads
begin

text \<open>
  What the operations of \<^verbatim>\<open>src/thread.c\<close> do, on top of the invariant of theory
  \<^verbatim>\<open>Threads\<close>: each returns, keeps the invariant, and leaves the thread in the state
  its name says, with the processor given to the most urgent ready thread.
\<close>

section \<open>Scheduling at the end of an operation\<close>

lemma stat_codes: "stat th AND RT_THREAD_STAT_MASK = c \<longleftrightarrow> stat_of th = c"
  by (simp add: stat_of_def)

lemma stack_check_set_stat [simp]:
  "rt_scheduler_stack_check (set_stat c th) = rt_scheduler_stack_check th"
  "rt_scheduler_stack_check (th\<lparr>thread_error := e\<rparr>) = rt_scheduler_stack_check th"
  "rt_scheduler_stack_check (with_prio p th) = rt_scheduler_stack_check th"
  "rt_scheduler_stack_check (th\<lparr>event_set := a, event_info := b\<rparr>) = rt_scheduler_stack_check th"
  "rt_scheduler_stack_check (th\<lparr>remaining_tick := k\<rparr>) = rt_scheduler_stack_check th"
  by (simp_all add: rt_scheduler_stack_check_def with_prio_def)

lemma runnable_readied:
  assumes "threads s t = Some th" "stat_of th = RT_THREAD_SUSPEND" "stacks_ok s"
  shows "runnable (readied t th s)"
  using assms by (auto simp: runnable_def stacks_ok_def)

text \<open>Some thread other than \<open>t\<close> is ready, and no live thread has overrun its stack.\<close>

definition runnable_without :: "tid \<Rightarrow> kernel \<Rightarrow> bool" where
  "runnable_without t s \<longleftrightarrow> (\<exists>u uh. u \<noteq> t \<and> threads s u = Some uh \<and> stat_of uh = RT_THREAD_READY) \<and>
     stacks_ok s"

lemma runnable_suspended:
  assumes "runnable_without t s" "threads s t = Some th" "stat_of th = RT_THREAD_READY"
  shows "runnable (suspended t th s)"
  using assms unfolding runnable_without_def runnable_def stacks_ok_def by (auto split: if_splits)

lemma runnable_cong: "threads s' = threads s \<Longrightarrow> runnable s' = runnable s"
  by (simp add: runnable_def stacks_ok_def)

text \<open>There is a current thread.\<close>

definition cur_ok :: "kernel \<Rightarrow> bool" where
  "cur_ok s \<longleftrightarrow> (\<exists>t th. rt_current_thread s = Some t \<and> threads s t = Some th)"

lemma rt_schedule_cur_ok: "cur_ok s \<Longrightarrow> rt_schedule s = Some s' \<Longrightarrow> cur_ok s'"
  by (auto simp: rt_schedule_def cur_ok_def bind_Some_iff Let_def split: if_splits)

lemma cur_ok_cong:
  "\<lbrakk>cur_ok s; rt_current_thread s' = rt_current_thread s; dom (threads s) \<subseteq> dom (threads s')\<rbrakk> \<Longrightarrow> cur_ok s'"
  unfolding cur_ok_def by auto

lemma schedule_ends:
  assumes "kernel_wf s" "runnable s"
  obtains s' where "rt_schedule s = Some s'" "kernel_wf s'" "same_rest s s'"
    "threads s' = threads s" "tlists s' = tlists s" "rt_timer_list s' = rt_timer_list s"
    "timers s' = timers s" "runnable s'" "rt_scheduler_lock_nest s = 0 \<longrightarrow> runs_highest s'"
    "cur_ok s \<longrightarrow> cur_ok s'"
proof -
  obtain s' where s': "rt_schedule s = Some s'" "rt_scheduler_lock_nest s = 0 \<longrightarrow> runs_highest s'"
    using rt_schedule_picks [OF kernel_wfD(1) [OF assms(1)] assms(2)] by blast
  then show thesis
    using that rt_schedule_kernel_wf [OF assms(1) s'(1)] rt_schedule_rest [OF s'(1)]
      rt_schedule_core [OF s'(1)] runnable_cong [of s' s] assms(2) rt_schedule_cur_ok [OF _ s'(1)] by blast
qed

section \<open>Sleeping and timing out\<close>

text \<open>
  A sleeping thread is suspended on no waiting list, with its timer due after the ticks it asked
  for, and another thread runs.
\<close>

lemma rt_thread_sleep_suspends:
  assumes wf: "kernel_wf s" and cur: "rt_current_thread s = Some t" "threads s t = Some th"
      "stat_of th = RT_THREAD_READY"
    and small: "tick < RT_TICK_MAX div 2" and run: "runnable_without t s"
  shows "\<exists>s'. rt_thread_sleep tick s = Some (Pending, s') \<and> kernel_wf s' \<and> same_rest s s' \<and>
           threads s' = (threads s)(t \<mapsto> set_stat RT_THREAD_SUSPEND th) \<and>
           tlists s' = ls_remove t (tlists s) \<and>
           ThreadTimer t \<in> set (rt_timer_list s') \<and> due_in s' (ThreadTimer t) = tick \<and>
           set (rt_timer_list s') = insert (ThreadTimer t) (set (rt_timer_list s)) \<and>
           (\<forall>tm. tm \<noteq> ThreadTimer t \<longrightarrow> timers s' tm = timers s tm) \<and> cur_ok s' \<and> runnable s' \<and>
           (rt_scheduler_lock_nest s = 0 \<longrightarrow> runs_highest s')"
proof -
  have obj: "thread_obj s t" using threads_wfD(1) [OF kernel_wfD(4) [OF wf] cur(2)] cur(3) by simp
  let ?u = "suspended t th s"
  have u: "kernel_wf ?u" by (rule suspended_wf [OF wf cur(2,3)])
  have tu: "threads ?u t = Some (set_stat RT_THREAD_SUSPEND th)" by simp
  note a = start_thread_timer_eq [OF u tu _ small, simplified]
  obtain tm where tm: "timers ?u (ThreadTimer t) = Some tm"
    using obj by (auto elim!: thread_objE)
  have "runnable (armed t tick ?u)"
    using runnable_suspended [OF run cur(2,3)] runnable_cong [of "armed t tick ?u" ?u] by simp
  from schedule_ends [OF a(2) this] obtain s' where s': "rt_schedule (armed t tick ?u) = Some s'" "kernel_wf s'"
    "same_rest (armed t tick ?u) s'" "threads s' = threads (armed t tick ?u)"
    "tlists s' = tlists (armed t tick ?u)" "rt_timer_list s' = rt_timer_list (armed t tick ?u)"
    "timers s' = timers (armed t tick ?u)" "runnable s'"
    "rt_scheduler_lock_nest (armed t tick ?u) = 0 \<longrightarrow> runs_highest s'" "cur_ok (armed t tick ?u) \<longrightarrow> cur_ok s'" .
  have rest: "same_rest s (armed t tick ?u)"
    using same_rest_suspended same_rest_armed by (rule same_rest_trans)
  have "due_in s' (ThreadTimer t) = tick"
    using armed_due(2) [OF tm, of tick] s'(7) same_restD(7) [OF s'(3)]
    by (simp add: due_in_def timeout_of_def)
  moreover have "rt_thread_sleep tick s = Some (Pending, s')"
    using cur thread_obj_check [OF obj] rt_thread_suspend_eq [OF wf cur(2)] a(1) s'(1)
    by (simp add: rt_thread_sleep_def del: check_type_iff)
  moreover have "set (rt_timer_list s') = insert (ThreadTimer t) (set (rt_timer_list s))"
    unfolding s'(6) armed_def by (auto simp: set_timer_on)
  moreover have "\<forall>x. x \<noteq> ThreadTimer t \<longrightarrow> timers s' x = timers s x"
    unfolding s'(7) armed_def by simp
  moreover have "cur_ok s'" using s'(10) cur by (simp add: cur_ok_def)
  moreover note same_rest_trans [OF rest s'(3)] s'(1,2,8)
  moreover have "threads s' = (threads s)(t \<mapsto> set_stat RT_THREAD_SUSPEND th)" "tlists s' = ls_remove t (tlists s)"
    "rt_scheduler_lock_nest s = 0 \<longrightarrow> runs_highest s'"
    using s'(4,5,9) same_restD(9) [OF rest] by simp_all
  ultimately show ?thesis by blast
qed

text \<open>
  A thread that times out is ready again, off every waiting list, with \<^verbatim>\<open>-RT_ETIMEOUT\<close>
  in its error field.
\<close>

definition timed_out :: "tid \<Rightarrow> rt_thread \<Rightarrow> kernel \<Rightarrow> kernel" where
  "timed_out t th s = readied t (th\<lparr>thread_error := - RT_ETIMEOUT\<rparr>)
     (s\<lparr>threads := (threads s)(t \<mapsto> th\<lparr>thread_error := - RT_ETIMEOUT\<rparr>)\<rparr>)"

lemma timed_out_wf:
  assumes wf: "kernel_wf s" and t: "threads s t = Some th" "stat_of th = RT_THREAD_SUSPEND"
    and off: "ThreadTimer t \<notin> set (rt_timer_list s)"
  shows "kernel_wf (timed_out t th s)" and "same_rest s (timed_out t th s)"
proof -
  let ?e = "upd_thread t (\<lambda>x. x\<lparr>thread_error := - RT_ETIMEOUT\<rparr>) s"
  have e: "?e = s\<lparr>threads := (threads s)(t \<mapsto> th\<lparr>thread_error := - RT_ETIMEOUT\<rparr>)\<rparr>"
    using t by (simp add: upd_thread_def)
  have "kernel_wf ?e" by (rule kernel_wf_upd_thread [OF wf]) (simp add: sched_view_def)
  then show "kernel_wf (timed_out t th s)" unfolding timed_out_def
    by (intro readied_wf) (use t off in \<open>simp_all add: e\<close>)
  show "same_rest s (timed_out t th s)"
    by (simp add: same_rest_def timed_out_def readied_def)
qed

lemma rt_thread_timeout_eq:
  assumes wf: "kernel_wf s" and t: "threads s t = Some th" "stat_of th = RT_THREAD_SUSPEND"
  shows "rt_thread_timeout t s = rt_schedule (timed_out t th s)"
proof -
  have obj: "thread_obj s t" using threads_wfD(1) [OF kernel_wfD(4) [OF wf] t(1)] t(2) by simp
  note p = sched_wf_prio [OF kernel_wfD(1) [OF wf] t(1)]
  show ?thesis using t thread_obj_check [OF obj] p
    by (simp add: rt_thread_timeout_def stat_codes upd_thread_def timed_out_def readied_def
        rt_schedule_insert_thread_eq [where th = "th\<lparr>thread_error := - 2\<rparr>"] del: check_type_iff)
qed

lemma rt_thread_timeout_readies:
  assumes wf: "kernel_wf s" and t: "threads s t = Some th" "stat_of th = RT_THREAD_SUSPEND"
    and off: "ThreadTimer t \<notin> set (rt_timer_list s)"
    and run: "stacks_ok s"
  shows "\<exists>s'. rt_thread_timeout t s = Some s' \<and> kernel_wf s' \<and> same_rest s s' \<and>
           threads s' = (threads s)(t \<mapsto> set_stat RT_THREAD_READY (th\<lparr>thread_error := - RT_ETIMEOUT\<rparr>)) \<and>
           tlists s' = ls_insert_before (Ready (unat (current_priority th))) t (ls_remove t (tlists s)) \<and>
           rt_timer_list s' = rt_timer_list s \<and> timers s' = timers s \<and>
           objects s' = objects s \<and> runnable s' \<and> (cur_ok s \<longrightarrow> cur_ok s') \<and>
           (rt_scheduler_lock_nest s = 0 \<longrightarrow> runs_highest s')"
proof -
  note w = timed_out_wf [OF wf t off]
  have "runnable (timed_out t th s)" unfolding timed_out_def
    by (rule runnable_readied) (use t run in \<open>auto simp: stacks_ok_def\<close>)
  from schedule_ends [OF w(1) this] obtain s' where s': "rt_schedule (timed_out t th s) = Some s'" "kernel_wf s'"
    "same_rest (timed_out t th s) s'" "threads s' = threads (timed_out t th s)"
    "tlists s' = tlists (timed_out t th s)" "rt_timer_list s' = rt_timer_list (timed_out t th s)"
    "timers s' = timers (timed_out t th s)" "runnable s'"
    "rt_scheduler_lock_nest (timed_out t th s) = 0 \<longrightarrow> runs_highest s'" "cur_ok (timed_out t th s) \<longrightarrow> cur_ok s'" .
  moreover have "cur_ok s \<longrightarrow> cur_ok (timed_out t th s)"
    by (auto intro: cur_ok_cong simp: timed_out_def)
  ultimately show ?thesis
    using rt_thread_timeout_eq [OF wf t] same_restD(9) [OF w(2)] same_rest_trans [OF w(2) s'(3)]
      rt_schedule_core(5) [OF s'(1)]
    by (auto simp: timed_out_def)
qed

section \<open>Starting a thread\<close>

lemma sched_wf_offlist:
  assumes wf: "sched_wf s" and u: "unlinked t (tlists s)"
    and th: "stat_of th \<noteq> RT_THREAD_READY" "mask_ok th" "unat (current_priority th) < RT_THREAD_PRIORITY_MAX"
  shows "sched_wf (s\<lparr>threads := (threads s)(t \<mapsto> th)\<rparr>)"
  using wf u th unfolding sched_wf_def by (auto simp: unlinked_def split: if_splits)

lemma init_unlinked:
  assumes "sched_wf s" "threads s t = Some th" "stat_of th = RT_THREAD_INIT"
  shows "unlinked t (tlists s)"
proof -
  have False if m: "t \<in> set (tlists s h)" for h
  proof -
    obtain uh where "threads s t = Some uh" "case h of
        Ready p \<Rightarrow> stat_of uh = RT_THREAD_READY \<and> p = unat (current_priority uh)
      | Defunct \<Rightarrow> stat_of uh = RT_THREAD_CLOSE | _ \<Rightarrow> stat_of uh = RT_THREAD_SUSPEND"
      using sched_wf_member [OF assms(1) m] .
    with assms show False by (cases h) auto
  qed
  then show ?thesis by (auto simp: unlinked_def)
qed

text \<open>A started thread is the last of its priority's ready threads, and the most urgent one runs.\<close>

definition started :: "tid \<Rightarrow> rt_thread \<Rightarrow> kernel \<Rightarrow> kernel" where
  "started t th s =
     readied t ((with_prio (init_priority th) th)\<lparr>stat := RT_THREAD_SUSPEND\<rparr>) (timer_off (ThreadTimer t)
       (s\<lparr>threads := (threads s)(t \<mapsto> (with_prio (init_priority th) th)\<lparr>stat := RT_THREAD_SUSPEND\<rparr>)\<rparr>))"

lemma started_wf:
  assumes wf: "kernel_wf s" and t: "threads s t = Some th" "stat_of th = RT_THREAD_INIT"
    and p: "unat (init_priority th) < RT_THREAD_PRIORITY_MAX"
  shows "kernel_wf (started t th s)"
    and "rt_thread_startup t s =
      do { s' \<leftarrow> (if rt_current_thread s \<noteq> None then rt_schedule (started t th s) else Some (started t th s));
           Some (RT_EOK, s') }"
proof -
  let ?th = "(with_prio (init_priority th) th)\<lparr>stat := RT_THREAD_SUSPEND\<rparr>"
  let ?u = "s\<lparr>threads := (threads s)(t \<mapsto> ?th)\<rparr>"
  have obj: "thread_obj s t" using threads_wfD(1) [OF kernel_wfD(4) [OF wf] t(1)] t(2) by simp
  have nl: "ThreadTimer t \<notin> set (rt_timer_list s)"
    using threads_wfD(2) [OF kernel_wfD(4) [OF wf], of t] t by auto
  have "sched_wf ?u"
    by (rule sched_wf_offlist [OF kernel_wfD(1) [OF wf] init_unlinked [OF kernel_wfD(1) [OF wf] t]])
       (use p in \<open>simp_all add: mask_ok_def prio_mask_def\<close>)
  moreover have "timers_wf ?u" by (rule timers_wf_cong [OF kernel_wfD(2) [OF wf]]) simp_all
  ultimately have u: "kernel_wf ?u"
    by - (rule kernel_wf_rest [OF wf], assumption+,
       use t threads_wfD(2) [OF kernel_wfD(4) [OF wf]] in \<open>auto simp: same_rest_def split: if_splits\<close>)
  have st: "stat_of ?th = RT_THREAD_SUSPEND" by simp
  show "kernel_wf (started t th s)" unfolding started_def
    by (rule resumed_wf [OF u]) simp_all
  have e: "upd_thread t (\<lambda>th'. th'\<lparr>current_priority := init_priority th', number_mask := 2 ^ unat (init_priority th),
      stat := RT_THREAD_SUSPEND\<rparr>) s = ?u"
    using t by (simp add: upd_thread_def with_prio_def)
  have r: "rt_thread_resume t ?u = Some (RT_EOK, started t th s)"
    using rt_thread_resume_eq [OF u, of t ?th] by (simp add: started_def)
  show "rt_thread_startup t s =
      do { s' \<leftarrow> (if rt_current_thread s \<noteq> None then rt_schedule (started t th s) else Some (started t th s));
           Some (RT_EOK, s') }"
    using t p r thread_obj_check [OF obj]
    by (simp add: rt_thread_startup_def stat_codes shift_one_eq e rt_thread_self_def started_def del: check_type_iff)
qed

section \<open>Closing a thread\<close>

lemma threads_wf_except:
  assumes wf: "threads_wf s"
    and other: "\<And>u. u \<noteq> t \<Longrightarrow> objects s' (OThread u) = objects s (OThread u) \<and>
        objects s' (OTimer (ThreadTimer u)) = objects s (OTimer (ThreadTimer u)) \<and>
        timers s' (ThreadTimer u) = timers s (ThreadTimer u) \<and> threads s' u = threads s u"
    and me: "\<And>th. threads s' t = Some th \<Longrightarrow> stat_of th = RT_THREAD_CLOSE \<or> thread_obj s' t"
    and l: "set (rt_timer_list s') \<subseteq> set (rt_timer_list s)" "ThreadTimer t \<notin> set (rt_timer_list s')"
  shows "threads_wf s'"
proof -
  have "thread_obj s' u" if u: "threads s' u = Some uh" "stat_of uh \<noteq> RT_THREAD_CLOSE" for u uh
  proof (cases "u = t")
    case True
    then show ?thesis using me u by blast
  next
    case False
    then show ?thesis using threads_wfD(1) [OF wf, of u uh] other [OF False] u by (simp add: thread_obj_def)
  qed
  moreover have "\<exists>th. threads s' u = Some th \<and> stat_of th = RT_THREAD_SUSPEND"
    if "ThreadTimer u \<in> set (rt_timer_list s')" for u
    using that l threads_wfD(2) [OF wf, of u] other [of u] by (cases "u = t") auto
  ultimately show ?thesis by (auto simp: threads_wf_def)
qed

definition closed :: "tid \<Rightarrow> rt_thread \<Rightarrow> kernel \<Rightarrow> kernel" where
  "closed t th s =
     s\<lparr>threads := (threads s)(t \<mapsto> th\<lparr>stat := RT_THREAD_CLOSE\<rparr>),
       tlists := ls_remove t (tlists s),
       rt_thread_ready_priority_group :=
         (if stat_of th = RT_THREAD_INIT then rt_thread_ready_priority_group s else group_without t th s),
       rt_timer_list := removeAll (ThreadTimer t) (rt_timer_list s),
       objects := (objects s)(OTimer (ThreadTimer t) :=
          map_option (\<lambda>x. x\<lparr>obj_type := 0\<rparr>) (objects s (OTimer (ThreadTimer t)))),
       containers := ls_remove (OTimer (ThreadTimer t)) (containers s)\<rparr>"

lemma closed_sel [simp]:
  "threads (closed t th s) = (threads s)(t \<mapsto> th\<lparr>stat := RT_THREAD_CLOSE\<rparr>)"
  "tlists (closed t th s) = ls_remove t (tlists s)"
  "rt_timer_list (closed t th s) = removeAll (ThreadTimer t) (rt_timer_list s)"
  "timers (closed t th s) = timers s" "rt_current_thread (closed t th s) = rt_current_thread s"
  "rt_tick (closed t th s) = rt_tick s" "rt_scheduler_lock_nest (closed t th s) = rt_scheduler_lock_nest s"
  "containers (closed t th s) = ls_remove (OTimer (ThreadTimer t)) (containers s)"
  "objects (closed t th s) = (objects s)(OTimer (ThreadTimer t) :=
          map_option (\<lambda>x. x\<lparr>obj_type := 0\<rparr>) (objects s (OTimer (ThreadTimer t))))"
  by (simp_all add: closed_def)

lemma rt_timer_detach_thread:
  assumes "thread_obj s t"
  shows "rt_timer_detach (ThreadTimer t) s =
    Some (RT_EOK, s\<lparr>rt_timer_list := removeAll (ThreadTimer t) (rt_timer_list s),
       objects := (objects s)(OTimer (ThreadTimer t) :=
          map_option (\<lambda>x. x\<lparr>obj_type := 0\<rparr>) (objects s (OTimer (ThreadTimer t)))),
       containers := ls_remove (OTimer (ThreadTimer t)) (containers s)\<rparr>)"
  using assms
  by (auto elim!: thread_objE simp: rt_timer_detach_def check_type_known rt_object_is_systemobject_def
      rt_timer_remove_def rt_object_detach_def)

lemma closed_sched_wf:
  assumes wf: "kernel_wf s" and t: "threads s t = Some th"
  shows "sched_wf (closed t th s)"
proof -
  note sw = kernel_wfD(1) [OF wf]
  have ok: "mask_ok (th\<lparr>stat := RT_THREAD_CLOSE\<rparr>)"
    using sched_wf_mask [OF sw t] by (auto simp: mask_ok_def prio_mask_def)
  show ?thesis
  proof (cases "stat_of th = RT_THREAD_INIT")
    case True
    have u: "unlinked t (tlists s)" using init_unlinked [OF sw t True] .
    have "sched_wf (s\<lparr>threads := (threads s)(t \<mapsto> th\<lparr>stat := RT_THREAD_CLOSE\<rparr>)\<rparr>)"
      by (rule sched_wf_offlist [OF sw u]) (use ok sched_wf_prio [OF sw t] in simp_all)
    then show ?thesis using True u by (elim sched_wf_cong) (simp_all add: closed_def ls_remove_unlinked)
  next
    case False
    have "sched_wf (s\<lparr>threads := (threads s)(t \<mapsto> th\<lparr>stat := RT_THREAD_CLOSE\<rparr>),
        tlists := ls_remove t (tlists s), rt_thread_ready_priority_group := group_without t th s\<rparr>)"
      by (rule sched_wf_unready [OF sw t]) (use ok in \<open>simp_all add: group_without_def\<close>)
    then show ?thesis using False by (elim sched_wf_cong) (simp_all add: closed_def)
  qed
qed

lemma closed_wf:
  assumes wf: "kernel_wf s" and t: "threads s t = Some th" and live: "stat_of th \<noteq> RT_THREAD_CLOSE"
  shows "kernel_wf (closed t th s)" and "thread_close t s = Some (closed t th s)"
proof -
  have obj: "thread_obj s t" using threads_wfD(1) [OF kernel_wfD(4) [OF wf] t live] .
  have "timers_wf (closed t th s)"
    by (rule timers_wf_cong [OF timers_wf_remove [OF kernel_wfD(2) [OF wf], of "ThreadTimer t"]])
       (auto simp: rt_timer_remove_def)
  moreover have "objects_wf (closed t th s)"
  proof -
    obtain y where y: "objects s (OTimer (ThreadTimer t)) = Some y" using obj by (rule thread_objE)
    then have "rt_object_detach (OTimer (ThreadTimer t)) s =
        Some (s\<lparr>objects := objects (closed t th s), containers := containers (closed t th s)\<rparr>)"
      by (simp add: rt_object_detach_def)
    from rt_object_detach_wf(1) [OF kernel_wfD(3) [OF wf] this] show ?thesis
      by (simp add: objects_wf_def)
  qed
  moreover have "threads_wf (closed t th s)"
    by (rule threads_wf_except [OF kernel_wfD(4) [OF wf], of t]) auto
  ultimately show "kernel_wf (closed t th s)"
    using closed_sched_wf [OF wf t] by (simp add: kernel_wf_def)
  note p = sched_wf_prio [OF kernel_wfD(1) [OF wf] t]
  have d: "thread_obj (s\<lparr>tlists := l, rt_thread_ready_priority_group := g\<rparr>) t" for l g
    using obj by (simp add: thread_obj_def)
  show "thread_close t s = Some (closed t th s)"
  proof (cases "stat_of th = RT_THREAD_INIT")
    case True
    then show ?thesis using t rt_timer_detach_thread [OF obj]
        ls_remove_unlinked [OF init_unlinked [OF kernel_wfD(1) [OF wf] t True]]
      by (simp add: thread_close_def stat_codes upd_thread_def closed_def)
  next
    case False
    then show ?thesis using t rt_timer_detach_thread [OF d] rt_schedule_remove_thread_eq [OF t p]
      by (simp add: thread_close_def stat_codes upd_thread_def closed_def)
  qed
qed

text \<open>The defunct list takes closed threads on no list.\<close>

lemma defunct_wf:
  assumes wf: "kernel_wf s" and t: "threads s t = Some th" "stat_of th = RT_THREAD_CLOSE"
    and u: "unlinked t (tlists s)"
  shows "kernel_wf (s\<lparr>tlists := ls_insert_after Defunct t (tlists s)\<rparr>)"
proof (rule kernel_wf_tlists [OF wf], rule sched_wf_park [OF kernel_wfD(1) [OF wf] t(1), of Defunct])
  show "lists_wf (ls_insert_after Defunct t (tlists s))"
    using sched_wf_lists [OF kernel_wfD(1) [OF wf]] u by (rule lists_wf_insert_after)
qed (use t in \<open>auto simp: ls_insert_after_def\<close>)

lemma header_dropped_wf:
  assumes wf: "kernel_wf s" and t: "threads s t = Some th" "stat_of th = RT_THREAD_CLOSE"
    and d: "rt_object_detach (OThread t) s = Some s'"
  shows "kernel_wf s'"
proof -
  from d obtain x where s': "s' = s\<lparr>objects := (objects s)(OThread t \<mapsto> x\<lparr>obj_type := 0\<rparr>),
      containers := ls_remove (OThread t) (containers s)\<rparr>"
    by (auto simp: rt_object_detach_def bind_Some_iff)
  have "sched_wf s'" by (rule sched_wf_cong [OF kernel_wfD(1) [OF wf]]) (simp_all add: s')
  moreover have "timers_wf s'" by (rule timers_wf_cong [OF kernel_wfD(2) [OF wf]]) (simp_all add: s')
  moreover have "objects_wf s'" using rt_object_detach_wf(1) [OF kernel_wfD(3) [OF wf] d] .
  moreover have "threads_wf s'"
    by (rule threads_wf_except [OF kernel_wfD(4) [OF wf], of t])
       (use t threads_wfD(2) [OF kernel_wfD(4) [OF wf], of t] in \<open>auto simp: s'\<close>)
  ultimately show ?thesis by (simp add: kernel_wf_def)
qed

text \<open>
  Deleting a thread takes it off every list and puts it on the defunct list for the idle thread;
  its timer is stopped and detached.
\<close>

lemma rt_thread_delete_defunct:
  assumes wf: "kernel_wf s" and t: "threads s t = Some th" "stat_of th \<noteq> RT_THREAD_CLOSE"
    and dyn: "rt_object_is_systemobject s (OThread t) = Some False"
  shows "\<exists>s'. rt_thread_delete t s = Some (RT_EOK, s') \<and> kernel_wf s' \<and>
           threads s' = (threads s)(t \<mapsto> th\<lparr>stat := RT_THREAD_CLOSE\<rparr>) \<and>
           tlists s' = ls_insert_after Defunct t (ls_remove t (tlists s)) \<and>
           ThreadTimer t \<notin> set (rt_timer_list s')"
proof -
  have obj: "thread_obj s t" using threads_wfD(1) [OF kernel_wfD(4) [OF wf] t] .
  note c = closed_wf [OF wf t]
  let ?s = "(closed t th s)\<lparr>tlists := ls_insert_after Defunct t (tlists (closed t th s))\<rparr>"
  have "kernel_wf ?s"
    by (rule defunct_wf [OF c(1), of _ "th\<lparr>stat := RT_THREAD_CLOSE\<rparr>"]) simp_all
  moreover have "rt_thread_delete t s = Some (RT_EOK, ?s)"
    using c(2) dyn thread_obj_check [OF obj] by (simp add: rt_thread_delete_def del: check_type_iff)
  ultimately show ?thesis by auto
qed

lemma rt_thread_detach_closed:
  assumes wf: "kernel_wf s" and t: "threads s t = Some th" "stat_of th \<noteq> RT_THREAD_CLOSE"
    and static: "rt_object_is_systemobject s (OThread t) = Some True"
  shows "\<exists>s'. rt_thread_detach t s = Some (RT_EOK, s') \<and> kernel_wf s' \<and>
           threads s' = (threads s)(t \<mapsto> th\<lparr>stat := RT_THREAD_CLOSE\<rparr>) \<and>
           tlists s' = (if cleanup th = None then ls_remove t (tlists s)
                        else ls_insert_after Defunct t (ls_remove t (tlists s))) \<and>
           ThreadTimer t \<notin> set (rt_timer_list s') \<and> unlinked (OThread t) (containers s')"
proof -
  have obj: "thread_obj s t" using threads_wfD(1) [OF kernel_wfD(4) [OF wf] t] .
  note c = closed_wf [OF wf t]
  obtain d where d: "rt_object_detach (OThread t) (closed t th s) = Some d"
    using obj by (auto elim!: thread_objE simp: rt_object_detach_def)
  then have ds: "threads d = threads (closed t th s)" "tlists d = tlists (closed t th s)"
    "rt_timer_list d = rt_timer_list (closed t th s)"
    by (auto simp: rt_object_detach_def bind_Some_iff)
  have dw: "kernel_wf d"
    by (rule header_dropped_wf [OF c(1) _ _ d, of "th\<lparr>stat := RT_THREAD_CLOSE\<rparr>"]) simp_all
  have nd: "unlinked (OThread t) (containers d)"
    using rt_object_detach_wf(2) [OF kernel_wfD(3) [OF c(1)] d] .
  have iw: "kernel_wf (d\<lparr>tlists := ls_insert_after Defunct t (tlists d)\<rparr>)"
    by (rule defunct_wf [OF dw, of _ "th\<lparr>stat := RT_THREAD_CLOSE\<rparr>"]) (simp_all add: ds)
  have "rt_thread_detach t s = Some (RT_EOK, if cleanup th \<noteq> None
      then d\<lparr>tlists := ls_insert_after Defunct t (tlists d)\<rparr> else d)"
    using c(2) d static ds thread_obj_check [OF obj] by (simp add: rt_thread_detach_def del: check_type_iff)
  then show ?thesis using dw iw nd ds by (cases "cleanup th") auto
qed

section \<open>Creating a thread\<close>

text \<open>
  The initial frame of a stack of at least 80 bytes lies inside the stack, above its first byte,
  and ends on a multiple of 8.
\<close>

lemma unat_align_down_8: "unat (RT_ALIGN_DOWN x 8) = unat x div 8 * 8"
proof -
  have m: "(7 :: u32) = mask 3" by (simp add: mask_eq_exp_minus_1)
  have "x AND NOT (mask 3) = push_bit 3 (drop_bit 3 x)"
    by (rule bit_word_eqI) (auto simp: bit_simps)
  then have e: "RT_ALIGN_DOWN x 8 = push_bit 3 (drop_bit 3 x)"
    unfolding RT_ALIGN_DOWN_def m [symmetric] by simp
  have "unat x div 8 < 536870912" using unsigned_less [of x, where ?'a = nat] by simp
  then show ?thesis unfolding e
    by (simp add: unsigned_push_bit_eq unsigned_drop_bit_eq push_bit_eq_mult drop_bit_eq_div take_bit_eq_mod unat_word_ariths unat_div)
qed

lemma stack_frame_fits:
  assumes "80 \<le> unat sz" "unat st + unat sz < 2 ^ 32" "rt_hw_stack_init e par (st + sz - 4) texit = (sp', frm)"
  shows "unat st < unat sp'" "unat sp' + 68 \<le> unat st + unat sz" "8 dvd unat sp' + 68"
    "first_stack_byte st sz sp' frm = 0x23"
proof -
  have sum: "unat (st + sz) = unat st + unat sz" using assms(2) by (simp add: unat_word_ariths)
  have sp: "sp' = RT_ALIGN_DOWN (st + sz) 8 - 68"
    using assms(3) by (simp add: rt_hw_stack_init_def Let_def)
  define k where "k = (unat st + unat sz) div 8 * 8"
  have k: "unat (RT_ALIGN_DOWN (st + sz) 8) = k" by (simp add: unat_align_down_8 sum k_def)
  have kb: "k \<le> unat st + unat sz" "unat st + unat sz < k + 8" "8 dvd k" by (auto simp: k_def)
  have u: "unat sp' + 68 = k"
    using k kb assms(1) unfolding sp by (subst unat_sub) (auto simp: word_le_nat_alt)
  show "unat st < unat sp'" "unat sp' + 68 \<le> unat st + unat sz" "8 dvd unat sp' + 68"
    using u kb assms(1) by auto
  have "unat (st - sp') \<ge> 68"
    using u kb assms(1,2) unat_sub_if' [of st sp'] by (auto split: if_splits)
  then show "first_stack_byte st sz sp' frm = 0x23"
    using assms(1) by (auto simp: first_stack_byte_def Let_def)
qed

text \<open>
  Fresh storage for a thread: neither the thread nor its timer is known to the kernel.
\<close>

definition fresh_thread :: "kernel \<Rightarrow> tid \<Rightarrow> bool" where
  "fresh_thread s t \<longleftrightarrow> threads s t = None \<and> unlinked (OThread t) (containers s) \<and>
     unlinked (OTimer (ThreadTimer t)) (containers s)"

lemma fresh_unlinked:
  assumes "sched_wf s" "threads s t = None"
  shows "unlinked t (tlists s)"
  using sched_wf_member [OF assms(1), of t] assms(2) unfolding unlinked_def by force

lemma rt_thread_init_fields_ready:
  assumes wf: "kernel_wf s" and new: "threads s t = None" "unlinked (OTimer (ThreadTimer t)) (containers s)"
    and x: "objects s (OThread t) = Some x" "obj_type x AND NOT RT_Object_Class_Static = RT_Object_Class_Thread"
    and p: "unat prio < RT_THREAD_PRIORITY_MAX"
  shows "\<exists>s' th. rt_thread_init_fields t e par st sz prio tick texit s = Some (RT_EOK, s') \<and> kernel_wf s' \<and>
           threads s' = (threads s)(t \<mapsto> th) \<and> stat_of th = RT_THREAD_INIT \<and>
           init_priority th = prio \<and> current_priority th = prio \<and> thread_init_tick th = tick \<and>
           remaining_tick th = tick \<and> unlinked t (tlists s') \<and> tlists s' = tlists s \<and>
           rt_current_thread s' = rt_current_thread s \<and> rt_scheduler_lock_nest s' = rt_scheduler_lock_nest s \<and>
           sp th = fst (rt_hw_stack_init e par (st + sz - 4) texit) \<and> stack_addr th = st \<and> stack_size th = sz \<and>
           stack_guard th = first_stack_byte st sz (sp th) (snd (rt_hw_stack_init e par (st + sz - 4) texit))"
proof -
  obtain sp' frm where sf: "rt_hw_stack_init e par (st + sz - 4) texit = (sp', frm)" by fastforce
  define th where "th = \<lparr>entry = e, parameter = par, sp = sp', stack_addr = st, stack_size = sz,
     stack_guard = first_stack_byte st sz sp' frm, thread_error = RT_EOK, stat = RT_THREAD_INIT,
     current_priority = prio, init_priority = prio, number_mask = 0, event_set = 0, event_info = 0,
     thread_init_tick = tick, remaining_tick = tick, cleanup = None, user_data = 0\<rparr>"
  let ?u = "s\<lparr>threads := (threads s)(t \<mapsto> th)\<rparr>"
  have ow: "objects_wf ?u" using kernel_wfD(3) [OF wf] by (simp add: objects_wf_def)
  have len: "length (obj_name x) = RT_NAME_MAX" using objects_wfD(1) [OF kernel_wfD(3) [OF wf] x(1)] .
  obtain nm where nm: "rt_object_init (OTimer (ThreadTimer t)) RT_Object_Class_Timer (obj_name x) ?u =
      Some (?u\<lparr>objects := (objects s)(OTimer (ThreadTimer t) \<mapsto>
              (obj_mem ?u (OTimer (ThreadTimer t)))\<lparr>obj_type := RT_Object_Class_Timer OR RT_Object_Class_Static,
                obj_name := nm\<rparr>),
            containers := ls_insert_after RT_Object_Class_Timer (OTimer (ThreadTimer t)) (containers s)\<rparr>)"
    using rt_object_init_defined [OF ow, of RT_Object_Class_Timer "obj_name x" "OTimer (ThreadTimer t)"] len
    by (auto simp: rt_object_container_def)
  note ow' = rt_object_init_wf [OF ow _ nm]
  obtain v where v: "rt_timer_init (ThreadTimer t) (obj_name x) (Rt_thread_timeout t) 0 RT_TIMER_FLAG_ONE_SHOT ?u = Some v"
    and vs: "threads v = (threads s)(t \<mapsto> th)" "tlists v = tlists s"
      "rt_thread_ready_priority_group v = rt_thread_ready_priority_group s"
      "rt_timer_list v = rt_timer_list s" "rt_tick v = rt_tick s"
      "timers v = (timers s)(ThreadTimer t \<mapsto> \<lparr>timeout_func = Rt_thread_timeout t, timer_init_tick = 0, timeout_tick = 0\<rparr>)"
      "objects v = (objects s)(OTimer (ThreadTimer t) \<mapsto>
         (obj_mem ?u (OTimer (ThreadTimer t)))\<lparr>obj_type := RT_Object_Class_Timer OR RT_Object_Class_Static,
            obj_name := nm, obj_flag := 0\<rparr>)"
      "containers v = ls_insert_after RT_Object_Class_Timer (OTimer (ThreadTimer t)) (containers s)"
      "rt_current_thread v = rt_current_thread s" "rt_scheduler_lock_nest v = rt_scheduler_lock_nest s"
    using nm by (auto simp: rt_timer_init_def rt_timer_init_fields_def set_flag_def upd_object_def Let_def)
  have tl: "ThreadTimer t \<notin> set (rt_timer_list s)"
    using threads_wfD(2) [OF kernel_wfD(4) [OF wf], of t] new by auto
  have un: "unlinked t (tlists s)" using fresh_unlinked [OF kernel_wfD(1) [OF wf] new(1)] .
  have "sched_wf ?u"
    by (rule sched_wf_offlist [OF kernel_wfD(1) [OF wf] un])
       (use p in \<open>simp_all add: th_def mask_ok_def stat_of_def\<close>)
  then have "sched_wf v" by (rule sched_wf_cong) (simp_all add: vs)
  moreover have "timers_wf v"
    by (rule timers_wf_cong [OF kernel_wfD(2) [OF wf]]) (use tl in \<open>auto simp: vs\<close>)
  moreover have "objects_wf v"
    using ow' new(2) by (auto simp: objects_wf_def vs split: if_splits)
  moreover have "threads_wf v"
    by (rule threads_wf_except [OF kernel_wfD(4) [OF wf], of t])
       (use x tl in \<open>auto simp: vs thread_obj_def\<close>)
  ultimately have "kernel_wf v" by (simp add: kernel_wf_def)
  moreover have "rt_thread_init_fields t e par st sz prio tick texit s = Some (RT_EOK, v)"
    using sf p x v new(1) by (simp add: rt_thread_init_fields_def th_def)
  ultimately show ?thesis using vs un sf by (auto simp: th_def stat_of_def)
qed

lemma rt_thread_init_ready:
  assumes wf: "kernel_wf s" and new: "fresh_thread s t"
    and name: "terminated name \<or> RT_NAME_MAX \<le> length name"
    and p: "unat prio < RT_THREAD_PRIORITY_MAX" and st: "st \<noteq> 0"
  shows "\<exists>s' th. rt_thread_init t name e par st sz prio tick texit s = Some (RT_EOK, s') \<and> kernel_wf s' \<and>
           threads s' = (threads s)(t \<mapsto> th) \<and> stat_of th = RT_THREAD_INIT \<and>
           init_priority th = prio \<and> current_priority th = prio \<and> thread_init_tick th = tick \<and>
           remaining_tick th = tick \<and> unlinked t (tlists s') \<and> tlists s' = tlists s \<and>
           rt_current_thread s' = rt_current_thread s \<and> rt_scheduler_lock_nest s' = rt_scheduler_lock_nest s \<and>
           sp th = fst (rt_hw_stack_init e par (st + sz - 4) texit) \<and> stack_addr th = st \<and> stack_size th = sz \<and>
           stack_guard th = first_stack_byte st sz (sp th) (snd (rt_hw_stack_init e par (st + sz - 4) texit))"
proof -
  have ty: "RT_Object_Class_Thread \<in> set rt_object_container" by (simp add: rt_object_container_def)
  obtain nm where nm: "rt_object_init (OThread t) RT_Object_Class_Thread name s =
             Some (s\<lparr>objects := (objects s)(OThread t \<mapsto>
                       (obj_mem s (OThread t))\<lparr>obj_type := RT_Object_Class_Static, obj_name := nm\<rparr>),
                     containers := ls_insert_after RT_Object_Class_Thread (OThread t) (containers s)\<rparr>)"
      (is "_ = Some ?v")
    using rt_object_init_defined [OF kernel_wfD(3) [OF wf] ty name, of "OThread t"] by auto
  have "objects_wf ?v"
    by (rule rt_object_init_wf [OF kernel_wfD(3) [OF wf] _ nm]) (use new in \<open>simp add: fresh_thread_def\<close>)
  moreover have "sched_wf ?v" by (rule sched_wf_cong [OF kernel_wfD(1) [OF wf]]) simp_all
  moreover have "timers_wf ?v" by (rule timers_wf_cong [OF kernel_wfD(2) [OF wf]]) simp_all
  moreover have "threads_wf ?v"
    by (rule threads_wf_except [OF kernel_wfD(4) [OF wf], of t])
       (use new threads_wfD(2) [OF kernel_wfD(4) [OF wf], of t] in \<open>auto simp: fresh_thread_def\<close>)
  ultimately have v: "kernel_wf ?v" by (simp add: kernel_wf_def)
  from rt_thread_init_fields_ready [OF v, of t _ prio] show ?thesis
    using new p st nm by (simp add: rt_thread_init_def fresh_thread_def unlinked_def ls_insert_after_def)
qed

section \<open>Yielding\<close>

lemma requeue_wf:
  assumes wf: "kernel_wf s" and t: "threads s t = Some th" "stat_of th = RT_THREAD_READY"
  shows "kernel_wf (s\<lparr>tlists := ls_insert_before (Ready (unat (current_priority th))) t (ls_remove t (tlists s))\<rparr>)"
    (is "kernel_wf (s\<lparr>tlists := ?l\<rparr>)")
proof (rule kernel_wf_tlists [OF wf])
  note sw = kernel_wfD(1) [OF wf]
  let ?h = "Ready (unat (current_priority th))"
  have m: "t \<in> set (tlists s ?h)" using sched_wf_ready [OF sw t] .
  have mem: "u \<in> set (?l h) \<longleftrightarrow> u \<in> set (tlists s h)" for u h
  proof (cases "h = ?h")
    case False
    then have "t \<notin> set (tlists s h)" using lists_wf_same [OF sched_wf_lists [OF sw] m] by blast
    then show ?thesis using False by (auto simp: ls_insert_before_def)
  qed (use m in \<open>auto simp: ls_insert_before_def\<close>)
  then have "?l h = [] \<longleftrightarrow> tlists s h = []" for h by (metis empty_set equals0D last_in_set)
  moreover have "lists_wf ?l"
    using sched_wf_lists [OF sw] by (simp add: lists_wf_insert_before lists_wf_remove)
  ultimately show "sched_wf (s\<lparr>tlists := ?l\<rparr>)" using sw unfolding sched_wf_def by (simp add: mem)
qed

text \<open>
  Yielding moves the current thread behind the other ready threads of its priority, if there are
  any, and does nothing otherwise.
\<close>

lemma rt_thread_yield_rotates:
  assumes wf: "kernel_wf s" and run: "runnable s"
    and cur: "rt_current_thread s = Some t" "threads s t = Some th"
  shows "\<exists>s'. rt_thread_yield s = Some (RT_EOK, s') \<and> kernel_wf s' \<and> same_rest s s' \<and> threads s' = threads s \<and>
           rt_timer_list s' = rt_timer_list s \<and> timers s' = timers s \<and> cur_ok s' \<and>
           (if stat_of th = RT_THREAD_READY \<and> 2 \<le> length (tlists s (Ready (unat (current_priority th))))
            then tlists s' = ls_insert_before (Ready (unat (current_priority th))) t (ls_remove t (tlists s)) \<and>
                 (rt_scheduler_lock_nest s = 0 \<longrightarrow> runs_highest s')
            else s' = s)"
proof (cases "stat_of th = RT_THREAD_READY \<and> 2 \<le> length (tlists s (Ready (unat (current_priority th))))")
  case True
  note p = sched_wf_prio [OF kernel_wfD(1) [OF wf] cur(2)]
  let ?s = "s\<lparr>tlists := ls_insert_before (Ready (unat (current_priority th))) t (ls_remove t (tlists s))\<rparr>"
  have w: "kernel_wf ?s" using requeue_wf [OF wf cur(2)] True by simp
  have r: "runnable ?s" using run runnable_cong [of ?s s] by simp
  have rest: "same_rest s ?s" by (simp add: same_rest_def)
  obtain s' where s': "rt_schedule ?s = Some s'" "kernel_wf s'" "same_rest ?s s'" "threads s' = threads ?s"
    "tlists s' = tlists ?s" "rt_timer_list s' = rt_timer_list ?s" "timers s' = timers ?s" "runnable s'"
    "rt_scheduler_lock_nest ?s = 0 \<longrightarrow> runs_highest s'" "cur_ok ?s \<longrightarrow> cur_ok s'" using schedule_ends [OF w r] .
  have co: "cur_ok s'" using s'(10) cur by (simp add: cur_ok_def)
  have "rt_thread_yield s = Some (RT_EOK, s')"
    using cur p True s'(1) by (simp add: rt_thread_yield_def stat_codes)
  moreover note same_rest_trans [OF rest s'(3)] s'(2)
  moreover have "threads s' = threads s" "rt_timer_list s' = rt_timer_list s" "timers s' = timers s"
    "tlists s' = ls_insert_before (Ready (unat (current_priority th))) t (ls_remove t (tlists s))"
    "rt_scheduler_lock_nest s = 0 \<longrightarrow> runs_highest s'"
    using s'(4-7,9) by simp_all
  ultimately show ?thesis unfolding if_P [OF True] using co by blast
next
  case False
  then have "rt_thread_yield s = Some (RT_EOK, s)"
    using cur sched_wf_prio [OF kernel_wfD(1) [OF wf] cur(2)] by (simp add: rt_thread_yield_def stat_codes)
  then show ?thesis using wf False cur by (auto simp: cur_ok_def)
qed

end
