(* ===== verification/Clock.thy ===== *)
theory Clock
  imports ThreadOps
begin

text \<open>
  The clock: \<^verbatim>\<open>src/clock.c\<close>, \<^verbatim>\<open>rt_timer_check\<close> of
  \<^verbatim>\<open>src/timer.c\<close>, and the error number of \<^verbatim>\<open>src/kservice.c\<close>.
  What an application's timeout function does is the parameter \<open>cb\<close>, from the function's
  parameter and the state to the new state; \<^verbatim>\<open>rt_thread_timeout\<close> is the model's own.
\<close>

section \<open>The code\<close>

definition rt_tick_get :: "kernel \<Rightarrow> u32" where
  "rt_tick_get s = rt_tick s"

definition rt_tick_set :: "u32 \<Rightarrow> kernel \<Rightarrow> kernel" where
  "rt_tick_set tick s = s\<lparr>rt_tick := tick\<rparr>"

definition run_timeout :: "(nat \<Rightarrow> kernel \<Rightarrow> kernel option) \<Rightarrow> timeout_fn \<Rightarrow> kernel \<Rightarrow> kernel option" where
  "run_timeout cb f s =
     (case f of Rt_thread_timeout t \<Rightarrow> rt_thread_timeout t s | User_timeout k \<Rightarrow> cb k s)"

text \<open>One pass of the loop of \<^verbatim>\<open>rt_timer_check\<close>, for an expired timer \<open>tm\<close>.\<close>

definition fire :: "(nat \<Rightarrow> kernel \<Rightarrow> kernel option) \<Rightarrow> timer_id \<Rightarrow> kernel \<Rightarrow> kernel option" where
  "fire cb tm s =
     do { t \<leftarrow> timers s tm;
          let s = rt_timer_remove tm s;
          s \<leftarrow> run_timeout cb (timeout_func t) s;
          x \<leftarrow> objects s (OTimer tm);
          let s' = set_flag tm (\<lambda>f. f AND NOT RT_TIMER_FLAG_ACTIVATED) s;
          if obj_flag x AND RT_TIMER_FLAG_PERIODIC \<noteq> 0 \<and> obj_flag x AND RT_TIMER_FLAG_ACTIVATED \<noteq> 0
          then do { (_, s) \<leftarrow> rt_timer_start tm s'; Some s }
          else Some s' }"

partial_function (option) rt_timer_check_loop ::
    "(nat \<Rightarrow> kernel \<Rightarrow> kernel option) \<Rightarrow> u32 \<Rightarrow> kernel \<Rightarrow> kernel option" where
  "rt_timer_check_loop cb current_tick s =
     (case rt_timer_list s of
        [] \<Rightarrow> Some s
      | tm # _ \<Rightarrow>
          (case timers s tm of
             None \<Rightarrow> None
           | Some t \<Rightarrow>
               if current_tick - timeout_tick t < RT_TICK_MAX div 2
               then do { s \<leftarrow> fire cb tm s; rt_timer_check_loop cb (rt_tick_get s) s }
               else Some s))"

definition rt_timer_check :: "(nat \<Rightarrow> kernel \<Rightarrow> kernel option) \<Rightarrow> kernel \<Rightarrow> kernel option" where
  "rt_timer_check cb s = rt_timer_check_loop cb (rt_tick_get s) s"

definition rt_timer_next_timeout_tick :: "kernel \<Rightarrow> u32 option" where
  "rt_timer_next_timeout_tick s = rt_timer_list_next_timeout s"

definition rt_tick_increase :: "(nat \<Rightarrow> kernel \<Rightarrow> kernel option) \<Rightarrow> kernel \<Rightarrow> kernel option" where
  "rt_tick_increase cb s =
     do { let s = s\<lparr>rt_tick := rt_tick s + 1\<rparr>;
          t \<leftarrow> rt_thread_self s;
          th \<leftarrow> threads s t;
          let s = upd_thread t (\<lambda>th. th\<lparr>remaining_tick := remaining_tick th - 1\<rparr>) s;
          s \<leftarrow> (if remaining_tick th - 1 = 0
                then do { let s = upd_thread t (\<lambda>th. th\<lparr>remaining_tick := thread_init_tick th\<rparr>) s;
                          (_, s) \<leftarrow> rt_thread_yield s;
                          Some s }
                else Some s);
          rt_timer_check cb s }"

text \<open>\<^verbatim>\<open>rt_get_errno\<close> and \<^verbatim>\<open>rt_set_errno\<close>\<close>

definition rt_get_errno :: "kernel \<Rightarrow> rt_err option" where
  "rt_get_errno s =
     (if rt_interrupt_get_nest s \<noteq> 0 then Some (rt_errno s)
      else case rt_thread_self s of
             None \<Rightarrow> Some (rt_errno s)
           | Some t \<Rightarrow> do { th \<leftarrow> threads s t; Some (thread_error th) })"

definition rt_set_errno :: "rt_err \<Rightarrow> kernel \<Rightarrow> kernel" where
  "rt_set_errno e s =
     (if rt_interrupt_get_nest s \<noteq> 0 then s\<lparr>rt_errno := e\<rparr>
      else case rt_thread_self s of
             None \<Rightarrow> s\<lparr>rt_errno := e\<rparr>
           | Some t \<Rightarrow> upd_thread t (\<lambda>th. th\<lparr>thread_error := e\<rparr>) s)"

section \<open>Expiry\<close>

text \<open>The test of the loop: the deadline is reached exactly when at most one tick is left to \<open>until\<close>.\<close>

lemma expired_iff:
  assumes "until s tm < 0x80000000" "timers s tm = Some t"
  shows "rt_tick s - timeout_tick t < RT_TICK_MAX div 2 \<longleftrightarrow> until s tm \<le> 1"
proof -
  define k where "k = until s tm"
  have e: "rt_tick s - timeout_tick t = 1 - k"
    using assms(2) by (simp add: k_def until_def due_in_def timeout_of_def)
  have "unat k < 0x80000000" using assms(1) by (simp add: k_def word_less_nat_alt)
  then have "1 - k < 0x7fffffff \<longleftrightarrow> k \<le> 1"
    using unat_sub_if' [of 1 k] by (auto simp: word_less_nat_alt word_le_nat_alt)
  then show ?thesis unfolding e by (simp add: k_def)
qed

definition expired :: "kernel \<Rightarrow> timer_id list" where
  "expired s = filter (\<lambda>tm. until s tm \<le> 1) (rt_timer_list s)"

text \<open>Advancing the tick brings every deadline one tick nearer.\<close>

lemma minus_one_mono:
  assumes "(a :: u32) \<le> b" "a \<noteq> 0"
  shows "a - 1 \<le> b - 1"
proof -
  have "b \<noteq> 0" using assms by auto
  then show ?thesis using assms unat_minus_one [of a] unat_minus_one [of b]
    by (simp add: word_le_nat_alt)
qed

lemma tick_wf:
  assumes wf: "kernel_wf s" and future: "\<forall>tm \<in> set (rt_timer_list s). until s tm \<noteq> 0"
  shows "kernel_wf (s\<lparr>rt_tick := rt_tick s + 1\<rparr>)" (is "kernel_wf ?s")
proof -
  have u: "until ?s tm = until s tm - 1" for tm
    by (simp add: until_def due_in_def timeout_of_def)
  note tw = kernel_wfD(2) [OF wf]
  have "sorted (map (until ?s) (rt_timer_list s))"
    using timers_wfD(2) [OF tw] future
    by (auto simp: sorted_map u intro!: minus_one_mono elim!: sorted_wrt_mono_rel [rotated])
  moreover have "until ?s tm < 0x80000000" if "tm \<in> set (rt_timer_list s)" for tm
    using timers_wfD(5) [OF tw that] future that unat_minus_one [of "until s tm"]
    by (simp add: u word_less_nat_alt)
  ultimately have "timers_wf ?s" using tw by (simp add: timers_wf_def is_timer_def timer_active_def)
  moreover have "sched_wf ?s" by (rule sched_wf_cong [OF kernel_wfD(1) [OF wf]]) simp_all
  moreover have "objects_wf ?s" "threads_wf ?s"
    using kernel_wfD(3,4) [OF wf] by (simp_all add: objects_wf_def threads_wf_def thread_obj_def)
  ultimately show ?thesis by (simp add: kernel_wf_def)
qed

section \<open>Firing the expired timers\<close>

text \<open>
  What the loop needs of the timers: a periodic timer has a period of at least one tick, and the
  timeout function of an application's timer is the application's.
\<close>

definition periodic_ok :: "kernel \<Rightarrow> bool" where
  "periodic_ok s \<longleftrightarrow>
     (\<forall>tm t x. timers s tm = Some t \<longrightarrow> objects s (OTimer tm) = Some x \<longrightarrow>
        obj_flag x AND RT_TIMER_FLAG_PERIODIC \<noteq> 0 \<longrightarrow>
        timer_init_tick t \<noteq> 0 \<and> timer_init_tick t < RT_TICK_MAX div 2) \<and>
     (\<forall>n t. timers s (UserTimer n) = Some t \<longrightarrow> (\<exists>k. timeout_func t = User_timeout k))"

definition clock_wf :: "kernel \<Rightarrow> bool" where
  "clock_wf s \<longleftrightarrow> kernel_wf s \<and> runnable s \<and> periodic_ok s \<and> cur_ok s"

text \<open>A timeout function that returns, keeps the invariant and starts no timer; it may wake threads.\<close>

definition callback_ok :: "(nat \<Rightarrow> kernel \<Rightarrow> kernel option) \<Rightarrow> bool" where
  "callback_ok cb \<longleftrightarrow>
     (\<forall>k s. kernel_wf s \<and> runnable s \<and> cur_ok s \<longrightarrow>
        (\<exists>s'. cb k s = Some s' \<and> kernel_wf s' \<and> runnable s' \<and> cur_ok s' \<and> timers s' = timers s \<and>
           rt_tick s' = rt_tick s \<and> set (rt_timer_list s') \<subseteq> set (rt_timer_list s) \<and>
           (\<forall>tm. map_option obj_view (objects s' (OTimer tm)) = map_option obj_view (objects s (OTimer tm)))))"

lemma callback_okD:
  assumes "callback_ok cb" "kernel_wf s" "runnable s" "cur_ok s"
  obtains s' where "cb k s = Some s'" "kernel_wf s'" "runnable s'" "cur_ok s'" "timers s' = timers s"
    "rt_tick s' = rt_tick s" "set (rt_timer_list s') \<subseteq> set (rt_timer_list s)"
    "\<And>tm. map_option obj_view (objects s' (OTimer tm)) = map_option obj_view (objects s (OTimer tm))"
  using assms unfolding callback_ok_def by blast

lemma rt_timer_remove_sel [simp]:
  "threads (rt_timer_remove tm s) = threads s" "timers (rt_timer_remove tm s) = timers s"
  "objects (rt_timer_remove tm s) = objects s" "rt_tick (rt_timer_remove tm s) = rt_tick s"
  "rt_timer_list (rt_timer_remove tm s) = removeAll tm (rt_timer_list s)"
  "tlists (rt_timer_remove tm s) = tlists s"
  by (simp_all add: rt_timer_remove_def)

lemma remove_wf:
  assumes "kernel_wf s" shows "kernel_wf (rt_timer_remove tm s)"
proof (rule kernel_wf_rest [OF assms])
  show "sched_wf (rt_timer_remove tm s)"
    by (rule sched_wf_cong [OF kernel_wfD(1) [OF assms]]) (simp_all add: rt_timer_remove_def)
  show "timers_wf (rt_timer_remove tm s)" by (rule timers_wf_remove [OF kernel_wfD(2) [OF assms]])
qed (use threads_wfD(2) [OF kernel_wfD(4) [OF assms]] in \<open>auto simp: same_rest_def rt_timer_remove_def\<close>)

lemma flag_cleared:
  assumes "tm \<notin> set (rt_timer_list s)"
  shows "set_flag tm (\<lambda>f. f AND NOT RT_TIMER_FLAG_ACTIVATED) s = timer_off tm s"
  using assms by (simp add: timer_off_def rt_timer_remove_def)

lemma periodic_okD:
  assumes "periodic_ok s"
  shows "\<lbrakk>timers s tm = Some t; objects s (OTimer tm) = Some x; obj_flag x AND RT_TIMER_FLAG_PERIODIC \<noteq> 0\<rbrakk>
          \<Longrightarrow> timer_init_tick t \<noteq> 0 \<and> timer_init_tick t < RT_TICK_MAX div 2"
    and "timers s (UserTimer n) = Some t \<Longrightarrow> \<exists>k. timeout_func t = User_timeout k"
  using assms unfolding periodic_ok_def by blast+

lemma periodic_ok_cong:
  assumes p: "periodic_ok s"
    and t: "\<And>tm. map_option (\<lambda>t. (timeout_func t, timer_init_tick t)) (timers s' tm) =
                map_option (\<lambda>t. (timeout_func t, timer_init_tick t)) (timers s tm)"
    and v: "\<And>tm. map_option obj_view (objects s' (OTimer tm)) = map_option obj_view (objects s (OTimer tm))"
  shows "periodic_ok s'"
proof -
  have bt: "\<exists>u. timers s tm = Some u \<and> timeout_func u = timeout_func t \<and> timer_init_tick u = timer_init_tick t"
    if "timers s' tm = Some t" for tm t
    using t [of tm] that by (cases "timers s tm") auto
  have bx: "\<exists>y. objects s (OTimer tm) = Some y \<and> obj_flag y AND 2 = obj_flag x AND 2"
    if "objects s' (OTimer tm) = Some x" for tm x
    using v [of tm] that
    by (cases "objects s (OTimer tm)") (auto simp: obj_view_def intro: flag_periodic)
  have "timer_init_tick t \<noteq> 0 \<and> timer_init_tick t < RT_TICK_MAX div 2"
    if a: "timers s' tm = Some t" "objects s' (OTimer tm) = Some x" "obj_flag x AND RT_TIMER_FLAG_PERIODIC \<noteq> 0"
    for tm t x
  proof -
    obtain u where u: "timers s tm = Some u" "timer_init_tick u = timer_init_tick t" using bt [OF a(1)] by blast
    obtain y where y: "objects s (OTimer tm) = Some y" "obj_flag y AND 2 = obj_flag x AND 2" using bx [OF a(2)] by blast
    show ?thesis using periodic_okD(1) [OF p u(1) y(1)] u(2) y(2) a(3) by simp
  qed
  moreover have "\<exists>k. timeout_func t = User_timeout k" if "timers s' (UserTimer n) = Some t" for n t
    using periodic_okD(2) [OF p, of n] bt [OF that] by force
  ultimately show ?thesis unfolding periodic_ok_def by blast
qed

lemma timer_on_user_wf:
  assumes wf: "kernel_wf s" and tm: "timers s (UserTimer n) = Some t" "is_timer s (UserTimer n)"
    "timer_init_tick t < RT_TICK_MAX div 2"
  shows "kernel_wf (timer_on (UserTimer n) s)"
proof (rule kernel_wf_rest [OF wf _ _ same_rest_timer_on])
  show "sched_wf (timer_on (UserTimer n) s)" by (rule sched_wf_cong [OF kernel_wfD(1) [OF wf]]) simp_all
  show "timers_wf (timer_on (UserTimer n) s)" using tm by (intro timers_wf_on [OF kernel_wfD(2) [OF wf]])
qed (use tm threads_wfD(2) [OF kernel_wfD(4) [OF wf]] in \<open>auto simp: set_timer_on\<close>)

text \<open>
  What the expiry of a timer is to do: the timer is no longer running; the thread it belongs to is woken with
  \<^verbatim>\<open>rt_thread_timeout\<close>, or the application's function is called; then a periodic timer that this did not stop
  runs again, due one period from now, and any other one is marked as stopped.
\<close>

definition expire :: "(nat \<Rightarrow> kernel \<Rightarrow> kernel option) \<Rightarrow> timer_id \<Rightarrow> kernel \<Rightarrow> kernel option" where
  "expire cb tm s =
     do { t \<leftarrow> timers s tm;
          u \<leftarrow> (case timeout_func t of
                 Rt_thread_timeout th \<Rightarrow> rt_thread_timeout th (s\<lparr>rt_timer_list := removeAll tm (rt_timer_list s)\<rparr>)
               | User_timeout k \<Rightarrow> cb k (s\<lparr>rt_timer_list := removeAll tm (rt_timer_list s)\<rparr>));
          x \<leftarrow> objects u (OTimer tm);
          Some (if obj_flag x AND RT_TIMER_FLAG_PERIODIC \<noteq> 0 \<and> obj_flag x AND RT_TIMER_FLAG_ACTIVATED \<noteq> 0
                then timer_on tm (timer_off tm u) else timer_off tm u) }"

text \<open>A list of timers expires one after the other; one that an earlier one's function stopped does not.\<close>

fun expire_all :: "(nat \<Rightarrow> kernel \<Rightarrow> kernel option) \<Rightarrow> timer_id list \<Rightarrow> kernel \<Rightarrow> kernel option" where
  "expire_all cb [] s = Some s"
| "expire_all cb (tm # tms) s =
     (if tm \<in> set (rt_timer_list s) then do { s \<leftarrow> expire cb tm s; expire_all cb tms s } else expire_all cb tms s)"

text \<open>Stopping a timer takes it out of the list and leaves the others in their order.\<close>

definition callback_in_order :: "(nat \<Rightarrow> kernel \<Rightarrow> kernel option) \<Rightarrow> bool" where
  "callback_in_order cb \<longleftrightarrow> (\<forall>k s s'. cb k s = Some s' \<longrightarrow> (\<exists>P. rt_timer_list s' = filter P (rt_timer_list s)))"

lemma fire_thread:
  assumes wf: "clock_wf s" and tm: "ThreadTimer t \<in> set (rt_timer_list s)"
  obtains th s' where "threads s t = Some th" "stat_of th = RT_THREAD_SUSPEND"
    "fire cb (ThreadTimer t) s = Some s'" "clock_wf s'" "rt_tick s' = rt_tick s" "timers s' = timers s"
    "rt_timer_list s' = removeAll (ThreadTimer t) (rt_timer_list s)"
    "threads s' = (threads s)(t \<mapsto> set_stat RT_THREAD_READY (th\<lparr>thread_error := - RT_ETIMEOUT\<rparr>))"
    "tlists s' = ls_insert_before (Ready (unat (current_priority th))) t (ls_remove t (tlists s))"
    "same_rest s s'" "expire cb (ThreadTimer t) s = Some s'"
proof -
  note kw = conjunct1 [OF wf [unfolded clock_wf_def]]
  let ?r = "rt_timer_remove (ThreadTimer t) s"
  have r: "kernel_wf ?r" using kw by (rule remove_wf)
  obtain th where th: "threads s t = Some th" "stat_of th = RT_THREAD_SUSPEND"
    using threads_wfD(2) [OF kernel_wfD(4) [OF kw] tm] by blast
  have obj: "thread_obj s t" using threads_wfD(1) [OF kernel_wfD(4) [OF kw] th(1)] th(2) by simp
  then obtain y x where y: "objects s (OTimer (ThreadTimer t)) = Some y" "obj_flag y AND RT_TIMER_FLAG_PERIODIC = 0"
    and x: "timers s (ThreadTimer t) = Some x" "timeout_func x = Rt_thread_timeout t" by (rule thread_objE)
  have st: "stacks_ok ?r" using wf by (simp add: clock_wf_def runnable_def stacks_ok_def)
  obtain u where u: "rt_thread_timeout t ?r = Some u" "kernel_wf u" "same_rest ?r u"
    "threads u = (threads s)(t \<mapsto> set_stat RT_THREAD_READY (th\<lparr>thread_error := - RT_ETIMEOUT\<rparr>))"
    "tlists u = ls_insert_before (Ready (unat (current_priority th))) t (ls_remove t (tlists s))"
    "rt_timer_list u = removeAll (ThreadTimer t) (rt_timer_list s)" "timers u = timers s"
    "objects u = objects s" "runnable u" "cur_ok ?r \<longrightarrow> cur_ok u"
    using rt_thread_timeout_readies [OF r, of t th] th st by auto
  let ?s = "timer_off (ThreadTimer t) u"
  have fl: "set_flag (ThreadTimer t) (\<lambda>f. f AND NOT RT_TIMER_FLAG_ACTIVATED) u = ?s"
    by (rule flag_cleared) (simp add: u)
  have f: "fire cb (ThreadTimer t) s = Some ?s"
    using x y u fl by (simp add: fire_def run_timeout_def)
  have ex: "expire cb (ThreadTimer t) s = Some ?s"
    using x y u(1,8) by (simp add: expire_def rt_timer_remove_def)
  have ru: "same_rest s u"
    using u(3) by (simp add: same_rest_def rt_timer_remove_def)
  have rs: "same_rest s ?s" using ru same_rest_timer_off by (rule same_rest_trans)
  have "periodic_ok ?s"
    by (rule periodic_ok_cong [OF _ _ same_rest_view [OF rs]]) (use wf u(7) in \<open>simp_all add: clock_wf_def\<close>)
  then have "clock_wf ?s"
    using timer_off_wf [OF u(2)] u(9,10) runnable_cong [of ?s u] wf
    by (simp add: clock_wf_def cur_ok_def rt_timer_remove_def)
  from that [OF th f this] show thesis using u same_restD(7) [OF ru] rs ex by simp
qed

lemma expired_timer_on:
  assumes "timers s tm = Some t" "timer_init_tick t \<noteq> 0" "timer_init_tick t < RT_TICK_MAX div 2"
  shows "1 < until (timer_on tm s) tm"
    and "expired (timer_on tm s) = filter (\<lambda>y. until s y \<le> 1) (removeAll tm (rt_timer_list s))"
proof -
  have n: "unat (timer_init_tick t) < 0x7fffffff" "unat (timer_init_tick t) \<noteq> 0"
    using assms(2,3) by (simp_all add: word_less_nat_alt unat_eq_0)
  then have k: "1 < timer_init_tick t + 1" by (simp add: word_less_nat_alt unat_word_ariths)
  then show on: "1 < until (timer_on tm s) tm" by (simp add: until_timer_on [OF assms(1)])
  have e: "until (timer_on tm s) y = until s y" if "y \<noteq> tm" for y using that by (simp add: until_timer_on [OF assms(1)])
  let ?ys = "removeAll tm (rt_timer_list s)" and ?k = "timer_init_tick t + 1"
  have l: "rt_timer_list (timer_on tm s) = filter (\<lambda>x. until s x \<le> ?k) ?ys @ tm # filter (\<lambda>x. ?k < until s x) ?ys"
    using assms(1) by (simp add: timer_on_def Let_def)
  have "filter (\<lambda>y. until (timer_on tm s) y \<le> 1) (filter (\<lambda>x. until s x \<le> ?k) ?ys) = filter (\<lambda>y. until s y \<le> 1) ?ys"
    unfolding filter_filter by (rule filter_cong) (use k e in auto)
  moreover have "filter (\<lambda>y. until (timer_on tm s) y \<le> 1) (filter (\<lambda>x. ?k < until s x) ?ys) = []"
    using k e by (auto simp: filter_empty_conv)
  ultimately show "expired (timer_on tm s) = filter (\<lambda>y. until s y \<le> 1) ?ys"
    using on by (simp add: expired_def l)
qed

lemma fire_user:
  assumes wf: "clock_wf s" and cb: "callback_ok cb" and tm: "UserTimer n \<in> set (rt_timer_list s)"
  obtains s' k u where "fire cb (UserTimer n) s = Some s'" "clock_wf s'" "rt_tick s' = rt_tick s"
    "\<And>y. y \<noteq> UserTimer n \<Longrightarrow> timers s' y = timers s y"
    "set (rt_timer_list s') \<subseteq> set (rt_timer_list s)"
    "UserTimer n \<in> set (rt_timer_list s') \<Longrightarrow> 1 < until s' (UserTimer n)"
    "expire cb (UserTimer n) s = Some s'" "cb k (rt_timer_remove (UserTimer n) s) = Some u"
    "\<And>y. y \<noteq> UserTimer n \<Longrightarrow> y \<in> set (rt_timer_list s') \<longleftrightarrow> y \<in> set (rt_timer_list u)"
    "expired s' = filter (\<lambda>y. until s y \<le> 1) (rt_timer_list u)"
proof -
  let ?m = "UserTimer n"
  let ?r = "rt_timer_remove ?m s"
  from wf have kw: "kernel_wf s" and run: "runnable s" and pk: "periodic_ok s" and co: "cur_ok s"
    by (simp_all add: clock_wf_def)
  have it: "is_timer s ?m" using timers_wfD(3) [OF kernel_wfD(2) [OF kw] tm] .
  then obtain t x where t: "timers s ?m = Some t" and x: "objects s (OTimer ?m) = Some x"
    "obj_type x AND NOT RT_Object_Class_Static = RT_Object_Class_Timer" by (auto simp: is_timer_def)
  obtain k where k: "timeout_func t = User_timeout k" using periodic_okD(2) [OF pk t] by blast
  have rr: "runnable ?r" using run runnable_cong [of ?r s] by simp
  have cr: "cur_ok ?r" using co by (simp add: cur_ok_def rt_timer_remove_def)
  obtain u where u: "cb k ?r = Some u" "kernel_wf u" "runnable u" "timers u = timers s" "rt_tick u = rt_tick s"
    "set (rt_timer_list u) \<subseteq> set (rt_timer_list ?r)"
    "\<And>tm. map_option obj_view (objects u (OTimer tm)) = map_option obj_view (objects s (OTimer tm))"
    "cur_ok u"
    by (rule callback_okD [OF cb remove_wf [OF kw] rr cr, of k]) simp
  obtain y where y: "objects u (OTimer ?m) = Some y" "obj_type y = obj_type x" "obj_view y = obj_view x"
    using u(7) [of ?m] x by (cases "objects u (OTimer ?m)") (auto simp: obj_view_def)
  let ?o = "timer_off ?m u"
  have nin: "?m \<notin> set (rt_timer_list u)" using u(6) by auto
  note fl = flag_cleared [OF nin]
  have ow: "kernel_wf ?o" using u(2) by (rule timer_off_wf)
  have ov: "map_option obj_view (objects ?o (OTimer tm)) = map_option obj_view (objects s (OTimer tm))" for tm
    using same_rest_view [OF same_rest_timer_off, of ?m u "OTimer tm"] u(7) by (simp only:)
  have ot: "timers ?o = timers s" using u(4) by simp
  have op: "periodic_ok ?o" by (rule periodic_ok_cong [OF pk _ ov]) (simp only: ot)
  show thesis
  proof (cases "obj_flag y AND RT_TIMER_FLAG_PERIODIC \<noteq> 0 \<and> obj_flag y AND RT_TIMER_FLAG_ACTIVATED \<noteq> 0")
    case False
    have "fire cb ?m s = Some ?o" using t k u(1) y False fl by (auto simp: fire_def run_timeout_def)
    moreover have "expire cb ?m s = Some ?o" using t k u(1) y(1) False by (auto simp: expire_def rt_timer_remove_def)
    moreover have "until ?o = until s" using u(5) ot by (simp add: until_def due_in_def timeout_of_def fun_eq_iff)
    then have "expired ?o = filter (\<lambda>y. until s y \<le> 1) (rt_timer_list u)" using nin by (simp add: expired_def)
    moreover have "clock_wf ?o" using ow op u(3,8) runnable_cong [of ?o u] by (simp add: clock_wf_def cur_ok_def)
    moreover have "set (rt_timer_list ?o) \<subseteq> set (rt_timer_list s)" using u(6) by auto
    ultimately show thesis using that [of ?o k u] u(1,5) ot nin by simp
  next
    case True
    have "obj_flag x AND 2 = obj_flag y AND 2"
      using y(3) flag_periodic [of "obj_flag x" "obj_flag y"] by (simp add: obj_view_def)
    then have per: "timer_init_tick t \<noteq> 0" "timer_init_tick t < RT_TICK_MAX div 2"
      using periodic_okD(1) [OF pk t x(1)] True by simp_all
    have oi: "is_timer ?o ?m" using y x t u(4) by (simp add: is_timer_def)
    have tt: "timers ?o ?m = Some t" using t ot by simp
    let ?n = "timer_on ?m ?o"
    have st: "rt_timer_start ?m ?o = Some (RT_EOK, ?n)"
      by (rule rt_timer_start_on [OF kernel_wfD(2) [OF ow] oi tt per(2)])
    have "kernel_wf ?n" by (rule timer_on_user_wf [OF ow tt oi per(2)])
    moreover have "periodic_ok ?n"
      by (rule periodic_ok_cong [OF op _ same_rest_view [OF same_rest_timer_on]]) (use tt in auto)
    ultimately have "clock_wf ?n" using u(3,8) runnable_cong [of ?n u] by (simp add: clock_wf_def cur_ok_def)
    moreover have "fire cb ?m s = Some ?n"
      using t k u(1) y True fl st by (simp add: fire_def run_timeout_def)
    moreover have "expire cb ?m s = Some ?n" using t k u(1) y(1) True by (simp add: expire_def rt_timer_remove_def)
    moreover note on = expired_timer_on [OF tt per]
    have "expired ?n = filter (\<lambda>y. until s y \<le> 1) (rt_timer_list u)"
      using on(2) nin u(5) ot by (simp add: until_def due_in_def timeout_of_def)
    moreover have "set (rt_timer_list ?n) \<subseteq> set (rt_timer_list s)"
      using u(6) tm by (auto simp: set_timer_on)
    ultimately show thesis using that [of ?n k u] u(1,5) ot nin on(1) by (simp add: set_timer_on)
  qed
qed

text \<open>A fired timer is no longer expired, and no other timer becomes so.\<close>

lemma fire_progress:
  assumes wf: "clock_wf s" and cb: "callback_ok cb" and tm: "tm \<in> set (rt_timer_list s)"
  obtains s' where "fire cb tm s = Some s'" "clock_wf s'" "rt_tick s' = rt_tick s"
    "set (expired s') \<subseteq> set (expired s) - {tm}"
proof (cases tm)
  case (ThreadTimer t)
  obtain th s' where "fire cb tm s = Some s'" "clock_wf s'" "rt_tick s' = rt_tick s" "timers s' = timers s"
    "rt_timer_list s' = removeAll tm (rt_timer_list s)"
    using tm ThreadTimer by (metis fire_thread [OF wf])
  then show thesis using that
    by (auto simp: expired_def until_def due_in_def timeout_of_def)
next
  case (UserTimer n)
  obtain s' where s': "fire cb tm s = Some s'" "clock_wf s'" "rt_tick s' = rt_tick s"
    "\<And>y. y \<noteq> tm \<Longrightarrow> timers s' y = timers s y" "set (rt_timer_list s') \<subseteq> set (rt_timer_list s)"
    "tm \<in> set (rt_timer_list s') \<Longrightarrow> 1 < until s' tm"
    using fire_user [OF wf cb] tm UserTimer by metis
  have "until s' y = until s y" if "y \<noteq> tm" for y
    using s'(3) s'(4) [OF that] by (simp add: until_def due_in_def timeout_of_def)
  note un = this
  have "y \<in> set (expired s) - {tm}" if y: "y \<in> set (expired s')" for y
  proof -
    have l: "y \<in> set (rt_timer_list s')" "until s' y \<le> 1" using y by (simp_all add: expired_def)
    then have "y \<noteq> tm" using s'(6) by (auto simp: not_le [symmetric])
    then show ?thesis using l un s'(5) by (auto simp: expired_def)
  qed
  then show thesis using that [OF s'(1-3)] by blast
qed

lemma loop_done:
  assumes "kernel_wf s" "expired s = []"
  shows "rt_timer_check_loop cb (rt_tick s) s = Some s"
proof (cases "rt_timer_list s")
  case Nil
  then show ?thesis by (simp add: rt_timer_check_loop.simps)
next
  case (Cons tm xs)
  then have m: "tm \<in> set (rt_timer_list s)" by simp
  then obtain t where t: "timers s tm = Some t"
    using timers_wfD(3) [OF kernel_wfD(2) [OF assms(1)]] by (auto simp: is_timer_def)
  have "\<not> until s tm \<le> 1" using assms(2) m by (auto simp: expired_def filter_empty_conv)
  then have "\<not> rt_tick s - timeout_tick t < RT_TICK_MAX div 2"
    using expired_iff [OF timers_wfD(5) [OF kernel_wfD(2) [OF assms(1)] m] t] by blast
  then show ?thesis using Cons t by (subst rt_timer_check_loop.simps) simp
qed

text \<open>The list is sorted, so while a timer is expired its first one is.\<close>

lemma loop_step:
  assumes wf: "kernel_wf s" and e: "expired s \<noteq> []"
  shows "rt_timer_list s = hd (rt_timer_list s) # tl (rt_timer_list s)"
    and "hd (rt_timer_list s) \<in> set (expired s)"
    and "rt_timer_check_loop cb (rt_tick s) s =
      do { s \<leftarrow> fire cb (hd (rt_timer_list s)) s; rt_timer_check_loop cb (rt_tick s) s }"
proof -
  obtain z where z: "z \<in> set (rt_timer_list s)" "until s z \<le> 1"
    using e by (auto simp: expired_def filter_empty_conv)
  then obtain tm xs where l: "rt_timer_list s = tm # xs" by (cases "rt_timer_list s") auto
  then show "rt_timer_list s = hd (rt_timer_list s) # tl (rt_timer_list s)" by simp
  have m: "tm \<in> set (rt_timer_list s)" using l by simp
  obtain t where t: "timers s tm = Some t"
    using timers_wfD(3) [OF kernel_wfD(2) [OF wf] m] by (auto simp: is_timer_def)
  have "until s tm \<le> until s z" using timers_wfD(2) [OF kernel_wfD(2) [OF wf]] z l by auto
  then have le: "until s tm \<le> 1" using z(2) by simp
  then show "hd (rt_timer_list s) \<in> set (expired s)" using l by (simp add: expired_def)
  have "rt_tick s - timeout_tick t < RT_TICK_MAX div 2"
    using expired_iff [OF timers_wfD(5) [OF kernel_wfD(2) [OF wf] m] t] le by blast
  then show "rt_timer_check_loop cb (rt_tick s) s =
      do { s \<leftarrow> fire cb (hd (rt_timer_list s)) s; rt_timer_check_loop cb (rt_tick s) s }"
    using l t by (subst rt_timer_check_loop.simps) (simp add: rt_tick_get_def)
qed

lemma rt_timer_check_ends:
  assumes "clock_wf s" "callback_ok cb"
  shows "\<exists>s'. rt_timer_check cb s = Some s' \<and> clock_wf s' \<and> expired s' = [] \<and> rt_tick s' = rt_tick s"
  using assms(1) unfolding rt_timer_check_def rt_tick_get_def
proof (induction "card (set (expired s))" arbitrary: s rule: less_induct)
  case less
  note kw = conjunct1 [OF less.prems [unfolded clock_wf_def]]
  show ?case
  proof (cases "expired s = []")
    case True
    then show ?thesis using loop_done [OF kw True] less.prems by auto
  next
    case False
    note st = loop_step [OF kw False]
    have "hd (rt_timer_list s) \<in> set (rt_timer_list s)" using st(2) by (simp add: expired_def)
    then obtain u where u: "fire cb (hd (rt_timer_list s)) s = Some u" "clock_wf u" "rt_tick u = rt_tick s"
      "set (expired u) \<subseteq> set (expired s) - {hd (rt_timer_list s)}"
      using fire_progress [OF less.prems assms(2)] by blast
    have "card (set (expired u)) < card (set (expired s))"
      using u(4) st(2) by (intro psubset_card_mono) auto
    from less.hyps [OF this u(2)] show ?thesis using st(3) u(1,3) by auto
  qed
qed

text \<open>
  The check of the timers is the expiry of the timers that are due, in the order of the list.
\<close>

lemma fire_expires:
  assumes wf: "clock_wf s" and cb: "callback_ok cb" "callback_in_order cb" and tm: "tm \<in> set (rt_timer_list s)"
  obtains s' P where "fire cb tm s = Some s'" "expire cb tm s = Some s'" "clock_wf s'" "rt_tick s' = rt_tick s"
    "expired s' = filter P (removeAll tm (expired s))"
    "\<And>y. y \<noteq> tm \<Longrightarrow> y \<in> set (rt_timer_list s') \<longleftrightarrow> P y \<and> y \<in> set (rt_timer_list s)"
proof (cases tm)
  case (ThreadTimer t)
  then have m: "ThreadTimer t \<in> set (rt_timer_list s)" using tm by simp
  obtain th s' where f: "threads s t = Some th" "stat_of th = RT_THREAD_SUSPEND" "fire cb (ThreadTimer t) s = Some s'"
    "clock_wf s'" "rt_tick s' = rt_tick s" "timers s' = timers s" "rt_timer_list s' = removeAll (ThreadTimer t) (rt_timer_list s)"
    "threads s' = (threads s)(t \<mapsto> set_stat RT_THREAD_READY (th\<lparr>thread_error := - RT_ETIMEOUT\<rparr>))"
    "tlists s' = ls_insert_before (Ready (unat (current_priority th))) t (ls_remove t (tlists s))"
    "same_rest s s'" "expire cb (ThreadTimer t) s = Some s'"
    using fire_thread [OF wf m] .
  have "until s' = until s" using f(5,6) by (simp add: until_def due_in_def timeout_of_def fun_eq_iff)
  then have "expired s' = filter (\<lambda>_. True) (removeAll tm (expired s))"
    using f(7) ThreadTimer by (simp add: expired_def removeAll_filter_not_eq conj_commute)
  moreover have "y \<noteq> tm \<Longrightarrow> y \<in> set (rt_timer_list s') \<longleftrightarrow> True \<and> y \<in> set (rt_timer_list s)" for y using f(7) ThreadTimer by simp
  ultimately show thesis using that [of s' "\<lambda>_. True"] f(3-5,11) ThreadTimer by simp
next
  case (UserTimer n)
  then have m: "UserTimer n \<in> set (rt_timer_list s)" using tm by simp
  obtain s' k u where f: "fire cb tm s = Some s'" "clock_wf s'" "rt_tick s' = rt_tick s" "expire cb tm s = Some s'"
    "cb k (rt_timer_remove tm s) = Some u" "\<And>y. y \<noteq> tm \<Longrightarrow> y \<in> set (rt_timer_list s') \<longleftrightarrow> y \<in> set (rt_timer_list u)"
    "expired s' = filter (\<lambda>y. until s y \<le> 1) (rt_timer_list u)"
    using fire_user [OF wf cb(1) m] UserTimer by metis
  obtain P where P: "rt_timer_list u = filter P (removeAll tm (rt_timer_list s))"
    using cb(2) f(5) unfolding callback_in_order_def by fastforce
  have "expired s' = filter P (removeAll tm (expired s))"
    unfolding f(7) P by (simp add: expired_def removeAll_filter_not_eq conj_ac)
  moreover have "y \<in> set (rt_timer_list s') \<longleftrightarrow> P y \<and> y \<in> set (rt_timer_list s)" if "y \<noteq> tm" for y
    using f(6) [OF that] P that by auto
  ultimately show thesis using that f(1-4) by blast
qed

lemma rt_timer_check_expires:
  assumes "clock_wf s" "callback_ok cb" "callback_in_order cb"
  shows "rt_timer_check cb s = expire_all cb (expired s) s"
proof -
  have "rt_timer_check_loop cb (rt_tick s) s = expire_all cb ds s"
    if "clock_wf s" "distinct ds" "filter (\<lambda>d. d \<in> set (rt_timer_list s)) ds = expired s" for ds and s :: kernel
    using that
  proof (induction ds arbitrary: s)
    case Nil
    then show ?case using loop_done [of s] by (simp add: clock_wf_def)
  next
    case (Cons d ds)
    note kw = conjunct1 [OF Cons.prems(1) [unfolded clock_wf_def]]
    show ?case
    proof (cases "d \<in> set (rt_timer_list s)")
      case False
      then show ?thesis using Cons.IH [of s] Cons.prems by simp
    next
      case True
      then have e: "expired s = d # filter (\<lambda>d. d \<in> set (rt_timer_list s)) ds" using Cons.prems(3) by simp
      then have ne: "expired s \<noteq> []" by simp
      note st = loop_step [OF kw ne]
      have "hd (expired s) = hd (rt_timer_list s)"
        using st(1,2) by (cases "rt_timer_list s") (auto simp: expired_def)
      then have hd: "hd (rt_timer_list s) = d" using e by simp
      obtain s1 P where f: "fire cb d s = Some s1" "expire cb d s = Some s1" "clock_wf s1" "rt_tick s1 = rt_tick s"
        "expired s1 = filter P (removeAll d (expired s))"
        "\<And>y. y \<noteq> d \<Longrightarrow> y \<in> set (rt_timer_list s1) \<longleftrightarrow> P y \<and> y \<in> set (rt_timer_list s)"
        using fire_expires [OF Cons.prems(1) assms(2,3) True] by blast
      have nd: "d \<notin> set ds" using Cons.prems(2) by simp
      then have "removeAll d (expired s) = filter (\<lambda>d. d \<in> set (rt_timer_list s)) ds" unfolding e by simp
      then have "expired s1 = filter (\<lambda>y. P y \<and> y \<in> set (rt_timer_list s)) ds" using f(5) by (simp add: conj_commute)
      also have "\<dots> = filter (\<lambda>y. y \<in> set (rt_timer_list s1)) ds" using nd f(6) by (intro filter_cong refl) metis
      finally have "rt_timer_check_loop cb (rt_tick s1) s1 = expire_all cb ds s1"
        using Cons.IH [OF f(3)] Cons.prems(2) by simp
      then show ?thesis using st(3) hd f(1,2,4) True by simp
    qed
  qed
  moreover have "distinct (expired s)" using timers_wfD(1) [OF kernel_wfD(2)] assms(1) by (simp add: expired_def clock_wf_def)
  moreover have "filter (\<lambda>d. d \<in> set (rt_timer_list s)) (expired s) = expired s"
    by (rule filter_True) (simp add: expired_def)
  ultimately show ?thesis using assms(1) by (simp add: rt_timer_check_def rt_tick_get_def)
qed

text \<open>
  When only threads time out, the check makes exactly those threads ready, each with
  \<^verbatim>\<open>-RT_ETIMEOUT\<close>, and leaves the other timers and threads as they are.
\<close>

lemma rt_timer_check_threads:
  assumes "clock_wf s" "\<forall>tm \<in> set (expired s). \<exists>t. tm = ThreadTimer t"
  shows "\<exists>s'. rt_timer_check cb s = Some s' \<and> clock_wf s' \<and> same_rest s s' \<and> timers s' = timers s \<and>
           rt_timer_list s' = filter (\<lambda>tm. 1 < until s tm) (rt_timer_list s) \<and>
           threads s' = (\<lambda>t. if ThreadTimer t \<in> set (expired s)
             then map_option (\<lambda>th. set_stat RT_THREAD_READY (th\<lparr>thread_error := - RT_ETIMEOUT\<rparr>)) (threads s t)
             else threads s t)"
  using assms unfolding rt_timer_check_def rt_tick_get_def
proof (induction "length (expired s)" arbitrary: s)
  case 0
  note kw = conjunct1 [OF 0(2) [unfolded clock_wf_def]]
  have e: "expired s = []" using 0 by simp
  have "filter (\<lambda>tm. 1 < until s tm) (rt_timer_list s) = rt_timer_list s"
    using e by (auto simp: expired_def filter_empty_conv filter_id_conv not_le)
  then show ?case using loop_done [OF kw e] 0(2) e by simp
next
  case (Suc n)
  note kw = conjunct1 [OF Suc.prems(1) [unfolded clock_wf_def]]
  have ne: "expired s \<noteq> []" using Suc.hyps(2) by auto
  note st = loop_step [OF kw ne]
  obtain t where t: "hd (rt_timer_list s) = ThreadTimer t" using Suc.prems(2) st(2) by blast
  have m: "ThreadTimer t \<in> set (rt_timer_list s)" using st(2) t by (simp add: expired_def)
  obtain th u where u: "threads s t = Some th" "fire cb (ThreadTimer t) s = Some u" "clock_wf u"
    "rt_tick u = rt_tick s" "timers u = timers s" "rt_timer_list u = removeAll (ThreadTimer t) (rt_timer_list s)"
    "threads u = (threads s)(t \<mapsto> set_stat RT_THREAD_READY (th\<lparr>thread_error := - RT_ETIMEOUT\<rparr>))"
    "same_rest s u"
    using fire_thread [OF Suc.prems(1) m] by metis
  have un: "until u = until s" using u(4,5) by (simp add: fun_eq_iff until_def due_in_def timeout_of_def)
  have eu: "expired u = removeAll (ThreadTimer t) (expired s)"
    by (simp add: expired_def un u(6) removeAll_filter_not_eq filter_filter conj_commute)
  have d: "distinct (expired s)" using timers_wfD(1) [OF kernel_wfD(2) [OF kw]] by (simp add: expired_def)
  have "n = length (expired u)"
    using Suc.hyps(2) d st(2) t length_removeAll_less by (simp add: eu distinct_remove1_removeAll [symmetric] length_remove1)
  moreover have "\<forall>tm\<in>set (expired u). \<exists>t. tm = ThreadTimer t" using Suc.prems(2) by (simp add: eu)
  ultimately obtain s' where s': "rt_timer_check_loop cb (rt_tick u) u = Some s'" "clock_wf s'" "same_rest u s'"
    "timers s' = timers u" "rt_timer_list s' = filter (\<lambda>tm. 1 < until u tm) (rt_timer_list u)"
    "threads s' = (\<lambda>t. if ThreadTimer t \<in> set (expired u)
             then map_option (\<lambda>th. set_stat RT_THREAD_READY (th\<lparr>thread_error := - RT_ETIMEOUT\<rparr>)) (threads u t)
             else threads u t)"
    using Suc.hyps(1) u(3) by blast
  have le: "\<not> 1 < until s (ThreadTimer t)" using st(2) t by (simp add: expired_def not_less)
  then have "rt_timer_list s' = filter (\<lambda>tm. 1 < until s tm) (rt_timer_list s)"
    unfolding s'(5) un u(6) removeAll_filter_not_eq filter_filter by (intro filter_cong) auto
  moreover have "threads s' = (\<lambda>t. if ThreadTimer t \<in> set (expired s)
             then map_option (\<lambda>th. set_stat RT_THREAD_READY (th\<lparr>thread_error := - RT_ETIMEOUT\<rparr>)) (threads s t)
             else threads s t)"
    using st(2) t u(1) by (auto simp: s'(6) eu u(7) fun_eq_iff)
  ultimately show ?case
    using s'(1,2,4) st(3) t u(2,4,5) same_rest_trans [OF u(8) s'(3)] by simp
qed

section \<open>The tick interrupt\<close>

lemma clock_wf_tick:
  assumes wf: "clock_wf s" and future: "\<forall>tm \<in> set (rt_timer_list s). until s tm \<noteq> 0"
  shows "clock_wf (s\<lparr>rt_tick := rt_tick s + 1\<rparr>)"
  using tick_wf [OF _ future] wf by (simp add: clock_wf_def runnable_def stacks_ok_def periodic_ok_def cur_ok_def)

lemma clock_wf_upd_thread:
  assumes "clock_wf s" "\<And>th. sched_view (f th) = sched_view th"
    "\<And>th. rt_scheduler_stack_check (f th) = rt_scheduler_stack_check th"
  shows "clock_wf (upd_thread t f s)"
proof -
  have st: "stat_of (f th) = stat_of th" for th using assms(2) [of th] by (simp add: sched_view_def)
  have "runnable (upd_thread t f s)"
  proof -
    obtain u uh where u: "threads s u = Some uh" "stat_of uh = RT_THREAD_READY" and ok: "stacks_ok s"
      using assms(1) by (auto simp: clock_wf_def runnable_def)
    have "\<exists>th. threads (upd_thread t f s) u = Some th \<and> stat_of th = RT_THREAD_READY"
      using u by (auto simp: upd_thread_def st)
    moreover have "stacks_ok (upd_thread t f s)"
      using ok by (auto simp: stacks_ok_def upd_thread_def st assms(3) split: if_splits)
    ultimately show ?thesis by (auto simp: runnable_def)
  qed
  moreover have "kernel_wf (upd_thread t f s)"
    by (rule kernel_wf_upd_thread) (use assms in \<open>simp_all add: clock_wf_def\<close>)
  moreover have "periodic_ok (upd_thread t f s)"
    using assms(1) by (simp add: clock_wf_def periodic_ok_def upd_thread_def)
  moreover have "cur_ok (upd_thread t f s)"
    using assms(1) by (auto simp: clock_wf_def cur_ok_def upd_thread_def)
  ultimately show ?thesis by (simp add: clock_wf_def)
qed

lemma clock_wf_yield:
  assumes wf: "clock_wf s"
  shows "\<exists>s'. rt_thread_yield s = Some (RT_EOK, s') \<and> clock_wf s' \<and> rt_tick s' = rt_tick s \<and>
           threads s' = threads s \<and> timers s' = timers s \<and> rt_timer_list s' = rt_timer_list s"
proof -
  from wf have kw: "kernel_wf s" and run: "runnable s" and pk: "periodic_ok s" by (simp_all add: clock_wf_def)
  from wf obtain t th where cur: "rt_current_thread s = Some t" "threads s t = Some th"
    by (auto simp: clock_wf_def cur_ok_def)
  obtain s' where s': "rt_thread_yield s = Some (RT_EOK, s')" "kernel_wf s'" "same_rest s s'"
    "threads s' = threads s" "timers s' = timers s" "rt_timer_list s' = rt_timer_list s" "cur_ok s'"
    using rt_thread_yield_rotates [OF kw run cur] by blast
  have "periodic_ok s'" by (rule periodic_ok_cong [OF pk _ same_rest_view [OF s'(3)]]) (simp add: s'(5))
  then show ?thesis using s' run runnable_cong [OF s'(4)] same_restD(7) [OF s'(3)]
    by (simp add: clock_wf_def)
qed

lemma sched_view_ticks [simp]: "sched_view (th\<lparr>remaining_tick := k\<rparr>) = sched_view th"
  by (simp add: sched_view_def)

text \<open>The part of \<^verbatim>\<open>rt_tick_increase\<close> before the timers: the tick and the time slice.\<close>

lemma tick_slice:
  assumes wf: "clock_wf s" and future: "\<forall>tm \<in> set (rt_timer_list s). until s tm \<noteq> 0"
  obtains d where "rt_tick_increase cb s = rt_timer_check cb d" "clock_wf d" "rt_tick d = rt_tick s + 1"
    "timers d = timers s" "rt_timer_list d = rt_timer_list s"
    "\<forall>u. map_option (\<lambda>x. (stat_of x, thread_error x)) (threads d u) =
          map_option (\<lambda>x. (stat_of x, thread_error x)) (threads s u)"
proof -
  from wf obtain t th where cur: "rt_current_thread s = Some t" "threads s t = Some th"
    by (auto simp: clock_wf_def cur_ok_def)
  let ?a = "s\<lparr>rt_tick := rt_tick s + 1\<rparr>"
  let ?b = "upd_thread t (\<lambda>th. th\<lparr>remaining_tick := remaining_tick th - 1\<rparr>) ?a"
  let ?c = "upd_thread t (\<lambda>th. th\<lparr>remaining_tick := thread_init_tick th\<rparr>) ?b"
  have b: "clock_wf ?b" using clock_wf_upd_thread [OF clock_wf_tick [OF wf future]] by simp
  have c: "clock_wf ?c" using clock_wf_upd_thread [OF b] by simp
  obtain y where y: "rt_thread_yield ?c = Some (RT_EOK, y)" "clock_wf y" "rt_tick y = rt_tick ?c"
    "threads y = threads ?c" "timers y = timers ?c" "rt_timer_list y = rt_timer_list ?c"
    using clock_wf_yield [OF c] by auto
  define d where "d = (if remaining_tick th - 1 = 0 then y else ?b)"
  have f: "rt_tick ?b = rt_tick s + 1" "rt_tick ?c = rt_tick s + 1" "timers ?b = timers s" "timers ?c = timers s"
    "rt_timer_list ?b = rt_timer_list s" "rt_timer_list ?c = rt_timer_list s"
    by (simp_all add: upd_thread_def)
  have v: "map_option (\<lambda>x. (stat_of x, thread_error x)) (threads z u) =
          map_option (\<lambda>x. (stat_of x, thread_error x)) (threads s u)" if "z = ?b \<or> z = ?c" for z u
    using that cur(2) by (auto simp: upd_thread_def)
  show thesis
  proof (rule that)
    show "rt_tick_increase cb s = rt_timer_check cb d"
      using cur y(1) by (simp add: rt_tick_increase_def rt_thread_self_def Let_def d_def)
    show "clock_wf d" "rt_tick d = rt_tick s + 1" "timers d = timers s" "rt_timer_list d = rt_timer_list s"
      using b y f by (simp_all add: d_def)
    show "\<forall>u. map_option (\<lambda>x. (stat_of x, thread_error x)) (threads d u) =
          map_option (\<lambda>x. (stat_of x, thread_error x)) (threads s u)"
      using v [of ?b] v [of ?c] y(4) by (simp add: d_def)
  qed
qed

text \<open>
  What one tick does to the running thread \<open>t\<close>, from state \<open>s\<close> to \<open>d\<close>: one tick of its slice is taken; when that was the
  last one it gets a new slice and goes behind the others of its priority, if it is ready and not the only one there.
\<close>

definition slice_charged :: "tid \<Rightarrow> rt_thread \<Rightarrow> kernel \<Rightarrow> kernel \<Rightarrow> bool" where
  "slice_charged t th s d \<longleftrightarrow>
     rt_tick d = rt_tick s + 1 \<and> timers d = timers s \<and> rt_timer_list d = rt_timer_list s \<and>
     (if remaining_tick th = 1
      then threads d = (threads s)(t \<mapsto> th\<lparr>remaining_tick := thread_init_tick th\<rparr>) \<and>
           (let q = Ready (unat (current_priority th)) in
            if stat_of th = RT_THREAD_READY \<and> 2 \<le> length (tlists s q)
            then tlists d = ls_insert_before q t (ls_remove t (tlists s)) \<and> (rt_scheduler_lock_nest s = 0 \<longrightarrow> runs_highest d)
            else tlists d = tlists s \<and> rt_current_thread d = Some t)
      else threads d = (threads s)(t \<mapsto> th\<lparr>remaining_tick := remaining_tick th - 1\<rparr>) \<and>
           tlists d = tlists s \<and> rt_current_thread d = Some t)"

lemma tick_charges:
  assumes wf: "clock_wf s" and future: "\<forall>tm \<in> set (rt_timer_list s). until s tm \<noteq> 0"
    and cur: "rt_current_thread s = Some t" "threads s t = Some th"
  obtains d where "rt_tick_increase cb s = rt_timer_check cb d" "clock_wf d" "slice_charged t th s d"
proof -
  let ?a = "s\<lparr>rt_tick := rt_tick s + 1\<rparr>"
  let ?b = "upd_thread t (\<lambda>th. th\<lparr>remaining_tick := remaining_tick th - 1\<rparr>) ?a"
  let ?c = "upd_thread t (\<lambda>th. th\<lparr>remaining_tick := thread_init_tick th\<rparr>) ?b"
  have b: "clock_wf ?b" using clock_wf_upd_thread [OF clock_wf_tick [OF wf future]] by simp
  show thesis
  proof (cases "remaining_tick th = 1")
    case False
    then have "remaining_tick th - 1 \<noteq> 0" by (simp add: right_minus_eq)
    then show thesis using that [of ?b] b cur False
      by (simp add: rt_tick_increase_def rt_thread_self_def Let_def slice_charged_def upd_thread_def)
  next
    case True
    have c: "clock_wf ?c" using clock_wf_upd_thread [OF b] by simp
    let ?t = "th\<lparr>remaining_tick := thread_init_tick th\<rparr>"
    have ct: "threads ?c = (threads s)(t \<mapsto> ?t)" "tlists ?c = tlists s" "rt_current_thread ?c = Some t"
      "timers ?c = timers s" "rt_timer_list ?c = rt_timer_list s" "rt_tick ?c = rt_tick s + 1"
      "rt_scheduler_lock_nest ?c = rt_scheduler_lock_nest s"
      using cur by (simp_all add: upd_thread_def)
    have tt: "threads ?c t = Some ?t" using ct(1) by simp
    from c have kw: "kernel_wf ?c" and run: "runnable ?c" by (simp_all add: clock_wf_def)
    obtain y where y: "rt_thread_yield ?c = Some (RT_EOK, y)" "same_rest ?c y" "threads y = threads ?c"
      "rt_timer_list y = rt_timer_list ?c" "timers y = timers ?c"
      "if stat_of ?t = RT_THREAD_READY \<and> 2 \<le> length (tlists ?c (Ready (unat (current_priority ?t))))
            then tlists y = ls_insert_before (Ready (unat (current_priority ?t))) t (ls_remove t (tlists ?c)) \<and>
                 (rt_scheduler_lock_nest ?c = 0 \<longrightarrow> runs_highest y)
            else y = ?c"
      using rt_thread_yield_rotates [OF kw run ct(3) tt] by blast
    have wy: "clock_wf y" using clock_wf_yield [OF c] y(1) by auto
    have "rt_tick_increase cb s = rt_timer_check cb y"
      using cur y(1) True by (simp add: rt_tick_increase_def rt_thread_self_def Let_def)
    moreover have "slice_charged t th s y"
      using y(3-6) ct same_restD(7) [OF y(2)] True unfolding slice_charged_def by (auto simp: Let_def split: if_splits)
    ultimately show thesis using that wy by blast
  qed
qed

lemma until_next_tick:
  assumes "rt_tick d = rt_tick s + 1" "timers d = timers s"
  shows "until d tm = until s tm - 1"
  using assms by (simp add: until_def due_in_def timeout_of_def)

lemma rt_tick_increase_ends:
  assumes wf: "clock_wf s" and cb: "callback_ok cb"
    and future: "\<forall>tm \<in> set (rt_timer_list s). until s tm \<noteq> 0"
  shows "\<exists>s'. rt_tick_increase cb s = Some s' \<and> clock_wf s' \<and> rt_tick s' = rt_tick s + 1 \<and> expired s' = []"
proof (rule tick_slice [OF wf future])
  fix d
  assume "rt_tick_increase cb s = rt_timer_check cb d" "clock_wf d" "rt_tick d = rt_tick s + 1"
  then show ?thesis using rt_timer_check_ends [OF _ cb, of d] by auto
qed

section \<open>Ticks in a row\<close>

fun ticks :: "(nat \<Rightarrow> kernel \<Rightarrow> kernel option) \<Rightarrow> nat \<Rightarrow> kernel \<Rightarrow> kernel option" where
  "ticks cb 0 s = Some s"
| "ticks cb (Suc n) s = do { s \<leftarrow> rt_tick_increase cb s; ticks cb n s }"

text \<open>Every running timer is a thread's, and none is overdue.\<close>

definition only_threads :: "kernel \<Rightarrow> bool" where
  "only_threads s \<longleftrightarrow>
     (\<forall>tm \<in> set (rt_timer_list s). until s tm \<noteq> 0 \<and> (\<exists>t. tm = ThreadTimer t))"

lemma pred_cases:
  assumes "(k :: u32) \<noteq> 0"
  shows "1 < k - 1 \<longleftrightarrow> 2 < k" "k - 1 \<le> 1 \<longleftrightarrow> k \<le> 2"
proof -
  have u: "unat (k - 1) = unat k - 1" "unat k \<noteq> 0" using assms by (simp_all add: unat_minus_one unat_eq_0)
  show "1 < k - 1 \<longleftrightarrow> 2 < k" "k - 1 \<le> 1 \<longleftrightarrow> k \<le> 2"
    using u by (auto simp: word_less_nat_alt word_le_nat_alt)
qed

lemma tick_threads:
  assumes wf: "clock_wf s" and o: "only_threads s"
  obtains s' where "rt_tick_increase cb s = Some s'" "clock_wf s'" "only_threads s'"
    "rt_tick s' = rt_tick s + 1" "timers s' = timers s"
    "rt_timer_list s' = filter (\<lambda>tm. 2 < until s tm) (rt_timer_list s)"
    "\<forall>u. map_option (\<lambda>x. (stat_of x, thread_error x)) (threads s' u) =
       map_option (\<lambda>x. if ThreadTimer u \<in> set (rt_timer_list s) \<and> until s (ThreadTimer u) \<le> 2
                        then (RT_THREAD_READY, - RT_ETIMEOUT) else (stat_of x, thread_error x)) (threads s u)"
proof -
  have future: "\<forall>tm \<in> set (rt_timer_list s). until s tm \<noteq> 0" using o by (auto simp: only_threads_def)
  obtain d where d: "rt_tick_increase cb s = rt_timer_check cb d" "clock_wf d" "rt_tick d = rt_tick s + 1"
    "timers d = timers s" "rt_timer_list d = rt_timer_list s"
    "\<forall>u. map_option (\<lambda>x. (stat_of x, thread_error x)) (threads d u) =
          map_option (\<lambda>x. (stat_of x, thread_error x)) (threads s u)"
    using tick_slice [OF wf future, of cb] .
  have un: "until d tm = until s tm - 1" for tm
    using d(3,4) by (simp add: until_def due_in_def timeout_of_def)
  have ex: "tm \<in> set (expired d) \<longleftrightarrow> tm \<in> set (rt_timer_list s) \<and> until s tm \<le> 2" for tm
    using pred_cases(2) future by (auto simp: expired_def d(5) un)
  have th: "\<forall>tm \<in> set (expired d). \<exists>t. tm = ThreadTimer t" using o ex by (auto simp: only_threads_def)
  obtain s' where s': "rt_timer_check cb d = Some s'" "clock_wf s'" "same_rest d s'" "timers s' = timers d"
    "rt_timer_list s' = filter (\<lambda>tm. 1 < until d tm) (rt_timer_list d)"
    "threads s' = (\<lambda>t. if ThreadTimer t \<in> set (expired d)
             then map_option (\<lambda>th. set_stat RT_THREAD_READY (th\<lparr>thread_error := - RT_ETIMEOUT\<rparr>)) (threads d t)
             else threads d t)"
    using rt_timer_check_threads [OF d(2) th] by blast
  have tk: "rt_tick s' = rt_tick s + 1" using same_restD(7) [OF s'(3)] d(3) by simp
  have l: "rt_timer_list s' = filter (\<lambda>tm. 2 < until s tm) (rt_timer_list s)"
    unfolding s'(5) d(5) un using pred_cases(1) future by (intro filter_cong) auto
  have "until s' tm = until s tm - 1" for tm
    using tk s'(4) d(4) by (simp add: until_def due_in_def timeout_of_def)
  then have "only_threads s'" using o pred_cases(1) future by (auto simp: only_threads_def l)
  moreover have "map_option (\<lambda>x. (stat_of x, thread_error x)) (threads s' u) =
       map_option (\<lambda>x. if ThreadTimer u \<in> set (rt_timer_list s) \<and> until s (ThreadTimer u) \<le> 2
                        then (RT_THREAD_READY, - RT_ETIMEOUT) else (stat_of x, thread_error x)) (threads s u)" for u
    using spec [OF d(6), of u] by (cases "threads s u"; cases "threads d u") (simp_all add: s'(6) ex)
  ultimately show thesis using that d(1) s'(1,2,4) tk l d(4) by simp
qed

text \<open>A thread whose timer is due in \<open>d\<close> ticks is suspended until the \<open>d\<close>-th tick and ready from then.\<close>

lemma wakes_on_time:
  assumes "clock_wf s" "only_threads s" "ThreadTimer t \<in> set (rt_timer_list s)"
    and "unat (due_in s (ThreadTimer t)) = d" "0 < d" "k \<le> d"
  shows "\<exists>s' th. ticks cb k s = Some s' \<and> clock_wf s' \<and> threads s' t = Some th \<and>
           (if k < d then stat_of th = RT_THREAD_SUSPEND
            else stat_of th = RT_THREAD_READY \<and> thread_error th = - RT_ETIMEOUT)"
  using assms
proof (induction k arbitrary: s d)
  case 0
  then obtain th where "threads s t = Some th" "stat_of th = RT_THREAD_SUSPEND"
    using threads_wfD(2) [OF kernel_wfD(4)] by (auto simp: clock_wf_def)
  with 0 show ?case by simp
next
  case (Suc k)
  have lt: "unat (until s (ThreadTimer t)) < 0x80000000"
    using timers_wfD(5) [OF kernel_wfD(2) Suc.prems(3)] Suc.prems(1) by (simp add: clock_wf_def word_less_nat_alt)
  have nz: "until s (ThreadTimer t) \<noteq> 0" using Suc.prems(2,3) by (auto simp: only_threads_def)
  have un: "unat (until s (ThreadTimer t)) = d + 1"
    using Suc.prems(4) nz unatSuc [of "due_in s (ThreadTimer t)"] by (simp add: until_def add.commute)
  obtain s' where s': "rt_tick_increase cb s = Some s'" "clock_wf s'" "only_threads s'"
    "rt_tick s' = rt_tick s + 1" "timers s' = timers s"
    "rt_timer_list s' = filter (\<lambda>tm. 2 < until s tm) (rt_timer_list s)"
    "\<forall>u. map_option (\<lambda>x. (stat_of x, thread_error x)) (threads s' u) =
       map_option (\<lambda>x. if ThreadTimer u \<in> set (rt_timer_list s) \<and> until s (ThreadTimer u) \<le> 2
                        then (RT_THREAD_READY, - RT_ETIMEOUT) else (stat_of x, thread_error x)) (threads s u)"
    using tick_threads [OF Suc.prems(1,2), of cb] .
  show ?case
  proof (cases "d = 1")
    case True
    then have "until s (ThreadTimer t) \<le> 2" using un by (simp add: word_le_nat_alt)
    moreover obtain th where "threads s t = Some th"
      using threads_wfD(2) [OF kernel_wfD(4) Suc.prems(3)] Suc.prems(1) by (auto simp: clock_wf_def)
    ultimately show ?thesis using True Suc.prems(3,6) s'(1,2) spec [OF s'(7), of t] by auto
  next
    case False
    then have two: "2 < until s (ThreadTimer t)" using un Suc.prems(5) by (simp add: word_less_nat_alt)
    have "due_in s' (ThreadTimer t) = due_in s (ThreadTimer t) - 1"
      using s'(4,5) by (simp add: due_in_def timeout_of_def)
    moreover have "due_in s (ThreadTimer t) \<noteq> 0" using Suc.prems(4,5) by (auto simp: unat_eq_0 [symmetric])
    ultimately have "unat (due_in s' (ThreadTimer t)) = d - 1" using Suc.prems(4) by (simp add: unat_minus_one)
    moreover have "ThreadTimer t \<in> set (rt_timer_list s')" using two Suc.prems(3) by (simp add: s'(6))
    ultimately have "\<exists>s'' th. ticks cb k s' = Some s'' \<and> clock_wf s'' \<and> threads s'' t = Some th \<and>
           (if k < d - 1 then stat_of th = RT_THREAD_SUSPEND
            else stat_of th = RT_THREAD_READY \<and> thread_error th = - RT_ETIMEOUT)"
      using Suc.IH [OF s'(2,3), of "d - 1"] False Suc.prems(5,6) by auto
    then show ?thesis using s'(1) by (simp add: less_diff_conv)
  qed
qed

text \<open>Going to sleep sets such a timer.\<close>

lemma clock_wf_sleep:
  assumes wf: "clock_wf s" "only_threads s" and cur: "rt_current_thread s = Some t" "threads s t = Some th"
      "stat_of th = RT_THREAD_READY" and n: "n < RT_TICK_MAX div 2" and run: "runnable_without t s"
  obtains s' where "rt_thread_sleep n s = Some (Pending, s')" "clock_wf s'" "only_threads s'"
    "ThreadTimer t \<in> set (rt_timer_list s')" "due_in s' (ThreadTimer t) = n"
proof -
  from wf have kw: "kernel_wf s" and pk: "periodic_ok s" by (simp_all add: clock_wf_def)
  obtain s' where s': "rt_thread_sleep n s = Some (Pending, s')" "kernel_wf s'" "same_rest s s'"
    "threads s' = (threads s)(t \<mapsto> set_stat RT_THREAD_SUSPEND th)"
    "ThreadTimer t \<in> set (rt_timer_list s')" "due_in s' (ThreadTimer t) = n"
    "set (rt_timer_list s') = insert (ThreadTimer t) (set (rt_timer_list s))"
    "\<forall>tm. tm \<noteq> ThreadTimer t \<longrightarrow> timers s' tm = timers s tm" "cur_ok s'" "runnable s'"
    using rt_thread_sleep_suspends [OF kw cur n run] by blast
  have nu: "n + 1 \<noteq> 0" using plus_one_small(2) [OF n] .
  have un: "until s' tm = until s tm" if "tm \<noteq> ThreadTimer t" for tm
    using that s'(8) same_restD(7) [OF s'(3)] by (simp add: until_def due_in_def timeout_of_def)
  have "only_threads s'" unfolding only_threads_def
  proof
    fix tm assume tm: "tm \<in> set (rt_timer_list s')"
    show "until s' tm \<noteq> 0 \<and> (\<exists>t. tm = ThreadTimer t)"
    proof (cases "tm = ThreadTimer t")
      case True
      then show ?thesis using s'(6) nu by (simp add: until_def)
    next
      case False
      then show ?thesis using tm s'(7) un wf(2) by (auto simp: only_threads_def)
    qed
  qed
  moreover have "periodic_ok s'"
  proof -
    have "obj_flag x AND RT_TIMER_FLAG_PERIODIC = 0"
      if "objects s' (OTimer (ThreadTimer t)) = Some x" for x
      using threads_wfD(1) [OF kernel_wfD(4) [OF s'(2)], of t] s'(4) that by (auto elim!: thread_objE)
    moreover have "timer_init_tick y \<noteq> 0 \<and> timer_init_tick y < RT_TICK_MAX div 2"
      if a: "timers s' tm = Some y" "objects s' (OTimer tm) = Some x" "obj_flag x AND RT_TIMER_FLAG_PERIODIC \<noteq> 0"
        "tm \<noteq> ThreadTimer t" for tm x y
    proof -
      obtain z where z: "objects s (OTimer tm) = Some z" "obj_view z = obj_view x"
        using same_rest_view [OF s'(3), of "OTimer tm"] a(2) by (cases "objects s (OTimer tm)") auto
      have "obj_flag z AND 2 = obj_flag x AND 2"
        using z(2) flag_periodic [of "obj_flag z" "obj_flag x"] by (simp add: obj_view_def)
      then show ?thesis using periodic_okD(1) [OF pk _ z(1), of y] a s'(8) by simp
    qed
    moreover have "\<exists>k. timeout_func y = User_timeout k" if "timers s' (UserTimer m) = Some y" for m y
      using periodic_okD(2) [OF pk, of m y] that s'(8) by simp
    ultimately show ?thesis unfolding periodic_ok_def by blast
  qed
  ultimately show thesis using that s' by (simp add: clock_wf_def)
qed

end
