(* ===== verification/Sample.thy ===== *)
theory Sample
  imports Clock
begin

text \<open>
  A concrete kernel state on which the properties are applied: the idle thread 0 (priority 31),
  the running thread 1 (priority 10), thread 2 (priority 5) waiting on semaphore 0 with its timer
  due in five ticks, the ready thread 3 (priority 20) that owns mutex 0, and thread 4, not yet
  started. One object of each IPC class is idle.
\<close>

definition demo_thread :: "u8 \<Rightarrow> u8 \<Rightarrow> rt_thread" where
  "demo_thread p st =
     \<lparr>entry = 0x08000100, parameter = 0, sp = 0x20000180, stack_addr = 0x20000000, stack_size = 0x200,
      stack_guard = 0x23, thread_error = 0, stat = st, current_priority = p, init_priority = p,
      number_mask = (if st = RT_THREAD_INIT then 0 else 2 ^ unat p), event_set = 0, event_info = 0,
      thread_init_tick = 10, remaining_tick = 1, cleanup = None, user_data = 0\<rparr>"

definition demo_name :: "u8 list" where
  "demo_name = [0x74, 0, 0, 0, 0, 0, 0, 0]"

definition demo_object :: "u8 \<Rightarrow> u8 \<Rightarrow> rt_object" where
  "demo_object ty fl = \<lparr>obj_name = demo_name, obj_type = ty OR RT_Object_Class_Static, obj_flag = fl\<rparr>"

fun demo_objects :: "oid \<Rightarrow> rt_object option" where
  "demo_objects (OThread t) = (if t < 5 then Some (demo_object RT_Object_Class_Thread 0) else None)"
| "demo_objects (OTimer (ThreadTimer t)) =
     (if t < 5 then Some (demo_object RT_Object_Class_Timer (if t = 2 then 1 else 0)) else None)"
| "demo_objects (OTimer (UserTimer n)) = None"
| "demo_objects (OSem n) = (if n < 2 then Some (demo_object RT_Object_Class_Semaphore (of_nat n)) else None)"
| "demo_objects (OMutex n) = (if n < 2 then Some (demo_object RT_Object_Class_Mutex RT_IPC_FLAG_PRIO) else None)"
| "demo_objects (OEvent n) = (if n = 0 then Some (demo_object RT_Object_Class_Event RT_IPC_FLAG_FIFO) else None)"
| "demo_objects (OMailBox n) = (if n = 0 then Some (demo_object RT_Object_Class_MailBox RT_IPC_FLAG_FIFO) else None)"
| "demo_objects (OMsgQueue n) = (if n = 0 then Some (demo_object RT_Object_Class_MessageQueue RT_IPC_FLAG_FIFO) else None)"
| "demo_objects (OMemPool n) = (if n = 0 then Some (demo_object RT_Object_Class_MemPool 0) else None)"
| "demo_objects (OMemHeap n) = None"
| "demo_objects (ODevice n) = None"

fun demo_timers :: "timer_id \<Rightarrow> rt_timer option" where
  "demo_timers (ThreadTimer t) =
     (if t < 5 then Some \<lparr>timeout_func = Rt_thread_timeout t, timer_init_tick = 0,
                          timeout_tick = (if t = 2 then 100 else 0)\<rparr> else None)"
| "demo_timers (UserTimer n) = None"

definition demo :: kernel where
  "demo = kernel0\<lparr>rt_tick := 95, rt_current_thread := Some 1, rt_current_priority := 10,
     rt_thread_ready_priority_group := 2 ^ 10 OR 2 ^ 20 OR 2 ^ 31,
     tlists := (\<lambda>_. [])(Ready 10 := [1], Ready 20 := [3], Ready 31 := [0], SuspendQ (OSem 0) := [2]),
     threads := Map.empty(0 \<mapsto> demo_thread 31 RT_THREAD_READY, 1 \<mapsto> demo_thread 10 RT_THREAD_READY,
        2 \<mapsto> demo_thread 5 RT_THREAD_SUSPEND, 3 \<mapsto> demo_thread 20 RT_THREAD_READY,
        4 \<mapsto> demo_thread 7 RT_THREAD_INIT),
     rt_timer_list := [ThreadTimer 2], timers := demo_timers, objects := demo_objects,
     containers := (\<lambda>_. [])(RT_Object_Class_Thread := map OThread [4, 3, 2, 1, 0],
        RT_Object_Class_Semaphore := [OSem 1, OSem 0]),
     sems := Map.empty(0 \<mapsto> \<lparr>sem_value = 0\<rparr>, 1 \<mapsto> \<lparr>sem_value = 3\<rparr>),
     mutexes := Map.empty(0 \<mapsto> \<lparr>mutex_value = 0, original_priority = 20, hold = 1, owner = Some 3\<rparr>,
        1 \<mapsto> \<lparr>mutex_value = 1, original_priority = 0xff, hold = 0, owner = None\<rparr>),
     events := Map.empty(0 \<mapsto> \<lparr>event_bits = 0\<rparr>),
     mailboxes := Map.empty(0 \<mapsto> \<lparr>mb_pool = [0, 0], mb_size = 2, mb_entry = 0, in_offset = 0, out_offset = 0\<rparr>)\<rparr>"

lemma demo_sel [simp]:
  "rt_tick demo = 95" "rt_current_thread demo = Some 1" "rt_timer_list demo = [ThreadTimer 2]"
  "rt_scheduler_lock_nest demo = 0" "rt_interrupt_nest demo = 0"
  "rt_thread_ready_priority_group demo = 2 ^ 10 OR 2 ^ 20 OR 2 ^ 31"
  "tlists demo = (\<lambda>_. [])(Ready 10 := [1], Ready 20 := [3], Ready 31 := [0], SuspendQ (OSem 0) := [2])"
  "threads demo = Map.empty(0 \<mapsto> demo_thread 31 RT_THREAD_READY, 1 \<mapsto> demo_thread 10 RT_THREAD_READY,
        2 \<mapsto> demo_thread 5 RT_THREAD_SUSPEND, 3 \<mapsto> demo_thread 20 RT_THREAD_READY,
        4 \<mapsto> demo_thread 7 RT_THREAD_INIT)"
  "timers demo = demo_timers" "objects demo = demo_objects"
  "containers demo = (\<lambda>_. [])(RT_Object_Class_Thread := map OThread [4, 3, 2, 1, 0],
        RT_Object_Class_Semaphore := [OSem 1, OSem 0])"
  by (simp_all add: demo_def kernel0_def)

lemma demo_ipc [simp]:
  "sems demo = Map.empty(0 \<mapsto> \<lparr>sem_value = 0\<rparr>, 1 \<mapsto> \<lparr>sem_value = 3\<rparr>)"
  "mutexes demo = Map.empty(0 \<mapsto> \<lparr>mutex_value = 0, original_priority = 20, hold = 1, owner = Some 3\<rparr>,
        1 \<mapsto> \<lparr>mutex_value = 1, original_priority = 0xff, hold = 0, owner = None\<rparr>)"
  "events demo = Map.empty(0 \<mapsto> \<lparr>event_bits = 0\<rparr>)"
  "mailboxes demo = Map.empty(0 \<mapsto> \<lparr>mb_pool = [0, 0], mb_size = 2, mb_entry = 0, in_offset = 0, out_offset = 0\<rparr>)"
  by (simp_all add: demo_def kernel0_def)

lemma demo_thread_sel [simp]:
  "stat_of (demo_thread p 0) = 0" "stat_of (demo_thread p 1) = 1" "stat_of (demo_thread p 2) = 2"
  "current_priority (demo_thread p st) = p" "init_priority (demo_thread p st) = p"
  "number_mask (demo_thread p st) = (if st = 0 then 0 else 2 ^ unat p)"
  "rt_scheduler_stack_check (demo_thread p st) = Some ()"
  "thread_error (demo_thread p st) = 0" "stat (demo_thread p st) = st" "cleanup (demo_thread p st) = None"
  "remaining_tick (demo_thread p st) = 1"
  by (simp_all add: demo_thread_def stat_of_def rt_scheduler_stack_check_def)

lemma demo_object_sel [simp]:
  "obj_name (demo_object ty fl) = demo_name" "obj_type (demo_object ty fl) = ty OR 0x80"
  "obj_flag (demo_object ty fl) = fl" "length demo_name = RT_NAME_MAX"
  by (simp_all add: demo_object_def demo_name_def RT_NAME_MAX_def)

lemma demo_sched_wf: "sched_wf demo"
proof -
  have "lists_wf (tlists demo)" by (auto simp: lists_wf_def split: if_splits)
  moreover have "\<exists>th. threads demo t = Some th \<and>
           (case h of
              Ready p \<Rightarrow> stat_of th = RT_THREAD_READY \<and> p = unat (current_priority th)
            | Defunct \<Rightarrow> stat_of th = RT_THREAD_CLOSE
            | _ \<Rightarrow> stat_of th = RT_THREAD_SUSPEND)" if "t \<in> set (tlists demo h)" for h t
    using that by (auto split: if_splits)
  moreover have "unat (current_priority th) < RT_THREAD_PRIORITY_MAX \<and> mask_ok th \<and>
        (stat_of th = RT_THREAD_READY \<longrightarrow> t \<in> set (tlists demo (Ready (unat (current_priority th)))))"
    if "threads demo t = Some th" for t th
    using that by (auto simp: RT_THREAD_PRIORITY_MAX_def mask_ok_def prio_mask_def split: if_splits)
  moreover have "bit (rt_thread_ready_priority_group demo) p \<longleftrightarrow> tlists demo (Ready p) \<noteq> []"
    if "p < RT_THREAD_PRIORITY_MAX" for p
    using that unfolding demo_sel bit_or_iff bit_exp_iff by (auto simp: RT_THREAD_PRIORITY_MAX_def)
  ultimately show ?thesis unfolding sched_wf_def by blast
qed

lemma demo_wf: "kernel_wf demo"
proof -
  have "timers_wf demo"
    by (simp add: timers_wf_def is_timer_def timer_active_def until_def due_in_def timeout_of_def)
  moreover have "objects_wf demo"
  proof -
    have "length (obj_name x) = RT_NAME_MAX" if "demo_objects ob = Some x" for ob x
      using that by (cases ob rule: demo_objects.cases) (auto split: if_splits)
    moreover have "lists_wf (containers demo)" by (auto simp: lists_wf_def split: if_splits)
    ultimately show ?thesis by (auto simp: objects_wf_def split: if_splits)
  qed
  moreover have "threads_wf demo"
    by (auto simp: threads_wf_def thread_obj_def split: if_splits)
  ultimately show ?thesis using demo_sched_wf by (simp add: kernel_wf_def)
qed

lemma demo_runnable: "runnable demo" "runnable_without 1 demo"
proof -
  have s: "stacks_ok demo" by (auto simp: stacks_ok_def split: if_splits)
  have r: "threads demo 0 = Some (demo_thread 31 1)" by simp
  show "runnable demo" "runnable_without 1 demo"
    unfolding runnable_def runnable_without_def using s r by (metis demo_thread_sel(2) zero_neq_one)+
qed

lemma demo_clock: "clock_wf demo"
proof -
  have "periodic_ok demo"
  proof -
    have "obj_flag x AND 2 = 0" if "demo_objects (OTimer tm) = Some x" for tm x
      using that by (cases tm) (auto split: if_splits)
    then show ?thesis by (auto simp: periodic_ok_def)
  qed
  then show ?thesis using demo_wf demo_runnable by (simp add: clock_wf_def cur_ok_def)
qed

end
