(* ===== verification/KernelProps.thy ===== *)
theory KernelProps
  imports Sample
begin

text \<open>
  Properties of the kernel's services, its lists, objects, timers, scheduler and threads, each with
  its application to concrete data where it has hypotheses.
\<close>

section \<open>Lists and library routines\<close>

text \<open>
  The doubly linked rings implement sequences: taking a node off whatever list it is on and
  queueing it at the end of a list, done by pointer writes, is the removal from every sequence and
  the append to one, and all other lists stay as they are.
\<close>

theorem ring_requeue:
  assumes "store_rep hd_of nd_of H S"
  shows "store_rep hd_of nd_of (rt_list_insert_before (hd_of h) (nd_of n) (rt_list_remove (nd_of n) H))
           (ls_insert_before h n (ls_remove n S))"
  using assms by (rule ring.requeue)

text \<open>Two list heads at addresses 0 and 1, two nodes at 2 and 3, both on the first list.\<close>

definition two_heads :: "bool \<Rightarrow> addr" where "two_heads b = (if b then 1 else 0)"
definition two_nodes :: "bool \<Rightarrow> addr" where "two_nodes b = (if b then 3 else 2)"

definition two_lists :: "(bool, bool) store" where
  "two_lists = (\<lambda>_. [])(False := [False, True])"

definition two_ring :: list_heap where
  "two_ring = \<lparr>nxt = id(0 := 2, 2 := 3, 3 := 0), prv = id(0 := 3, 2 := 0, 3 := 2)\<rparr>"

lemma two_ring_rep: "store_rep two_heads two_nodes two_ring two_lists"
  by (auto simp: store_rep_def two_heads_def two_nodes_def two_lists_def two_ring_def inj_def lists_wf_def
      unlinked_def dlist_def split: if_splits)

theorem ring_requeue_witness:
  "store_rep two_heads two_nodes (rt_list_insert_before 1 2 (rt_list_remove 2 two_ring))
     ((\<lambda>_. [])(False := [True], True := [False]))"
proof -
  have "ls_insert_before True False (ls_remove False two_lists) = (\<lambda>_. [])(False := [True], True := [False])"
    by (auto simp: two_lists_def ls_insert_before_def ls_remove_def fun_eq_iff)
  then show ?thesis using ring_requeue [OF two_ring_rep, of True False]
    by (simp add: two_heads_def two_nodes_def)
qed

text \<open>(C40) \<^verbatim>\<open>__rt_ffs\<close> gives the position of the lowest set bit, counted from one, and 0 for 0.\<close>

theorem rt_ffs_is_lowest: "rt_ffs v = (if v = 0 then 0 else Suc (LEAST i. bit v i))"
proof (cases "v = 0")
  case False
  have l: "0 < rt_ffs v" "bit v (rt_ffs v - 1)" "\<And>i. bit v i \<Longrightarrow> rt_ffs v - 1 \<le> i"
    using rt_ffs_lowest [OF False] by (auto simp: not_less [symmetric])
  have "(LEAST i. bit v i) = rt_ffs v - 1" using l(2,3) by (rule Least_equality)
  then show ?thesis using False l(1) by simp
qed simp

text \<open>
  \<^verbatim>\<open>rt_memmove\<close> moves the bytes as they were before the call, whether or not
  the two areas overlap, and writes nowhere else.
\<close>

theorem rt_memmove_moves:
  "rt_memmove d s n m = (\<lambda>a. if d \<le> a \<and> a < d + n then m (s + (a - d)) else m a)"
  unfolding rt_memmove_copied by (simp add: copied_def)

text \<open>
  \<^verbatim>\<open>rt_memset\<close>, with its aligned word stores, fills exactly the given bytes with
  the low byte of the value.
\<close>

theorem rt_memset_fills:
  "rt_memset s c n m = (\<lambda>a. if s \<le> a \<and> a < s + n then ucast (c AND 0xff) else m a)"
  unfolding rt_memset_filled by (simp add: filled_def)

section \<open>Scheduling\<close>

text \<open>
  (C1) With the scheduler unlocked and some thread ready, \<^verbatim>\<open>rt_schedule\<close> returns and
  the current thread is the first of the most urgent ready threads; it changes nothing but the
  current thread and the current priority.
\<close>

theorem schedule_runs_highest:
  assumes "sched_wf s" "runnable s" "rt_scheduler_lock_nest s = 0"
  shows "\<exists>s' p c. rt_schedule s = Some s' \<and> runs_highest s' \<and>
           s' = s\<lparr>rt_current_priority := p, rt_current_thread := c\<rparr>"
  using rt_schedule_picks [OF assms(1,2)] assms(3) rt_schedule_frame by blast

theorem schedule_runs_highest_witness:
  "\<exists>s'. rt_schedule demo = Some s' \<and> runs_highest s'"
  using schedule_runs_highest [OF demo_sched_wf demo_runnable(1)] by auto

text \<open>
  Time slicing is round robin: a ready thread that yields while others of its priority are ready
  goes behind them, and when it was running as the most urgent thread the next one in line runs.
\<close>

theorem yield_round_robin:
  assumes wf: "kernel_wf s" and run: "runnable s" "rt_scheduler_lock_nest s = 0" "runs_highest s"
    and cur: "rt_current_thread s = Some t" "threads s t = Some th"
    and line: "tlists s (Ready (unat (current_priority th))) = t # u # q"
  shows "\<exists>s'. rt_thread_yield s = Some (RT_EOK, s') \<and> kernel_wf s' \<and>
           tlists s' (Ready (unat (current_priority th))) = u # q @ [t] \<and> rt_current_thread s' = Some u"
proof -
  let ?h = "Ready (unat (current_priority th))"
  have rdy: "stat_of th = RT_THREAD_READY" and top: "\<And>v vh. threads s v = Some vh \<Longrightarrow>
      stat_of vh = RT_THREAD_READY \<Longrightarrow> current_priority th \<le> current_priority vh"
    using run(3) cur by (auto simp: runs_highest_def)
  obtain s' where s': "rt_thread_yield s = Some (RT_EOK, s')" "kernel_wf s'" "threads s' = threads s"
    "tlists s' = ls_insert_before ?h t (ls_remove t (tlists s))" "runs_highest s'"
    using rt_thread_yield_rotates [OF wf run(1) cur] rdy line run(2) by auto
  have "distinct (t # u # q)"
    using lists_wf_distinct [OF sched_wf_lists [OF kernel_wfD(1) [OF wf]], of ?h] line by simp
  then have l: "tlists s' ?h = u # q @ [t]" using s'(4) line by (simp add: ls_insert_before_def ls_remove_def)
  obtain c ch where c: "rt_current_thread s' = Some c" "threads s c = Some ch" "stat_of ch = RT_THREAD_READY"
    "c = hd (tlists s' (Ready (unat (current_priority ch))))"
    "\<And>v vh. threads s v = Some vh \<Longrightarrow> stat_of vh = RT_THREAD_READY \<Longrightarrow> current_priority ch \<le> current_priority vh"
    using s'(5) s'(3) by (auto simp: runs_highest_def)
  have "current_priority ch = current_priority th"
    using top [OF c(2,3)] c(5) [OF cur(2) rdy] by (rule antisym [rotated])
  then have "c = u" using c(4) l by simp
  then show ?thesis using s' l c(1) by blast
qed

text \<open>The sample state with thread 3 moved to the running thread's priority.\<close>

definition demo_pair :: kernel where
  "demo_pair = reprioritised 3 (demo_thread 20 RT_THREAD_READY) 10 demo"

lemma demo_pair_wf: "kernel_wf demo_pair" "change_priority 3 10 demo = Some demo_pair"
  using reprioritised_wf [OF demo_wf, of 3 "demo_thread 20 1" 10]
    change_priority_eq [OF demo_wf, of 3 "demo_thread 20 1" 10]
  by (simp_all add: demo_pair_def RT_THREAD_PRIORITY_MAX_def)

lemma demo_pair_sel [simp]:
  "threads demo_pair = (threads demo)(3 \<mapsto> with_prio 10 (demo_thread 20 RT_THREAD_READY))"
  "rt_current_thread demo_pair = Some 1" "rt_scheduler_lock_nest demo_pair = 0"
  "tlists demo_pair = ls_insert_before (Ready 10) 3 (ls_remove 3 (tlists demo))"
  by (simp_all add: demo_pair_def reprioritised_def)

lemma demo_pair_runs: "runnable demo_pair" "runs_highest demo_pair"
proof -
  have "stacks_ok demo_pair" by (auto simp: stacks_ok_def split: if_splits)
  moreover have "threads demo_pair 1 = Some (demo_thread 10 1)" by simp
  ultimately show "runnable demo_pair" unfolding runnable_def by (metis demo_thread_sel(2))
  show "runs_highest demo_pair"
    unfolding runs_highest_def
    by (rule exI [of _ 1], rule exI [of _ "demo_thread 10 1"])
       (auto simp: ls_insert_before_def ls_remove_def word_le_nat_alt split: if_splits)
qed

theorem yield_round_robin_witness:
  "\<exists>s'. rt_thread_yield demo_pair = Some (RT_EOK, s') \<and> tlists s' (Ready 10) = [3, 1] \<and>
     rt_current_thread s' = Some 3"
  using yield_round_robin [OF demo_pair_wf(1) demo_pair_runs(1) _ demo_pair_runs(2), of 1 "demo_thread 10 1" 3 "[]"]
  by (auto simp: ls_insert_before_def ls_remove_def)

text \<open>
  Changing the priority of a thread keeps the ready table, its bitmap and the thread's state in
  agreement: a ready thread moves to the end of the list of its new priority, any other thread
  stays on the list it is on.
\<close>

theorem change_priority_moves:
  assumes "kernel_wf s" "threads s t = Some th" "stat_of th \<noteq> RT_THREAD_CLOSE"
    and "unat p < RT_THREAD_PRIORITY_MAX"
  shows "\<exists>s'. rt_thread_control t RT_THREAD_CTRL_CHANGE_PRIORITY p s = Some (RT_EOK, s') \<and> kernel_wf s' \<and>
           threads s' = (threads s)(t \<mapsto> with_prio p th) \<and>
           tlists s' = (if stat_of th = RT_THREAD_READY
             then ls_insert_before (Ready (unat p)) t (ls_remove t (tlists s)) else tlists s)"
proof -
  have "thread_obj s t" using threads_wfD(1) [OF kernel_wfD(4) [OF assms(1)] assms(2,3)] .
  from thread_obj_check [OF this] show ?thesis
    using change_priority_eq [OF assms(1,2,4)] reprioritised_wf [OF assms(1,2,4)]
    by (simp add: rt_thread_control_def reprioritised_def del: check_type_iff)
qed

theorem change_priority_moves_witness:
  "\<exists>s'. rt_thread_control 3 RT_THREAD_CTRL_CHANGE_PRIORITY 10 demo = Some (RT_EOK, s') \<and> kernel_wf s' \<and>
     tlists s' (Ready 10) = [1, 3]"
  using change_priority_moves [OF demo_wf, of 3 "demo_thread 20 1" 10]
  by (auto simp: RT_THREAD_PRIORITY_MAX_def ls_insert_before_def ls_remove_def)

text \<open>
  A priority of 32 or more is not checked: the control call shifts past the 32 bits of the
  priority mask, and for a ready thread indexes past the table, so it does not complete.
\<close>

theorem change_priority_unchecked:
  assumes "threads s t = Some th" "32 \<le> unat p"
  shows "rt_thread_control t RT_THREAD_CTRL_CHANGE_PRIORITY p s = None"
  using assms by (auto simp: rt_thread_control_def change_priority_def shift_one_def)

theorem change_priority_unchecked_witness:
  "rt_thread_control 3 RT_THREAD_CTRL_CHANGE_PRIORITY 32 demo = None"
  by (rule change_priority_unchecked) simp_all

section \<open>Life of a thread\<close>

text \<open>
  Initialising a thread on fresh storage and starting it: the thread is ready at the end of the
  list of its priority, with its name, timer and time slice set, and the most urgent ready thread runs;
  the invariant holds after both steps.
\<close>

theorem thread_init_startup:
  assumes wf: "kernel_wf s" "stacks_ok s" and new: "fresh_thread s t"
    and name: "terminated name \<or> RT_NAME_MAX \<le> length name"
    and p: "unat prio < RT_THREAD_PRIORITY_MAX"
    and st: "st \<noteq> 0" "80 \<le> unat sz" "unat st + unat sz < 2 ^ 32"
  shows "\<exists>s1 s2 th. rt_thread_init t name e par st sz prio tick texit s = Some (RT_EOK, s1) \<and> kernel_wf s1 \<and>
           rt_thread_startup t s1 = Some (RT_EOK, s2) \<and> kernel_wf s2 \<and>
           threads s2 t = Some th \<and> stat_of th = RT_THREAD_READY \<and> current_priority th = prio \<and>
           remaining_tick th = tick \<and> tlists s2 (Ready (unat prio)) = tlists s (Ready (unat prio)) @ [t] \<and>
           (rt_current_thread s \<noteq> None \<and> rt_scheduler_lock_nest s = 0 \<longrightarrow> runs_highest s2)"
proof -
  obtain s1 th where i: "rt_thread_init t name e par st sz prio tick texit s = Some (RT_EOK, s1)" "kernel_wf s1"
    "threads s1 = (threads s)(t \<mapsto> th)" "stat_of th = RT_THREAD_INIT" "init_priority th = prio"
    "current_priority th = prio" "remaining_tick th = tick" "unlinked t (tlists s1)" "tlists s1 = tlists s"
    "rt_current_thread s1 = rt_current_thread s" "rt_scheduler_lock_nest s1 = rt_scheduler_lock_nest s"
    "sp th = fst (rt_hw_stack_init e par (st + sz - 4) texit)" "stack_addr th = st" "stack_size th = sz"
    "stack_guard th = first_stack_byte st sz (sp th) (snd (rt_hw_stack_init e par (st + sz - 4) texit))"
    using rt_thread_init_ready [OF wf(1) new name p st(1)] by blast
  note fit = stack_frame_fits [OF st(2,3) prod.collapse [symmetric], of e par texit]
  have chk: "rt_scheduler_stack_check th = Some ()"
    using i(12-15) fit st(3)
    by (simp add: rt_scheduler_stack_check_def word_le_nat_alt word_less_nat_alt unat_word_ariths not_le)
  have t1: "threads s1 t = Some th" using i(3) by simp
  let ?u = "started t th s1"
  have w: "kernel_wf ?u" "rt_thread_startup t s1 =
      do { s' \<leftarrow> (if rt_current_thread s1 \<noteq> None then rt_schedule ?u else Some ?u); Some (RT_EOK, s') }"
    using started_wf [OF i(2) t1 i(4)] p i(5) by simp_all
  have r: "runnable ?u"
    unfolding started_def
    by (rule runnable_readied) (use i(3) wf(2) chk in \<open>auto simp: stacks_ok_def rt_scheduler_stack_check_def with_prio_def\<close>)
  have l: "tlists ?u (Ready (unat prio)) = tlists s (Ready (unat prio)) @ [t]"
    using ls_remove_unlinked [OF i(8)] i(5,9) by (simp add: started_def ls_insert_before_def)
  have h: "\<exists>th'. threads ?u t = Some th' \<and> stat_of th' = RT_THREAD_READY \<and>
      current_priority th' = prio \<and> remaining_tick th' = tick"
    using i(5,7) by (simp add: started_def set_stat_def with_prio_def stat_of_def)
  show ?thesis
  proof (cases "rt_current_thread s")
    case None
    then show ?thesis using w i(1,2,10) l h by simp
  next
    case (Some c)
    obtain s2 where s2: "rt_schedule ?u = Some s2" "kernel_wf s2" "threads s2 = threads ?u" "tlists s2 = tlists ?u"
      "rt_scheduler_lock_nest ?u = 0 \<longrightarrow> runs_highest s2"
      using schedule_ends [OF w(1) r] by metis
    have "rt_scheduler_lock_nest ?u = rt_scheduler_lock_nest s" using i(11) by (simp add: started_def readied_def)
    then show ?thesis using Some w(2) i(1,2,10) s2 l h by auto
  qed
qed

text \<open>A terminated name, and the next free thread identifier of the sample state.\<close>

lemma demo_fresh: "fresh_thread demo 7"
  by (simp add: fresh_thread_def unlinked_def)

theorem thread_init_startup_witness:
  "\<exists>s1 s2. rt_thread_init 7 [0x77, 0] 0x08000200 0 0x20001000 512 3 20 0x08000300 demo = Some (RT_EOK, s1) \<and>
     rt_thread_startup 7 s1 = Some (RT_EOK, s2) \<and> tlists s2 (Ready 3) = [7] \<and> runs_highest s2"
  using thread_init_startup [OF demo_wf _ demo_fresh, where name = "[0x77, 0]" and prio = 3
      and st = "0x20001000" and sz = 512 and e = "0x08000200" and par = 0 and tick = 20 and texit = "0x08000300"]
    demo_runnable(1)
  by (auto simp: RT_THREAD_PRIORITY_MAX_def terminated_def runnable_def)

text \<open>
  Deleting a live thread takes it off every list, stops its timer and leaves it closed on the list
  of defunct threads for the idle thread.
\<close>

theorem thread_delete_defunct:
  assumes "kernel_wf s" "threads s t = Some th" "stat_of th \<noteq> RT_THREAD_CLOSE"
    and "rt_object_is_systemobject s (OThread t) = Some False"
  shows "\<exists>s'. rt_thread_delete t s = Some (RT_EOK, s') \<and> kernel_wf s' \<and>
           threads s' = (threads s)(t \<mapsto> th\<lparr>stat := RT_THREAD_CLOSE\<rparr>) \<and>
           tlists s' = ls_insert_after Defunct t (ls_remove t (tlists s)) \<and>
           ThreadTimer t \<notin> set (rt_timer_list s')"
  using assms by (rule rt_thread_delete_defunct)

text \<open>The sample state with thread 3 allocated from the heap.\<close>

definition demo_dynamic :: kernel where
  "demo_dynamic = demo\<lparr>objects := (objects demo)(OThread 3 \<mapsto>
     \<lparr>obj_name = demo_name, obj_type = RT_Object_Class_Thread, obj_flag = 0\<rparr>)\<rparr>"

lemma demo_dynamic_wf: "kernel_wf demo_dynamic"
proof -
  have "sched_wf demo_dynamic" by (rule sched_wf_cong [OF demo_sched_wf]) (simp_all add: demo_dynamic_def)
  moreover have "timers_wf demo_dynamic"
    by (rule timers_wf_cong [OF kernel_wfD(2) [OF demo_wf]]) (simp_all add: demo_dynamic_def)
  moreover have "objects_wf demo_dynamic"
    using kernel_wfD(3) [OF demo_wf] by (auto simp: objects_wf_def demo_dynamic_def split: if_splits)
  moreover have "threads_wf demo_dynamic"
    by (rule threads_wf_except [OF kernel_wfD(4) [OF demo_wf], of 3])
       (auto simp: demo_dynamic_def thread_obj_def)
  ultimately show ?thesis by (simp add: kernel_wf_def)
qed

theorem thread_delete_defunct_witness:
  "\<exists>s'. rt_thread_delete 3 demo_dynamic = Some (RT_EOK, s') \<and> tlists s' Defunct = [3] \<and> tlists s' (Ready 20) = []"
proof -
  have t: "threads demo_dynamic 3 = Some (demo_thread 20 1)" and l: "tlists demo_dynamic = tlists demo"
    and d: "rt_object_is_systemobject demo_dynamic (OThread 3) = Some False"
    by (simp_all add: demo_dynamic_def rt_object_is_systemobject_def)
  show ?thesis using thread_delete_defunct [OF demo_dynamic_wf t _ d]
    by (auto simp: l ls_insert_after_def ls_remove_def)
qed

section \<open>Time\<close>

text \<open>
  Starting a timer puts it on the list of active timers behind every timer due no later than it
  and in front of the rest, whatever the tick counter has wrapped to; the list stays in order of
  expiry, without duplicates.
\<close>

theorem timer_start_in_order:
  assumes "timers_wf s" "is_timer s tm" "timers s tm = Some t" "timer_init_tick t < RT_TICK_MAX div 2"
  shows "\<exists>s'. rt_timer_start tm s = Some (RT_EOK, s') \<and> timers_wf s' \<and>
           due_in s' tm = timer_init_tick t \<and>
           rt_timer_list s' =
             (let ys = removeAll tm (rt_timer_list s) in
              filter (\<lambda>x. until s x \<le> timer_init_tick t + 1) ys @ tm #
              filter (\<lambda>x. timer_init_tick t + 1 < until s x) ys)"
  using rt_timer_start_on [OF assms] timers_wf_on [OF assms] assms(3)
  by (auto simp: timer_on_def Let_def due_in_def timeout_of_def)

theorem timer_start_in_order_witness:
  "\<exists>s'. rt_timer_start (ThreadTimer 1) (upd_timer (ThreadTimer 1) (\<lambda>x. x\<lparr>timer_init_tick := 9\<rparr>) demo) =
     Some (RT_EOK, s') \<and> rt_timer_list s' = [ThreadTimer 2, ThreadTimer 1]"
proof -
  let ?u = "upd_timer (ThreadTimer 1) (\<lambda>x. x\<lparr>timer_init_tick := 9\<rparr>) demo"
  have w: "timers_wf ?u" using kernel_wfD(2) [OF upd_timer_init_wf [OF demo_wf]] .
  have t: "timers ?u (ThreadTimer 1) = Some \<lparr>timeout_func = Rt_thread_timeout 1, timer_init_tick = 9, timeout_tick = 0\<rparr>"
    by simp
  have i: "is_timer ?u (ThreadTimer 1)" by (simp add: is_timer_def)
  show ?thesis using timer_start_in_order [OF w i t]
    by (auto simp: Let_def until_def due_in_def timeout_of_def)
qed

text \<open>
  (C39) The check of the timers ends, whatever timers are running, provided that periodic timers have
  a period of at least one tick and the applications' timeout functions return without starting
  timers: no expired timer is left on the list and the invariant holds.
\<close>

theorem timer_check_ends:
  assumes "clock_wf s" "callback_ok cb"
  shows "\<exists>s'. rt_timer_check cb s = Some s' \<and> clock_wf s' \<and> expired s' = [] \<and> rt_tick s' = rt_tick s"
  using assms by (rule rt_timer_check_ends)

lemma idle_callback_ok: "callback_ok (\<lambda>k s. Some s)"
  by (simp add: callback_ok_def)

lemma idle_callback_in_order: "callback_in_order (\<lambda>k s. Some s)"
  by (auto simp: callback_in_order_def intro!: exI [of _ "\<lambda>_. True"])

theorem timer_check_ends_witness:
  "\<exists>s'. rt_timer_check (\<lambda>k s. Some s) demo = Some s' \<and> clock_wf s' \<and> expired s' = []"
  using timer_check_ends [OF demo_clock idle_callback_ok] by auto

text \<open>
  (C4) The tick interrupt ends, and does what it is to do: the tick advances by one (modulo \<open>2 ^ 32\<close>); one tick
  of the running thread's slice is taken, and when it was the last the thread gets a new slice and makes way for the
  others of its priority (\<^verbatim>\<open>slice_charged\<close>); then the timers that are due at the new tick expire, all of them, in the order of
  their list, but for those that the timeout function of an earlier one stopped (\<^verbatim>\<open>expire_all\<close>): the timer's thread is
  woken or the application's function is called, and a periodic timer runs again. The invariant is kept and no timer is
  left that is due. It is assumed that no running timer is overdue, which holds again afterwards, that periodic timers have a
  period, and that the applications' timeout functions return, keep the invariant and start no timers, though they
  may stop some.
\<close>

theorem tick_interrupt:
  assumes "clock_wf s" "callback_ok cb" "callback_in_order cb" "\<forall>tm \<in> set (rt_timer_list s). until s tm \<noteq> 0"
  shows "\<exists>t th d s'. rt_current_thread s = Some t \<and> threads s t = Some th \<and> slice_charged t th s d \<and>
           rt_tick_increase cb s = Some s' \<and>
           expire_all cb (filter (\<lambda>tm. until s tm \<le> 2) (rt_timer_list s)) d = Some s' \<and>
           clock_wf s' \<and> rt_tick s' = rt_tick s + 1 \<and> (\<forall>tm \<in> set (rt_timer_list s'). 1 < until s' tm)"
proof -
  obtain t th where cur: "rt_current_thread s = Some t" "threads s t = Some th"
    using assms(1) by (auto simp: clock_wf_def cur_ok_def)
  obtain d where d: "rt_tick_increase cb s = rt_timer_check cb d" "clock_wf d" "slice_charged t th s d"
    using tick_charges [OF assms(1,4) cur] .
  have sl: "rt_tick d = rt_tick s + 1" "timers d = timers s" "rt_timer_list d = rt_timer_list s"
    using d(3) by (simp_all add: slice_charged_def)
  have "until d tm \<le> 1 \<longleftrightarrow> until s tm \<le> 2" if "tm \<in> set (rt_timer_list s)" for tm
  proof -
    have "until s tm \<noteq> 0" using assms(4) that by blast
    then have "unat (until s tm - 1) = unat (until s tm) - 1" "unat (until s tm) \<noteq> 0"
      by (simp_all add: unat_minus_one unat_eq_0)
    then show ?thesis unfolding until_next_tick [OF sl(1,2)] word_le_nat_alt by auto
  qed
  then have ds: "expired d = filter (\<lambda>tm. until s tm \<le> 2) (rt_timer_list s)"
    unfolding expired_def sl(3) by (intro filter_cong) auto
  obtain s' where s': "rt_timer_check cb d = Some s'" "clock_wf s'" "expired s' = []" "rt_tick s' = rt_tick d"
    using rt_timer_check_ends [OF d(2) assms(2)] by blast
  have "\<forall>tm \<in> set (rt_timer_list s'). 1 < until s' tm" using s'(3) by (auto simp: expired_def filter_empty_conv not_le)
  then show ?thesis
    using cur d(1,3) s' sl(1) rt_timer_check_expires [OF d(2) assms(2,3)] unfolding ds
    by (intro exI [of _ t] exI [of _ th] exI [of _ d] exI [of _ s']) simp
qed

theorem tick_interrupt_witness:
  "\<exists>s'. rt_tick_increase (\<lambda>k s. Some s) demo = Some s' \<and> clock_wf s' \<and> rt_tick s' = 96"
  using tick_interrupt [OF demo_clock idle_callback_ok idle_callback_in_order]
  by (fastforce simp: until_def due_in_def timeout_of_def)

text \<open>
  (C2) A thread that sleeps is woken on time: with only threads' timers running, after
  \<^verbatim>\<open>rt_thread_sleep(n)\<close> the thread is suspended through the first \<open>n - 1\<close> tick
  interrupts and ready, with its error number telling of the timeout, right after the \<open>n\<close>-th.
\<close>

theorem sleep_wakes_on_time:
  assumes wf: "clock_wf s" "only_threads s" and cur: "rt_current_thread s = Some t" "threads s t = Some th"
      "stat_of th = RT_THREAD_READY" and run: "runnable_without t s"
    and n: "0 < n" "n < RT_TICK_MAX div 2" and k: "k \<le> unat n"
  shows "\<exists>s1 s2 th'. rt_thread_sleep n s = Some (Pending, s1) \<and> ticks cb k s1 = Some s2 \<and>
           kernel_wf s2 \<and> threads s2 t = Some th' \<and>
           (if k < unat n then stat_of th' = RT_THREAD_SUSPEND
            else stat_of th' = RT_THREAD_READY \<and> thread_error th' = - RT_ETIMEOUT)"
proof -
  obtain s1 where s1: "rt_thread_sleep n s = Some (Pending, s1)" "clock_wf s1" "only_threads s1"
    "ThreadTimer t \<in> set (rt_timer_list s1)" "due_in s1 (ThreadTimer t) = n"
    using clock_wf_sleep [OF wf cur n(2) run] .
  have "0 < unat n" using n(1) by (simp add: unat_gt_0 word_neq_0_conv)
  then have "\<exists>s2 th'. ticks cb k s1 = Some s2 \<and> clock_wf s2 \<and> threads s2 t = Some th' \<and>
      (if k < unat n then stat_of th' = RT_THREAD_SUSPEND
       else stat_of th' = RT_THREAD_READY \<and> thread_error th' = - RT_ETIMEOUT)"
    using wakes_on_time [OF s1(2-4) _ _ k] s1(5) by simp
  then show ?thesis using s1(1) unfolding clock_wf_def by blast
qed

lemma demo_only_threads: "only_threads demo"
  by (simp add: only_threads_def until_def due_in_def timeout_of_def)

theorem sleep_wakes_on_time_witness:
  "\<exists>s1 s2 th. rt_thread_sleep 3 demo = Some (Pending, s1) \<and> ticks (\<lambda>k s. None) 3 s1 = Some s2 \<and>
     threads s2 1 = Some th \<and> stat_of th = RT_THREAD_READY \<and> thread_error th = - RT_ETIMEOUT"
  using sleep_wakes_on_time [OF demo_clock demo_only_threads, of 1 "demo_thread 10 1" 3 3 "\<lambda>k s. None"]
    demo_runnable(2) by auto

lemma flag_bits:
  "(f AND NOT 1 OR 1) AND 2 = f AND (2 :: u8)" "(f AND NOT 1 OR 1) AND 1 \<noteq> (0 :: u8)"
proof -
  show "(f AND NOT 1 OR 1) AND 2 = f AND 2"
    by (rule flag_periodic) (rule bit_word_eqI, auto simp: bit_simps)
  have "bit ((f AND NOT 1 OR 1) AND 1) 0" by (simp add: bit_simps)
  then show "(f AND NOT 1 OR 1) AND 1 \<noteq> 0" by (metis bit_0_eq bot_apply bot_bool_def)
qed

lemma zero_period_refires:
  assumes l: "rt_timer_list s = [UserTimer n]"
    and t: "timers s (UserTimer n) = Some \<lparr>timeout_func = User_timeout k, timer_init_tick = 0, timeout_tick = rt_tick s\<rparr>"
    and x: "\<exists>x. objects s (OTimer (UserTimer n)) = Some x \<and>
        obj_type x AND NOT RT_Object_Class_Static = RT_Object_Class_Timer \<and>
        obj_flag x AND RT_TIMER_FLAG_PERIODIC \<noteq> 0 \<and> obj_flag x AND RT_TIMER_FLAG_ACTIVATED \<noteq> 0"
  shows "\<exists>u. fire (\<lambda>k s. Some s) (UserTimer n) s = Some u \<and> rt_timer_list u = [UserTimer n] \<and> timers u (UserTimer n) =
      Some \<lparr>timeout_func = User_timeout k, timer_init_tick = 0, timeout_tick = rt_tick u\<rparr> \<and>
      (\<exists>x. objects u (OTimer (UserTimer n)) = Some x \<and>
        obj_type x AND NOT RT_Object_Class_Static = RT_Object_Class_Timer \<and>
        obj_flag x AND RT_TIMER_FLAG_PERIODIC \<noteq> 0 \<and> obj_flag x AND RT_TIMER_FLAG_ACTIVATED \<noteq> 0)"
proof -
  obtain y where y: "objects s (OTimer (UserTimer n)) = Some y"
    "obj_type y AND NOT RT_Object_Class_Static = RT_Object_Class_Timer"
    "obj_flag y AND RT_TIMER_FLAG_PERIODIC \<noteq> 0" "obj_flag y AND RT_TIMER_FLAG_ACTIVATED \<noteq> 0" using x by blast
  let ?o = "timer_off (UserTimer n) s"
  have ow: "timers_wf ?o" by (simp add: timers_wf_def l)
  have oi: "is_timer ?o (UserTimer n)" using t y by (simp add: is_timer_def)
  have st: "rt_timer_start (UserTimer n) ?o = Some (RT_EOK, timer_on (UserTimer n) ?o)"
    using t rt_timer_start_on [OF ow oi] by simp
  have "fire (\<lambda>k s. Some s) (UserTimer n) s = Some (timer_on (UserTimer n) ?o)"
    using t y st by (simp add: fire_def run_timeout_def timer_off_def)
  moreover have "(((f AND NOT 1) AND NOT 1) OR 1) AND 2 = f AND (2 :: u8)" for f
    using flag_bits(1) [of "f AND NOT 1"] flag_periodic [of "f AND NOT 1" f] by (simp add: and.assoc)
  ultimately show ?thesis using t y flag_bits [of "obj_flag y"] flag_bits [of "obj_flag y AND NOT 1"] l
    by (simp add: timer_on_def Let_def)
qed

text \<open>
  A periodic timer of period zero keeps the check from ending: once it is due, the loop fires it and
  puts it back, due at the current tick, for ever, with interrupts off.
\<close>

theorem zero_period_hangs:
  assumes "rt_timer_list s = [UserTimer n]"
    and "timers s (UserTimer n) = Some \<lparr>timeout_func = User_timeout k, timer_init_tick = 0, timeout_tick = rt_tick s\<rparr>"
    and "objects s (OTimer (UserTimer n)) = Some x"
      "obj_type x AND NOT RT_Object_Class_Static = RT_Object_Class_Timer"
      "obj_flag x AND RT_TIMER_FLAG_PERIODIC \<noteq> 0" "obj_flag x AND RT_TIMER_FLAG_ACTIVATED \<noteq> 0"
  shows "rt_timer_check (\<lambda>k s. Some s) s = None"
proof (rule ccontr)
  let ?cb = "\<lambda>k s. Some s :: kernel option"
  let ?stuck = "\<lambda>s. rt_timer_list s = [UserTimer n] \<and> timers s (UserTimer n) =
      Some \<lparr>timeout_func = User_timeout k, timer_init_tick = 0, timeout_tick = rt_tick s\<rparr> \<and>
      (\<exists>x. objects s (OTimer (UserTimer n)) = Some x \<and>
        obj_type x AND NOT RT_Object_Class_Static = RT_Object_Class_Timer \<and>
        obj_flag x AND RT_TIMER_FLAG_PERIODIC \<noteq> 0 \<and> obj_flag x AND RT_TIMER_FLAG_ACTIVATED \<noteq> 0)"
  have "?stuck s \<longrightarrow> tick = rt_tick s \<longrightarrow> False"
    if "rt_timer_check_loop ?cb tick s = Some r" for tick s r
    using that
  proof (rule rt_timer_check_loop.raw_induct [where P = "\<lambda>cb tick s r. cb = ?cb \<longrightarrow> ?stuck s \<longrightarrow> tick = rt_tick s \<longrightarrow> False",
        THEN mp, rotated])
    fix loop cb tick s r
    assume IH: "\<And>cb tick s r. loop cb tick s = Some r \<Longrightarrow> cb = ?cb \<longrightarrow> ?stuck s \<longrightarrow> tick = rt_tick s \<longrightarrow> False"
      and run: "(case rt_timer_list s of [] \<Rightarrow> Some s
        | tm # _ \<Rightarrow> (case timers s tm of None \<Rightarrow> None
            | Some t \<Rightarrow> if tick - timeout_tick t < RT_TICK_MAX div 2
                then do { s \<leftarrow> fire cb tm s; loop cb (rt_tick_get s) s } else Some s)) = Some r"
    show "cb = ?cb \<longrightarrow> ?stuck s \<longrightarrow> tick = rt_tick s \<longrightarrow> False"
    proof (intro impI)
      assume c: "cb = ?cb" and st: "?stuck s" and tk: "tick = rt_tick s"
      obtain u where u: "fire ?cb (UserTimer n) s = Some u" "?stuck u"
        using zero_period_refires [of s n k] st by blast
      then show False using run IH [of ?cb "rt_tick u" u r] c st tk by (simp add: rt_tick_get_def)
    qed
  qed simp
  moreover assume "rt_timer_check ?cb s \<noteq> None"
  ultimately show False using assms by (auto simp: rt_timer_check_def rt_tick_get_def)
qed

text \<open>The sample state with one expired periodic timer of period zero.\<close>

definition demo_zero :: kernel where
  "demo_zero = demo\<lparr>rt_timer_list := [UserTimer 0],
     timers := (timers demo)(UserTimer 0 \<mapsto> \<lparr>timeout_func = User_timeout 0, timer_init_tick = 0, timeout_tick = 95\<rparr>),
     objects := (objects demo)(OTimer (UserTimer 0) \<mapsto>
       demo_object RT_Object_Class_Timer (RT_TIMER_FLAG_PERIODIC OR RT_TIMER_FLAG_ACTIVATED))\<rparr>"

theorem zero_period_hangs_witness: "rt_timer_check (\<lambda>k s. Some s) demo_zero = None"
  by (rule zero_period_hangs [where n = 0 and k = 0 and x = "demo_object 9 3"]) (simp_all add: demo_zero_def)

end
