(* ===== verification/Fifo.thy ===== *)
theory Fifo
  imports Prelude
begin

text \<open>
  The contract of a bounded first-in first-out buffer, which the ring of a mailbox and the slots of
  a message queue keep: \<open>put\<close> and \<open>get\<close> are the code, \<open>None\<close> where it would go
  outside its memory; \<open>fits\<close> says which values are stored whole.
\<close>

text \<open>A run of puts, a run of gets.\<close>

fun put_all :: "('v \<Rightarrow> 'q \<Rightarrow> 'q option) \<Rightarrow> 'v list \<Rightarrow> 'q \<Rightarrow> 'q option" where
  "put_all put [] q = Some q"
| "put_all put (v # vs) q = do { q \<leftarrow> put v q; put_all put vs q }"

fun get_all :: "('q \<Rightarrow> ('v \<times> 'q) option) \<Rightarrow> nat \<Rightarrow> 'q \<Rightarrow> ('v list \<times> 'q) option" where
  "get_all get 0 q = Some ([], q)"
| "get_all get (Suc n) q = do { (v, q) \<leftarrow> get q; (vs, q) \<leftarrow> get_all get n q; Some (v # vs, q) }"

locale bounded_fifo =
  fixes inv :: "'q \<Rightarrow> bool" and contents :: "'q \<Rightarrow> 'v list" and capacity :: "'q \<Rightarrow> nat"
    and fits :: "'q \<Rightarrow> 'v \<Rightarrow> bool"
    and put :: "'v \<Rightarrow> 'q \<Rightarrow> 'q option" and get :: "'q \<Rightarrow> ('v \<times> 'q) option"
  assumes bound: "inv q \<Longrightarrow> length (contents q) \<le> capacity q"
    and put_ok: "\<lbrakk>inv q; length (contents q) < capacity q; fits q v\<rbrakk> \<Longrightarrow>
      \<exists>q'. put v q = Some q' \<and> inv q' \<and> contents q' = contents q @ [v] \<and> capacity q' = capacity q \<and>
           (\<forall>w. fits q' w = fits q w)"
    and get_ok: "\<lbrakk>inv q; contents q = v # vs\<rbrakk> \<Longrightarrow>
      \<exists>q'. get q = Some (v, q') \<and> inv q' \<and> contents q' = vs \<and> capacity q' = capacity q \<and>
           (\<forall>w. fits q' w = fits q w)"
begin

lemma puts_ok:
  assumes "inv q" "length (contents q) + length vs \<le> capacity q" "\<forall>v \<in> set vs. fits q v"
  shows "\<exists>q'. put_all put vs q = Some q' \<and> inv q' \<and> contents q' = contents q @ vs \<and> capacity q' = capacity q"
  using assms
proof (induction vs arbitrary: q)
  case (Cons v vs)
  obtain p where p: "put v q = Some p" "inv p" "contents p = contents q @ [v]" "capacity p = capacity q"
    "\<forall>w. fits p w = fits q w"
    using put_ok [of q v] Cons.prems by auto
  show ?case using Cons.IH [OF p(2)] Cons.prems p by auto
qed simp

lemma gets_ok:
  assumes "inv q" "contents q = vs @ ws"
  shows "\<exists>q'. get_all get (length vs) q = Some (vs, q') \<and> inv q' \<and> contents q' = ws \<and> capacity q' = capacity q"
  using assms
proof (induction vs arbitrary: q)
  case (Cons v vs)
  obtain p where p: "get q = Some (v, p)" "inv p" "contents p = vs @ ws" "capacity p = capacity q"
    using get_ok [of q v "vs @ ws"] Cons.prems by auto
  show ?case using Cons.IH [OF p(2,3)] p by auto
qed simp

text \<open>What was put comes out once, in the order it went in, behind what was there.\<close>

lemma round_trip:
  assumes "inv q" "length (contents q) + length vs \<le> capacity q" "\<forall>v \<in> set vs. fits q v"
  shows "\<exists>q' q''. put_all put vs q = Some q' \<and>
     get_all get (length (contents q) + length vs) q' = Some (contents q @ vs, q'') \<and> inv q'' \<and> contents q'' = []"
proof -
  obtain q' where q': "put_all put vs q = Some q'" "inv q'" "contents q' = (contents q @ vs) @ []"
    using puts_ok [OF assms] by auto
  show ?thesis using gets_ok [OF q'(2,3)] q'(1) by auto
qed

end

end
