(* ===== verification/RingBuffer.thy ===== *)
theory RingBuffer
  imports Fifo Kservice
begin

text \<open>
  The byte ring of the drivers (\<^verbatim>\<open>components/drivers/src/ringbuffer.c\<close>). An index says where in the
  buffer, a mirror bit on which side of a virtual second copy of it: equal indices mean empty on the same side
  and full on different sides. Indices are the naturals that fit their 15-bit fields (stores truncate),
  a mirror bit is a bool, the buffer its list of bytes.
\<close>

section \<open>The code\<close>

record rt_ringbuffer =
  buffer_ptr :: "u8 list"
  read_mirror :: bool
  read_index :: nat
  write_mirror :: bool
  write_index :: nat
  buffer_size :: nat

datatype rt_ringbuffer_state = RT_RINGBUFFER_EMPTY | RT_RINGBUFFER_FULL | RT_RINGBUFFER_HALFFULL

definition trunc15 :: "nat \<Rightarrow> nat" where "trunc15 n = n mod 2 ^ 15"

definition rt_ringbuffer_status :: "rt_ringbuffer \<Rightarrow> rt_ringbuffer_state" where
  "rt_ringbuffer_status rb =
     (if read_index rb = write_index rb
      then if read_mirror rb = write_mirror rb then RT_RINGBUFFER_EMPTY else RT_RINGBUFFER_FULL
      else RT_RINGBUFFER_HALFFULL)"

definition rt_ringbuffer_data_len :: "rt_ringbuffer \<Rightarrow> nat" where
  "rt_ringbuffer_data_len rb =
     (case rt_ringbuffer_status rb of
        RT_RINGBUFFER_EMPTY \<Rightarrow> 0
      | RT_RINGBUFFER_FULL \<Rightarrow> buffer_size rb
      | RT_RINGBUFFER_HALFFULL \<Rightarrow>
          if write_index rb > read_index rb then write_index rb - read_index rb
          else buffer_size rb - (read_index rb - write_index rb))"

definition rt_ringbuffer_space_len :: "rt_ringbuffer \<Rightarrow> nat" where
  "rt_ringbuffer_space_len rb = buffer_size rb - rt_ringbuffer_data_len rb"

text \<open>\<open>sz\<close> is a signed 16-bit number.\<close>

definition rt_ringbuffer_init :: "u8 list \<Rightarrow> int \<Rightarrow> rt_ringbuffer option" where
  "rt_ringbuffer_init pool sz =
     do { rt_assert (sz > 0);
          Some \<lparr>buffer_ptr = pool, read_mirror = False, read_index = 0, write_mirror = False, write_index = 0,
                buffer_size = nat sz div 4 * 4\<rparr> }"

text \<open>\<^verbatim>\<open>memcpy\<close> into and out of a buffer, within its bounds.\<close>

definition copy_in :: "nat \<Rightarrow> u8 list \<Rightarrow> u8 list \<Rightarrow> u8 list option" where
  "copy_in i xs buf = (if i + length xs \<le> length buf then Some (take i buf @ xs @ drop (i + length xs) buf) else None)"

definition copy_out :: "nat \<Rightarrow> nat \<Rightarrow> u8 list \<Rightarrow> u8 list option" where
  "copy_out i n buf = (if i + n \<le> length buf then Some (take n (drop i buf)) else None)"

definition rt_ringbuffer_put :: "u8 list \<Rightarrow> nat \<Rightarrow> rt_ringbuffer \<Rightarrow> (nat \<times> rt_ringbuffer) option" where
  "rt_ringbuffer_put ptr len rb =
     (let sz = rt_ringbuffer_space_len rb in
      if sz = 0 then Some (0, rb)
      else let len = (if sz < len then sz else len); room = buffer_size rb - write_index rb in
      if room > len
      then do { xs \<leftarrow> copy_out 0 len ptr;
                b \<leftarrow> copy_in (write_index rb) xs (buffer_ptr rb);
                Some (len, rb\<lparr>buffer_ptr := b, write_index := trunc15 (write_index rb + len)\<rparr>) }
      else do { rt_assert (write_index rb \<le> buffer_size rb);
                xs \<leftarrow> copy_out 0 room ptr;
                b \<leftarrow> copy_in (write_index rb) xs (buffer_ptr rb);
                ys \<leftarrow> copy_out room (len - room) ptr;
                b \<leftarrow> copy_in 0 ys b;
                Some (len, rb\<lparr>buffer_ptr := b, write_mirror := \<not> write_mirror rb, write_index := trunc15 (len - room)\<rparr>) })"

definition rt_ringbuffer_put_force :: "u8 list \<Rightarrow> nat \<Rightarrow> rt_ringbuffer \<Rightarrow> (nat \<times> rt_ringbuffer) option" where
  "rt_ringbuffer_put_force ptr len rb =
     (let space_length = rt_ringbuffer_space_len rb;
          (ptr, len) = (if len > buffer_size rb then (drop (len - buffer_size rb) ptr, buffer_size rb) else (ptr, len));
          room = buffer_size rb - write_index rb in
      if room > len
      then do { xs \<leftarrow> copy_out 0 len ptr;
                b \<leftarrow> copy_in (write_index rb) xs (buffer_ptr rb);
                let rb = rb\<lparr>buffer_ptr := b, write_index := trunc15 (write_index rb + len)\<rparr>;
                Some (len, if len > space_length then rb\<lparr>read_index := write_index rb\<rparr> else rb) }
      else do { rt_assert (write_index rb \<le> buffer_size rb);
                xs \<leftarrow> copy_out 0 room ptr;
                b \<leftarrow> copy_in (write_index rb) xs (buffer_ptr rb);
                ys \<leftarrow> copy_out room (len - room) ptr;
                b \<leftarrow> copy_in 0 ys b;
                let rb = rb\<lparr>buffer_ptr := b, write_mirror := \<not> write_mirror rb, write_index := trunc15 (len - room)\<rparr>;
                Some (len, if len > space_length
                           then rb\<lparr>read_mirror := \<not> read_mirror rb, read_index := write_index rb\<rparr> else rb) })"

text \<open>It gives the bytes that go to \<^verbatim>\<open>ptr\<close>; their number is the result.\<close>

definition rt_ringbuffer_get :: "nat \<Rightarrow> rt_ringbuffer \<Rightarrow> (u8 list \<times> rt_ringbuffer) option" where
  "rt_ringbuffer_get len rb =
     (let sz = rt_ringbuffer_data_len rb in
      if sz = 0 then Some ([], rb)
      else let len = (if sz < len then sz else len); room = buffer_size rb - read_index rb in
      if room > len
      then do { xs \<leftarrow> copy_out (read_index rb) len (buffer_ptr rb);
                Some (xs, rb\<lparr>read_index := trunc15 (read_index rb + len)\<rparr>) }
      else do { rt_assert (read_index rb \<le> buffer_size rb);
                xs \<leftarrow> copy_out (read_index rb) room (buffer_ptr rb);
                ys \<leftarrow> copy_out 0 (len - room) (buffer_ptr rb);
                Some (xs @ ys, rb\<lparr>read_mirror := \<not> read_mirror rb, read_index := trunc15 (len - room)\<rparr>) })"

definition rt_ringbuffer_putchar :: "u8 \<Rightarrow> rt_ringbuffer \<Rightarrow> (nat \<times> rt_ringbuffer) option" where
  "rt_ringbuffer_putchar ch rb =
     (if rt_ringbuffer_space_len rb = 0 then Some (0, rb)
      else do { b \<leftarrow> copy_in (write_index rb) [ch] (buffer_ptr rb);
                let rb = rb\<lparr>buffer_ptr := b\<rparr>;
                Some (1, if write_index rb + 1 = buffer_size rb
                         then rb\<lparr>write_mirror := \<not> write_mirror rb, write_index := 0\<rparr>
                         else rb\<lparr>write_index := trunc15 (write_index rb + 1)\<rparr>) })"

definition rt_ringbuffer_putchar_force :: "u8 \<Rightarrow> rt_ringbuffer \<Rightarrow> (nat \<times> rt_ringbuffer) option" where
  "rt_ringbuffer_putchar_force ch rb =
     (let old_state = rt_ringbuffer_status rb in
      do { b \<leftarrow> copy_in (write_index rb) [ch] (buffer_ptr rb);
           let rb = rb\<lparr>buffer_ptr := b\<rparr>;
           if write_index rb + 1 = buffer_size rb
           then let rb = rb\<lparr>write_mirror := \<not> write_mirror rb, write_index := 0\<rparr> in
                Some (1, if old_state = RT_RINGBUFFER_FULL
                         then rb\<lparr>read_mirror := \<not> read_mirror rb, read_index := write_index rb\<rparr> else rb)
           else let rb = rb\<lparr>write_index := trunc15 (write_index rb + 1)\<rparr> in
                Some (1, if old_state = RT_RINGBUFFER_FULL then rb\<lparr>read_index := write_index rb\<rparr> else rb) })"

definition rt_ringbuffer_getchar :: "rt_ringbuffer \<Rightarrow> (u8 option \<times> rt_ringbuffer) option" where
  "rt_ringbuffer_getchar rb =
     (if rt_ringbuffer_data_len rb = 0 then Some (None, rb)
      else do { rt_assert (read_index rb < length (buffer_ptr rb));
                Some (Some (buffer_ptr rb ! read_index rb),
                  if read_index rb + 1 = buffer_size rb
                  then rb\<lparr>read_mirror := \<not> read_mirror rb, read_index := 0\<rparr>
                  else rb\<lparr>read_index := trunc15 (read_index rb + 1)\<rparr>) })"

definition rt_ringbuffer_reset :: "rt_ringbuffer \<Rightarrow> rt_ringbuffer" where
  "rt_ringbuffer_reset rb = rb\<lparr>read_mirror := False, read_index := 0, write_mirror := False, write_index := 0\<rparr>"

text \<open>
  \<^verbatim>\<open>rt_ringbuffer_create\<close>, with the results of its two calls of \<^verbatim>\<open>rt_malloc\<close>, the second with the
  bytes it finds there. When only the second fails, the first is freed and its address returned all the same.
\<close>

datatype created = No_memory | Dangling nat | Created nat rt_ringbuffer

definition rt_ringbuffer_create :: "nat \<Rightarrow> nat option \<Rightarrow> u8 list option \<Rightarrow> created option" where
  "rt_ringbuffer_create sz m1 m2 =
     do { rt_assert (sz > 0);
          let sz = sz div 4 * 4;
          case (m1, m2) of
            (None, _) \<Rightarrow> Some No_memory
          | (Some a, None) \<Rightarrow> Some (Dangling a)
          | (Some a, Some pool) \<Rightarrow> do { rb \<leftarrow> rt_ringbuffer_init pool (if sz < 2 ^ 15 then int sz else int sz - 2 ^ 16);
                                        Some (Created a rb) } }"

section \<open>The queue of bytes\<close>

definition rb_ok :: "rt_ringbuffer \<Rightarrow> bool" where
  "rb_ok rb \<longleftrightarrow> 0 < buffer_size rb \<and> buffer_size rb < 2 ^ 15 \<and> buffer_size rb \<le> length (buffer_ptr rb) \<and>
     read_index rb < buffer_size rb \<and> write_index rb < buffer_size rb \<and>
     (if read_mirror rb = write_mirror rb then read_index rb \<le> write_index rb else write_index rb \<le> read_index rb)"

definition rb_data :: "rt_ringbuffer \<Rightarrow> u8 list" where
  "rb_data rb =
     (if read_mirror rb = write_mirror rb
      then take (write_index rb - read_index rb) (drop (read_index rb) (buffer_ptr rb))
      else drop (read_index rb) (take (buffer_size rb) (buffer_ptr rb)) @ take (write_index rb) (buffer_ptr rb))"

lemma rb_len:
  assumes "rb_ok rb"
  shows "rt_ringbuffer_data_len rb = length (rb_data rb)" "length (rb_data rb) \<le> buffer_size rb"
    "rt_ringbuffer_space_len rb = buffer_size rb - length (rb_data rb)"
  using assms by (auto simp: rb_ok_def rb_data_def rt_ringbuffer_data_len_def rt_ringbuffer_space_len_def rt_ringbuffer_status_def
      split: if_splits)

lemma trunc15_small [simp]: "n < 2 ^ 15 \<Longrightarrow> trunc15 n = n"
  by (simp add: trunc15_def)

lemma rb_init_ok:
  assumes "4 \<le> sz" "sz < 2 ^ 15" "nat sz \<le> length pool"
  obtains rb where "rt_ringbuffer_init pool sz = Some rb" "rb_ok rb" "rb_data rb = []" "buffer_size rb = nat sz div 4 * 4"
proof -
  have a: "nat sz div 4 * 4 \<le> nat sz" "nat sz < 2 ^ 15" "4 \<le> nat sz" using assms by simp_all
  then have "0 < nat sz div 4 * 4" "nat sz div 4 * 4 < 2 ^ 15" "nat sz div 4 * 4 \<le> length pool"
    using assms(3) by (auto intro: le_less_trans [OF a(1)] order_trans [OF a(1)])
  then show thesis using that assms by (simp add: rt_ringbuffer_init_def rb_ok_def rb_data_def)
qed

text \<open>Writing \<open>xs\<close> behind the data, up to the space there is, on one side of the mirror or across it.\<close>

definition rb_written :: "u8 list \<Rightarrow> rt_ringbuffer \<Rightarrow> rt_ringbuffer" where
  "rb_written xs rb =
     (let w = write_index rb; room = buffer_size rb - w; b = buffer_ptr rb in
      if room > length xs
      then rb\<lparr>buffer_ptr := take w b @ xs @ drop (w + length xs) b, write_index := w + length xs\<rparr>
      else rb\<lparr>buffer_ptr := drop room xs @ drop (length xs - room) (take w b) @ take room xs @ drop (buffer_size rb) b,
              write_mirror := \<not> write_mirror rb, write_index := length xs - room\<rparr>)"

lemma copy_in_len:
  "length xs = n \<Longrightarrow> i + n \<le> length buf \<Longrightarrow> copy_in i xs buf = Some (take i buf @ xs @ drop (i + n) buf)"
  by (simp add: copy_in_def)

lemma copy_in_front:
  "\<lbrakk>length xs = n; n \<le> i; i \<le> length b\<rbrakk> \<Longrightarrow> copy_in 0 xs (take i b @ ys) = Some (xs @ drop n (take i b) @ ys)"
  by (simp add: copy_in_def)

lemma rb_written_near:
  "length xs < buffer_size rb - write_index rb \<Longrightarrow> rb_written xs rb = rb\<lparr>buffer_ptr := take (write_index rb) (buffer_ptr rb) @ xs @
     drop (write_index rb + length xs) (buffer_ptr rb), write_index := write_index rb + length xs\<rparr>"
  by (simp add: rb_written_def Let_def)

lemma rb_written_far:
  "\<not> length xs < buffer_size rb - write_index rb \<Longrightarrow> rb_written xs rb = rb\<lparr>buffer_ptr := drop (buffer_size rb - write_index rb) xs @
     drop (length xs - (buffer_size rb - write_index rb)) (take (write_index rb) (buffer_ptr rb)) @
     take (buffer_size rb - write_index rb) xs @ drop (buffer_size rb) (buffer_ptr rb),
     write_mirror := \<not> write_mirror rb, write_index := length xs - (buffer_size rb - write_index rb)\<rparr>"
  by (simp add: rb_written_def Let_def)

lemma rb_written_ok:
  assumes ok: "rb_ok rb" and n: "length xs + length (rb_data rb) \<le> buffer_size rb"
  shows "rb_ok (rb_written xs rb)" "rb_data (rb_written xs rb) = rb_data rb @ xs" "buffer_size (rb_written xs rb) = buffer_size rb"
proof -
  let ?r = "read_index rb" and ?w = "write_index rb" and ?n = "buffer_size rb" and ?b = "buffer_ptr rb"
  have o: "?r < ?n" "?w < ?n" "?n \<le> length ?b" "?n < 2 ^ 15" "0 < ?n" using ok by (auto simp: rb_ok_def)
  show "buffer_size (rb_written xs rb) = ?n" by (simp add: rb_written_def Let_def)
  show "rb_ok (rb_written xs rb)"
    using ok n by (auto simp: rb_written_def rb_ok_def rb_data_def Let_def split: if_splits)
  show "rb_data (rb_written xs rb) = rb_data rb @ xs"
  proof (cases "read_mirror rb = write_mirror rb")
    case True
    then have "?r \<le> ?w" using ok by (simp add: rb_ok_def)
    moreover from this have l: "length (rb_data rb) = ?w - ?r" using True o by (simp add: rb_data_def)
    ultimately show ?thesis
    proof (cases "length xs < ?n - ?w")
      case near: True
      then show ?thesis using True o \<open>?r \<le> ?w\<close> by (simp add: rb_written_near rb_data_def drop_take)
    next
      case far: False
      have "length xs - (?n - ?w) \<le> ?r" "?n - ?w \<le> length xs" using n l far \<open>?r \<le> ?w\<close> o by linarith+
      then show ?thesis using True o \<open>?r \<le> ?w\<close> far by (simp add: rb_written_far rb_data_def drop_take)
    qed
  next
    case False
    then have "?w \<le> ?r" using ok by (auto simp: rb_ok_def)
    moreover from this have "length (rb_data rb) = ?n - ?r + ?w" using False o by (simp add: rb_data_def)
    ultimately have lx: "?w + length xs \<le> ?r" using n o by linarith
    then have "length xs < ?n - ?w" using o by linarith
    then show ?thesis using False o lx by (simp add: rb_written_near rb_data_def drop_take)
  qed
qed

lemma rb_put_ok:
  assumes ok: "rb_ok rb" and len: "len \<le> length ptr"
  defines "k \<equiv> min len (buffer_size rb - length (rb_data rb))"
  shows "rt_ringbuffer_put ptr len rb = Some (k, if buffer_size rb = length (rb_data rb) then rb else rb_written (take k ptr) rb)"
proof (cases "buffer_size rb = length (rb_data rb)")
  case True
  then show ?thesis using rb_len [OF ok] by (simp add: rt_ringbuffer_put_def k_def)
next
  case False
  let ?w = "write_index rb" and ?n = "buffer_size rb" and ?b = "buffer_ptr rb"
  have o: "?w < ?n" "?n \<le> length ?b" "?n < 2 ^ 15" using ok by (auto simp: rb_ok_def)
  have sp: "rt_ringbuffer_space_len rb = ?n - length (rb_data rb)" "?n - length (rb_data rb) \<noteq> 0"
    using rb_len [OF ok] False by auto
  have k: "(if ?n - length (rb_data rb) < len then ?n - length (rb_data rb) else len) = k" "k \<le> length ptr" "k \<le> ?n"
    using len by (auto simp: k_def)
  have lk: "length (take k ptr) = k" using k(2) by simp
  have "rt_ringbuffer_put ptr len rb = Some (k, rb_written (take k ptr) rb)"
  proof (cases "?n - ?w > k")
    case True
    then show ?thesis using o k sp lk
      by (simp add: rt_ringbuffer_put_def Let_def copy_out_def copy_in_def rb_written_def)
  next
    case False
    have "drop (?n - ?w) (take k ptr) = take (k - (?n - ?w)) (drop (?n - ?w) ptr)" "take (?n - ?w) (take k ptr) = take (?n - ?w) ptr"
      using False by (simp_all add: drop_take min_def)
    then show ?thesis using False o k sp lk
      by (simp add: rt_ringbuffer_put_def Let_def copy_out_def copy_in_def rb_written_def)
  qed
  then show ?thesis using False by simp
qed

lemma rb_get_ok:
  fixes len :: nat
  assumes ok: "rb_ok rb"
  defines "k \<equiv> min len (length (rb_data rb))"
  shows "\<exists>rb'. rt_ringbuffer_get len rb = Some (take k (rb_data rb), rb') \<and> rb_ok rb' \<and> rb_data rb' = drop k (rb_data rb) \<and>
    buffer_size rb' = buffer_size rb"
proof (cases "rb_data rb = []")
  case True
  then show ?thesis using rb_len [OF ok] ok by (simp add: rt_ringbuffer_get_def)
next
  case False
  let ?r = "read_index rb" and ?w = "write_index rb" and ?n = "buffer_size rb" and ?b = "buffer_ptr rb"
  have o: "?r < ?n" "?w < ?n" "?n \<le> length ?b" "?n < 2 ^ 15" using ok by (auto simp: rb_ok_def)
  have k: "(if rt_ringbuffer_data_len rb < len then rt_ringbuffer_data_len rb else len) = k" "rt_ringbuffer_data_len rb \<noteq> 0"
    using rb_len [OF ok] False by (auto simp: k_def)
  show ?thesis
  proof (cases "read_mirror rb = write_mirror rb")
    case True
    then have rw: "?r \<le> ?w" using ok by (simp add: rb_ok_def)
    then have kl: "k \<le> ?w - ?r" using True o by (simp add: k_def rb_data_def)
    then have "k < ?n - ?r" "?r + k \<le> length ?b" "?r + k < 2 ^ 15" using o rw by linarith+
    then have "rt_ringbuffer_get len rb = Some (take k (rb_data rb), rb\<lparr>read_index := ?r + k\<rparr>)"
      using True o k rw kl by (simp add: rt_ringbuffer_get_def Let_def copy_out_def rb_data_def min_def)
    then show ?thesis using True o rw kl by (auto simp: rb_ok_def rb_data_def drop_take add.commute)
  next
    case False
    then have wr: "?w \<le> ?r" using ok by (auto simp: rb_ok_def)
    have kl: "k \<le> ?n - ?r + ?w" using False o by (simp add: k_def rb_data_def)
    show ?thesis
    proof (cases "?n - ?r > k")
      case True
      then have "?r + k \<le> length ?b" "?r + k < 2 ^ 15" "k \<le> length ?b - ?r" using o by linarith+
      with True have "rt_ringbuffer_get len rb = Some (take k (rb_data rb), rb\<lparr>read_index := ?r + k\<rparr>)"
        using False o k by (simp add: rt_ringbuffer_get_def Let_def copy_out_def rb_data_def drop_take min_def)
      then show ?thesis using False True o wr by (auto simp: rb_ok_def rb_data_def drop_take add.commute)
    next
      case F: False
      then have "rt_ringbuffer_get len rb = Some (take k (rb_data rb), rb\<lparr>read_mirror := \<not> read_mirror rb, read_index := k - (?n - ?r)\<rparr>)"
      proof -
        have "take k (rb_data rb) = take (?n - ?r) (drop ?r ?b) @ take (k - (?n - ?r)) ?b"
        proof -
          have "length (take (?n - ?r) (drop ?r ?b)) = ?n - ?r" using o by simp
          moreover have "k - (?n - ?r) \<le> ?w" "?n - ?r \<le> k" using kl F by simp_all
          ultimately show ?thesis using False by (simp add: rb_data_def drop_take)
        qed
        moreover have "?r + (?n - ?r) \<le> length ?b" "k - (?n - ?r) \<le> length ?b" "k - (?n - ?r) < 2 ^ 15"
          using o kl by linarith+
        ultimately show ?thesis using F o k by (simp add: rt_ringbuffer_get_def Let_def copy_out_def)
      qed
      then show ?thesis using False F o wr kl by (auto simp: rb_ok_def rb_data_def drop_take)
    qed
  qed
qed

lemma rb_written_one:
  assumes ok: "rb_ok rb"
  shows "rt_ringbuffer_putchar ch rb = Some (if buffer_size rb = length (rb_data rb) then (0, rb) else (1, rb_written [ch] rb))"
proof -
  have o: "write_index rb < buffer_size rb" "buffer_size rb \<le> length (buffer_ptr rb)" "buffer_size rb < 2 ^ 15" using ok by (auto simp: rb_ok_def)
  show ?thesis
  proof (cases "write_index rb + 1 = buffer_size rb")
    case True
    then have "buffer_size rb - write_index rb = 1" by simp
    then show ?thesis using o rb_len [OF ok] True
      by (auto simp: rt_ringbuffer_putchar_def copy_in_def rb_written_def Let_def)
  next
    case False
    then have "buffer_size rb - write_index rb > 1" using o by simp
    then show ?thesis using o rb_len [OF ok] False
      by (auto simp: rt_ringbuffer_putchar_def copy_in_def rb_written_def Let_def)
  qed
qed

lemma rb_getchar_get:
  assumes ok: "rb_ok rb"
  shows "rt_ringbuffer_getchar rb = map_option (\<lambda>(xs, rb'). (case xs of [] \<Rightarrow> None | x # _ \<Rightarrow> Some x, rb')) (rt_ringbuffer_get 1 rb)"
proof -
  have o: "read_index rb < buffer_size rb" "buffer_size rb \<le> length (buffer_ptr rb)" "buffer_size rb < 2 ^ 15" using ok by (auto simp: rb_ok_def)
  have t: "take 1 (drop (read_index rb) (buffer_ptr rb)) = [buffer_ptr rb ! read_index rb]"
    using o by (simp add: take_Suc_conv_app_nth)
  consider "rt_ringbuffer_data_len rb = 0" | "rt_ringbuffer_data_len rb \<noteq> 0" "read_index rb + 1 = buffer_size rb"
    | "rt_ringbuffer_data_len rb \<noteq> 0" "read_index rb + 1 < buffer_size rb" using o by linarith
  then show ?thesis
  proof cases
    case 2
    then have "buffer_size rb - read_index rb = 1" by simp
    then show ?thesis using 2 o t by (simp add: rt_ringbuffer_getchar_def rt_ringbuffer_get_def copy_out_def Let_def)
  next
    case 3
    then have "buffer_size rb - read_index rb > 1" by simp
    then show ?thesis using 3 o t by (simp add: rt_ringbuffer_getchar_def rt_ringbuffer_get_def copy_out_def Let_def)
  qed (simp add: rt_ringbuffer_getchar_def rt_ringbuffer_get_def)
qed

text \<open>Character by character the ring is a bounded queue.\<close>

definition rb_push :: "u8 \<Rightarrow> rt_ringbuffer \<Rightarrow> rt_ringbuffer option" where
  "rb_push ch rb = map_option snd (rt_ringbuffer_putchar ch rb)"

definition rb_pop :: "rt_ringbuffer \<Rightarrow> (u8 \<times> rt_ringbuffer) option" where
  "rb_pop rb = do { (c, rb) \<leftarrow> rt_ringbuffer_getchar rb; c \<leftarrow> c; Some (c, rb) }"

interpretation rb: bounded_fifo rb_ok rb_data buffer_size "\<lambda>_ _. True" rb_push rb_pop
proof
  show "length (rb_data q) \<le> buffer_size q" if "rb_ok q" for q using rb_len [OF that] by simp
next
  fix q v
  assume "rb_ok q" "length (rb_data q) < buffer_size q"
  then show "\<exists>q'. rb_push v q = Some q' \<and> rb_ok q' \<and> rb_data q' = rb_data q @ [v] \<and> buffer_size q' = buffer_size q \<and> (\<forall>w. True = True)"
    using rb_written_one [of q v] rb_written_ok [of q "[v]"] by (simp add: rb_push_def)
next
  fix q v vs
  assume "rb_ok q" "rb_data q = v # vs"
  then show "\<exists>q'. rb_pop q = Some (v, q') \<and> rb_ok q' \<and> rb_data q' = vs \<and> buffer_size q' = buffer_size q \<and> (\<forall>w. True = True)"
    using rb_getchar_get [of q] rb_get_ok [of q 1] by (auto simp: rb_pop_def)
qed

text \<open>Overwriting: the write itself, whatever the space, and where the read index goes.\<close>

lemma rb_put_force_write:
  assumes ok: "rb_ok rb" and len: "len \<le> length ptr"
  defines "k \<equiv> min len (buffer_size rb)"
  shows "rt_ringbuffer_put_force ptr len rb = Some (k,
    let rb' = rb_written (take k (drop (len - k) ptr)) rb in
    if k + length (rb_data rb) \<le> buffer_size rb then rb'
    else if buffer_size rb - write_index rb > k then rb'\<lparr>read_index := write_index rb'\<rparr>
    else rb'\<lparr>read_mirror := \<not> read_mirror rb, read_index := write_index rb'\<rparr>)"
proof -
  let ?w = "write_index rb" and ?n = "buffer_size rb" and ?p = "drop (len - k) ptr"
  have o: "?w < ?n" "?n \<le> length (buffer_ptr rb)" "?n < 2 ^ 15" using ok by (auto simp: rb_ok_def)
  have p: "(if len > ?n then (drop (len - ?n) ptr, ?n) else (ptr, len)) = (?p, k)" by (auto simp: k_def)
  have k: "k \<le> length ?p" "k \<le> ?n" "length (take k ?p) = k" using len by (auto simp: k_def)
  have sp: "rt_ringbuffer_space_len rb < k \<longleftrightarrow> \<not> k + length (rb_data rb) \<le> ?n" using rb_len [OF ok] by auto
  show ?thesis
  proof (cases "?n - ?w > k")
    case True
    then have w: "rb_written (take k ?p) rb = rb\<lparr>buffer_ptr := take ?w (buffer_ptr rb) @ take k ?p @ drop (?w + k) (buffer_ptr rb),
        write_index := ?w + k\<rparr>" using rb_written_near [of "take k ?p" rb] k(3) by simp
    have "copy_out 0 k ?p = Some (take k ?p)" "trunc15 (?w + k) = ?w + k"
      "copy_in ?w (take k ?p) (buffer_ptr rb) = Some (take ?w (buffer_ptr rb) @ take k ?p @ drop (?w + k) (buffer_ptr rb))"
      using True o k by (simp_all add: copy_out_def copy_in_def)
    with True show ?thesis unfolding rt_ringbuffer_put_force_def Let_def p w prod.case
      by (cases "k + length (rb_data rb) \<le> ?n") (simp_all add: sp)
  next
    case False
    let ?m = "?n - ?w" and ?b = "buffer_ptr rb"
    let ?b' = "drop ?m (take k ?p) @ drop (k - ?m) (take ?w ?b) @ take ?m (take k ?p) @ drop ?n ?b"
    have w: "rb_written (take k ?p) rb = rb\<lparr>buffer_ptr := ?b', write_mirror := \<not> write_mirror rb, write_index := k - ?m\<rparr>"
      using rb_written_far [of "take k ?p" rb] False k(3) by simp
    have d: "copy_out 0 ?m ?p = Some (take ?m (take k ?p))" "copy_out ?m (k - ?m) ?p = Some (drop ?m (take k ?p))"
      using False k by (simp_all add: copy_out_def drop_take min_def)
    have l: "length (take ?m (take k ?p)) = ?m" "length (drop ?m (take k ?p)) = k - ?m" "?w + ?m = ?n" "k - ?m \<le> ?w" "?w \<le> length ?b"
      using False k o by simp_all
    have c: "copy_in ?w (take ?m (take k ?p)) ?b = Some (take ?w ?b @ take ?m (take k ?p) @ drop ?n ?b)"
      using copy_in_len [OF l(1), of ?w ?b] l(3) o by simp
    have "copy_in 0 (drop ?m (take k ?p)) (take ?w ?b @ take ?m (take k ?p) @ drop ?n ?b) = Some ?b'"
      by (rule copy_in_front [OF l(2,4,5)])
    moreover have "trunc15 (k - ?m) = k - ?m" "?w \<le> ?n" using o k by simp_all
    ultimately show ?thesis using False d c unfolding rt_ringbuffer_put_force_def Let_def p w prod.case
      by (cases "k + length (rb_data rb) \<le> ?n") (simp_all add: sp)
  qed
qed

section \<open>What the operations do\<close>

text \<open>
  (C28) Putting bytes into a ring appends as many of them as there is space for and says how many; getting takes
  as many as were asked for and are there off the front. Both keep the ring in order across every
  wrap of its indices.
\<close>

theorem rb_put_get_refine:
  assumes "rb_ok rb" "len \<le> length ptr"
  shows "\<exists>k rb'. rt_ringbuffer_put ptr len rb = Some (k, rb') \<and> rb_ok rb' \<and> buffer_size rb' = buffer_size rb \<and>
      k = min len (buffer_size rb - length (rb_data rb)) \<and> rb_data rb' = rb_data rb @ take k ptr \<and>
      (\<exists>rb''. rt_ringbuffer_get n rb' = Some (take n (rb_data rb @ take k ptr), rb'') \<and> rb_ok rb'' \<and>
         rb_data rb'' = drop n (rb_data rb @ take k ptr))"
proof -
  let ?k = "min len (buffer_size rb - length (rb_data rb))"
  let ?rb = "if buffer_size rb = length (rb_data rb) then rb else rb_written (take ?k ptr) rb"
  have p: "rt_ringbuffer_put ptr len rb = Some (?k, ?rb)" using rb_put_ok [OF assms] .
  have "length (take ?k ptr) + length (rb_data rb) \<le> buffer_size rb" using rb_len(2) [OF assms(1)] by simp
  from rb_written_ok [OF assms(1) this]
  have rb: "rb_ok ?rb" "rb_data ?rb = rb_data rb @ take ?k ptr" "buffer_size ?rb = buffer_size rb" using assms(1) by simp_all
  have cut: "take (min n (length xs)) xs = take n xs" "drop (min n (length xs)) xs = drop n xs" for xs :: "u8 list"
    by (simp_all add: min_def)
  obtain rb'' where "rt_ringbuffer_get n ?rb = Some (take n (rb_data ?rb), rb'')" "rb_ok rb''" "rb_data rb'' = drop n (rb_data ?rb)"
    using rb_get_ok [OF rb(1), of n] unfolding cut by blast
  then show ?thesis using p rb by (intro exI [of _ ?k] exI [of _ ?rb]) simp
qed

text \<open>
  Characters put into a ring that has room for them come out once and in order.
\<close>

theorem rb_round_trip:
  assumes "rb_ok rb" "length (rb_data rb) + length cs \<le> buffer_size rb"
  shows "\<exists>rb' rb''. put_all rb_push cs rb = Some rb' \<and>
    get_all rb_pop (length (rb_data rb) + length cs) rb' = Some (rb_data rb @ cs, rb'') \<and> rb_ok rb'' \<and> rb_data rb'' = []"
  using rb.round_trip [OF assms] by simp

text \<open>
  Forcing bytes into a ring, on every branch. What fits is appended. What does not fit should push the oldest
  bytes out, and does when reader and writer are on different sides of the mirror; on the same
  side the code flips the reader over too, and the ring is empty afterwards: the new bytes are lost
  with the old ones, although the call reports that it stored them.
\<close>

theorem rb_put_force_branches:
  assumes ok: "rb_ok rb" and len: "len \<le> length ptr"
  defines "k \<equiv> min len (buffer_size rb)"
  defines "xs \<equiv> take k (drop (len - k) ptr)"
  shows "\<exists>rb'. rt_ringbuffer_put_force ptr len rb = Some (k, rb') \<and> rb_ok rb' \<and>
    rb_data rb' =
      (if k + length (rb_data rb) \<le> buffer_size rb then rb_data rb @ xs
       else if read_mirror rb = write_mirror rb then []
       else drop (length (rb_data rb) + k - buffer_size rb) (rb_data rb @ xs))"
proof -
  let ?r = "read_index rb" and ?w = "write_index rb" and ?n = "buffer_size rb" and ?b = "buffer_ptr rb"
  have o: "?r < ?n" "?w < ?n" "?n \<le> length ?b" "?n < 2 ^ 15" "0 < ?n" using ok by (auto simp: rb_ok_def)
  have k: "length xs = k" "k \<le> ?n" using len by (auto simp: xs_def k_def)
  note run = rb_put_force_write [OF ok len, folded k_def, folded xs_def]
  show ?thesis
  proof (cases "k + length (rb_data rb) \<le> ?n")
    case True
    then show ?thesis using run rb_written_ok [OF ok, of xs] k by (simp add: Let_def)
  next
    case over: False
    show ?thesis
    proof (cases "read_mirror rb = write_mirror rb")
      case True
      then have "?r \<le> ?w" using ok by (simp add: rb_ok_def)
      then have "length (rb_data rb) = ?w - ?r" using True o by (simp add: rb_data_def)
      then have "\<not> ?n - ?w > k" using over o by simp
      then have "\<not> length xs < ?n - ?w" "\<not> k < ?n - ?w" using k by simp_all
      then show ?thesis using run over True o k by (auto simp: Let_def rb_written_far [of xs rb] rb_ok_def rb_data_def)
    next
      case False
      then have wr: "?w \<le> ?r" using ok by (auto simp: rb_ok_def)
      have l: "length (rb_data rb) = ?n - ?r + ?w" using False o by (simp add: rb_data_def)
      show ?thesis
      proof (cases "?n - ?w > k")
        case True
        then have "length xs < ?n - ?w" using k by simp
        then show ?thesis using True run over False o k wr l
          by (auto simp: Let_def rb_written_near [of xs rb] rb_ok_def rb_data_def drop_take)
      next
        case F: False
        then have "\<not> length xs < ?n - ?w" using k by simp
        then show ?thesis using F run over False o k wr l
          by (auto simp: Let_def rb_written_far [of xs rb] rb_ok_def rb_data_def drop_take add.commute)
      qed
    qed
  qed
qed

text \<open>Forcing one character in drops the oldest one when the ring is full.\<close>

lemma rb_putchar_force_ok:
  assumes ok: "rb_ok rb"
  shows "\<exists>rb'. rt_ringbuffer_putchar_force ch rb = Some (1, rb') \<and> rb_ok rb' \<and>
    rb_data rb' = (if length (rb_data rb) = buffer_size rb then tl (rb_data rb) @ [ch] else rb_data rb @ [ch])"
proof (cases "length (rb_data rb) = buffer_size rb")
  case False
  have "rt_ringbuffer_status rb \<noteq> RT_RINGBUFFER_FULL"
    using False ok by (auto simp: rt_ringbuffer_status_def rb_ok_def rb_data_def split: if_splits)
  then have "rt_ringbuffer_putchar_force ch rb = rt_ringbuffer_putchar ch rb"
    using rb_len [OF ok] False by (cases "copy_in (write_index rb) [ch] (buffer_ptr rb)")
      (auto simp: rt_ringbuffer_putchar_force_def rt_ringbuffer_putchar_def Let_def)
  moreover have "length [ch] + length (rb_data rb) \<le> buffer_size rb" using False rb_len(2) [OF ok] by simp
  ultimately show ?thesis using rb_written_one [OF ok] rb_written_ok [OF ok] False by auto
next
  case True
  let ?w = "write_index rb" and ?b = "buffer_ptr rb" and ?n = "buffer_size rb"
  have o: "?w < ?n" "?n \<le> length ?b" "?n < 2 ^ 15" and m: "read_mirror rb \<noteq> write_mirror rb" "read_index rb = ?w"
    using True ok by (auto simp: rb_ok_def rb_data_def split: if_splits)
  have st: "rt_ringbuffer_status rb = RT_RINGBUFFER_FULL" using m by (simp add: rt_ringbuffer_status_def)
  have tl: "tl (rb_data rb) = drop (?w + 1) (take ?n ?b) @ take ?w ?b"
    using m o Cons_nth_drop_Suc [of ?w "take ?n ?b", symmetric] by (simp add: rb_data_def)
  show ?thesis
  proof (cases "?w + 1 = ?n")
    case True
    then have "?n - ?w = 1" by simp
    then show ?thesis using True o m st tl \<open>length (rb_data rb) = ?n\<close>
      by (auto simp: rt_ringbuffer_putchar_force_def copy_in_def Let_def rb_ok_def rb_data_def)
  next
    case False
    then show ?thesis using o m st tl \<open>length (rb_data rb) = ?n\<close>
      by (auto simp: rt_ringbuffer_putchar_force_def copy_in_def Let_def rb_ok_def rb_data_def drop_take)
  qed
qed

subsection \<open>On a sample ring\<close>

text \<open>Three bytes in a ring of four, reader and writer on the same side or not.\<close>

definition demo_rb :: "bool \<Rightarrow> rt_ringbuffer" where
  "demo_rb m = \<lparr>buffer_ptr = [1, 2, 3, 4], read_mirror = False, read_index = (if m then 3 else 0), write_mirror = m,
     write_index = (if m then 2 else 3), buffer_size = 4\<rparr>"

lemma demo_rb_ok: "rb_ok (demo_rb m)" "rb_data (demo_rb True) = [4, 1, 2]" "rb_data (demo_rb False) = [1, 2, 3]"
  "buffer_size (demo_rb m) = 4" "read_mirror (demo_rb m) = False" "write_mirror (demo_rb m) = m"
  by (simp_all add: rb_ok_def demo_rb_def rb_data_def)

theorem rb_put_get_refine_witness:
  "\<exists>k rb'. rt_ringbuffer_put [7, 8] 2 (demo_rb True) = Some (k, rb') \<and> k = 1 \<and> rb_data rb' = [4, 1, 2, 7]"
proof -
  have "(2 :: nat) \<le> length [7, 8 :: u8]" by simp
  from rb_put_get_refine [OF demo_rb_ok(1) this, of True 0] show ?thesis unfolding demo_rb_ok(2,4) by auto
qed

theorem rb_round_trip_witness:
  "\<exists>rb' rb''. put_all rb_push [9] (demo_rb True) = Some rb' \<and> get_all rb_pop 4 rb' = Some ([4, 1, 2, 9], rb'')"
proof -
  let ?d = "demo_rb True"
  have "length (rb_data ?d) + length [9 :: u8] \<le> buffer_size ?d" by (simp add: demo_rb_ok)
  from rb_round_trip [OF demo_rb_ok(1) this] obtain rb' rb'' where r: "put_all rb_push [9] ?d = Some rb'"
    "get_all rb_pop (length (rb_data ?d) + length [9 :: u8]) rb' = Some (rb_data ?d @ [9], rb'')" by blast
  have "length (rb_data ?d) + length [9 :: u8] = 4" "rb_data ?d @ [9] = [4, 1, 2, 9]" by (simp_all add: demo_rb_ok)
  with r have "get_all rb_pop 4 rb' = Some ([4, 1, 2, 9], rb'')" by (simp only:)
  with r(1) show ?thesis by blast
qed

theorem rb_put_force_branches_witness:
  "(\<exists>rb'. rt_ringbuffer_put_force [7, 8] 2 (demo_rb True) = Some (2, rb') \<and> rb_data rb' = [1, 2, 7, 8]) \<and>
   (\<exists>rb'. rt_ringbuffer_put_force [7, 8] 2 (demo_rb False) = Some (2, rb') \<and> rb_data rb' = [])"
proof -
  have "(2 :: nat) \<le> length [7, 8 :: u8]" by simp
  from rb_put_force_branches [OF demo_rb_ok(1) this, of True] rb_put_force_branches [OF demo_rb_ok(1) this, of False]
  show ?thesis by (auto simp: demo_rb_ok)
qed

end
