(* ===== verification/Ipc.thy ===== *)
theory Ipc
  imports Sample
begin

text \<open>
  What the IPC objects of \<^verbatim>\<open>src/ipc.c\<close> share: the list of waiting threads of an
  object, suspending the current thread on it in arrival or priority order, and waking the first
  waiting thread or all of them. \<^verbatim>\<open>list\<close> is a list head, \<open>SuspendQ\<close> of an object
  or \<open>SenderQ\<close> of a mailbox.
\<close>

section \<open>The code\<close>

definition prio_of :: "kernel \<Rightarrow> tid \<Rightarrow> u8" where
  "prio_of s t = (case threads s t of None \<Rightarrow> 0 | Some th \<Rightarrow> current_priority th)"

definition rt_ipc_object_init :: "oid \<Rightarrow> kernel \<Rightarrow> kernel" where
  "rt_ipc_object_init ob s = s\<lparr>tlists := (tlists s)(SuspendQ ob := [])\<rparr>"

definition rt_ipc_list_suspend :: "thead \<Rightarrow> tid \<Rightarrow> u8 \<Rightarrow> kernel \<Rightarrow> (rt_err \<times> kernel) option" where
  "rt_ipc_list_suspend list t flag s =
     do { (_, s) \<leftarrow> rt_thread_suspend t s;
          if flag = RT_IPC_FLAG_FIFO
          then Some (RT_EOK, s\<lparr>tlists := ls_insert_before list t (tlists s)\<rparr>)
          else if flag = RT_IPC_FLAG_PRIO
          then Some (RT_EOK, s\<lparr>tlists := ls_insert_where list (\<lambda>u. prio_of s t < prio_of s u) t (tlists s)\<rparr>)
          else Some (RT_EOK, s) }"

definition rt_ipc_list_resume :: "thead \<Rightarrow> kernel \<Rightarrow> (rt_err \<times> kernel) option" where
  "rt_ipc_list_resume list s =
     (case tlists s list of
        [] \<Rightarrow> None
      | t # _ \<Rightarrow> do { (_, s) \<leftarrow> rt_thread_resume t s; Some (RT_EOK, s) })"

partial_function (option) rt_ipc_list_resume_all :: "thead \<Rightarrow> kernel \<Rightarrow> (rt_err \<times> kernel) option" where
  "rt_ipc_list_resume_all list s =
     (case tlists s list of
        [] \<Rightarrow> Some (RT_EOK, s)
      | t # _ \<Rightarrow>
          do { (_, s) \<leftarrow> rt_thread_resume t (upd_thread t (\<lambda>th. th\<lparr>thread_error := - RT_ERROR\<rparr>) s);
               rt_ipc_list_resume_all list s })"

text \<open>
  The way the IPC calls block: suspend the thread on the list, start its timer when the wait is
  limited, give up the processor. The waiting time is an \<^verbatim>\<open>rt_int32_t\<close>, a 32-bit word
  read with \<open>sint\<close>.
\<close>

definition wait_on :: "thead \<Rightarrow> tid \<Rightarrow> u8 \<Rightarrow> u32 \<Rightarrow> kernel \<Rightarrow> kernel option" where
  "wait_on list t flag time s =
     do { (_, s) \<leftarrow> rt_ipc_list_suspend list t flag s;
          s \<leftarrow> (if sint time > 0 then start_thread_timer t time s else Some s);
          rt_schedule s }"

section \<open>Waiting lists\<close>

fun is_waitq :: "thead \<Rightarrow> bool" where
  "is_waitq (SuspendQ ob) = True"
| "is_waitq (SenderQ n) = True"
| "is_waitq (DriverQ d k) = True"
| "is_waitq _ = False"

lemma waitq_member:
  assumes "sched_wf s" "is_waitq h" "t \<in> set (tlists s h)"
  obtains th where "threads s t = Some th" "stat_of th = RT_THREAD_SUSPEND"
proof -
  obtain th where "threads s t = Some th" "case h of
      Ready p \<Rightarrow> stat_of th = RT_THREAD_READY \<and> p = unat (current_priority th)
    | Defunct \<Rightarrow> stat_of th = RT_THREAD_CLOSE | _ \<Rightarrow> stat_of th = RT_THREAD_SUSPEND"
    using sched_wf_member [OF assms(1,3)] .
  with assms(2) show thesis using that by (cases h) auto
qed

text \<open>Where a thread goes in a waiting list.\<close>

definition queue_in :: "u8 \<Rightarrow> kernel \<Rightarrow> tid \<Rightarrow> tid list \<Rightarrow> tid list" where
  "queue_in flag s t q =
     (if flag = RT_IPC_FLAG_FIFO then q @ [t]
      else if flag = RT_IPC_FLAG_PRIO
      then takeWhile (\<lambda>u. \<not> prio_of s t < prio_of s u) q @ t # dropWhile (\<lambda>u. \<not> prio_of s t < prio_of s u) q
      else q)"

definition parked :: "thead \<Rightarrow> u8 \<Rightarrow> tid \<Rightarrow> rt_thread \<Rightarrow> kernel \<Rightarrow> kernel" where
  "parked h flag t th s =
     (suspended t th s)\<lparr>tlists := (ls_remove t (tlists s))(h := queue_in flag s t (ls_remove t (tlists s) h))\<rparr>"

lemma parked_sel [simp]:
  "threads (parked h flag t th s) = (threads s)(t \<mapsto> set_stat RT_THREAD_SUSPEND th)"
  "rt_timer_list (parked h flag t th s) = removeAll (ThreadTimer t) (rt_timer_list s)"
  "timers (parked h flag t th s) = timers s"
  "rt_current_thread (parked h flag t th s) = rt_current_thread s"
  "tlists (parked h flag t th s) = (ls_remove t (tlists s))(h := queue_in flag s t (ls_remove t (tlists s) h))"
  by (simp_all add: parked_def)

lemma same_rest_parked: "same_rest s (parked h flag t th s)"
  using same_rest_suspended [of s t th] by (simp add: parked_def same_rest_def)

lemma prio_of_suspended [simp]:
  "threads s t = Some th \<Longrightarrow> prio_of (suspended t th s) = prio_of s"
  by (auto simp: prio_of_def fun_eq_iff)

lemma set_queue_in: "flag = RT_IPC_FLAG_FIFO \<or> flag = RT_IPC_FLAG_PRIO \<Longrightarrow>
   set (queue_in flag s t q) = insert t (set q)"
  by (auto simp: queue_in_def dest: set_takeWhileD set_dropWhileD)
     (metis UnE set_append takeWhile_dropWhile_id)

lemma waitq_not_ready: "is_waitq h \<Longrightarrow> h \<noteq> Ready p"
  by auto

lemma rt_ipc_list_suspend_eq:
  assumes wf: "kernel_wf s" and t: "threads s t = Some th" "stat_of th = RT_THREAD_READY"
    and h: "is_waitq h" and flag: "flag = RT_IPC_FLAG_FIFO \<or> flag = RT_IPC_FLAG_PRIO"
  shows "rt_ipc_list_suspend h t flag s = Some (RT_EOK, parked h flag t th s)"
    and "kernel_wf (parked h flag t th s)"
proof -
  let ?u = "suspended t th s"
  have s: "rt_thread_suspend t s = Some (RT_EOK, ?u)" using rt_thread_suspend_eq [OF wf t(1)] t(2) by simp
  have u: "kernel_wf ?u" by (rule suspended_wf [OF wf t])
  define l where "l = (ls_remove t (tlists s))(h := queue_in flag s t (ls_remove t (tlists s) h))"
  have l: "l = (if flag = RT_IPC_FLAG_FIFO then ls_insert_before h t (tlists ?u)
                else ls_insert_where h (\<lambda>u. prio_of s t < prio_of s u) t (tlists ?u))"
    using flag by (auto simp: l_def queue_in_def ls_insert_before_def ls_insert_where_def)
  show "rt_ipc_list_suspend h t flag s = Some (RT_EOK, parked h flag t th s)"
    using s t flag l unfolding rt_ipc_list_suspend_def parked_def l_def by auto
  have lw: "lists_wf l"
    unfolding l using sched_wf_lists [OF kernel_wfD(1) [OF u]]
    by (simp add: lists_wf_insert_before lists_wf_insert_where)
  have "sched_wf (?u\<lparr>tlists := l\<rparr>)"
  proof (rule sched_wf_park [OF kernel_wfD(1) [OF u], of t _ h])
    show "threads ?u t = Some (set_stat RT_THREAD_SUSPEND th)" by simp
    show "(\<exists>x y d k. h = SuspendQ x \<or> h = SenderQ y \<or> h = DriverQ d k) \<and> stat_of (set_stat RT_THREAD_SUSPEND th) = RT_THREAD_SUSPEND \<or>
        h = Defunct \<and> stat_of (set_stat RT_THREAD_SUSPEND th) = RT_THREAD_CLOSE"
      using h by (cases h) auto
    show "u \<in> set (l h') \<longleftrightarrow> u \<in> set (tlists ?u h') \<or> u = t \<and> h' = h" for u h'
      using set_queue_in [OF flag, of s t "ls_remove t (tlists s) h"] by (auto simp: l_def)
    show "l (Ready p) = tlists ?u (Ready p)" for p
      using waitq_not_ready [OF h, of p] by (simp add: l_def)
  qed (fact lw)
  then have "kernel_wf (?u\<lparr>tlists := l\<rparr>)" by (rule kernel_wf_tlists [OF u])
  then show "kernel_wf (parked h flag t th s)" by (simp add: parked_def l_def)
qed

text \<open>Waking the first thread.\<close>

definition woken :: "tid \<Rightarrow> rt_thread \<Rightarrow> kernel \<Rightarrow> kernel" where
  "woken t th s = readied t th (timer_off (ThreadTimer t) s)"

lemma woken_sel [simp]:
  "threads (woken t th s) = (threads s)(t \<mapsto> set_stat RT_THREAD_READY th)"
  "rt_timer_list (woken t th s) = removeAll (ThreadTimer t) (rt_timer_list s)"
  "timers (woken t th s) = timers s" "rt_current_thread (woken t th s) = rt_current_thread s"
  "tlists (woken t th s) = ls_insert_before (Ready (unat (current_priority th))) t (ls_remove t (tlists s))"
  by (simp_all add: woken_def)

lemma same_rest_woken: "same_rest s (woken t th s)"
  unfolding woken_def by (rule same_rest_trans [OF same_rest_timer_off same_rest_readied])

lemma rt_thread_resume_woken:
  assumes wf: "kernel_wf s" and t: "threads s t = Some th" "stat_of th = RT_THREAD_SUSPEND"
  shows "rt_thread_resume t s = Some (RT_EOK, woken t th s)" and "kernel_wf (woken t th s)"
  using rt_thread_resume_eq [OF wf t(1)] t(2) resumed_wf [OF wf t] by (simp_all add: woken_def)

lemma removeAll_hd: "lists_wf S \<Longrightarrow> S h = t # q \<Longrightarrow> removeAll t (S h) = q"
  using lists_wf_distinct [of S h] by (auto simp: removeAll_id)

lemma woken_queue:
  assumes "lists_wf (tlists s)" "is_waitq h"
  shows "tlists (woken t th s) h = removeAll t (tlists s h)"
  using waitq_not_ready [OF assms(2)] by (simp add: ls_insert_before_def ls_remove_def)

lemma runnable_woken:
  assumes "threads s t = Some th" "stat_of th = RT_THREAD_SUSPEND" "stacks_ok s"
  shows "runnable (woken t th s)"
  unfolding woken_def by (rule runnable_readied) (use assms in \<open>auto simp: stacks_ok_def\<close>)

lemma rt_ipc_list_resume_eq:
  assumes wf: "kernel_wf s" and h: "is_waitq h" and q: "tlists s h = t # q"
  obtains th where "threads s t = Some th" "stat_of th = RT_THREAD_SUSPEND"
    "rt_ipc_list_resume h s = Some (RT_EOK, woken t th s)" "kernel_wf (woken t th s)"
    "tlists (woken t th s) h = q"
proof -
  obtain th where th: "threads s t = Some th" "stat_of th = RT_THREAD_SUSPEND"
    using waitq_member [OF kernel_wfD(1) [OF wf] h, of t] q by auto
  note w = rt_thread_resume_woken [OF wf th]
  have lw: "lists_wf (tlists s)" using sched_wf_lists [OF kernel_wfD(1) [OF wf]] .
  show thesis
    using that [OF th _ w(2)] w(1) q woken_queue [OF lw h, of t th] removeAll_hd [OF lw q]
    by (simp add: rt_ipc_list_resume_def)
qed

text \<open>A list in priority order stays so, and among equal priorities the newcomer is last.\<close>

definition prio_sorted :: "kernel \<Rightarrow> tid list \<Rightarrow> bool" where
  "prio_sorted s q \<longleftrightarrow> sorted (map (prio_of s) q)"

lemma queue_in_prio:
  assumes "prio_sorted s q"
  shows "prio_sorted s (queue_in RT_IPC_FLAG_PRIO s t q)"
    and "queue_in RT_IPC_FLAG_PRIO s t q =
      filter (\<lambda>u. prio_of s u \<le> prio_of s t) q @ t # filter (\<lambda>u. prio_of s t < prio_of s u) q"
proof -
  let ?P = "\<lambda>u. \<not> prio_of s t < prio_of s u"
  have "takeWhile ?P q = filter ?P q \<and> dropWhile ?P q = filter (\<lambda>u. \<not> ?P u) q"
    using assms unfolding prio_sorted_def
  proof (induction q)
    case (Cons u q)
    show ?case
    proof (cases "prio_of s t < prio_of s u")
      case True
      then have "\<forall>v \<in> set q. prio_of s t < prio_of s v" using Cons.prems by (auto dest: order_less_le_trans)
      then have "filter ?P q = []" "filter (\<lambda>u. \<not> ?P u) q = q"
        by (auto simp: filter_empty_conv filter_id_conv)
      then show ?thesis using True by simp
    qed (use Cons in auto)
  qed simp
  then show e: "queue_in RT_IPC_FLAG_PRIO s t q =
      filter (\<lambda>u. prio_of s u \<le> prio_of s t) q @ t # filter (\<lambda>u. prio_of s t < prio_of s u) q"
    by (simp add: queue_in_def not_less not_le)
  show "prio_sorted s (queue_in RT_IPC_FLAG_PRIO s t q)"
    using assms unfolding e prio_sorted_def
    by (auto simp: sorted_append sorted_filter dest: order_less_imp_le)
qed

text \<open>Waking all: the list is empty afterwards, and every thread on it is ready with \<^verbatim>\<open>-RT_ERROR\<close>.\<close>

definition failed :: "rt_thread \<Rightarrow> rt_thread" where
  "failed th = set_stat RT_THREAD_READY (th\<lparr>thread_error := - RT_ERROR\<rparr>)"

lemma failed_sel [simp]:
  "stat_of (failed th) = RT_THREAD_READY" "thread_error (failed th) = - RT_ERROR"
  "rt_scheduler_stack_check (failed th) = rt_scheduler_stack_check th"
  by (simp_all add: failed_def)

lemma resume_all_step:
  assumes wf: "kernel_wf s" and h: "is_waitq h" and q: "tlists s h = t # q"
  obtains s' th where "rt_ipc_list_resume_all h s = rt_ipc_list_resume_all h s'" "kernel_wf s'" "tlists s' h = q"
    "threads s t = Some th" "threads s' = (threads s)(t \<mapsto> failed th)" "same_rest s s'"
    "\<And>h'. is_waitq h' \<Longrightarrow> h' \<noteq> h \<Longrightarrow> tlists s' h' = tlists s h'" "timers s' = timers s"
    "set (rt_timer_list s') \<subseteq> set (rt_timer_list s)" "rt_current_thread s' = rt_current_thread s"
    "\<forall>ob. (\<forall>tm. ob \<noteq> OTimer tm) \<longrightarrow> objects s' ob = objects s ob"
proof -
  obtain th where th: "threads s t = Some th" "stat_of th = RT_THREAD_SUSPEND"
    using waitq_member [OF kernel_wfD(1) [OF wf] h, of t] q by auto
  let ?e = "upd_thread t (\<lambda>th. th\<lparr>thread_error := - RT_ERROR\<rparr>) s"
  let ?f = "th\<lparr>thread_error := - RT_ERROR\<rparr>"
  have e: "kernel_wf ?e" by (rule kernel_wf_upd_thread [OF wf]) (simp add: sched_view_def)
  have et: "threads ?e t = Some ?f" "tlists ?e = tlists s" "threads ?e = (threads s)(t \<mapsto> ?f)"
    "rt_timer_list ?e = rt_timer_list s" "timers ?e = timers s" "rt_current_thread ?e = rt_current_thread s"
    using th by (simp_all add: upd_thread_def)
  note w = rt_thread_resume_woken [OF e et(1)]
  have lw: "lists_wf (tlists s)" using sched_wf_lists [OF kernel_wfD(1) [OF wf]] .
  have wq: "tlists (woken t ?f ?e) h' = removeAll t (tlists s h')" if "is_waitq h'" for h'
    using woken_queue [OF _ that, of ?e t ?f] lw et(2) by simp
  have "rt_ipc_list_resume_all h s = rt_ipc_list_resume_all h (woken t ?f ?e)"
    using q w(1) th by (subst rt_ipc_list_resume_all.simps) simp
  moreover have "kernel_wf (woken t ?f ?e)" using w(2) th by simp
  moreover have "tlists (woken t ?f ?e) h = q" using wq [OF h] removeAll_hd [OF lw q] by simp
  moreover have "threads (woken t ?f ?e) = (threads s)(t \<mapsto> failed th)" using et by (simp add: failed_def)
  moreover have "same_rest s (woken t ?f ?e)"
    by (rule same_rest_trans [OF _ same_rest_woken]) (simp add: same_rest_def upd_thread_def)
  moreover have "tlists (woken t ?f ?e) h' = tlists s h'" if "is_waitq h'" "h' \<noteq> h" for h'
  proof -
    have "t \<notin> set (tlists s h')" using lists_wf_same [OF lw, of t h h'] q that(2) by auto
    then show ?thesis using wq [OF that(1)] by simp
  qed
  moreover have "\<forall>ob. (\<forall>tm. ob \<noteq> OTimer tm) \<longrightarrow> objects (woken t ?f ?e) ob = objects s ob"
    by (simp add: woken_def upd_thread_def)
  ultimately show thesis using that th(1) et by simp
qed

lemma rt_ipc_list_resume_all_wakes:
  assumes wf: "kernel_wf s" and h: "is_waitq h"
  shows "\<exists>s'. rt_ipc_list_resume_all h s = Some (RT_EOK, s') \<and> kernel_wf s' \<and> same_rest s s' \<and>
           tlists s' h = [] \<and> (\<forall>h'. is_waitq h' \<longrightarrow> h' \<noteq> h \<longrightarrow> tlists s' h' = tlists s h') \<and>
           threads s' = (\<lambda>t. if t \<in> set (tlists s h) then map_option failed (threads s t) else threads s t) \<and>
           timers s' = timers s \<and> set (rt_timer_list s') \<subseteq> set (rt_timer_list s) \<and>
           rt_current_thread s' = rt_current_thread s \<and>
           (\<forall>ob. (\<forall>tm. ob \<noteq> OTimer tm) \<longrightarrow> objects s' ob = objects s ob)"
  using wf
proof (induction "tlists s h" arbitrary: s)
  case Nil
  then show ?case by (auto simp: rt_ipc_list_resume_all.simps)
next
  case (Cons t q)
  note q = Cons.hyps(2) [symmetric]
  obtain u th where u: "rt_ipc_list_resume_all h s = rt_ipc_list_resume_all h u" "kernel_wf u" "tlists u h = q"
    "threads s t = Some th" "threads u = (threads s)(t \<mapsto> failed th)" "same_rest s u"
    "\<And>h'. is_waitq h' \<Longrightarrow> h' \<noteq> h \<Longrightarrow> tlists u h' = tlists s h'" "timers u = timers s"
    "set (rt_timer_list u) \<subseteq> set (rt_timer_list s)" "rt_current_thread u = rt_current_thread s"
    "\<forall>ob. (\<forall>tm. ob \<noteq> OTimer tm) \<longrightarrow> objects u ob = objects s ob"
    using resume_all_step [OF Cons.prems h q] by metis
  have nin: "t \<notin> set q"
    using lists_wf_distinct [OF sched_wf_lists [OF kernel_wfD(1) [OF Cons.prems]], of h] q by simp
  obtain s' where s': "rt_ipc_list_resume_all h u = Some (RT_EOK, s')" "kernel_wf s'" "same_rest u s'"
    "tlists s' h = []" "\<And>h'. is_waitq h' \<Longrightarrow> h' \<noteq> h \<Longrightarrow> tlists s' h' = tlists u h'"
    "threads s' = (\<lambda>t. if t \<in> set q then map_option failed (threads u t) else threads u t)"
    "timers s' = timers u" "set (rt_timer_list s') \<subseteq> set (rt_timer_list u)"
    "rt_current_thread s' = rt_current_thread u"
    "\<forall>ob. (\<forall>tm. ob \<noteq> OTimer tm) \<longrightarrow> objects s' ob = objects u ob"
    using Cons.hyps(1) [OF u(3) [symmetric] u(2)] u(3) by auto
  have "threads s' = (\<lambda>t. if t \<in> set (tlists s h) then map_option failed (threads s t) else threads s t)"
    using nin u(4) q by (auto simp: s'(6) u(5) fun_eq_iff)
  then show ?case using s' u same_rest_trans [OF u(6) s'(3)] by auto
qed

lemma runnable_failed:
  assumes r: "runnable s" and w: "sched_wf s" and h: "is_waitq h"
    and t: "threads s' = (\<lambda>t. if t \<in> set (tlists s h) then map_option failed (threads s t) else threads s t)"
  shows "runnable s'"
proof -
  obtain u uh where u: "threads s u = Some uh" "stat_of uh = RT_THREAD_READY" and ok: "stacks_ok s"
    using r by (auto simp: runnable_def)
  have "\<exists>th. threads s' u = Some th \<and> stat_of th = RT_THREAD_READY"
    using u by (simp add: t)
  moreover have "stacks_ok s'" unfolding stacks_ok_def
  proof (intro allI impI)
    fix v vh assume v: "threads s' v = Some vh" "stat_of vh = RT_THREAD_READY \<or> stat_of vh = RT_THREAD_SUSPEND"
    show "rt_scheduler_stack_check vh = Some ()"
    proof (cases "v \<in> set (tlists s h)")
      case True
      then obtain th where "threads s v = Some th" "stat_of th = RT_THREAD_SUSPEND"
        using waitq_member [OF w h] by blast
      then show ?thesis using v True ok by (auto simp: t stacks_ok_def)
    next
      case False
      then show ?thesis using v ok by (auto simp: t stacks_ok_def)
    qed
  qed
  ultimately show ?thesis by (auto simp: runnable_def)
qed

section \<open>Blocking\<close>

lemma runnable_parked:
  assumes "runnable_without t s" "threads s t = Some th" "stat_of th = RT_THREAD_READY"
  shows "runnable (parked h flag t th s)"
  using runnable_suspended [OF assms] runnable_cong [of "parked h flag t th s" "suspended t th s"] by simp

lemma wait_on_blocks:
  assumes wf: "kernel_wf s" and t: "threads s t = Some th" "stat_of th = RT_THREAD_READY"
    and run: "runnable_without t s" and h: "is_waitq h"
    and flag: "flag = RT_IPC_FLAG_FIFO \<or> flag = RT_IPC_FLAG_PRIO"
    and time: "sint time > 0 \<Longrightarrow> time < RT_TICK_MAX div 2"
  obtains s' where "wait_on h t flag time s = Some s'" "kernel_wf s'" "same_rest s s'"
    "threads s' = (threads s)(t \<mapsto> set_stat RT_THREAD_SUSPEND th)"
    "tlists s' = (ls_remove t (tlists s))(h := queue_in flag s t (ls_remove t (tlists s) h))"
    "if sint time > 0 then ThreadTimer t \<in> set (rt_timer_list s') \<and> due_in s' (ThreadTimer t) = time
     else ThreadTimer t \<notin> set (rt_timer_list s')"
    "rt_scheduler_lock_nest s = 0 \<longrightarrow> runs_highest s'"
proof -
  let ?p = "parked h flag t th s"
  note p = rt_ipc_list_suspend_eq [OF wf t h flag]
  have st: "threads ?p t = Some (set_stat RT_THREAD_SUSPEND th)" by simp
  define a where "a = (if sint time > 0 then armed t time ?p else ?p)"
  have a: "kernel_wf a" "(if sint time > 0 then start_thread_timer t time ?p else Some ?p) = Some a"
    "threads a = threads ?p" "tlists a = tlists ?p"
    using start_thread_timer_eq [OF p(2) st] time p(2) by (simp_all add: a_def)
  have rest: "same_rest s a"
    using same_rest_parked same_rest_trans [OF same_rest_parked same_rest_armed] by (simp add: a_def)
  have r: "runnable a" using runnable_parked [OF run t] runnable_cong [OF a(3)] by simp
  obtain s' where s': "rt_schedule a = Some s'" "kernel_wf s'" "same_rest a s'" "threads s' = threads a"
    "tlists s' = tlists a" "rt_timer_list s' = rt_timer_list a" "timers s' = timers a" "runnable s'"
    "rt_scheduler_lock_nest a = 0 \<longrightarrow> runs_highest s'" using schedule_ends [OF a(1) r] .
  have obj: "thread_obj s t" using threads_wfD(1) [OF kernel_wfD(4) [OF wf] t(1)] t(2) by simp
  then obtain tm where tm: "timers ?p (ThreadTimer t) = Some tm" by (auto elim!: thread_objE)
  have due: "due_in s' y = due_in a y" for y
    using s'(7) same_restD(7) [OF s'(3)] by (simp add: due_in_def timeout_of_def)
  have timer: "if sint time > 0 then ThreadTimer t \<in> set (rt_timer_list s') \<and> due_in s' (ThreadTimer t) = time
     else ThreadTimer t \<notin> set (rt_timer_list s')"
    unfolding s'(6) due using armed_due [OF tm, of time] by (simp add: a_def)
  have "wait_on h t flag time s = Some s'" using p(1) a(2) s'(1) by (simp add: wait_on_def)
  from that [OF this s'(2) same_rest_trans [OF rest s'(3)] _ _ timer] show thesis
    using s'(4,5,9) a(3,4) same_restD(9) [OF rest] by simp
qed

text \<open>Blocking leaves the headers of the IPC objects alone.\<close>

lemma rt_timer_start_objects:
  assumes "rt_timer_start tm s = Some (r, s')"
  shows "\<exists>y. objects s' = (objects s)(OTimer tm := y)"
  using assms
  by (clarsimp simp: rt_timer_start_def bind_Some_iff Let_def set_flag_def upd_object_def upd_timer_def
      rt_timer_remove_def simp del: check_type_iff) blast

lemma rt_timer_stop_objects:
  assumes "rt_timer_stop tm s = Some (r, s')"
  shows "\<exists>y. objects s' = (objects s)(OTimer tm := y)"
proof -
  from assms obtain x where x: "objects s (OTimer tm) = Some x"
    by (auto simp: rt_timer_stop_def bind_Some_iff simp del: check_type_iff)
  show ?thesis
  proof (cases "obj_flag x AND RT_TIMER_FLAG_ACTIVATED = 0")
    case True
    then have "s' = s" using assms x by (auto simp: rt_timer_stop_def bind_Some_iff simp del: check_type_iff)
    then have "objects s' = (objects s)(OTimer tm := objects s (OTimer tm))" by simp
    then show ?thesis by blast
  next
    case False
    then have "s' = timer_off tm s"
      using assms x by (auto simp: rt_timer_stop_def bind_Some_iff Let_def timer_off_def simp del: check_type_iff)
    then show ?thesis by auto
  qed
qed

lemma start_thread_timer_objects:
  assumes "start_thread_timer t time s = Some s'"
  shows "\<exists>y. objects s' = (objects s)(OTimer (ThreadTimer t) := y)"
proof -
  from assms obtain r a b u where c: "rt_timer_control (ThreadTimer t) RT_TIMER_CTRL_SET_TIME time s = Some (a, b, u)"
    and st: "rt_timer_start (ThreadTimer t) u = Some (r, s')"
    by (auto simp: start_thread_timer_def bind_Some_iff)
  have "objects u = objects s"
    using c by (auto simp: rt_timer_control_def bind_Some_iff simp del: check_type_iff)
  with rt_timer_start_objects [OF st] show ?thesis by simp
qed

lemma rt_thread_suspend_objects:
  assumes "rt_thread_suspend t s = Some (r, s')"
  shows "\<exists>y. objects s' = (objects s)(OTimer (ThreadTimer t) := y)"
proof (cases "s' = s")
  case True
  then have "objects s' = (objects s)(OTimer (ThreadTimer t) := objects s (OTimer (ThreadTimer t)))" by simp
  then show ?thesis by blast
next
  case False
  with assms obtain f u q where u: "rt_schedule_remove_thread t (upd_thread t f s) = Some u"
    and st: "rt_timer_stop (ThreadTimer t) u = Some (q, s')"
    by (auto simp: rt_thread_suspend_def bind_Some_iff Let_def simp del: check_type_iff split: if_splits)
  have "objects u = objects s"
    using u by (auto simp: rt_schedule_remove_thread_def bind_Some_iff Let_def upd_thread_def split: if_splits)
  with rt_timer_stop_objects [OF st] show ?thesis by simp
qed

lemma wait_on_objects:
  assumes "wait_on h t flag time s = Some s'" "\<And>tm. ob \<noteq> OTimer tm"
  shows "objects s' ob = objects s ob"
proof -
  from assms(1) obtain r u v where u: "rt_ipc_list_suspend h t flag s = Some (r, u)"
    and v: "(if sint time > 0 then start_thread_timer t time u else Some u) = Some v"
    and w: "rt_schedule v = Some s'"
    by (auto simp: wait_on_def bind_Some_iff)
  have "objects u ob = objects s ob"
    using u assms(2)
    by (auto simp: rt_ipc_list_suspend_def bind_Some_iff split: if_splits dest!: rt_thread_suspend_objects)
  moreover have "objects v ob = objects u ob"
    using v assms(2) by (auto split: if_splits dest!: start_thread_timer_objects)
  ultimately show ?thesis using rt_schedule_core(5) [OF w] by simp
qed

lemma ready_off_waitq:
  assumes "sched_wf s" "threads s t = Some th" "stat_of th = RT_THREAD_READY" "is_waitq h"
  shows "ls_remove t (tlists s) h = tlists s h"
proof -
  have "t \<notin> set (tlists s h)"
    using waitq_member [OF assms(1,4), of t] assms(2,3) by force
  then show ?thesis by (simp add: ls_remove_def)
qed

lemma stacks_ok_upd:
  assumes "stacks_ok s" "threads s t = Some th" "threads s' = (threads s)(t \<mapsto> th')"
    "rt_scheduler_stack_check th' = rt_scheduler_stack_check th"
    "stat_of th = RT_THREAD_READY \<or> stat_of th = RT_THREAD_SUSPEND \<or> stat_of th' = stat_of th"
  shows "stacks_ok s'"
  using assms unfolding stacks_ok_def by (auto split: if_splits)

lemma runnable_without_upd:
  assumes r: "runnable_without t s" and u: "threads s u = Some uh" "threads s' = (threads s)(u \<mapsto> uh')"
    and v: "stat_of uh' = stat_of uh" "rt_scheduler_stack_check uh' = rt_scheduler_stack_check uh"
  shows "runnable_without t s'"
proof -
  obtain w wh where w: "w \<noteq> t" "threads s w = Some wh" "stat_of wh = RT_THREAD_READY" and ok: "stacks_ok s"
    using r by (auto simp: runnable_without_def)
  have "\<exists>wh. threads s' w = Some wh \<and> stat_of wh = RT_THREAD_READY"
    using w u v(1) by (cases "w = u") auto
  moreover have "stacks_ok s'" by (rule stacks_ok_upd [OF ok u(1,2) v(2)]) (simp add: v(1))
  ultimately show ?thesis using w(1) by (auto simp: runnable_without_def)
qed

lemma upd_error_wf:
  assumes wf: "kernel_wf s" and t: "threads s t = Some th"
  shows "kernel_wf (upd_thread t (\<lambda>th. th\<lparr>thread_error := e\<rparr>) s)"
    "threads (upd_thread t (\<lambda>th. th\<lparr>thread_error := e\<rparr>) s) = (threads s)(t \<mapsto> th\<lparr>thread_error := e\<rparr>)"
    "tlists (upd_thread t (\<lambda>th. th\<lparr>thread_error := e\<rparr>) s) = tlists s"
    "mutexes (upd_thread t (\<lambda>th. th\<lparr>thread_error := e\<rparr>) s) = mutexes s"
    "objects (upd_thread t (\<lambda>th. th\<lparr>thread_error := e\<rparr>) s) = objects s"
    "same_rest s (upd_thread t (\<lambda>th. th\<lparr>thread_error := e\<rparr>) s)"
    "rt_current_thread (upd_thread t (\<lambda>th. th\<lparr>thread_error := e\<rparr>) s) = rt_current_thread s"
  using t kernel_wf_upd_thread [OF wf, of t "\<lambda>th. th\<lparr>thread_error := e\<rparr>"]
  by (simp_all add: sched_view_def upd_thread_def same_rest_def)

lemma queue_in_cong:
  assumes "\<And>u. u \<in> insert t (set q) \<Longrightarrow> prio_of s' u = prio_of s u"
  shows "queue_in flag s' t q = queue_in flag s t q"
proof -
  have "takeWhile (\<lambda>u. \<not> prio_of s' t < prio_of s' u) q = takeWhile (\<lambda>u. \<not> prio_of s t < prio_of s u) q"
    "dropWhile (\<lambda>u. \<not> prio_of s' t < prio_of s' u) q = dropWhile (\<lambda>u. \<not> prio_of s t < prio_of s u) q"
    using assms by (auto intro!: takeWhile_cong dropWhile_cong)
  then show ?thesis by (simp add: queue_in_def)
qed

text \<open>
  The way a call blocks the running thread: it notes something in its control block and waits.
\<close>

lemma block_current:
  assumes wf: "kernel_wf s" and t: "threads s t = Some th" "stat_of th = RT_THREAD_READY"
    and run: "runnable_without t s" and h: "is_waitq h"
    and flag: "flag = RT_IPC_FLAG_FIFO \<or> flag = RT_IPC_FLAG_PRIO"
    and time: "sint time > 0 \<longrightarrow> time < RT_TICK_MAX div 2"
    and e: "threads e = (threads s)(t \<mapsto> g)" "tlists e = tlists s" "kernel_wf e" "same_rest s e" "objects e = objects s"
    and g: "sched_view g = sched_view th" "rt_scheduler_stack_check g = rt_scheduler_stack_check th"
  obtains s' where "wait_on h t flag time e = Some s'" "kernel_wf s'" "same_rest s s'"
    "threads s' = (threads s)(t \<mapsto> set_stat RT_THREAD_SUSPEND g)"
    "tlists s' h = queue_in flag s t (tlists s h)"
    "\<forall>h'. is_waitq h' \<longrightarrow> h' \<noteq> h \<longrightarrow> tlists s' h' = tlists s h'"
    "if sint time > 0 then ThreadTimer t \<in> set (rt_timer_list s') \<and> due_in s' (ThreadTimer t) = time
     else ThreadTimer t \<notin> set (rt_timer_list s')"
    "rt_scheduler_lock_nest s = 0 \<longrightarrow> runs_highest s'"
    "\<forall>ob. (\<forall>tm. ob \<noteq> OTimer tm) \<longrightarrow> objects s' ob = objects s ob"
proof -
  have et: "threads e t = Some g" "stat_of g = RT_THREAD_READY" using e(1) g(1) t(2) by (simp_all add: sched_view_def)
  have r: "runnable_without t e"
    by (rule runnable_without_upd [OF run t(1) e(1) _ g(2)]) (use t(2) et(2) in simp)
  have tm: "sint time > 0 \<Longrightarrow> time < RT_TICK_MAX div 2" using time by simp
  obtain s' where s': "wait_on h t flag time e = Some s'" "kernel_wf s'" "same_rest e s'"
    "threads s' = (threads e)(t \<mapsto> set_stat RT_THREAD_SUSPEND g)"
    "tlists s' = (ls_remove t (tlists e))(h := queue_in flag e t (ls_remove t (tlists e) h))"
    "if sint time > 0 then ThreadTimer t \<in> set (rt_timer_list s') \<and> due_in s' (ThreadTimer t) = time
     else ThreadTimer t \<notin> set (rt_timer_list s')"
    "rt_scheduler_lock_nest e = 0 \<longrightarrow> runs_highest s'"
    by (rule wait_on_blocks [OF e(3) et r h flag tm])
  have off: "ls_remove t (tlists s) h' = tlists s h'" if "is_waitq h'" for h'
    by (rule ready_off_waitq [OF kernel_wfD(1) [OF wf] t that])
  have pr: "prio_of e u = prio_of s u" for u
    using e(1) g(1) t(1) by (simp add: prio_of_def sched_view_def)
  have "tlists s' h = queue_in flag s t (tlists s h)"
    using s'(5) e(2) off [OF h] queue_in_cong [of t "tlists s h" e s flag] pr by simp
  moreover have "\<forall>ob. (\<forall>tm. ob \<noteq> OTimer tm) \<longrightarrow> objects s' ob = objects s ob"
    using wait_on_objects [OF s'(1)] e(5) by auto
  moreover have "rt_scheduler_lock_nest s = 0 \<longrightarrow> runs_highest s'" using s'(7) same_restD(9) [OF e(4)] by simp
  moreover have "threads s' = (threads s)(t \<mapsto> set_stat RT_THREAD_SUSPEND g)" using s'(4) e(1) by simp
  moreover have "\<forall>h'. is_waitq h' \<longrightarrow> h' \<noteq> h \<longrightarrow> tlists s' h' = tlists s h'" using s'(5) e(2) off by simp
  ultimately show thesis using that [OF s'(1,2) same_rest_trans [OF e(4) s'(3)]] s'(6) by simp
qed

section \<open>The sample state with a waiting thread\<close>

text \<open>Thread 2 waits on \<open>h\<close> instead, with other private fields.\<close>

definition demo_on :: "thead \<Rightarrow> (rt_thread \<Rightarrow> rt_thread) \<Rightarrow> kernel" where
  "demo_on h f = upd_thread 2 f (demo\<lparr>tlists := (tlists demo)(SuspendQ (OSem 0) := [], h := [2])\<rparr>)"

lemma demo_on_sel [simp]:
  "threads (demo_on h f) = (threads demo)(2 \<mapsto> f (demo_thread 5 2))"
  "tlists (demo_on h f) = (tlists demo)(SuspendQ (OSem 0) := [], h := [2])"
  "objects (demo_on h f) = demo_objects" "rt_timer_list (demo_on h f) = [ThreadTimer 2]"
  "rt_current_thread (demo_on h f) = Some 1" "rt_scheduler_lock_nest (demo_on h f) = 0"
  "rt_interrupt_nest (demo_on h f) = 0" "events (demo_on h f) = events demo"
  "mailboxes (demo_on h f) = mailboxes demo"
  by (auto simp: demo_on_def upd_thread_def)

lemma sched_wf_requeue:
  assumes wf: "sched_wf s" and l: "lists_wf l" and rdy: "\<And>p. l (Ready p) = tlists s (Ready p)"
    and def: "l Defunct = tlists s Defunct"
    and w: "\<And>h t. is_waitq h \<Longrightarrow> t \<in> set (l h) \<Longrightarrow> \<exists>th. threads s t = Some th \<and> stat_of th = RT_THREAD_SUSPEND"
  shows "sched_wf (s\<lparr>tlists := l\<rparr>)"
proof -
  have "\<exists>th. threads s t = Some th \<and>
           (case h of
              Ready p \<Rightarrow> stat_of th = RT_THREAD_READY \<and> p = unat (current_priority th)
            | Defunct \<Rightarrow> stat_of th = RT_THREAD_CLOSE
            | _ \<Rightarrow> stat_of th = RT_THREAD_SUSPEND)" if "t \<in> set (l h)" for h t
  proof (cases "is_waitq h")
    case True
    then show ?thesis using w [OF True that] by (cases h) auto
  next
    case False
    then have "t \<in> set (tlists s h)" using that rdy def by (cases h) auto
    then show ?thesis using wf unfolding sched_wf_def by blast
  qed
  then show ?thesis using wf l rdy unfolding sched_wf_def by simp
qed

lemma demo_on_wf:
  assumes h: "is_waitq h" and v: "sched_view (f (demo_thread 5 2)) = sched_view (demo_thread 5 2)"
    and c: "rt_scheduler_stack_check (f (demo_thread 5 2)) = Some ()"
  shows "kernel_wf (demo_on h f)" "runnable (demo_on h f)"
proof -
  let ?l = "(tlists demo)(SuspendQ (OSem 0) := [], h := [2])"
  have "sched_wf (demo\<lparr>tlists := ?l\<rparr>)"
  proof (rule sched_wf_requeue [OF demo_sched_wf])
    show "lists_wf ?l" using h by (cases h) (auto simp: lists_wf_def split: if_splits)
    show "?l (Ready p) = tlists demo (Ready p)" for p using h by (cases h) auto
    show "?l Defunct = tlists demo Defunct" using h by (cases h) auto
    fix h' t assume "is_waitq h'" "t \<in> set (?l h')"
    then have "t = 2" by (cases h') (auto split: if_splits)
    then show "\<exists>th. threads demo t = Some th \<and> stat_of th = RT_THREAD_SUSPEND" by simp
  qed
  then have "kernel_wf (demo\<lparr>tlists := ?l\<rparr>)" by (rule kernel_wf_tlists [OF demo_wf])
  then show "kernel_wf (demo_on h f)"
    unfolding demo_on_def by (rule kernel_wf_upd_thread) (use v in auto)
  have "stacks_ok (demo_on h f)"
    by (rule stacks_ok_upd [of demo 2 "demo_thread 5 2" _ "f (demo_thread 5 2)"])
       (use demo_runnable(1) c in \<open>simp_all add: runnable_def\<close>)
  moreover have "threads (demo_on h f) 0 = Some (demo_thread 31 1)" "stat_of (demo_thread 31 1) = 1" by simp_all
  ultimately show "runnable (demo_on h f)" unfolding runnable_def by blast
qed

end
