(* ===== verification/Sem.thy ===== *)
theory Sem
  imports Ipc
begin

text \<open>
  Semaphores (\<^verbatim>\<open>rt_sem_*\<close> of \<^verbatim>\<open>src/ipc.c\<close>). A call that waits is
  split at \<^verbatim>\<open>rt_schedule\<close>: \<open>rt_sem_take\<close> ends there with \<open>Pending\<close>, and
  \<open>rt_sem_take_resumed\<close> is what the thread does when it runs again.\<close>

section \<open>The code\<close>

definition set_ipc_flag :: "oid \<Rightarrow> u8 \<Rightarrow> kernel \<Rightarrow> kernel" where
  "set_ipc_flag ob flag = upd_object ob (\<lambda>x. x\<lparr>obj_flag := flag\<rparr>)"

definition rt_sem_init :: "nat \<Rightarrow> cbuf \<Rightarrow> u32 \<Rightarrow> u8 \<Rightarrow> kernel \<Rightarrow> (rt_err \<times> kernel) option" where
  "rt_sem_init sem name value flag s =
     do { s \<leftarrow> rt_object_init (OSem sem) RT_Object_Class_Semaphore name s;
          let s = rt_ipc_object_init (OSem sem) s;
          let s = s\<lparr>sems := (sems s)(sem \<mapsto> \<lparr>sem_value = ucast value\<rparr>)\<rparr>;
          Some (RT_EOK, set_ipc_flag (OSem sem) flag s) }"

definition rt_sem_detach :: "nat \<Rightarrow> kernel \<Rightarrow> (rt_err \<times> kernel) option" where
  "rt_sem_detach sem s =
     do { check_type s (OSem sem) RT_Object_Class_Semaphore;
          sys \<leftarrow> rt_object_is_systemobject s (OSem sem);
          rt_assert sys;
          (_, s) \<leftarrow> rt_ipc_list_resume_all (SuspendQ (OSem sem)) s;
          s \<leftarrow> rt_object_detach (OSem sem) s;
          Some (RT_EOK, s) }"

definition rt_sem_create :: "cbuf \<Rightarrow> u32 \<Rightarrow> u8 \<Rightarrow> nat option \<Rightarrow> kernel \<Rightarrow> (nat option \<times> kernel) option" where
  "rt_sem_create name value flag mem s =
     do { not_in_interrupt s;
          (r, s) \<leftarrow> rt_object_allocate RT_Object_Class_Semaphore name (map_option OSem mem) s;
          case (r, mem) of
            (Some _, Some sem) \<Rightarrow>
              do { let s = rt_ipc_object_init (OSem sem) s;
                   let s = s\<lparr>sems := (sems s)(sem \<mapsto> \<lparr>sem_value = ucast value\<rparr>)\<rparr>;
                   Some (Some sem, set_ipc_flag (OSem sem) flag s) }
          | _ \<Rightarrow> Some (None, s) }"

definition rt_sem_delete :: "nat \<Rightarrow> kernel \<Rightarrow> (rt_err \<times> kernel) option" where
  "rt_sem_delete sem s =
     do { not_in_interrupt s;
          check_type s (OSem sem) RT_Object_Class_Semaphore;
          sys \<leftarrow> rt_object_is_systemobject s (OSem sem);
          rt_assert (\<not> sys);
          (_, s) \<leftarrow> rt_ipc_list_resume_all (SuspendQ (OSem sem)) s;
          s \<leftarrow> rt_object_delete (OSem sem) s;
          Some (RT_EOK, s\<lparr>sems := (sems s)(sem := None)\<rparr>) }"

definition rt_sem_take :: "nat \<Rightarrow> u32 \<Rightarrow> kernel \<Rightarrow> (rt_err outcome \<times> kernel) option" where
  "rt_sem_take sem time s =
     do { check_type s (OSem sem) RT_Object_Class_Semaphore;
          v \<leftarrow> sems s sem;
          if sem_value v > 0
          then Some (Return RT_EOK, s\<lparr>sems := (sems s)(sem \<mapsto> v\<lparr>sem_value := sem_value v - 1\<rparr>)\<rparr>)
          else if sint time = 0 then Some (Return (- RT_ETIMEOUT), s)
          else do { in_thread_context s;
                    t \<leftarrow> rt_thread_self s;
                    x \<leftarrow> objects s (OSem sem);
                    let s = upd_thread t (\<lambda>th. th\<lparr>thread_error := RT_EOK\<rparr>) s;
                    s \<leftarrow> wait_on (SuspendQ (OSem sem)) t (obj_flag x) time s;
                    Some (Pending, s) } }"

definition rt_sem_take_resumed :: "tid \<Rightarrow> kernel \<Rightarrow> rt_err option" where
  "rt_sem_take_resumed t s =
     do { th \<leftarrow> threads s t;
          if thread_error th \<noteq> RT_EOK then Some (thread_error th) else Some RT_EOK }"

definition rt_sem_trytake :: "nat \<Rightarrow> kernel \<Rightarrow> (rt_err outcome \<times> kernel) option" where
  "rt_sem_trytake sem = rt_sem_take sem 0"

definition rt_sem_release :: "nat \<Rightarrow> kernel \<Rightarrow> (rt_err \<times> kernel) option" where
  "rt_sem_release sem s =
     do { check_type s (OSem sem) RT_Object_Class_Semaphore;
          v \<leftarrow> sems s sem;
          if tlists s (SuspendQ (OSem sem)) \<noteq> []
          then do { (_, s) \<leftarrow> rt_ipc_list_resume (SuspendQ (OSem sem)) s;
                    s \<leftarrow> rt_schedule s;
                    Some (RT_EOK, s) }
          else Some (RT_EOK, s\<lparr>sems := (sems s)(sem \<mapsto> v\<lparr>sem_value := sem_value v + 1\<rparr>)\<rparr>) }"

definition rt_sem_control :: "nat \<Rightarrow> int \<Rightarrow> u32 \<Rightarrow> kernel \<Rightarrow> (rt_err \<times> kernel) option" where
  "rt_sem_control sem cmd arg s =
     do { check_type s (OSem sem) RT_Object_Class_Semaphore;
          if cmd = RT_IPC_CMD_RESET
          then do { (_, s) \<leftarrow> rt_ipc_list_resume_all (SuspendQ (OSem sem)) s;
                    let s = s\<lparr>sems := (sems s)(sem \<mapsto> \<lparr>sem_value = ucast arg\<rparr>)\<rparr>;
                    s \<leftarrow> rt_schedule s;
                    Some (RT_EOK, s) }
          else Some (- RT_ERROR, s) }"

section \<open>The contract\<close>

text \<open>
  A semaphore in order: its object header and control block exist, it is a FIFO or a priority
  semaphore, and threads wait on it only while its value is zero.
\<close>

definition sem_ok :: "kernel \<Rightarrow> nat \<Rightarrow> bool" where
  "sem_ok s sem \<longleftrightarrow>
     (\<exists>v x. sems s sem = Some v \<and> objects s (OSem sem) = Some x \<and>
        obj_type x AND NOT RT_Object_Class_Static = RT_Object_Class_Semaphore \<and>
        (obj_flag x = RT_IPC_FLAG_FIFO \<or> obj_flag x = RT_IPC_FLAG_PRIO) \<and>
        (tlists s (SuspendQ (OSem sem)) \<noteq> [] \<longrightarrow> sem_value v = 0))"

text \<open>The abstract semaphore: its count and the threads waiting for it, first to be served first.\<close>

definition sem_abs :: "kernel \<Rightarrow> nat \<Rightarrow> (nat \<times> tid list) option" where
  "sem_abs s sem = map_option (\<lambda>v. (unat (sem_value v), tlists s (SuspendQ (OSem sem)))) (sems s sem)"

fun sem_post :: "nat \<times> tid list \<Rightarrow> nat \<times> tid list" where
  "sem_post (n, []) = ((n + 1) mod 2 ^ 16, [])"
| "sem_post (n, t # q) = (n, q)"

lemma sem_okE:
  assumes "sem_ok s sem"
  obtains v x where "sems s sem = Some v" "objects s (OSem sem) = Some x"
    "check_type s (OSem sem) RT_Object_Class_Semaphore = Some ()"
    "obj_flag x = RT_IPC_FLAG_FIFO \<or> obj_flag x = RT_IPC_FLAG_PRIO"
    "tlists s (SuspendQ (OSem sem)) \<noteq> [] \<longrightarrow> sem_value v = 0"
  using assms unfolding sem_ok_def by (auto simp: check_type_known)

text \<open>A take that cannot be served at once: the thread waits, and its timer runs if the wait is limited.\<close>

lemma rt_sem_take_waits:
  assumes wf: "kernel_wf s" and ok: "sem_ok s sem" and v: "sem_abs s sem = Some (0, q)"
    and cur: "rt_current_thread s = Some t" "threads s t = Some th" "stat_of th = RT_THREAD_READY"
    and irq: "rt_interrupt_nest s = 0" and run: "runnable_without t s"
    and time: "sint time \<noteq> 0" "sint time > 0 \<longrightarrow> time < RT_TICK_MAX div 2"
  obtains s' x where "rt_sem_take sem time s = Some (Pending, s')" "kernel_wf s'"
    "objects s (OSem sem) = Some x"
    "threads s' = (threads s)(t \<mapsto> set_stat RT_THREAD_SUSPEND (th\<lparr>thread_error := RT_EOK\<rparr>))"
    "sem_abs s' sem = Some (0, queue_in (obj_flag x) s t q)" "sems s' = sems s"
    "if sint time > 0 then ThreadTimer t \<in> set (rt_timer_list s') \<and> due_in s' (ThreadTimer t) = time
     else ThreadTimer t \<notin> set (rt_timer_list s')"
    "rt_scheduler_lock_nest s = 0 \<longrightarrow> runs_highest s'"
    "\<And>h. is_waitq h \<Longrightarrow> h \<noteq> SuspendQ (OSem sem) \<Longrightarrow> tlists s' h = tlists s h"
proof -
  obtain c x where c: "sems s sem = Some c" and x: "objects s (OSem sem) = Some x"
    and ck: "check_type s (OSem sem) RT_Object_Class_Semaphore = Some ()"
    and fl: "obj_flag x = RT_IPC_FLAG_FIFO \<or> obj_flag x = RT_IPC_FLAG_PRIO"
    using ok by (rule sem_okE)
  have c0: "sem_value c = 0" "tlists s (SuspendQ (OSem sem)) = q"
    using v c by (auto simp: sem_abs_def unat_eq_0)
  let ?e = "upd_thread t (\<lambda>th. th\<lparr>thread_error := RT_EOK\<rparr>) s"
  let ?f = "th\<lparr>thread_error := RT_EOK\<rparr>"
  have e: "kernel_wf ?e" by (rule kernel_wf_upd_thread [OF wf]) (simp add: sched_view_def)
  have et: "threads ?e t = Some ?f" "threads ?e = (threads s)(t \<mapsto> ?f)" "tlists ?e = tlists s"
    "prio_of ?e = prio_of s" "same_rest s ?e" "sems ?e = sems s"
    using cur(2) by (auto simp: upd_thread_def prio_of_def fun_eq_iff same_rest_def)
  have st: "stat_of ?f = RT_THREAD_READY" using cur(3) by simp
  have r: "runnable_without t ?e"
    using run cur(2,3) by (auto simp: runnable_without_def stacks_ok_def et split: if_splits)
  have hq: "is_waitq (SuspendQ (OSem sem))" by simp
  obtain s' where s': "wait_on (SuspendQ (OSem sem)) t (obj_flag x) time ?e = Some s'" "kernel_wf s'" "same_rest ?e s'"
    "threads s' = (threads ?e)(t \<mapsto> set_stat RT_THREAD_SUSPEND ?f)"
    "tlists s' = (ls_remove t (tlists ?e))(SuspendQ (OSem sem) :=
        queue_in (obj_flag x) ?e t (ls_remove t (tlists ?e) (SuspendQ (OSem sem))))"
    "if sint time > 0 then ThreadTimer t \<in> set (rt_timer_list s') \<and> due_in s' (ThreadTimer t) = time
     else ThreadTimer t \<notin> set (rt_timer_list s')"
    "rt_scheduler_lock_nest ?e = 0 \<longrightarrow> runs_highest s'"
    using wait_on_blocks [OF e et(1) st r hq fl] time by blast
  have off: "ls_remove t (tlists s) h = tlists s h" if "is_waitq h" for h
    by (rule ready_off_waitq [OF kernel_wfD(1) [OF wf] cur(2,3) that])
  have run': "rt_sem_take sem time s = Some (Pending, s')"
    using ck c c0 time cur irq x s'(1)
    by (simp add: rt_sem_take_def in_thread_context_def rt_thread_self_def del: check_type_iff)
  have q': "tlists s' (SuspendQ (OSem sem)) = queue_in (obj_flag x) s t q"
    using s'(5) off [of "SuspendQ (OSem sem)"] c0 by (simp add: et queue_in_def)
  show thesis
  proof (rule that [OF run' s'(2) x _ _ _ s'(6)])
    show "threads s' = (threads s)(t \<mapsto> set_stat RT_THREAD_SUSPEND ?f)" using s'(4) et(2) by simp
    show sv: "sems s' = sems s" using same_restD(1) [OF s'(3)] et(6) by simp
    show "sem_abs s' sem = Some (0, queue_in (obj_flag x) s t q)"
      using c c0 q' sv by (simp add: sem_abs_def)
    show "rt_scheduler_lock_nest s = 0 \<longrightarrow> runs_highest s'" using s'(7) same_restD(9) [OF et(5)] by simp
    show "tlists s' h = tlists s h" if "is_waitq h" "h \<noteq> SuspendQ (OSem sem)" for h
      using s'(5) off [OF that(1)] that(2) by (simp add: et)
  qed
qed

text \<open>A release serves the first waiting thread, or counts.\<close>

lemma rt_sem_release_posts:
  assumes wf: "kernel_wf s" and ok: "sem_ok s sem" and a: "sem_abs s sem = Some a" and run: "runnable s"
  obtains s' where "rt_sem_release sem s = Some (RT_EOK, s')" "kernel_wf s'" "runnable s'" "sem_ok s' sem"
    "sem_abs s' sem = Some (sem_post a)" "timers s' = timers s" "rt_tick s' = rt_tick s"
    "set (rt_timer_list s') \<subseteq> set (rt_timer_list s)"
    "\<And>ob. map_option obj_view (objects s' ob) = map_option obj_view (objects s ob)"
    "threads s' = (case snd a of [] \<Rightarrow> threads s
       | t # _ \<Rightarrow> (threads s)(t := map_option (set_stat RT_THREAD_READY) (threads s t)))"
proof -
  obtain v x where v: "sems s sem = Some v" and x: "objects s (OSem sem) = Some x"
    and ck: "check_type s (OSem sem) RT_Object_Class_Semaphore = Some ()"
    and fl: "obj_flag x = RT_IPC_FLAG_FIFO \<or> obj_flag x = RT_IPC_FLAG_PRIO"
    and zero: "tlists s (SuspendQ (OSem sem)) \<noteq> [] \<longrightarrow> sem_value v = 0"
    using ok by (rule sem_okE)
  show thesis
  proof (cases "tlists s (SuspendQ (OSem sem))")
    case Nil
    let ?s = "s\<lparr>sems := (sems s)(sem \<mapsto> v\<lparr>sem_value := sem_value v + 1\<rparr>)\<rparr>"
    have "rt_sem_release sem s = Some (RT_EOK, ?s)"
      using ck v Nil by (simp add: rt_sem_release_def del: check_type_iff)
    moreover have "sem_ok ?s sem" using ok Nil by (auto simp: sem_ok_def)
    moreover have "sem_abs ?s sem = Some (sem_post a)"
      using a v Nil by (auto simp: sem_abs_def unat_word_ariths)
    moreover have "runnable ?s" using run runnable_cong [of ?s s] by simp
    moreover have "snd a = []" using a v Nil by (auto simp: sem_abs_def)
    ultimately show thesis using that wf by simp
  next
    case (Cons t q)
    obtain th where th: "threads s t = Some th" "stat_of th = RT_THREAD_SUSPEND"
      "rt_ipc_list_resume (SuspendQ (OSem sem)) s = Some (RT_EOK, woken t th s)" "kernel_wf (woken t th s)"
      "tlists (woken t th s) (SuspendQ (OSem sem)) = q"
      using rt_ipc_list_resume_eq [OF wf _ Cons] by (metis is_waitq.simps(1))
    have rw: "runnable (woken t th s)" using runnable_woken [OF th(1,2)] run by (simp add: runnable_def)
    obtain s' where s': "rt_schedule (woken t th s) = Some s'" "kernel_wf s'" "same_rest (woken t th s) s'"
      "threads s' = threads (woken t th s)" "tlists s' = tlists (woken t th s)"
      "rt_timer_list s' = rt_timer_list (woken t th s)" "timers s' = timers (woken t th s)" "runnable s'"
      using schedule_ends [OF th(4) rw] by metis
    have rest: "same_rest s s'" by (rule same_rest_trans [OF same_rest_woken s'(3)])
    have "rt_sem_release sem s = Some (RT_EOK, s')"
      using ck v Cons th(3) s'(1) by (simp add: rt_sem_release_def del: check_type_iff)
    moreover have "sem_abs s' sem = Some (sem_post a)"
      using a v Cons zero th(5) s'(5) same_restD(1) [OF rest] by (auto simp: sem_abs_def)
    moreover obtain x' where x': "objects s' (OSem sem) = Some x'" "obj_view x' = obj_view x"
      using same_rest_view [OF rest, of "OSem sem"] x by (cases "objects s' (OSem sem)") auto
    moreover have "objects s' (OSem sem) = objects s (OSem sem)"
      using rt_schedule_core(5) [OF s'(1)] by (simp add: woken_def)
    then have "sem_ok s' sem"
      using ok v zero Cons same_restD(1) [OF rest] unfolding sem_ok_def by simp
    ultimately show thesis
      using that [OF _ s'(2,8)] s'(4,6,7) same_rest_view [OF rest] same_restD(7) [OF rest] th(1) a v Cons
      by (auto simp: sem_abs_def)
  qed
qed

section \<open>Properties\<close>

lemma sem_ok_take:
  "\<lbrakk>sem_ok s sem; sems s sem = Some v; tlists s (SuspendQ (OSem sem)) = []\<rbrakk>
   \<Longrightarrow> sem_ok (s\<lparr>sems := (sems s)(sem \<mapsto> w)\<rparr>) sem"
  by (auto simp: sem_ok_def)

lemma sem_ok_rest:
  assumes ok: "sem_ok s sem" and rest: "same_rest s s'" and fl: "objects s' (OSem sem) = objects s (OSem sem)"
    and z: "sem_abs s' sem = Some (0, q)"
  shows "sem_ok s' sem"
  using ok z same_restD(1) [OF rest] fl by (auto simp: sem_ok_def sem_abs_def unat_eq_0)

text \<open>
  (C3) Taking a semaphore, on every branch: a free one is counted down, a busy one without a wait
  gives \<^verbatim>\<open>-RT_ETIMEOUT\<close> and changes nothing, and otherwise the current thread is
  suspended in the waiting list at the place its mode gives, with its timer due after the limit
  if there is one, and the most urgent ready thread runs. The kernel's invariant is kept.
\<close>

theorem sem_take_refines:
  assumes "kernel_wf s" "sem_ok s sem" "sem_abs s sem = Some (n, q)"
    and "rt_current_thread s = Some t" "threads s t = Some th" "stat_of th = RT_THREAD_READY"
    and "rt_interrupt_nest s = 0" "rt_scheduler_lock_nest s = 0" "runnable_without t s"
    and "sint time > 0 \<longrightarrow> time < RT_TICK_MAX div 2"
  shows "\<exists>r s'. rt_sem_take sem time s = Some (r, s') \<and> kernel_wf s' \<and>
    (if n > 0 then r = Return RT_EOK \<and> sem_abs s' sem = Some (n - 1, q) \<and> threads s' = threads s
     else if sint time = 0 then r = Return (- RT_ETIMEOUT) \<and> s' = s
     else r = Pending \<and> runs_highest s' \<and>
       (\<exists>x. objects s (OSem sem) = Some x \<and> sem_abs s' sem = Some (0, queue_in (obj_flag x) s t q)) \<and>
       threads s' = (threads s)(t \<mapsto> set_stat RT_THREAD_SUSPEND (th\<lparr>thread_error := RT_EOK\<rparr>)) \<and>
       (if sint time > 0 then ThreadTimer t \<in> set (rt_timer_list s') \<and> due_in s' (ThreadTimer t) = time
        else ThreadTimer t \<notin> set (rt_timer_list s')))"
proof -
  obtain v x where v: "sems s sem = Some v" and x: "objects s (OSem sem) = Some x"
    and ck: "check_type s (OSem sem) RT_Object_Class_Semaphore = Some ()"
    using assms(2) by (rule sem_okE)
  have n: "n = unat (sem_value v)" using assms(3) v by (simp add: sem_abs_def)
  show ?thesis
  proof (cases "n > 0")
    case True
    then have p: "sem_value v > 0" using n by (simp add: unat_gt_0 word_neq_0_conv)
    let ?s = "s\<lparr>sems := (sems s)(sem \<mapsto> v\<lparr>sem_value := sem_value v - 1\<rparr>)\<rparr>"
    have "rt_sem_take sem time s = Some (Return RT_EOK, ?s)"
      using ck v p by (simp add: rt_sem_take_def del: check_type_iff)
    moreover have "sem_abs ?s sem = Some (n - 1, q)"
      using assms(3) v n p unat_minus_one [of "sem_value v"] by (auto simp: sem_abs_def word_neq_0_conv [symmetric])
    ultimately show ?thesis using True assms(1) by auto
  next
    case False
    then have z: "sem_value v = 0" using n by (simp add: unat_eq_0)
    show ?thesis
    proof (cases "sint time = 0")
      case True
      then show ?thesis using False ck v z assms(1) by (simp add: rt_sem_take_def del: check_type_iff)
    next
      case nz: False
      have "sem_abs s sem = Some (0, q)" using assms(3) False by simp
      from rt_sem_take_waits [OF assms(1,2) this assms(4-7,9) nz assms(10)] obtain s' y where
        "rt_sem_take sem time s = Some (Pending, s')" "kernel_wf s'" "objects s (OSem sem) = Some y"
        "threads s' = (threads s)(t \<mapsto> set_stat RT_THREAD_SUSPEND (th\<lparr>thread_error := RT_EOK\<rparr>))"
        "sem_abs s' sem = Some (0, queue_in (obj_flag y) s t q)"
        "if sint time > 0 then ThreadTimer t \<in> set (rt_timer_list s') \<and> due_in s' (ThreadTimer t) = time
         else ThreadTimer t \<notin> set (rt_timer_list s')"
        "rt_scheduler_lock_nest s = 0 \<longrightarrow> runs_highest s'" .
      then show ?thesis unfolding if_not_P [OF False] if_not_P [OF nz] using assms(8) by blast
    qed
  qed
qed

text \<open>
  (C5) Releasing a semaphore refines the abstract post: the first waiting thread is made ready and the
  count stays zero, or, with nobody waiting, the 16-bit count goes up by one and wraps at 65536.
\<close>

theorem sem_release_refines:
  assumes "kernel_wf s" "sem_ok s sem" "sem_abs s sem = Some a" "runnable s"
  shows "\<exists>s'. rt_sem_release sem s = Some (RT_EOK, s') \<and> kernel_wf s' \<and> sem_ok s' sem \<and>
    sem_abs s' sem = Some (sem_post a) \<and>
    threads s' = (case snd a of [] \<Rightarrow> threads s
       | t # _ \<Rightarrow> (threads s)(t := map_option (set_stat RT_THREAD_READY) (threads s t)))"
  by (rule rt_sem_release_posts [OF assms]) blast

text \<open>
  How a wait ends: the thread first in line gets \<^verbatim>\<open>RT_EOK\<close> from a release,
  \<^verbatim>\<open>-RT_ERROR\<close> when the semaphore is reset, and \<^verbatim>\<open>-RT_ETIMEOUT\<close>
  when its timer expires, which leaves the others in line.
\<close>

theorem sem_wait_results:
  assumes wf: "kernel_wf s" and ok: "sem_ok s sem" and run: "runnable s"
    and q: "tlists s (SuspendQ (OSem sem)) = t # q" and t: "threads s t = Some th" "thread_error th = RT_EOK"
  shows "(\<exists>s'. rt_sem_release sem s = Some (RT_EOK, s') \<and> rt_sem_take_resumed t s' = Some RT_EOK) \<and>
    (\<exists>s'. rt_sem_control sem RT_IPC_CMD_RESET value s = Some (RT_EOK, s') \<and>
       rt_sem_take_resumed t s' = Some (- RT_ERROR) \<and> sem_abs s' sem = Some (unat (ucast value :: u16), [])) \<and>
    (\<exists>s'. rt_thread_timeout t (rt_timer_remove (ThreadTimer t) s) = Some s' \<and>
       rt_sem_take_resumed t s' = Some (- RT_ETIMEOUT) \<and> sem_abs s' sem = Some (0, q))"
proof (intro conjI)
  let ?h = "SuspendQ (OSem sem)"
  obtain v where v: "sems s sem = Some v" and z: "sem_value v = 0"
    and ck: "check_type s (OSem sem) RT_Object_Class_Semaphore = Some ()"
    using ok by (rule sem_okE) (use q in auto)
  have st: "stat_of th = RT_THREAD_SUSPEND"
    using waitq_member [OF kernel_wfD(1) [OF wf], of ?h t] q t by auto
  have a: "sem_abs s sem = Some (0, t # q)" using v z q by (simp add: sem_abs_def)
  show "\<exists>s'. rt_sem_release sem s = Some (RT_EOK, s') \<and> rt_sem_take_resumed t s' = Some RT_EOK"
    by (rule rt_sem_release_posts [OF wf ok a run]) (use t in \<open>auto simp: rt_sem_take_resumed_def\<close>)
  have lw: "lists_wf (tlists s)" using sched_wf_lists [OF kernel_wfD(1) [OF wf]] .
  show "\<exists>s'. rt_thread_timeout t (rt_timer_remove (ThreadTimer t) s) = Some s' \<and>
       rt_sem_take_resumed t s' = Some (- RT_ETIMEOUT) \<and> sem_abs s' sem = Some (0, q)"
  proof -
    let ?r = "rt_timer_remove (ThreadTimer t) s"
    have so: "stacks_ok ?r" using run by (simp add: runnable_def stacks_ok_def)
    obtain s' where s': "rt_thread_timeout t ?r = Some s'" "same_rest ?r s'"
      "threads s' = (threads ?r)(t \<mapsto> set_stat RT_THREAD_READY (th\<lparr>thread_error := - RT_ETIMEOUT\<rparr>))"
      "tlists s' = ls_insert_before (Ready (unat (current_priority th))) t (ls_remove t (tlists ?r))"
      using rt_thread_timeout_readies [OF remove_wf [OF wf], of "ThreadTimer t" t th] t st so by auto
    have "sems s' = sems s" using same_restD(1) [OF s'(2)] by (simp add: rt_timer_remove_def)
    moreover have "tlists s' ?h = q"
      using s'(4) removeAll_hd [OF lw q] by (simp add: ls_insert_before_def ls_remove_def)
    ultimately show ?thesis using s'(1,3) v z by (auto simp: sem_abs_def rt_sem_take_resumed_def)
  qed
  show "\<exists>s'. rt_sem_control sem RT_IPC_CMD_RESET value s = Some (RT_EOK, s') \<and>
       rt_sem_take_resumed t s' = Some (- RT_ERROR) \<and> sem_abs s' sem = Some (unat (ucast value :: u16), [])"
  proof -
    obtain u where u: "rt_ipc_list_resume_all ?h s = Some (RT_EOK, u)" "kernel_wf u" "tlists u ?h = []"
      "threads u = (\<lambda>t. if t \<in> set (tlists s ?h) then map_option failed (threads s t) else threads s t)"
      using rt_ipc_list_resume_all_wakes [OF wf, of ?h] by auto
    let ?w = "u\<lparr>sems := (sems u)(sem \<mapsto> \<lparr>sem_value = ucast value\<rparr>)\<rparr>"
    have "runnable u" by (rule runnable_failed [OF run kernel_wfD(1) [OF wf] _ u(4)]) simp
    then have "runnable ?w" using runnable_cong [of ?w u] by simp
    from schedule_ends [OF _ this] u(2) obtain s' where s': "rt_schedule ?w = Some s'"
      "same_rest ?w s'" "threads s' = threads u" "tlists s' = tlists u" by (auto simp del: fun_upd_apply)
    have "sems s' sem = Some \<lparr>sem_value = ucast value\<rparr>" using same_restD(1) [OF s'(2)] by simp
    moreover have "threads s' t = Some (failed th)" using s'(3) u(4) q t by simp
    moreover have "rt_sem_control sem RT_IPC_CMD_RESET value s = Some (RT_EOK, s')"
      using ck u(1) s'(1) by (simp add: rt_sem_control_def del: check_type_iff)
    ultimately show ?thesis using s'(4) u(3) by (auto simp: rt_sem_take_resumed_def sem_abs_def)
  qed
qed

lemma demo_sem_ok: "sem_ok demo 0" "sem_ok demo 1"
  by (simp_all add: sem_ok_def)

lemma demo_sem_abs: "sem_abs demo 0 = Some (0, [2])" "sem_abs demo 1 = Some (3, [])"
  by (simp_all add: sem_abs_def)

theorem sem_take_refines_witness:
  "(\<exists>s'. rt_sem_take 1 0 demo = Some (Return RT_EOK, s') \<and> sem_abs s' 1 = Some (2, [])) \<and>
   (\<exists>s'. rt_sem_take 0 7 demo = Some (Pending, s') \<and> sem_abs s' 0 = Some (0, [2, 1]))"
  using sem_take_refines [OF demo_wf demo_sem_ok(2) demo_sem_abs(2), of 1 "demo_thread 10 1" 0]
    sem_take_refines [OF demo_wf demo_sem_ok(1) demo_sem_abs(1), of 1 "demo_thread 10 1" 7] demo_runnable(2)
  by (auto simp: queue_in_def)

theorem sem_release_refines_witness:
  "(\<exists>s'. rt_sem_release 0 demo = Some (RT_EOK, s') \<and> sem_abs s' 0 = Some (0, [])) \<and>
   (\<exists>s'. rt_sem_release 1 demo = Some (RT_EOK, s') \<and> sem_abs s' 1 = Some (4, []))"
  using sem_release_refines [OF demo_wf demo_sem_ok(1) demo_sem_abs(1) demo_runnable(1)]
    sem_release_refines [OF demo_wf demo_sem_ok(2) demo_sem_abs(2) demo_runnable(1)]
  by auto

theorem sem_wait_results_witness:
  "\<exists>s'. rt_sem_release 0 demo = Some (RT_EOK, s') \<and> rt_sem_take_resumed 2 s' = Some RT_EOK"
  using sem_wait_results [OF demo_wf demo_sem_ok(1) demo_runnable(1), of 2 "[]" "demo_thread 5 2" 0]
  by simp

end
