(* ===== verification/Mutex.thy ===== *)
theory Mutex
  imports Sem
begin

text \<open>
  Mutexes (\<^verbatim>\<open>rt_mutex_*\<close> of \<^verbatim>\<open>src/ipc.c\<close>): recursive, with
  priority inheritance. \<open>mutex_again\<close> is the code from the label \<^verbatim>\<open>__again\<close>
  to \<^verbatim>\<open>rt_schedule\<close>, \<open>rt_mutex_take_resumed\<close> what follows it.
\<close>

section \<open>The code\<close>

definition fresh_mutex :: rt_mutex where
  "fresh_mutex = \<lparr>mutex_value = 1, original_priority = 0xff, hold = 0, owner = None\<rparr>"

definition rt_mutex_init :: "nat \<Rightarrow> cbuf \<Rightarrow> u8 \<Rightarrow> kernel \<Rightarrow> (rt_err \<times> kernel) option" where
  "rt_mutex_init m name flag s =
     do { s \<leftarrow> rt_object_init (OMutex m) RT_Object_Class_Mutex name s;
          let s = rt_ipc_object_init (OMutex m) s;
          let s = s\<lparr>mutexes := (mutexes s)(m \<mapsto> fresh_mutex)\<rparr>;
          Some (RT_EOK, set_ipc_flag (OMutex m) flag s) }"

definition rt_mutex_detach :: "nat \<Rightarrow> kernel \<Rightarrow> (rt_err \<times> kernel) option" where
  "rt_mutex_detach m s =
     do { check_type s (OMutex m) RT_Object_Class_Mutex;
          sys \<leftarrow> rt_object_is_systemobject s (OMutex m);
          rt_assert sys;
          (_, s) \<leftarrow> rt_ipc_list_resume_all (SuspendQ (OMutex m)) s;
          s \<leftarrow> rt_object_detach (OMutex m) s;
          Some (RT_EOK, s) }"

definition rt_mutex_create :: "cbuf \<Rightarrow> u8 \<Rightarrow> nat option \<Rightarrow> kernel \<Rightarrow> (nat option \<times> kernel) option" where
  "rt_mutex_create name flag mem s =
     do { not_in_interrupt s;
          (r, s) \<leftarrow> rt_object_allocate RT_Object_Class_Mutex name (map_option OMutex mem) s;
          case (r, mem) of
            (Some _, Some m) \<Rightarrow>
              do { let s = rt_ipc_object_init (OMutex m) s;
                   let s = s\<lparr>mutexes := (mutexes s)(m \<mapsto> fresh_mutex)\<rparr>;
                   Some (Some m, set_ipc_flag (OMutex m) flag s) }
          | _ \<Rightarrow> Some (None, s) }"

definition rt_mutex_delete :: "nat \<Rightarrow> kernel \<Rightarrow> (rt_err \<times> kernel) option" where
  "rt_mutex_delete m s =
     do { not_in_interrupt s;
          check_type s (OMutex m) RT_Object_Class_Mutex;
          sys \<leftarrow> rt_object_is_systemobject s (OMutex m);
          rt_assert (\<not> sys);
          (_, s) \<leftarrow> rt_ipc_list_resume_all (SuspendQ (OMutex m)) s;
          s \<leftarrow> rt_object_delete (OMutex m) s;
          Some (RT_EOK, s\<lparr>mutexes := (mutexes s)(m := None)\<rparr>) }"

definition mutex_again :: "nat \<Rightarrow> u32 \<Rightarrow> tid \<Rightarrow> kernel \<Rightarrow> (rt_err outcome \<times> kernel) option" where
  "mutex_again m time t s =
     do { mx \<leftarrow> mutexes s m;
          th \<leftarrow> threads s t;
          if mutex_value mx > 0
          then Some (Return RT_EOK,
                 s\<lparr>mutexes := (mutexes s)(m \<mapsto>
                     mx\<lparr>mutex_value := mutex_value mx - 1, owner := Some t,
                        original_priority := current_priority th, hold := hold mx + 1\<rparr>)\<rparr>)
          else if sint time = 0
          then Some (Return (- RT_ETIMEOUT), upd_thread t (\<lambda>th. th\<lparr>thread_error := - RT_ETIMEOUT\<rparr>) s)
          else do { own \<leftarrow> owner mx;
                    oh \<leftarrow> threads s own;
                    s \<leftarrow> (if current_priority th < current_priority oh
                          then do { (_, s) \<leftarrow> rt_thread_control own RT_THREAD_CTRL_CHANGE_PRIORITY (current_priority th) s;
                                    Some s }
                          else Some s);
                    x \<leftarrow> objects s (OMutex m);
                    s \<leftarrow> wait_on (SuspendQ (OMutex m)) t (obj_flag x) time s;
                    Some (Pending, s) } }"

definition rt_mutex_take :: "nat \<Rightarrow> u32 \<Rightarrow> kernel \<Rightarrow> (rt_err outcome \<times> kernel) option" where
  "rt_mutex_take m time s =
     do { in_thread_context s;
          check_type s (OMutex m) RT_Object_Class_Mutex;
          t \<leftarrow> rt_thread_self s;
          let s = upd_thread t (\<lambda>th. th\<lparr>thread_error := RT_EOK\<rparr>) s;
          mx \<leftarrow> mutexes s m;
          if owner mx = Some t
          then Some (Return RT_EOK, s\<lparr>mutexes := (mutexes s)(m \<mapsto> mx\<lparr>hold := hold mx + 1\<rparr>)\<rparr>)
          else mutex_again m time t s }"

definition rt_mutex_take_resumed :: "nat \<Rightarrow> u32 \<Rightarrow> tid \<Rightarrow> kernel \<Rightarrow> (rt_err outcome \<times> kernel) option" where
  "rt_mutex_take_resumed m time t s =
     do { th \<leftarrow> threads s t;
          if thread_error th \<noteq> RT_EOK
          then if thread_error th = - RT_EINTR then mutex_again m time t s
               else Some (Return (thread_error th), s)
          else Some (Return RT_EOK, s) }"

text \<open>The owner goes back to the priority noted in the mutex.\<close>

definition mutex_restore :: "tid \<Rightarrow> u8 \<Rightarrow> kernel \<Rightarrow> kernel option" where
  "mutex_restore t p s =
     do { th \<leftarrow> threads s t;
          if p \<noteq> current_priority th
          then do { (_, s) \<leftarrow> rt_thread_control t RT_THREAD_CTRL_CHANGE_PRIORITY p s; Some s }
          else Some s }"

definition rt_mutex_release :: "nat \<Rightarrow> kernel \<Rightarrow> (rt_err \<times> kernel) option" where
  "rt_mutex_release m s =
     do { check_type s (OMutex m) RT_Object_Class_Mutex;
          in_thread_context s;
          t \<leftarrow> rt_thread_self s;
          mx \<leftarrow> mutexes s m;
          if owner mx \<noteq> Some t
          then Some (- RT_ERROR, upd_thread t (\<lambda>th. th\<lparr>thread_error := - RT_ERROR\<rparr>) s)
          else
            let mx = mx\<lparr>hold := hold mx - 1\<rparr>; s = s\<lparr>mutexes := (mutexes s)(m \<mapsto> mx)\<rparr> in
            if hold mx = 0
            then do { s \<leftarrow> mutex_restore t (original_priority mx) s;
                      case tlists s (SuspendQ (OMutex m)) of
                        u # _ \<Rightarrow>
                          do { uh \<leftarrow> threads s u;
                               let s = s\<lparr>mutexes := (mutexes s)(m \<mapsto>
                                     mx\<lparr>owner := Some u, original_priority := current_priority uh, hold := hold mx + 1\<rparr>)\<rparr>;
                               (_, s) \<leftarrow> rt_ipc_list_resume (SuspendQ (OMutex m)) s;
                               s \<leftarrow> rt_schedule s;
                               Some (RT_EOK, s) }
                      | [] \<Rightarrow>
                          Some (RT_EOK, s\<lparr>mutexes := (mutexes s)(m \<mapsto>
                             mx\<lparr>mutex_value := mutex_value mx + 1, owner := None, original_priority := 0xff\<rparr>)\<rparr>) }
            else Some (RT_EOK, s) }"

definition rt_mutex_control :: "nat \<Rightarrow> int \<Rightarrow> kernel \<Rightarrow> (rt_err \<times> kernel) option" where
  "rt_mutex_control m cmd s =
     do { check_type s (OMutex m) RT_Object_Class_Mutex; Some (- RT_ERROR, s) }"

section \<open>The contract\<close>

text \<open>
  A mutex in order: free, with nobody waiting, or owned by a live thread that holds it at least once
  and does not wait for it.
\<close>

definition mutex_ok :: "kernel \<Rightarrow> nat \<Rightarrow> bool" where
  "mutex_ok s m \<longleftrightarrow>
     (\<exists>mx x. mutexes s m = Some mx \<and> objects s (OMutex m) = Some x \<and>
        obj_type x AND NOT RT_Object_Class_Static = RT_Object_Class_Mutex \<and>
        (obj_flag x = RT_IPC_FLAG_FIFO \<or> obj_flag x = RT_IPC_FLAG_PRIO) \<and>
        (case owner mx of
           None \<Rightarrow> mutex_value mx = 1 \<and> hold mx = 0 \<and> tlists s (SuspendQ (OMutex m)) = []
         | Some own \<Rightarrow> mutex_value mx = 0 \<and> hold mx \<noteq> 0 \<and>
             unat (original_priority mx) < RT_THREAD_PRIORITY_MAX \<and>
             own \<notin> set (tlists s (SuspendQ (OMutex m))) \<and>
             (\<exists>oh. threads s own = Some oh \<and> stat_of oh \<noteq> RT_THREAD_CLOSE)))"

lemma mutex_okE:
  assumes "mutex_ok s m"
  obtains mx x where "mutexes s m = Some mx" "objects s (OMutex m) = Some x"
    "check_type s (OMutex m) RT_Object_Class_Mutex = Some ()"
    "obj_flag x = RT_IPC_FLAG_FIFO \<or> obj_flag x = RT_IPC_FLAG_PRIO"
    "case owner mx of
       None \<Rightarrow> mutex_value mx = 1 \<and> hold mx = 0 \<and> tlists s (SuspendQ (OMutex m)) = []
     | Some own \<Rightarrow> mutex_value mx = 0 \<and> hold mx \<noteq> 0 \<and>
         unat (original_priority mx) < RT_THREAD_PRIORITY_MAX \<and>
         own \<notin> set (tlists s (SuspendQ (OMutex m))) \<and>
         (\<exists>oh. threads s own = Some oh \<and> stat_of oh \<noteq> RT_THREAD_CLOSE)"
  using assms unfolding mutex_ok_def by (auto simp: check_type_known)

text \<open>The priority of an owner after a thread of priority \<open>p\<close> starts to wait for it.\<close>

definition boosted :: "tid \<Rightarrow> rt_thread \<Rightarrow> u8 \<Rightarrow> kernel \<Rightarrow> kernel" where
  "boosted own oh p s = (if p < current_priority oh then reprioritised own oh p s else s)"

lemma boosted_eq:
  assumes wf: "kernel_wf s" and oh: "threads s own = Some oh" "stat_of oh \<noteq> RT_THREAD_CLOSE"
    and p: "unat p < RT_THREAD_PRIORITY_MAX"
  shows "(if p < current_priority oh
          then do { (_, s) \<leftarrow> rt_thread_control own RT_THREAD_CTRL_CHANGE_PRIORITY p s; Some s }
          else Some s) = Some (boosted own oh p s)"
    and "kernel_wf (boosted own oh p s)"
proof -
  have obj: "thread_obj s own" using threads_wfD(1) [OF kernel_wfD(4) [OF wf] oh] .
  show "(if p < current_priority oh
          then do { (_, s) \<leftarrow> rt_thread_control own RT_THREAD_CTRL_CHANGE_PRIORITY p s; Some s }
          else Some s) = Some (boosted own oh p s)"
    using change_priority_eq [OF wf oh(1) p] thread_obj_check [OF obj]
    by (simp add: rt_thread_control_def boosted_def del: check_type_iff)
  show "kernel_wf (boosted own oh p s)"
    using reprioritised_wf [OF wf oh(1) p] wf by (simp add: boosted_def)
qed

lemma same_rest_boosted: "same_rest s (boosted own oh p s)"
  by (simp add: boosted_def same_rest_reprioritised)

lemma boosted_sel:
  assumes "threads s own = Some oh"
  shows "threads (boosted own oh p s) =
      (threads s)(own \<mapsto> if p < current_priority oh then with_prio p oh else oh)"
    "objects (boosted own oh p s) = objects s" "timers (boosted own oh p s) = timers s"
    "rt_timer_list (boosted own oh p s) = rt_timer_list s"
    "rt_current_thread (boosted own oh p s) = rt_current_thread s"
  using assms by (auto simp: boosted_def)

lemma reprioritised_waitq:
  assumes wf: "sched_wf s" and oh: "threads s own = Some oh" and h: "is_waitq h"
  shows "tlists (reprioritised own oh p s) h = tlists s h"
  using ready_off_waitq [OF wf oh _ h] h
  by (cases h) (auto simp: reprioritised_def ls_insert_before_def ls_remove_def)

lemma boosted_waitq:
  assumes "sched_wf s" "threads s own = Some oh" "is_waitq h"
  shows "tlists (boosted own oh p s) h = tlists s h"
  using reprioritised_waitq [OF assms] by (simp add: boosted_def)

text \<open>Fields of the thread table only: what \<open>mutex_ok\<close> needs of a later state.\<close>

lemma mutex_ok_cong:
  assumes ok: "mutex_ok s m" and same: "mutexes s' m = mutexes s m" "objects s' (OMutex m) = objects s (OMutex m)"
    "tlists s' (SuspendQ (OMutex m)) = tlists s (SuspendQ (OMutex m))"
    and live: "\<And>t th. threads s t = Some th \<Longrightarrow> stat_of th \<noteq> RT_THREAD_CLOSE \<Longrightarrow>
       \<exists>th'. threads s' t = Some th' \<and> stat_of th' \<noteq> RT_THREAD_CLOSE"
  shows "mutex_ok s' m"
  using ok live unfolding mutex_ok_def same by (fastforce split: option.splits)

lemma mutex_ok_error:
  assumes "kernel_wf s" "threads s t = Some th" "mutex_ok s m"
  shows "mutex_ok (upd_thread t (\<lambda>th. th\<lparr>thread_error := e\<rparr>) s) m"
  by (rule mutex_ok_cong [OF assms(3)]) (use assms(2) upd_error_wf [OF assms(1,2), of e] in auto)

text \<open>Waiting for a mutex that another thread owns.\<close>

lemma mutex_again_waits:
  assumes wf: "kernel_wf s" and ok: "mutex_ok s m" and mx: "mutexes s m = Some mx" "owner mx = Some own" "own \<noteq> t"
    and t: "threads s t = Some th" "stat_of th = RT_THREAD_READY"
    and run: "runnable_without t s" and time: "sint time \<noteq> 0" "sint time > 0 \<longrightarrow> time < RT_TICK_MAX div 2"
  obtains s' x where "mutex_again m time t s = Some (Pending, s')" "kernel_wf s'" "mutex_ok s' m"
    "mutexes s' = mutexes s" "objects s (OMutex m) = Some x"
    "tlists s' (SuspendQ (OMutex m)) = queue_in (obj_flag x) s t (tlists s (SuspendQ (OMutex m)))"
    "prio_of s' = (prio_of s)(own := min (prio_of s own) (current_priority th))"
    "threads s' t = Some (set_stat RT_THREAD_SUSPEND th)"
    "rt_scheduler_lock_nest s = 0 \<longrightarrow> runs_highest s'"
proof -
  let ?h = "SuspendQ (OMutex m)"
  obtain x oh where x: "objects s (OMutex m) = Some x"
    and fl: "obj_flag x = RT_IPC_FLAG_FIFO \<or> obj_flag x = RT_IPC_FLAG_PRIO"
    and v: "mutex_value mx = 0" and oq: "own \<notin> set (tlists s ?h)"
    and oh: "threads s own = Some oh" "stat_of oh \<noteq> RT_THREAD_CLOSE"
    using ok mx(1,2) by (auto elim!: mutex_okE)
  note p = sched_wf_prio [OF kernel_wfD(1) [OF wf] t(1)]
  let ?b = "boosted own oh (current_priority th) s"
  note b = boosted_eq [OF wf oh p]
  note bs = boosted_sel [OF oh(1), where p = "current_priority th"]
  have bt: "threads ?b t = Some th" using bs(1) mx(3) t(1) by simp
  have rb: "runnable_without t ?b"
    by (rule runnable_without_upd [OF run oh(1) bs(1)]) simp_all
  obtain s' where s': "wait_on ?h t (obj_flag x) time ?b = Some s'" "kernel_wf s'" "same_rest ?b s'"
    "threads s' = (threads ?b)(t \<mapsto> set_stat RT_THREAD_SUSPEND th)"
    "tlists s' = (ls_remove t (tlists ?b))(?h := queue_in (obj_flag x) ?b t (ls_remove t (tlists ?b) ?h))"
    "rt_scheduler_lock_nest ?b = 0 \<longrightarrow> runs_highest s'"
    using wait_on_blocks [OF b(2) bt t(2) rb _ fl, of ?h time] time(2) by auto
  have rest: "same_rest s s'" by (rule same_rest_trans [OF same_rest_boosted s'(3)])
  have run': "mutex_again m time t s = Some (Pending, s')"
    using mx t v time(1) oh b(1) x bs(2) s'(1) by (simp add: mutex_again_def cong: if_cong)
  have q: "ls_remove t (tlists ?b) ?h = tlists s ?h"
    using ready_off_waitq [OF kernel_wfD(1) [OF b(2)] bt t(2), of ?h]
      boosted_waitq [OF kernel_wfD(1) [OF wf] oh(1), of ?h] by simp
  have "queue_in (obj_flag x) ?b t (tlists s ?h) = queue_in (obj_flag x) s t (tlists s ?h)"
    by (rule queue_in_cong) (use oq mx(3) in \<open>auto simp: prio_of_def bs(1)\<close>)
  then have q': "tlists s' ?h = queue_in (obj_flag x) s t (tlists s ?h)" using s'(5) q by simp
  have po: "prio_of s' = (prio_of s)(own := min (prio_of s own) (current_priority th))"
    using s'(4) mx(3) oh(1) t(1) by (auto simp: prio_of_def bs(1) fun_eq_iff min_def)
  have mu: "mutexes s' = mutexes s" using same_restD(2) [OF rest] .
  have live: "\<exists>oh'. threads s' own = Some oh' \<and> stat_of oh' \<noteq> RT_THREAD_CLOSE"
    using s'(4) mx(3) oh(2) by (auto simp: bs(1))
  have "own \<notin> set (tlists s' ?h)" unfolding q' using set_queue_in [OF fl] oq mx(3) by auto
  moreover obtain x' where x': "objects s' (OMutex m) = Some x'" "obj_type x' = obj_type x" "obj_flag x' = obj_flag x"
    using wait_on_objects [OF s'(1), of "OMutex m"] bs(2) x by auto
  ultimately have ok': "mutex_ok s' m"
    using ok mx live x unfolding mutex_ok_def mu by auto
  show thesis
    using that [OF run' s'(2) ok' mu x q' po] s'(4,6) same_restD(9) [OF same_rest_boosted] by simp
qed

section \<open>Properties\<close>

text \<open>
  (C6) Taking a mutex, on every branch: its owner takes it once more; a free one gets the thread as
  owner, with the thread's priority noted; a busy one without a wait gives
  \<^verbatim>\<open>-RT_ETIMEOUT\<close>; otherwise the thread waits at its place in line, and the
  owner's priority becomes the more urgent (the smaller number) of its own and the thread's, no other
  thread's priority being touched. The contract of the mutex and the kernel's
  invariant are kept, for up to 255 nested takes.
\<close>

theorem mutex_take_inherits:
  assumes wf: "kernel_wf s" and ok: "mutex_ok s m" and mx: "mutexes s m = Some mx" "hold mx \<noteq> 255"
    and cur: "rt_current_thread s = Some t" "threads s t = Some th" "stat_of th = RT_THREAD_READY"
    and irq: "rt_interrupt_nest s = 0" "rt_scheduler_lock_nest s = 0" and run: "runnable_without t s"
    and time: "sint time > 0 \<longrightarrow> time < RT_TICK_MAX div 2"
  shows "\<exists>r s'. rt_mutex_take m time s = Some (r, s') \<and> kernel_wf s' \<and> mutex_ok s' m \<and>
    (case owner mx of
       None \<Rightarrow> r = Return RT_EOK \<and> mutexes s' m =
         Some \<lparr>mutex_value = 0, original_priority = current_priority th, hold = 1, owner = Some t\<rparr>
     | Some own \<Rightarrow>
         if own = t then r = Return RT_EOK \<and> mutexes s' m = Some (mx\<lparr>hold := hold mx + 1\<rparr>)
         else if sint time = 0 then r = Return (- RT_ETIMEOUT) \<and> mutexes s' = mutexes s
         else r = Pending \<and> mutexes s' = mutexes s \<and>
           prio_of s' = (prio_of s)(own := min (prio_of s own) (current_priority th)) \<and>
           (\<exists>x. objects s (OMutex m) = Some x \<and> tlists s' (SuspendQ (OMutex m)) =
              queue_in (obj_flag x) s t (tlists s (SuspendQ (OMutex m)))) \<and> runs_highest s')"
proof -
  let ?e = "upd_thread t (\<lambda>th. th\<lparr>thread_error := RT_EOK\<rparr>) s"
  let ?f = "th\<lparr>thread_error := RT_EOK\<rparr>"
  note e = upd_error_wf [OF wf cur(2), of RT_EOK]
  note oke = mutex_ok_error [OF wf cur(2) ok, of RT_EOK]
  have ck: "check_type s (OMutex m) RT_Object_Class_Mutex = Some ()" using ok by (rule mutex_okE)
  have mxe: "mutexes ?e m = Some mx" using e(4) mx(1) by simp
  have te: "threads ?e t = Some ?f" using e(2) by simp
  have p: "unat (current_priority th) < RT_THREAD_PRIORITY_MAX"
    using sched_wf_prio [OF kernel_wfD(1) [OF wf] cur(2)] .
  have hold1: "hold mx + 1 \<noteq> 0"
  proof
    assume "hold mx + 1 = 0"
    then have "hold mx = - 1" by (simp add: add_eq_0_iff2)
    with mx(2) show False by simp
  qed
  have run': "rt_mutex_take m time s = (if owner mx = Some t
      then Some (Return RT_EOK, ?e\<lparr>mutexes := (mutexes ?e)(m \<mapsto> mx\<lparr>hold := hold mx + 1\<rparr>)\<rparr>)
      else mutex_again m time t ?e)"
    using ck cur irq mxe by (simp add: rt_mutex_take_def in_thread_context_def rt_thread_self_def Let_def del: check_type_iff)
  show ?thesis
  proof (cases "owner mx")
    case None
    have f: "mutex_value mx = 1" "hold mx = 0" "tlists s (SuspendQ (OMutex m)) = []"
      using ok mx(1) None by (auto elim!: mutex_okE)
    let ?n = "\<lparr>mutex_value = 0, original_priority = current_priority th, hold = 1, owner = Some t\<rparr>"
    let ?s = "?e\<lparr>mutexes := (mutexes ?e)(m \<mapsto> ?n)\<rparr>"
    have "mutex_again m time t ?e = Some (Return RT_EOK, ?s)"
      using mxe te f by (cases mx) (simp add: mutex_again_def)
    moreover have "mutex_ok ?s m"
      using oke f e(2,3) cur(3) p unfolding mutex_ok_def by auto
    ultimately show ?thesis using run' None e(1) by auto
  next
    case (Some own)
    have v: "mutex_value mx = 0" using ok mx(1) Some by (auto elim!: mutex_okE)
    show ?thesis
    proof (cases "own = t")
      case True
      let ?s = "?e\<lparr>mutexes := (mutexes ?e)(m \<mapsto> mx\<lparr>hold := hold mx + 1\<rparr>)\<rparr>"
      have "mutex_ok ?s m" using oke Some mxe hold1 unfolding mutex_ok_def by auto
      then show ?thesis using run' Some True e(1) by auto
    next
      case False
      show ?thesis
      proof (cases "sint time = 0")
        case True
        have "mutex_again m time t ?e = Some (Return (- RT_ETIMEOUT), upd_thread t (\<lambda>th. th\<lparr>thread_error := - RT_ETIMEOUT\<rparr>) ?e)"
          using mxe te v True by (simp add: mutex_again_def)
        then show ?thesis
          using run' Some False True mutex_ok_error [OF e(1) te oke, of "- RT_ETIMEOUT"]
            upd_error_wf(1,4) [OF e(1) te, of "- RT_ETIMEOUT"] e(4) by simp
      next
        case nz: False
        have st: "stat_of ?f = RT_THREAD_READY" using cur(3) by simp
        have re: "runnable_without t ?e" by (rule runnable_without_upd [OF run cur(2) e(2)]) simp_all
        obtain s' x where "mutex_again m time t ?e = Some (Pending, s')" "kernel_wf s'" "mutex_ok s' m"
          "mutexes s' = mutexes ?e" "objects ?e (OMutex m) = Some x"
          "tlists s' (SuspendQ (OMutex m)) = queue_in (obj_flag x) ?e t (tlists ?e (SuspendQ (OMutex m)))"
          "prio_of s' = (prio_of ?e)(own := min (prio_of ?e own) (current_priority ?f))" "threads s' t = Some (set_stat RT_THREAD_SUSPEND ?f)"
          "rt_scheduler_lock_nest ?e = 0 \<longrightarrow> runs_highest s'"
          using mutex_again_waits [OF e(1) oke mxe Some False te st re nz time] .
        moreover have "prio_of ?e = prio_of s" using e(2) cur(2) by (auto simp: prio_of_def fun_eq_iff)
        moreover have "rt_scheduler_lock_nest ?e = 0" using same_restD(9) [OF e(6)] irq by simp
        ultimately show ?thesis using run' Some False nz e(3,4,5) by (simp add: queue_in_def)
      qed
    qed
  qed
qed

text \<open>The sample mutexes: 0 owned by the ready thread 3, 1 free.\<close>

lemma demo_mutex_ok: "mutex_ok demo 0" "mutex_ok demo 1"
  by (simp_all add: mutex_ok_def RT_THREAD_PRIORITY_MAX_def)

theorem mutex_take_inherits_witness:
  "(\<exists>s'. rt_mutex_take 0 7 demo = Some (Pending, s') \<and> prio_of s' 3 = 10 \<and>
      tlists s' (SuspendQ (OMutex 0)) = [1]) \<and>
   (\<exists>s'. rt_mutex_take 1 0 demo = Some (Return RT_EOK, s') \<and> mutex_ok s' 1)"
  using mutex_take_inherits [OF demo_wf demo_mutex_ok(1), of _ 1 "demo_thread 10 1" 7]
    mutex_take_inherits [OF demo_wf demo_mutex_ok(2), of _ 1 "demo_thread 10 1" 0] demo_runnable(2)
  by (auto simp: queue_in_def prio_of_def [of demo] min_def)

text \<open>The owner's priority after its last release.\<close>

definition restored :: "tid \<Rightarrow> rt_thread \<Rightarrow> u8 \<Rightarrow> kernel \<Rightarrow> kernel" where
  "restored t th p s = (if p \<noteq> current_priority th then reprioritised t th p s else s)"

lemma restored_eq:
  assumes wf: "kernel_wf s" and th: "threads s t = Some th" "stat_of th \<noteq> RT_THREAD_CLOSE"
    and p: "unat p < RT_THREAD_PRIORITY_MAX"
  shows "mutex_restore t p s = Some (restored t th p s)"
    and "kernel_wf (restored t th p s)" and "same_rest s (restored t th p s)"
    and "\<exists>th'. threads (restored t th p s) = (threads s)(t \<mapsto> th') \<and> current_priority th' = p \<and>
           stat_of th' = stat_of th \<and> rt_scheduler_stack_check th' = rt_scheduler_stack_check th"
    and "is_waitq h \<Longrightarrow> tlists (restored t th p s) h = tlists s h"
    and "objects (restored t th p s) = objects s"
proof -
  have obj: "thread_obj s t" using threads_wfD(1) [OF kernel_wfD(4) [OF wf] th] .
  show "mutex_restore t p s = Some (restored t th p s)"
    using change_priority_eq [OF wf th(1) p] thread_obj_check [OF obj] th(1)
    by (simp add: mutex_restore_def rt_thread_control_def restored_def del: check_type_iff)
  show "kernel_wf (restored t th p s)"
    using reprioritised_wf [OF wf th(1) p] wf by (simp add: restored_def)
  show "same_rest s (restored t th p s)" by (simp add: restored_def same_rest_reprioritised)
  show "\<exists>th'. threads (restored t th p s) = (threads s)(t \<mapsto> th') \<and> current_priority th' = p \<and>
           stat_of th' = stat_of th \<and> rt_scheduler_stack_check th' = rt_scheduler_stack_check th"
  proof (cases "p = current_priority th")
    case True
    then show ?thesis using th(1) by (intro exI [of _ th]) (simp add: restored_def fun_upd_idem)
  next
    case False
    then show ?thesis by (intro exI [of _ "with_prio p th"]) (simp add: restored_def)
  qed
  show "tlists (restored t th p s) h = tlists s h" if "is_waitq h"
    using reprioritised_waitq [OF kernel_wfD(1) [OF wf] th(1) that] by (simp add: restored_def)
  show "objects (restored t th p s) = objects s" by (simp add: restored_def)
qed

lemma mutexes_restored:
  "(restored t th p s)\<lparr>mutexes := f\<rparr> = restored t th p (s\<lparr>mutexes := f\<rparr>)"
  by (simp add: restored_def reprioritised_def group_without_def)

lemma sub_one_word: "(h :: u8) - 1 = 0 \<longleftrightarrow> h = 1"
  by (rule eq_iff_diff_eq_0 [symmetric])

text \<open>The last release: the mutex is free, or goes to the first thread in line.\<close>

lemma rt_mutex_release_last:
  assumes wf: "kernel_wf s" and ok: "mutex_ok s m" and mx: "mutexes s m = Some mx" "owner mx = Some t" "hold mx = 1"
    and cur: "rt_current_thread s = Some t" "threads s t = Some th" "stat_of th = RT_THREAD_READY"
    and irq: "rt_interrupt_nest s = 0" "rt_scheduler_lock_nest s = 0" and run: "runnable s"
  shows "\<exists>s'. rt_mutex_release m s = Some (RT_EOK, s') \<and> kernel_wf s' \<and> mutex_ok s' m \<and>
    prio_of s' t = original_priority mx \<and>
    (case tlists s (SuspendQ (OMutex m)) of
       [] \<Rightarrow> mutexes s' m = Some fresh_mutex
     | u # q \<Rightarrow> mutexes s' m =
           Some \<lparr>mutex_value = 0, original_priority = prio_of s u, hold = 1, owner = Some u\<rparr> \<and>
         tlists s' (SuspendQ (OMutex m)) = q \<and>
         threads s' u = map_option (set_stat RT_THREAD_READY) (threads s u) \<and> runs_highest s')"
proof -
  let ?h = "SuspendQ (OMutex m)"
  have ck: "check_type s (OMutex m) RT_Object_Class_Mutex = Some ()" using ok by (rule mutex_okE)
  have v: "mutex_value mx = 0" "unat (original_priority mx) < RT_THREAD_PRIORITY_MAX" "t \<notin> set (tlists s ?h)"
    using ok mx(1,2) by (auto elim!: mutex_okE)
  let ?m0 = "mx\<lparr>hold := 0\<rparr>"
  let ?a = "s\<lparr>mutexes := (mutexes s)(m \<mapsto> ?m0)\<rparr>"
  have aw: "kernel_wf ?a" "threads ?a t = Some th" "stat_of th \<noteq> RT_THREAD_CLOSE" using wf cur by simp_all
  let ?r = "restored t th (original_priority mx) ?a"
  note r = restored_eq [OF aw v(2)]
  obtain th' where th': "threads ?r = (threads s)(t \<mapsto> th')" "current_priority th' = original_priority mx"
    "stat_of th' = RT_THREAD_READY" "rt_scheduler_stack_check th' = rt_scheduler_stack_check th"
    using r(4) cur(3) by auto
  have rq: "tlists ?r ?h = tlists s ?h" using r(5) [of ?h] by simp
  have so: "stacks_ok ?r"
    by (rule stacks_ok_upd [OF _ cur(2) th'(1) th'(4)]) (use run cur(3) in \<open>simp_all add: runnable_def\<close>)
  have mr: "mutexes ?r = (mutexes s)(m \<mapsto> ?m0)" using same_restD(2) [OF r(3)] by simp
  have ro: "objects ?r = objects s" using r(6) by simp
  have core: "rt_mutex_release m s = (case tlists ?r ?h of
        u # _ \<Rightarrow> do { uh \<leftarrow> threads ?r u;
             let s = ?r\<lparr>mutexes := (mutexes ?r)(m \<mapsto> ?m0\<lparr>owner := Some u, original_priority := current_priority uh, hold := 1\<rparr>)\<rparr>;
             (_, s) \<leftarrow> rt_ipc_list_resume ?h s; s \<leftarrow> rt_schedule s; Some (RT_EOK, s) }
      | [] \<Rightarrow> Some (RT_EOK, ?r\<lparr>mutexes := (mutexes ?r)(m \<mapsto> fresh_mutex)\<rparr>))"
    using ck mx cur irq v(1) r(1)
    by (cases mx; cases "tlists ?r ?h")
       (simp_all add: rt_mutex_release_def in_thread_context_def rt_thread_self_def Let_def fresh_mutex_def
        del: check_type_iff)
  show ?thesis
  proof (cases "tlists s ?h")
    case Nil
    let ?s = "?r\<lparr>mutexes := (mutexes ?r)(m \<mapsto> fresh_mutex)\<rparr>"
    have "mutex_ok ?s m" using ok ro rq Nil unfolding mutex_ok_def fresh_mutex_def by auto
    moreover have "prio_of ?s t = original_priority mx" using th' by (simp add: prio_of_def)
    ultimately show ?thesis using core rq Nil r(2) by simp
  next
    case (Cons u q)
    have ut: "u \<noteq> t" using v(3) Cons by auto
    obtain uh where uh: "threads s u = Some uh" "stat_of uh = RT_THREAD_SUSPEND"
      using waitq_member [OF kernel_wfD(1) [OF wf], of ?h u] Cons by auto
    have pu: "unat (current_priority uh) < RT_THREAD_PRIORITY_MAX"
      using sched_wf_prio [OF kernel_wfD(1) [OF wf] uh(1)] .
    let ?n = "\<lparr>mutex_value = 0, original_priority = current_priority uh, hold = 1, owner = Some u\<rparr>"
    let ?b = "?r\<lparr>mutexes := (mutexes ?r)(m \<mapsto> ?n)\<rparr>"
    have bw: "kernel_wf ?b" "tlists ?b ?h = u # q" "threads ?b u = Some uh"
      using r(2) rq Cons th'(1) ut uh by simp_all
    note w = rt_thread_resume_woken [OF bw(1,3) uh(2)]
    have lw: "lists_wf (tlists ?b)" using sched_wf_lists [OF kernel_wfD(1) [OF bw(1)]] .
    have iw: "is_waitq ?h" by simp
    have wq: "tlists (woken u uh ?b) ?h = q"
      by (simp only: woken_queue [OF lw iw] removeAll_hd [OF lw bw(2)])
    have nq: "u \<notin> set q" using lists_wf_distinct [OF lw, of ?h] bw(2) by simp
    have rw: "runnable (woken u uh ?b)"
      by (rule runnable_woken [OF bw(3) uh(2)]) (use so in \<open>simp add: stacks_ok_def\<close>)
    have res: "rt_ipc_list_resume ?h ?b = Some (RT_EOK, woken u uh ?b)"
      using bw(2) w(1) by (simp add: rt_ipc_list_resume_def)
    obtain s' where s': "rt_schedule (woken u uh ?b) = Some s'" "kernel_wf s'" "same_rest (woken u uh ?b) s'"
      "threads s' = threads (woken u uh ?b)" "tlists s' = tlists (woken u uh ?b)"
      "rt_scheduler_lock_nest (woken u uh ?b) = 0 \<longrightarrow> runs_highest s'"
      using schedule_ends [OF w(2) rw] by metis
    have rest: "same_rest ?b s'" by (rule same_rest_trans [OF same_rest_woken s'(3)])
    have "rt_mutex_release m s = Some (RT_EOK, s')"
      unfolding core using rq Cons bw(3) res s'(1) v(1) by (cases mx) simp
    moreover have ms: "mutexes s' m = Some ?n" using same_restD(2) [OF rest] by simp
    moreover have "objects s' (OMutex m) = objects s (OMutex m)"
      using rt_schedule_core(5) [OF s'(1)] ro by (simp add: woken_def)
    moreover have ts: "threads s' = (threads s)(t \<mapsto> th', u \<mapsto> set_stat RT_THREAD_READY uh)"
      using s'(4) th'(1) by simp
    moreover have lk: "rt_scheduler_lock_nest (woken u uh ?b) = 0"
      using same_restD(9) [OF same_rest_woken] same_restD(9) [OF r(3)] irq(2) by simp
    moreover have "tlists s' ?h = q" using s'(5) wq by simp
    ultimately have "mutex_ok s' m" "prio_of s' t = original_priority mx" "threads s' u = map_option (set_stat 1) (threads s u)"
      "rt_mutex_release m s = Some (RT_EOK, s')" "runs_highest s'" "tlists s' ?h = q"
      using ok nq pu ut th' s'(6) uh unfolding mutex_ok_def by (auto simp: prio_of_def)
    then show ?thesis using Cons ms uh s'(2) by (auto simp: prio_of_def)
  qed
qed

text \<open>
  (C7) Releasing a mutex, on every branch: a thread that does not own it gets
  \<^verbatim>\<open>-RT_ERROR\<close> and the mutex is untouched; a nested release counts down; the last release
  gives the owner its noted priority back and hands the mutex, still held once, to the first
  thread in line, which becomes ready, or frees it when nobody waits.
\<close>

theorem mutex_release_hands_over:
  assumes wf: "kernel_wf s" and ok: "mutex_ok s m" and mx: "mutexes s m = Some mx"
    and cur: "rt_current_thread s = Some t" "threads s t = Some th" "stat_of th = RT_THREAD_READY"
    and irq: "rt_interrupt_nest s = 0" "rt_scheduler_lock_nest s = 0" and run: "runnable s"
  shows "\<exists>r s'. rt_mutex_release m s = Some (r, s') \<and> kernel_wf s' \<and> mutex_ok s' m \<and>
    (if owner mx \<noteq> Some t then r = - RT_ERROR \<and> mutexes s' = mutexes s
     else if hold mx \<noteq> 1 then r = RT_EOK \<and> mutexes s' m = Some (mx\<lparr>hold := hold mx - 1\<rparr>) \<and> threads s' = threads s
     else r = RT_EOK \<and> prio_of s' t = original_priority mx \<and>
       (case tlists s (SuspendQ (OMutex m)) of
          [] \<Rightarrow> mutexes s' m = Some fresh_mutex
        | u # q \<Rightarrow> mutexes s' m =
              Some \<lparr>mutex_value = 0, original_priority = prio_of s u, hold = 1, owner = Some u\<rparr> \<and>
            tlists s' (SuspendQ (OMutex m)) = q \<and>
            threads s' u = map_option (set_stat RT_THREAD_READY) (threads s u) \<and> runs_highest s'))"
proof -
  have ck: "check_type s (OMutex m) RT_Object_Class_Mutex = Some ()" using ok by (rule mutex_okE)
  show ?thesis
  proof (cases "owner mx = Some t")
    case False
    let ?s = "upd_thread t (\<lambda>th. th\<lparr>thread_error := - RT_ERROR\<rparr>) s"
    have "rt_mutex_release m s = Some (- RT_ERROR, ?s)"
      using ck mx cur irq False
      by (simp add: rt_mutex_release_def in_thread_context_def rt_thread_self_def del: check_type_iff)
    then show ?thesis
      using False upd_error_wf(1,4) [OF wf cur(2)] mutex_ok_error [OF wf cur(2) ok] by auto
  next
    case own: True
    show ?thesis
    proof (cases "hold mx = 1")
      case True
      then show ?thesis using rt_mutex_release_last [OF wf ok mx own True cur irq run] own by auto
    next
      case False
      let ?s = "s\<lparr>mutexes := (mutexes s)(m \<mapsto> mx\<lparr>hold := hold mx - 1\<rparr>)\<rparr>"
      have "rt_mutex_release m s = Some (RT_EOK, ?s)"
        using ck mx cur irq False own sub_one_word [of "hold mx"]
        by (simp add: rt_mutex_release_def in_thread_context_def rt_thread_self_def Let_def del: check_type_iff)
      moreover have "mutex_ok ?s m" using ok mx own False sub_one_word [of "hold mx"] unfolding mutex_ok_def by auto
      ultimately show ?thesis using own False wf by auto
    qed
  qed
qed

text \<open>The sample state with thread 3, which owns mutex 0, running.\<close>

definition demo_owner :: kernel where
  "demo_owner = demo\<lparr>rt_current_thread := Some 3\<rparr>"

lemma demo_owner_wf: "kernel_wf demo_owner" "mutex_ok demo_owner 0" "runnable demo_owner"
proof -
  show "kernel_wf demo_owner" unfolding demo_owner_def by (rule kernel_wf_view [OF demo_wf]) simp_all
  show "mutex_ok demo_owner 0"
    using demo_mutex_ok(1) by (simp add: mutex_ok_def demo_owner_def)
  show "runnable demo_owner"
    using demo_runnable(1) runnable_cong [of demo_owner demo] by (simp add: demo_owner_def)
qed

theorem mutex_release_hands_over_witness:
  "(\<exists>s'. rt_mutex_release 0 demo_owner = Some (RT_EOK, s') \<and> mutexes s' 0 = Some fresh_mutex) \<and>
   (\<exists>s'. rt_mutex_release 0 demo = Some (- RT_ERROR, s') \<and> mutexes s' = mutexes demo)"
proof -
  have d: "mutexes demo_owner 0 = Some \<lparr>mutex_value = 0, original_priority = 20, hold = 1, owner = Some 3\<rparr>"
    "rt_current_thread demo_owner = Some 3" "threads demo_owner 3 = Some (demo_thread 20 1)"
    "rt_interrupt_nest demo_owner = 0" "rt_scheduler_lock_nest demo_owner = 0"
    "tlists demo_owner (SuspendQ (OMutex 0)) = []"
    by (simp_all add: demo_owner_def)
  show ?thesis
    using mutex_release_hands_over [OF demo_owner_wf(1,2) d(1-3) _ d(4,5) demo_owner_wf(3)] d(6)
      mutex_release_hands_over [OF demo_wf demo_mutex_ok(1), of _ 1 "demo_thread 10 1"] demo_runnable(1)
    by auto
qed

end
