(* ===== verification/Event.thy ===== *)
theory Event
  imports Mutex
begin

text \<open>
  Events (\<^verbatim>\<open>rt_event_*\<close> of \<^verbatim>\<open>src/ipc.c\<close>): a set of 32 flags that
  threads wait for, all of them or any of them, clearing them or not. \<open>rt_event_recv\<close> also
  gives what is stored through \<^verbatim>\<open>recved\<close>, when something is.
\<close>

section \<open>The code\<close>

definition rt_event_init :: "nat \<Rightarrow> cbuf \<Rightarrow> u8 \<Rightarrow> kernel \<Rightarrow> (rt_err \<times> kernel) option" where
  "rt_event_init e name flag s =
     do { s \<leftarrow> rt_object_init (OEvent e) RT_Object_Class_Event name s;
          let s = set_ipc_flag (OEvent e) flag s;
          let s = rt_ipc_object_init (OEvent e) s;
          Some (RT_EOK, s\<lparr>events := (events s)(e \<mapsto> \<lparr>event_bits = 0\<rparr>)\<rparr>) }"

definition rt_event_detach :: "nat \<Rightarrow> kernel \<Rightarrow> (rt_err \<times> kernel) option" where
  "rt_event_detach e s =
     do { check_type s (OEvent e) RT_Object_Class_Event;
          sys \<leftarrow> rt_object_is_systemobject s (OEvent e);
          rt_assert sys;
          (_, s) \<leftarrow> rt_ipc_list_resume_all (SuspendQ (OEvent e)) s;
          s \<leftarrow> rt_object_detach (OEvent e) s;
          Some (RT_EOK, s) }"

definition rt_event_create :: "cbuf \<Rightarrow> u8 \<Rightarrow> nat option \<Rightarrow> kernel \<Rightarrow> (nat option \<times> kernel) option" where
  "rt_event_create name flag mem s =
     do { not_in_interrupt s;
          (r, s) \<leftarrow> rt_object_allocate RT_Object_Class_Event name (map_option OEvent mem) s;
          case (r, mem) of
            (Some _, Some e) \<Rightarrow>
              do { let s = set_ipc_flag (OEvent e) flag s;
                   let s = rt_ipc_object_init (OEvent e) s;
                   Some (Some e, s\<lparr>events := (events s)(e \<mapsto> \<lparr>event_bits = 0\<rparr>)\<rparr>) }
          | _ \<Rightarrow> Some (None, s) }"

definition rt_event_delete :: "nat \<Rightarrow> kernel \<Rightarrow> (rt_err \<times> kernel) option" where
  "rt_event_delete e s =
     do { check_type s (OEvent e) RT_Object_Class_Event;
          sys \<leftarrow> rt_object_is_systemobject s (OEvent e);
          rt_assert (\<not> sys);
          not_in_interrupt s;
          (_, s) \<leftarrow> rt_ipc_list_resume_all (SuspendQ (OEvent e)) s;
          s \<leftarrow> rt_object_delete (OEvent e) s;
          Some (RT_EOK, s\<lparr>events := (events s)(e := None)\<rparr>) }"

text \<open>
  The loop of \<^verbatim>\<open>rt_event_send\<close> over the waiting threads. It steps to the next node
  before it resumes a thread, which takes only that thread off the list, so it runs over the
  list as it was.
\<close>

fun event_wake :: "nat \<Rightarrow> tid list \<Rightarrow> bool \<Rightarrow> kernel \<Rightarrow> (bool \<times> kernel) option" where
  "event_wake e [] need_schedule s = Some (need_schedule, s)"
| "event_wake e (t # n) need_schedule s =
     do { th \<leftarrow> threads s t;
          ev \<leftarrow> events s e;
          let (status, th) =
            (if event_info th AND RT_EVENT_FLAG_AND \<noteq> 0
             then (if event_set th AND event_bits ev = event_set th then (RT_EOK, th) else (- RT_ERROR, th))
             else if event_info th AND RT_EVENT_FLAG_OR \<noteq> 0
             then (if event_set th AND event_bits ev \<noteq> 0
                   then (RT_EOK, th\<lparr>event_set := event_set th AND event_bits ev\<rparr>) else (- RT_ERROR, th))
             else (- RT_ERROR, th));
          let s = upd_thread t (\<lambda>_. th) s;
          if status = RT_EOK
          then do { let s = (if event_info th AND RT_EVENT_FLAG_CLEAR \<noteq> 0
                             then s\<lparr>events := (events s)(e \<mapsto> ev\<lparr>event_bits := event_bits ev AND NOT (event_set th)\<rparr>)\<rparr>
                             else s);
                    (_, s) \<leftarrow> rt_thread_resume t s;
                    event_wake e n True s }
          else event_wake e n need_schedule s }"

definition rt_event_send :: "nat \<Rightarrow> u32 \<Rightarrow> kernel \<Rightarrow> (rt_err \<times> kernel) option" where
  "rt_event_send e bits s =
     do { check_type s (OEvent e) RT_Object_Class_Event;
          if bits = 0 then Some (- RT_ERROR, s)
          else do { ev \<leftarrow> events s e;
                    let s = s\<lparr>events := (events s)(e \<mapsto> ev\<lparr>event_bits := event_bits ev OR bits\<rparr>)\<rparr>;
                    (need_schedule, s) \<leftarrow> event_wake e (tlists s (SuspendQ (OEvent e))) False s;
                    s \<leftarrow> (if need_schedule then rt_schedule s else Some s);
                    Some (RT_EOK, s) } }"

definition rt_event_recv ::
    "nat \<Rightarrow> u32 \<Rightarrow> u8 \<Rightarrow> u32 \<Rightarrow> kernel \<Rightarrow> (rt_err outcome \<times> u32 option \<times> kernel) option" where
  "rt_event_recv e bits opt timeout s =
     do { in_thread_context s;
          check_type s (OEvent e) RT_Object_Class_Event;
          if bits = 0 then Some (Return (- RT_ERROR), None, s)
          else do {
            t \<leftarrow> rt_thread_self s;
            let s = upd_thread t (\<lambda>th. th\<lparr>thread_error := RT_EOK\<rparr>) s;
            ev \<leftarrow> events s e;
            status \<leftarrow> (if opt AND RT_EVENT_FLAG_AND \<noteq> 0
                       then Some (if event_bits ev AND bits = bits then RT_EOK else - RT_ERROR)
                       else if opt AND RT_EVENT_FLAG_OR \<noteq> 0
                       then Some (if event_bits ev AND bits \<noteq> 0 then RT_EOK else - RT_ERROR)
                       else None);
            if status = RT_EOK
            then Some (Return RT_EOK, Some (event_bits ev AND bits),
                   if opt AND RT_EVENT_FLAG_CLEAR \<noteq> 0
                   then s\<lparr>events := (events s)(e \<mapsto> ev\<lparr>event_bits := event_bits ev AND NOT bits\<rparr>)\<rparr>
                   else s)
            else if sint timeout = 0
            then Some (Return (- RT_ETIMEOUT), None, upd_thread t (\<lambda>th. th\<lparr>thread_error := - RT_ETIMEOUT\<rparr>) s)
            else do { let s = upd_thread t (\<lambda>th. th\<lparr>event_set := bits, event_info := opt\<rparr>) s;
                      x \<leftarrow> objects s (OEvent e);
                      s \<leftarrow> wait_on (SuspendQ (OEvent e)) t (obj_flag x) timeout s;
                      Some (Pending, None, s) } } }"

definition rt_event_recv_resumed :: "tid \<Rightarrow> kernel \<Rightarrow> (rt_err \<times> u32 option) option" where
  "rt_event_recv_resumed t s =
     do { th \<leftarrow> threads s t;
          if thread_error th \<noteq> RT_EOK then Some (thread_error th, None)
          else Some (thread_error th, Some (event_set th)) }"

definition rt_event_control :: "nat \<Rightarrow> int \<Rightarrow> kernel \<Rightarrow> (rt_err \<times> kernel) option" where
  "rt_event_control e cmd s =
     do { check_type s (OEvent e) RT_Object_Class_Event;
          if cmd = RT_IPC_CMD_RESET
          then do { (_, s) \<leftarrow> rt_ipc_list_resume_all (SuspendQ (OEvent e)) s;
                    let s = s\<lparr>events := (events s)(e \<mapsto> \<lparr>event_bits = 0\<rparr>)\<rparr>;
                    s \<leftarrow> rt_schedule s;
                    Some (RT_EOK, s) }
          else Some (- RT_ERROR, s) }"

section \<open>The contract\<close>

text \<open>Whether a wait for \<open>want\<close> with options \<open>opt\<close> is over when the flags are \<open>bits\<close>, and what it receives.\<close>

definition satisfied :: "u32 \<Rightarrow> u32 \<Rightarrow> u8 \<Rightarrow> bool" where
  "satisfied bits want opt \<longleftrightarrow>
     (if opt AND RT_EVENT_FLAG_AND \<noteq> 0 then want AND bits = want
      else opt AND RT_EVENT_FLAG_OR \<noteq> 0 \<and> want AND bits \<noteq> 0)"

definition received :: "u32 \<Rightarrow> u32 \<Rightarrow> u8 \<Rightarrow> u32" where
  "received bits want opt = (if opt AND RT_EVENT_FLAG_AND \<noteq> 0 then want else want AND bits)"

definition clear_for :: "u8 \<Rightarrow> u32 \<Rightarrow> u32 \<Rightarrow> u32" where
  "clear_for opt got bits = (if opt AND RT_EVENT_FLAG_CLEAR \<noteq> 0 then bits AND NOT got else bits)"

text \<open>
  Delivery, in the order of the waiting list: the flags left, the threads served with what each
  received, the threads that go on waiting.
\<close>

fun deliver :: "(tid \<Rightarrow> u32 \<times> u8) \<Rightarrow> u32 \<Rightarrow> tid list \<Rightarrow> u32 \<times> (tid \<rightharpoonup> u32) \<times> tid list" where
  "deliver w bits [] = (bits, Map.empty, [])"
| "deliver w bits (t # ts) =
     (let (want, opt) = w t in
      if satisfied bits want opt
      then (let got = received bits want opt;
                (b, m, r) = deliver w (clear_for opt got bits) ts
            in (b, m(t \<mapsto> got), r))
      else (let (b, m, r) = deliver w bits ts in (b, m, t # r)))"

definition waits_for :: "kernel \<Rightarrow> tid \<Rightarrow> u32 \<times> u8" where
  "waits_for s t = (case threads s t of None \<Rightarrow> (0, 0) | Some th \<Rightarrow> (event_set th, event_info th))"

text \<open>An event in order: the threads that wait are those whose condition the flags do not meet.\<close>

definition event_ok :: "kernel \<Rightarrow> nat \<Rightarrow> bool" where
  "event_ok s e \<longleftrightarrow>
     (\<exists>ev x. events s e = Some ev \<and> objects s (OEvent e) = Some x \<and>
        obj_type x AND NOT RT_Object_Class_Static = RT_Object_Class_Event \<and>
        (obj_flag x = RT_IPC_FLAG_FIFO \<or> obj_flag x = RT_IPC_FLAG_PRIO) \<and>
        (\<forall>t \<in> set (tlists s (SuspendQ (OEvent e))).
           \<not> satisfied (event_bits ev) (fst (waits_for s t)) (snd (waits_for s t))))"

lemma event_okE:
  assumes "event_ok s e"
  obtains ev x where "events s e = Some ev" "objects s (OEvent e) = Some x"
    "check_type s (OEvent e) RT_Object_Class_Event = Some ()"
    "obj_flag x = RT_IPC_FLAG_FIFO \<or> obj_flag x = RT_IPC_FLAG_PRIO"
    "\<forall>t \<in> set (tlists s (SuspendQ (OEvent e))).
       \<not> satisfied (event_bits ev) (fst (waits_for s t)) (snd (waits_for s t))"
  using assms unfolding event_ok_def by (auto simp: check_type_known)

text \<open>Fewer flags satisfy fewer waits, so those passed over stay unsatisfied.\<close>

lemma satisfied_mono:
  assumes "satisfied b want opt" "b AND c = b"
  shows "satisfied c want opt"
proof -
  have "(want AND c) AND b = want AND b" using assms(2) by (metis and.assoc and.commute)
  then have "want AND b \<noteq> 0 \<Longrightarrow> want AND c \<noteq> 0" by auto
  moreover have "want AND b = want \<Longrightarrow> want AND c = want" using assms(2) by (metis and.assoc)
  ultimately show ?thesis using assms(1) by (auto simp: satisfied_def split: if_splits)
qed

lemma event_ok_keep:
  assumes ok: "event_ok s e" and ev: "events s e = Some ev" "events s' e = Some ev'"
    and less: "event_bits ev' AND event_bits ev = event_bits ev'"
    and q: "\<And>t. t \<in> set (tlists s' (SuspendQ (OEvent e))) \<Longrightarrow> t \<in> set (tlists s (SuspendQ (OEvent e))) \<and>
        waits_for s' t = waits_for s t \<or> \<not> satisfied (event_bits ev') (fst (waits_for s' t)) (snd (waits_for s' t))"
    and obj: "objects s' (OEvent e) = objects s (OEvent e)"
  shows "event_ok s' e"
proof -
  have "\<not> satisfied (event_bits ev') (fst (waits_for s' t)) (snd (waits_for s' t))"
    if "t \<in> set (tlists s' (SuspendQ (OEvent e)))" for t
    using q [OF that] satisfied_mono [OF _ less] ok ev(1) unfolding event_ok_def by force
  then show ?thesis using ok ev obj unfolding event_ok_def by auto
qed

lemma clear_for_sub: "clear_for opt got bits AND bits = clear_for opt got bits"
  by (simp add: clear_for_def) (metis and.assoc and.commute and.idem)

lemma deliver_sub: "deliver w bits ts = (b, m, r) \<Longrightarrow> b AND bits = b"
proof (induction ts arbitrary: bits b m r)
  case (Cons t ts)
  obtain want opt where w: "w t = (want, opt)" by (cases "w t")
  show ?case
  proof (cases "satisfied bits want opt")
    case True
    let ?c = "clear_for opt (received bits want opt) bits"
    obtain m' where "deliver w ?c ts = (b, m', r)"
      using Cons.prems w True by (auto simp: Let_def split: prod.splits)
    then have "b AND ?c = b" by (rule Cons.IH)
    then show ?thesis using clear_for_sub [of opt "received bits want opt" bits] by (metis and.assoc)
  next
    case False
    then obtain r' where "deliver w bits ts = (b, m, r')" using Cons.prems w by (auto split: prod.splits)
    then show ?thesis by (rule Cons.IH)
  qed
qed simp

lemma deliver_left_unsatisfied:
  "deliver w bits ts = (b, m, r) \<Longrightarrow> t \<in> set r \<Longrightarrow> \<not> satisfied b (fst (w t)) (snd (w t))"
proof (induction ts arbitrary: bits b m r)
  case (Cons u ts)
  obtain want opt where w: "w u = (want, opt)" by (cases "w u")
  show ?case
  proof (cases "satisfied bits want opt")
    case True
    then show ?thesis using Cons w by (auto simp: Let_def split: prod.splits)
  next
    case False
    then obtain r' where d: "deliver w bits ts = (b, m, r')" "r = u # r'"
      using Cons.prems(1) w by (auto split: prod.splits)
    show ?thesis
    proof (cases "t = u")
      case True
      then show ?thesis using False w satisfied_mono [OF _ deliver_sub [OF d(1)]] by auto
    next
      case False
      then show ?thesis using Cons.IH [OF d(1)] Cons.prems(2) d(2) by simp
    qed
  qed
qed simp

text \<open>What the loop does to the threads: those served are ready and know what they received.\<close>

definition served :: "(tid \<rightharpoonup> u32) \<Rightarrow> (tid \<Rightarrow> rt_thread option) \<Rightarrow> tid \<Rightarrow> rt_thread option" where
  "served m ths t = (case m t of None \<Rightarrow> ths t
     | Some got \<Rightarrow> map_option (\<lambda>th. set_stat RT_THREAD_READY (th\<lparr>event_set := got\<rparr>)) (ths t))"

lemma deliver_cong: "(\<And>t. t \<in> set ts \<Longrightarrow> w t = w' t) \<Longrightarrow> deliver w bits ts = deliver w' bits ts"
  by (induction ts arbitrary: bits) (simp_all add: Let_def split: prod.splits)

lemma deliver_dom: "deliver w bits ts = (b, m, r) \<Longrightarrow> dom m \<subseteq> set ts"
proof (induction ts arbitrary: bits b m r)
  case (Cons t ts)
  obtain want opt where w: "w t = (want, opt)" by (cases "w t")
  show ?case
    using Cons.prems w by (fastforce simp: Let_def split: prod.splits if_splits dest!: Cons.IH)
qed simp

lemma deliver_left:
  "deliver w bits ts = (b, m, r) \<Longrightarrow> set r \<subseteq> set ts \<and> (distinct ts \<longrightarrow> set r \<inter> dom m = {})"
proof (induction ts arbitrary: bits b m r)
  case (Cons t ts)
  obtain want opt where w: "w t = (want, opt)" by (cases "w t")
  show ?case
  proof (cases "satisfied bits want opt")
    case True
    then obtain bits' m' where d: "deliver w bits' ts = (b, m', r)" "m = m'(t \<mapsto> received bits want opt)"
      using Cons.prems w by (auto simp: Let_def split: prod.splits)
    have "dom m = insert t (dom m')" using d(2) by auto
    then show ?thesis using Cons.IH [OF d(1)] by auto
  next
    case False
    then obtain r' where d: "deliver w bits ts = (b, m, r')" "r = t # r'"
      using Cons.prems w by (auto split: prod.splits)
    then show ?thesis using Cons.IH [OF d(1)] deliver_dom [OF d(1)] by auto
  qed
qed simp

text \<open>One thread of the loop.\<close>

lemma event_wake_step:
  assumes wf: "kernel_wf s" and ev: "events s e = Some ev" and th: "threads s t = Some th"
    "stat_of th = RT_THREAD_SUSPEND" and run: "runnable s"
    and sat: "satisfied (event_bits ev) (event_set th) (event_info th)"
  defines "got \<equiv> received (event_bits ev) (event_set th) (event_info th)"
  defines "g \<equiv> th\<lparr>event_set := got\<rparr>"
  defines "c \<equiv> s\<lparr>threads := (threads s)(t \<mapsto> g),
      events := (events s)(e \<mapsto> ev\<lparr>event_bits := clear_for (event_info th) got (event_bits ev)\<rparr>)\<rparr>"
  shows "event_wake e (t # ts) need s = event_wake e ts True (woken t g c)"
    and "kernel_wf (woken t g c)" and "runnable (woken t g c)"
    and "threads (woken t g c) = (threads s)(t \<mapsto> set_stat RT_THREAD_READY g)"
proof -
  have c: "kernel_wf c" "threads c t = Some g" "stat_of g = RT_THREAD_SUSPEND"
  proof -
    have "kernel_wf (upd_thread t (\<lambda>_. g) s)"
      by (rule kernel_wf_upd_thread [OF wf]) (use th in \<open>simp add: g_def sched_view_def\<close>)
    then show "kernel_wf c" using th by (simp add: c_def upd_thread_def)
  qed (use th in \<open>simp_all add: c_def g_def\<close>)
  note w = rt_thread_resume_woken [OF c]
  show "kernel_wf (woken t g c)" by (rule w(2))
  show "runnable (woken t g c)"
    by (rule runnable_woken [OF c(2,3) stacks_ok_upd [OF _ th(1), of _ g]])
       (use run th(2) in \<open>simp_all add: runnable_def c_def g_def rt_scheduler_stack_check_def\<close>)
  show "event_wake e (t # ts) need s = event_wake e ts True (woken t g c)"
  proof -
    have st: "(if event_info th AND RT_EVENT_FLAG_AND \<noteq> 0
             then (if event_set th AND event_bits ev = event_set th then (RT_EOK, th) else (- RT_ERROR, th))
             else if event_info th AND RT_EVENT_FLAG_OR \<noteq> 0
             then (if event_set th AND event_bits ev \<noteq> 0
                   then (RT_EOK, th\<lparr>event_set := event_set th AND event_bits ev\<rparr>) else (- RT_ERROR, th))
             else (- RT_ERROR, th)) = (RT_EOK, g)"
      using sat by (cases "event_info th AND RT_EVENT_FLAG_AND = 0")
        (auto simp: satisfied_def received_def got_def g_def)
    have cl: "(let s = upd_thread t (\<lambda>_. g) s in if event_info g AND RT_EVENT_FLAG_CLEAR \<noteq> 0
             then s\<lparr>events := (events s)(e \<mapsto> ev\<lparr>event_bits := event_bits ev AND NOT (event_set g)\<rparr>)\<rparr>
             else s) = c"
      using th(1) ev by (cases "event_info th AND RT_EVENT_FLAG_CLEAR = 0")
        (simp_all add: Let_def clear_for_def g_def c_def upd_thread_def fun_upd_idem)
    show ?thesis
      using cl w(1) by (simp only: event_wake.simps th(1) ev bind.bind_lunit st Let_def prod.case simp_thms if_True)
  qed
  show "threads (woken t g c) = (threads s)(t \<mapsto> set_stat RT_THREAD_READY g)"
    by (simp add: c_def)
qed

text \<open>The loop delivers.\<close>

lemma event_wake_delivers:
  assumes wf: "kernel_wf s" and ev: "events s e = Some ev" and run: "runnable s"
    and q: "tlists s (SuspendQ (OEvent e)) = pre @ ts"
    and d: "deliver (waits_for s) (event_bits ev) ts = (b, m, r)"
  shows "\<exists>s'. event_wake e ts need s = Some (need \<or> m \<noteq> Map.empty, s') \<and> kernel_wf s' \<and> runnable s' \<and>
    same_rest (s\<lparr>events := (events s)(e \<mapsto> ev\<lparr>event_bits := b\<rparr>)\<rparr>) s' \<and>
    tlists s' (SuspendQ (OEvent e)) = pre @ r \<and> threads s' = served m (threads s) \<and>
    objects s' (OEvent e) = objects s (OEvent e)"
  using assms
proof (induction ts arbitrary: s ev pre need b m r)
  case Nil
  then have e: "m = Map.empty" "r = []" "b = event_bits ev" by simp_all
  have "s\<lparr>events := (events s)(e \<mapsto> ev\<lparr>event_bits := b\<rparr>)\<rparr> = s"
    using Nil.prems(2) by (simp add: e fun_upd_idem)
  then have "same_rest (s\<lparr>events := (events s)(e \<mapsto> ev\<lparr>event_bits := b\<rparr>)\<rparr>) s" by (simp add: same_rest_def)
  then show ?case using Nil.prems(1,3,4) e(1,2) by (simp add: served_def fun_eq_iff del: fun_upd_apply)
next
  case (Cons t ts)
  let ?h = "SuspendQ (OEvent e)"
  have lw: "lists_wf (tlists s)" using sched_wf_lists [OF kernel_wfD(1) [OF Cons.prems(1)]] .
  have nin: "t \<notin> set ts" "t \<notin> set pre" using lists_wf_distinct [OF lw, of ?h] Cons.prems(4) by auto
  obtain th where th: "threads s t = Some th" "stat_of th = RT_THREAD_SUSPEND"
    using waitq_member [OF kernel_wfD(1) [OF Cons.prems(1)], of ?h t] Cons.prems(4) by auto
  show ?case
  proof (cases "satisfied (event_bits ev) (event_set th) (event_info th)")
    case False
    have w: "waits_for s t = (event_set th, event_info th)" using th by (simp add: waits_for_def)
    obtain r' where d: "deliver (waits_for s) (event_bits ev) ts = (b, m, r')" "r = t # r'"
      using Cons.prems(5) False w by (auto split: prod.splits)
    have "event_wake e (t # ts) need s = event_wake e ts need s"
      using False th Cons.prems(2)
      by (auto simp: satisfied_def upd_thread_def fun_upd_idem Let_def split: if_splits)
    moreover have "tlists s ?h = (pre @ [t]) @ ts" using Cons.prems(4) by simp
    ultimately show ?thesis using Cons.IH [OF Cons.prems(1-3) _ d(1), of "pre @ [t]"] d(2) by simp
  next
    case True
    define got where "got = received (event_bits ev) (event_set th) (event_info th)"
    define g where "g = th\<lparr>event_set := got\<rparr>"
    define ev' where "ev' = ev\<lparr>event_bits := clear_for (event_info th) got (event_bits ev)\<rparr>"
    define c where "c = s\<lparr>threads := (threads s)(t \<mapsto> g), events := (events s)(e \<mapsto> ev')\<rparr>"
    let ?s = "woken t g c"
    note st = event_wake_step [OF Cons.prems(1,2) th Cons.prems(3) True, folded got_def,
        folded g_def ev'_def, folded c_def]
    have w: "waits_for s t = (event_set th, event_info th)" using th by (simp add: waits_for_def)
    obtain m' where d: "deliver (waits_for s) (event_bits ev') ts = (b, m', r)" "m = m'(t \<mapsto> got)"
      using Cons.prems(5) True w by (auto simp: Let_def got_def ev'_def split: prod.splits)
    have nm: "m' t = None" using deliver_dom [OF d(1)] nin(1) by auto
    have "deliver (waits_for ?s) (event_bits ev') ts = deliver (waits_for s) (event_bits ev') ts"
      by (rule deliver_cong) (use nin(1) in \<open>auto simp: waits_for_def c_def\<close>)
    then have d': "deliver (waits_for ?s) (event_bits ev') ts = (b, m', r)" using d(1) by simp
    have "tlists ?s ?h = removeAll t (tlists s ?h)" using woken_queue [of c ?h t g] lw by (simp add: c_def)
    then have q': "tlists ?s ?h = pre @ ts" using Cons.prems(4) nin by simp
    have es: "events ?s = (events s)(e \<mapsto> ev')"
      using same_restD(3) [OF same_rest_woken, of t g c] by (simp add: c_def)
    have es': "events ?s e = Some ev'" by (simp add: es)
    obtain s' where s': "event_wake e ts True ?s = Some (True \<or> m' \<noteq> Map.empty, s')" "kernel_wf s'" "runnable s'"
      "same_rest (?s\<lparr>events := (events ?s)(e \<mapsto> ev'\<lparr>event_bits := b\<rparr>)\<rparr>) s'"
      "tlists s' ?h = pre @ r" "threads s' = served m' (threads ?s)" "objects s' (OEvent e) = objects ?s (OEvent e)"
      using Cons.IH [OF st(2) es' st(3) q' d', of True] by blast
    have "same_rest (s\<lparr>events := (events s)(e \<mapsto> ev\<lparr>event_bits := b\<rparr>)\<rparr>)
        (?s\<lparr>events := (events ?s)(e \<mapsto> ev'\<lparr>event_bits := b\<rparr>)\<rparr>)"
      using same_rest_woken [of c t g] by (simp add: same_rest_def c_def ev'_def es)
    from same_rest_trans [OF this s'(4)] have "same_rest (s\<lparr>events := (events s)(e \<mapsto> ev\<lparr>event_bits := b\<rparr>)\<rparr>) s'" .
    moreover have "threads s' = served m (threads s)"
      unfolding s'(6) st(4) using th(1) nm
      by (auto simp: served_def d(2) g_def fun_eq_iff split: option.splits)
    moreover have "objects s' (OEvent e) = objects s (OEvent e)" using s'(7) by (simp add: woken_def c_def)
    moreover have "m \<noteq> Map.empty" using d(2) by simp
    ultimately show ?thesis using st(1) [of ts need] s'(1,2,3,5) by (simp del: event_wake.simps fun_upd_apply)
  qed
qed

text \<open>
  (C8) Sending to an event refines the delivery: the flags are added, the waiting threads are served in the
  order of the list, each as soon as its condition holds on the flags its predecessors left, they
  become ready with what they received, and the condition of every thread still waiting is not met
  by the flags that remain.
\<close>

theorem event_send_delivers:
  assumes wf: "kernel_wf s" and ok: "event_ok s e" and ev: "events s e = Some ev" and run: "runnable s"
    and bits: "bits \<noteq> 0"
    and d: "deliver (waits_for s) (event_bits ev OR bits) (tlists s (SuspendQ (OEvent e))) = (b, m, r)"
  shows "\<exists>s'. rt_event_send e bits s = Some (RT_EOK, s') \<and> kernel_wf s' \<and> event_ok s' e \<and>
    events s' e = Some \<lparr>event_bits = b\<rparr> \<and> tlists s' (SuspendQ (OEvent e)) = r \<and>
    threads s' = served m (threads s) \<and>
    (rt_scheduler_lock_nest s = 0 \<and> m \<noteq> Map.empty \<longrightarrow> runs_highest s')"
proof -
  let ?h = "SuspendQ (OEvent e)"
  obtain x where ck: "check_type s (OEvent e) RT_Object_Class_Event = Some ()"
    using ok by (rule event_okE)
  let ?ev = "ev\<lparr>event_bits := event_bits ev OR bits\<rparr>"
  let ?a = "s\<lparr>events := (events s)(e \<mapsto> ?ev)\<rparr>"
  have a: "kernel_wf ?a" "events ?a e = Some ?ev" "runnable ?a" "tlists ?a ?h = [] @ tlists s ?h"
    "waits_for ?a = waits_for s" "event_bits ?ev = event_bits ev OR bits"
    using wf run runnable_cong [of ?a s] by (simp_all add: waits_for_def fun_eq_iff)
  obtain u where u: "event_wake e (tlists s ?h) False ?a = Some (False \<or> m \<noteq> Map.empty, u)" "kernel_wf u" "runnable u"
    "same_rest (?a\<lparr>events := (events ?a)(e \<mapsto> ?ev\<lparr>event_bits := b\<rparr>)\<rparr>) u"
    "tlists u ?h = [] @ r" "threads u = served m (threads ?a)" "objects u (OEvent e) = objects ?a (OEvent e)"
    using event_wake_delivers [OF a(1-4), unfolded a(5,6), OF d, of False] by blast
  obtain s' where s': "(if m \<noteq> Map.empty then rt_schedule u else Some u) = Some s'" "kernel_wf s'" "same_rest u s'"
    "threads s' = threads u" "tlists s' = tlists u" "objects s' = objects u"
    "m \<noteq> Map.empty \<longrightarrow> rt_scheduler_lock_nest u = 0 \<longrightarrow> runs_highest s'"
  proof (cases "m = Map.empty")
    case True
    then show thesis using that [of u] u(2) by (simp add: same_rest_def)
  next
    case False
    obtain s' where s': "rt_schedule u = Some s'" "kernel_wf s'" "same_rest u s'" "threads s' = threads u"
      "tlists s' = tlists u" "rt_timer_list s' = rt_timer_list u" "timers s' = timers u" "runnable s'"
      "rt_scheduler_lock_nest u = 0 \<longrightarrow> runs_highest s'"
      using schedule_ends [OF u(2,3)] .
    show thesis using that [of s'] False s' rt_schedule_core(5) [OF s'(1)] by simp
  qed
  have rest: "same_rest (s\<lparr>events := (events s)(e \<mapsto> ev\<lparr>event_bits := b\<rparr>)\<rparr>) s'"
    using same_rest_trans [OF u(4) s'(3)] by simp
  have es: "events s' e = Some \<lparr>event_bits = b\<rparr>" using same_restD(3) [OF rest] by (cases ev) simp
  have wf': "waits_for s' t = waits_for s t" if "t \<in> set r" for t
  proof -
    have "m t = None"
      using that deliver_left [OF d] lists_wf_distinct [OF sched_wf_lists [OF kernel_wfD(1) [OF wf]], of ?h] by auto
    then show ?thesis using s'(4) u(6) by (simp add: waits_for_def served_def)
  qed
  have "event_ok s' e"
    using ok es s'(5,6) u(5,7) deliver_left_unsatisfied [OF d] wf' unfolding event_ok_def by auto
  moreover have "rt_event_send e bits s = Some (RT_EOK, s')"
    using ck ev bits u(1) s'(1) by (simp add: rt_event_send_def del: check_type_iff fun_upd_apply) 
  ultimately show ?thesis using es s' u(5,6) same_restD(9) [OF u(4)] by simp
qed

lemma recv_status:
  assumes "opt AND RT_EVENT_FLAG_AND \<noteq> 0 \<or> opt AND RT_EVENT_FLAG_OR \<noteq> 0"
  shows "(if opt AND RT_EVENT_FLAG_AND \<noteq> 0
          then Some (if b AND bits = bits then RT_EOK else - RT_ERROR)
          else if opt AND RT_EVENT_FLAG_OR \<noteq> 0
          then Some (if b AND bits \<noteq> 0 then RT_EOK else - RT_ERROR)
          else None) = Some (if satisfied b bits opt then RT_EOK else - RT_ERROR)"
  using assms by (auto simp: satisfied_def and.commute)

lemma rt_event_recv_unfold:
  assumes "in_thread_context s = Some ()" "check_type s (OEvent e) RT_Object_Class_Event = Some ()" "bits \<noteq> 0"
    and cur: "rt_current_thread s = Some t" and ev: "events s e = Some ev"
    and opt: "opt AND RT_EVENT_FLAG_AND \<noteq> 0 \<or> opt AND RT_EVENT_FLAG_OR \<noteq> 0"
  defines "c \<equiv> upd_thread t (\<lambda>th. th\<lparr>thread_error := RT_EOK\<rparr>) s"
  shows "rt_event_recv e bits opt timeout s =
    (if satisfied (event_bits ev) bits opt
     then Some (Return RT_EOK, Some (event_bits ev AND bits),
            if opt AND RT_EVENT_FLAG_CLEAR \<noteq> 0
            then c\<lparr>events := (events c)(e \<mapsto> ev\<lparr>event_bits := event_bits ev AND NOT bits\<rparr>)\<rparr> else c)
     else if sint timeout = 0
     then Some (Return (- RT_ETIMEOUT), None, upd_thread t (\<lambda>th. th\<lparr>thread_error := - RT_ETIMEOUT\<rparr>) c)
     else do { let s = upd_thread t (\<lambda>th. th\<lparr>event_set := bits, event_info := opt\<rparr>) c;
               x \<leftarrow> objects s (OEvent e);
               s \<leftarrow> wait_on (SuspendQ (OEvent e)) t (obj_flag x) timeout s;
               Some (Pending, None, s) })"
proof -
  have ev': "events c e = Some ev" using ev by (simp add: c_def upd_thread_def)
  show ?thesis
    unfolding rt_event_recv_def rt_thread_self_def assms(1,2) cur bind.bind_lunit Let_def
      c_def [symmetric] ev' recv_status [OF opt]
    using assms(3) by simp
qed

text \<open>
  Receiving from an event, on every branch: an empty set is refused; flags that meet the condition are
  returned at once and cleared if asked; without a wait the call gives \<^verbatim>\<open>-RT_ETIMEOUT\<close>;
  otherwise the thread waits in the list with its condition noted, and its timer runs if the wait
  is limited. In every case no waiting thread's condition is met afterwards.
\<close>

theorem event_recv_branches:
  assumes wf: "kernel_wf s" and ok: "event_ok s e" and ev: "events s e = Some ev"
    and cur: "rt_current_thread s = Some t" "threads s t = Some th" "stat_of th = RT_THREAD_READY"
    and irq: "rt_interrupt_nest s = 0" "rt_scheduler_lock_nest s = 0" and run: "runnable_without t s"
    and opt: "opt AND RT_EVENT_FLAG_AND \<noteq> 0 \<or> opt AND RT_EVENT_FLAG_OR \<noteq> 0"
    and time: "sint timeout > 0 \<longrightarrow> timeout < RT_TICK_MAX div 2"
  shows "\<exists>r got s'. rt_event_recv e bits opt timeout s = Some (r, got, s') \<and> kernel_wf s' \<and> event_ok s' e \<and>
    (if bits = 0 then r = Return (- RT_ERROR) \<and> s' = s
     else if satisfied (event_bits ev) bits opt
     then r = Return RT_EOK \<and> got = Some (event_bits ev AND bits) \<and>
       events s' e = Some \<lparr>event_bits = clear_for opt bits (event_bits ev)\<rparr> \<and> tlists s' = tlists s
     else if sint timeout = 0 then r = Return (- RT_ETIMEOUT) \<and> events s' = events s \<and> tlists s' = tlists s
     else r = Pending \<and> events s' = events s \<and> runs_highest s' \<and> waits_for s' t = (bits, opt) \<and>
       t \<in> set (tlists s' (SuspendQ (OEvent e))) \<and>
       (if sint timeout > 0 then ThreadTimer t \<in> set (rt_timer_list s') \<and> due_in s' (ThreadTimer t) = timeout
        else ThreadTimer t \<notin> set (rt_timer_list s')))"
proof -
  let ?h = "SuspendQ (OEvent e)"
  obtain y x where x: "objects s (OEvent e) = Some x"
    and ck: "check_type s (OEvent e) RT_Object_Class_Event = Some ()"
    and fl: "obj_flag x = RT_IPC_FLAG_FIFO \<or> obj_flag x = RT_IPC_FLAG_PRIO"
    using ok by (rule event_okE)
  have unsat: "\<forall>u \<in> set (tlists s ?h). \<not> satisfied (event_bits ev) (fst (waits_for s u)) (snd (waits_for s u))"
    using ok ev by (auto simp: event_ok_def)
  let ?e = "upd_thread t (\<lambda>th. th\<lparr>thread_error := RT_EOK\<rparr>) s"
  note e = upd_error_wf [OF wf cur(2), of RT_EOK]
  have ctx: "in_thread_context s = Some ()" using irq cur by (simp add: in_thread_context_def)
  note unf = rt_event_recv_unfold [OF ctx ck _ cur(1) ev opt, of bits timeout]
  consider (none) "bits = 0" | (now) "bits \<noteq> 0" "satisfied (event_bits ev) bits opt"
    | (fail) "bits \<noteq> 0" "\<not> satisfied (event_bits ev) bits opt" "sint timeout = 0"
    | (wait) "bits \<noteq> 0" "\<not> satisfied (event_bits ev) bits opt" "sint timeout \<noteq> 0" by blast
  then show ?thesis
  proof cases
    case none
    then have "rt_event_recv e bits opt timeout s = Some (Return (- RT_ERROR), None, s)"
      using ck irq cur by (simp add: rt_event_recv_def in_thread_context_def del: check_type_iff)
    then show ?thesis using none wf ok by simp
  next
    case now
    let ?c = "ev\<lparr>event_bits := clear_for opt bits (event_bits ev)\<rparr>"
    let ?s = "?e\<lparr>events := (events ?e)(e \<mapsto> ?c)\<rparr>"
    have ok': "event_ok ?s e"
      by (rule event_ok_keep [OF ok ev, of _ ?c])
         (use e(3,5) cur(2) in \<open>auto simp: clear_for_sub waits_for_def upd_thread_def\<close>)
    have st: "(if opt AND RT_EVENT_FLAG_CLEAR \<noteq> 0
        then ?e\<lparr>events := (events ?e)(e \<mapsto> ev\<lparr>event_bits := event_bits ev AND NOT bits\<rparr>)\<rparr> else ?e) = ?s"
      using ev by (simp add: clear_for_def upd_thread_def fun_upd_idem)
    have "rt_event_recv e bits opt timeout s = Some (Return RT_EOK, Some (event_bits ev AND bits), ?s)"
      using unf [OF now(1)] now(2) st by simp
    then show ?thesis using now e(1,3) ok' ev by (cases ev) simp
  next
    case fail
    let ?s = "upd_thread t (\<lambda>th. th\<lparr>thread_error := - RT_ETIMEOUT\<rparr>) ?e"
    have te: "threads ?e t = Some (th\<lparr>thread_error := RT_EOK\<rparr>)" using e(2) by simp
    note f = upd_error_wf [OF e(1) te, of "- RT_ETIMEOUT"]
    have es: "events ?s = events s" using ev by (simp add: upd_thread_def)
    have ok': "event_ok ?s e"
      by (rule event_ok_keep [OF ok ev, of _ ev])
         (use f(3,5) e(3,5) es ev cur(2) in \<open>auto simp: waits_for_def upd_thread_def\<close>)
    have "rt_event_recv e bits opt timeout s = Some (Return (- RT_ETIMEOUT), None, ?s)"
      using unf [OF fail(1)] fail(2,3) by simp
    then show ?thesis using fail f(1,3) e(3) es ok' by simp
  next
    case wait
    let ?g = "th\<lparr>thread_error := RT_EOK, event_set := bits, event_info := opt\<rparr>"
    let ?b = "upd_thread t (\<lambda>th. th\<lparr>event_set := bits, event_info := opt\<rparr>) ?e"
    have b: "threads ?b = (threads s)(t \<mapsto> ?g)" "tlists ?b = tlists s" "objects ?b = objects s" "same_rest s ?b"
      using cur(2) by (simp_all add: upd_thread_def same_rest_def)
    have hq: "is_waitq ?h" and g: "sched_view ?g = sched_view th"
      "rt_scheduler_stack_check ?g = rt_scheduler_stack_check th"
      by (simp_all add: sched_view_def rt_scheduler_stack_check_def)
    have bw: "kernel_wf ?b" by (rule kernel_wf_upd_thread [OF e(1)]) (simp add: sched_view_def)
    obtain s' where s': "wait_on ?h t (obj_flag x) timeout ?b = Some s'" "kernel_wf s'" "same_rest s s'"
      "threads s' = (threads s)(t \<mapsto> set_stat RT_THREAD_SUSPEND ?g)"
      "tlists s' ?h = queue_in (obj_flag x) s t (tlists s ?h)"
      "\<forall>h'. is_waitq h' \<longrightarrow> h' \<noteq> ?h \<longrightarrow> tlists s' h' = tlists s h'"
      "if sint timeout > 0 then ThreadTimer t \<in> set (rt_timer_list s') \<and> due_in s' (ThreadTimer t) = timeout
       else ThreadTimer t \<notin> set (rt_timer_list s')"
      "rt_scheduler_lock_nest s = 0 \<longrightarrow> runs_highest s'"
      "\<forall>ob. (\<forall>tm. ob \<noteq> OTimer tm) \<longrightarrow> objects s' ob = objects s ob"
      using block_current [OF wf cur(2,3) run hq fl time b(1,2) bw b(4,3) g] .
    have q: "set (tlists s' ?h) = insert t (set (tlists s ?h))" using s'(5) set_queue_in [OF fl] by simp
    have wt: "waits_for s' u = (if u = t then (bits, opt) else waits_for s u)" for u
      using s'(4) by (simp add: waits_for_def)
    have es: "events s' = events s" using same_restD(3) [OF s'(3)] by simp
    have ok': "event_ok s' e"
      by (rule event_ok_keep [OF ok ev, of _ ev]) (use es ev s'(9) wait q wt in auto)
    have "rt_event_recv e bits opt timeout s = Some (Pending, None, s')"
      using unf [OF wait(1)] wait(2,3) x b(3) s'(1) by simp
    then show ?thesis using wait s'(2,7,8) es ok' wt q irq by simp
  qed
qed

text \<open>Thread 2 waits for flags 1 and 2, to be cleared.\<close>

definition demo_event :: kernel where
  "demo_event = demo_on (SuspendQ (OEvent 0)) (\<lambda>th. th\<lparr>event_set := 3, event_info := 5\<rparr>)"

lemma demo_event_wf: "kernel_wf demo_event" "runnable demo_event" "event_ok demo_event 0"
proof -
  let ?f = "\<lambda>th :: rt_thread. th\<lparr>event_set := 3, event_info := 5\<rparr>"
  have "sched_view (?f (demo_thread 5 2)) = sched_view (demo_thread 5 2)"
    "rt_scheduler_stack_check (?f (demo_thread 5 2)) = Some ()"
    by (simp_all add: sched_view_def rt_scheduler_stack_check_def demo_thread_def stat_of_def)
  then show "kernel_wf demo_event" "runnable demo_event"
    unfolding demo_event_def by (simp_all add: demo_on_wf)
  show "event_ok demo_event 0" by (simp add: event_ok_def demo_event_def waits_for_def satisfied_def)
qed

theorem event_send_delivers_witness:
  "\<exists>s'. rt_event_send 0 7 demo_event = Some (RT_EOK, s') \<and> events s' 0 = Some \<lparr>event_bits = 4\<rparr> \<and>
     tlists s' (SuspendQ (OEvent 0)) = [] \<and> map_option stat_of (threads s' 2) = Some RT_THREAD_READY"
proof -
  have "deliver (waits_for demo_event) (event_bits \<lparr>event_bits = 0\<rparr> OR 7) (tlists demo_event (SuspendQ (OEvent 0))) =
      (4, [2 \<mapsto> 3], [])"
    by (simp add: demo_event_def waits_for_def satisfied_def received_def clear_for_def)
  from event_send_delivers [OF demo_event_wf(1,3) _ demo_event_wf(2) _ this] show ?thesis
    by (auto simp: demo_event_def served_def)
qed

theorem event_recv_branches_witness:
  "\<exists>got s'. rt_event_recv 0 6 2 7 demo = Some (Pending, got, s') \<and> waits_for s' 1 = (6, 2) \<and>
     due_in s' (ThreadTimer 1) = 7"
proof -
  have "event_ok demo 0" by (simp add: event_ok_def)
  from event_recv_branches [OF demo_wf this, of "\<lparr>event_bits = 0\<rparr>" 1 "demo_thread 10 1" 2 7 6] demo_runnable(2)
  show ?thesis by (auto simp: satisfied_def)
qed

end
