(* ===== verification/Mailbox.thy ===== *)
theory Mailbox
  imports Event Fifo
begin

text \<open>
  Mailboxes (\<^verbatim>\<open>rt_mb_*\<close> of \<^verbatim>\<open>src/ipc.c\<close>): a ring of 32-bit mails,
  threads waiting to receive on \<open>SuspendQ\<close>, threads waiting to send on \<open>SenderQ\<close>.
  A sender or receiver that waits keeps the locals \<^verbatim>\<open>timeout\<close> and
  \<^verbatim>\<open>tick_delta\<close>; \<open>mb_send_loop\<close> and \<open>mb_recv_loop\<close> are the code from the
  \<^verbatim>\<open>while\<close> on, up to the next wait.
\<close>

section \<open>The code\<close>

datatype 'a blocking = Done 'a | Waiting (wait_timeout: u32) (wait_tick: u32)

definition rt_mb_init :: "nat \<Rightarrow> cbuf \<Rightarrow> u32 list \<Rightarrow> u32 \<Rightarrow> u8 \<Rightarrow> kernel \<Rightarrow> (rt_err \<times> kernel) option" where
  "rt_mb_init mb name msgpool sz flag s =
     do { s \<leftarrow> rt_object_init (OMailBox mb) RT_Object_Class_MailBox name s;
          let s = set_ipc_flag (OMailBox mb) flag s;
          let s = rt_ipc_object_init (OMailBox mb) s;
          let s = s\<lparr>mailboxes := (mailboxes s)(mb \<mapsto>
             \<lparr>mb_pool = msgpool, mb_size = ucast sz, mb_entry = 0, in_offset = 0, out_offset = 0\<rparr>)\<rparr>;
          Some (RT_EOK, s\<lparr>tlists := (tlists s)(SenderQ mb := [])\<rparr>) }"

definition rt_mb_detach :: "nat \<Rightarrow> kernel \<Rightarrow> (rt_err \<times> kernel) option" where
  "rt_mb_detach mb s =
     do { check_type s (OMailBox mb) RT_Object_Class_MailBox;
          sys \<leftarrow> rt_object_is_systemobject s (OMailBox mb);
          rt_assert sys;
          (_, s) \<leftarrow> rt_ipc_list_resume_all (SuspendQ (OMailBox mb)) s;
          (_, s) \<leftarrow> rt_ipc_list_resume_all (SenderQ mb) s;
          s \<leftarrow> rt_object_detach (OMailBox mb) s;
          Some (RT_EOK, s) }"

text \<open>\<open>pool\<close> is what \<^verbatim>\<open>RT_KERNEL_MALLOC\<close> gives for the ring, \<open>None\<close> when the heap is exhausted.\<close>

definition rt_mb_create ::
    "cbuf \<Rightarrow> u32 \<Rightarrow> u8 \<Rightarrow> nat option \<Rightarrow> u32 list option \<Rightarrow> kernel \<Rightarrow> (nat option \<times> kernel) option" where
  "rt_mb_create name sz flag mem pool s =
     do { not_in_interrupt s;
          (r, s) \<leftarrow> rt_object_allocate RT_Object_Class_MailBox name (map_option OMailBox mem) s;
          case (r, mem) of
            (Some _, Some mb) \<Rightarrow>
              do { let s = set_ipc_flag (OMailBox mb) flag s;
                   let s = rt_ipc_object_init (OMailBox mb) s;
                   case pool of
                     None \<Rightarrow> do { s \<leftarrow> rt_object_delete (OMailBox mb) s; Some (None, s) }
                   | Some msgpool \<Rightarrow>
                       do { let s = s\<lparr>mailboxes := (mailboxes s)(mb \<mapsto>
                              \<lparr>mb_pool = msgpool, mb_size = ucast sz, mb_entry = 0, in_offset = 0, out_offset = 0\<rparr>)\<rparr>;
                            Some (Some mb, s\<lparr>tlists := (tlists s)(SenderQ mb := [])\<rparr>) } }
          | _ \<Rightarrow> Some (None, s) }"

definition rt_mb_delete :: "nat \<Rightarrow> kernel \<Rightarrow> (rt_err \<times> kernel) option" where
  "rt_mb_delete mb s =
     do { not_in_interrupt s;
          check_type s (OMailBox mb) RT_Object_Class_MailBox;
          sys \<leftarrow> rt_object_is_systemobject s (OMailBox mb);
          rt_assert (\<not> sys);
          (_, s) \<leftarrow> rt_ipc_list_resume_all (SuspendQ (OMailBox mb)) s;
          (_, s) \<leftarrow> rt_ipc_list_resume_all (SenderQ mb) s;
          s \<leftarrow> rt_object_delete (OMailBox mb) s;
          Some (RT_EOK, s\<lparr>mailboxes := (mailboxes s)(mb := None)\<rparr>) }"

text \<open>Writing a mail into the ring and reading one from it.\<close>

definition mb_put :: "u32 \<Rightarrow> rt_mailbox \<Rightarrow> rt_mailbox option" where
  "mb_put value m =
     do { rt_assert (unat (in_offset m) < length (mb_pool m));
          let m = m\<lparr>mb_pool := (mb_pool m)[unat (in_offset m) := value]\<rparr>;
          let m = m\<lparr>in_offset := in_offset m + 1\<rparr>;
          let m = (if in_offset m \<ge> mb_size m then m\<lparr>in_offset := 0\<rparr> else m);
          Some (m\<lparr>mb_entry := mb_entry m + 1\<rparr>) }"

definition mb_get :: "rt_mailbox \<Rightarrow> (u32 \<times> rt_mailbox) option" where
  "mb_get m =
     do { rt_assert (unat (out_offset m) < length (mb_pool m));
          let value = mb_pool m ! unat (out_offset m);
          let m = m\<lparr>out_offset := out_offset m + 1\<rparr>;
          let m = (if out_offset m \<ge> mb_size m then m\<lparr>out_offset := 0\<rparr> else m);
          Some (value, m\<lparr>mb_entry := mb_entry m - 1\<rparr>) }"

text \<open>
  \<^verbatim>\<open>timeout\<close> after a wait: the ticks that passed are taken off, down to zero. A
  \<^verbatim>\<open>timeout\<close> that is not positive is left alone.
\<close>

definition wait_left :: "u32 \<Rightarrow> u32 \<Rightarrow> kernel \<Rightarrow> u32" where
  "wait_left timeout tick_delta s =
     (if sint timeout > 0
      then let left = timeout - (rt_tick s - tick_delta) in if sint left < 0 then 0 else left
      else timeout)"

definition wake_first :: "thead \<Rightarrow> kernel \<Rightarrow> kernel option" where
  "wake_first list s =
     (if tlists s list \<noteq> []
      then do { (_, s) \<leftarrow> rt_ipc_list_resume list s;
                rt_schedule s }
      else Some s)"

definition mb_send_loop :: "nat \<Rightarrow> u32 \<Rightarrow> u32 \<Rightarrow> u32 \<Rightarrow> tid option \<Rightarrow> kernel \<Rightarrow> (rt_err blocking \<times> kernel) option" where
  "mb_send_loop mb value timeout tick_delta thread s =
     do { m \<leftarrow> mailboxes s mb;
          if mb_entry m = mb_size m
          then do { t \<leftarrow> thread;
                    let s = upd_thread t (\<lambda>th. th\<lparr>thread_error := RT_EOK\<rparr>) s;
                    if sint timeout = 0 then Some (Done (- RT_EFULL), s)
                    else do { in_thread_context s;
                              x \<leftarrow> objects s (OMailBox mb);
                              let tick = (if sint timeout > 0 then rt_tick s else tick_delta);
                              s \<leftarrow> wait_on (SenderQ mb) t (obj_flag x) timeout s;
                              Some (Waiting timeout tick, s) } }
          else do { m \<leftarrow> mb_put value m;
                    let s = s\<lparr>mailboxes := (mailboxes s)(mb \<mapsto> m)\<rparr>;
                    s \<leftarrow> wake_first (SuspendQ (OMailBox mb)) s;
                    Some (Done RT_EOK, s) } }"

definition rt_mb_send_wait :: "nat \<Rightarrow> u32 \<Rightarrow> u32 \<Rightarrow> kernel \<Rightarrow> (rt_err blocking \<times> kernel) option" where
  "rt_mb_send_wait mb value timeout s =
     do { check_type s (OMailBox mb) RT_Object_Class_MailBox;
          m \<leftarrow> mailboxes s mb;
          if mb_entry m = mb_size m \<and> sint timeout = 0 then Some (Done (- RT_EFULL), s)
          else mb_send_loop mb value timeout 0 (rt_thread_self s) s }"

definition rt_mb_send_wait_resumed ::
    "nat \<Rightarrow> u32 \<Rightarrow> u32 \<Rightarrow> u32 \<Rightarrow> tid \<Rightarrow> kernel \<Rightarrow> (rt_err blocking \<times> kernel) option" where
  "rt_mb_send_wait_resumed mb value timeout tick_delta t s =
     do { th \<leftarrow> threads s t;
          if thread_error th \<noteq> RT_EOK then Some (Done (thread_error th), s)
          else mb_send_loop mb value (wait_left timeout tick_delta s)
                 (if sint timeout > 0 then rt_tick s - tick_delta else tick_delta) (Some t) s }"

definition rt_mb_send :: "nat \<Rightarrow> u32 \<Rightarrow> kernel \<Rightarrow> (rt_err blocking \<times> kernel) option" where
  "rt_mb_send mb value = rt_mb_send_wait mb value 0"

definition mb_recv_loop :: "nat \<Rightarrow> u32 \<Rightarrow> u32 \<Rightarrow> tid option \<Rightarrow> kernel \<Rightarrow> ((rt_err \<times> u32 option) blocking \<times> kernel) option" where
  "mb_recv_loop mb timeout tick_delta thread s =
     do { m \<leftarrow> mailboxes s mb;
          if mb_entry m = 0
          then do { t \<leftarrow> thread;
                    let s = upd_thread t (\<lambda>th. th\<lparr>thread_error := RT_EOK\<rparr>) s;
                    if sint timeout = 0
                    then Some (Done (- RT_ETIMEOUT, None), upd_thread t (\<lambda>th. th\<lparr>thread_error := - RT_ETIMEOUT\<rparr>) s)
                    else do { in_thread_context s;
                              x \<leftarrow> objects s (OMailBox mb);
                              let tick = (if sint timeout > 0 then rt_tick s else tick_delta);
                              s \<leftarrow> wait_on (SuspendQ (OMailBox mb)) t (obj_flag x) timeout s;
                              Some (Waiting timeout tick, s) } }
          else do { (value, m) \<leftarrow> mb_get m;
                    let s = s\<lparr>mailboxes := (mailboxes s)(mb \<mapsto> m)\<rparr>;
                    s \<leftarrow> wake_first (SenderQ mb) s;
                    Some (Done (RT_EOK, Some value), s) } }"

definition rt_mb_recv :: "nat \<Rightarrow> u32 \<Rightarrow> kernel \<Rightarrow> ((rt_err \<times> u32 option) blocking \<times> kernel) option" where
  "rt_mb_recv mb timeout s =
     do { check_type s (OMailBox mb) RT_Object_Class_MailBox;
          m \<leftarrow> mailboxes s mb;
          if mb_entry m = 0 \<and> sint timeout = 0 then Some (Done (- RT_ETIMEOUT, None), s)
          else mb_recv_loop mb timeout 0 (rt_thread_self s) s }"

definition rt_mb_recv_resumed ::
    "nat \<Rightarrow> u32 \<Rightarrow> u32 \<Rightarrow> tid \<Rightarrow> kernel \<Rightarrow> ((rt_err \<times> u32 option) blocking \<times> kernel) option" where
  "rt_mb_recv_resumed mb timeout tick_delta t s =
     do { th \<leftarrow> threads s t;
          if thread_error th \<noteq> RT_EOK then Some (Done (thread_error th, None), s)
          else mb_recv_loop mb (wait_left timeout tick_delta s)
                 (if sint timeout > 0 then rt_tick s - tick_delta else tick_delta) (Some t) s }"

definition rt_mb_control :: "nat \<Rightarrow> int \<Rightarrow> kernel \<Rightarrow> (rt_err \<times> kernel) option" where
  "rt_mb_control mb cmd s =
     do { check_type s (OMailBox mb) RT_Object_Class_MailBox;
          if cmd = RT_IPC_CMD_RESET
          then do { (_, s) \<leftarrow> rt_ipc_list_resume_all (SuspendQ (OMailBox mb)) s;
                    (_, s) \<leftarrow> rt_ipc_list_resume_all (SenderQ mb) s;
                    m \<leftarrow> mailboxes s mb;
                    let s = s\<lparr>mailboxes := (mailboxes s)(mb \<mapsto> m\<lparr>mb_entry := 0, in_offset := 0, out_offset := 0\<rparr>)\<rparr>;
                    s \<leftarrow> rt_schedule s;
                    Some (RT_EOK, s) }
          else Some (- RT_ERROR, s) }"

section \<open>The ring\<close>

text \<open>A ring in order, and the mails in it, oldest first.\<close>

definition ring_ok :: "rt_mailbox \<Rightarrow> bool" where
  "ring_ok m \<longleftrightarrow> mb_size m > 0 \<and> length (mb_pool m) = unat (mb_size m) \<and> mb_entry m \<le> mb_size m \<and>
     out_offset m < mb_size m \<and>
     unat (in_offset m) = (unat (out_offset m) + unat (mb_entry m)) mod unat (mb_size m)"

definition mails :: "rt_mailbox \<Rightarrow> u32 list" where
  "mails m = map (\<lambda>i. mb_pool m ! ((unat (out_offset m) + i) mod unat (mb_size m))) [0..<unat (mb_entry m)]"

lemma length_mails [simp]: "length (mails m) = unat (mb_entry m)"
  by (simp add: mails_def)

text \<open>An offset one further, which restarts at the size, is the sum modulo the size.\<close>

lemma advance:
  fixes off sz :: u16
  assumes "off < sz"
  shows "unat (if off + 1 \<ge> sz then 0 else off + 1) = (unat off + 1) mod unat sz"
proof -
  have lt: "unat off < unat sz" using assms by (simp add: word_less_nat_alt)
  then have o: "unat (off + 1) = unat off + 1"
    using unsigned_less [of sz, where 'a = nat] by (simp add: unat_word_ariths)
  show ?thesis using lt by (simp add: word_le_nat_alt o mod_if)
qed

lemma mb_put_ok:
  assumes ok: "ring_ok m" and room: "mb_entry m < mb_size m"
  shows "\<exists>m'. mb_put v m = Some m' \<and> ring_ok m' \<and> mails m' = mails m @ [v] \<and> mb_size m' = mb_size m"
proof -
  let ?n = "unat (mb_size m)" and ?o = "unat (out_offset m)" and ?e = "unat (mb_entry m)"
  have n: "?n > 0" "length (mb_pool m) = ?n" "?o < ?n" "?e < ?n" "unat (in_offset m) = (?o + ?e) mod ?n"
    using ok room by (simp_all add: ring_ok_def word_less_nat_alt)
  then have i: "in_offset m < mb_size m" by (simp add: word_less_nat_alt)
  have e: "unat (mb_entry m + 1) = ?e + 1"
    using n(4) unsigned_less [of "mb_size m", where 'a = nat] by (simp add: unat_word_ariths)
  define i' where "i' = (if in_offset m + 1 \<ge> mb_size m then 0 else in_offset m + 1)"
  let ?m = "m\<lparr>mb_pool := (mb_pool m)[unat (in_offset m) := v], in_offset := i', mb_entry := mb_entry m + 1\<rparr>"
  have p: "mb_put v m = Some ?m"
    using n(1,2,5) by (simp add: mb_put_def i'_def Let_def)
  have "unat i' = (?o + ?e + 1) mod ?n"
    using advance [OF i] n(5) by (simp add: i'_def mod_simps)
  then have ok': "ring_ok ?m"
    using ok e n(4) by (simp add: ring_ok_def word_le_nat_alt ac_simps)
  have d: "(?o + ?e) mod ?n \<noteq> (?o + j) mod ?n" if "j < ?e" for j
  proof
    assume "(?o + ?e) mod ?n = (?o + j) mod ?n"
    then have "?n dvd (?o + ?e) - (?o + j)" using that by (subst (asm) mod_eq_dvd_iff_nat) simp_all
    moreover have "(?o + ?e) - (?o + j) = ?e - j" by simp
    ultimately have "?n dvd ?e - j" by simp
    then show False using that n(4) by (auto dest: dvd_imp_le)
  qed
  have "mails ?m = mails m @ [v]"
    using d n by (auto simp: mails_def e)
  with p ok' show ?thesis by simp
qed

lemma mb_get_ok:
  assumes ok: "ring_ok m" and some: "mails m = v # vs"
  shows "\<exists>m'. mb_get m = Some (v, m') \<and> ring_ok m' \<and> mails m' = vs \<and> mb_size m' = mb_size m"
proof -
  let ?n = "unat (mb_size m)" and ?o = "unat (out_offset m)" and ?e = "unat (mb_entry m)"
  have n: "?n > 0" "length (mb_pool m) = ?n" "?o < ?n" "?e \<le> ?n" "unat (in_offset m) = (?o + ?e) mod ?n"
    using ok by (simp_all add: ring_ok_def word_less_nat_alt word_le_nat_alt)
  have e: "?e > 0" using some length_mails [of m] by (cases ?e) simp_all
  then have e1: "unat (mb_entry m - 1) = ?e - 1" by (simp add: unat_minus_one unat_gt_0)
  have o: "out_offset m < mb_size m" using n(3) by (simp add: word_less_nat_alt)
  define o' where "o' = (if out_offset m + 1 \<ge> mb_size m then 0 else out_offset m + 1)"
  have o': "unat o' = (?o + 1) mod ?n" using advance [OF o] by (simp add: o'_def)
  let ?m = "m\<lparr>out_offset := o', mb_entry := mb_entry m - 1\<rparr>"
  have p: "mb_get m = Some (mb_pool m ! ?o, ?m)"
    using n(2,3) by (simp add: mb_get_def o'_def Let_def)
  have step: "(unat o' + i) mod ?n = (?o + Suc i) mod ?n" for i
    by (simp add: o' mod_simps)
  have up: "[0..<?e] = 0 # map Suc [0..<?e - 1]" using e by (simp add: upt_conv_Cons map_Suc_upt)
  have "mails m = mb_pool m ! ?o # mails ?m"
    using n(3) by (simp add: mails_def up e1 step o_def)
  moreover have "ring_ok ?m"
    using ok e1 e n o' step [of "?e - 1"] by (simp add: ring_ok_def word_le_nat_alt word_less_nat_alt)
  ultimately show ?thesis using p some by simp
qed

interpretation mb: bounded_fifo ring_ok mails "\<lambda>m. unat (mb_size m)" "\<lambda>_ _. True" mb_put mb_get
proof
  show "length (mails q) \<le> unat (mb_size q)" if "ring_ok q" for q
    using that by (simp add: ring_ok_def word_le_nat_alt)
qed (use mb_put_ok mb_get_ok in \<open>fastforce simp: word_less_nat_alt\<close>)+

section \<open>The contract in the kernel\<close>

definition mb_ok :: "kernel \<Rightarrow> nat \<Rightarrow> bool" where
  "mb_ok s mb \<longleftrightarrow>
     (\<exists>m x. mailboxes s mb = Some m \<and> ring_ok m \<and> objects s (OMailBox mb) = Some x \<and>
        obj_type x AND NOT RT_Object_Class_Static = RT_Object_Class_MailBox \<and>
        (obj_flag x = RT_IPC_FLAG_FIFO \<or> obj_flag x = RT_IPC_FLAG_PRIO))"

lemma mb_okE:
  assumes "mb_ok s mb"
  obtains m x where "mailboxes s mb = Some m" "ring_ok m" "objects s (OMailBox mb) = Some x"
    "check_type s (OMailBox mb) RT_Object_Class_MailBox = Some ()"
    "obj_flag x = RT_IPC_FLAG_FIFO \<or> obj_flag x = RT_IPC_FLAG_PRIO"
  using assms unfolding mb_ok_def by (auto simp: check_type_known)

lemma mb_ok_upd:
  assumes "mb_ok s mb" "mailboxes s' mb = Some m" "ring_ok m" "objects s' (OMailBox mb) = objects s (OMailBox mb)"
  shows "mb_ok s' mb"
  using assms unfolding mb_ok_def by auto

text \<open>The first thread of a list is made ready, if there is one.\<close>

definition first_ready :: "tid list \<Rightarrow> (tid \<Rightarrow> rt_thread option) \<Rightarrow> tid \<Rightarrow> rt_thread option" where
  "first_ready q ths = (case q of [] \<Rightarrow> ths | t # _ \<Rightarrow> ths(t := map_option (set_stat RT_THREAD_READY) (ths t)))"

lemma wake_first_ends:
  assumes wf: "kernel_wf s" and run: "runnable s" and h: "is_waitq h"
  obtains s' where "wake_first h s = Some s'" "kernel_wf s'" "runnable s'" "same_rest s s'"
    "tlists s' h = tl (tlists s h)" "\<forall>h'. is_waitq h' \<longrightarrow> h' \<noteq> h \<longrightarrow> tlists s' h' = tlists s h'"
    "threads s' = first_ready (tlists s h) (threads s)"
    "\<forall>ob. (\<forall>tm. ob \<noteq> OTimer tm) \<longrightarrow> objects s' ob = objects s ob"
    "tlists s h \<noteq> [] \<longrightarrow> rt_scheduler_lock_nest s = 0 \<longrightarrow> runs_highest s'"
proof (cases "tlists s h")
  case Nil
  show thesis
    by (rule that [of s]) (use wf run Nil in \<open>simp_all add: wake_first_def first_ready_def same_rest_def\<close>)
next
  case (Cons t q)
  obtain th where th: "threads s t = Some th" "stat_of th = RT_THREAD_SUSPEND"
    "rt_ipc_list_resume h s = Some (RT_EOK, woken t th s)" "kernel_wf (woken t th s)"
    "tlists (woken t th s) h = q"
    by (rule rt_ipc_list_resume_eq [OF wf h Cons])
  have rw: "runnable (woken t th s)" using runnable_woken [OF th(1,2)] run by (simp add: runnable_def)
  obtain s' where s': "rt_schedule (woken t th s) = Some s'" "kernel_wf s'" "same_rest (woken t th s) s'"
    "threads s' = threads (woken t th s)" "tlists s' = tlists (woken t th s)"
    "rt_timer_list s' = rt_timer_list (woken t th s)" "timers s' = timers (woken t th s)" "runnable s'"
    "rt_scheduler_lock_nest (woken t th s) = 0 \<longrightarrow> runs_highest s'"
    using schedule_ends [OF th(4) rw] .
  have lw: "lists_wf (tlists s)" using sched_wf_lists [OF kernel_wfD(1) [OF wf]] .
  have off: "tlists (woken t th s) h' = tlists s h'" if "is_waitq h'" "h' \<noteq> h" for h'
  proof -
    have "t \<notin> set (tlists s h')" using lists_wf_same [OF lw, of t h h'] Cons that(2) by auto
    then show ?thesis using woken_queue [OF lw that(1), of t th] by simp
  qed
  show thesis
  proof (rule that)
    show "wake_first h s = Some s'" using Cons th(3) s'(1) by (simp add: wake_first_def)
    show "same_rest s s'" by (rule same_rest_trans [OF same_rest_woken s'(3)])
    show "threads s' = first_ready (tlists s h) (threads s)" using s'(4) th(1) Cons by (simp add: first_ready_def)
    show "\<forall>ob. (\<forall>tm. ob \<noteq> OTimer tm) \<longrightarrow> objects s' ob = objects s ob"
      using rt_schedule_core(5) [OF s'(1)] by (simp add: woken_def)
    show "tlists s h \<noteq> [] \<longrightarrow> rt_scheduler_lock_nest s = 0 \<longrightarrow> runs_highest s'"
      using s'(9) same_restD(9) [OF same_rest_woken] by simp
  qed (use s' th(5) Cons off in simp_all)
qed

text \<open>Blocking with the error reset, as the loops do.\<close>

lemma wait_reset:
  assumes wf: "kernel_wf s" and t: "threads s t = Some th" "stat_of th = RT_THREAD_READY"
    and run: "runnable_without t s" and h: "is_waitq h"
    and flag: "flag = RT_IPC_FLAG_FIFO \<or> flag = RT_IPC_FLAG_PRIO"
    and time: "sint time > 0 \<longrightarrow> time < RT_TICK_MAX div 2"
  obtains s' where "wait_on h t flag time (upd_thread t (\<lambda>th. th\<lparr>thread_error := RT_EOK\<rparr>) s) = Some s'"
    "kernel_wf s'" "same_rest s s'"
    "threads s' = (threads s)(t \<mapsto> set_stat RT_THREAD_SUSPEND (th\<lparr>thread_error := RT_EOK\<rparr>))"
    "tlists s' h = queue_in flag s t (tlists s h)"
    "\<forall>h'. is_waitq h' \<longrightarrow> h' \<noteq> h \<longrightarrow> tlists s' h' = tlists s h'"
    "if sint time > 0 then ThreadTimer t \<in> set (rt_timer_list s') \<and> due_in s' (ThreadTimer t) = time
     else ThreadTimer t \<notin> set (rt_timer_list s')"
    "rt_scheduler_lock_nest s = 0 \<longrightarrow> runs_highest s'"
    "\<forall>ob. (\<forall>tm. ob \<noteq> OTimer tm) \<longrightarrow> objects s' ob = objects s ob"
proof -
  note e = upd_error_wf [OF wf t(1), of RT_EOK]
  have g: "sched_view (th\<lparr>thread_error := RT_EOK\<rparr>) = sched_view th"
    "rt_scheduler_stack_check (th\<lparr>thread_error := RT_EOK\<rparr>) = rt_scheduler_stack_check th"
    by (simp_all add: sched_view_def rt_scheduler_stack_check_def)
  show thesis using block_current [OF wf t run h flag time e(2,3,1,6,5) g] that .
qed

lemma runnable_with: "runnable_without t s \<Longrightarrow> runnable s"
  by (auto simp: runnable_def runnable_without_def)

text \<open>The send loop on every branch.\<close>

lemma mb_send_loop_cases:
  assumes wf: "kernel_wf s" and ok: "mb_ok s mb" and m: "mailboxes s mb = Some m"
    and cur: "rt_current_thread s \<noteq> None" "threads s t = Some th" "stat_of th = RT_THREAD_READY"
    and irq: "rt_interrupt_nest s = 0" "rt_scheduler_lock_nest s = 0" and run: "runnable_without t s"
    and time: "sint timeout > 0 \<longrightarrow> timeout < RT_TICK_MAX div 2"
  shows "\<exists>r s' m'. mb_send_loop mb v timeout d (Some t) s = Some (r, s') \<and> kernel_wf s' \<and> mb_ok s' mb \<and>
    mailboxes s' mb = Some m' \<and> rt_tick s' = rt_tick s \<and>
    (if mb_entry m < mb_size m
     then r = Done RT_EOK \<and> mails m' = mails m @ [v] \<and>
       tlists s' (SuspendQ (OMailBox mb)) = tl (tlists s (SuspendQ (OMailBox mb))) \<and>
       tlists s' (SenderQ mb) = tlists s (SenderQ mb) \<and>
       threads s' = first_ready (tlists s (SuspendQ (OMailBox mb))) (threads s)
     else if sint timeout = 0 then r = Done (- RT_EFULL) \<and> m' = m \<and> tlists s' = tlists s
     else r = Waiting timeout (if sint timeout > 0 then rt_tick s else d) \<and> m' = m \<and> runs_highest s' \<and>
       threads s' = (threads s)(t \<mapsto> set_stat RT_THREAD_SUSPEND (th\<lparr>thread_error := RT_EOK\<rparr>)) \<and>
       (\<exists>x. objects s (OMailBox mb) = Some x \<and>
          tlists s' (SenderQ mb) = queue_in (obj_flag x) s t (tlists s (SenderQ mb))) \<and>
       (if sint timeout > 0 then ThreadTimer t \<in> set (rt_timer_list s') \<and> due_in s' (ThreadTimer t) = timeout
        else ThreadTimer t \<notin> set (rt_timer_list s')))"
proof -
  obtain x where rg: "ring_ok m" and x: "objects s (OMailBox mb) = Some x"
    and fl: "obj_flag x = RT_IPC_FLAG_FIFO \<or> obj_flag x = RT_IPC_FLAG_PRIO"
    using ok m by (auto elim!: mb_okE)
  have full: "mb_entry m = mb_size m \<longleftrightarrow> \<not> mb_entry m < mb_size m"
    using rg by (auto simp: ring_ok_def)
  have hq: "is_waitq (SuspendQ (OMailBox mb))" "is_waitq (SenderQ mb)" by simp_all
  show ?thesis
  proof (cases "mb_entry m < mb_size m")
    case True
    obtain m' where m': "mb_put v m = Some m'" "ring_ok m'" "mails m' = mails m @ [v]"
      using mb_put_ok [OF rg True] by blast
    let ?a = "s\<lparr>mailboxes := (mailboxes s)(mb \<mapsto> m')\<rparr>"
    have aw: "kernel_wf ?a" "runnable ?a" using wf runnable_with [OF run] runnable_cong [of ?a s] by simp_all
    obtain s' where s': "wake_first (SuspendQ (OMailBox mb)) ?a = Some s'" "kernel_wf s'" "runnable s'" "same_rest ?a s'"
      "tlists s' (SuspendQ (OMailBox mb)) = tl (tlists ?a (SuspendQ (OMailBox mb)))"
      "\<forall>h'. is_waitq h' \<longrightarrow> h' \<noteq> SuspendQ (OMailBox mb) \<longrightarrow> tlists s' h' = tlists ?a h'"
      "threads s' = first_ready (tlists ?a (SuspendQ (OMailBox mb))) (threads ?a)"
      "\<forall>ob. (\<forall>tm. ob \<noteq> OTimer tm) \<longrightarrow> objects s' ob = objects ?a ob"
      using wake_first_ends [OF aw hq(1)] .
    have "mb_send_loop mb v timeout d (Some t) s = Some (Done RT_EOK, s')"
      using m m'(1) s'(1) full True by (simp add: mb_send_loop_def)
    moreover have ms: "mailboxes s' mb = Some m'" using same_restD(4) [OF s'(4)] by simp
    moreover have "mb_ok s' mb" by (rule mb_ok_upd [OF ok ms m'(2)]) (use s'(8) in simp)
    moreover have "rt_tick s' = rt_tick s" using same_restD(7) [OF s'(4)] by simp
    ultimately show ?thesis using True m'(3) s'(2,5,6,7) by simp
  next
    case False
    let ?e = "upd_thread t (\<lambda>th. th\<lparr>thread_error := RT_EOK\<rparr>) s"
    note e = upd_error_wf [OF wf cur(2), of RT_EOK]
    show ?thesis
    proof (cases "sint timeout = 0")
      case True
      have "mb_send_loop mb v timeout d (Some t) s = Some (Done (- RT_EFULL), ?e)"
        using m full False True by (simp add: mb_send_loop_def)
      moreover have ms: "mailboxes ?e mb = Some m" using m same_restD(4) [OF e(6)] by simp
      moreover have "mb_ok ?e mb" by (rule mb_ok_upd [OF ok ms rg]) (use e(5) in simp)
      moreover have "rt_tick ?e = rt_tick s" using same_restD(7) [OF e(6)] by simp
      ultimately show ?thesis using True False e(1,3) by simp
    next
      case nz: False
      obtain s' where s': "wait_on (SenderQ mb) t (obj_flag x) timeout ?e = Some s'" "kernel_wf s'" "same_rest s s'"
        "threads s' = (threads s)(t \<mapsto> set_stat RT_THREAD_SUSPEND (th\<lparr>thread_error := RT_EOK\<rparr>))"
        "tlists s' (SenderQ mb) = queue_in (obj_flag x) s t (tlists s (SenderQ mb))"
        "\<forall>h'. is_waitq h' \<longrightarrow> h' \<noteq> SenderQ mb \<longrightarrow> tlists s' h' = tlists s h'"
        "if sint timeout > 0 then ThreadTimer t \<in> set (rt_timer_list s') \<and> due_in s' (ThreadTimer t) = timeout
         else ThreadTimer t \<notin> set (rt_timer_list s')"
        "rt_scheduler_lock_nest s = 0 \<longrightarrow> runs_highest s'"
        "\<forall>ob. (\<forall>tm. ob \<noteq> OTimer tm) \<longrightarrow> objects s' ob = objects s ob"
        using wait_reset [OF wf cur(2,3) run hq(2) fl time] .
      have ctx: "in_thread_context ?e = Some ()" and tk: "rt_tick ?e = rt_tick s"
        using cur(1) irq(1) same_restD(7,8) [OF e(6)] e(7) by (simp_all add: in_thread_context_def)
      have "mb_send_loop mb v timeout d (Some t) s = Some (Waiting timeout (if sint timeout > 0 then rt_tick s else d), s')"
        using m full False nz ctx x e(5) s'(1) tk by (simp add: mb_send_loop_def Let_def)
      moreover have ms: "mailboxes s' mb = Some m" using m same_restD(4) [OF s'(3)] by simp
      moreover have "mb_ok s' mb" by (rule mb_ok_upd [OF ok ms rg]) (use s'(9) in simp)
      moreover have "rt_tick s' = rt_tick s" using same_restD(7) [OF s'(3)] by simp
      ultimately show ?thesis using False nz s'(2,4,5,7,8) irq(2) x by simp
    qed
  qed
qed

text \<open>The receive loop on every branch.\<close>

lemma mb_recv_loop_cases:
  assumes wf: "kernel_wf s" and ok: "mb_ok s mb" and m: "mailboxes s mb = Some m"
    and cur: "rt_current_thread s \<noteq> None" "threads s t = Some th" "stat_of th = RT_THREAD_READY"
    and irq: "rt_interrupt_nest s = 0" "rt_scheduler_lock_nest s = 0" and run: "runnable_without t s"
    and time: "sint timeout > 0 \<longrightarrow> timeout < RT_TICK_MAX div 2"
  shows "\<exists>r s' m'. mb_recv_loop mb timeout d (Some t) s = Some (r, s') \<and> kernel_wf s' \<and> mb_ok s' mb \<and>
    mailboxes s' mb = Some m' \<and> rt_tick s' = rt_tick s \<and>
    (case mails m of v # vs \<Rightarrow>
       r = Done (RT_EOK, Some v) \<and> mails m' = vs \<and> tlists s' (SenderQ mb) = tl (tlists s (SenderQ mb)) \<and>
       tlists s' (SuspendQ (OMailBox mb)) = tlists s (SuspendQ (OMailBox mb)) \<and>
       threads s' = first_ready (tlists s (SenderQ mb)) (threads s)
     | [] \<Rightarrow> if sint timeout = 0 then r = Done (- RT_ETIMEOUT, None) \<and> m' = m \<and> tlists s' = tlists s
     else r = Waiting timeout (if sint timeout > 0 then rt_tick s else d) \<and> m' = m \<and> runs_highest s' \<and>
       threads s' = (threads s)(t \<mapsto> set_stat RT_THREAD_SUSPEND (th\<lparr>thread_error := RT_EOK\<rparr>)) \<and>
       (\<exists>x. objects s (OMailBox mb) = Some x \<and> tlists s' (SuspendQ (OMailBox mb)) =
          queue_in (obj_flag x) s t (tlists s (SuspendQ (OMailBox mb)))) \<and>
       (if sint timeout > 0 then ThreadTimer t \<in> set (rt_timer_list s') \<and> due_in s' (ThreadTimer t) = timeout
        else ThreadTimer t \<notin> set (rt_timer_list s')))"
proof -
  obtain x where rg: "ring_ok m" and x: "objects s (OMailBox mb) = Some x"
    and fl: "obj_flag x = RT_IPC_FLAG_FIFO \<or> obj_flag x = RT_IPC_FLAG_PRIO"
    using ok m by (auto elim!: mb_okE)
  have hq: "is_waitq (SuspendQ (OMailBox mb))" "is_waitq (SenderQ mb)" by simp_all
  have empty: "mails m = [] \<longleftrightarrow> mb_entry m = 0"
    using length_mails [of m] by (metis length_0_conv unsigned_eq_0_iff)
  show ?thesis
  proof (cases "mails m")
    case (Cons v vs)
    obtain m' where m': "mb_get m = Some (v, m')" "ring_ok m'" "mails m' = vs"
      using mb_get_ok [OF rg Cons] by blast
    let ?a = "s\<lparr>mailboxes := (mailboxes s)(mb \<mapsto> m')\<rparr>"
    have aw: "kernel_wf ?a" "runnable ?a" using wf runnable_with [OF run] runnable_cong [of ?a s] by simp_all
    obtain s' where s': "wake_first (SenderQ mb) ?a = Some s'" "kernel_wf s'" "runnable s'" "same_rest ?a s'"
      "tlists s' (SenderQ mb) = tl (tlists ?a (SenderQ mb))"
      "\<forall>h'. is_waitq h' \<longrightarrow> h' \<noteq> SenderQ mb \<longrightarrow> tlists s' h' = tlists ?a h'"
      "threads s' = first_ready (tlists ?a (SenderQ mb)) (threads ?a)"
      "\<forall>ob. (\<forall>tm. ob \<noteq> OTimer tm) \<longrightarrow> objects s' ob = objects ?a ob"
      using wake_first_ends [OF aw hq(2)] .
    have "mb_recv_loop mb timeout d (Some t) s = Some (Done (RT_EOK, Some v), s')"
      using m m'(1) s'(1) empty Cons by (simp add: mb_recv_loop_def)
    moreover have ms: "mailboxes s' mb = Some m'" using same_restD(4) [OF s'(4)] by simp
    moreover have "mb_ok s' mb" by (rule mb_ok_upd [OF ok ms m'(2)]) (use s'(8) in simp)
    moreover have "rt_tick s' = rt_tick s" using same_restD(7) [OF s'(4)] by simp
    ultimately show ?thesis using Cons m'(3) s'(2,5,6,7) by simp
  next
    case Nil
    let ?e = "upd_thread t (\<lambda>th. th\<lparr>thread_error := RT_EOK\<rparr>) s"
    note e = upd_error_wf [OF wf cur(2), of RT_EOK]
    show ?thesis
    proof (cases "sint timeout = 0")
      case True
      let ?f = "upd_thread t (\<lambda>th. th\<lparr>thread_error := - RT_ETIMEOUT\<rparr>) ?e"
      have te: "threads ?e t = Some (th\<lparr>thread_error := RT_EOK\<rparr>)" using e(2) by simp
      note f = upd_error_wf [OF e(1) te, of "- RT_ETIMEOUT"]
      have "mb_recv_loop mb timeout d (Some t) s = Some (Done (- RT_ETIMEOUT, None), ?f)"
        using m empty Nil True by (simp add: mb_recv_loop_def)
      moreover have ms: "mailboxes ?f mb = Some m" using m same_restD(4) [OF e(6)] same_restD(4) [OF f(6)] by simp
      moreover have "mb_ok ?f mb" by (rule mb_ok_upd [OF ok ms rg]) (use e(5) f(5) in simp)
      moreover have "rt_tick ?f = rt_tick s" using same_restD(7) [OF e(6)] same_restD(7) [OF f(6)] by simp
      ultimately show ?thesis using True Nil e(3) f(1,3) by simp
    next
      case nz: False
      obtain s' where s': "wait_on (SuspendQ (OMailBox mb)) t (obj_flag x) timeout ?e = Some s'" "kernel_wf s'" "same_rest s s'"
        "threads s' = (threads s)(t \<mapsto> set_stat RT_THREAD_SUSPEND (th\<lparr>thread_error := RT_EOK\<rparr>))"
        "tlists s' (SuspendQ (OMailBox mb)) = queue_in (obj_flag x) s t (tlists s (SuspendQ (OMailBox mb)))"
        "\<forall>h'. is_waitq h' \<longrightarrow> h' \<noteq> SuspendQ (OMailBox mb) \<longrightarrow> tlists s' h' = tlists s h'"
        "if sint timeout > 0 then ThreadTimer t \<in> set (rt_timer_list s') \<and> due_in s' (ThreadTimer t) = timeout
         else ThreadTimer t \<notin> set (rt_timer_list s')"
        "rt_scheduler_lock_nest s = 0 \<longrightarrow> runs_highest s'"
        "\<forall>ob. (\<forall>tm. ob \<noteq> OTimer tm) \<longrightarrow> objects s' ob = objects s ob"
        using wait_reset [OF wf cur(2,3) run hq(1) fl time] .
      have ctx: "in_thread_context ?e = Some ()" and tk: "rt_tick ?e = rt_tick s"
        using cur(1) irq(1) same_restD(7,8) [OF e(6)] e(7) by (simp_all add: in_thread_context_def)
      have "mb_recv_loop mb timeout d (Some t) s = Some (Waiting timeout (if sint timeout > 0 then rt_tick s else d), s')"
        using m empty Nil nz ctx x e(5) s'(1) tk by (simp add: mb_recv_loop_def Let_def)
      moreover have ms: "mailboxes s' mb = Some m" using m same_restD(4) [OF s'(3)] by simp
      moreover have "mb_ok s' mb" by (rule mb_ok_upd [OF ok ms rg]) (use s'(9) in simp)
      moreover have "rt_tick s' = rt_tick s" using same_restD(7) [OF s'(3)] by simp
      ultimately show ?thesis using Nil nz s'(2,4,5,7,8) irq(2) x by simp
    qed
  qed
qed

section \<open>Properties\<close>

text \<open>
  (C10) Sending a mail refines the bounded queue on every branch: with room the mail goes behind those in
  the box and the first waiting receiver is made ready; a full box gives
  \<^verbatim>\<open>-RT_EFULL\<close> without a wait, and otherwise the sender waits among the senders for at
  most the given time. The box stays in order.
\<close>

theorem mb_send_refines:
  assumes "kernel_wf s" "mb_ok s mb" "mailboxes s mb = Some m"
    and "rt_current_thread s = Some t" "threads s t = Some th" "stat_of th = RT_THREAD_READY"
    and "rt_interrupt_nest s = 0" "rt_scheduler_lock_nest s = 0" "runnable_without t s"
    and "sint timeout > 0 \<longrightarrow> timeout < RT_TICK_MAX div 2"
  shows "\<exists>r s' m'. rt_mb_send_wait mb v timeout s = Some (r, s') \<and> kernel_wf s' \<and> mb_ok s' mb \<and>
    mailboxes s' mb = Some m' \<and>
    (if length (mails m) < unat (mb_size m)
     then r = Done RT_EOK \<and> mails m' = mails m @ [v] \<and>
       tlists s' (SuspendQ (OMailBox mb)) = tl (tlists s (SuspendQ (OMailBox mb))) \<and>
       threads s' = first_ready (tlists s (SuspendQ (OMailBox mb))) (threads s)
     else if sint timeout = 0 then r = Done (- RT_EFULL) \<and> s' = s
     else (\<exists>k. r = Waiting timeout k) \<and> m' = m \<and> runs_highest s' \<and> t \<in> set (tlists s' (SenderQ mb)) \<and>
       (if sint timeout > 0 then ThreadTimer t \<in> set (rt_timer_list s') \<and> due_in s' (ThreadTimer t) = timeout
        else ThreadTimer t \<notin> set (rt_timer_list s')))"
proof -
  obtain x where ck: "check_type s (OMailBox mb) RT_Object_Class_MailBox = Some ()" and rg: "ring_ok m"
    and x: "objects s (OMailBox mb) = Some x" "obj_flag x = RT_IPC_FLAG_FIFO \<or> obj_flag x = RT_IPC_FLAG_PRIO"
    using assms(2,3) by (auto elim!: mb_okE)
  have full: "mb_entry m = mb_size m \<longleftrightarrow> \<not> mb_entry m < mb_size m" using rg by (auto simp: ring_ok_def)
  have len: "length (mails m) < unat (mb_size m) \<longleftrightarrow> mb_entry m < mb_size m" by (simp add: word_less_nat_alt)
  have self: "rt_current_thread s \<noteq> None" using assms(4) by simp
  show ?thesis
  proof (cases "\<not> mb_entry m < mb_size m \<and> sint timeout = 0")
    case True
    then have "rt_mb_send_wait mb v timeout s = Some (Done (- RT_EFULL), s)"
      using ck assms(3) full by (simp add: rt_mb_send_wait_def del: check_type_iff)
    then show ?thesis using True len assms(1,2,3) by simp
  next
    case False
    then have e: "rt_mb_send_wait mb v timeout s = mb_send_loop mb v timeout 0 (Some t) s"
      using ck assms(3,4) full by (auto simp: rt_mb_send_wait_def rt_thread_self_def simp del: check_type_iff)
    show ?thesis unfolding e len
      using mb_send_loop_cases [OF assms(1-3) self assms(5-10), of v 0] False set_queue_in [OF x(2)] x(1)
      by (cases "mb_entry m < mb_size m") (fastforce split: if_splits)+
  qed
qed

text \<open>
  (C11) Receiving a mail refines the bounded queue on every branch: the oldest mail is taken and the first
  waiting sender made ready; an empty box gives \<^verbatim>\<open>-RT_ETIMEOUT\<close> without a wait, and
  otherwise the receiver waits for at most the given time.
\<close>

theorem mb_recv_refines:
  assumes "kernel_wf s" "mb_ok s mb" "mailboxes s mb = Some m"
    and "rt_current_thread s = Some t" "threads s t = Some th" "stat_of th = RT_THREAD_READY"
    and "rt_interrupt_nest s = 0" "rt_scheduler_lock_nest s = 0" "runnable_without t s"
    and "sint timeout > 0 \<longrightarrow> timeout < RT_TICK_MAX div 2"
  shows "\<exists>r s' m'. rt_mb_recv mb timeout s = Some (r, s') \<and> kernel_wf s' \<and> mb_ok s' mb \<and>
    mailboxes s' mb = Some m' \<and>
    (case mails m of v # vs \<Rightarrow> r = Done (RT_EOK, Some v) \<and> mails m' = vs \<and>
       tlists s' (SenderQ mb) = tl (tlists s (SenderQ mb)) \<and>
       threads s' = first_ready (tlists s (SenderQ mb)) (threads s)
     | [] \<Rightarrow> if sint timeout = 0 then r = Done (- RT_ETIMEOUT, None) \<and> s' = s
       else (\<exists>k. r = Waiting timeout k) \<and> m' = m \<and> runs_highest s' \<and> t \<in> set (tlists s' (SuspendQ (OMailBox mb))) \<and>
       (if sint timeout > 0 then ThreadTimer t \<in> set (rt_timer_list s') \<and> due_in s' (ThreadTimer t) = timeout
        else ThreadTimer t \<notin> set (rt_timer_list s')))"
proof -
  obtain x where ck: "check_type s (OMailBox mb) RT_Object_Class_MailBox = Some ()" and rg: "ring_ok m"
    and x: "objects s (OMailBox mb) = Some x" "obj_flag x = RT_IPC_FLAG_FIFO \<or> obj_flag x = RT_IPC_FLAG_PRIO"
    using assms(2,3) by (auto elim!: mb_okE)
  have empty: "mails m = [] \<longleftrightarrow> mb_entry m = 0"
    using length_mails [of m] by (metis length_0_conv unsigned_eq_0_iff)
  have self: "rt_current_thread s \<noteq> None" using assms(4) by simp
  show ?thesis
  proof (cases "mails m = [] \<and> sint timeout = 0")
    case True
    then have "rt_mb_recv mb timeout s = Some (Done (- RT_ETIMEOUT, None), s)"
      using ck assms(3) empty by (simp add: rt_mb_recv_def del: check_type_iff)
    then show ?thesis using True assms(1,2,3) by simp
  next
    case False
    then have e: "rt_mb_recv mb timeout s = mb_recv_loop mb timeout 0 (Some t) s"
      using ck assms(3,4) empty by (auto simp: rt_mb_recv_def rt_thread_self_def simp del: check_type_iff)
    show ?thesis unfolding e
      using mb_recv_loop_cases [OF assms(1-3) self assms(5-10), of 0] False set_queue_in [OF x(2)] x(1)
      by (cases "mails m") (fastforce split: if_splits)+
  qed
qed

text \<open>
  The ring of a mailbox loses nothing and keeps the order: any mails put in while there is room come
  out again in that order, behind the mails that were there, and leave the ring empty and in order.
\<close>

theorem mb_ring_round_trip:
  assumes "ring_ok m" "length (mails m) + length vs \<le> unat (mb_size m)"
  shows "\<exists>m' m''. put_all mb_put vs m = Some m' \<and>
     get_all mb_get (length (mails m) + length vs) m' = Some (mails m @ vs, m'') \<and> ring_ok m'' \<and> mails m'' = []"
  by (rule mb.round_trip) (use assms in simp_all)

text \<open>The time that is left: the deadline stays where it was.\<close>

lemma time_left_word:
  fixes timeout e :: u32
  assumes time: "sint timeout > 0" and el: "e < timeout"
  shows "sint (timeout - e) > 0" "timeout - e \<le> timeout"
proof -
  have t: "uint timeout < 2147483648" "uint e < uint timeout" "uint e \<ge> 0"
    using time el uint_lt2p [of timeout] by (auto simp: sint_u32 word_less_def split: if_splits)
  have l: "uint (timeout - e) = uint timeout - uint e"
    using t by (simp add: uint_sub_if')
  have "uint timeout - uint e < 2147483648" using t by linarith
  show "sint (timeout - e) > 0"  "timeout - e \<le> timeout" using t l \<open>uint timeout - uint e < 2147483648\<close> by (simp_all add: sint_u32 word_le_def)
qed

lemma wait_left_deadline:
  assumes time: "sint timeout > 0" and el: "rt_tick s - d < timeout"
  shows "rt_tick s + wait_left timeout d s = d + timeout" "sint (wait_left timeout d s) > 0"
    "wait_left timeout d s \<le> timeout"
proof -
  have l: "wait_left timeout d s = timeout - (rt_tick s - d)"
    using time time_left_word(1) [OF time el] by (simp add: wait_left_def Let_def)
  then show "rt_tick s + wait_left timeout d s = d + timeout" by simp
  show "sint (wait_left timeout d s) > 0" "wait_left timeout d s \<le> timeout"
    using l time_left_word [OF time el] by simp_all
qed

text \<open>
  Waiting in a loop does not wait longer: a receiver that is woken but finds the box empty, because
  another thread took the mail, waits on for what is left of its time, so that its timer is due at the
  same tick as before; with a mail there it takes the oldest.
\<close>

theorem mb_recv_keeps_deadline:
  assumes wf: "kernel_wf s" and ok: "mb_ok s mb" and m: "mailboxes s mb = Some m"
    and cur: "rt_current_thread s = Some t" "threads s t = Some th" "stat_of th = RT_THREAD_READY" "thread_error th = RT_EOK"
    and irq: "rt_interrupt_nest s = 0" "rt_scheduler_lock_nest s = 0" and run: "runnable_without t s"
    and time: "sint timeout > 0" "timeout < RT_TICK_MAX div 2" "rt_tick s - d < timeout"
  shows "\<exists>r s' m'. rt_mb_recv_resumed mb timeout d t s = Some (r, s') \<and> kernel_wf s' \<and> mb_ok s' mb \<and>
    mailboxes s' mb = Some m' \<and>
    (case mails m of v # vs \<Rightarrow> r = Done (RT_EOK, Some v) \<and> mails m' = vs
     | [] \<Rightarrow> m' = m \<and> (\<exists>left. r = Waiting left (rt_tick s) \<and> left \<le> timeout) \<and>
         ThreadTimer t \<in> set (rt_timer_list s') \<and> rt_tick s' + due_in s' (ThreadTimer t) = d + timeout)"
proof -
  let ?l = "wait_left timeout d s"
  note l = wait_left_deadline [OF time(1,3)]
  have lt: "sint ?l > 0 \<longrightarrow> ?l < RT_TICK_MAX div 2" using l(3) time(2) by (auto intro: le_less_trans)
  have self: "rt_current_thread s \<noteq> None" using cur(1) by simp
  have e: "rt_mb_recv_resumed mb timeout d t s = mb_recv_loop mb ?l (rt_tick s - d) (Some t) s"
    using cur(2,4) time(1) by (simp add: rt_mb_recv_resumed_def)
  show ?thesis unfolding e
    using mb_recv_loop_cases [OF wf ok m self cur(2,3) irq run lt, of "rt_tick s - d"] l
    by (cases "mails m") fastforce+
qed

text \<open>The sample mailbox is empty; one with two mails is full, and thread 2 waits to send to it.\<close>

lemma demo_mb_ok: "mb_ok demo 0"
  by (simp add: mb_ok_def ring_ok_def)

theorem mb_send_refines_witness:
  "\<exists>s' m'. rt_mb_send_wait 0 42 0 demo = Some (Done RT_EOK, s') \<and> mailboxes s' 0 = Some m' \<and> mails m' = [42]"
  using mb_send_refines [OF demo_wf demo_mb_ok, of _ 1 "demo_thread 10 1" 0 42] demo_runnable(2)
  by (auto simp: mails_def)

definition demo_full :: kernel where
  "demo_full = (demo_on (SenderQ 0) id)\<lparr>mailboxes := [0 \<mapsto>
     \<lparr>mb_pool = [7, 8], mb_size = 2, mb_entry = 2, in_offset = 1, out_offset = 1\<rparr>]\<rparr>"

lemma demo_full_ok: "kernel_wf demo_full" "mb_ok demo_full 0" "runnable_without 1 demo_full"
proof -
  have "kernel_wf (demo_on (SenderQ 0) id)" by (rule demo_on_wf) simp_all
  then show "kernel_wf demo_full" by (simp add: demo_full_def)
  show "mb_ok demo_full 0" by (simp add: mb_ok_def ring_ok_def demo_full_def)
  have "threads demo_full = threads demo" by (auto simp: demo_full_def)
  then show "runnable_without 1 demo_full"
    using demo_runnable(2) by (simp add: runnable_without_def stacks_ok_def del: demo_sel)
qed

theorem mb_recv_refines_witness:
  "\<exists>s' m'. rt_mb_recv 0 0 demo_full = Some (Done (RT_EOK, Some 8), s') \<and> mailboxes s' 0 = Some m' \<and>
     mails m' = [7] \<and> map_option stat_of (threads s' 2) = Some RT_THREAD_READY"
proof -
  let ?m = "\<lparr>mb_pool = [7, 8], mb_size = 2, mb_entry = 2, in_offset = 1, out_offset = 1\<rparr>"
  have d: "mailboxes demo_full 0 = Some ?m" "rt_current_thread demo_full = Some 1"
    "threads demo_full 1 = Some (demo_thread 10 1)" "stat_of (demo_thread 10 1) = RT_THREAD_READY"
    "rt_interrupt_nest demo_full = 0" "rt_scheduler_lock_nest demo_full = 0"
    "tlists demo_full (SenderQ 0) = [2]" "threads demo_full 2 = Some (demo_thread 5 2)"
    by (simp_all add: demo_full_def)
  have "mails ?m = [8, 7]" by (simp add: mails_def upt_rec)
  then show ?thesis
    using mb_recv_refines [OF demo_full_ok(1,2) d(1-6) demo_full_ok(3), of 0] d(7,8)
    by (auto simp: first_ready_def)
qed

theorem mb_ring_round_trip_witness:
  "\<exists>m' m''. put_all mb_put [1, 2] \<lparr>mb_pool = [0, 0], mb_size = 2, mb_entry = 0, in_offset = 1, out_offset = 1\<rparr> = Some m' \<and>
     get_all mb_get 2 m' = Some ([1, 2], m'')"
  using mb_ring_round_trip [of "\<lparr>mb_pool = [0, 0], mb_size = 2, mb_entry = 0, in_offset = 1, out_offset = 1\<rparr>" "[1, 2]"]
  by (simp add: ring_ok_def mails_def numeral_2_eq_2 [symmetric] del: put_all.simps get_all.simps) blast

theorem mb_recv_keeps_deadline_witness:
  "\<exists>s' left. rt_mb_recv_resumed 0 7 90 1 demo = Some (Waiting left 95, s') \<and>
     rt_tick s' + due_in s' (ThreadTimer 1) = 97"
  using mb_recv_keeps_deadline [OF demo_wf demo_mb_ok, of _ 1 "demo_thread 10 1" 7 90] demo_runnable(2)
  by (auto simp: mails_def)

end
