(* ===== verification/DataQueue.thy ===== *)
theory DataQueue
  imports Mailbox
begin

text \<open>
  The data queue of the drivers (\<^verbatim>\<open>components/drivers/src/dataqueue.c\<close>): a ring of pointers
  with free running 16-bit indices, with threads waiting to push on list 0 and to pop on list 1 of structure
  \<open>d\<close>. The queue is kept beside the kernel state. \<open>notify\<close> stands for
  \<^verbatim>\<open>evt_notify\<close>, a function of the queue's user.
\<close>

section \<open>The code\<close>

record rt_data_item =
  data_ptr :: u32
  data_size :: u32

record rt_data_queue =
  dq_size :: u16
  dq_lwm :: u16
  get_index :: u16
  put_index :: u16
  dq_queue :: "rt_data_item list"
  evt_notify :: bool

type_synonym with_queue = "kernel \<times> rt_data_queue"

abbreviation (input) suspended_push_list :: "nat \<Rightarrow> thead" where "suspended_push_list d \<equiv> DriverQ d 0"
abbreviation (input) suspended_pop_list :: "nat \<Rightarrow> thead" where "suspended_pop_list d \<equiv> DriverQ d 1"
abbreviation (input) RT_DATAQUEUE_EVENT_POP :: u32 where "RT_DATAQUEUE_EVENT_POP \<equiv> 1"
abbreviation (input) RT_DATAQUEUE_EVENT_PUSH :: u32 where "RT_DATAQUEUE_EVENT_PUSH \<equiv> 2"
abbreviation (input) RT_DATAQUEUE_EVENT_LWM :: u32 where "RT_DATAQUEUE_EVENT_LWM \<equiv> 3"

text \<open>\<open>items\<close> is what \<^verbatim>\<open>rt_malloc\<close> gives.\<close>

definition rt_data_queue_init :: "nat \<Rightarrow> u16 \<Rightarrow> u16 \<Rightarrow> bool \<Rightarrow> rt_data_item list option \<Rightarrow> with_queue \<Rightarrow> rt_err \<times> with_queue" where
  "rt_data_queue_init d sz lwm note items c =
     (let (s, q) = c;
          q = q\<lparr>evt_notify := note, dq_size := sz, dq_lwm := lwm, get_index := 0, put_index := 0\<rparr>;
          s = s\<lparr>tlists := (tlists s)(suspended_push_list d := [], suspended_pop_list d := [])\<rparr> in
      case items of None \<Rightarrow> (- RT_ENOMEM, s, q) | Some xs \<Rightarrow> (RT_EOK, s, q\<lparr>dq_queue := xs\<rparr>))"

text \<open>The running thread goes to the end of a list and waits.\<close>

definition driver_wait :: "thead \<Rightarrow> tid \<Rightarrow> u32 \<Rightarrow> kernel \<Rightarrow> kernel option" where
  "driver_wait list t timeout s =
     do { not_in_interrupt s;
          let s = upd_thread t (\<lambda>th. th\<lparr>thread_error := RT_EOK\<rparr>) s;
          (_, s) \<leftarrow> rt_thread_suspend t s;
          let s = s\<lparr>tlists := ls_insert_before list t (tlists s)\<rparr>;
          s \<leftarrow> (if sint timeout > 0 then start_thread_timer t timeout s else Some s);
          rt_schedule s }"

definition dq_notify :: "(u32 \<Rightarrow> with_queue \<Rightarrow> with_queue option) \<Rightarrow> u32 \<Rightarrow> with_queue \<Rightarrow> with_queue option" where
  "dq_notify notify event c = (if evt_notify (snd c) then notify event c else Some c)"

text \<open>The first thread of a list is resumed.\<close>

definition driver_wake :: "thead \<Rightarrow> kernel \<Rightarrow> kernel option" where
  "driver_wake h s =
     (case tlists s h of
        [] \<Rightarrow> Some s
      | t # _ \<Rightarrow> do { (_, s) \<leftarrow> rt_thread_resume t s; rt_schedule s })"

text \<open>The indices are promoted to \<^verbatim>\<open>int\<close> before they are subtracted.\<close>

definition dq_count :: "rt_data_queue \<Rightarrow> int" where
  "dq_count q = int (unat (put_index q)) - int (unat (get_index q))"

definition dq_slot :: "u16 \<Rightarrow> rt_data_queue \<Rightarrow> nat option" where
  "dq_slot i q =
     do { rt_assert (dq_size q \<noteq> 0);
          rt_assert (unat (i mod dq_size q) < length (dq_queue q));
          Some (unat (i mod dq_size q)) }"

definition dq_push_loop ::
    "nat \<Rightarrow> rt_data_item \<Rightarrow> u32 \<Rightarrow> (u32 \<Rightarrow> with_queue \<Rightarrow> with_queue option) \<Rightarrow> tid option \<Rightarrow> with_queue \<Rightarrow>
     (rt_err outcome \<times> with_queue) option" where
  "dq_push_loop d item timeout notify thread c =
     (let (s, q) = c in
      if dq_count q = int (unat (dq_size q))
      then if sint timeout = 0 then Some (Return (- RT_ETIMEOUT), s, q)
           else do { t \<leftarrow> thread;
                     s \<leftarrow> driver_wait (suspended_push_list d) t timeout s;
                     Some (Pending, s, q) }
      else do { i \<leftarrow> dq_slot (put_index q) q;
                let q = q\<lparr>dq_queue := (dq_queue q)[i := item], put_index := put_index q + 1\<rparr>;
                if tlists s (suspended_pop_list d) \<noteq> []
                then do { s \<leftarrow> driver_wake (suspended_pop_list d) s;
                          Some (Return RT_EOK, s, q) }
                else do { c \<leftarrow> dq_notify notify RT_DATAQUEUE_EVENT_PUSH (s, q);
                          Some (Return RT_EOK, c) } })"

definition rt_data_queue_push ::
    "nat \<Rightarrow> rt_data_item \<Rightarrow> u32 \<Rightarrow> (u32 \<Rightarrow> with_queue \<Rightarrow> with_queue option) \<Rightarrow> with_queue \<Rightarrow> (rt_err outcome \<times> with_queue) option" where
  "rt_data_queue_push d item timeout notify c = dq_push_loop d item timeout notify (rt_thread_self (fst c)) c"

definition rt_data_queue_push_resumed ::
    "nat \<Rightarrow> rt_data_item \<Rightarrow> u32 \<Rightarrow> (u32 \<Rightarrow> with_queue \<Rightarrow> with_queue option) \<Rightarrow> tid \<Rightarrow> with_queue \<Rightarrow>
     (rt_err outcome \<times> with_queue) option" where
  "rt_data_queue_push_resumed d item timeout notify t c =
     do { th \<leftarrow> threads (fst c) t;
          if thread_error th \<noteq> RT_EOK then Some (Return (thread_error th), c)
          else dq_push_loop d item timeout notify (Some t) c }"

definition dq_pop_loop ::
    "nat \<Rightarrow> u32 \<Rightarrow> (u32 \<Rightarrow> with_queue \<Rightarrow> with_queue option) \<Rightarrow> tid option \<Rightarrow> with_queue \<Rightarrow>
     ((rt_err \<times> rt_data_item option) outcome \<times> with_queue) option" where
  "dq_pop_loop d timeout notify thread c =
     (let (s, q) = c in
      if get_index q = put_index q
      then if sint timeout = 0 then Some (Return (- RT_ETIMEOUT, None), s, q)
           else do { t \<leftarrow> thread;
                     s \<leftarrow> driver_wait (suspended_pop_list d) t timeout s;
                     Some (Pending, s, q) }
      else do { i \<leftarrow> dq_slot (get_index q) q;
                let item = dq_queue q ! i;
                let q = q\<lparr>get_index := get_index q + 1\<rparr>;
                if dq_count q \<le> int (unat (dq_lwm q))
                then do { s \<leftarrow> driver_wake (suspended_push_list d) s;
                          c \<leftarrow> dq_notify notify RT_DATAQUEUE_EVENT_LWM (s, q);
                          Some (Return (RT_EOK, Some item), c) }
                else do { c \<leftarrow> dq_notify notify RT_DATAQUEUE_EVENT_POP (s, q);
                          Some (Return (RT_EOK, Some item), c) } })"

definition rt_data_queue_pop ::
    "nat \<Rightarrow> u32 \<Rightarrow> (u32 \<Rightarrow> with_queue \<Rightarrow> with_queue option) \<Rightarrow> with_queue \<Rightarrow>
     ((rt_err \<times> rt_data_item option) outcome \<times> with_queue) option" where
  "rt_data_queue_pop d timeout notify c = dq_pop_loop d timeout notify (rt_thread_self (fst c)) c"

definition rt_data_queue_pop_resumed ::
    "nat \<Rightarrow> u32 \<Rightarrow> (u32 \<Rightarrow> with_queue \<Rightarrow> with_queue option) \<Rightarrow> tid \<Rightarrow> with_queue \<Rightarrow>
     ((rt_err \<times> rt_data_item option) outcome \<times> with_queue) option" where
  "rt_data_queue_pop_resumed d timeout notify t c =
     do { th \<leftarrow> threads (fst c) t;
          if thread_error th \<noteq> RT_EOK then Some (Return (thread_error th, None), c)
          else dq_pop_loop d timeout notify (Some t) c }"

definition rt_data_queue_peak :: "rt_data_queue \<Rightarrow> (rt_err \<times> rt_data_item option) option" where
  "rt_data_queue_peak q =
     (if get_index q = put_index q then Some (- RT_EEMPTY, None)
      else do { i \<leftarrow> dq_slot (get_index q) q; Some (RT_EOK, Some (dq_queue q ! i)) })"

text \<open>The two loops are those of \<^verbatim>\<open>rt_ipc_list_resume_all\<close>. The indices and the data are left alone.\<close>

definition rt_data_queue_reset :: "nat \<Rightarrow> with_queue \<Rightarrow> with_queue option" where
  "rt_data_queue_reset d c =
     (let (s, q) = c in
      do { let s = rt_enter_critical s;
           (_, s) \<leftarrow> rt_ipc_list_resume_all (suspended_pop_list d) s;
           (_, s) \<leftarrow> rt_ipc_list_resume_all (suspended_push_list d) s;
           s \<leftarrow> rt_exit_critical s;
           s \<leftarrow> rt_schedule s;
           Some (s, q) })"

section \<open>The queue of items\<close>

text \<open>A queue whose put index has not wrapped, and its items.\<close>

definition dq_ok :: "rt_data_queue \<Rightarrow> bool" where
  "dq_ok q \<longleftrightarrow> dq_size q \<noteq> 0 \<and> length (dq_queue q) = unat (dq_size q) \<and> get_index q \<le> put_index q \<and>
     unat (put_index q) - unat (get_index q) \<le> unat (dq_size q)"

definition dq_items :: "rt_data_queue \<Rightarrow> rt_data_item list" where
  "dq_items q = map (\<lambda>i. dq_queue q ! (i mod unat (dq_size q))) [unat (get_index q)..<unat (put_index q)]"

lemma dq_count_items: "dq_ok q \<Longrightarrow> dq_count q = int (length (dq_items q))"
  by (simp add: dq_ok_def dq_count_def dq_items_def word_le_nat_alt)

lemma dq_room_iff:
  assumes "dq_ok q"
  shows "dq_count q = uint (dq_size q) \<longleftrightarrow> \<not> length (dq_items q) < unat (dq_size q)"
    "dq_count q \<le> uint w \<longleftrightarrow> length (dq_items q) \<le> unat w"
proof -
  have "length (dq_items q) \<le> unat (dq_size q)" using assms by (simp add: dq_ok_def dq_items_def)
  then show "dq_count q = uint (dq_size q) \<longleftrightarrow> \<not> length (dq_items q) < unat (dq_size q)"
    unfolding dq_count_items [OF assms] uint_nat by linarith
  show "dq_count q \<le> uint w \<longleftrightarrow> length (dq_items q) \<le> unat w"
    unfolding dq_count_items [OF assms] uint_nat by linarith
qed

lemma dq_slot_ok: "dq_ok q \<Longrightarrow> dq_slot i q = Some (unat i mod unat (dq_size q))"
  by (simp add: dq_ok_def dq_slot_def unat_mod unat_gt_0)

lemma unat_plus_one_nowrap: "(i :: u16) \<noteq> - 1 \<Longrightarrow> unat (i + 1) = unat i + 1"
  by (metis Suc_eq_plus1 add.commute add_eq_0_iff unatSuc)

lemma dq_put_items:
  fixes q :: rt_data_queue and item :: rt_data_item
  assumes ok: "dq_ok q" and room: "length (dq_items q) < unat (dq_size q)" and nw: "put_index q \<noteq> - 1"
  defines "q' \<equiv> q\<lparr>dq_queue := (dq_queue q)[unat (put_index q) mod unat (dq_size q) := item], put_index := put_index q + 1\<rparr>"
  shows "dq_ok q'" "dq_items q' = dq_items q @ [item]"
proof -
  let ?g = "unat (get_index q)" and ?p = "unat (put_index q)" and ?n = "unat (dq_size q)"
  have n: "0 < ?n" "length (dq_queue q) = ?n" "?g \<le> ?p" "?p - ?g < ?n"
    using ok room by (simp_all add: dq_ok_def dq_items_def word_le_nat_alt unat_gt_0)
  have p: "unat (put_index q + 1) = ?p + 1"
    using nw by (simp add: unat_plus_one_nowrap)
  show "dq_ok q'" using ok n p by (simp add: dq_ok_def q'_def word_le_nat_alt)
  have "i mod ?n \<noteq> ?p mod ?n" if "?g \<le> i" "i < ?p" for i
  proof
    assume "i mod ?n = ?p mod ?n"
    then have "?n dvd ?p - i" using that(2) by (simp add: mod_eq_dvd_iff_nat [symmetric])
    then show False using that n(4) by (auto dest: dvd_imp_le)
  qed
  then have "\<forall>i\<in>set [?g..<?p]. (dq_queue q)[?p mod ?n := item] ! (i mod ?n) = dq_queue q ! (i mod ?n)"
    by (metis atLeastLessThan_iff atLeastLessThan_upt nth_list_update_neq)
  then show "dq_items q' = dq_items q @ [item]" using n p by (simp add: dq_items_def q'_def)
qed

lemma dq_get_items:
  assumes ok: "dq_ok q" and xs: "dq_items q = x # xs"
  shows "dq_queue q ! (unat (get_index q) mod unat (dq_size q)) = x" "dq_ok (q\<lparr>get_index := get_index q + 1\<rparr>)"
    "dq_items (q\<lparr>get_index := get_index q + 1\<rparr>) = xs" "get_index q \<noteq> put_index q"
proof -
  let ?g = "unat (get_index q)" and ?p = "unat (put_index q)"
  have gp: "?g < ?p" using xs by (cases "?g < ?p") (simp_all add: dq_items_def)
  then have g: "unat (get_index q + 1) = ?g + 1"
    using unsigned_less [of "put_index q", where 'a = nat] by (simp add: unat_word_ariths)
  have "[?g..<?p] = ?g # [?g + 1..<?p]" using gp by (simp add: upt_conv_Cons)
  then show "dq_queue q ! (?g mod unat (dq_size q)) = x" "dq_items (q\<lparr>get_index := get_index q + 1\<rparr>) = xs"
    using xs g by (simp_all add: dq_items_def)
  show "dq_ok (q\<lparr>get_index := get_index q + 1\<rparr>)" using ok gp g by (auto simp: dq_ok_def word_le_nat_alt)
  show "get_index q \<noteq> put_index q" using gp by auto
qed

text \<open>Waiting and waking are those of the kernel's objects.\<close>

lemma driver_wait_eq:
  "driver_wait h t timeout s =
     do { not_in_interrupt s;
          wait_on h t RT_IPC_FLAG_FIFO timeout (upd_thread t (\<lambda>th. th\<lparr>thread_error := RT_EOK\<rparr>) s) }"
proof -
  have "(if b then f (snd (c, y)) else g (snd (c, y))) = (if b then f y else g y)" for b and c :: rt_err and f g :: "kernel \<Rightarrow> kernel option" and y
    by simp
  then show ?thesis
    by (simp add: driver_wait_def wait_on_def rt_ipc_list_suspend_def Let_def split_def Option.bind_assoc)
qed

lemma driver_wake_eq: "driver_wake h s = wake_first h s"
  by (auto simp: driver_wake_def wake_first_def rt_ipc_list_resume_def Option.bind_assoc split_def split: list.split)

text \<open>Waiting on a data queue, and making its first waiting thread ready.\<close>

lemma driver_wait_ends:
  assumes wf: "kernel_wf s" and cur: "rt_current_thread s = Some t" "threads s t = Some th" "stat_of th = RT_THREAD_READY"
    and irq: "rt_interrupt_nest s = 0" "rt_scheduler_lock_nest s = 0" and run: "runnable_without t s" and h: "is_waitq h"
    and time: "sint timeout > 0 \<longrightarrow> timeout < RT_TICK_MAX div 2"
  obtains s' where "driver_wait h t timeout s = Some s'" "kernel_wf s'" "tlists s' h = tlists s h @ [t]" "runs_highest s'"
    "if sint timeout > 0 then ThreadTimer t \<in> set (rt_timer_list s') \<and> due_in s' (ThreadTimer t) = timeout
     else ThreadTimer t \<notin> set (rt_timer_list s')"
proof -
  obtain s' where "wait_on h t RT_IPC_FLAG_FIFO timeout (upd_thread t (\<lambda>th. th\<lparr>thread_error := RT_EOK\<rparr>) s) = Some s'"
    "kernel_wf s'" "tlists s' h = queue_in RT_IPC_FLAG_FIFO s t (tlists s h)"
    "if sint timeout > 0 then ThreadTimer t \<in> set (rt_timer_list s') \<and> due_in s' (ThreadTimer t) = timeout
     else ThreadTimer t \<notin> set (rt_timer_list s')" "runs_highest s'"
    by (rule wait_reset [OF wf cur(2,3) run h _ time, of RT_IPC_FLAG_FIFO]) (use irq(2) in auto)
  then show thesis using that irq(1) by (simp add: driver_wait_eq not_in_interrupt_def queue_in_def)
qed

lemma driver_waitq: "is_waitq (DriverQ d k)"
  by simp

lemma driver_wake_ends:
  assumes "kernel_wf s" "runnable s" "is_waitq h" "rt_scheduler_lock_nest s = 0"
  obtains s' where "driver_wake h s = Some s'" "kernel_wf s'" "tlists s' h = tl (tlists s h)"
    "threads s' = first_ready (tlists s h) (threads s)" "tlists s h \<noteq> [] \<longrightarrow> runs_highest s'"
proof -
  obtain s' where "wake_first h s = Some s'" "kernel_wf s'" "runnable s'" "same_rest s s'"
    "tlists s' h = tl (tlists s h)" "\<forall>h'. is_waitq h' \<longrightarrow> h' \<noteq> h \<longrightarrow> tlists s' h' = tlists s h'"
    "threads s' = first_ready (tlists s h) (threads s)"
    "\<forall>ob. (\<forall>tm. ob \<noteq> OTimer tm) \<longrightarrow> objects s' ob = objects s ob"
    "tlists s h \<noteq> [] \<longrightarrow> rt_scheduler_lock_nest s = 0 \<longrightarrow> runs_highest s'"
    using wake_first_ends [OF assms(1-3)] .
  then show thesis using assms(4) by (intro that [of s']) (simp_all add: driver_wake_eq)
qed

section \<open>Properties\<close>

text \<open>
  (C35) Pushing on a data queue whose put index does not wrap refines the bounded queue on every branch: with
  room the item goes behind the others, and either the first thread waiting to pop is made ready or the
  user is notified; a full queue gives \<^verbatim>\<open>-RT_ETIMEOUT\<close> when there is no time to wait, and
  otherwise the thread goes behind those waiting to push, with its timer running for the time given.
\<close>

theorem dq_push_refines:
  assumes "kernel_wf s" "dq_ok q" "put_index q \<noteq> - 1"
    and "rt_current_thread s = Some t" "threads s t = Some th" "stat_of th = RT_THREAD_READY"
    and "rt_interrupt_nest s = 0" "rt_scheduler_lock_nest s = 0" "runnable_without t s"
    and "sint timeout > 0 \<longrightarrow> timeout < RT_TICK_MAX div 2"
  shows "if length (dq_items q) < unat (dq_size q)
    then \<exists>q'. dq_ok q' \<and> dq_items q' = dq_items q @ [item] \<and>
      (case tlists s (suspended_pop_list d) of
         [] \<Rightarrow> rt_data_queue_push d item timeout notify (s, q) =
           map_option (Pair (Return RT_EOK)) (dq_notify notify RT_DATAQUEUE_EVENT_PUSH (s, q'))
       | u # us \<Rightarrow> \<exists>s'. rt_data_queue_push d item timeout notify (s, q) = Some (Return RT_EOK, s', q') \<and>
           kernel_wf s' \<and> tlists s' (suspended_pop_list d) = us \<and> runs_highest s' \<and>
           threads s' = (threads s)(u := map_option (set_stat RT_THREAD_READY) (threads s u)))
    else if sint timeout = 0 then rt_data_queue_push d item timeout notify (s, q) = Some (Return (- RT_ETIMEOUT), s, q)
    else \<exists>s'. rt_data_queue_push d item timeout notify (s, q) = Some (Pending, s', q) \<and> kernel_wf s' \<and>
      tlists s' (suspended_push_list d) = tlists s (suspended_push_list d) @ [t] \<and> runs_highest s' \<and>
      (if sint timeout > 0 then ThreadTimer t \<in> set (rt_timer_list s') \<and> due_in s' (ThreadTimer t) = timeout
       else ThreadTimer t \<notin> set (rt_timer_list s'))"
proof (cases "length (dq_items q) < unat (dq_size q)")
  case True
  let ?q = "q\<lparr>dq_queue := (dq_queue q)[unat (put_index q) mod unat (dq_size q) := item], put_index := put_index q + 1\<rparr>"
  note put = dq_put_items [OF assms(2) True assms(3), of item] dq_slot_ok [OF assms(2)] dq_room_iff(1) [OF assms(2)]
  show ?thesis
  proof (cases "tlists s (suspended_pop_list d)")
    case Nil
    then show ?thesis unfolding if_P [OF True] using True put
      by (intro exI [of _ ?q]) (simp add: rt_data_queue_push_def dq_push_loop_def map_conv_bind_option o_def)
  next
    case (Cons u us)
    obtain s' where "driver_wake (suspended_pop_list d) s = Some s'" "kernel_wf s'" "tlists s' (suspended_pop_list d) = us"
      "runs_highest s'" "threads s' = (threads s)(u := map_option (set_stat RT_THREAD_READY) (threads s u))"
      using driver_wake_ends [OF assms(1) runnable_with [OF assms(9)] driver_waitq assms(8), of d 1] Cons
      by (auto simp: first_ready_def)
    then show ?thesis unfolding if_P [OF True] using True put Cons
      by (intro exI [of _ ?q]) (simp add: rt_data_queue_push_def dq_push_loop_def)
  qed
next
  case False
  then have full: "dq_count q = uint (dq_size q)" using dq_room_iff(1) [OF assms(2)] by simp
  obtain s' where "driver_wait (suspended_push_list d) t timeout s = Some s'" "kernel_wf s'"
    "tlists s' (suspended_push_list d) = tlists s (suspended_push_list d) @ [t]" "runs_highest s'"
    "if sint timeout > 0 then ThreadTimer t \<in> set (rt_timer_list s') \<and> due_in s' (ThreadTimer t) = timeout
     else ThreadTimer t \<notin> set (rt_timer_list s')"
    using driver_wait_ends [OF assms(1,4-9) _ assms(10), of "suspended_push_list d"] by auto
  then show ?thesis using False full assms(4)
    by (simp add: rt_data_queue_push_def dq_push_loop_def rt_thread_self_def)
qed

text \<open>
  (C36) Popping from a data queue refines the bounded queue on every branch, as long as the 16-bit put index has not
  wrapped past the get index (\<^verbatim>\<open>dq_ok\<close>: the get index is not above the put index, and at most the size
  below it): the oldest item is taken; when no more than the low water mark are left the first thread waiting to
  push is made ready and the low water mark is notified; an empty queue gives \<^verbatim>\<open>-RT_ETIMEOUT\<close> when
  there is no time to wait, and otherwise the thread goes behind those waiting to pop. After the wrap the count the code
  compares is negative, and every pop takes the low water branch.
\<close>

theorem dq_pop_refines:
  assumes "kernel_wf s" "dq_ok q"
    and "rt_current_thread s = Some t" "threads s t = Some th" "stat_of th = RT_THREAD_READY"
    and "rt_interrupt_nest s = 0" "rt_scheduler_lock_nest s = 0" "runnable_without t s"
    and "sint timeout > 0 \<longrightarrow> timeout < RT_TICK_MAX div 2"
  shows "case dq_items q of
      x # xs \<Rightarrow> \<exists>q'. dq_ok q' \<and> dq_items q' = xs \<and>
        (if length xs \<le> unat (dq_lwm q)
         then \<exists>s'. rt_data_queue_pop d timeout notify (s, q) =
             map_option (Pair (Return (RT_EOK, Some x))) (dq_notify notify RT_DATAQUEUE_EVENT_LWM (s', q')) \<and>
           kernel_wf s' \<and> tlists s' (suspended_push_list d) = tl (tlists s (suspended_push_list d)) \<and>
           threads s' = first_ready (tlists s (suspended_push_list d)) (threads s)
         else rt_data_queue_pop d timeout notify (s, q) =
           map_option (Pair (Return (RT_EOK, Some x))) (dq_notify notify RT_DATAQUEUE_EVENT_POP (s, q')))
    | [] \<Rightarrow> if sint timeout = 0 then rt_data_queue_pop d timeout notify (s, q) = Some (Return (- RT_ETIMEOUT, None), s, q)
      else \<exists>s'. rt_data_queue_pop d timeout notify (s, q) = Some (Pending, s', q) \<and> kernel_wf s' \<and>
        tlists s' (suspended_pop_list d) = tlists s (suspended_pop_list d) @ [t] \<and> runs_highest s' \<and>
        (if sint timeout > 0 then ThreadTimer t \<in> set (rt_timer_list s') \<and> due_in s' (ThreadTimer t) = timeout
         else ThreadTimer t \<notin> set (rt_timer_list s'))"
proof (cases "dq_items q")
  case (Cons x xs)
  let ?q = "q\<lparr>get_index := get_index q + 1\<rparr>"
  note get = dq_get_items [OF assms(2) Cons] dq_slot_ok [OF assms(2)]
  have lwm: "dq_count ?q \<le> uint (dq_lwm q) \<longleftrightarrow> length xs \<le> unat (dq_lwm q)"
    using dq_room_iff(2) [OF get(2)] get(3) by simp
  obtain s' where "driver_wake (suspended_push_list d) s = Some s'" "kernel_wf s'"
    "tlists s' (suspended_push_list d) = tl (tlists s (suspended_push_list d))"
    "threads s' = first_ready (tlists s (suspended_push_list d)) (threads s)"
    using driver_wake_ends [OF assms(1) runnable_with [OF assms(8)] driver_waitq assms(7), of d 0] by auto
  then show ?thesis using get lwm unfolding Cons list.case
    by (intro exI [of _ ?q] conjI) (auto simp: rt_data_queue_pop_def dq_pop_loop_def map_conv_bind_option o_def)
next
  case Nil
  then have "get_index q = put_index q"
    using assms(2) by (auto simp: dq_items_def dq_ok_def word_le_nat_alt word_unat_eq_iff)
  moreover obtain s' where "driver_wait (suspended_pop_list d) t timeout s = Some s'" "kernel_wf s'"
    "tlists s' (suspended_pop_list d) = tlists s (suspended_pop_list d) @ [t]" "runs_highest s'"
    "if sint timeout > 0 then ThreadTimer t \<in> set (rt_timer_list s') \<and> due_in s' (ThreadTimer t) = timeout
     else ThreadTimer t \<notin> set (rt_timer_list s')"
    using driver_wait_ends [OF assms(1,3-8) _ assms(9), of "suspended_pop_list d"] by auto
  ultimately show ?thesis using Nil assms(3)
    by (simp add: rt_data_queue_pop_def dq_pop_loop_def rt_thread_self_def)
qed

text \<open>
  The queue loses its order when the put index wraps. Both indices are promoted to
  \<^verbatim>\<open>int\<close> before they are subtracted, so a full queue whose put index has passed
  65535 is not seen as full. When its size divides 65536, so that the slots are still used in turn after the wrap, a
  push, even one with no time to wait, succeeds, puts its item over the oldest one, and leaves one item more
  than there are slots.
\<close>

theorem dq_wrap_overwrites:
  assumes "put_index q < get_index q" "put_index q - get_index q = dq_size q"
    and "dq_size q \<noteq> 0" "unat (dq_size q) dvd 2 ^ 16" "length (dq_queue q) = unat (dq_size q)"
    and "tlists s (suspended_pop_list d) = []" "\<not> evt_notify q"
  shows "\<exists>q'. rt_data_queue_push d item 0 notify (s, q) = Some (Return RT_EOK, s, q') \<and>
    rt_data_queue_peak q' = Some (RT_EOK, Some item) \<and> put_index q' - get_index q' = dq_size q' + 1"
proof -
  let ?p = "unat (put_index q)" and ?g = "unat (get_index q)" and ?n = "unat (dq_size q)"
  have lt: "?p < ?g" using assms(1) by (simp add: word_less_nat_alt)
  have g: "?g < 2 ^ 16" using unsigned_less [of "get_index q", where 'a = nat] by simp
  have "unat (get_index q + dq_size q) = ?p" using assms(2) by (metis add.commute diff_add_cancel)
  then have "?p = (?g + ?n) mod 2 ^ 16" by (simp add: unat_word_ariths)
  then have "?p mod ?n = (?g + ?n) mod ?n" using assms(4) by (simp add: mod_mod_cancel)
  then have same: "?p mod ?n = ?g mod ?n" by simp
  have nf: "put_index q + 1 \<noteq> get_index q"
  proof
    assume "put_index q + 1 = get_index q"
    then have "dq_size q = - 1" using assms(2) by (metis add_diff_cancel_left' diff_add_cancel minus_diff_eq)
    moreover have "unat (- 1 :: u16) = 65535" by (simp add: unsigned_minus_1_eq_mask mask_eq_exp_minus_1)
    ultimately show False using assms(4) by simp
  qed
  have "dq_count q \<noteq> int ?n" using lt unfolding dq_count_def by linarith
  moreover have "dq_slot i q = Some (unat i mod ?n)" for i
    using assms(3,5) by (simp add: dq_slot_def unat_mod unat_gt_0)
  ultimately have "rt_data_queue_push d item 0 notify (s, q) =
      Some (Return RT_EOK, s, q\<lparr>dq_queue := (dq_queue q)[?g mod ?n := item], put_index := put_index q + 1\<rparr>)" (is "_ = Some (_, _, ?q)")
    using assms(6,7) same by (simp add: rt_data_queue_push_def dq_push_loop_def dq_notify_def)
  moreover have "rt_data_queue_peak ?q = Some (RT_EOK, Some item)"
    using assms(3,5) nf by (simp add: rt_data_queue_peak_def dq_slot_def unat_mod unat_gt_0)
  moreover have "put_index ?q - get_index ?q = dq_size ?q + 1"
    using assms(2) by (simp add: algebra_simps)
  ultimately show ?thesis by blast
qed

section \<open>Witnesses\<close>

text \<open>An empty queue of two items, one with a thread waiting to push to it, and one that has wrapped.\<close>

abbreviation "demo_item n \<equiv> \<lparr>data_ptr = n, data_size = 4\<rparr>"

abbreviation "demo_dq g p \<equiv> \<lparr>dq_size = 2, dq_lwm = 1, get_index = g, put_index = p,
  dq_queue = [demo_item 10, demo_item 20], evt_notify = False\<rparr>"

theorem dq_push_refines_witness:
  "\<exists>q'. rt_data_queue_push 0 (demo_item 30) 0 (\<lambda>_. Some) (demo, demo_dq 0 1) = Some (Return RT_EOK, demo, q') \<and>
     dq_items q' = [demo_item 10, demo_item 30]"
proof -
  have "dq_ok (demo_dq 0 1)" by (simp add: dq_ok_def)
  then show ?thesis
    using dq_push_refines [OF demo_wf, of "demo_dq 0 1" 1 "demo_thread 10 1" 0 "demo_item 30" 0 "\<lambda>_. Some"] demo_runnable(2)
    by (auto simp: dq_items_def dq_notify_def)
qed

theorem dq_pop_refines_witness:
  "\<exists>s' q'. rt_data_queue_pop 0 0 (\<lambda>_. Some) (demo_on (DriverQ 0 0) id, demo_dq 0 2) =
       Some (Return (RT_EOK, Some (demo_item 10)), s', q') \<and>
     dq_items q' = [demo_item 20] \<and> map_option stat_of (threads s' 2) = Some RT_THREAD_READY"
proof -
  let ?s = "demo_on (DriverQ 0 0) id"
  have wf: "kernel_wf ?s" by (rule demo_on_wf) simp_all
  have "threads ?s = threads demo" by auto
  then have run: "runnable_without 1 ?s"
    using demo_runnable(2) by (simp add: runnable_without_def stacks_ok_def del: demo_sel)
  have "dq_ok (demo_dq 0 2)" "dq_items (demo_dq 0 2) = [demo_item 10, demo_item 20]"
    by (simp_all add: dq_ok_def dq_items_def upt_rec)
  then show ?thesis
    using dq_pop_refines [OF wf, of "demo_dq 0 2" 1 "demo_thread 10 1" 0 0 "\<lambda>_. Some"] run
    by (auto simp: dq_notify_def first_ready_def)
qed

theorem dq_wrap_overwrites_witness:
  "\<exists>q'. rt_data_queue_push 0 (demo_item 30) 0 (\<lambda>_. Some) (demo, demo_dq 65534 0) = Some (Return RT_EOK, demo, q') \<and>
     rt_data_queue_peak q' = Some (RT_EOK, Some (demo_item 30)) \<and> put_index q' - get_index q' = dq_size q' + 1"
  using dq_wrap_overwrites [of "demo_dq 65534 0" demo 0 "demo_item 30" "\<lambda>_. Some"] by simp

end
