(* ===== verification/Completion.thy ===== *)
theory Completion
  imports DataQueue
begin

text \<open>
  Completions (\<^verbatim>\<open>components/drivers/src/completion.c\<close>): a flag and a list on which at
  most one thread waits, list 0 of structure \<open>c\<close>. The completion is kept beside the kernel state.
  \<^verbatim>\<open>rt_completion_wait\<close> is cut at \<^verbatim>\<open>rt_schedule\<close>.
\<close>

section \<open>The code\<close>

record rt_completion =
  compl_flag :: u32

type_synonym with_completion = "kernel \<times> rt_completion"

abbreviation (input) RT_COMPLETED :: u32 where "RT_COMPLETED \<equiv> 1"
abbreviation (input) RT_UNCOMPLETED :: u32 where "RT_UNCOMPLETED \<equiv> 0"

definition rt_completion_init :: "nat \<Rightarrow> with_completion \<Rightarrow> with_completion" where
  "rt_completion_init c sc =
     (let (s, cm) = sc in
      (s\<lparr>tlists := (tlists s)(DriverQ c 0 := [])\<rparr>, cm\<lparr>compl_flag := RT_UNCOMPLETED\<rparr>))"

definition rt_completion_wait :: "nat \<Rightarrow> u32 \<Rightarrow> with_completion \<Rightarrow> (rt_err outcome \<times> with_completion) option" where
  "rt_completion_wait c timeout sc =
     (let (s, cm) = sc in
      if compl_flag cm \<noteq> RT_COMPLETED
      then do { rt_assert (tlists s (DriverQ c 0) = []);
                if sint timeout = 0 then Some (Return (- RT_ETIMEOUT), s, cm)
                else do { t \<leftarrow> rt_thread_self s;
                          let s = upd_thread t (\<lambda>th. th\<lparr>thread_error := RT_EOK\<rparr>) s;
                          (_, s) \<leftarrow> rt_thread_suspend t s;
                          let s = s\<lparr>tlists := ls_insert_before (DriverQ c 0) t (tlists s)\<rparr>;
                          not_in_interrupt s;
                          s \<leftarrow> (if sint timeout > 0 then start_thread_timer t timeout s else Some s);
                          s \<leftarrow> rt_schedule s;
                          Some (Pending, s, cm) } }
      else Some (Return RT_EOK, s, cm\<lparr>compl_flag := RT_UNCOMPLETED\<rparr>))"

definition rt_completion_wait_resumed :: "tid \<Rightarrow> with_completion \<Rightarrow> (rt_err \<times> with_completion) option" where
  "rt_completion_wait_resumed t sc =
     (let (s, cm) = sc in
      do { th \<leftarrow> threads s t;
           Some (thread_error th, s, cm\<lparr>compl_flag := RT_UNCOMPLETED\<rparr>) })"

definition rt_completion_done :: "nat \<Rightarrow> with_completion \<Rightarrow> with_completion option" where
  "rt_completion_done c sc =
     (let (s, cm) = sc in
      if compl_flag cm = RT_COMPLETED then Some (s, cm)
      else let cm = cm\<lparr>compl_flag := RT_COMPLETED\<rparr> in
        case tlists s (DriverQ c 0) of
          [] \<Rightarrow> Some (s, cm)
        | t # _ \<Rightarrow> do { (_, s) \<leftarrow> rt_thread_resume t s;
                       s \<leftarrow> rt_schedule s;
                       Some (s, cm) })"

section \<open>Waiting\<close>

text \<open>The wait of a completion is the wait of the other drivers, with the context check made later.\<close>

lemma completion_wait_eq:
  assumes wf: "kernel_wf s" and t: "rt_current_thread s = Some t" "threads s t = Some th" "stat_of th = RT_THREAD_READY"
    and nc: "compl_flag cm \<noteq> RT_COMPLETED" "tlists s (DriverQ c 0) = []" "sint timeout \<noteq> 0" and irq: "rt_interrupt_nest s = 0"
  shows "rt_completion_wait c timeout (s, cm) = do { s' \<leftarrow> driver_wait (DriverQ c 0) t timeout s; Some (Pending, s', cm) }"
proof -
  let ?e = "upd_thread t (\<lambda>th. th\<lparr>thread_error := RT_EOK\<rparr>) s" and ?g = "th\<lparr>thread_error := RT_EOK\<rparr>"
  note e = upd_error_wf [OF wf t(2), of RT_EOK]
  have g: "threads ?e t = Some ?g" "stat_of ?g = RT_THREAD_READY" using e(2) t(3) by simp_all
  have "rt_thread_suspend t ?e = Some (RT_EOK, suspended t ?g ?e)" using rt_thread_suspend_eq [OF e(1) g(1)] g(2) by simp
  moreover have "rt_interrupt_nest ?e = 0" using same_restD(8) [OF e(6)] irq by simp
  moreover have "rt_interrupt_nest (suspended t ?g ?e) = rt_interrupt_nest ?e" by (simp add: suspended_def)
  ultimately show ?thesis using t nc irq
    by (simp add: Let_def rt_completion_wait_def driver_wait_def rt_thread_self_def not_in_interrupt_def Option.bind_assoc)
qed

section \<open>Properties\<close>

text \<open>
  Waiting for a completion on every branch: one that is complete is consumed at once; otherwise a
  caller with no time to wait gets \<^verbatim>\<open>-RT_ETIMEOUT\<close>, and one with time becomes the one
  thread that waits, its timer running for the time given.
\<close>

theorem completion_wait_branches:
  assumes "kernel_wf s" "rt_current_thread s = Some t" "threads s t = Some th" "stat_of th = RT_THREAD_READY"
    and "rt_interrupt_nest s = 0" "rt_scheduler_lock_nest s = 0" "runnable_without t s"
    and "sint timeout > 0 \<longrightarrow> timeout < RT_TICK_MAX div 2" "compl_flag cm = RT_COMPLETED \<or> tlists s (DriverQ c 0) = []"
  shows "if compl_flag cm = RT_COMPLETED
    then rt_completion_wait c timeout (s, cm) = Some (Return RT_EOK, s, cm\<lparr>compl_flag := RT_UNCOMPLETED\<rparr>)
    else if sint timeout = 0 then rt_completion_wait c timeout (s, cm) = Some (Return (- RT_ETIMEOUT), s, cm)
    else \<exists>s'. rt_completion_wait c timeout (s, cm) = Some (Pending, s', cm) \<and> kernel_wf s' \<and>
      tlists s' (DriverQ c 0) = [t] \<and> runs_highest s' \<and>
      (if sint timeout > 0 then ThreadTimer t \<in> set (rt_timer_list s') \<and> due_in s' (ThreadTimer t) = timeout
       else ThreadTimer t \<notin> set (rt_timer_list s'))"
proof (cases "compl_flag cm = RT_COMPLETED \<or> sint timeout = 0")
  case True
  then show ?thesis using assms(9) by (auto simp: rt_completion_wait_def)
next
  case False
  obtain s' where "driver_wait (DriverQ c 0) t timeout s = Some s'" "kernel_wf s'"
    "tlists s' (DriverQ c 0) = tlists s (DriverQ c 0) @ [t]" "runs_highest s'"
    "if sint timeout > 0 then ThreadTimer t \<in> set (rt_timer_list s') \<and> due_in s' (ThreadTimer t) = timeout
     else ThreadTimer t \<notin> set (rt_timer_list s')"
    by (rule driver_wait_ends [OF assms(1-7) driver_waitq assms(8)])
  moreover have "tlists s (DriverQ c 0) = []" using False assms(9) by simp
  ultimately show ?thesis using False completion_wait_eq [OF assms(1-4) _ _ _ assms(5)] by simp
qed

text \<open>
  (C38) A completion that nobody waits for is kept for the next waiter, and completing it again changes
  nothing; one that a thread waits for makes it ready, and the thread returns
  \<^verbatim>\<open>RT_EOK\<close> with the completion consumed.
\<close>

theorem completion_done_hands_over:
  assumes "kernel_wf s" "runnable s" "rt_scheduler_lock_nest s = 0" "compl_flag cm \<noteq> RT_COMPLETED"
  shows "\<exists>s' cm'. rt_completion_done c (s, cm) = Some (s', cm') \<and> compl_flag cm' = RT_COMPLETED \<and> kernel_wf s' \<and>
    rt_completion_done c (s', cm') = Some (s', cm') \<and>
    (case tlists s (DriverQ c 0) of
       [] \<Rightarrow> s' = s
     | t # ts \<Rightarrow> tlists s' (DriverQ c 0) = ts \<and> runs_highest s' \<and>
         threads s' = (threads s)(t := map_option (set_stat RT_THREAD_READY) (threads s t)) \<and>
         (\<forall>th. threads s t = Some th \<longrightarrow>
            rt_completion_wait_resumed t (s', cm') = Some (thread_error th, s', cm'\<lparr>compl_flag := RT_UNCOMPLETED\<rparr>)))"
proof -
  obtain s' where s': "driver_wake (DriverQ c 0) s = Some s'" "kernel_wf s'"
    "tlists s' (DriverQ c 0) = tl (tlists s (DriverQ c 0))"
    "threads s' = first_ready (tlists s (DriverQ c 0)) (threads s)" "tlists s (DriverQ c 0) \<noteq> [] \<longrightarrow> runs_highest s'"
    by (rule driver_wake_ends [OF assms(1,2) driver_waitq assms(3)])
  have "rt_completion_done c (s, cm) = Some (s', cm\<lparr>compl_flag := RT_COMPLETED\<rparr>)"
    using s'(1) assms(4)
    by (cases "tlists s (DriverQ c 0)") (simp_all add: rt_completion_done_def driver_wake_def bind_Some_iff split_def)
  moreover have "rt_completion_done c (s', cm\<lparr>compl_flag := RT_COMPLETED\<rparr>) = Some (s', cm\<lparr>compl_flag := RT_COMPLETED\<rparr>)"
    by (simp add: rt_completion_done_def)
  moreover have "tlists s (DriverQ c 0) = [] \<longrightarrow> s' = s" using s'(1) by (auto simp: driver_wake_def)
  ultimately show ?thesis using s'(2-5)
    by (auto simp: first_ready_def rt_completion_wait_resumed_def set_stat_def split: list.split)
qed

text \<open>
  A completion is lost when it comes between the timeout of the thread that waits and the moment that
  thread runs again: the thread is no longer on the list, so the completion is only noted in the flag,
  and the waiter, which returns \<^verbatim>\<open>-RT_ETIMEOUT\<close>, clears it on its way out.
\<close>

theorem completion_late_done_lost:
  assumes wf: "kernel_wf s" and q: "tlists s (DriverQ c 0) = [t]" and run: "runnable s" and nc: "compl_flag cm \<noteq> RT_COMPLETED"
  shows "\<exists>s' cm' cm''. rt_thread_timeout t (rt_timer_remove (ThreadTimer t) s) = Some s' \<and> kernel_wf s' \<and>
    rt_completion_done c (s', cm) = Some (s', cm') \<and> compl_flag cm' = RT_COMPLETED \<and>
    rt_completion_wait_resumed t (s', cm') = Some (- RT_ETIMEOUT, s', cm'') \<and> compl_flag cm'' = RT_UNCOMPLETED"
proof -
  let ?r = "rt_timer_remove (ThreadTimer t) s"
  obtain th where th: "threads s t = Some th" "stat_of th = RT_THREAD_SUSPEND"
    using waitq_member [OF kernel_wfD(1) [OF wf] driver_waitq, of t c 0] q by auto
  have so: "stacks_ok ?r" using run by (simp add: runnable_def stacks_ok_def)
  obtain s' where s': "rt_thread_timeout t ?r = Some s'" "kernel_wf s'"
    "threads s' = (threads ?r)(t \<mapsto> set_stat RT_THREAD_READY (th\<lparr>thread_error := - RT_ETIMEOUT\<rparr>))"
    "tlists s' = ls_insert_before (Ready (unat (current_priority th))) t (ls_remove t (tlists ?r))"
    using rt_thread_timeout_readies [OF remove_wf [OF wf], of "ThreadTimer t" t th] th so by auto
  have "tlists s' (DriverQ c 0) = []" using s'(4) q by (simp add: ls_insert_before_def ls_remove_def)
  then show ?thesis using s'(1-3) nc by (simp add: rt_completion_done_def rt_completion_wait_resumed_def)
qed

section \<open>Witnesses\<close>

text \<open>On the sample state nobody waits; on \<open>demo_waits\<close> thread 2 waits on structure 0.\<close>

definition demo_waits :: kernel where
  "demo_waits = demo_on (DriverQ 0 0) id"

lemma demo_waits_ok: "kernel_wf demo_waits" "runnable demo_waits" "rt_scheduler_lock_nest demo_waits = 0"
    "tlists demo_waits (DriverQ 0 0) = [2]"
  unfolding demo_waits_def by (simp_all add: demo_on_wf)

theorem completion_wait_branches_witness:
  "\<exists>s'. rt_completion_wait 0 5 (demo, \<lparr>compl_flag = RT_UNCOMPLETED\<rparr>) = Some (Pending, s', \<lparr>compl_flag = RT_UNCOMPLETED\<rparr>) \<and>
     tlists s' (DriverQ 0 0) = [1] \<and> due_in s' (ThreadTimer 1) = 5"
  using completion_wait_branches [OF demo_wf, of 1 "demo_thread 10 1" 5 "\<lparr>compl_flag = RT_UNCOMPLETED\<rparr>" 0] demo_runnable(2)
  by auto

theorem completion_done_hands_over_witness:
  "\<exists>s' cm'. rt_completion_done 0 (demo_waits, \<lparr>compl_flag = RT_UNCOMPLETED\<rparr>) = Some (s', cm') \<and>
     tlists s' (DriverQ 0 0) = [] \<and> runs_highest s'"
  using completion_done_hands_over [OF demo_waits_ok(1-3), of "\<lparr>compl_flag = RT_UNCOMPLETED\<rparr>" 0] demo_waits_ok(4) by auto

theorem completion_late_done_lost_witness:
  "\<exists>s' cm'. rt_completion_done 0 (s', \<lparr>compl_flag = RT_UNCOMPLETED\<rparr>) = Some (s', cm') \<and>
     (\<exists>cm''. rt_completion_wait_resumed 2 (s', cm') = Some (- RT_ETIMEOUT, s', cm''))"
  using completion_late_done_lost [OF demo_waits_ok(1,4,2), of "\<lparr>compl_flag = RT_UNCOMPLETED\<rparr>"] by auto

end
