(* ===== verification/MsgQueue.thy ===== *)
theory MsgQueue
  imports Mailbox
begin

text \<open>
  Message queues (\<^verbatim>\<open>rt_mq_*\<close> of \<^verbatim>\<open>src/ipc.c\<close>). The pool is divided
  into slots of one \<^verbatim>\<open>struct rt_mq_message\<close> and \<^verbatim>\<open>msg_size\<close> bytes; a
  slot is on the free list, on the message list, or in the hands of a sender or receiver that
  copies its bytes with interrupts enabled. The sections of the code that run with interrupts
  disabled are definitions of their own: \<open>mq_link_tail\<close>, \<open>mq_link_head\<close>,
  \<open>mq_unlink\<close>, \<open>mq_give\<close>.
\<close>

section \<open>The code\<close>

subsection \<open>The lists of slots\<close>

definition mq_give :: "nat \<Rightarrow> rt_messagequeue \<Rightarrow> rt_messagequeue" where
  "mq_give msg q = q\<lparr>mq_next := (mq_next q)(msg := msg_queue_free q), msg_queue_free := Some msg\<rparr>"

fun mq_init_free :: "nat \<Rightarrow> rt_messagequeue \<Rightarrow> rt_messagequeue" where
  "mq_init_free 0 q = q\<lparr>msg_queue_free := None\<rparr>"
| "mq_init_free (Suc temp) q = mq_give temp (mq_init_free temp q)"

text \<open>The head of the free list leaves it; an empty one means the queue is full.\<close>

definition mq_take :: "rt_messagequeue \<Rightarrow> (nat \<times> rt_messagequeue) option" where
  "mq_take q = map_option (\<lambda>msg. (msg, q\<lparr>msg_queue_free := mq_next q msg\<rparr>)) (msg_queue_free q)"

definition mq_copy :: "nat \<Rightarrow> u8 list \<Rightarrow> rt_messagequeue \<Rightarrow> rt_messagequeue" where
  "mq_copy msg bytes q = q\<lparr>mq_data := (mq_data q)(msg := bytes @ drop (length bytes) (mq_data q msg))\<rparr>"

definition mq_clear_next :: "nat \<Rightarrow> rt_messagequeue \<Rightarrow> rt_messagequeue" where
  "mq_clear_next msg q = q\<lparr>mq_next := (mq_next q)(msg := None)\<rparr>"

definition mq_link_tail :: "nat \<Rightarrow> rt_messagequeue \<Rightarrow> rt_messagequeue" where
  "mq_link_tail msg q =
     (let q = (case msg_queue_tail q of Some t \<Rightarrow> q\<lparr>mq_next := (mq_next q)(t \<mapsto> msg)\<rparr> | None \<Rightarrow> q);
          q = q\<lparr>msg_queue_tail := Some msg\<rparr>;
          q = (if msg_queue_head q = None then q\<lparr>msg_queue_head := Some msg\<rparr> else q)
      in q\<lparr>mq_entry := mq_entry q + 1\<rparr>)"

definition mq_link_head :: "nat \<Rightarrow> rt_messagequeue \<Rightarrow> rt_messagequeue" where
  "mq_link_head msg q =
     (let q = q\<lparr>mq_next := (mq_next q)(msg := msg_queue_head q), msg_queue_head := Some msg\<rparr>;
          q = (if msg_queue_tail q = None then q\<lparr>msg_queue_tail := Some msg\<rparr> else q)
      in q\<lparr>mq_entry := mq_entry q + 1\<rparr>)"

definition mq_unlink :: "rt_messagequeue \<Rightarrow> (nat \<times> rt_messagequeue) option" where
  "mq_unlink q =
     do { msg \<leftarrow> msg_queue_head q;
          let q = q\<lparr>msg_queue_head := mq_next q msg\<rparr>;
          let q = (if msg_queue_tail q = Some msg then q\<lparr>msg_queue_tail := None\<rparr> else q);
          Some (msg, q\<lparr>mq_entry := mq_entry q - 1\<rparr>) }"

text \<open>Sending and receiving, the copies included.\<close>

definition mq_put :: "u8 list \<Rightarrow> rt_messagequeue \<Rightarrow> rt_messagequeue option" where
  "mq_put bytes q =
     do { (msg, q) \<leftarrow> mq_take q;
          Some (mq_link_tail msg (mq_copy msg bytes (mq_clear_next msg q))) }"

definition mq_put_urgent :: "u8 list \<Rightarrow> rt_messagequeue \<Rightarrow> rt_messagequeue option" where
  "mq_put_urgent bytes q =
     do { (msg, q) \<leftarrow> mq_take q;
          Some (mq_link_head msg (mq_copy msg bytes q)) }"

definition mq_get :: "rt_messagequeue \<Rightarrow> (u8 list \<times> rt_messagequeue) option" where
  "mq_get q =
     do { (msg, q) \<leftarrow> mq_unlink q;
          Some (mq_data q msg, mq_give msg q) }"

partial_function (option) mq_release_all :: "rt_messagequeue \<Rightarrow> rt_messagequeue option" where
  "mq_release_all q =
     (case msg_queue_head q of
        None \<Rightarrow> Some q
      | Some msg \<Rightarrow>
          (let q = q\<lparr>msg_queue_head := mq_next q msg\<rparr>;
               q = (if msg_queue_tail q = Some msg then q\<lparr>msg_queue_tail := None\<rparr> else q)
           in mq_release_all (mq_give msg q)))"

subsection \<open>The operations\<close>

text \<open>The slots of a fresh pool hold the bytes \<open>pool\<close>; the lists are empty, all slots free.\<close>

definition fresh_mq :: "u16 \<Rightarrow> u16 \<Rightarrow> (nat \<Rightarrow> u8 list) \<Rightarrow> rt_messagequeue" where
  "fresh_mq size_of maxm pool = mq_init_free (unat maxm)
     \<lparr>msg_size = size_of, max_msgs = maxm, mq_entry = 0, msg_queue_head = None, msg_queue_tail = None,
      msg_queue_free = None, mq_next = (\<lambda>_. None), mq_data = pool\<rparr>"

definition rt_mq_init :: "nat \<Rightarrow> cbuf \<Rightarrow> (nat \<Rightarrow> u8 list) \<Rightarrow> u32 \<Rightarrow> u32 \<Rightarrow> u8 \<Rightarrow> kernel \<Rightarrow> (rt_err \<times> kernel) option" where
  "rt_mq_init mq name msgpool size_of pool_size flag s =
     do { s \<leftarrow> rt_object_init (OMsgQueue mq) RT_Object_Class_MessageQueue name s;
          let s = set_ipc_flag (OMsgQueue mq) flag s;
          let s = rt_ipc_object_init (OMsgQueue mq) s;
          let msize = (ucast (RT_ALIGN size_of 4) :: u16);
          let maxm = (ucast (pool_size div (ucast msize + 4)) :: u16);
          Some (RT_EOK, s\<lparr>msgqueues := (msgqueues s)(mq \<mapsto> fresh_mq msize maxm msgpool)\<rparr>) }"

definition rt_mq_detach :: "nat \<Rightarrow> kernel \<Rightarrow> (rt_err \<times> kernel) option" where
  "rt_mq_detach mq s =
     do { check_type s (OMsgQueue mq) RT_Object_Class_MessageQueue;
          sys \<leftarrow> rt_object_is_systemobject s (OMsgQueue mq);
          rt_assert sys;
          (_, s) \<leftarrow> rt_ipc_list_resume_all (SuspendQ (OMsgQueue mq)) s;
          s \<leftarrow> rt_object_detach (OMsgQueue mq) s;
          Some (RT_EOK, s) }"

definition rt_mq_delete :: "nat \<Rightarrow> kernel \<Rightarrow> (rt_err \<times> kernel) option" where
  "rt_mq_delete mq s =
     do { not_in_interrupt s;
          check_type s (OMsgQueue mq) RT_Object_Class_MessageQueue;
          sys \<leftarrow> rt_object_is_systemobject s (OMsgQueue mq);
          rt_assert (\<not> sys);
          (_, s) \<leftarrow> rt_ipc_list_resume_all (SuspendQ (OMsgQueue mq)) s;
          s \<leftarrow> rt_object_delete (OMsgQueue mq) s;
          Some (RT_EOK, s\<lparr>msgqueues := (msgqueues s)(mq := None)\<rparr>) }"

text \<open>\<open>pool\<close> is what \<^verbatim>\<open>RT_KERNEL_MALLOC\<close> gives for the slots.\<close>

definition rt_mq_create ::
    "cbuf \<Rightarrow> u32 \<Rightarrow> u32 \<Rightarrow> u8 \<Rightarrow> nat option \<Rightarrow> (nat \<Rightarrow> u8 list) option \<Rightarrow> kernel \<Rightarrow> (nat option \<times> kernel) option" where
  "rt_mq_create name size_of maxm flag mem pool s =
     do { not_in_interrupt s;
          (r, s) \<leftarrow> rt_object_allocate RT_Object_Class_MessageQueue name (map_option OMsgQueue mem) s;
          case (r, mem) of
            (Some _, Some mq) \<Rightarrow>
              do { let s = set_ipc_flag (OMsgQueue mq) flag s;
                   let s = rt_ipc_object_init (OMsgQueue mq) s;
                   case pool of
                     None \<Rightarrow> do { (_, s) \<leftarrow> rt_mq_delete mq s; Some (None, s) }
                   | Some msgpool \<Rightarrow>
                       Some (Some mq, s\<lparr>msgqueues := (msgqueues s)(mq \<mapsto>
                         fresh_mq (ucast (RT_ALIGN size_of 4)) (ucast maxm) msgpool)\<rparr>) }
          | _ \<Rightarrow> Some (None, s) }"

text \<open>\<open>buffer\<close> is what the pointer points to, \<open>None\<close> for a null pointer.\<close>

definition rt_mq_send :: "nat \<Rightarrow> u8 list option \<Rightarrow> u32 \<Rightarrow> kernel \<Rightarrow> (rt_err \<times> kernel) option" where
  "rt_mq_send mq buffer sz s =
     do { check_type s (OMsgQueue mq) RT_Object_Class_MessageQueue;
          bytes \<leftarrow> buffer;
          rt_assert (sz \<noteq> 0);
          q \<leftarrow> msgqueues s mq;
          if sz > ucast (msg_size q) then Some (- RT_ERROR, s)
          else if msg_queue_free q = None then Some (- RT_EFULL, s)
          else do { rt_assert (unat sz \<le> length bytes);
                    q \<leftarrow> mq_put (take (unat sz) bytes) q;
                    let s = s\<lparr>msgqueues := (msgqueues s)(mq \<mapsto> q)\<rparr>;
                    s \<leftarrow> wake_first (SuspendQ (OMsgQueue mq)) s;
                    Some (RT_EOK, s) } }"

definition rt_mq_urgent :: "nat \<Rightarrow> u8 list option \<Rightarrow> u32 \<Rightarrow> kernel \<Rightarrow> (rt_err \<times> kernel) option" where
  "rt_mq_urgent mq buffer sz s =
     do { check_type s (OMsgQueue mq) RT_Object_Class_MessageQueue;
          bytes \<leftarrow> buffer;
          rt_assert (sz \<noteq> 0);
          q \<leftarrow> msgqueues s mq;
          if sz > ucast (msg_size q) then Some (- RT_ERROR, s)
          else if msg_queue_free q = None then Some (- RT_EFULL, s)
          else do { rt_assert (unat sz \<le> length bytes);
                    q \<leftarrow> mq_put_urgent (take (unat sz) bytes) q;
                    let s = s\<lparr>msgqueues := (msgqueues s)(mq \<mapsto> q)\<rparr>;
                    s \<leftarrow> wake_first (SuspendQ (OMsgQueue mq)) s;
                    Some (RT_EOK, s) } }"

text \<open>The receive loop gives the bytes that are stored at \<^verbatim>\<open>buffer\<close>.\<close>

definition mq_recv_loop ::
    "nat \<Rightarrow> u32 \<Rightarrow> u32 \<Rightarrow> u32 \<Rightarrow> tid option \<Rightarrow> kernel \<Rightarrow> ((rt_err \<times> u8 list) blocking \<times> kernel) option" where
  "mq_recv_loop mq sz timeout tick_delta thread s =
     do { q \<leftarrow> msgqueues s mq;
          if mq_entry q = 0
          then do { in_thread_context s;
                    t \<leftarrow> thread;
                    let s = upd_thread t (\<lambda>th. th\<lparr>thread_error := RT_EOK\<rparr>) s;
                    if sint timeout = 0
                    then Some (Done (- RT_ETIMEOUT, []), upd_thread t (\<lambda>th. th\<lparr>thread_error := - RT_ETIMEOUT\<rparr>) s)
                    else do { x \<leftarrow> objects s (OMsgQueue mq);
                              let tick = (if sint timeout > 0 then rt_tick s else tick_delta);
                              s \<leftarrow> wait_on (SuspendQ (OMsgQueue mq)) t (obj_flag x) timeout s;
                              Some (Waiting timeout tick, s) } }
          else do { (bytes, q) \<leftarrow> mq_get q;
                    let n = (if sz > ucast (msg_size q) then ucast (msg_size q) else sz);
                    Some (Done (RT_EOK, take (unat n) bytes), s\<lparr>msgqueues := (msgqueues s)(mq \<mapsto> q)\<rparr>) } }"

definition rt_mq_recv ::
    "nat \<Rightarrow> bool \<Rightarrow> u32 \<Rightarrow> u32 \<Rightarrow> kernel \<Rightarrow> ((rt_err \<times> u8 list) blocking \<times> kernel) option" where
  "rt_mq_recv mq buffer sz timeout s =
     do { check_type s (OMsgQueue mq) RT_Object_Class_MessageQueue;
          rt_assert buffer;
          rt_assert (sz \<noteq> 0);
          q \<leftarrow> msgqueues s mq;
          if mq_entry q = 0 \<and> sint timeout = 0 then Some (Done (- RT_ETIMEOUT, []), s)
          else mq_recv_loop mq sz timeout 0 (rt_thread_self s) s }"

definition rt_mq_recv_resumed ::
    "nat \<Rightarrow> u32 \<Rightarrow> u32 \<Rightarrow> u32 \<Rightarrow> tid \<Rightarrow> kernel \<Rightarrow> ((rt_err \<times> u8 list) blocking \<times> kernel) option" where
  "rt_mq_recv_resumed mq sz timeout tick_delta t s =
     do { th \<leftarrow> threads s t;
          if thread_error th \<noteq> RT_EOK then Some (Done (thread_error th, []), s)
          else mq_recv_loop mq sz (wait_left timeout tick_delta s)
                 (if sint timeout > 0 then rt_tick s - tick_delta else tick_delta) (Some t) s }"

definition rt_mq_control :: "nat \<Rightarrow> int \<Rightarrow> kernel \<Rightarrow> (rt_err \<times> kernel) option" where
  "rt_mq_control mq cmd s =
     do { check_type s (OMsgQueue mq) RT_Object_Class_MessageQueue;
          if cmd = RT_IPC_CMD_RESET
          then do { (_, s) \<leftarrow> rt_ipc_list_resume_all (SuspendQ (OMsgQueue mq)) s;
                    q \<leftarrow> msgqueues s mq;
                    q \<leftarrow> mq_release_all q;
                    let s = s\<lparr>msgqueues := (msgqueues s)(mq \<mapsto> q\<lparr>mq_entry := 0\<rparr>)\<rparr>;
                    s \<leftarrow> rt_schedule s;
                    Some (RT_EOK, s) }
          else Some (- RT_ERROR, s) }"

section \<open>Slots\<close>

text \<open>A chain of slots through their \<^verbatim>\<open>next\<close> pointers, and the slots it visits.\<close>

fun chain :: "(nat \<Rightarrow> nat option) \<Rightarrow> nat option \<Rightarrow> nat list \<Rightarrow> bool" where
  "chain nx p [] \<longleftrightarrow> p = None"
| "chain nx p (x # xs) \<longleftrightarrow> p = Some x \<and> chain nx (nx x) xs"

fun follow :: "nat \<Rightarrow> (nat \<Rightarrow> nat option) \<Rightarrow> nat option \<Rightarrow> nat list" where
  "follow 0 nx p = []"
| "follow (Suc n) nx p = (case p of None \<Rightarrow> [] | Some x \<Rightarrow> x # follow n nx (nx x))"

lemma chain_follow: "chain nx p xs \<Longrightarrow> length xs \<le> n \<Longrightarrow> follow n nx p = xs"
proof (induction n arbitrary: p xs)
  case (Suc n)
  then show ?case by (cases xs) auto
qed simp

lemma chain_upd [simp]: "y \<notin> set xs \<Longrightarrow> chain (nx(y := v)) p xs = chain nx p xs"
  by (induction xs arbitrary: p) auto

lemma chain_snoc:
  "\<lbrakk>chain nx p (xs @ [x]); y \<notin> set (xs @ [x]); distinct (xs @ [x])\<rbrakk> \<Longrightarrow>
   chain (nx(y := None, x \<mapsto> y)) p (xs @ [x, y])"
  by (induction xs arbitrary: p) auto

text \<open>
  The slots in order: \<open>q\<close> the message list, \<open>f\<close> the free list, \<open>held\<close> those being copied;
  every slot is in exactly one place.
\<close>

definition slots :: "rt_messagequeue \<Rightarrow> nat list \<Rightarrow> nat list \<Rightarrow> nat list \<Rightarrow> bool" where
  "slots m q f held \<longleftrightarrow>
     chain (mq_next m) (msg_queue_head m) q \<and> chain (mq_next m) (msg_queue_free m) f \<and>
     msg_queue_tail m = (if q = [] then None else Some (last q)) \<and>
     unat (mq_entry m) = length q \<and> distinct (q @ f @ held) \<and> set (q @ f @ held) = {..<unat (max_msgs m)} \<and>
     (\<forall>i < unat (max_msgs m). length (mq_data m i) = unat (msg_size m))"

lemma slots_count:
  assumes "slots m q f held"
  shows "length q + length f + length held = unat (max_msgs m)"
proof -
  have "length (q @ f @ held) = card {..<unat (max_msgs m)}"
    using assms distinct_card [of "q @ f @ held"] unfolding slots_def by metis
  then show ?thesis by simp
qed

text \<open>The message list as a value: the bytes of its slots.\<close>

definition messages :: "rt_messagequeue \<Rightarrow> u8 list list" where
  "messages m = map (mq_data m) (follow (unat (max_msgs m)) (mq_next m) (msg_queue_head m))"

lemma messages_slots: "slots m q f held \<Longrightarrow> messages m = map (mq_data m) q"
  using slots_count [of m q f held] chain_follow [of "mq_next m" "msg_queue_head m" q "unat (max_msgs m)"]
  by (simp add: messages_def slots_def)

text \<open>Each section of the code moves one slot.\<close>

lemma slots_take:
  assumes "slots m q (msg # f) held"
  shows "mq_take m = Some (msg, m\<lparr>msg_queue_free := mq_next m msg\<rparr>)"
    and "slots (m\<lparr>msg_queue_free := mq_next m msg\<rparr>) q f (msg # held)"
  using assms by (auto simp: slots_def mq_take_def)

lemma slots_full: "slots m q [] held \<Longrightarrow> mq_take m = None"
  by (simp add: slots_def mq_take_def)

lemma slots_held:
  assumes "slots m q f held" "msg \<in> set held"
  shows "msg \<notin> set q" "msg \<notin> set f" "distinct held" "msg < unat (max_msgs m)"
    "set (remove1 msg held) = set held - {msg}"
proof -
  show "msg < unat (max_msgs m)" using assms unfolding slots_def by (metis UnCI lessThan_iff set_append)
qed (use assms in \<open>auto simp: slots_def\<close>)

lemma slots_clear:
  "\<lbrakk>slots m q f held; msg \<in> set held\<rbrakk> \<Longrightarrow> slots (mq_clear_next msg m) q f held"
  using slots_held [of m q f held msg] by (simp add: slots_def mq_clear_next_def)

lemma slots_copy:
  "\<lbrakk>slots m q f held; msg \<in> set held; length bytes \<le> unat (msg_size m)\<rbrakk> \<Longrightarrow> slots (mq_copy msg bytes m) q f held"
  using slots_held [of m q f held msg] by (auto simp: slots_def mq_copy_def)

lemma count_up: "length q < unat (max_msgs m) \<Longrightarrow> unat (mq_entry m) = length q \<Longrightarrow>
   unat (mq_entry m + 1) = Suc (length q)"
  using unsigned_less [of "max_msgs m", where 'a = nat] by (simp add: unat_word_ariths)

lemma slots_link_tail:
  assumes s: "slots m q f held" and msg: "msg \<in> set held" "mq_next m msg = None"
  shows "slots (mq_link_tail msg m) (q @ [msg]) f (remove1 msg held)"
proof -
  have lt: "length q < unat (max_msgs m)" using slots_count [OF s] msg(1) by (cases held) auto
  note nin = slots_held [OF s msg(1)]
  have hd: "msg_queue_head m = None \<longleftrightarrow> q = []" using s by (cases q) (auto simp: slots_def)
  show ?thesis
  proof (cases q rule: rev_cases)
    case Nil
    then show ?thesis
      using s msg nin hd count_up [OF lt] by (auto simp: slots_def mq_link_tail_def Let_def)
  next
    case (snoc xs x)
    have c: "chain ((mq_next m)(msg := None, x \<mapsto> msg)) (msg_queue_head m) (xs @ [x, msg])"
      by (rule chain_snoc) (use s nin snoc in \<open>auto simp: slots_def\<close>)
    have e: "(mq_next m)(msg := None, x \<mapsto> msg) = (mq_next m)(x \<mapsto> msg)" using msg(2) by auto
    show ?thesis
      using s msg nin hd snoc c e count_up [OF lt] by (auto simp: slots_def mq_link_tail_def Let_def)
  qed
qed

lemma slots_link_head:
  assumes s: "slots m q f held" and msg: "msg \<in> set held"
  shows "slots (mq_link_head msg m) (msg # q) f (remove1 msg held)"
proof -
  have lt: "length q < unat (max_msgs m)" using slots_count [OF s] msg(1) by (cases held) auto
  note nin = slots_held [OF s msg(1)]
  show ?thesis
    using s msg nin count_up [OF lt] by (auto simp: slots_def mq_link_head_def Let_def)
qed

lemma slots_unlink:
  assumes s: "slots m (msg # q) f held"
  shows "\<exists>m'. mq_unlink m = Some (msg, m') \<and> slots m' q f (msg # held) \<and> mq_data m' = mq_data m \<and>
    max_msgs m' = max_msgs m \<and> msg_size m' = msg_size m"
proof -
  have e: "unat (mq_entry m - 1) = length q"
    using s by (simp add: slots_def unat_minus_one unat_gt_0 [symmetric] del: unat_gt_0)
  have l: "last (msg # q) = msg \<longleftrightarrow> q = []" using s by (auto simp: slots_def)
  show ?thesis
    using s e l by (auto simp: slots_def mq_unlink_def Let_def)
qed

lemma slots_give:
  assumes s: "slots m q f held" and msg: "msg \<in> set held"
  shows "slots (mq_give msg m) q (msg # f) (remove1 msg held)"
proof -
  note nin = slots_held [OF s msg(1)]
  show ?thesis using s msg nin by (auto simp: slots_def mq_give_def)
qed

lemma mq_init_free_sel [simp]:
  "max_msgs (mq_init_free n m) = max_msgs m" "msg_size (mq_init_free n m) = msg_size m"
  "msg_queue_head (mq_init_free n m) = msg_queue_head m" "msg_queue_tail (mq_init_free n m) = msg_queue_tail m"
  "mq_entry (mq_init_free n m) = mq_entry m" "mq_data (mq_init_free n m) = mq_data m"
  by (induction n) (simp_all add: mq_give_def)

lemma mq_init_free_chain: "chain (mq_next (mq_init_free n m)) (msg_queue_free (mq_init_free n m)) (rev [0..<n])"
  by (induction n) (simp_all add: mq_give_def del: fun_upd_apply, simp)

lemma fresh_slots:
  assumes "\<forall>i < unat maxm. length (pool i) = unat size_of"
  shows "slots (fresh_mq size_of maxm pool) [] (rev [0..<unat maxm]) []"
  using assms mq_init_free_chain by (simp add: slots_def fresh_mq_def atLeast0LessThan)

section \<open>The queue\<close>

definition mq_inv :: "rt_messagequeue \<Rightarrow> bool" where
  "mq_inv m \<longleftrightarrow> (\<exists>q f. slots m q f [])"

lemma mq_invE:
  assumes "mq_inv m"
  obtains q f where "slots m q f []" "messages m = map (mq_data m) q" "unat (mq_entry m) = length q"
    "length q + length f = unat (max_msgs m)" "msg_queue_free m = None \<longleftrightarrow> length q = unat (max_msgs m)"
proof -
  obtain q f where s: "slots m q f []" using assms by (auto simp: mq_inv_def)
  have n: "length q + length f = unat (max_msgs m)" using slots_count [OF s] by simp
  have "msg_queue_free m = None \<longleftrightarrow> f = []" using s by (cases f) (auto simp: slots_def)
  moreover have "f = [] \<longleftrightarrow> length q = unat (max_msgs m)" using n by auto
  moreover have "unat (mq_entry m) = length q" using s by (simp add: slots_def)
  ultimately show thesis using that [OF s messages_slots [OF s]] n by simp
qed

text \<open>A message behind the others, or in front of them; the bytes beyond its end are what the slot held.\<close>

definition stored :: "u8 list \<Rightarrow> u8 list \<Rightarrow> bool" where
  "stored bytes slot \<longleftrightarrow> take (length bytes) slot = bytes"

lemma mq_link_sel [simp]:
  "mq_data (mq_link_tail msg m) = mq_data m" "mq_data (mq_link_head msg m) = mq_data m"
  "max_msgs (mq_link_tail msg m) = max_msgs m" "max_msgs (mq_link_head msg m) = max_msgs m"
  "msg_size (mq_link_tail msg m) = msg_size m" "msg_size (mq_link_head msg m) = msg_size m"
  by (simp_all add: mq_link_tail_def mq_link_head_def Let_def split: option.split)

lemma mq_copy_sel [simp]:
  "mq_data (mq_copy msg b m) = (mq_data m)(msg := b @ drop (length b) (mq_data m msg))"
  "max_msgs (mq_copy msg b m) = max_msgs m" "msg_size (mq_copy msg b m) = msg_size m"
  "mq_next (mq_copy msg b m) = mq_next m"
  "mq_data (mq_clear_next msg m) = mq_data m" "max_msgs (mq_clear_next msg m) = max_msgs m"
  "msg_size (mq_clear_next msg m) = msg_size m" "mq_next (mq_clear_next msg m) msg = None"
  by (simp_all add: mq_copy_def mq_clear_next_def)

lemma mq_put_ok:
  assumes inv: "mq_inv m" and room: "length (messages m) < unat (max_msgs m)" and b: "length bytes \<le> unat (msg_size m)"
  shows "\<exists>m' slot. mq_put bytes m = Some m' \<and> mq_inv m' \<and> messages m' = messages m @ [slot] \<and>
      stored bytes slot \<and> length slot = unat (msg_size m) \<and> max_msgs m' = max_msgs m \<and> msg_size m' = msg_size m"
    and "\<exists>m' slot. mq_put_urgent bytes m = Some m' \<and> mq_inv m' \<and> messages m' = slot # messages m \<and>
      stored bytes slot \<and> length slot = unat (msg_size m) \<and> max_msgs m' = max_msgs m \<and> msg_size m' = msg_size m"
proof -
  obtain q f where s: "slots m q f []" "messages m = map (mq_data m) q" "length q + length f = unat (max_msgs m)"
    using inv by (rule mq_invE)
  obtain msg g where f: "f = msg # g" using room s(2,3) by (cases f) auto
  let ?t = "m\<lparr>msg_queue_free := mq_next m msg\<rparr>"
  have tk: "mq_take m = Some (msg, ?t)" and ts: "slots ?t q g [msg]"
    using slots_take [of m q msg g "[]"] s(1) f by simp_all
  have nin: "msg \<notin> set q" and lt: "msg < unat (max_msgs m)" using slots_held [OF ts, of msg] by simp_all
  define slot where "slot = bytes @ drop (length bytes) (mq_data m msg)"
  have sl: "stored bytes slot" "length slot = unat (msg_size m)"
    using s(1) lt b by (simp_all add: slot_def stored_def slots_def)
  let ?a = "mq_link_tail msg (mq_copy msg bytes (mq_clear_next msg ?t))"
  have "slots (mq_copy msg bytes (mq_clear_next msg ?t)) q g [msg]"
    by (rule slots_copy [OF slots_clear [OF ts]]) (use b in simp_all)
  from slots_link_tail [OF this, of msg] have a: "slots ?a (q @ [msg]) g []" by simp
  have "messages ?a = messages m @ [slot]"
    unfolding messages_slots [OF a] s(2) using nin by (simp add: slot_def)
  then show "\<exists>m' slot. mq_put bytes m = Some m' \<and> mq_inv m' \<and> messages m' = messages m @ [slot] \<and>
      stored bytes slot \<and> length slot = unat (msg_size m) \<and> max_msgs m' = max_msgs m \<and> msg_size m' = msg_size m"
    using tk a sl by (auto simp: mq_put_def mq_inv_def)
  let ?b = "mq_link_head msg (mq_copy msg bytes ?t)"
  have "slots (mq_copy msg bytes ?t) q g [msg]" by (rule slots_copy [OF ts]) (use b in simp_all)
  from slots_link_head [OF this, of msg] have c: "slots ?b (msg # q) g []" by simp
  have "messages ?b = slot # messages m"
    unfolding messages_slots [OF c] s(2) using nin by (simp add: slot_def)
  then show "\<exists>m' slot. mq_put_urgent bytes m = Some m' \<and> mq_inv m' \<and> messages m' = slot # messages m \<and>
      stored bytes slot \<and> length slot = unat (msg_size m) \<and> max_msgs m' = max_msgs m \<and> msg_size m' = msg_size m"
    using tk c sl by (auto simp: mq_put_urgent_def mq_inv_def)
qed

lemma mq_get_ok:
  assumes inv: "mq_inv m" and some: "messages m = v # vs"
  shows "\<exists>m'. mq_get m = Some (v, m') \<and> mq_inv m' \<and> messages m' = vs \<and> max_msgs m' = max_msgs m \<and>
    msg_size m' = msg_size m"
proof -
  obtain q f where s: "slots m q f []" "messages m = map (mq_data m) q" using inv by (rule mq_invE)
  obtain msg p where q: "q = msg # p" "v = mq_data m msg" "vs = map (mq_data m) p"
    using some s(2) by (cases q) auto
  obtain u where u: "mq_unlink m = Some (msg, u)" "slots u p f [msg]" "mq_data u = mq_data m"
    "max_msgs u = max_msgs m" "msg_size u = msg_size m"
    using slots_unlink [of m msg p f "[]"] s(1) q(1) by auto
  have g: "slots (mq_give msg u) p (msg # f) []" using slots_give [OF u(2), of msg] by simp
  have "mq_get m = Some (v, mq_give msg u)" using u(1,3) q(2) by (simp add: mq_get_def)
  moreover have "messages (mq_give msg u) = vs"
    using messages_slots [OF g] u(3) q(3) by (simp add: mq_give_def)
  moreover have "mq_inv (mq_give msg u)" using g by (auto simp: mq_inv_def)
  ultimately show ?thesis using u(4,5) by (simp add: mq_give_def)
qed

interpretation mq: bounded_fifo mq_inv messages "\<lambda>m. unat (max_msgs m)" "\<lambda>m v. length v = unat (msg_size m)" mq_put mq_get
proof
  show "length (messages q) \<le> unat (max_msgs q)" if "mq_inv q" for q
    using that by (auto elim!: mq_invE)
  show "\<exists>q'. mq_put v q = Some q' \<and> mq_inv q' \<and> messages q' = messages q @ [v] \<and> unat (max_msgs q') = unat (max_msgs q) \<and>
      (\<forall>w :: u8 list. (length w = unat (msg_size q')) = (length w = unat (msg_size q)))"
    if "mq_inv q" "length (messages q) < unat (max_msgs q)" "length v = unat (msg_size q)" for q v
    using mq_put_ok(1) [OF that(1,2), of v] that(3) by (auto simp: stored_def)
  show "\<exists>q'. mq_get q = Some (v, q') \<and> mq_inv q' \<and> messages q' = vs \<and> unat (max_msgs q') = unat (max_msgs q) \<and>
      (\<forall>w :: u8 list. (length w = unat (msg_size q')) = (length w = unat (msg_size q)))"
    if "mq_inv q" "messages q = v # vs" for q v vs
    using mq_get_ok [OF that] by auto
qed

text \<open>A reset returns every message's slot to the free list, whatever the counter said.\<close>

lemma mq_release_all_ends:
  assumes "slots (m\<lparr>mq_entry := e\<rparr>) q f []"
  shows "\<exists>m'. mq_release_all m = Some m' \<and> slots (m'\<lparr>mq_entry := 0\<rparr>) [] (rev q @ f) [] \<and>
    max_msgs m' = max_msgs m \<and> msg_size m' = msg_size m"
  using assms
proof (induction q arbitrary: m f e)
  case Nil
  then show ?case by (subst mq_release_all.simps) (simp add: slots_def)
next
  case (Cons msg q)
  obtain u where u: "mq_unlink (m\<lparr>mq_entry := e\<rparr>) = Some (msg, u)" "slots u q f [msg]"
    "max_msgs u = max_msgs m" "msg_size u = msg_size m"
    using slots_unlink [OF Cons.prems] by auto
  let ?w = "mq_give msg (u\<lparr>mq_entry := mq_entry m\<rparr>)"
  have hd: "msg_queue_head m = Some msg" using Cons.prems by (simp add: slots_def)
  have uu: "u\<lparr>mq_entry := mq_entry m\<rparr> =
      (let m = m\<lparr>msg_queue_head := mq_next m msg\<rparr>
       in if msg_queue_tail m = Some msg then m\<lparr>msg_queue_tail := None\<rparr> else m)"
    using u(1) hd by (auto simp: mq_unlink_def Let_def)
  have step: "mq_release_all m = mq_release_all ?w"
    using hd by (subst mq_release_all.simps) (simp add: uu Let_def)
  have "?w\<lparr>mq_entry := mq_entry u\<rparr> = mq_give msg u" by (simp add: mq_give_def)
  then have w: "slots (?w\<lparr>mq_entry := mq_entry u\<rparr>) q (msg # f) []" using slots_give [OF u(2), of msg] by simp
  show ?case unfolding step using Cons.IH [OF w] u(3,4) by (auto simp: mq_give_def)
qed

section \<open>Interleaved senders and receivers\<close>

text \<open>
  Senders and receivers copy the bytes of a slot with interrupts enabled, so other threads and
  interrupt handlers run between the sections. A slot in flight was taken by
  \<^verbatim>\<open>rt_mq_send\<close> (\<open>ForTail\<close>, then \<open>Filled\<close>), by \<^verbatim>\<open>rt_mq_urgent\<close>
  (\<open>ForHead\<close>), or unlinked by \<^verbatim>\<open>rt_mq_recv\<close> (\<open>Received\<close>).
\<close>

datatype phase = ForTail | Filled | ForHead | Received

inductive mq_step :: "rt_messagequeue \<times> (nat \<times> phase) list \<Rightarrow> rt_messagequeue \<times> (nat \<times> phase) list \<Rightarrow> bool" where
  send_take: "mq_take m = Some (msg, m') \<Longrightarrow> mq_step (m, held) (m', (msg, ForTail) # held)"
| send_copy: "\<lbrakk>(msg, ForTail) \<in> set held; length bytes \<le> unat (msg_size m)\<rbrakk> \<Longrightarrow>
    mq_step (m, held) (mq_copy msg bytes (mq_clear_next msg m), (msg, Filled) # remove1 (msg, ForTail) held)"
| send_link: "(msg, Filled) \<in> set held \<Longrightarrow>
    mq_step (m, held) (mq_link_tail msg m, remove1 (msg, Filled) held)"
| urgent_take: "mq_take m = Some (msg, m') \<Longrightarrow> mq_step (m, held) (m', (msg, ForHead) # held)"
| urgent_copy: "\<lbrakk>(msg, ForHead) \<in> set held; length bytes \<le> unat (msg_size m)\<rbrakk> \<Longrightarrow>
    mq_step (m, held) (mq_copy msg bytes m, held)"
| urgent_link: "(msg, ForHead) \<in> set held \<Longrightarrow>
    mq_step (m, held) (mq_link_head msg m, remove1 (msg, ForHead) held)"
| recv_unlink: "\<lbrakk>mq_entry m \<noteq> 0; mq_unlink m = Some (msg, m')\<rbrakk> \<Longrightarrow>
    mq_step (m, held) (m', (msg, Received) # held)"
| recv_give: "(msg, Received) \<in> set held \<Longrightarrow>
    mq_step (m, held) (mq_give msg m, remove1 (msg, Received) held)"

definition flight_ok :: "rt_messagequeue \<times> (nat \<times> phase) list \<Rightarrow> bool" where
  "flight_ok c = (case c of (m, held) \<Rightarrow>
     (\<exists>q f. slots m q f (map fst held)) \<and> (\<forall>msg. (msg, Filled) \<in> set held \<longrightarrow> mq_next m msg = None))"

lemma fst_remove1:
  "\<lbrakk>distinct (map fst held); (a, b) \<in> set held\<rbrakk> \<Longrightarrow> map fst (remove1 (a, b) held) = remove1 a (map fst held)"
  by (induction held) (auto, force)

lemma remove1_cases:
  assumes "distinct (map fst held)" "(a, b) \<in> set held" "(c, d) \<in> set (remove1 (a, b) held)"
  shows "(c, d) \<in> set held" "c \<noteq> a"
proof -
  show "(c, d) \<in> set held" using assms(3) set_remove1_subset by fastforce
  have "c \<in> set (remove1 a (map fst held))" using assms(3) fst_remove1 [OF assms(1,2)] by (metis fst_conv image_eqI list.set_map)
  then show "c \<noteq> a" using assms(1) by auto
qed

lemma slots_perm: "slots m q f held \<Longrightarrow> set held' = set held \<Longrightarrow> distinct held' \<Longrightarrow> slots m q f held'"
  by (auto simp: slots_def)

lemma flight_okE:
  assumes "flight_ok (m, held)"
  obtains q f where "slots m q f (map fst held)" "distinct (map fst held)"
    "\<forall>msg. (msg, Filled) \<in> set held \<longrightarrow> mq_next m msg = None"
proof -
  obtain q f where s: "slots m q f (map fst held)" using assms by (auto simp: flight_ok_def)
  moreover have "distinct (map fst held)" using s by (simp add: slots_def)
  ultimately show thesis using that assms by (auto simp: flight_ok_def)
qed

lemma flight_okI:
  "\<lbrakk>slots m q f (map fst held); \<forall>msg. (msg, Filled) \<in> set held \<longrightarrow> mq_next m msg = None\<rbrakk> \<Longrightarrow> flight_ok (m, held)"
  by (auto simp: flight_ok_def)

text \<open>A slot leaves the hands that hold it; the next pointers of the others are not written.\<close>

lemma flight_drop:
  assumes ok: "flight_ok (m, held)" and msg: "(msg, ph) \<in> set held"
    and s: "slots m' q f (remove1 msg (map fst held))"
    and nx: "\<forall>k \<in> set (map fst held). k \<noteq> msg \<longrightarrow> mq_next m' k = mq_next m k"
  shows "flight_ok (m', remove1 (msg, ph) held)"
proof -
  obtain q' f' where d: "distinct (map fst held)" "\<forall>msg. (msg, Filled) \<in> set held \<longrightarrow> mq_next m msg = None"
    using ok by (rule flight_okE)
  have "slots m' q f (map fst (remove1 (msg, ph) held))" using s fst_remove1 [OF d(1) msg] by simp
  then show ?thesis
  proof (rule flight_okI, intro allI impI)
    fix k assume "(k, Filled) \<in> set (remove1 (msg, ph) held)"
    note k = remove1_cases [OF d(1) msg this]
    then have "k \<in> set (map fst held)" by force
    then show "mq_next m' k = None" using nx k d(2) by auto
  qed
qed

lemma next_kept:
  assumes "slots m q f held" "other \<in> set held" "other \<noteq> msg"
  shows "mq_next (mq_link_tail msg m) other = mq_next m other" "mq_next (mq_link_head msg m) other = mq_next m other"
    "mq_next (mq_give msg m) other = mq_next m other"
proof -
  have "other \<notin> set q" using slots_held(1) [OF assms(1,2)] .
  then have "msg_queue_tail m \<noteq> Some other" using assms(1) last_in_set [of q] by (auto simp: slots_def split: if_splits)
  then show "mq_next (mq_link_tail msg m) other = mq_next m other"
    by (auto simp: mq_link_tail_def Let_def split: option.split)
qed (use assms(3) in \<open>simp_all add: mq_link_head_def mq_give_def Let_def\<close>)

lemma mq_take_slots:
  assumes "slots m q f held" "mq_take m = Some (msg, m')"
  shows "\<exists>g. slots m' q g (msg # held) \<and> mq_next m' = mq_next m"
proof (cases f)
  case Nil
  then show ?thesis using assms slots_full by fastforce
next
  case (Cons x g)
  then show ?thesis using slots_take [of m q x g held] assms by auto
qed

lemma mq_unlink_slots:
  assumes "slots m q f held" "mq_unlink m = Some (msg, m')"
  shows "\<exists>p. slots m' p f (msg # held) \<and> mq_next m' = mq_next m"
proof (cases q)
  case Nil
  then show ?thesis using assms by (auto simp: slots_def mq_unlink_def)
next
  case (Cons x p)
  moreover have "mq_next m' = mq_next m" using assms(2) by (auto simp: mq_unlink_def bind_Some_iff Let_def split: if_splits)
  ultimately show ?thesis using slots_unlink [of m x p f held] assms by auto
qed

lemma flight_add:
  assumes ok: "flight_ok (m, held)" and ph: "ph \<noteq> Filled"
    and t: "mq_take m = Some (msg, m') \<or> mq_unlink m = Some (msg, m')"
  shows "flight_ok (m', (msg, ph) # held)"
proof -
  obtain q f where s: "slots m q f (map fst held)" and n: "\<forall>msg. (msg, Filled) \<in> set held \<longrightarrow> mq_next m msg = None"
    using ok by (rule flight_okE)
  obtain p g where "slots m' p g (msg # map fst held)" "mq_next m' = mq_next m"
    using t mq_take_slots [OF s] mq_unlink_slots [OF s] by blast
  then show ?thesis using n ph by (auto simp: flight_ok_def)
qed

lemma mq_step_flight_ok: "mq_step c c' \<Longrightarrow> flight_ok c \<Longrightarrow> flight_ok c'"
proof (induction rule: mq_step.induct)
  case (send_take m msg m' held)
  show ?case
    by (rule flight_add [OF send_take.prems]) (use send_take.hyps in simp_all)
next
  case (send_copy msg held bytes m)
  obtain q f where s: "slots m q f (map fst held)" "distinct (map fst held)"
    "\<forall>msg. (msg, Filled) \<in> set held \<longrightarrow> mq_next m msg = None" using send_copy.prems by (rule flight_okE)
  have msg: "msg \<in> set (map fst held)" using send_copy.hyps(1) by force
  let ?h = "(msg, Filled) # remove1 (msg, ForTail) held" and ?m = "mq_copy msg bytes (mq_clear_next msg m)"
  have "slots ?m q f (map fst held)"
    by (rule slots_copy [OF slots_clear [OF s(1) msg] msg]) (use send_copy.hyps(2) in simp)
  then have "slots ?m q f (map fst ?h)"
    by (rule slots_perm) (use s(2) msg fst_remove1 [OF s(2) send_copy.hyps(1)] in auto)
  then show ?case
  proof (rule flight_okI, intro allI impI)
    fix k assume "(k, Filled) \<in> set ?h"
    then have "k = msg \<or> (k, Filled) \<in> set held" using remove1_cases(1) [OF s(2) send_copy.hyps(1)] by auto
    then show "mq_next ?m k = None" using s(3) by (auto simp: mq_clear_next_def)
  qed
next
  case (send_link msg held m)
  obtain q f where s: "slots m q f (map fst held)" and n: "\<forall>msg. (msg, Filled) \<in> set held \<longrightarrow> mq_next m msg = None"
    using send_link.prems by (rule flight_okE)
  have msg: "msg \<in> set (map fst held)" using send_link.hyps by force
  have "mq_next m msg = None" using n send_link.hyps by blast
  from slots_link_tail [OF s msg this] show ?case
    by (rule flight_drop [OF send_link.prems send_link.hyps]) (simp add: next_kept(1) [OF s])
next
  case (urgent_take m msg m' held)
  show ?case
    by (rule flight_add [OF urgent_take.prems]) (use urgent_take.hyps in simp_all)
next
  case (urgent_copy msg held bytes m)
  obtain q f where s: "slots m q f (map fst held)" and n: "\<forall>msg. (msg, Filled) \<in> set held \<longrightarrow> mq_next m msg = None"
    using urgent_copy.prems by (rule flight_okE)
  have msg: "msg \<in> set (map fst held)" using urgent_copy.hyps(1) by force
  show ?case by (rule flight_okI [OF slots_copy [OF s msg urgent_copy.hyps(2)]]) (use n in simp)
next
  case (urgent_link msg held m)
  obtain q f where s: "slots m q f (map fst held)" using urgent_link.prems by (rule flight_okE)
  have msg: "msg \<in> set (map fst held)" using urgent_link.hyps by force
  from slots_link_head [OF s msg] show ?case
    by (rule flight_drop [OF urgent_link.prems urgent_link.hyps]) (simp add: next_kept(2) [OF s])
next
  case (recv_unlink m msg m' held)
  show ?case
    by (rule flight_add [OF recv_unlink.prems]) (use recv_unlink.hyps(2) in simp_all)
next
  case (recv_give msg held m)
  obtain q f where s: "slots m q f (map fst held)" using recv_give.prems by (rule flight_okE)
  have msg: "msg \<in> set (map fst held)" using recv_give.hyps by force
  from slots_give [OF s msg] show ?case
    by (rule flight_drop [OF recv_give.prems recv_give.hyps]) (simp add: next_kept(3) [OF s])
qed

text \<open>
  (C9) However senders, urgent senders and receivers interleave between their sections with interrupts
  disabled, no slot of a message queue is lost, shared or on two lists: from a queue just
  initialised, the message list, the free list and the slots in flight are always a partition of
  the pool, and the counter is the length of the message list.
\<close>

theorem mq_interleavings_safe:
  assumes "mq_step\<^sup>*\<^sup>* (fresh_mq size_of maxm pool, []) (m, held)"
    and "\<forall>i < unat maxm. length (pool i) = unat size_of"
  shows "\<exists>q f. follow (unat (max_msgs m)) (mq_next m) (msg_queue_head m) = q \<and>
    follow (unat (max_msgs m)) (mq_next m) (msg_queue_free m) = f \<and>
    distinct (q @ f @ map fst held) \<and> set (q @ f @ map fst held) = {..<unat (max_msgs m)} \<and>
    unat (mq_entry m) = length q"
proof -
  have "flight_ok (m, held)"
    using assms(1)
  proof (induction rule: rtranclp_induct)
    case base
    show ?case using fresh_slots [OF assms(2)] by (auto simp: flight_ok_def)
  qed (rule mq_step_flight_ok)
  then obtain q f where s: "slots m q f (map fst held)" by (rule flight_okE)
  then have "follow (unat (max_msgs m)) (mq_next m) (msg_queue_head m) = q"
    "follow (unat (max_msgs m)) (mq_next m) (msg_queue_free m) = f"
    using slots_count [OF s] by (auto simp: slots_def intro!: chain_follow)
  then show ?thesis using s by (auto simp: slots_def)
qed

theorem mq_interleavings_safe_witness:
  "\<exists>m q f. mq_step\<^sup>*\<^sup>* (fresh_mq 4 2 (\<lambda>_. [0, 0, 0, 0]), []) (m, [(0, ForHead), (1, ForTail)]) \<and>
     distinct (q @ f @ [0, 1 :: nat]) \<and> set (q @ f @ [0, 1]) = {..<unat (max_msgs m)} \<and> unat (mq_entry m) = length q"
proof -
  let ?m = "fresh_mq 4 2 (\<lambda>_. [0, 0, 0, 0])"
  have two: "mq_init_free 2 m = mq_give 1 (mq_give 0 (mq_init_free 0 m))" for m by (simp add: numeral_2_eq_2)
  have a: "mq_take ?m = Some (1, ?m\<lparr>msg_queue_free := Some 0\<rparr>)"
    and b: "mq_take (?m\<lparr>msg_queue_free := Some 0\<rparr>) = Some (0, ?m\<lparr>msg_queue_free := None\<rparr>)"
    by (simp_all add: fresh_mq_def mq_take_def mq_give_def two)
  have r: "mq_step\<^sup>*\<^sup>* (?m, []) (?m\<lparr>msg_queue_free := None\<rparr>, [(0, ForHead), (1, ForTail)])"
    using mq_step.send_take [OF a, of "[]"] mq_step.urgent_take [OF b, of "[(1, ForTail)]"] by simp
  let ?e = "?m\<lparr>msg_queue_free := None\<rparr>" and ?h = "map fst [(0, ForHead), (1 :: nat, ForTail)]"
  have len: "\<forall>i < unat (2 :: u16). length [0, 0, 0, 0 :: u8] = unat (4 :: u16)" by simp
  obtain q f where "distinct (q @ f @ ?h) \<and> set (q @ f @ ?h) = {..<unat (max_msgs ?e)} \<and> unat (mq_entry ?e) = length q"
    using mq_interleavings_safe [OF r len] by (elim exE conjE) (rule that, intro conjI)
  then have "distinct (q @ f @ [0, 1]) \<and> set (q @ f @ [0, 1]) = {..<unat (max_msgs ?e)} \<and> unat (mq_entry ?e) = length q"
    by (simp only: list.map fst_conv)
  with r show ?thesis by blast
qed

section \<open>The contract in the kernel\<close>

definition mq_ok :: "kernel \<Rightarrow> nat \<Rightarrow> bool" where
  "mq_ok s mq \<longleftrightarrow>
     (\<exists>m x. msgqueues s mq = Some m \<and> mq_inv m \<and> objects s (OMsgQueue mq) = Some x \<and>
        obj_type x AND NOT RT_Object_Class_Static = RT_Object_Class_MessageQueue \<and>
        (obj_flag x = RT_IPC_FLAG_FIFO \<or> obj_flag x = RT_IPC_FLAG_PRIO))"

lemma mq_okE:
  assumes "mq_ok s mq"
  obtains m x where "msgqueues s mq = Some m" "mq_inv m" "objects s (OMsgQueue mq) = Some x"
    "check_type s (OMsgQueue mq) RT_Object_Class_MessageQueue = Some ()"
    "obj_flag x = RT_IPC_FLAG_FIFO \<or> obj_flag x = RT_IPC_FLAG_PRIO"
  using assms unfolding mq_ok_def by (auto simp: check_type_known)

lemma mq_ok_upd:
  assumes "mq_ok s mq" "msgqueues s' mq = Some m" "mq_inv m" "objects s' (OMsgQueue mq) = objects s (OMsgQueue mq)"
  shows "mq_ok s' mq"
  using assms unfolding mq_ok_def by auto

text \<open>What follows the new queue: the first waiting receiver is made ready.\<close>

lemma mq_posted:
  assumes wf: "kernel_wf s" and ok: "mq_ok s mq" and run: "runnable s" and m: "mq_inv m"
  obtains s' where "wake_first (SuspendQ (OMsgQueue mq)) (s\<lparr>msgqueues := (msgqueues s)(mq \<mapsto> m)\<rparr>) = Some s'"
    "kernel_wf s'" "mq_ok s' mq" "msgqueues s' mq = Some m"
    "tlists s' (SuspendQ (OMsgQueue mq)) = tl (tlists s (SuspendQ (OMsgQueue mq)))"
    "threads s' = first_ready (tlists s (SuspendQ (OMsgQueue mq))) (threads s)"
proof -
  let ?a = "s\<lparr>msgqueues := (msgqueues s)(mq \<mapsto> m)\<rparr>" and ?h = "SuspendQ (OMsgQueue mq)"
  have aw: "kernel_wf ?a" "runnable ?a" and hq: "is_waitq ?h" using wf run runnable_cong [of ?a s] by simp_all
  obtain s' where s': "wake_first ?h ?a = Some s'" "kernel_wf s'" "runnable s'" "same_rest ?a s'"
    "tlists s' ?h = tl (tlists ?a ?h)" "\<forall>h'. is_waitq h' \<longrightarrow> h' \<noteq> ?h \<longrightarrow> tlists s' h' = tlists ?a h'"
    "threads s' = first_ready (tlists ?a ?h) (threads ?a)"
    "\<forall>ob. (\<forall>tm. ob \<noteq> OTimer tm) \<longrightarrow> objects s' ob = objects ?a ob"
    using wake_first_ends [OF aw hq] .
  have ms: "msgqueues s' mq = Some m" using same_restD(5) [OF s'(4)] by simp
  have "mq_ok s' mq" by (rule mq_ok_upd [OF ok ms m]) (use s'(8) in simp)
  then show thesis using that [OF s'(1,2)] ms s'(5,7) by simp
qed

lemma unat_ucast_u16 [simp]: "unat (ucast (w :: u16) :: u32) = unat w"
  using unsigned_less [of w, where 'a = nat] by (simp add: unsigned_ucast_eq take_bit_nat_eq_self_iff)

lemma too_big: "sz > (ucast (w :: u16) :: u32) \<longleftrightarrow> unat sz > unat w"
  by (simp add: word_less_nat_alt)

text \<open>
  (C12) Sending a message, on every branch: one longer than a slot is refused with
  \<^verbatim>\<open>-RT_ERROR\<close>, a full queue gives \<^verbatim>\<open>-RT_EFULL\<close>, and otherwise the slot
  that joins the queue behind the others begins with the bytes of the message and the first waiting
  receiver is made ready. The queue stays in order.
\<close>

theorem mq_send_refines:
  assumes wf: "kernel_wf s" and ok: "mq_ok s mq" and m: "msgqueues s mq = Some m" and run: "runnable s"
    and sz: "sz \<noteq> 0" "unat sz \<le> length buf"
  shows "\<exists>r s' m'. rt_mq_send mq (Some buf) sz s = Some (r, s') \<and> kernel_wf s' \<and> mq_ok s' mq \<and> msgqueues s' mq = Some m' \<and>
    (if unat sz > unat (msg_size m) then r = - RT_ERROR \<and> s' = s
     else if length (messages m) = unat (max_msgs m) then r = - RT_EFULL \<and> s' = s
     else r = RT_EOK \<and> (\<exists>slot. messages m' = messages m @ [slot] \<and> stored (take (unat sz) buf) slot) \<and>
       threads s' = first_ready (tlists s (SuspendQ (OMsgQueue mq))) (threads s))"
proof -
  have inv: "mq_inv m" and ck: "check_type s (OMsgQueue mq) RT_Object_Class_MessageQueue = Some ()"
    using ok m by (auto elim!: mq_okE)
  have full: "msg_queue_free m = None \<longleftrightarrow> length (messages m) = unat (max_msgs m)"
    "length (messages m) \<le> unat (max_msgs m)"
    using inv by (auto elim!: mq_invE)
  show ?thesis
  proof (cases "unat sz > unat (msg_size m) \<or> length (messages m) = unat (max_msgs m)")
    case True
    then show ?thesis
      using ck m sz(1) full wf ok by (auto simp: rt_mq_send_def too_big simp del: check_type_iff)
  next
    case False
    then obtain m' slot where m': "mq_put (take (unat sz) buf) m = Some m'" "mq_inv m'"
      "messages m' = messages m @ [slot]" "stored (take (unat sz) buf) slot"
      using mq_put_ok(1) [OF inv, of "take (unat sz) buf"] full(2) sz(2) by auto
    obtain s' where s': "wake_first (SuspendQ (OMsgQueue mq)) (s\<lparr>msgqueues := (msgqueues s)(mq \<mapsto> m')\<rparr>) = Some s'"
      "kernel_wf s'" "mq_ok s' mq" "msgqueues s' mq = Some m'"
      "tlists s' (SuspendQ (OMsgQueue mq)) = tl (tlists s (SuspendQ (OMsgQueue mq)))"
      "threads s' = first_ready (tlists s (SuspendQ (OMsgQueue mq))) (threads s)"
      using mq_posted [OF wf ok run m'(2)] .
    have "rt_mq_send mq (Some buf) sz s = Some (RT_EOK, s')"
      using ck m sz full False m'(1) s'(1) by (auto simp: rt_mq_send_def too_big simp del: check_type_iff)
    then show ?thesis using False s' m'(3,4) by auto
  qed
qed

text \<open>
  An urgent message takes the same branches and goes in front of all the others, so that it is the
  next to be received.
\<close>

theorem mq_urgent_refines:
  assumes wf: "kernel_wf s" and ok: "mq_ok s mq" and m: "msgqueues s mq = Some m" and run: "runnable s"
    and sz: "sz \<noteq> 0" "unat sz \<le> length buf"
  shows "\<exists>r s' m'. rt_mq_urgent mq (Some buf) sz s = Some (r, s') \<and> kernel_wf s' \<and> mq_ok s' mq \<and> msgqueues s' mq = Some m' \<and>
    (if unat sz > unat (msg_size m) then r = - RT_ERROR \<and> s' = s
     else if length (messages m) = unat (max_msgs m) then r = - RT_EFULL \<and> s' = s
     else r = RT_EOK \<and> (\<exists>slot. messages m' = slot # messages m \<and> stored (take (unat sz) buf) slot) \<and>
       threads s' = first_ready (tlists s (SuspendQ (OMsgQueue mq))) (threads s))"
proof -
  have inv: "mq_inv m" and ck: "check_type s (OMsgQueue mq) RT_Object_Class_MessageQueue = Some ()"
    using ok m by (auto elim!: mq_okE)
  have full: "msg_queue_free m = None \<longleftrightarrow> length (messages m) = unat (max_msgs m)"
    "length (messages m) \<le> unat (max_msgs m)"
    using inv by (auto elim!: mq_invE)
  show ?thesis
  proof (cases "unat sz > unat (msg_size m) \<or> length (messages m) = unat (max_msgs m)")
    case True
    then show ?thesis
      using ck m sz(1) full wf ok by (auto simp: rt_mq_urgent_def too_big simp del: check_type_iff)
  next
    case False
    then obtain m' slot where m': "mq_put_urgent (take (unat sz) buf) m = Some m'" "mq_inv m'"
      "messages m' = slot # messages m" "stored (take (unat sz) buf) slot"
      using mq_put_ok(2) [OF inv, of "take (unat sz) buf"] full(2) sz(2) by auto
    obtain s' where s': "wake_first (SuspendQ (OMsgQueue mq)) (s\<lparr>msgqueues := (msgqueues s)(mq \<mapsto> m')\<rparr>) = Some s'"
      "kernel_wf s'" "mq_ok s' mq" "msgqueues s' mq = Some m'"
      "tlists s' (SuspendQ (OMsgQueue mq)) = tl (tlists s (SuspendQ (OMsgQueue mq)))"
      "threads s' = first_ready (tlists s (SuspendQ (OMsgQueue mq))) (threads s)"
      using mq_posted [OF wf ok run m'(2)] .
    have "rt_mq_urgent mq (Some buf) sz s = Some (RT_EOK, s')"
      using ck m sz full False m'(1) s'(1) by (auto simp: rt_mq_urgent_def too_big simp del: check_type_iff)
    then show ?thesis using False s' m'(3,4) by auto
  qed
qed

text \<open>
  (C13) Receiving a message, on every branch: the oldest is taken, and as many of its bytes as fit the
  receiver's buffer are given; an empty queue gives \<^verbatim>\<open>-RT_ETIMEOUT\<close> without a wait,
  and otherwise the receiver waits for at most the given time.
\<close>

theorem mq_recv_refines:
  assumes wf: "kernel_wf s" and ok: "mq_ok s mq" and m: "msgqueues s mq = Some m"
    and cur: "rt_current_thread s = Some t" "threads s t = Some th" "stat_of th = RT_THREAD_READY"
    and irq: "rt_interrupt_nest s = 0" "rt_scheduler_lock_nest s = 0" and run: "runnable_without t s"
    and time: "sint timeout > 0 \<longrightarrow> timeout < RT_TICK_MAX div 2" and sz: "sz \<noteq> 0"
  shows "\<exists>r s' m'. rt_mq_recv mq True sz timeout s = Some (r, s') \<and> kernel_wf s' \<and> mq_ok s' mq \<and> msgqueues s' mq = Some m' \<and>
    (case messages m of
       v # vs \<Rightarrow> r = Done (RT_EOK, take (min (unat sz) (unat (msg_size m))) v) \<and> messages m' = vs \<and> threads s' = threads s
     | [] \<Rightarrow> if sint timeout = 0 then r = Done (- RT_ETIMEOUT, []) \<and> s' = s
       else (\<exists>k. r = Waiting timeout k) \<and> m' = m \<and> runs_highest s' \<and> t \<in> set (tlists s' (SuspendQ (OMsgQueue mq))) \<and>
         (if sint timeout > 0 then ThreadTimer t \<in> set (rt_timer_list s') \<and> due_in s' (ThreadTimer t) = timeout
          else ThreadTimer t \<notin> set (rt_timer_list s')))"
proof -
  obtain x where inv: "mq_inv m" and ck: "check_type s (OMsgQueue mq) RT_Object_Class_MessageQueue = Some ()"
    and x: "objects s (OMsgQueue mq) = Some x" "obj_flag x = RT_IPC_FLAG_FIFO \<or> obj_flag x = RT_IPC_FLAG_PRIO"
    using ok m by (auto elim!: mq_okE)
  have empty: "messages m = [] \<longleftrightarrow> mq_entry m = 0"
    using inv by (rule mq_invE) (metis length_0_conv length_map unsigned_eq_0_iff)
  show ?thesis
  proof (cases "messages m")
    case (Cons v vs)
    obtain m' where m': "mq_get m = Some (v, m')" "mq_inv m'" "messages m' = vs" "msg_size m' = msg_size m"
      using mq_get_ok [OF inv Cons] by blast
    let ?s = "s\<lparr>msgqueues := (msgqueues s)(mq \<mapsto> m')\<rparr>"
    have "rt_mq_recv mq True sz timeout s = Some (Done (RT_EOK, take (min (unat sz) (unat (msg_size m))) v), ?s)"
      using ck m sz empty Cons m'(1,4)
      by (auto simp: rt_mq_recv_def mq_recv_loop_def Let_def too_big min_def simp del: check_type_iff)
    moreover have "mq_ok ?s mq" by (rule mq_ok_upd [OF ok _ m'(2)]) simp_all
    ultimately show ?thesis using Cons m'(3) wf by simp
  next
    case Nil
    show ?thesis
    proof (cases "sint timeout = 0")
      case True
      then show ?thesis using ck m sz empty Nil wf ok by (simp add: rt_mq_recv_def del: check_type_iff)
    next
      case False
      let ?h = "SuspendQ (OMsgQueue mq)"
      have hq: "is_waitq ?h" by simp
      note e = upd_error_wf [OF wf cur(2), of RT_EOK]
      obtain s' where s': "wait_on ?h t (obj_flag x) timeout (upd_thread t (\<lambda>th. th\<lparr>thread_error := RT_EOK\<rparr>) s) = Some s'"
        "kernel_wf s'" "same_rest s s'"
        "threads s' = (threads s)(t \<mapsto> set_stat RT_THREAD_SUSPEND (th\<lparr>thread_error := RT_EOK\<rparr>))"
        "tlists s' ?h = queue_in (obj_flag x) s t (tlists s ?h)"
        "\<forall>h'. is_waitq h' \<longrightarrow> h' \<noteq> ?h \<longrightarrow> tlists s' h' = tlists s h'"
        "if sint timeout > 0 then ThreadTimer t \<in> set (rt_timer_list s') \<and> due_in s' (ThreadTimer t) = timeout
         else ThreadTimer t \<notin> set (rt_timer_list s')"
        "rt_scheduler_lock_nest s = 0 \<longrightarrow> runs_highest s'"
        "\<forall>ob. (\<forall>tm. ob \<noteq> OTimer tm) \<longrightarrow> objects s' ob = objects s ob"
        using wait_reset [OF wf cur(2,3) run hq x(2) time] .
      obtain k where k: "rt_mq_recv mq True sz timeout s = Some (Waiting timeout k, s')"
        using ck m sz empty Nil False cur(1) irq(1) x(1) e(5) s'(1)
        by (simp add: rt_mq_recv_def mq_recv_loop_def rt_thread_self_def in_thread_context_def Let_def del: check_type_iff)
      have ms: "msgqueues s' mq = Some m" using m same_restD(5) [OF s'(3)] by simp
      have "mq_ok s' mq" by (rule mq_ok_upd [OF ok ms inv]) (use s'(9) in simp)
      moreover have "t \<in> set (tlists s' ?h)" using s'(5) set_queue_in [OF x(2), of s t] by simp
      ultimately show ?thesis using k ms Nil False s'(2,7,8) irq(2)
        by (intro exI [of _ "Waiting timeout k"] exI [of _ s'] exI [of _ m]) simp
    qed
  qed
qed

text \<open>
  The slots of a message queue lose nothing and keep the order: messages of full size put in while
  there is room come out again in that order, behind those that were there.
\<close>

theorem mq_round_trip:
  assumes "mq_inv m" "length (messages m) + length vs \<le> unat (max_msgs m)"
    and "\<forall>v \<in> set vs. length v = unat (msg_size m)"
  shows "\<exists>m' m''. put_all mq_put vs m = Some m' \<and>
     get_all mq_get (length (messages m) + length vs) m' = Some (messages m @ vs, m'') \<and> mq_inv m'' \<and> messages m'' = []"
  by (rule mq.round_trip [OF assms])

text \<open>
  A reset empties a message queue: every message's slot goes back to the free list, so that the
  queue takes a full load again, and every thread that waited is ready with \<^verbatim>\<open>-RT_ERROR\<close>.
\<close>

theorem mq_reset_empties:
  assumes wf: "kernel_wf s" and ok: "mq_ok s mq" and m: "msgqueues s mq = Some m" and run: "runnable s"
  shows "\<exists>s' m'. rt_mq_control mq RT_IPC_CMD_RESET s = Some (RT_EOK, s') \<and> kernel_wf s' \<and> mq_ok s' mq \<and>
    msgqueues s' mq = Some m' \<and> messages m' = [] \<and> max_msgs m' = max_msgs m \<and>
    tlists s' (SuspendQ (OMsgQueue mq)) = [] \<and>
    (\<forall>t \<in> set (tlists s (SuspendQ (OMsgQueue mq))). threads s' t = map_option failed (threads s t))"
proof -
  let ?h = "SuspendQ (OMsgQueue mq)"
  have inv: "mq_inv m" and ck: "check_type s (OMsgQueue mq) RT_Object_Class_MessageQueue = Some ()"
    using ok m by (auto elim!: mq_okE)
  obtain q f where sl: "slots (m\<lparr>mq_entry := mq_entry m\<rparr>) q f []" using inv by (auto simp: mq_inv_def)
  obtain m' where m': "mq_release_all m = Some m'" "slots (m'\<lparr>mq_entry := 0\<rparr>) [] (rev q @ f) []" "max_msgs m' = max_msgs m"
    using mq_release_all_ends [OF sl] by blast
  let ?n = "m'\<lparr>mq_entry := 0\<rparr>"
  obtain u where u: "rt_ipc_list_resume_all ?h s = Some (RT_EOK, u)" "kernel_wf u" "same_rest s u" "tlists u ?h = []"
    "\<forall>ob. (\<forall>tm. ob \<noteq> OTimer tm) \<longrightarrow> objects u ob = objects s ob"
    "threads u = (\<lambda>t. if t \<in> set (tlists s ?h) then map_option failed (threads s t) else threads s t)"
    using rt_ipc_list_resume_all_wakes [OF wf, of ?h] by auto
  let ?w = "u\<lparr>msgqueues := (msgqueues u)(mq \<mapsto> ?n)\<rparr>"
  have "runnable u" by (rule runnable_failed [OF run kernel_wfD(1) [OF wf] _ u(6)]) simp
  then have w: "kernel_wf ?w" "runnable ?w" using u(2) runnable_cong [of ?w u] by simp_all
  obtain s' where s': "rt_schedule ?w = Some s'" "kernel_wf s'" "same_rest ?w s'" "threads s' = threads ?w"
    "tlists s' = tlists ?w" "rt_timer_list s' = rt_timer_list ?w" "timers s' = timers ?w" "runnable s'"
    "rt_scheduler_lock_nest ?w = 0 \<longrightarrow> runs_highest s'"
    using schedule_ends [OF w] .
  have "msgqueues u mq = Some m" using same_restD(5) [OF u(3)] m by simp
  then have c: "rt_mq_control mq RT_IPC_CMD_RESET s = Some (RT_EOK, s')"
    using ck u(1) m'(1) s'(1) by (simp add: rt_mq_control_def del: check_type_iff)
  have ms: "msgqueues s' mq = Some ?n" using same_restD(5) [OF s'(3)] by simp
  have mi: "mq_inv ?n" using m'(2) unfolding mq_inv_def by blast
  have "mq_ok s' mq"
    by (rule mq_ok_upd [OF ok ms mi]) (use rt_schedule_core(5) [OF s'(1)] u(5) in simp)
  then show ?thesis using c s'(2,4,5) ms u(4,6) m'(3) messages_slots [OF m'(2)] by auto
qed

text \<open>
  Initialising a message queue: the slots with their headers lie within the pool that was given, a
  slot holds at least the asked number of bytes, and the queue is empty with all slots free. (For
  sizes above 65532 the 16-bit field would wrap.)
\<close>

theorem mq_init_in_pool:
  assumes init: "rt_mq_init mq name msgpool size_of pool_size flag s = Some (r, s')"
    and sz: "unat size_of \<le> 65532"
    and pool: "\<forall>i. length (msgpool i) = (unat size_of + 3) div 4 * 4"
  shows "r = RT_EOK \<and> (\<exists>m. msgqueues s' mq = Some m \<and> mq_inv m \<and> messages m = [] \<and>
    unat (msg_size m) = (unat size_of + 3) div 4 * 4 \<and>
    unat (max_msgs m) * (unat (msg_size m) + 4) \<le> unat pool_size)"
proof -
  define w :: u16 where "w = ucast (RT_ALIGN size_of 4)"
  define n :: u16 where "n = ucast (pool_size div (ucast w + 4))"
  have m: "msgqueues s' mq = Some (fresh_mq w n msgpool)" "r = RT_EOK"
    using init by (auto simp: rt_mq_init_def bind_Some_iff Let_def w_def n_def)
  have "unat (RT_ALIGN size_of 4) = (unat size_of + 3) div 4 * 4" by (rule RT_ALIGN_4) (use sz in simp)
  moreover have "(unat size_of + 3) div 4 * 4 < 2 ^ 16" using sz by simp
  ultimately have w: "unat w = (unat size_of + 3) div 4 * 4"
    by (simp add: w_def unsigned_ucast_eq take_bit_nat_eq_self_iff)
  have d: "unat (ucast w + 4 :: u32) = unat w + 4"
    using unsigned_less [of w, where 'a = nat] by (simp add: unat_word_ariths)
  have "unat n \<le> unat (pool_size div (ucast w + 4))"
    by (simp add: n_def unsigned_ucast_eq take_bit_nat_less_eq_self)
  also have "\<dots> = unat pool_size div (unat w + 4)" by (simp add: unat_div d)
  finally have "unat n * (unat w + 4) \<le> unat pool_size"
    by (metis div_times_less_eq_dividend le_trans mult_le_mono1)
  moreover have sl: "slots (fresh_mq w n msgpool) [] (rev [0..<unat n]) []"
    by (rule fresh_slots) (use pool w in simp)
  moreover have "mq_inv (fresh_mq w n msgpool)" using sl unfolding mq_inv_def by blast
  moreover have "messages (fresh_mq w n msgpool) = []" using messages_slots [OF sl] by simp
  moreover have "msg_size (fresh_mq w n msgpool) = w" "max_msgs (fresh_mq w n msgpool) = n"
    by (simp_all add: fresh_mq_def)
  ultimately show ?thesis using m w by auto
qed

subsection \<open>On the sample state\<close>

text \<open>Two slots of four bytes, one message in the queue.\<close>

definition demo_queue :: rt_messagequeue where
  "demo_queue = \<lparr>msg_size = 4, max_msgs = 2, mq_entry = 1, msg_queue_head = Some 1, msg_queue_tail = Some 1,
     msg_queue_free = Some 0, mq_next = (\<lambda>_. None), mq_data = (\<lambda>i. if i = 1 then [1, 2, 3, 4] else [0, 0, 0, 0])\<rparr>"

definition demo_mq :: kernel where
  "demo_mq = demo\<lparr>msgqueues := [0 \<mapsto> demo_queue]\<rparr>"

lemma demo_queue_ok: "mq_inv demo_queue" "messages demo_queue = [[1, 2, 3, 4]]"
  "msg_size demo_queue = 4" "max_msgs demo_queue = 2"
proof -
  have s: "slots demo_queue [1] [0] []" by (auto simp: slots_def demo_queue_def)
  then show "mq_inv demo_queue" unfolding mq_inv_def by blast
  show "messages demo_queue = [[1, 2, 3, 4]]" using messages_slots [OF s] by (simp add: demo_queue_def)
qed (simp_all add: demo_queue_def)

lemma demo_mq_ok: "kernel_wf demo_mq" "mq_ok demo_mq 0" "runnable demo_mq" "runnable_without 1 demo_mq"
  "msgqueues demo_mq 0 = Some demo_queue"
proof -
  have t: "threads demo_mq = threads demo" by (simp add: demo_mq_def)
  show "kernel_wf demo_mq" using demo_wf by (simp add: demo_mq_def)
  show "mq_ok demo_mq 0" using demo_queue_ok(1) by (simp add: mq_ok_def demo_mq_def)
  show "runnable demo_mq" "runnable_without 1 demo_mq"
    using demo_runnable t by (simp_all add: runnable_def runnable_without_def stacks_ok_def del: demo_sel)
qed (simp add: demo_mq_def)

theorem mq_send_refines_witness:
  "\<exists>s' m'. rt_mq_send 0 (Some [9, 9]) 2 demo_mq = Some (RT_EOK, s') \<and> msgqueues s' 0 = Some m' \<and>
     length (messages m') = 2"
  using mq_send_refines [OF demo_mq_ok(1,2,5,3), of 2 "[9, 9]"] demo_queue_ok by auto

theorem mq_urgent_refines_witness:
  "\<exists>s' m' slot. rt_mq_urgent 0 (Some [9, 9]) 2 demo_mq = Some (RT_EOK, s') \<and> msgqueues s' 0 = Some m' \<and>
     messages m' = [slot, [1, 2, 3, 4]]"
  using mq_urgent_refines [OF demo_mq_ok(1,2,5,3), of 2 "[9, 9]"] demo_queue_ok by auto

theorem mq_recv_refines_witness:
  "\<exists>s' m'. rt_mq_recv 0 True 3 0 demo_mq = Some (Done (RT_EOK, [1, 2, 3]), s') \<and> msgqueues s' 0 = Some m' \<and>
     messages m' = []"
proof -
  have d: "rt_current_thread demo_mq = Some 1" "threads demo_mq 1 = Some (demo_thread 10 1)"
    "stat_of (demo_thread 10 1) = 1" "rt_interrupt_nest demo_mq = 0" "rt_scheduler_lock_nest demo_mq = 0"
    by (simp_all add: demo_mq_def)
  show ?thesis using mq_recv_refines [OF demo_mq_ok(1,2,5) d demo_mq_ok(4), of 0 3] demo_queue_ok by auto
qed

theorem mq_round_trip_witness:
  "\<exists>m' m''. put_all mq_put [[5, 6, 7, 8]] demo_queue = Some m' \<and>
     get_all mq_get 2 m' = Some ([[1, 2, 3, 4], [5, 6, 7, 8]], m'')"
  using mq_round_trip [OF demo_queue_ok(1), of "[[5, 6, 7, 8]]"] demo_queue_ok
  by (simp add: numeral_2_eq_2 [symmetric] del: put_all.simps get_all.simps) blast

theorem mq_reset_empties_witness:
  "\<exists>s' m'. rt_mq_control 0 RT_IPC_CMD_RESET demo_mq = Some (RT_EOK, s') \<and> msgqueues s' 0 = Some m' \<and> messages m' = []"
  using mq_reset_empties [OF demo_mq_ok(1,2,5,3)] by blast

theorem mq_init_in_pool_witness:
  "\<exists>r s' m. rt_mq_init 0 demo_name (\<lambda>_. [0, 0, 0, 0]) 3 20 0 demo = Some (r, s') \<and> msgqueues s' 0 = Some m \<and>
     unat (max_msgs m) * 8 \<le> 20"
proof -
  have "\<exists>u. rt_object_init (OMsgQueue 0) RT_Object_Class_MessageQueue demo_name demo = Some u"
    using rt_object_init_defined [OF kernel_wfD(3) [OF demo_wf], of RT_Object_Class_MessageQueue demo_name "OMsgQueue 0"]
    by (auto simp: rt_object_container_def)
  then obtain r s' where i: "rt_mq_init 0 demo_name (\<lambda>_. [0, 0, 0, 0]) 3 20 0 demo = Some (r, s')"
    by (auto simp: rt_mq_init_def Let_def)
  show ?thesis using mq_init_in_pool [OF i] i by auto
qed

end
