(* ===== verification/Alloc.thy ===== *)
theory Alloc
  imports Prelude
begin

text \<open>
  The contract of a block allocator, which the memory pools and the small memory heap keep:
  \<open>alloc\<close> hands out a block that is not in use when there is \<open>room\<close> for the request and refuses
  otherwise, \<open>release\<close> takes a used block back. A call that does not return, or meets a failed assertion, is
  \<open>None\<close>, and so is a run with such a call. Clients that return only what they hold never see a block handed out
  twice, and every call of theirs returns.
\<close>

datatype ('r, 'b) request = Take 'r | Give 'b

text \<open>A run of requests against an allocator, with the blocks the client holds; it gives back only those.\<close>

fun serve :: "('r \<Rightarrow> 'p \<Rightarrow> ('b option \<times> 'p) option) \<Rightarrow> ('b \<Rightarrow> 'p \<Rightarrow> 'p option) \<Rightarrow>
    ('r, 'b) request list \<Rightarrow> 'p \<times> 'b list \<Rightarrow> ('p \<times> 'b list) option" where
  "serve alloc release [] c = Some c"
| "serve alloc release (Take r # rs) (p, held) =
     do { (b, p) \<leftarrow> alloc r p;
          case b of None \<Rightarrow> serve alloc release rs (p, held) | Some b \<Rightarrow> serve alloc release rs (p, b # held) }"
| "serve alloc release (Give b # rs) (p, held) =
     (if b \<in> set held then do { p \<leftarrow> release b p; serve alloc release rs (p, removeAll b held) }
      else serve alloc release rs (p, held))"

locale allocator =
  fixes inv :: "'p \<Rightarrow> bool" and used :: "'p \<Rightarrow> 'b set" and room :: "'r \<Rightarrow> 'p \<Rightarrow> bool"
    and alloc :: "'r \<Rightarrow> 'p \<Rightarrow> ('b option \<times> 'p) option" and release :: "'b \<Rightarrow> 'p \<Rightarrow> 'p option"
  assumes alloc_ok: "\<lbrakk>inv p; room r p\<rbrakk> \<Longrightarrow>
      \<exists>b p'. alloc r p = Some (Some b, p') \<and> inv p' \<and> b \<notin> used p \<and> used p' = insert b (used p)"
    and alloc_none: "\<lbrakk>inv p; \<not> room r p\<rbrakk> \<Longrightarrow> alloc r p = Some (None, p)"
    and release_ok: "\<lbrakk>inv p; b \<in> used p\<rbrakk> \<Longrightarrow> \<exists>p'. release b p = Some p' \<and> inv p' \<and> used p' = used p - {b}"
begin

lemma serve_ok:
  assumes "inv p" "distinct held" "set held = used p"
  shows "\<exists>p' held'. serve alloc release rs (p, held) = Some (p', held') \<and> inv p' \<and> distinct held' \<and> set held' = used p'"
  using assms
proof (induction rs arbitrary: p held)
  case (Cons r rs)
  show ?case
  proof (cases r)
    case (Take q)
    show ?thesis
    proof (cases "room q p")
      case True
      obtain b p' where "alloc q p = Some (Some b, p')" "inv p'" "b \<notin> used p" "used p' = insert b (used p)"
        using alloc_ok [OF Cons.prems(1) True] by blast
      then show ?thesis using Cons.IH [of p' "b # held"] Cons.prems Take by simp
    next
      case False
      then show ?thesis using Cons.IH [OF Cons.prems] alloc_none [OF Cons.prems(1)] Take by simp
    qed
  next
    case (Give b)
    show ?thesis
    proof (cases "b \<in> used p")
      case True
      obtain p' where "release b p = Some p'" "inv p'" "used p' = used p - {b}"
        using release_ok [OF Cons.prems(1) True] by blast
      then show ?thesis using Cons.IH [of p' "removeAll b held"] Cons.prems Give True
        by (simp add: distinct_removeAll)
    next
      case False
      then show ?thesis using Cons.IH [OF Cons.prems] Cons.prems(3) Give by simp
    qed
  qed
qed simp

text \<open>What is given back can be handed out again.\<close>

lemma release_alloc:
  assumes "inv p" "room r p" "alloc r p = Some (Some b, p')"
  shows "\<exists>q. release b p' = Some q \<and> inv q \<and> used q = used p"
proof -
  have "inv p'" "b \<notin> used p" "used p' = insert b (used p)" using alloc_ok [OF assms(1,2)] assms(3) by auto
  then show ?thesis using release_ok [of p' b] by auto
qed

end

end
