(* ===== verification/Mempool.thy ===== *)
theory Mempool
  imports MsgQueue Alloc
begin

text \<open>
  Memory pools (\<^verbatim>\<open>src/mempool.c\<close>): blocks of one size, the free ones chained through
  their headers, a used one pointing to its pool. A block is named by its index in the pool. A
  thread that waits for a block goes to the front of the pool's waiting list.
\<close>

section \<open>The code\<close>

definition mp_init_links :: "nat \<Rightarrow> nat \<Rightarrow> block_link" where
  "mp_init_links cnt = (\<lambda>offset. if offset = cnt - 1 then BFree None else BFree (Some (offset + 1)))"

text \<open>With no block the code writes in front of the pool, hence the assertion.\<close>

definition fresh_mp :: "u32 \<Rightarrow> u32 \<Rightarrow> rt_mempool option" where
  "fresh_mp bsize cnt =
     do { rt_assert (cnt \<noteq> 0);
          Some \<lparr>block_size = bsize, block_list = Some 0, block_total_count = cnt, block_free_count = cnt,
                suspend_thread_count = 0, block_links = mp_init_links (unat cnt)\<rparr> }"

definition rt_mp_init :: "nat \<Rightarrow> cbuf \<Rightarrow> u32 \<Rightarrow> u32 \<Rightarrow> kernel \<Rightarrow> (rt_err \<times> kernel) option" where
  "rt_mp_init mp name sz bsize s =
     do { s \<leftarrow> rt_object_init (OMemPool mp) RT_Object_Class_MemPool name s;
          let sz = RT_ALIGN_DOWN sz 4;
          let bsize = RT_ALIGN bsize 4;
          let s = s\<lparr>tlists := (tlists s)(SuspendQ (OMemPool mp) := [])\<rparr>;
          m \<leftarrow> fresh_mp bsize (sz div (bsize + 4));
          Some (RT_EOK, s\<lparr>mempools := (mempools s)(mp \<mapsto> m)\<rparr>) }"

partial_function (option) mp_wake_all :: "nat \<Rightarrow> kernel \<Rightarrow> kernel option" where
  "mp_wake_all mp s =
     (case tlists s (SuspendQ (OMemPool mp)) of
        [] \<Rightarrow> Some s
      | t # _ \<Rightarrow>
          do { (_, s) \<leftarrow> rt_thread_resume t (upd_thread t (\<lambda>th. th\<lparr>thread_error := - RT_ERROR\<rparr>) s);
               m \<leftarrow> mempools s mp;
               mp_wake_all mp (s\<lparr>mempools := (mempools s)(mp \<mapsto> m\<lparr>suspend_thread_count := suspend_thread_count m - 1\<rparr>)\<rparr>) })"

definition rt_mp_detach :: "nat \<Rightarrow> kernel \<Rightarrow> (rt_err \<times> kernel) option" where
  "rt_mp_detach mp s =
     do { check_type s (OMemPool mp) RT_Object_Class_MemPool;
          sys \<leftarrow> rt_object_is_systemobject s (OMemPool mp);
          rt_assert sys;
          s \<leftarrow> mp_wake_all mp s;
          s \<leftarrow> rt_object_detach (OMemPool mp) s;
          Some (RT_EOK, s) }"

text \<open>\<open>start\<close> says whether \<^verbatim>\<open>rt_malloc\<close> found room for the blocks.\<close>

definition rt_mp_create :: "cbuf \<Rightarrow> u32 \<Rightarrow> u32 \<Rightarrow> nat option \<Rightarrow> bool \<Rightarrow> kernel \<Rightarrow> (nat option \<times> kernel) option" where
  "rt_mp_create name block_count bsize mem start s =
     do { not_in_interrupt s;
          (r, s) \<leftarrow> rt_object_allocate RT_Object_Class_MemPool name (map_option OMemPool mem) s;
          case (r, mem) of
            (Some _, Some mp) \<Rightarrow>
              (if \<not> start then do { s \<leftarrow> rt_object_delete (OMemPool mp) s; Some (None, s) }
               else do { let s = s\<lparr>tlists := (tlists s)(SuspendQ (OMemPool mp) := [])\<rparr>;
                         m \<leftarrow> fresh_mp (RT_ALIGN bsize 4) block_count;
                         Some (Some mp, s\<lparr>mempools := (mempools s)(mp \<mapsto> m)\<rparr>) })
          | _ \<Rightarrow> Some (None, s) }"

definition rt_mp_delete :: "nat \<Rightarrow> kernel \<Rightarrow> (rt_err \<times> kernel) option" where
  "rt_mp_delete mp s =
     do { not_in_interrupt s;
          check_type s (OMemPool mp) RT_Object_Class_MemPool;
          sys \<leftarrow> rt_object_is_systemobject s (OMemPool mp);
          rt_assert (\<not> sys);
          s \<leftarrow> mp_wake_all mp s;
          s \<leftarrow> rt_object_delete (OMemPool mp) s;
          Some (RT_EOK, s\<lparr>mempools := (mempools s)(mp := None)\<rparr>) }"

text \<open>The head of the free list leaves it and points to its pool; a block returns to the head.\<close>

definition mp_take :: "nat \<Rightarrow> rt_mempool \<Rightarrow> (nat \<times> rt_mempool) option" where
  "mp_take mp m =
     do { let m = m\<lparr>block_free_count := block_free_count m - 1\<rparr>;
          i \<leftarrow> block_list m;
          n \<leftarrow> (case block_links m i of BFree n \<Rightarrow> Some n | BUsed _ \<Rightarrow> None);
          Some (i, m\<lparr>block_list := n, block_links := (block_links m)(i := BUsed mp)\<rparr>) }"

definition mp_give :: "nat \<Rightarrow> nat \<Rightarrow> rt_mempool \<Rightarrow> rt_mempool option" where
  "mp_give mp i m =
     do { p \<leftarrow> (case block_links m i of BUsed p \<Rightarrow> Some p | BFree _ \<Rightarrow> None);
          rt_assert (p = mp);
          Some (m\<lparr>block_free_count := block_free_count m + 1, block_links := (block_links m)(i := BFree (block_list m)),
                  block_list := Some i\<rparr>) }"

definition mp_alloc_loop :: "nat \<Rightarrow> u32 \<Rightarrow> u32 \<Rightarrow> tid option \<Rightarrow> kernel \<Rightarrow> (nat option blocking \<times> kernel) option" where
  "mp_alloc_loop mp time before_sleep thread s =
     do { m \<leftarrow> mempools s mp;
          if block_free_count m = 0
          then if sint time = 0 then Some (Done None, rt_set_errno (- RT_ETIMEOUT) s)
               else do { not_in_interrupt s;
                         t \<leftarrow> thread;
                         let s = upd_thread t (\<lambda>th. th\<lparr>thread_error := RT_EOK\<rparr>) s;
                         (_, s) \<leftarrow> rt_thread_suspend t s;
                         let s = s\<lparr>tlists := ls_insert_after (SuspendQ (OMemPool mp)) t (tlists s),
                                   mempools := (mempools s)(mp \<mapsto> m\<lparr>suspend_thread_count := suspend_thread_count m + 1\<rparr>)\<rparr>;
                         let tick = (if sint time > 0 then rt_tick s else before_sleep);
                         s \<leftarrow> (if sint time > 0 then start_thread_timer t time s else Some s);
                         s \<leftarrow> rt_schedule s;
                         Some (Waiting time tick, s) }
          else do { (i, m) \<leftarrow> mp_take mp m;
                    Some (Done (Some i), s\<lparr>mempools := (mempools s)(mp \<mapsto> m)\<rparr>) } }"

definition rt_mp_alloc :: "nat \<Rightarrow> u32 \<Rightarrow> kernel \<Rightarrow> (nat option blocking \<times> kernel) option" where
  "rt_mp_alloc mp time s = mp_alloc_loop mp time 0 (rt_thread_self s) s"

definition rt_mp_alloc_resumed :: "nat \<Rightarrow> u32 \<Rightarrow> u32 \<Rightarrow> tid \<Rightarrow> kernel \<Rightarrow> (nat option blocking \<times> kernel) option" where
  "rt_mp_alloc_resumed mp time before_sleep t s =
     do { th \<leftarrow> threads s t;
          if thread_error th \<noteq> RT_EOK then Some (Done None, s)
          else mp_alloc_loop mp (wait_left time before_sleep s) before_sleep (Some t) s }"

definition rt_mp_free :: "nat \<Rightarrow> nat \<Rightarrow> kernel \<Rightarrow> kernel option" where
  "rt_mp_free mp i s =
     do { m \<leftarrow> mempools s mp;
          m \<leftarrow> mp_give mp i m;
          if suspend_thread_count m > 0
          then case tlists s (SuspendQ (OMemPool mp)) of
                 [] \<Rightarrow> None
               | t # _ \<Rightarrow>
                   do { let s = upd_thread t (\<lambda>th. th\<lparr>thread_error := RT_EOK\<rparr>) s;
                        (_, s) \<leftarrow> rt_thread_resume t s;
                        rt_schedule (s\<lparr>mempools := (mempools s)(mp \<mapsto>
                            m\<lparr>suspend_thread_count := suspend_thread_count m - 1\<rparr>)\<rparr>) }
          else Some (s\<lparr>mempools := (mempools s)(mp \<mapsto> m)\<rparr>) }"

section \<open>Blocks\<close>

definition link_next :: "block_link \<Rightarrow> nat option" where
  "link_next l = (case l of BFree n \<Rightarrow> n | BUsed _ \<Rightarrow> None)"

text \<open>A pool in order: the free list \<open>f\<close> and the blocks that are out are all its blocks.\<close>

definition blocks :: "nat \<Rightarrow> rt_mempool \<Rightarrow> nat list \<Rightarrow> bool" where
  "blocks mp m f \<longleftrightarrow>
     chain (\<lambda>i. link_next (block_links m i)) (block_list m) f \<and> distinct f \<and>
     unat (block_free_count m) = length f \<and> set f \<subseteq> {..<unat (block_total_count m)} \<and>
     (\<forall>i < unat (block_total_count m). if i \<in> set f then \<exists>n. block_links m i = BFree n else block_links m i = BUsed mp)"

definition mp_used :: "rt_mempool \<Rightarrow> nat set" where
  "mp_used m = {i. i < unat (block_total_count m) \<and> (\<exists>p. block_links m i = BUsed p)}"

definition pool_ok :: "nat \<Rightarrow> rt_mempool \<Rightarrow> bool" where
  "pool_ok mp m \<longleftrightarrow> (\<exists>f. blocks mp m f)"

lemma blocks_count [simp]:
  "blocks mp (m\<lparr>suspend_thread_count := c\<rparr>) f = blocks mp m f" "mp_used (m\<lparr>suspend_thread_count := c\<rparr>) = mp_used m"
  "pool_ok mp (m\<lparr>suspend_thread_count := c\<rparr>) = pool_ok mp m"
  by (simp_all add: blocks_def mp_used_def pool_ok_def)

lemma blocks_used: "blocks mp m f \<Longrightarrow> mp_used m = {..<unat (block_total_count m)} - set f"
  unfolding blocks_def mp_used_def by (force split: if_splits)

lemma chain_cong: "(\<And>i. i \<in> set xs \<Longrightarrow> nx i = nx' i) \<Longrightarrow> chain nx p xs = chain nx' p xs"
  by (induction xs arbitrary: p) auto

lemma chain_links_upd:
  "i \<notin> set f \<Longrightarrow> chain (\<lambda>j. link_next ((l(i := v)) j)) p f = chain (\<lambda>j. link_next (l j)) p f"
  by (rule chain_cong) auto


lemma mp_take_blocks:
  assumes b: "blocks mp m f" and c: "block_free_count m \<noteq> 0"
  shows "\<exists>i g m'. f = i # g \<and> mp_take mp m = Some (i, m') \<and> blocks mp m' g \<and>
    block_total_count m' = block_total_count m \<and> suspend_thread_count m' = suspend_thread_count m \<and> block_size m' = block_size m"
proof -
  have "unat (block_free_count m) > 0" using c by (simp add: unat_gt_0)
  then obtain i g where f: "f = i # g" using b by (cases f) (auto simp: blocks_def)
  have i: "block_list m = Some i" "i \<notin> set g" "i < unat (block_total_count m)" using b f by (auto simp: blocks_def)
  have "i \<in> set f" using f by simp
  then obtain n where n: "block_links m i = BFree n" using b i(3) unfolding blocks_def by metis
  let ?m = "m\<lparr>block_free_count := block_free_count m - 1, block_list := n, block_links := (block_links m)(i := BUsed mp)\<rparr>"
  have "chain (\<lambda>j. link_next (((block_links m)(i := BUsed mp)) j)) n g"
    using b f n chain_links_upd [OF i(2)] by (simp add: blocks_def link_next_def)
  moreover have "unat (block_free_count m - 1) = length g"
    using b f c by (simp add: blocks_def unat_minus_one)
  ultimately have "blocks mp ?m g" using b f i(2) unfolding blocks_def by auto
  then show ?thesis using f i(1) n by (auto simp: mp_take_def)
qed

lemma mp_give_blocks:
  assumes b: "blocks mp m f" and i: "i \<in> mp_used m"
  shows "\<exists>m'. mp_give mp i m = Some m' \<and> blocks mp m' (i # f) \<and> block_total_count m' = block_total_count m \<and>
    suspend_thread_count m' = suspend_thread_count m \<and> block_size m' = block_size m"
proof -
  have u: "i < unat (block_total_count m)" "i \<notin> set f" using i blocks_used [OF b] by auto
  then have l: "block_links m i = BUsed mp" using b by (simp add: blocks_def)
  let ?m = "m\<lparr>block_free_count := block_free_count m + 1, block_links := (block_links m)(i := BFree (block_list m)),
                  block_list := Some i\<rparr>"
  have "card (set f) < unat (block_total_count m)"
  proof -
    have "set f \<subset> {..<unat (block_total_count m)}" using b u by (auto simp: blocks_def)
    then show ?thesis using psubset_card_mono [of "{..<unat (block_total_count m)}" "set f"] by simp
  qed
  then have "length f < unat (block_total_count m)" using b by (simp add: blocks_def distinct_card)
  then have "unat (block_free_count m + 1) = Suc (length f)"
    using b unsigned_less [of "block_total_count m", where 'a = nat] by (simp add: blocks_def unat_word_ariths)
  moreover have "chain (\<lambda>j. link_next (((block_links m)(i := BFree (block_list m))) j)) (block_list m) f"
    using b chain_links_upd [OF u(2)] by (simp add: blocks_def)
  ultimately have "blocks mp ?m (i # f)" using b u unfolding blocks_def by (auto simp: link_next_def)
  then show ?thesis using l by (simp add: mp_give_def)
qed

text \<open>A pool is an allocator.\<close>

definition pool_take :: "nat \<Rightarrow> unit \<Rightarrow> rt_mempool \<Rightarrow> (nat option \<times> rt_mempool) option" where
  "pool_take mp r m =
     (if block_free_count m = 0 then Some (None, m) else do { (i, m) \<leftarrow> mp_take mp m; Some (Some i, m) })"

interpretation pool: allocator "pool_ok mp" mp_used "\<lambda>_ m. block_free_count m \<noteq> 0" "pool_take mp" "mp_give mp" for mp
proof
  show "\<exists>b p'. pool_take mp r p = Some (Some b, p') \<and> pool_ok mp p' \<and> b \<notin> mp_used p \<and> mp_used p' = insert b (mp_used p)"
    if p: "pool_ok mp p" and c: "block_free_count p \<noteq> 0" for r p
  proof -
    obtain f where f: "blocks mp p f" using p by (auto simp: pool_ok_def)
    obtain i g p' where i: "f = i # g" "mp_take mp p = Some (i, p')" "blocks mp p' g" "block_total_count p' = block_total_count p"
      using mp_take_blocks [OF f c] by blast
    have "i \<in> {..<unat (block_total_count p)} - set g" using f i(1) by (auto simp: blocks_def)
    then show ?thesis using i c blocks_used [OF f] blocks_used [OF i(3)] by (auto simp: pool_take_def pool_ok_def)
  qed
  show "\<exists>p'. mp_give mp b p = Some p' \<and> pool_ok mp p' \<and> mp_used p' = mp_used p - {b}"
    if p: "pool_ok mp p" and b: "b \<in> mp_used p" for p b
  proof -
    obtain f where f: "blocks mp p f" using p by (auto simp: pool_ok_def)
    obtain p' where "mp_give mp b p = Some p'" "blocks mp p' (b # f)" "block_total_count p' = block_total_count p"
      using mp_give_blocks [OF f b] by blast
    then show ?thesis using blocks_used [OF f] blocks_used [of mp p' "b # f"] by (auto simp: pool_ok_def)
  qed
qed (simp add: pool_take_def)

section \<open>In the kernel\<close>

text \<open>A thread that finds no block goes to the front of the waiting list.\<close>

lemma mp_waits:
  assumes wf: "kernel_wf s" and m: "mempools s mp = Some m" "block_free_count m = 0"
    and t: "threads s t = Some th" "stat_of th = RT_THREAD_READY"
    and irq: "rt_interrupt_nest s = 0" and run: "runnable_without t s"
    and time: "sint time \<noteq> 0" "sint time > 0 \<longrightarrow> time < RT_TICK_MAX div 2"
  obtains s' k where "mp_alloc_loop mp time d (Some t) s = Some (Waiting time k, s')" "kernel_wf s'"
    "mempools s' = (mempools s)(mp \<mapsto> m\<lparr>suspend_thread_count := suspend_thread_count m + 1\<rparr>)"
    "tlists s' (SuspendQ (OMemPool mp)) = t # tlists s (SuspendQ (OMemPool mp))"
    "threads s' = (threads s)(t \<mapsto> set_stat RT_THREAD_SUSPEND (th\<lparr>thread_error := RT_EOK\<rparr>))"
    "if sint time > 0 then ThreadTimer t \<in> set (rt_timer_list s') \<and> due_in s' (ThreadTimer t) = time
     else ThreadTimer t \<notin> set (rt_timer_list s')"
    "rt_scheduler_lock_nest s = 0 \<longrightarrow> runs_highest s'"
proof -
  let ?h = "SuspendQ (OMemPool mp)" and ?g = "th\<lparr>thread_error := RT_EOK\<rparr>"
  let ?e = "upd_thread t (\<lambda>th. th\<lparr>thread_error := RT_EOK\<rparr>) s"
  note e = upd_error_wf [OF wf t(1), of RT_EOK]
  have et: "threads ?e t = Some ?g" "stat_of ?g = RT_THREAD_READY" using e(2) t(2) by simp_all
  let ?u = "suspended t ?g ?e"
  have u: "rt_thread_suspend t ?e = Some (RT_EOK, ?u)" "kernel_wf ?u"
    using rt_thread_suspend_eq [OF e(1) et(1)] et(2) suspended_wf [OF e(1) et] by simp_all
  have re: "runnable_without t ?e"
    by (rule runnable_without_upd [OF run t(1) e(2)]) (use t(2) in \<open>simp_all add: rt_scheduler_stack_check_def\<close>)
  define l where "l = ls_insert_after ?h t (tlists ?u)"
  let ?m = "m\<lparr>suspend_thread_count := suspend_thread_count m + 1\<rparr>"
  let ?v = "?u\<lparr>tlists := l, mempools := (mempools ?u)(mp \<mapsto> ?m)\<rparr>"
  have un: "unlinked t (tlists ?u)" by (simp add: unlinked_def)
  have "sched_wf (?u\<lparr>tlists := l\<rparr>)"
  proof (rule sched_wf_park [OF kernel_wfD(1) [OF u(2)], of t _ ?h])
    show "threads ?u t = Some (set_stat RT_THREAD_SUSPEND ?g)" by simp
    show "lists_wf l" unfolding l_def
      by (rule lists_wf_insert_after [OF sched_wf_lists [OF kernel_wfD(1) [OF u(2)]] un])
  qed (auto simp: l_def ls_insert_after_def)
  then have v: "kernel_wf ?v" using kernel_wf_tlists [OF u(2)] by simp
  have vt: "threads ?v t = Some (set_stat RT_THREAD_SUSPEND ?g)" by simp
  define a where "a = (if sint time > 0 then armed t time ?v else ?v)"
  have a: "kernel_wf a" "(if sint time > 0 then start_thread_timer t time ?v else Some ?v) = Some a"
    "threads a = threads ?v" "tlists a = tlists ?v" "same_rest ?v a"
    using start_thread_timer_eq [OF v vt] time(2) v same_rest_armed by (simp_all add: a_def same_rest_def)
  have ra: "runnable a" using runnable_suspended [OF re et] runnable_cong [of a ?u] a(3) by simp
  obtain s' where s': "rt_schedule a = Some s'" "kernel_wf s'" "same_rest a s'" "threads s' = threads a"
    "tlists s' = tlists a" "rt_timer_list s' = rt_timer_list a" "timers s' = timers a" "runnable s'"
    "rt_scheduler_lock_nest a = 0 \<longrightarrow> runs_highest s'" using schedule_ends [OF a(1) ra] .
  have mu: "mempools ?u = mempools s"
    using same_restD(6) [OF same_rest_suspended] same_restD(6) [OF e(6)] by simp
  show thesis
  proof (rule that)
    have "thread_obj s t" using threads_wfD(1) [OF kernel_wfD(4) [OF wf] t(1)] t(2) by simp
    then obtain tm where tm: "timers ?v (ThreadTimer t) = Some tm" by (auto elim!: thread_objE simp: upd_thread_def)
    have due: "due_in s' y = due_in a y" for y
      using s'(7) same_restD(7) [OF s'(3)] by (simp add: due_in_def timeout_of_def)
    show "if sint time > 0 then ThreadTimer t \<in> set (rt_timer_list s') \<and> due_in s' (ThreadTimer t) = time
      else ThreadTimer t \<notin> set (rt_timer_list s')"
      unfolding s'(6) due using armed_due [OF tm, of time] by (simp add: a_def)
    have ni: "not_in_interrupt s = Some ()" using irq by (simp add: not_in_interrupt_def)
    show "mp_alloc_loop mp time d (Some t) s = Some (Waiting time (if sint time > 0 then rt_tick ?v else d), s')"
      using m time(1) ni u(1) a(2) s'(1) by (cases "sint time > 0") (simp_all add: mp_alloc_loop_def l_def Let_def)
    show "mempools s' = (mempools s)(mp \<mapsto> ?m)" using same_restD(6) [OF s'(3)] same_restD(6) [OF a(5)] mu by simp
    show "tlists s' ?h = t # tlists s ?h"
      using s'(5) a(4) ready_off_waitq [OF kernel_wfD(1) [OF wf] t, of ?h] e(3) by (simp add: l_def ls_insert_after_def)
    show "threads s' = (threads s)(t \<mapsto> set_stat RT_THREAD_SUSPEND ?g)" using s'(4) a(3) e(2) by simp
    have "rt_scheduler_lock_nest a = rt_scheduler_lock_nest s"
      using same_restD(9) [OF a(5)] same_restD(9) [OF same_rest_suspended [of ?e t ?g]] same_restD(9) [OF e(6)] by simp
    then show "rt_scheduler_lock_nest s = 0 \<longrightarrow> runs_highest s'" using s'(9) by simp
  qed (fact s'(2))
qed

text \<open>
  Allocating from a pool, on every branch: with a free block the caller gets one that nobody holds;
  with none it gets a null pointer and \<^verbatim>\<open>-RT_ETIMEOUT\<close> as its error number without a
  wait, and otherwise waits at the front of the pool's list. The pool stays in order.
\<close>

theorem mp_alloc_branches:
  assumes wf: "kernel_wf s" and m: "mempools s mp = Some m" and ok: "pool_ok mp m"
    and cur: "rt_current_thread s = Some t" "threads s t = Some th" "stat_of th = RT_THREAD_READY"
    and irq: "rt_interrupt_nest s = 0" "rt_scheduler_lock_nest s = 0" and run: "runnable_without t s"
    and time: "sint time > 0 \<longrightarrow> time < RT_TICK_MAX div 2"
  shows "\<exists>r s' m'. rt_mp_alloc mp time s = Some (r, s') \<and> kernel_wf s' \<and> mempools s' mp = Some m' \<and> pool_ok mp m' \<and>
    (if block_free_count m \<noteq> 0
     then \<exists>i. r = Done (Some i) \<and> i < unat (block_total_count m) \<and> i \<notin> mp_used m \<and> mp_used m' = insert i (mp_used m)
     else if sint time = 0 then r = Done None \<and> m' = m \<and> rt_get_errno s' = Some (- RT_ETIMEOUT)
     else (\<exists>k. r = Waiting time k) \<and> mp_used m' = mp_used m \<and> runs_highest s' \<and>
       tlists s' (SuspendQ (OMemPool mp)) = t # tlists s (SuspendQ (OMemPool mp)) \<and>
       suspend_thread_count m' = suspend_thread_count m + 1)"
proof -
  have a: "rt_mp_alloc mp time s = mp_alloc_loop mp time 0 (Some t) s"
    using cur(1) by (simp add: rt_mp_alloc_def rt_thread_self_def)
  consider (free) "block_free_count m \<noteq> 0" | (fail) "block_free_count m = 0" "sint time = 0"
    | (wait) "block_free_count m = 0" "sint time \<noteq> 0" by blast
  then show ?thesis
  proof cases
    case free
    obtain i m' where i: "pool_take mp () m = Some (Some i, m')" "pool_ok mp m'" "i \<notin> mp_used m" "mp_used m' = insert i (mp_used m)"
      using pool.alloc_ok [OF ok free] by blast
    obtain f where f: "blocks mp m f" using ok by (auto simp: pool_ok_def)
    have tk: "mp_take mp m = Some (i, m')" using i(1) free by (auto simp: pool_take_def bind_Some_iff)
    have "i < unat (block_total_count m)" using mp_take_blocks [OF f free] tk f by (auto simp: blocks_def)
    moreover have "mp_alloc_loop mp time 0 (Some t) s = Some (Done (Some i), s\<lparr>mempools := (mempools s)(mp \<mapsto> m')\<rparr>)"
      using m free tk by (simp add: mp_alloc_loop_def)
    ultimately show ?thesis using a free i wf by simp
  next
    case fail
    note e = upd_error_wf [OF wf cur(2), of "- RT_ETIMEOUT"]
    have se: "rt_set_errno (- RT_ETIMEOUT) s = upd_thread t (\<lambda>th. th\<lparr>thread_error := - RT_ETIMEOUT\<rparr>) s"
      using irq(1) cur(1) by (simp add: rt_set_errno_def rt_interrupt_get_nest_def rt_thread_self_def)
    have "mp_alloc_loop mp time 0 (Some t) s = Some (Done None, rt_set_errno (- RT_ETIMEOUT) s)"
      using m fail by (simp add: mp_alloc_loop_def)
    moreover have "rt_get_errno (upd_thread t (\<lambda>th. th\<lparr>thread_error := - RT_ETIMEOUT\<rparr>) s) = Some (- RT_ETIMEOUT)"
      using irq(1) cur(1) e(2,7) same_restD(8) [OF e(6)]
      by (simp add: rt_get_errno_def rt_interrupt_get_nest_def rt_thread_self_def)
    ultimately show ?thesis using a fail e(1) se m ok same_restD(6) [OF e(6)] by simp
  next
    case wait
    obtain s' k where "mp_alloc_loop mp time 0 (Some t) s = Some (Waiting time k, s')" "kernel_wf s'"
      "mempools s' = (mempools s)(mp \<mapsto> m\<lparr>suspend_thread_count := suspend_thread_count m + 1\<rparr>)"
      "tlists s' (SuspendQ (OMemPool mp)) = t # tlists s (SuspendQ (OMemPool mp))"
      "threads s' = (threads s)(t \<mapsto> set_stat RT_THREAD_SUSPEND (th\<lparr>thread_error := RT_EOK\<rparr>))"
      "if sint time > 0 then ThreadTimer t \<in> set (rt_timer_list s') \<and> due_in s' (ThreadTimer t) = time
       else ThreadTimer t \<notin> set (rt_timer_list s')"
      "rt_scheduler_lock_nest s = 0 \<longrightarrow> runs_highest s'"
      using mp_waits [OF wf m wait(1) cur(2,3) irq(1) run wait(2) time] .
    then show ?thesis using a wait irq(2) ok by simp
  qed
qed

text \<open>The waiting threads are those that are counted.\<close>

definition counted :: "kernel \<Rightarrow> nat \<Rightarrow> rt_mempool \<Rightarrow> bool" where
  "counted s mp m \<longleftrightarrow> unat (suspend_thread_count m) = length (tlists s (SuspendQ (OMemPool mp)))"

text \<open>
  Freeing a block of a pool whose waiting threads are counted right: the block can be handed out
  again, the thread at the front of the list, if any, is ready with \<^verbatim>\<open>RT_EOK\<close>, and the
  pool and its count stay in order.
\<close>

theorem mp_free_serves:
  assumes wf: "kernel_wf s" and m: "mempools s mp = Some m" and ok: "pool_ok mp m" and cnt: "counted s mp m"
    and i: "i \<in> mp_used m" and run: "runnable s"
  shows "\<exists>s' m'. rt_mp_free mp i s = Some s' \<and> kernel_wf s' \<and> mempools s' mp = Some m' \<and> pool_ok mp m' \<and>
    mp_used m' = mp_used m - {i} \<and> counted s' mp m' \<and>
    tlists s' (SuspendQ (OMemPool mp)) = tl (tlists s (SuspendQ (OMemPool mp))) \<and>
    (case tlists s (SuspendQ (OMemPool mp)) of [] \<Rightarrow> threads s' = threads s
     | t # _ \<Rightarrow> threads s' = (threads s)(t :=
         map_option (\<lambda>th. set_stat RT_THREAD_READY (th\<lparr>thread_error := RT_EOK\<rparr>)) (threads s t)))"
proof -
  let ?h = "SuspendQ (OMemPool mp)"
  obtain f where f: "blocks mp m f" using ok by (auto simp: pool_ok_def)
  obtain n where n: "mp_give mp i m = Some n" "blocks mp n (i # f)" "suspend_thread_count n = suspend_thread_count m"
    using mp_give_blocks [OF f i] by blast
  have u: "pool_ok mp n" "mp_used n = mp_used m - {i}"
    using pool.release_ok [OF ok i] n(1) by auto
  show ?thesis
  proof (cases "tlists s ?h")
    case Nil
    let ?s = "s\<lparr>mempools := (mempools s)(mp \<mapsto> n)\<rparr>"
    have z: "suspend_thread_count n = 0" using cnt Nil n(3) by (simp add: counted_def unsigned_eq_0_iff)
    have "rt_mp_free mp i s = Some ?s" using m n(1) z by (simp add: rt_mp_free_def)
    then show ?thesis using wf u Nil z by (simp add: counted_def)
  next
    case (Cons t q)
    obtain th where th: "threads s t = Some th" "stat_of th = RT_THREAD_SUSPEND"
      using waitq_member [OF kernel_wfD(1) [OF wf], of ?h t] Cons by auto
    let ?g = "th\<lparr>thread_error := RT_EOK\<rparr>" and ?e = "upd_thread t (\<lambda>th. th\<lparr>thread_error := RT_EOK\<rparr>) s"
    note e = upd_error_wf [OF wf th(1), of RT_EOK]
    have et: "threads ?e t = Some ?g" "stat_of ?g = RT_THREAD_SUSPEND" using e(2) th(2) by simp_all
    note w = rt_thread_resume_woken [OF e(1) et]
    let ?n = "n\<lparr>suspend_thread_count := suspend_thread_count n - 1\<rparr>"
    let ?w = "woken t ?g ?e" and ?v = "(woken t ?g ?e)\<lparr>mempools := (mempools (woken t ?g ?e))(mp \<mapsto> ?n)\<rparr>"
    have so: "stacks_ok ?e"
      by (rule stacks_ok_upd [OF _ th(1) e(2)]) (use run th(2) in \<open>simp_all add: runnable_def rt_scheduler_stack_check_def\<close>)
    have v: "kernel_wf ?v" "runnable ?v"
      using w(2) runnable_woken [OF et so] runnable_cong [of ?v ?w] by simp_all
    obtain s' where s': "rt_schedule ?v = Some s'" "kernel_wf s'" "same_rest ?v s'" "threads s' = threads ?v"
      "tlists s' = tlists ?v" "rt_timer_list s' = rt_timer_list ?v" "timers s' = timers ?v" "runnable s'"
      "rt_scheduler_lock_nest ?v = 0 \<longrightarrow> runs_highest s'" using schedule_ends [OF v] .
    have lw: "lists_wf (tlists ?e)" using sched_wf_lists [OF kernel_wfD(1) [OF e(1)]] .
    have q: "tlists s' ?h = q"
      using s'(5) woken_queue [OF lw, of ?h t ?g] removeAll_hd [OF lw, of ?h t q] e(3) Cons by simp
    have c: "unat (suspend_thread_count n) = Suc (length q)" using cnt Cons n(3) by (simp add: counted_def)
    then have pos: "suspend_thread_count n > 0" by (simp add: word_less_nat_alt)
    then have "unat (suspend_thread_count n - 1) = length q" using c by (simp add: unat_minus_one)
    moreover have "rt_mp_free mp i s = Some s'"
      using m n(1) pos Cons w(1) s'(1) by (simp add: rt_mp_free_def)
    moreover have "mempools s' mp = Some ?n" using same_restD(6) [OF s'(3)] by simp
    moreover have "threads s' = (threads s)(t \<mapsto> set_stat RT_THREAD_READY ?g)" using s'(4) e(2) by simp
    ultimately show ?thesis using s'(2) u q Cons th(1) by (simp add: counted_def)
  qed
qed

text \<open>
  A wait that times out is not taken off the count: when the only thread waiting for a block of a pool
  times out, the next \<^verbatim>\<open>rt_mp_free\<close> on that pool, of any block that is out, takes the
  head of the empty list for a thread, which no well-formed state defines.
\<close>

theorem mp_timeout_miscounts:
  assumes wf: "kernel_wf s" and m: "mempools s mp = Some m" and ok: "pool_ok mp m" and cnt: "counted s mp m"
    and q: "tlists s (SuspendQ (OMemPool mp)) = [t]" and run: "runnable s" and i: "i \<in> mp_used m"
  shows "\<exists>s'. rt_thread_timeout t (rt_timer_remove (ThreadTimer t) s) = Some s' \<and> kernel_wf s' \<and>
    rt_mp_alloc_resumed mp time d t s' = Some (Done None, s') \<and> rt_mp_free mp i s' = None"
proof -
  let ?h = "SuspendQ (OMemPool mp)" and ?r = "rt_timer_remove (ThreadTimer t) s"
  obtain th where th: "threads s t = Some th" "stat_of th = RT_THREAD_SUSPEND"
    using waitq_member [OF kernel_wfD(1) [OF wf], of ?h t] q by auto
  have so: "stacks_ok ?r" using run by (simp add: runnable_def stacks_ok_def)
  obtain s' where s': "rt_thread_timeout t ?r = Some s'" "kernel_wf s'" "same_rest ?r s'"
    "threads s' = (threads ?r)(t \<mapsto> set_stat RT_THREAD_READY (th\<lparr>thread_error := - RT_ETIMEOUT\<rparr>))"
    "tlists s' = ls_insert_before (Ready (unat (current_priority th))) t (ls_remove t (tlists ?r))"
    using rt_thread_timeout_readies [OF remove_wf [OF wf], of "ThreadTimer t" t th] th so by auto
  have "mempools s' mp = Some m" using same_restD(6) [OF s'(3)] m by (simp add: rt_timer_remove_def)
  moreover have "tlists s' ?h = []" using s'(5) q by (simp add: ls_insert_before_def ls_remove_def)
  moreover obtain f where f: "blocks mp m f" using ok by (auto simp: pool_ok_def)
  moreover obtain n where "mp_give mp i m = Some n" "suspend_thread_count n = suspend_thread_count m"
    using mp_give_blocks [OF f i] by blast
  moreover have "suspend_thread_count m > 0" using cnt q by (simp add: counted_def word_less_nat_alt)
  ultimately have "rt_mp_free mp i s' = None" by (simp add: rt_mp_free_def)
  moreover have "rt_mp_alloc_resumed mp time d t s' = Some (Done None, s')"
    using s'(4) by (simp add: rt_mp_alloc_resumed_def)
  ultimately show ?thesis using s'(1,2) by blast
qed


subsection \<open>On the sample state\<close>

text \<open>A pool of two blocks; both out and thread 2 waiting, or one free.\<close>

definition demo_pool :: "(nat \<Rightarrow> block_link) \<Rightarrow> nat option \<Rightarrow> u32 \<Rightarrow> u32 \<Rightarrow> rt_mempool" where
  "demo_pool links fl free waiting = \<lparr>block_size = 8, block_list = fl, block_total_count = 2, block_free_count = free,
     suspend_thread_count = waiting, block_links = links\<rparr>"

definition demo_mp :: kernel where
  "demo_mp = demo\<lparr>mempools := [0 \<mapsto> demo_pool (\<lambda>i. if i = 0 then BUsed 0 else BFree None) (Some 1) 1 0]\<rparr>"

definition demo_mp_wait :: kernel where
  "demo_mp_wait = (demo_on (SuspendQ (OMemPool 0)) id)\<lparr>mempools := [0 \<mapsto> demo_pool (\<lambda>i. BUsed 0) None 0 1]\<rparr>"

lemma demo_mp_ok: "kernel_wf demo_mp" "runnable_without 1 demo_mp"
  "pool_ok 0 (demo_pool (\<lambda>i. if i = 0 then BUsed 0 else BFree None) (Some 1) 1 0)"
proof -
  show "kernel_wf demo_mp" using demo_wf by (simp add: demo_mp_def)
  have "threads demo_mp = threads demo" by (simp add: demo_mp_def)
  then show "runnable_without 1 demo_mp"
    using demo_runnable(2) by (simp add: runnable_without_def stacks_ok_def del: demo_sel)
  show "pool_ok 0 (demo_pool (\<lambda>i. if i = 0 then BUsed 0 else BFree None) (Some 1) 1 0)"
    unfolding pool_ok_def by (intro exI [of _ "[1]"]) (auto simp: blocks_def demo_pool_def link_next_def)
qed

lemma demo_mp_wait_ok: "kernel_wf demo_mp_wait" "runnable demo_mp_wait" "pool_ok 0 (demo_pool (\<lambda>i. BUsed 0) None 0 1)"
  "counted demo_mp_wait 0 (demo_pool (\<lambda>i. BUsed 0) None 0 1)" "0 \<in> mp_used (demo_pool (\<lambda>i. BUsed 0) None 0 1)"
  "mempools demo_mp_wait 0 = Some (demo_pool (\<lambda>i. BUsed 0) None 0 1)" "tlists demo_mp_wait (SuspendQ (OMemPool 0)) = [2]"
proof -
  have w: "kernel_wf (demo_on (SuspendQ (OMemPool 0)) id)" "runnable (demo_on (SuspendQ (OMemPool 0)) id)"
    by (rule demo_on_wf; simp)+
  show "kernel_wf demo_mp_wait" using w(1) by (simp add: demo_mp_wait_def)
  show "runnable demo_mp_wait" using w(2) runnable_cong [of demo_mp_wait "demo_on (SuspendQ (OMemPool 0)) id"]
    by (simp add: demo_mp_wait_def)
  show "pool_ok 0 (demo_pool (\<lambda>i. BUsed 0) None 0 1)"
    unfolding pool_ok_def by (intro exI [of _ "[]"]) (auto simp: blocks_def demo_pool_def)
qed (simp_all add: counted_def demo_pool_def demo_mp_wait_def mp_used_def)

theorem mp_alloc_branches_witness:
  "\<exists>s' i. rt_mp_alloc 0 0 demo_mp = Some (Done (Some i), s') \<and> i < 2"
proof -
  have d: "mempools demo_mp 0 = Some (demo_pool (\<lambda>i. if i = 0 then BUsed 0 else BFree None) (Some 1) 1 0)"
    "rt_current_thread demo_mp = Some 1" "threads demo_mp 1 = Some (demo_thread 10 1)"
    "stat_of (demo_thread 10 1) = 1" "rt_interrupt_nest demo_mp = 0" "rt_scheduler_lock_nest demo_mp = 0"
    by (simp_all add: demo_mp_def)
  show ?thesis
    using mp_alloc_branches [OF demo_mp_ok(1) d(1) demo_mp_ok(3) d(2-6) demo_mp_ok(2), of 0]
    by (auto simp: demo_pool_def)
qed

theorem mp_free_serves_witness:
  "\<exists>s'. rt_mp_free 0 0 demo_mp_wait = Some s' \<and> map_option stat_of (threads s' 2) = Some RT_THREAD_READY"
proof -
  have "threads demo_mp_wait 2 = Some (demo_thread 5 2)" by (simp add: demo_mp_wait_def)
  then show ?thesis
    using mp_free_serves [OF demo_mp_wait_ok(1,6,3,4,5,2)] demo_mp_wait_ok(7) by auto
qed

theorem mp_timeout_miscounts_witness:
  "\<exists>s'. rt_thread_timeout 2 (rt_timer_remove (ThreadTimer 2) demo_mp_wait) = Some s' \<and> rt_mp_free 0 0 s' = None"
  using mp_timeout_miscounts [OF demo_mp_wait_ok(1,6,3,4,7,2,5)] by blast


end
