(* ===== verification/Mem.thy ===== *)
theory Mem
  imports Mempool
begin

text \<open>
  The system heap (\<^verbatim>\<open>src/mem.c\<close>, \<^verbatim>\<open>RT_USING_SMALL_MEM\<close>): a
  doubly linked list of headers through the heap, first fit from the lowest free block, neighbours
  merged when a block is freed.

  Offsets and addresses are naturals below \<open>2 ^ 32\<close> with the wrap-around of 32-bit
  arithmetic written out (\<open>add32\<close>, \<open>sub32\<close>). \<open>headers\<close> is the memory read as
  \<^verbatim>\<open>struct heap_mem\<close> at an offset from \<^verbatim>\<open>heap_ptr\<close>, \<open>bytes\<close> the
  memory between the headers. The sections that run under \<^verbatim>\<open>heap_sem\<close> are
  \<open>heap_alloc\<close>, \<open>heap_free\<close> and \<open>heap_shrink\<close>; the calls take and release the
  semaphore around them.
\<close>

section \<open>The code\<close>

definition add32 :: "nat \<Rightarrow> nat \<Rightarrow> nat" where "add32 a b = (a + b) mod 2 ^ 32"
definition sub32 :: "nat \<Rightarrow> nat \<Rightarrow> nat" where "sub32 a b = (a + 2 ^ 32 - b) mod 2 ^ 32"

abbreviation (input) HEAP_MAGIC :: u16 where "HEAP_MAGIC \<equiv> 0x1ea0"
abbreviation (input) SIZEOF_STRUCT_MEM :: nat where "SIZEOF_STRUCT_MEM \<equiv> 12"
abbreviation (input) MIN_SIZE :: nat where "MIN_SIZE \<equiv> 12"
abbreviation (input) MIN_SIZE_ALIGNED :: nat where "MIN_SIZE_ALIGNED \<equiv> 12"

record heap_mem =
  hm_magic :: u16
  hm_used :: u16
  hm_next :: nat
  hm_prev :: nat

record heap =
  heap_ptr :: nat
  heap_end :: nat
  lfree :: nat
  mem_size_aligned :: nat
  used_mem :: nat
  max_mem :: nat
  headers :: "nat \<Rightarrow> heap_mem"
  heap_bytes :: "nat \<Rightarrow> u8"

definition set_hdr :: "nat \<Rightarrow> (heap_mem \<Rightarrow> heap_mem) \<Rightarrow> heap \<Rightarrow> heap" where
  "set_hdr o' f h = h\<lparr>headers := (headers h)(o' := f (headers h o'))\<rparr>"

definition plug_forward :: "nat \<Rightarrow> heap \<Rightarrow> heap" where
  "plug_forward mem h =
     (let nmem = hm_next (headers h mem)
      in if mem \<noteq> nmem \<and> hm_used (headers h nmem) = 0 \<and> nmem \<noteq> heap_end h
         then let h = (if lfree h = nmem then h\<lparr>lfree := mem\<rparr> else h);
                  h = set_hdr mem (\<lambda>m. m\<lparr>hm_next := hm_next (headers h nmem)\<rparr>) h
              in set_hdr (hm_next (headers h nmem)) (\<lambda>m. m\<lparr>hm_prev := mem\<rparr>) h
         else h)"

definition plug_backward :: "nat \<Rightarrow> heap \<Rightarrow> heap" where
  "plug_backward mem h =
     (let pmem = hm_prev (headers h mem)
      in if pmem \<noteq> mem \<and> hm_used (headers h pmem) = 0
         then let h = (if lfree h = mem then h\<lparr>lfree := pmem\<rparr> else h);
                  h = set_hdr pmem (\<lambda>m. m\<lparr>hm_next := hm_next (headers h mem)\<rparr>) h
              in set_hdr (hm_next (headers h mem)) (\<lambda>m. m\<lparr>hm_prev := pmem\<rparr>) h
         else h)"

definition plug_holes :: "nat \<Rightarrow> heap \<Rightarrow> heap option" where
  "plug_holes mem h =
     do { rt_assert (mem < heap_end h);
          rt_assert (hm_used (headers h mem) = 0);
          Some (plug_backward mem (plug_forward mem h)) }"

text \<open>\<^verbatim>\<open>rt_system_heap_init\<close> lays the heap out; a region that is too small leaves it as it was.\<close>

definition heap_init :: "u32 \<Rightarrow> u32 \<Rightarrow> heap \<Rightarrow> heap" where
  "heap_init begin_addr end_addr h =
     (let begin_align = unat (RT_ALIGN begin_addr 4); end_align = unat (RT_ALIGN_DOWN end_addr 4)
      in if end_align > 24 \<and> end_align - 24 \<ge> begin_align
         then let n = end_align - begin_align - 24;
                  h = h\<lparr>mem_size_aligned := n, heap_ptr := begin_align\<rparr>;
                  h = set_hdr 0 (\<lambda>_. \<lparr>hm_magic = HEAP_MAGIC, hm_used = 0, hm_next = n + 12, hm_prev = 0\<rparr>) h;
                  h = h\<lparr>heap_end := n + 12\<rparr>;
                  h = set_hdr (n + 12) (\<lambda>_. \<lparr>hm_magic = HEAP_MAGIC, hm_used = 1, hm_next = n + 12, hm_prev = n + 12\<rparr>) h
              in h\<lparr>lfree := 0\<rparr>
         else h)"

text \<open>The search of \<^verbatim>\<open>rt_malloc\<close>.\<close>

definition fits_at :: "nat \<Rightarrow> nat \<Rightarrow> heap \<Rightarrow> bool" where
  "fits_at sz ptr h \<longleftrightarrow> hm_used (headers h ptr) = 0 \<and> sub32 (hm_next (headers h ptr)) (add32 ptr 12) \<ge> sz"

partial_function (option) malloc_find :: "nat \<Rightarrow> nat \<Rightarrow> heap \<Rightarrow> nat option option" where
  "malloc_find sz ptr h =
     (if ptr < sub32 (mem_size_aligned h) sz
      then if fits_at sz ptr h then Some (Some ptr) else malloc_find sz (hm_next (headers h ptr)) h
      else Some None)"

definition count_used :: "nat \<Rightarrow> heap \<Rightarrow> heap" where
  "count_used n h =
     (let h = h\<lparr>used_mem := add32 (used_mem h) n\<rparr>
      in if max_mem h < used_mem h then h\<lparr>max_mem := used_mem h\<rparr> else h)"

definition malloc_carve :: "nat \<Rightarrow> nat \<Rightarrow> heap \<Rightarrow> heap" where
  "malloc_carve sz ptr h =
     (let h = (if sub32 (hm_next (headers h ptr)) (add32 ptr 12) \<ge> add32 sz 24
               then let ptr2 = add32 ptr (12 + sz);
                        h = set_hdr ptr2 (\<lambda>_. \<lparr>hm_magic = HEAP_MAGIC, hm_used = 0, hm_next = hm_next (headers h ptr), hm_prev = ptr\<rparr>) h;
                        h = set_hdr ptr (\<lambda>m. m\<lparr>hm_next := ptr2, hm_used := 1\<rparr>) h;
                        h = (if hm_next (headers h ptr2) \<noteq> add32 (mem_size_aligned h) 12
                             then set_hdr (hm_next (headers h ptr2)) (\<lambda>m. m\<lparr>hm_prev := ptr2\<rparr>) h else h)
                    in count_used (add32 sz 12) h
               else let h = set_hdr ptr (\<lambda>m. m\<lparr>hm_used := 1\<rparr>) h
                    in count_used (sub32 (hm_next (headers h ptr)) ptr) h)
      in set_hdr ptr (\<lambda>m. m\<lparr>hm_magic := HEAP_MAGIC\<rparr>) h)"

partial_function (option) lfree_advance :: "nat \<Rightarrow> heap \<Rightarrow> nat option" where
  "lfree_advance p h =
     (if hm_used (headers h p) \<noteq> 0 \<and> p \<noteq> heap_end h then lfree_advance (hm_next (headers h p)) h else Some p)"

text \<open>The section of \<^verbatim>\<open>rt_malloc\<close> under the semaphore, for an aligned size; it gives the address.\<close>

definition heap_alloc :: "nat \<Rightarrow> heap \<Rightarrow> (nat option \<times> heap) option" where
  "heap_alloc sz h =
     do { r \<leftarrow> malloc_find sz (lfree h) h;
          case r of
            None \<Rightarrow> Some (None, h)
          | Some mem \<Rightarrow>
              do { let h = malloc_carve sz mem h;
                   h \<leftarrow> (if mem = lfree h
                         then do { p \<leftarrow> lfree_advance (lfree h) h;
                                   rt_assert (p = heap_end h \<or> hm_used (headers h p) = 0);
                                   Some (h\<lparr>lfree := p\<rparr>) }
                         else Some h);
                   rt_assert (heap_ptr h + mem + 12 + sz \<le> heap_ptr h + heap_end h);
                   rt_assert ((heap_ptr h + mem + 12) mod 4 = 0);
                   rt_assert ((heap_ptr h + mem) mod 4 = 0);
                   Some (Some (heap_ptr h + mem + 12), h) } }"

text \<open>
  The section of \<^verbatim>\<open>rt_free\<close>. A pointer into the first twelve bytes of the heap fails the first
  assertion of \<^verbatim>\<open>plug_holes\<close>, or those on the header in front of the heap before it.
\<close>

definition heap_free :: "nat \<Rightarrow> heap \<Rightarrow> heap option" where
  "heap_free rmem h =
     do { rt_assert (heap_ptr h + 12 \<le> rmem);
          let mem = rmem - heap_ptr h - 12;
          rt_assert (hm_used (headers h mem) \<noteq> 0);
          rt_assert (hm_magic (headers h mem) = HEAP_MAGIC);
          let h = set_hdr mem (\<lambda>m. m\<lparr>hm_used := 0, hm_magic := HEAP_MAGIC\<rparr>) h;
          let h = (if mem < lfree h then h\<lparr>lfree := mem\<rparr> else h);
          let h = h\<lparr>used_mem := sub32 (used_mem h) (sub32 (hm_next (headers h mem)) mem)\<rparr>;
          plug_holes mem h }"

text \<open>The section of \<^verbatim>\<open>rt_realloc\<close> that splits a block.\<close>

definition heap_shrink :: "nat \<Rightarrow> nat \<Rightarrow> heap \<Rightarrow> heap option" where
  "heap_shrink ptr newsize h =
     (let sz = sub32 (sub32 (hm_next (headers h ptr)) ptr) 12;
          h = h\<lparr>used_mem := sub32 (used_mem h) (sub32 sz newsize)\<rparr>;
          ptr2 = add32 ptr (12 + newsize);
          h = set_hdr ptr2 (\<lambda>_. \<lparr>hm_magic = HEAP_MAGIC, hm_used = 0, hm_next = hm_next (headers h ptr), hm_prev = ptr\<rparr>) h;
          h = set_hdr ptr (\<lambda>m. m\<lparr>hm_next := ptr2\<rparr>) h;
          h = (if hm_next (headers h ptr2) \<noteq> add32 (mem_size_aligned h) 12
               then set_hdr (hm_next (headers h ptr2)) (\<lambda>m. m\<lparr>hm_prev := ptr2\<rparr>) h else h)
      in plug_holes ptr2 h)"

text \<open>
  \<^verbatim>\<open>rt_malloc\<close> without the semaphore: the size is aligned and raised to the minimum, and refused if it
  is longer than the heap.
\<close>

definition malloc_size :: "u32 \<Rightarrow> nat" where
  "malloc_size sz = (let n = unat (RT_ALIGN sz 4) in if n < MIN_SIZE_ALIGNED then MIN_SIZE_ALIGNED else n)"

definition malloc_refused :: "u32 \<Rightarrow> heap \<Rightarrow> bool" where
  "malloc_refused sz h \<longleftrightarrow> sz = 0 \<or> unat (RT_ALIGN sz 4) > mem_size_aligned h"

definition heap_malloc :: "u32 \<Rightarrow> heap \<Rightarrow> (nat option \<times> heap) option" where
  "heap_malloc sz h = (if malloc_refused sz h then Some (None, h) else heap_alloc (malloc_size sz) h)"

section \<open>The shape of the heap\<close>

lemma RT_ALIGN_unat:
  "unat (RT_ALIGN x 4) = unat (x + 3) div 4 * 4" "unat (RT_ALIGN_DOWN x 4) = unat x div 4 * 4"
proof -
  have m: "(3 :: u32) = mask 2" by (simp add: mask_eq_exp_minus_1)
  show "unat (RT_ALIGN x 4) = unat (x + 3) div 4 * 4"
    using and_not_mask [of "x + 3" 2] by (simp add: RT_ALIGN_def m add_diff_eq [symmetric])
  show "unat (RT_ALIGN_DOWN x 4) = unat x div 4 * 4"
    using and_not_mask [of x 2] by (simp add: RT_ALIGN_DOWN_def m)
qed

lemma RT_ALIGN_dvd: "4 dvd unat (RT_ALIGN x 4)" "4 dvd unat (RT_ALIGN_DOWN x 4)"
  by (simp_all add: RT_ALIGN_unat)

lemma add32_small [simp]: "a + b < 2 ^ 32 \<Longrightarrow> add32 a b = a + b"
  by (simp add: add32_def)

lemma sub32_small [simp]: "\<lbrakk>b \<le> a; a < 2 ^ 32\<rbrakk> \<Longrightarrow> sub32 a b = a - b"
proof -
  assume a: "b \<le> a" "a < 2 ^ 32"
  then have "a + 2 ^ 32 - b = (a - b) + 2 ^ 32" by simp
  moreover have "((a - b) + 2 ^ 32) mod 2 ^ 32 = a - b" using a by (subst mod_add_self2) simp
  ultimately show ?thesis by (simp only: sub32_def)
qed

lemma set_hdr_sel [simp]:
  "headers (set_hdr x f h) = (headers h)(x := f (headers h x))" "heap_end (set_hdr x f h) = heap_end h"
  "heap_ptr (set_hdr x f h) = heap_ptr h" "lfree (set_hdr x f h) = lfree h"
  "mem_size_aligned (set_hdr x f h) = mem_size_aligned h" "used_mem (set_hdr x f h) = used_mem h"
  "max_mem (set_hdr x f h) = max_mem h" "heap_bytes (set_hdr x f h) = heap_bytes h"
  by (simp_all add: set_hdr_def)

text \<open>
  \<open>tiles H e a os b\<close>: the blocks at the offsets \<open>os\<close> follow each other from \<open>a\<close> to
  \<open>b\<close>, each with room for data, and point back to each other (the end of the heap, \<open>e\<close>,
  need not).
\<close>

fun tiles :: "(nat \<Rightarrow> heap_mem) \<Rightarrow> nat \<Rightarrow> nat \<Rightarrow> nat list \<Rightarrow> nat \<Rightarrow> bool" where
  "tiles H e a [] b \<longleftrightarrow> a = b"
| "tiles H e a (x # xs) b \<longleftrightarrow> x = a \<and> a + 12 < hm_next (H a) \<and> 4 dvd hm_next (H a) \<and> hm_magic (H a) = HEAP_MAGIC \<and>
     (hm_next (H a) \<noteq> e \<longrightarrow> hm_prev (H (hm_next (H a))) = a) \<and> tiles H e (hm_next (H a)) xs b"

lemma tiles_append: "tiles H e a (xs @ ys) b \<longleftrightarrow> (\<exists>c. tiles H e a xs c \<and> tiles H e c ys b)"
  by (induction xs arbitrary: a) auto

lemma tiles_le: "tiles H e a xs b \<Longrightarrow> a \<le> b"
proof (induction xs arbitrary: a)
  case (Cons x xs)
  then have "a + 12 < hm_next (H a)" "hm_next (H a) \<le> b" by simp_all
  then show ?case by simp
qed simp

lemma tiles_bounds: "tiles H e a xs b \<Longrightarrow> x \<in> set xs \<Longrightarrow> a \<le> x \<and> x + 12 < b"
proof (induction xs arbitrary: a)
  case (Cons y ys)
  then show ?case using tiles_le [of H e "hm_next (H a)" ys b] by fastforce
qed simp

lemma tiles_distinct: "tiles H e a xs b \<Longrightarrow> distinct xs"
proof (induction xs arbitrary: a)
  case (Cons x xs)
  then show ?case using tiles_bounds [of H e "hm_next (H x)" xs b x] by fastforce
qed simp

lemma tiles_nonempty: "tiles H e a xs b \<Longrightarrow> a < b \<Longrightarrow> \<exists>ys. xs = a # ys"
  by (cases xs) auto

lemma tiles_cong:
  assumes "\<And>x. x \<in> set xs \<Longrightarrow> hm_next (H' x) = hm_next (H x) \<and> hm_magic (H' x) = hm_magic (H x)"
    and "\<And>x. a < x \<Longrightarrow> x \<le> b \<Longrightarrow> x \<noteq> e \<Longrightarrow> hm_prev (H' x) = hm_prev (H x)"
    and "tiles H e a xs b"
  shows "tiles H' e a xs b"
  using assms
proof (induction xs arbitrary: a)
  case (Cons x xs)
  have x: "x = a" and t: "tiles H e (hm_next (H a)) xs b" and lt: "a + 12 < hm_next (H a)"
    using Cons.prems(3) by auto
  have eq: "hm_next (H' a) = hm_next (H a)" "hm_magic (H' a) = hm_magic (H a)" using Cons.prems(1) x by auto
  have "tiles H' e (hm_next (H a)) xs b"
    by (rule Cons.IH [OF _ _ t]) (use Cons.prems(1,2) lt in auto)
  moreover have "hm_next (H a) \<noteq> e \<longrightarrow> hm_prev (H' (hm_next (H a))) = a"
    using Cons.prems(2) [of "hm_next (H a)"] Cons.prems(3) lt tiles_le [OF t] by auto
  ultimately show ?case using Cons.prems(3) eq by simp
qed simp

text \<open>Around a block.\<close>

lemma tiles_at:
  assumes "tiles H e a os b" "x \<in> set os"
  obtains as bs where "os = as @ x # bs" "tiles H e a as x" "x + 12 < hm_next (H x)" "4 dvd hm_next (H x)"
    "hm_magic (H x) = HEAP_MAGIC" "hm_next (H x) \<noteq> e \<longrightarrow> hm_prev (H (hm_next (H x))) = x"
    "tiles H e (hm_next (H x)) bs b"
proof -
  obtain as bs where os: "os = as @ x # bs" using assms(2) by (metis split_list)
  then obtain c where "tiles H e a as c" "tiles H e c (x # bs) b" using assms(1) by (auto simp: tiles_append)
  then show thesis using that [OF os] by auto
qed

text \<open>No two free blocks are neighbours.\<close>

fun apart :: "('a \<Rightarrow> bool) \<Rightarrow> 'a list \<Rightarrow> bool" where
  "apart free (x # y # zs) \<longleftrightarrow> \<not> (free x \<and> free y) \<and> apart free (y # zs)"
| "apart free _ \<longleftrightarrow> True"

lemma apart_append: "apart free (xs @ y # zs) \<longleftrightarrow> apart free (xs @ [y]) \<and> apart free (y # zs)"
proof (induction xs)
  case (Cons x xs)
  then show ?case by (cases xs) auto
qed simp

lemma apart_cong: "(\<And>x. x \<in> set xs \<Longrightarrow> f x = g x) \<Longrightarrow> apart f xs = apart g xs"
  by (induction f xs rule: apart.induct) auto

lemma apart_mono: "\<lbrakk>apart f xs; \<And>x. x \<in> set xs \<Longrightarrow> g x \<Longrightarrow> f x\<rbrakk> \<Longrightarrow> apart g xs"
  by (induction f xs rule: apart.induct) auto

lemma apart_cut:
  assumes a: "apart f (as @ x # bs)" and x: "f x" "\<not> g x" and g: "\<And>y. y \<in> set (as @ bs) \<Longrightarrow> g y = f y"
  shows "apart g (as @ x # p # bs)"
proof -
  have a': "apart f (as @ [x])" "apart f (x # bs)" using a apart_append [of f as x bs] by simp_all
  have "apart g (as @ [x])" by (rule apart_mono [OF a'(1)]) (use g x in auto)
  moreover have "apart g (p # bs)"
  proof (cases bs)
    case (Cons b cs)
    have "\<not> f b" "apart f (b # cs)" using a'(2) x Cons by auto
    moreover have "apart g (b # cs)" by (rule apart_mono [OF \<open>apart f (b # cs)\<close>]) (use g Cons in auto)
    ultimately show ?thesis using Cons g by simp
  qed simp
  ultimately show ?thesis using x(2) apart_append [of g as x "p # bs"] by simp
qed

definition is_free :: "heap \<Rightarrow> nat \<Rightarrow> bool" where
  "is_free h x \<longleftrightarrow> hm_used (headers h x) = 0"

definition extent :: "heap \<Rightarrow> nat \<Rightarrow> nat" where
  "extent h x = hm_next (headers h x) - x"

text \<open>
  A heap in order, with its blocks \<open>os\<close>; \<open>used_mem\<close> is what the used blocks take. A heap
  is settled when no two free blocks are neighbours and \<open>lfree\<close> is a free block or the end.
\<close>

definition in_use :: "heap \<Rightarrow> nat list \<Rightarrow> nat" where
  "in_use h os = sum_list (map (extent h) (filter (\<lambda>x. \<not> is_free h x) os))"

definition heap_wf :: "heap \<Rightarrow> nat list \<Rightarrow> bool" where
  "heap_wf h os \<longleftrightarrow>
     tiles (headers h) (heap_end h) 0 os (heap_end h) \<and> heap_end h = mem_size_aligned h + 12 \<and>
     mem_size_aligned h \<ge> 12 \<and> heap_ptr h + heap_end h + 12 < 2 ^ 32 \<and> 4 dvd heap_ptr h \<and> 4 dvd heap_end h \<and>
     \<not> is_free h (heap_end h) \<and> hm_prev (headers h 0) = 0 \<and> used_mem h = in_use h os"

lemma heap_wfD:
  assumes "heap_wf h os"
  shows "tiles (headers h) (heap_end h) 0 os (heap_end h)" "mem_size_aligned h = heap_end h - 12" "12 \<le> mem_size_aligned h"
    "heap_ptr h + heap_end h + 12 < 2 ^ 32" "4 dvd heap_ptr h" "4 dvd heap_end h" "hm_used (headers h (heap_end h)) \<noteq> 0"
    "hm_prev (headers h 0) = 0" "used_mem h = in_use h os" "heap_end h \<ge> 24"
  using assms by (auto simp: heap_wf_def is_free_def)

lemma heap_wf_step:
  assumes "heap_wf h os" "heap_end h' = heap_end h" "heap_ptr h' = heap_ptr h" "mem_size_aligned h' = mem_size_aligned h"
    "tiles (headers h') (heap_end h) 0 os' (heap_end h)" "\<not> is_free h' (heap_end h)" "hm_prev (headers h' 0) = 0"
    "used_mem h' = in_use h' os'"
  shows "heap_wf h' os'"
  using assms unfolding heap_wf_def by metis

definition settled :: "heap \<Rightarrow> nat list \<Rightarrow> bool" where
  "settled h os \<longleftrightarrow> apart (is_free h) os \<and> (lfree h = heap_end h \<or> lfree h \<in> set os \<and> is_free h (lfree h))"

text \<open>Nothing below \<open>lfree\<close> is free.\<close>

definition lowest :: "heap \<Rightarrow> nat list \<Rightarrow> bool" where
  "lowest h os \<longleftrightarrow> (\<forall>x \<in> set os. x < lfree h \<longrightarrow> \<not> is_free h x)"

text \<open>A block is cut in two; two neighbours become one.\<close>

lemma tiles_split:
  assumes t: "tiles H e 0 (as @ x # bs) e" and p: "x + 12 < p" "p + 12 < hm_next (H x)" "4 dvd p"
    and nx: "\<And>y. y \<noteq> x \<Longrightarrow> y \<noteq> p \<Longrightarrow> hm_next (H' y) = hm_next (H y) \<and> hm_magic (H' y) = hm_magic (H y)"
    and hx: "hm_next (H' x) = p" "hm_magic (H' x) = HEAP_MAGIC"
    and hp: "hm_next (H' p) = hm_next (H x)" "hm_magic (H' p) = HEAP_MAGIC" "hm_prev (H' p) = x"
    and pv: "hm_next (H x) \<noteq> e \<Longrightarrow> hm_prev (H' (hm_next (H x))) = p"
      "\<And>y. y \<noteq> p \<Longrightarrow> y \<noteq> hm_next (H x) \<Longrightarrow> hm_prev (H' y) = hm_prev (H y)"
  shows "tiles H' e 0 (as @ x # p # bs) e"
proof -
  let ?n = "hm_next (H x)"
  have x: "tiles H e 0 as x" "4 dvd ?n" "tiles H e ?n bs e" using t by (auto simp: tiles_append)
  have "tiles H' e 0 as x"
    by (rule tiles_cong [OF _ _ x(1)]) (use tiles_bounds [OF x(1)] nx pv(2) p in fastforce)+
  moreover have "tiles H' e ?n bs e"
    by (rule tiles_cong [OF _ _ x(3)]) (use tiles_bounds [OF x(3)] nx pv(2) p in fastforce)+
  moreover have "p \<noteq> e" using tiles_le [OF x(3)] p by simp
  ultimately show ?thesis using p x(2) hx hp pv(1) by (auto simp: tiles_append)
qed

lemma tiles_merge:
  assumes t: "tiles H e 0 (as @ x # y # bs) e"
    and nx: "\<And>z. z \<noteq> x \<Longrightarrow> hm_next (H' z) = hm_next (H z)" "\<And>z. hm_magic (H' z) = hm_magic (H z)"
    and hx: "hm_next (H' x) = hm_next (H y)"
    and pv: "hm_next (H y) \<noteq> e \<Longrightarrow> hm_prev (H' (hm_next (H y))) = x"
      "\<And>z. z \<noteq> hm_next (H y) \<Longrightarrow> hm_prev (H' z) = hm_prev (H z)"
  shows "tiles H' e 0 (as @ x # bs) e"
proof -
  let ?n = "hm_next (H y)"
  have x: "tiles H e 0 as x" "x + 12 < y" "y + 12 < ?n" "4 dvd ?n" "tiles H e ?n bs e" "hm_magic (H x) = HEAP_MAGIC"
    using t by (auto simp: tiles_append)
  have "tiles H' e 0 as x"
    by (rule tiles_cong [OF _ _ x(1)]) (use tiles_bounds [OF x(1)] nx pv(2) x(2,3) in fastforce)+
  moreover have "tiles H' e ?n bs e"
    by (rule tiles_cong [OF _ _ x(5)]) (use tiles_bounds [OF x(5)] nx pv(2) x(2,3) in fastforce)+
  ultimately show ?thesis using x nx(2) hx pv(1) by (auto simp: tiles_append)
qed

text \<open>The search finds the first free block that is long enough and not too near to the end.\<close>

definition candidate :: "heap \<Rightarrow> nat \<Rightarrow> nat \<Rightarrow> bool" where
  "candidate h sz x \<longleftrightarrow> x < mem_size_aligned h - sz \<and> is_free h x \<and> sz + 12 \<le> extent h x"

lemma heap_wf_small:
  assumes "heap_wf h os" "x \<in> set os"
  shows "x + 12 < hm_next (headers h x)" "hm_next (headers h x) \<le> heap_end h" "heap_end h < 2 ^ 32"
    "hm_next (headers h x) < 2 ^ 32" "4 dvd hm_next (headers h x)" "4 dvd x" "hm_magic (headers h x) = HEAP_MAGIC"
proof -
  have t: "tiles (headers h) (heap_end h) 0 os (heap_end h)" and e: "heap_end h < 2 ^ 32"
    using assms(1) by (auto simp: heap_wf_def)
  obtain as bs where x: "os = as @ x # bs" "tiles (headers h) (heap_end h) 0 as x" "x + 12 < hm_next (headers h x)"
      "4 dvd hm_next (headers h x)" "hm_magic (headers h x) = HEAP_MAGIC"
      "hm_next (headers h x) \<noteq> heap_end h \<longrightarrow> hm_prev (headers h (hm_next (headers h x))) = x"
      "tiles (headers h) (heap_end h) (hm_next (headers h x)) bs (heap_end h)" using tiles_at [OF t assms(2)] .
  have al: "4 dvd b" if "tiles (headers h) (heap_end h) a xs b" "4 dvd a" for a b xs
    using that by (induction xs arbitrary: a) auto
  show "4 dvd x" using al [OF x(2)] by simp
  show "x + 12 < hm_next (headers h x)" "hm_next (headers h x) \<le> heap_end h" "heap_end h < 2 ^ 32"
    "hm_next (headers h x) < 2 ^ 32" "4 dvd hm_next (headers h x)" "hm_magic (headers h x) = HEAP_MAGIC"
    using x e tiles_le [OF x(7)] by simp_all
qed

lemma fits_at_iff:
  assumes "heap_wf h os" "x \<in> set os"
  shows "fits_at sz x h \<longleftrightarrow> is_free h x \<and> sz + 12 \<le> extent h x"
  using heap_wf_small [OF assms] by (auto simp: fits_at_def is_free_def extent_def)

lemma malloc_find_first:
  assumes wf: "heap_wf h os" and sz: "sz \<le> mem_size_aligned h"
    and t: "tiles (headers h) (heap_end h) ptr qs (heap_end h)" and sub: "set qs \<subseteq> set os"
  shows "malloc_find sz ptr h = Some (find (candidate h sz) qs)"
  using t sub
proof (induction qs arbitrary: ptr)
  case Nil
  have "\<not> ptr < mem_size_aligned h - sz" using Nil wf by (auto simp: heap_wf_def)
  then show ?case using sz wf by (subst malloc_find.simps) (simp add: heap_wf_def)
next
  case (Cons x qs)
  have x: "ptr = x" "x \<in> set os" using Cons.prems by auto
  have lim: "sub32 (mem_size_aligned h) sz = mem_size_aligned h - sz" using sz wf by (simp add: heap_wf_def)
  show ?case
  proof (cases "x < mem_size_aligned h - sz")
    case True
    have "candidate h sz x \<longleftrightarrow> fits_at sz x h"
      using True fits_at_iff [OF wf x(2), of sz] by (simp add: candidate_def)
    then show ?thesis using True Cons x lim by (subst malloc_find.simps) simp
  next
    case False
    have "\<not> candidate h sz y" if "y \<in> set (x # qs)" for y
      using tiles_bounds [OF Cons.prems(1) that] False x(1) by (simp add: candidate_def)
    then have "find (candidate h sz) (x # qs) = None" by (simp add: find_None_iff)
    then show ?thesis using False x lim by (subst malloc_find.simps) simp
  qed
qed

lemma lfree_advance_first:
  assumes wf: "heap_wf h os" and t: "tiles (headers h) (heap_end h) p qs (heap_end h)" and sub: "set qs \<subseteq> set os"
  shows "lfree_advance p h = Some (case find (is_free h) qs of None \<Rightarrow> heap_end h | Some x \<Rightarrow> x)"
  using t sub
proof (induction qs arbitrary: p)
  case Nil
  then show ?case by (subst lfree_advance.simps) simp
next
  case (Cons x qs)
  have x: "p = x" "x \<noteq> heap_end h" using Cons.prems tiles_bounds [OF Cons.prems(1), of x] by auto
  have "is_free h x \<longleftrightarrow> hm_used (headers h x) = 0" by (simp add: is_free_def)
  then show ?case using Cons x by (subst lfree_advance.simps) simp
qed

section \<open>Allocation\<close>

lemma in_use_append [simp]: "in_use h (xs @ ys) = in_use h xs + in_use h ys" "in_use h [] = 0"
  "in_use h (x # xs) = (if is_free h x then 0 else extent h x) + in_use h xs"
  by (simp_all add: in_use_def)

lemma in_use_cong:
  "(\<And>x. x \<in> set xs \<Longrightarrow> is_free h' x = is_free h x \<and> extent h' x = extent h x) \<Longrightarrow> in_use h' xs = in_use h xs"
  by (induction xs) auto

lemma in_use_le: "tiles (headers h) e a xs b \<Longrightarrow> in_use h xs \<le> b - a"
proof (induction xs arbitrary: a)
  case (Cons x xs)
  then have "in_use h xs \<le> b - hm_next (headers h a)" "hm_next (headers h a) \<le> b" "a + 12 < hm_next (headers h a)" "x = a"
    using tiles_le [of "headers h" e "hm_next (headers h a)" xs b] by auto
  then have "hm_next (headers h a) - a + in_use h xs \<le> b - a" by simp
  then show ?case using \<open>x = a\<close> by (simp add: extent_def)
qed simp

lemma count_used_sel [simp]:
  "headers (count_used n h) = headers h" "heap_end (count_used n h) = heap_end h" "heap_ptr (count_used n h) = heap_ptr h"
  "lfree (count_used n h) = lfree h" "mem_size_aligned (count_used n h) = mem_size_aligned h"
  "used_mem (count_used n h) = add32 (used_mem h) n" "heap_bytes (count_used n h) = heap_bytes h"
  by (simp_all add: count_used_def Let_def)

text \<open>
  A free block is handed out: it becomes used, with at least the size asked for, and the rest of it,
  if it is long enough, is a new free block behind it. Nothing else changes.
\<close>

lemma malloc_carve_wf:
  assumes wf: "heap_wf h (as @ x # bs)" and x: "candidate h sz x" and sz: "sz \<ge> 12" "4 dvd sz" "sz \<le> mem_size_aligned h"
    and ap: "apart (is_free h) (as @ x # bs)"
  defines "h' \<equiv> malloc_carve sz x h"
  shows "\<exists>ps. heap_wf h' (as @ x # ps @ bs) \<and> apart (is_free h') (as @ x # ps @ bs) \<and> \<not> is_free h' x \<and>
    sz + 12 \<le> extent h' x \<and> (\<forall>y \<in> set ps. is_free h' y \<and> x < y) \<and>
    (\<forall>y \<in> set (as @ bs). is_free h' y = is_free h y \<and> extent h' y = extent h y) \<and>
    lfree h' = lfree h \<and> heap_end h' = heap_end h \<and> heap_ptr h' = heap_ptr h \<and>
    mem_size_aligned h' = mem_size_aligned h \<and> heap_bytes h' = heap_bytes h"
proof -
  have xs: "x \<in> set (as @ x # bs)" by simp
  note w = heap_wf_small [OF wf xs]
  let ?n = "hm_next (headers h x)" and ?e = "heap_end h"
  have t: "tiles (headers h) ?e 0 (as @ x # bs) ?e" and fr: "is_free h x" and fit: "sz + 12 \<le> ?n - x"
    and um: "used_mem h = in_use h (as @ x # bs)" and big: "heap_ptr h + ?e + 12 < 2 ^ 32"
    using wf x unfolding heap_wf_def candidate_def extent_def by blast+
  have ord: "\<forall>y \<in> set as. y < x" "\<forall>y \<in> set bs. ?n \<le> y"
    using t tiles_bounds by (fastforce simp: tiles_append)+
  have tot: "in_use h (as @ x # bs) + (?n - x) \<le> ?e"
  proof -
    have "tiles (headers h) ?e 0 as x" "tiles (headers h) ?e ?n bs ?e" using t by (auto simp: tiles_append)
    from in_use_le [OF this(1)] in_use_le [OF this(2)] show ?thesis using fr w by simp
  qed
  have lim: "add32 (mem_size_aligned h) 12 = ?e" using wf by (simp add: heap_wf_def)
  have gap: "sub32 ?n (add32 x 12) = ?n - (x + 12)" using w by simp
  show ?thesis
  proof (cases "sz + 24 \<le> ?n - (x + 12)")
    case True
    define p where "p = x + 12 + sz"
    have p: "add32 x (12 + sz) = p" "x + 12 < p" "p + 12 < ?n" "4 dvd p" "p \<noteq> ?n" "?n \<noteq> x" "p \<noteq> x" "p \<noteq> ?e" "?e \<noteq> x"
      using True w sz by (auto simp: p_def)
    have s24: "add32 sz 24 = sz + 24" "add32 sz 12 = sz + 12" using sz big wf by (simp_all add: heap_wf_def)
    have H: "headers h' = (\<lambda>y. if y = x then (headers h x)\<lparr>hm_magic := HEAP_MAGIC, hm_used := 1, hm_next := p\<rparr>
        else if y = p then \<lparr>hm_magic = HEAP_MAGIC, hm_used = 0, hm_next = ?n, hm_prev = x\<rparr>
        else if y = ?n \<and> ?n \<noteq> ?e then (headers h ?n)\<lparr>hm_prev := p\<rparr> else headers h y)"
      using True p(1,5-9) gap s24 lim
      by (cases "?n = ?e") (simp_all add: h'_def malloc_carve_def Let_def fun_eq_iff)
    have sel: "lfree h' = lfree h" "heap_end h' = ?e" "heap_ptr h' = heap_ptr h" "mem_size_aligned h' = mem_size_aligned h"
      "heap_bytes h' = heap_bytes h" "used_mem h' = add32 (used_mem h) (sz + 12)"
      using True gap s24 by (simp_all add: h'_def malloc_carve_def Let_def)
    have keep: "is_free h' y = is_free h y \<and> extent h' y = extent h y" if "y \<noteq> x" "y \<noteq> p" for y
      using that by (simp add: is_free_def extent_def H)
    have off: "y \<noteq> x \<and> y \<noteq> p" if "y \<in> set (as @ bs)" for y using that ord p by fastforce
    have t': "tiles (headers h') ?e 0 (as @ x # p # bs) ?e"
      by (rule tiles_split [OF t p(2-4)]) (use p in \<open>simp_all add: H\<close>)
    have xp: "\<not> is_free h' x" "is_free h' p" "extent h' x = sz + 12" by (simp_all add: is_free_def extent_def H p_def)
    have ab: "in_use h' as = in_use h as" "in_use h' bs = in_use h bs"
      by (rule in_use_cong; use keep off in auto)+
    have um': "used_mem h' = in_use h' (as @ x # p # bs)"
      using sel(6) um fr xp ab tot True big by simp
    have "apart (is_free h') (as @ x # p # bs)"
      by (rule apart_cut [where f = "is_free h" and x = x]) (use ap fr xp(1) keep off in blast)+
    moreover have "heap_wf h' (as @ x # p # bs)"
    proof -
      have "\<not> is_free h' ?e" using heap_wfD(7) [OF wf] p(8,9) by (auto simp: is_free_def H)
      moreover have "hm_prev (headers h' 0) = 0"
        using heap_wfD(8) [OF wf] p(2,3) by (auto simp: H)
      ultimately show ?thesis using heap_wf_step [OF wf sel(2-4) t' _ _ um'] by blast
    qed
    ultimately show ?thesis using xp sel keep off p(2) by (intro exI [of _ "[p]"]) auto
  next
    case False
    have H: "headers h' = (headers h)(x := (headers h x)\<lparr>hm_magic := HEAP_MAGIC, hm_used := 1\<rparr>)"
      and sel: "lfree h' = lfree h" "heap_end h' = ?e" "heap_ptr h' = heap_ptr h" "mem_size_aligned h' = mem_size_aligned h"
      "heap_bytes h' = heap_bytes h" "used_mem h' = add32 (used_mem h) (?n - x)"
      using False gap sz big wf w by (auto simp: h'_def malloc_carve_def Let_def heap_wf_def)
    have keep: "is_free h' y = is_free h y \<and> extent h' y = extent h y" if "y \<noteq> x" for y
      using that by (simp add: is_free_def extent_def H)
    have off: "y \<noteq> x" if "y \<in> set (as @ bs)" for y using that ord w(1) by fastforce
    have xu: "\<not> is_free h' x" "extent h' x = extent h x" by (simp_all add: is_free_def extent_def H)
    have t': "tiles (headers h') ?e 0 (as @ x # bs) ?e" by (rule tiles_cong [OF _ _ t]) (use w(7) in \<open>auto simp: H\<close>)
    have ab: "in_use h' as = in_use h as" "in_use h' bs = in_use h bs"
      by (rule in_use_cong; use keep off in auto)+
    have "used_mem h' = in_use h' (as @ x # bs)"
      using sel(6) um fr xu ab tot big by (simp add: extent_def)
    moreover have "\<not> is_free h' ?e" using heap_wfD(7) [OF wf] by (simp add: is_free_def H)
    moreover have "hm_prev (headers h' 0) = 0" using heap_wfD(8) [OF wf] by (simp add: H)
    ultimately have "heap_wf h' (as @ x # bs)" using heap_wf_step [OF wf sel(2-4) t'] by blast
    moreover have "apart (is_free h') (as @ x # bs)"
      by (rule apart_mono [OF ap]) (use xu keep in metis)
    ultimately show ?thesis using xu sel keep off fit by (intro exI [of _ "[]"]) (auto simp: extent_def)
  qed
qed

end
