(* ===== verification/MemAlloc.thy ===== *)
theory MemAlloc
  imports Mem
begin

text \<open>
  What the sections of \<^verbatim>\<open>src/mem.c\<close> under the semaphore do to a heap in order: allocation is first
  fit and hands out a block nobody holds, freeing merges the block with its free neighbours. The heap is an
  allocator in the sense of theory \<open>Alloc\<close>.
\<close>

section \<open>The blocks that are out\<close>

definition held :: "heap \<Rightarrow> nat list \<Rightarrow> (nat \<times> nat) list" where
  "held h os = map (\<lambda>x. (x, extent h x)) (filter (\<lambda>x. \<not> is_free h x) os)"

lemma held_append [simp]:
  "held h (xs @ ys) = held h xs @ held h ys" "held h [] = []"
  "held h (x # xs) = (if is_free h x then [] else [(x, extent h x)]) @ held h xs"
  by (simp_all add: held_def)

lemma in_use_held: "in_use h os = sum_list (map snd (held h os))"
  by (simp add: in_use_def held_def comp_def)

lemma held_cong:
  "(\<And>x. x \<in> set xs \<Longrightarrow> is_free h' x = is_free h x \<and> (\<not> is_free h x \<longrightarrow> extent h' x = extent h x)) \<Longrightarrow> held h' xs = held h xs"
  by (induction xs) auto

definition lfree_ok :: "heap \<Rightarrow> nat list \<Rightarrow> bool" where
  "lfree_ok h os \<longleftrightarrow> lfree h = heap_end h \<or> lfree h \<in> set os \<and> is_free h (lfree h)"

lemma settled_iff: "settled h os \<longleftrightarrow> apart (is_free h) os \<and> lfree_ok h os"
  by (simp add: settled_def lfree_ok_def)

lemma tiles_unique: "tiles H e a xs e \<Longrightarrow> tiles H e a ys e \<Longrightarrow> xs = ys"
proof (induction xs arbitrary: a ys)
  case Nil
  then show ?case using tiles_bounds [of H e e ys e] by (cases ys) fastforce+
next
  case (Cons x xs)
  have "a < e" using tiles_bounds [OF Cons.prems(1), of x] Cons.prems(1) by simp
  then obtain zs where "ys = a # zs" using tiles_nonempty [OF Cons.prems(2)] by blast
  then show ?case using Cons.IH [of "hm_next (H a)" zs] Cons.prems by simp
qed

lemma heap_wf_unique: "heap_wf h xs \<Longrightarrow> heap_wf h ys \<Longrightarrow> xs = ys"
  using heap_wfD(1) tiles_unique by blast

lemma apart_parts: "apart f (xs @ ys) \<Longrightarrow> apart f xs \<and> apart f ys"
proof (induction xs)
  case (Cons x xs)
  then have "apart f (xs @ ys)" by (cases "xs @ ys") auto
  then show ?case using Cons by (cases xs) auto
qed simp

section \<open>Freeing\<close>

text \<open>The free block \<open>y\<close> is joined to the free block \<open>x\<close> in front of it.\<close>

definition merge :: "nat \<Rightarrow> nat \<Rightarrow> heap \<Rightarrow> heap" where
  "merge x y h =
     (let h = (if lfree h = y then h\<lparr>lfree := x\<rparr> else h);
          h = set_hdr x (\<lambda>m. m\<lparr>hm_next := hm_next (headers h y)\<rparr>) h
      in set_hdr (hm_next (headers h y)) (\<lambda>m. m\<lparr>hm_prev := x\<rparr>) h)"

lemma merge_free [simp]: "is_free (merge x y h) = is_free h"
  by (auto simp: merge_def Let_def is_free_def fun_eq_iff)

lemma merge_sel [simp]:
  "heap_end (merge x y h) = heap_end h" "heap_ptr (merge x y h) = heap_ptr h"
  "mem_size_aligned (merge x y h) = mem_size_aligned h" "used_mem (merge x y h) = used_mem h"
  "heap_bytes (merge x y h) = heap_bytes h" "lfree (merge x y h) = (if lfree h = y then x else lfree h)"
  by (simp_all add: merge_def Let_def)

lemma merge_ok:
  assumes wf: "heap_wf h (as @ x # y # bs)" and fr: "is_free h x" "is_free h y" and lf: "lfree_ok h (as @ x # y # bs)"
  shows "heap_wf (merge x y h) (as @ x # bs)" "held (merge x y h) (as @ x # bs) = held h (as @ x # y # bs)"
    "lfree_ok (merge x y h) (as @ x # bs)"
    "lowest h (as @ x # y # bs) \<Longrightarrow> lowest (merge x y h) (as @ x # bs)"
proof -
  let ?h = "merge x y h" and ?n = "hm_next (headers h y)"
  note t = heap_wfD(1) [OF wf]
  have xy: "x + 12 < y" "y + 12 < ?n" "?n \<noteq> x" "?n \<noteq> y" "y \<noteq> x" using t by (auto simp: tiles_append)
  have H: "headers ?h = (headers h)(x := (headers h x)\<lparr>hm_next := ?n\<rparr>, ?n := (headers h ?n)\<lparr>hm_prev := x\<rparr>)"
    using xy by (auto simp: merge_def Let_def fun_eq_iff)
  have ex: "extent ?h z = extent h z" if "z \<noteq> x" for z using that by (simp add: extent_def H)
  have t': "tiles (headers ?h) (heap_end h) 0 (as @ x # bs) (heap_end h)"
    by (rule tiles_merge [OF t]) (use xy in \<open>auto simp: H\<close>)
  have "held ?h zs = held h zs" for zs by (rule held_cong) (use ex fr(1) in \<open>simp, metis\<close>)
  then show held: "held ?h (as @ x # bs) = held h (as @ x # y # bs)" using fr by simp
  have "hm_prev (headers ?h 0) = 0" using heap_wfD(8) [OF wf] xy by (simp add: H)
  moreover have "used_mem ?h = in_use ?h (as @ x # bs)"
    using heap_wfD(9) [OF wf] held by (simp only: in_use_held merge_sel)
  ultimately show "heap_wf ?h (as @ x # bs)"
    using heap_wfD(7) [OF wf] by (intro heap_wf_step [OF wf _ _ _ t']) (simp_all add: is_free_def [of h])
  show "lfree_ok ?h (as @ x # bs)" using lf fr by (auto simp: lfree_ok_def)
  show "lowest ?h (as @ x # bs)" if "lowest h (as @ x # y # bs)"
    using that xy(1) by (auto simp: lowest_def)
qed

text \<open>The two halves of \<^verbatim>\<open>plug_holes\<close>.\<close>

lemma plug_forward_cases:
  assumes wf: "heap_wf h (as @ x # bs)"
  shows "plug_forward x h = (case bs of y # _ \<Rightarrow> if is_free h y then merge x y h else h | [] \<Rightarrow> h)"
proof (cases bs)
  case Nil
  then have "hm_next (headers h x) = heap_end h" using heap_wfD(1) [OF wf] by (simp add: tiles_append)
  then show ?thesis using Nil by (simp add: plug_forward_def Let_def)
next
  case (Cons y cs)
  then have "hm_next (headers h x) = y" "y \<noteq> x" "y < heap_end h"
    using heap_wfD(1) [OF wf] tiles_bounds [OF heap_wfD(1) [OF wf], of y] by (auto simp: tiles_append)
  then show ?thesis using Cons by (simp add: plug_forward_def merge_def Let_def is_free_def)
qed

lemma plug_backward_cases:
  assumes wf: "heap_wf h (as @ x # bs)"
  shows "plug_backward x h = (if as \<noteq> [] \<and> is_free h (last as) then merge (last as) x h else h)"
proof (cases as rule: rev_cases)
  case Nil
  then have "x = 0" using heap_wfD(1) [OF wf] by simp
  then show ?thesis using Nil heap_wfD(8) [OF wf] by (simp add: plug_backward_def)
next
  case (snoc cs z)
  then have "hm_prev (headers h x) = z" "z \<noteq> x"
    using heap_wfD(1) [OF wf] tiles_bounds [OF heap_wfD(1) [OF wf], of x] by (auto simp: tiles_append)
  then show ?thesis using snoc by (simp add: plug_backward_def merge_def Let_def is_free_def)
qed

text \<open>
  A free block with no two free neighbours on either side of it is merged with the free ones next to it:
  the heap is settled and the blocks that are out stay as they are.
\<close>

lemma plug_forward_ok:
  assumes wf: "heap_wf h (as @ x # bs)" and fr: "is_free h x" and lf: "lfree_ok h (as @ x # bs)" and ap: "apart (is_free h) bs"
  obtains cs where "heap_wf (plug_forward x h) (as @ x # cs)" "lfree_ok (plug_forward x h) (as @ x # cs)"
    "held (plug_forward x h) (as @ x # cs) = held h (as @ x # bs)" "apart (is_free h) (x # cs)"
    "is_free (plug_forward x h) = is_free h" "lowest h (as @ x # bs) \<longrightarrow> lowest (plug_forward x h) (as @ x # cs)"
    "heap_ptr (plug_forward x h) = heap_ptr h" "heap_end (plug_forward x h) = heap_end h"
    "mem_size_aligned (plug_forward x h) = mem_size_aligned h" "heap_bytes (plug_forward x h) = heap_bytes h"
    "lfree h = heap_end h \<longrightarrow> lfree (plug_forward x h) = heap_end h"
proof (cases "\<exists>y cs. bs = y # cs \<and> is_free h y")
  case True
  then obtain y cs where bs: "bs = y # cs" "is_free h y" by blast
  have "apart (is_free h) (x # cs)" using ap bs by (cases cs) auto
  moreover have "y \<noteq> heap_end h" using tiles_bounds [OF heap_wfD(1) [OF wf], of y] bs by auto
  ultimately show thesis using that [of cs] merge_ok [of h as x y cs] plug_forward_cases [OF wf] wf fr lf bs by simp
next
  case False
  then have "plug_forward x h = h" "apart (is_free h) (x # bs)"
    using plug_forward_cases [OF wf] ap by (cases bs; simp)+
  then show thesis using that [of bs] wf lf by simp
qed

lemma plug_backward_ok:
  assumes wf: "heap_wf h (as @ x # bs)" and fr: "is_free h x" and lf: "lfree_ok h (as @ x # bs)"
    and ap: "apart (is_free h) as" "apart (is_free h) (x # bs)"
  obtains cs where "heap_wf (plug_backward x h) cs" "lfree_ok (plug_backward x h) cs"
    "held (plug_backward x h) cs = held h (as @ x # bs)" "apart (is_free h) cs"
    "is_free (plug_backward x h) = is_free h" "lowest h (as @ x # bs) \<longrightarrow> lowest (plug_backward x h) cs"
    "heap_ptr (plug_backward x h) = heap_ptr h" "heap_end (plug_backward x h) = heap_end h"
    "mem_size_aligned (plug_backward x h) = mem_size_aligned h" "heap_bytes (plug_backward x h) = heap_bytes h"
    "lfree h = heap_end h \<longrightarrow> lfree (plug_backward x h) = heap_end h"
proof (cases as rule: rev_cases)
  case Nil
  then show thesis using that [of "x # bs"] plug_backward_cases [OF wf] wf lf ap by simp
next
  case (snoc cs z)
  show thesis
  proof (cases "is_free h z")
    case True
    have "apart (is_free h) (z # bs)" using ap(2) fr by (cases bs) auto
    then have "apart (is_free h) (cs @ z # bs)" using ap(1) snoc apart_append [of "is_free h" cs z bs] by simp
    moreover have "x \<noteq> heap_end h" using tiles_bounds [OF heap_wfD(1) [OF wf], of x] by auto
    ultimately show thesis using that [of "cs @ z # bs"] merge_ok [of h cs z x bs] plug_backward_cases [OF wf] wf fr lf snoc True
      by simp
  next
    case False
    then have "apart (is_free h) (as @ x # bs)"
      using ap snoc apart_append [of "is_free h" cs z "x # bs"] by simp
    then show thesis using that [of "as @ x # bs"] plug_backward_cases [OF wf] wf lf snoc False by simp
  qed
qed

lemma plug_holes_ok:
  assumes wf: "heap_wf h (as @ x # bs)" and fr: "is_free h x" and lf: "lfree_ok h (as @ x # bs)"
    and ap: "apart (is_free h) as" "apart (is_free h) bs"
  obtains h' cs where "plug_holes x h = Some h'" "heap_wf h' cs" "settled h' cs" "held h' cs = held h (as @ x # bs)"
    "lowest h (as @ x # bs) \<longrightarrow> lowest h' cs" "heap_ptr h' = heap_ptr h" "heap_end h' = heap_end h"
    "mem_size_aligned h' = mem_size_aligned h" "heap_bytes h' = heap_bytes h" "lfree h = heap_end h \<longrightarrow> lfree h' = heap_end h"
proof -
  let ?g = "plug_forward x h"
  obtain cs where g: "heap_wf ?g (as @ x # cs)" "lfree_ok ?g (as @ x # cs)" "held ?g (as @ x # cs) = held h (as @ x # bs)"
    "apart (is_free h) (x # cs)" "is_free ?g = is_free h" "lowest h (as @ x # bs) \<longrightarrow> lowest ?g (as @ x # cs)"
    "heap_ptr ?g = heap_ptr h" "heap_end ?g = heap_end h" "mem_size_aligned ?g = mem_size_aligned h" "heap_bytes ?g = heap_bytes h"
    "lfree h = heap_end h \<longrightarrow> lfree ?g = heap_end h"
    using plug_forward_ok [OF wf fr lf ap(2)] .
  have "is_free ?g x" "apart (is_free ?g) as" "apart (is_free ?g) (x # cs)" using fr ap(1) g(4,5) by simp_all
  from plug_backward_ok [OF g(1) this(1) g(2) this(2,3)]
  obtain ds where d: "heap_wf (plug_backward x ?g) ds" "lfree_ok (plug_backward x ?g) ds"
    "held (plug_backward x ?g) ds = held ?g (as @ x # cs)" "apart (is_free ?g) ds"
    "is_free (plug_backward x ?g) = is_free ?g" "lowest ?g (as @ x # cs) \<longrightarrow> lowest (plug_backward x ?g) ds"
    "heap_ptr (plug_backward x ?g) = heap_ptr ?g" "heap_end (plug_backward x ?g) = heap_end ?g"
    "mem_size_aligned (plug_backward x ?g) = mem_size_aligned ?g" "heap_bytes (plug_backward x ?g) = heap_bytes ?g"
    "lfree ?g = heap_end ?g \<longrightarrow> lfree (plug_backward x ?g) = heap_end ?g" .
  have "x < heap_end h" using heap_wf_small [OF wf, of x] by simp
  then have "plug_holes x h = Some (plug_backward x ?g)" using fr by (simp add: plug_holes_def is_free_def)
  then show thesis using that [of "plug_backward x ?g" ds] d g by (simp add: settled_iff)
qed

text \<open>The data of a used block starts twelve bytes into it.\<close>

definition data_at :: "heap \<Rightarrow> nat \<Rightarrow> nat" where
  "data_at h x = heap_ptr h + x + 12"

lemma heap_free_ok:
  assumes wf: "heap_wf h os" and st: "settled h os" and x: "(x, n) \<in> set (held h os)"
  obtains h' os' where "heap_free (data_at h x) h = Some h'" "heap_wf h' os'" "settled h' os'"
    "held h' os' = filter (\<lambda>b. fst b \<noteq> x) (held h os)" "lowest h os \<longrightarrow> lowest h' os'"
    "heap_ptr h' = heap_ptr h" "heap_end h' = heap_end h" "mem_size_aligned h' = mem_size_aligned h" "heap_bytes h' = heap_bytes h"
proof -
  have xo: "x \<in> set os" "\<not> is_free h x" using x by (auto simp: held_def)
  note w = heap_wf_small [OF wf xo(1)]
  let ?u = "sub32 (used_mem h) (sub32 (hm_next (headers h x)) x)"
  define g where "g = h\<lparr>headers := (headers h)(x := (headers h x)\<lparr>hm_used := 0, hm_magic := HEAP_MAGIC\<rparr>), lfree := min x (lfree h), used_mem := ?u\<rparr>"
  obtain as bs where os: "os = as @ x # bs" using xo(1) by (metis split_list)
  have nx: "x \<notin> set as" "x \<notin> set bs" using tiles_distinct [OF heap_wfD(1) [OF wf]] os by auto
  have fr: "is_free g y \<longleftrightarrow> y = x \<or> is_free h y" and ex: "extent g y = extent h y" for y
    by (simp_all add: g_def is_free_def extent_def)
  have ab: "held g as = held h as" "held g bs = held h bs" by (rule held_cong; use fr ex nx in auto)+
  have "filter (\<lambda>b. fst b \<noteq> x) (held h zs) = held h zs" if "x \<notin> set zs" for zs
    using that by (auto simp: held_def intro!: filter_True)
  then have hd: "held g os = filter (\<lambda>b. fst b \<noteq> x) (held h os)" "held g os = held h as @ held h bs"
    using ab xo(2) fr os nx by simp_all
  have um: "used_mem g = in_use g os"
  proof -
    have "used_mem h = in_use h as + extent h x + in_use h bs" using heap_wfD(9) [OF wf] os xo(2) by simp
    moreover have "used_mem h \<le> heap_end h" using heap_wfD(9) [OF wf] in_use_le [OF heap_wfD(1) [OF wf]] by simp
    ultimately have "?u = in_use h as + in_use h bs" using w by (simp add: extent_def)
    then show ?thesis using hd(2) by (simp add: g_def in_use_held)
  qed
  have "tiles (headers g) (heap_end h) 0 os (heap_end h)"
    by (rule tiles_cong [OF _ _ heap_wfD(1) [OF wf]]) (simp_all add: g_def w(7))
  then have wg: "heap_wf g os"
    using heap_wfD(7,8) [OF wf] um w by (intro heap_wf_step [OF wf]) (auto simp: g_def is_free_def)
  have lg: "lfree_ok g os" using st xo(1) fr w by (auto simp: settled_iff lfree_ok_def g_def min_def)
  have ap: "apart (is_free g) zs" if "apart (is_free h) zs" "x \<notin> set zs" for zs
    by (rule apart_mono [OF that(1)]) (use fr that(2) in metis)
  have ap: "apart (is_free g) as" "apart (is_free g) bs"
    using st os nx ap apart_parts [of "is_free h" as "x # bs"] apart_parts [of "is_free h" "[x]" bs]
    by (simp_all add: settled_iff)
  have lw: "lowest g os" if "lowest h os"
  proof -
    have "lfree g = min x (lfree h)" by (simp add: g_def)
    then show ?thesis using that by (auto simp: lowest_def fr)
  qed
  obtain h' cs where h': "plug_holes x g = Some h'" "heap_wf h' cs" "settled h' cs" "held h' cs = held g os"
    "lowest g os \<longrightarrow> lowest h' cs" "heap_ptr h' = heap_ptr g" "heap_end h' = heap_end g"
    "mem_size_aligned h' = mem_size_aligned g" "heap_bytes h' = heap_bytes g" "lfree g = heap_end g \<longrightarrow> lfree h' = heap_end g"
    using plug_holes_ok [of g as x bs] wg lg ap fr os by auto
  have "heap_free (data_at h x) h = plug_holes x g"
  proof -
    have G: "(if x < lfree h then (set_hdr x (\<lambda>m. m\<lparr>hm_used := 0, hm_magic := HEAP_MAGIC\<rparr>) h)\<lparr>lfree := x\<rparr>
        else set_hdr x (\<lambda>m. m\<lparr>hm_used := 0, hm_magic := HEAP_MAGIC\<rparr>) h)\<lparr>used_mem := ?u\<rparr> = g"
      by (simp add: g_def set_hdr_def min_def)
    show ?thesis using xo(2) w G
      by (cases "x < lfree h") (simp_all add: heap_free_def data_at_def is_free_def Let_def)
  qed
  then show thesis using that [of h' cs] h' hd(1) lw by (simp add: g_def)
qed

section \<open>Allocation\<close>

text \<open>The search starts at \<open>lfree\<close>.\<close>

lemma from_lfree:
  assumes wf: "heap_wf h os" and lf: "lfree_ok h os"
  obtains ps qs where "os = ps @ qs" "tiles (headers h) (heap_end h) (lfree h) qs (heap_end h)" "\<forall>x \<in> set ps. x < lfree h"
    "\<forall>x \<in> set qs. lfree h \<le> x"
proof (cases "lfree h = heap_end h")
  case True
  then show thesis using that [of os "[]"] tiles_bounds [OF heap_wfD(1) [OF wf]] by fastforce
next
  case False
  then have "lfree h \<in> set os" using lf by (simp add: lfree_ok_def)
  from tiles_at [OF heap_wfD(1) [OF wf] this] obtain as bs where os: "os = as @ lfree h # bs"
    and t: "tiles (headers h) (heap_end h) 0 as (lfree h)" by metis
  have t': "tiles (headers h) (heap_end h) (lfree h) (lfree h # bs) (heap_end h)"
    using heap_wfD(1) [OF wf] os by (auto simp: tiles_append)
  show thesis using that [OF os t'] tiles_bounds [OF t] tiles_bounds [OF t'] by fastforce
qed

definition first_fit :: "heap \<Rightarrow> nat list \<Rightarrow> nat \<Rightarrow> nat option" where
  "first_fit h os sz = find (\<lambda>x. lfree h \<le> x \<and> candidate h sz x) os"

lemma find_app: "find P (xs @ ys) = (case find P xs of None \<Rightarrow> find P ys | Some x \<Rightarrow> Some x)"
  by (induction xs) auto

lemma find_cong2: "(\<And>x. x \<in> set xs \<Longrightarrow> P x = Q x) \<Longrightarrow> find P xs = find Q xs"
  by (induction xs) auto

text \<open>While nothing below \<open>lfree\<close> is free, this is the lowest block that fits.\<close>

lemma first_fit_lowest: "lowest h os \<Longrightarrow> first_fit h os sz = find (candidate h sz) os"
  unfolding first_fit_def by (rule find_cong2) (auto simp: lowest_def candidate_def not_le [symmetric])

lemma malloc_find_ok:
  assumes wf: "heap_wf h os" and lf: "lfree_ok h os" and sz: "sz \<le> mem_size_aligned h"
  shows "malloc_find sz (lfree h) h = Some (first_fit h os sz)"
proof -
  obtain ps qs where q: "os = ps @ qs" "tiles (headers h) (heap_end h) (lfree h) qs (heap_end h)"
    "\<forall>x \<in> set ps. x < lfree h" "\<forall>x \<in> set qs. lfree h \<le> x" using from_lfree [OF wf lf] .
  have "find (\<lambda>x. lfree h \<le> x \<and> candidate h sz x) ps = None" using q(3) by (auto simp: find_None_iff)
  moreover have "find (\<lambda>x. lfree h \<le> x \<and> candidate h sz x) qs = find (candidate h sz) qs"
    by (rule find_cong2) (use q(4) in auto)
  ultimately have "first_fit h os sz = find (candidate h sz) qs" by (simp add: first_fit_def q(1) find_app)
  then show ?thesis using malloc_find_first [OF wf sz q(2)] q(1) by simp
qed

lemma find_lowest: "\<lbrakk>sorted_wrt (<) xs; find P xs = Some z; y \<in> set xs; y < z\<rbrakk> \<Longrightarrow> \<not> P y"
  for xs :: "nat list"
  by (induction xs) (auto split: if_splits)

lemma find_SomeD: "find P xs = Some z \<Longrightarrow> z \<in> set xs \<and> P z"
  by (induction xs) (auto split: if_splits)

lemma tiles_sorted: "tiles H e a xs b \<Longrightarrow> sorted_wrt (<) xs"
proof (induction xs arbitrary: a)
  case (Cons x xs)
  then show ?case using tiles_bounds [of H e "hm_next (H a)" xs b] by fastforce
qed simp

lemma lfree_after:
  assumes wf: "heap_wf h (as @ x # bs)"
  obtains p where "lfree_advance x h = Some p" "p = heap_end h \<or> p \<in> set (x # bs) \<and> is_free h p"
    "\<And>y. y \<in> set (x # bs) \<Longrightarrow> y < p \<Longrightarrow> \<not> is_free h y"
proof -
  let ?p = "case find (is_free h) (x # bs) of None \<Rightarrow> heap_end h | Some z \<Rightarrow> z"
  have t: "tiles (headers h) (heap_end h) x (x # bs) (heap_end h)" using heap_wfD(1) [OF wf] by (auto simp: tiles_append)
  have adv: "lfree_advance x h = Some ?p" by (rule lfree_advance_first [OF wf t]) auto
  show thesis
  proof (cases "find (is_free h) (x # bs)")
    case None
    then have p: "?p = heap_end h" by (simp del: find.simps)
    have "\<not> is_free h y" if "y \<in> set (x # bs)" for y using None that by (simp only: find_None_iff) blast
    then show thesis using that [of ?p] adv p by blast
  next
    case (Some z)
    then have p: "?p = z" by (simp del: find.simps)
    show thesis
      by (rule that [of z]) (use adv p find_SomeD [OF Some] find_lowest [OF tiles_sorted [OF t] Some] in blast)+
  qed
qed

lemma heap_alloc_none:
  assumes "heap_wf h os" "settled h os" "sz \<le> mem_size_aligned h" "first_fit h os sz = None"
  shows "heap_alloc sz h = Some (None, h)"
  using malloc_find_ok [OF assms(1) _ assms(3)] assms(2,4) by (simp add: heap_alloc_def settled_iff)

lemma heap_alloc_ok:
  assumes wf: "heap_wf h os" and st: "settled h os" and sz: "12 \<le> sz" "4 dvd sz" "sz \<le> mem_size_aligned h"
    and ff: "first_fit h os sz = Some x"
  obtains h' os' n as bs where "heap_alloc sz h = Some (Some (data_at h x), h')" "heap_wf h' os'" "settled h' os'"
    "held h os = as @ bs" "held h' os' = as @ (x, n) # bs" "sz + 12 \<le> n"
    "lowest h os \<longrightarrow> lowest h' os'" "heap_ptr h' = heap_ptr h" "heap_end h' = heap_end h"
    "mem_size_aligned h' = mem_size_aligned h" "heap_bytes h' = heap_bytes h"
proof -
  have x: "x \<in> set os" "candidate h sz x" "lfree h \<le> x" using find_SomeD ff unfolding first_fit_def by fastforce+
  obtain as bs where os: "os = as @ x # bs" using x(1) by (metis split_list)
  let ?g = "malloc_carve sz x h"
  obtain ps where g: "heap_wf ?g (as @ x # ps @ bs)" "apart (is_free ?g) (as @ x # ps @ bs)" "\<not> is_free ?g x"
    "sz + 12 \<le> extent ?g x" "\<forall>y \<in> set ps. is_free ?g y \<and> x < y"
    "\<forall>y \<in> set (as @ bs). is_free ?g y = is_free h y \<and> extent ?g y = extent h y"
    "lfree ?g = lfree h" "heap_end ?g = heap_end h" "heap_ptr ?g = heap_ptr h" "mem_size_aligned ?g = mem_size_aligned h"
    "heap_bytes ?g = heap_bytes h"
    using malloc_carve_wf [of h as x bs sz] wf st os x(2) sz by (auto simp: settled_iff)
  have frx: "is_free h x" using x(2) by (simp add: candidate_def)
  have ho: "held h os = held h as @ held h bs" using os frx by simp
  have hg: "held ?g (as @ x # ps @ bs) = held h as @ (x, extent ?g x) # held h bs"
  proof -
    have "held ?g as = held h as" "held ?g bs = held h bs" by (rule held_cong; use g(6) in auto)+
    moreover have "held ?g ps = []" using g(5) by (auto simp: held_def filter_empty_conv)
    ultimately show ?thesis using g(3) by simp
  qed
  have xs: "x \<in> set (as @ x # ps @ bs)" by simp
  note w = heap_wf_small [OF g(1) xs]
  have fit: "x + 12 + sz \<le> heap_end h" using g(4,8) w(2) by (simp add: extent_def)
  have al: "(heap_ptr h + x) mod 4 = 0" "(heap_ptr h + x + 12) mod 4 = 0"
    using heap_wfD(5) [OF wf] w(6) by (simp_all add: dvd_imp_mod_0)
  have find: "malloc_find sz (lfree h) h = Some (Some x)"
    using malloc_find_ok [OF wf _ sz(3)] st ff by (simp add: settled_iff)
  show thesis
  proof (cases "x = lfree h")
    case True
    obtain p where p: "lfree_advance x ?g = Some p" "p = heap_end ?g \<or> p \<in> set (x # ps @ bs) \<and> is_free ?g p"
      "\<And>y. y \<in> set (x # ps @ bs) \<Longrightarrow> y < p \<Longrightarrow> \<not> is_free ?g y"
      using lfree_after [OF g(1)] by blast
    let ?h = "?g\<lparr>lfree := p\<rparr>"
    have same: "is_free ?h = is_free ?g" "extent ?h = extent ?g" by (simp_all add: is_free_def extent_def fun_eq_iff)
    then have hd: "held ?h zs = held ?g zs" "in_use ?h zs = in_use ?g zs" for zs by (simp_all add: held_def in_use_def)
    have al: "heap_alloc sz h = Some (Some (data_at h x), ?h)"
      using find p(1,2) True fit al g(7-9) by (auto simp: heap_alloc_def is_free_def data_at_def)
    have wh: "heap_wf ?h (as @ x # ps @ bs)" 
      using heap_wfD [OF g(1)] hd(2) same(1) by (intro heap_wf_step [OF g(1)]) (auto simp del: in_use_append simp: is_free_def)
    have sh: "settled ?h (as @ x # ps @ bs)" using g(2) p(2) same(1) by (auto simp: settled_def)
    have lw: "lowest ?h (as @ x # ps @ bs)" if "lowest h os"
    proof -
      have "\<not> is_free ?g y" if "y \<in> set as" for y
        using that \<open>lowest h os\<close> tiles_sorted [OF heap_wfD(1) [OF wf]] g(6) os True
        by (auto simp: lowest_def sorted_wrt_append)
      then show ?thesis using p(3) same(1) by (auto simp: lowest_def)
    qed
    show thesis by (rule that [OF al wh sh ho _ g(4)]) (use hg hd(1) lw g(8-11) in \<open>simp_all del: held_append\<close>)
  next
    case False
    have al: "heap_alloc sz h = Some (Some (data_at h x), ?g)"
      using find False fit al g(7-9) by (auto simp: heap_alloc_def data_at_def)
    have lf: "lfree h \<in> set (as @ bs)" if "lfree h \<noteq> heap_end h" using st that False os by (auto simp: settled_def)
    have sh: "settled ?g (as @ x # ps @ bs)" using st g(2,6,7,8) lf by (auto simp: settled_def)
    have lw: "lowest ?g (as @ x # ps @ bs)" if "lowest h os"
      using that g(3,5,6,7) x(3) os by (auto simp: lowest_def)
    show thesis by (rule that [OF al g(1) sh ho hg g(4)]) (use lw g(8-11) in simp_all)
  qed
qed

section \<open>The heap as an allocator\<close>

definition heap_ok :: "heap \<Rightarrow> bool" where
  "heap_ok h \<longleftrightarrow> (\<exists>os. heap_wf h os \<and> settled h os)"

text \<open>The addresses that are out, and the number of bytes that belong to each.\<close>

definition out :: "heap \<Rightarrow> (nat \<times> nat) set" where
  "out h = {(data_at h x, n - 12) | x n os. heap_wf h os \<and> (x, n) \<in> set (held h os)}"

lemma out_eq: "heap_wf h os \<Longrightarrow> out h = (\<lambda>(x, n). (data_at h x, n - 12)) ` set (held h os)"
proof -
  assume wf: "heap_wf h os"
  have "heap_wf h os' \<longleftrightarrow> os' = os" for os' using wf heap_wf_unique [OF wf] by blast
  then show ?thesis unfolding out_def by force
qed

definition fits :: "u32 \<Rightarrow> heap \<Rightarrow> bool" where
  "fits sz h \<longleftrightarrow> \<not> malloc_refused sz h \<and> (\<exists>os x. heap_wf h os \<and> first_fit h os (malloc_size sz) = Some x)"

lemma malloc_size_ok:
  assumes "heap_wf h os" "\<not> malloc_refused sz h"
  shows "12 \<le> malloc_size sz" "4 dvd malloc_size sz" "malloc_size sz \<le> mem_size_aligned h" "unat (RT_ALIGN sz 4) \<le> malloc_size sz"
proof -
  have "4 dvd unat (RT_ALIGN sz 4)" by (rule RT_ALIGN_dvd)
  then show "12 \<le> malloc_size sz" "4 dvd malloc_size sz" "malloc_size sz \<le> mem_size_aligned h"
    "unat (RT_ALIGN sz 4) \<le> malloc_size sz"
    using assms heap_wfD(3) [OF assms(1)] by (auto simp: malloc_size_def malloc_refused_def Let_def)
qed

lemma heap_malloc_ok:
  assumes ok: "heap_ok h" and f: "fits sz h"
  obtains a n h' where "heap_malloc sz h = Some (Some a, h')" "heap_ok h'" "out h' = insert (a, n) (out h)"
    "a \<notin> fst ` out h" "malloc_size sz \<le> n" "heap_ptr h' = heap_ptr h" "heap_end h' = heap_end h"
    "mem_size_aligned h' = mem_size_aligned h" "heap_bytes h' = heap_bytes h"
proof -
  obtain os where wf: "heap_wf h os" and st: "settled h os" using ok by (auto simp: heap_ok_def)
  obtain x where x: "first_fit h os (malloc_size sz) = Some x" and nr: "\<not> malloc_refused sz h"
    using f heap_wf_unique [OF wf] by (auto simp: fits_def)
  obtain h' os' n as bs where r: "heap_alloc (malloc_size sz) h = Some (Some (data_at h x), h')" "heap_wf h' os'"
    "settled h' os'" "held h os = as @ bs" "held h' os' = as @ (x, n) # bs" "malloc_size sz + 12 \<le> n"
    "lowest h os \<longrightarrow> lowest h' os'" "heap_ptr h' = heap_ptr h" "heap_end h' = heap_end h"
    "mem_size_aligned h' = mem_size_aligned h" "heap_bytes h' = heap_bytes h"
    using heap_alloc_ok [OF wf st malloc_size_ok(1-3) [OF wf nr] x] .
  have d: "data_at h' = data_at h" using r(8) by (simp add: data_at_def fun_eq_iff)
  have "is_free h x" using find_SomeD x unfolding first_fit_def candidate_def by fastforce
  then have "x \<notin> fst ` set (held h os)" by (auto simp: held_def)
  then have "data_at h x \<notin> fst ` out h" by (auto simp: out_eq [OF wf] data_at_def image_iff)
  moreover have "out h' = insert (data_at h x, n - 12) (out h)"
    by (auto simp: out_eq [OF wf] out_eq [OF r(2)] d r(4,5) image_iff)
  moreover have "heap_ok h'" using r(2,3) by (auto simp: heap_ok_def)
  ultimately show thesis using that [of "data_at h x" h' "n - 12"] r nr by (simp add: heap_malloc_def)
qed

lemma heap_malloc_none:
  assumes ok: "heap_ok h" and f: "\<not> fits sz h"
  shows "heap_malloc sz h = Some (None, h)"
proof (cases "malloc_refused sz h")
  case False
  obtain os where wf: "heap_wf h os" and st: "settled h os" using ok by (auto simp: heap_ok_def)
  then have "first_fit h os (malloc_size sz) = None" using f False by (auto simp: fits_def)
  then show ?thesis using heap_alloc_none [OF wf st malloc_size_ok(3) [OF wf False]] False by (simp add: heap_malloc_def)
qed (simp add: heap_malloc_def)

lemma heap_free_out:
  assumes ok: "heap_ok h" and a: "(a, n) \<in> out h"
  obtains h' where "heap_free a h = Some h'" "heap_ok h'" "out h' = {b \<in> out h. fst b \<noteq> a}"
    "heap_ptr h' = heap_ptr h" "heap_end h' = heap_end h" "mem_size_aligned h' = mem_size_aligned h" "heap_bytes h' = heap_bytes h"
proof -
  obtain os where wf: "heap_wf h os" and st: "settled h os" using ok by (auto simp: heap_ok_def)
  obtain x m where x: "(x, m) \<in> set (held h os)" "a = data_at h x" using a by (auto simp: out_eq [OF wf])
  obtain h' os' where r: "heap_free (data_at h x) h = Some h'" "heap_wf h' os'" "settled h' os'"
    "held h' os' = filter (\<lambda>b. fst b \<noteq> x) (held h os)" "lowest h os \<longrightarrow> lowest h' os'"
    "heap_ptr h' = heap_ptr h" "heap_end h' = heap_end h" "mem_size_aligned h' = mem_size_aligned h" "heap_bytes h' = heap_bytes h"
    using heap_free_ok [OF wf st x(1)] .
  have d: "data_at h' = data_at h" using r(6) by (simp add: data_at_def fun_eq_iff)
  have "out h' = {b \<in> out h. fst b \<noteq> a}"
    by (force simp: out_eq [OF wf] out_eq [OF r(2)] d r(4) x(2) data_at_def)
  then show thesis using that [of h'] r x(2) by (auto simp: heap_ok_def)
qed

interpretation small_mem: allocator heap_ok "\<lambda>h. fst ` out h" fits heap_malloc heap_free
proof unfold_locales
  fix h :: heap and sz
  assume ok: "heap_ok h" and f: "fits sz h"
  then obtain a n h' where "heap_malloc sz h = Some (Some a, h')" "heap_ok h'" "out h' = insert (a, n) (out h)"
    "a \<notin> fst ` out h" using heap_malloc_ok by metis
  then show "\<exists>b p'. heap_malloc sz h = Some (Some b, p') \<and> heap_ok p' \<and> b \<notin> fst ` out h \<and> fst ` out p' = insert b (fst ` out h)"
    by simp
next
  fix h :: heap and sz
  assume "heap_ok h" "\<not> fits sz h"
  then show "heap_malloc sz h = Some (None, h)" by (simp add: heap_malloc_none)
next
  fix h :: heap and b
  assume ok: "heap_ok h" and "b \<in> fst ` out h"
  then obtain n where "(b, n) \<in> out h" by auto
  then obtain h' where "heap_free b h = Some h'" "heap_ok h'" "out h' = {c \<in> out h. fst c \<noteq> b}"
    by (rule heap_free_out [OF ok])
  then show "\<exists>p'. heap_free b h = Some p' \<and> heap_ok p' \<and> fst ` out p' = fst ` out h - {b}" by auto
qed

text \<open>What is out lies inside the heap, aligned, and no two blocks overlap.\<close>

lemma held_tiles: "tiles (headers h) e a os b \<Longrightarrow> (x, n) \<in> set (held h os) \<Longrightarrow> a \<le> x \<and> x + n \<le> b \<and> 12 < n"
proof (induction os arbitrary: a)
  case (Cons y ys)
  have "hm_next (headers h y) \<le> b" "y + 12 < hm_next (headers h y)" "y = a" "tiles (headers h) e (hm_next (headers h y)) ys b"
    using Cons.prems(1) tiles_le [of "headers h" e "hm_next (headers h y)" ys b] by auto
  then show ?case using Cons by (fastforce simp: extent_def split: if_splits)
qed simp

lemma held_apart:
  "tiles (headers h) e a os b \<Longrightarrow> (x, n) \<in> set (held h os) \<Longrightarrow> (y, m) \<in> set (held h os) \<Longrightarrow> x < y \<Longrightarrow> x + n \<le> y"
proof (induction os arbitrary: a)
  case (Cons z zs)
  have t: "z = a" "z < hm_next (headers h z)" "tiles (headers h) e (hm_next (headers h z)) zs b"
    using Cons.prems(1) by auto
  note up = held_tiles [OF t(3)]
  show ?case using Cons.IH [OF t(3)] Cons.prems(2-4) up [of x n] up [of y m] t(2)
    by (auto simp: extent_def split: if_splits)
qed simp

lemma out_disjoint:
  assumes ok: "heap_ok h" and o: "(a, n) \<in> out h" "(b, m) \<in> out h"
  shows "heap_ptr h + 12 \<le> a" "a + n \<le> heap_ptr h + heap_end h" "4 dvd a" "0 < n" "a < b \<Longrightarrow> a + n + 12 \<le> b" "a = b \<Longrightarrow> n = m"
proof -
  obtain os where wf: "heap_wf h os" using ok by (auto simp: heap_ok_def)
  obtain x k where x: "(x, k) \<in> set (held h os)" "a = data_at h x" "n = k - 12" using o(1) by (auto simp: out_eq [OF wf])
  obtain y l where y: "(y, l) \<in> set (held h os)" "b = data_at h y" "m = l - 12" using o(2) by (auto simp: out_eq [OF wf])
  note t = heap_wfD(1) [OF wf]
  have xb: "x + k \<le> heap_end h" "12 < k" using held_tiles [OF t x(1)] by simp_all
  have "x \<in> set os" using x(1) by (auto simp: held_def)
  then have "4 dvd x" using heap_wf_small [OF wf] by blast
  then show "heap_ptr h + 12 \<le> a" "a + n \<le> heap_ptr h + heap_end h" "4 dvd a" "0 < n"
    using xb x(2,3) heap_wfD(5) [OF wf] by (simp_all add: data_at_def)
  show "a + n + 12 \<le> b" if "a < b"
    using held_apart [OF t x(1) y(1)] that xb x(2,3) y(2) by (simp add: data_at_def)
  show "n = m" if "a = b" using that x y by (auto simp: data_at_def held_def)
qed

section \<open>Starting and shrinking\<close>

lemma heap_init_ok:
  fixes b e :: u32
  defines "ba \<equiv> unat (RT_ALIGN b 4)" and "ea \<equiv> unat (RT_ALIGN_DOWN e 4)"
  assumes room: "ba + 36 \<le> ea" and u: "used_mem h = 0"
  shows "heap_ok (heap_init b e h)" "out (heap_init b e h) = {}" "lowest (heap_init b e h) [0]"
    "heap_ptr (heap_init b e h) = ba" "mem_size_aligned (heap_init b e h) = ea - ba - 24"
proof -
  let ?h = "heap_init b e h" and ?n = "ea - ba - 12"
  have c: "ea > 24 \<and> ea - 24 \<ge> ba" and n: "ea - ba - 24 + 12 = ?n" using room by auto
  have H: "headers ?h = (headers h)(0 := \<lparr>hm_magic = HEAP_MAGIC, hm_used = 0, hm_next = ?n, hm_prev = 0\<rparr>,
      ?n := \<lparr>hm_magic = HEAP_MAGIC, hm_used = 1, hm_next = ?n, hm_prev = ?n\<rparr>)"
    and sel: "heap_ptr ?h = ba" "heap_end ?h = ?n" "lfree ?h = 0" "mem_size_aligned ?h = ea - ba - 24" "used_mem ?h = 0"
    using c n u by (simp_all add: heap_init_def Let_def ba_def [symmetric] ea_def [symmetric])
  have z: "?n \<noteq> 0" "12 < ?n" "4 dvd ?n" "4 dvd ba" "ea < 2 ^ 32"
    using room RT_ALIGN_dvd(1) [of b] RT_ALIGN_dvd(2) [of e] unsigned_less [of "RT_ALIGN_DOWN e 4", where 'a = nat]
    by (auto simp: ba_def ea_def)
  have wf: "heap_wf ?h [0]"
    using room z sel by (auto simp: heap_wf_def H is_free_def)
  moreover have "settled ?h [0]" using z sel by (simp add: settled_def H is_free_def)
  ultimately show "heap_ok ?h" by (auto simp: heap_ok_def)
  show "out ?h = {}" using z by (simp add: out_eq [OF wf] H is_free_def)
  show "lowest ?h [0]" using sel by (simp add: lowest_def)
  show "heap_ptr ?h = ba" "mem_size_aligned ?h = ea - ba - 24" by fact+
qed

text \<open>
  \<^verbatim>\<open>rt_realloc\<close> cuts the end off a used block. A heap that was full stays so for \<open>lfree\<close>.
\<close>

lemma heap_shrink_ok:
  assumes wf: "heap_wf h os" and st: "settled h os" and x: "(x, n) \<in> set (held h os)"
    and k: "0 < k" "4 dvd k" "k + 24 < n - 12"
  obtains h' os' where "heap_shrink x k h = Some h'" "heap_wf h' os'" "settled h' os'"
    "held h' os' = map (\<lambda>(y, m). (y, if y = x then k + 12 else m)) (held h os)"
    "heap_ptr h' = heap_ptr h" "heap_end h' = heap_end h" "mem_size_aligned h' = mem_size_aligned h" "heap_bytes h' = heap_bytes h"
    "lfree h = heap_end h \<longrightarrow> lfree h' = heap_end h" "used_mem h' + (n - 12 - k) = used_mem h"
proof -
  have xo: "x \<in> set os" "\<not> is_free h x" "extent h x = n" using x by (auto simp: held_def)
  note w = heap_wf_small [OF wf xo(1)] and t = heap_wfD(1) [OF wf]
  let ?n = "hm_next (headers h x)" and ?e = "heap_end h"
  define p where "p = x + 12 + k"
  obtain as bs where os: "os = as @ x # bs" using xo(1) by (metis split_list)
  have nx: "?n = x + n" "n > 36" using xo(3) w k by (auto simp: extent_def)
  have p: "add32 x (12 + k) = p" "x + 12 < p" "p + 12 < ?n" "4 dvd p" "p \<noteq> ?n" "?n \<noteq> x" "p \<noteq> x" "p \<noteq> ?e" "?e \<noteq> x"
    using k w nx by (auto simp: p_def)
  define g where "g = h\<lparr>used_mem := used_mem h - (n - 12 - k), headers := (\<lambda>y. if y = x then (headers h x)\<lparr>hm_next := p\<rparr>
        else if y = p then \<lparr>hm_magic = HEAP_MAGIC, hm_used = 0, hm_next = ?n, hm_prev = x\<rparr>
        else if y = ?n \<and> ?n \<noteq> ?e then (headers h ?n)\<lparr>hm_prev := p\<rparr> else headers h y)\<rparr>"
  have off: "y \<noteq> x \<and> y \<noteq> p" if "y \<in> set (as @ bs)" for y
  proof -
    have "tiles (headers h) ?e 0 as x" "tiles (headers h) ?e ?n bs ?e" using t os by (auto simp: tiles_append)
    from tiles_bounds [OF this(1), of y] tiles_bounds [OF this(2), of y] show ?thesis using that p(2,3) by auto
  qed
  have fr: "is_free g x = is_free h x" "is_free g p" "extent g x = k + 12"
    using p(7) by (auto simp: g_def is_free_def extent_def p_def)
  have keep: "is_free g y = is_free h y \<and> extent g y = extent h y" if "y \<noteq> x" "y \<noteq> p" for y
    using that by (auto simp: g_def is_free_def extent_def)
  have ab: "held g as = held h as" "held g bs = held h bs" by (rule held_cong; use keep off in auto)+
  have hg: "held g (as @ x # p # bs) = held h as @ (x, k + 12) # held h bs" using ab fr xo(2) by simp
  have um: "used_mem g = in_use g (as @ x # p # bs)"
    using heap_wfD(9) [OF wf] os xo(2,3) hg nx(2) k(3) by (simp add: in_use_held g_def del: held_append) simp
  have "tiles (headers g) ?e 0 (as @ x # p # bs) ?e"
    by (rule tiles_split [OF t [unfolded os] p(2-4)]) (use p w(7) in \<open>simp_all add: g_def\<close>)
  then have wg: "heap_wf g (as @ x # p # bs)"
    using heap_wfD(7,8) [OF wf] um p(2,3,8,9) by (intro heap_wf_step [OF wf]) (auto simp: g_def is_free_def)
  have "lfree h \<in> set (as @ bs)" if "lfree h \<noteq> ?e" using st that xo(2) os by (auto simp: settled_def)
  then have lg: "lfree_ok g (as @ x # p # bs)"
    using st keep off by (auto simp: settled_def lfree_ok_def g_def)
  have ap: "apart (is_free g) (as @ [x])" "apart (is_free g) bs"
  proof -
    have a: "apart (is_free h) (as @ [x])" "apart (is_free h) bs"
      using st os apart_append [of "is_free h" as x bs] apart_parts [of "is_free h" "[x]" bs] by (auto simp: settled_iff)
    show "apart (is_free g) (as @ [x])" by (rule apart_mono [OF a(1)]) (use keep off fr(1) in auto)
    show "apart (is_free g) bs" by (rule apart_mono [OF a(2)]) (use keep off in auto)
  qed
  have code: "heap_shrink x k h = plug_holes p g"
  proof -
    have u: "n \<le> used_mem h" "used_mem h \<le> ?e"
      using heap_wfD(9) [OF wf] os xo(2,3) in_use_le [OF t] by simp_all
    have "n - 12 < 2 ^ 32" "k \<le> n - 12" "n - 12 - k \<le> used_mem h" "used_mem h < 2 ^ 32" using u w k by auto
    then have z: "sub32 ?n x = n" "sub32 n 12 = n - 12" "sub32 (n - 12) k = n - 12 - k"
      "sub32 (used_mem h) (n - 12 - k) = used_mem h - (n - 12 - k)"
      using nx u w by simp_all
    have e: "add32 (mem_size_aligned h) 12 = ?e" using wf by (simp add: heap_wf_def)
    let ?f = "set_hdr x (\<lambda>m. m\<lparr>hm_next := p\<rparr>) (set_hdr p (\<lambda>_. \<lparr>hm_magic = HEAP_MAGIC, hm_used = 0, hm_next = ?n, hm_prev = x\<rparr>)
        (h\<lparr>used_mem := used_mem h - (n - 12 - k)\<rparr>))"
    have "(if ?n \<noteq> ?e then set_hdr ?n (\<lambda>m. m\<lparr>hm_prev := p\<rparr>) ?f else ?f) = g"
      using p(5-9) by (cases "?n = ?e") (simp_all add: g_def set_hdr_def fun_eq_iff)
    then show ?thesis using p z e by (cases "?n = ?e") (simp_all add: heap_shrink_def Let_def)
  qed
  have map_id: "map (\<lambda>(y, m). (y, if y = x then k + 12 else m)) (held h zs) = held h zs" if "x \<notin> set zs" for zs
    using that by (auto simp: held_def)
  have "x \<notin> set as" "x \<notin> set bs" using off by auto
  then have hm: "map (\<lambda>(y, m). (y, if y = x then k + 12 else m)) (held h os) = held h as @ (x, k + 12) # held h bs"
    using os xo(2) map_id by simp
  obtain h' cs where h': "plug_holes p g = Some h'" "heap_wf h' cs" "settled h' cs" "held h' cs = held g ((as @ [x]) @ p # bs)"
    "lowest g ((as @ [x]) @ p # bs) \<longrightarrow> lowest h' cs" "heap_ptr h' = heap_ptr g" "heap_end h' = heap_end g"
    "mem_size_aligned h' = mem_size_aligned g" "heap_bytes h' = heap_bytes g" "lfree g = heap_end g \<longrightarrow> lfree h' = heap_end g"
    by (rule plug_holes_ok [of g "as @ [x]" p bs]) (use wg lg ap fr(2) in auto)
  have "used_mem h' = used_mem g" using heap_wfD(9) [OF h'(2)] h'(4) um by (simp add: in_use_held)
  moreover have "n - 12 - k \<le> used_mem h" using heap_wfD(9) [OF wf] os xo(2,3) by simp
  ultimately have "used_mem h' + (n - 12 - k) = used_mem h" by (simp add: g_def)
  then show thesis by (intro that [of h' cs]) (use code h' hg hm in \<open>simp_all add: g_def\<close>)
qed

text \<open>While nothing below \<open>lfree\<close> is free, the lowest block that fits is taken.\<close>

lemma malloc_lowest:
  assumes ok: "heap_ok h" and wf: "heap_wf h os" and lw: "lowest h os" and x: "x \<in> set os" "candidate h (malloc_size sz) x"
    and nr: "\<not> malloc_refused sz h"
  shows "fits sz h" "heap_malloc sz h = Some (Some a, h') \<Longrightarrow> a \<le> data_at h x"
proof -
  have st: "settled h os" using ok heap_wf_unique [OF wf] by (auto simp: heap_ok_def)
  have "find (candidate h (malloc_size sz)) os \<noteq> None" using x by (auto simp: find_None_iff)
  then obtain y where f: "find (candidate h (malloc_size sz)) os = Some y" by auto
  then have ff: "first_fit h os (malloc_size sz) = Some y" by (simp add: first_fit_lowest [OF lw])
  then show "fits sz h" using wf nr by (auto simp: fits_def)
  have yx: "\<not> x < y" using find_lowest [OF tiles_sorted [OF heap_wfD(1) [OF wf]] f x(1)] x(2) by blast
  show "a \<le> data_at h x" if "heap_malloc sz h = Some (Some a, h')"
  proof -
    obtain g where "heap_alloc (malloc_size sz) h = Some (Some (data_at h y), g)"
      using heap_alloc_ok [OF wf st malloc_size_ok(1-3) [OF wf nr] ff] by metis
    then show ?thesis using that nr yx by (simp add: heap_malloc_def data_at_def)
  qed
qed

end
