(* ===== verification/MemCalls.thy ===== *)
theory MemCalls
  imports MemAlloc
begin

text \<open>
  The calls of \<^verbatim>\<open>src/mem.c\<close> on the kernel and the heap together. Every call takes the semaphore
  \<^verbatim>\<open>heap_sem\<close> (here \<open>hs\<close>) around its section; when the semaphore is taken the caller sleeps
  with the work it has left, a \<open>heap_wait\<close>, and \<open>heap_resume\<close> goes on with it once the thread runs
  again, whatever \<^verbatim>\<open>rt_sem_take\<close> returned: the code ignores it.
\<close>

section \<open>The code\<close>

abbreviation (input) RT_WAITING_FOREVER :: u32 where "RT_WAITING_FOREVER \<equiv> - 1"

datatype heap_wait =
    Malloc_wait nat
  | Free_wait nat
  | Calloc_wait nat nat
  | Realloc_wait nat nat
  | Realloc_malloc_wait nat nat nat
  | Realloc_free_wait nat nat

datatype mem_call = Got "nat option" | Sleeps heap_wait

definition lock_heap :: "nat \<Rightarrow> kernel \<Rightarrow> (bool \<times> kernel) option" where
  "lock_heap hs s =
     do { (r, s) \<leftarrow> rt_sem_take hs RT_WAITING_FOREVER s;
          Some (case r of Return _ \<Rightarrow> True | Pending \<Rightarrow> False, s) }"

definition unlock_heap :: "nat \<Rightarrow> kernel \<Rightarrow> kernel option" where
  "unlock_heap hs s = do { (_, s) \<leftarrow> rt_sem_release hs s; Some s }"

definition rt_system_heap_init :: "nat \<Rightarrow> u32 \<Rightarrow> u32 \<Rightarrow> kernel \<times> heap \<Rightarrow> (kernel \<times> heap) option" where
  "rt_system_heap_init hs begin_addr end_addr c =
     (let (s, h) = c; begin_align = unat (RT_ALIGN begin_addr 4); end_align = unat (RT_ALIGN_DOWN end_addr 4)
      in do { not_in_interrupt s;
              if end_align > 24 \<and> end_align - 24 \<ge> begin_align
              then do { (_, s) \<leftarrow> rt_sem_init hs [0x68, 0x65, 0x61, 0x70] 1 RT_IPC_FLAG_FIFO s;
                        Some (s, heap_init begin_addr end_addr h) }
              else Some (s, h) })"

definition malloc_locked :: "nat \<Rightarrow> nat \<Rightarrow> kernel \<times> heap \<Rightarrow> (nat option \<times> kernel \<times> heap) option" where
  "malloc_locked hs n c =
     (let (s, h) = c in
      do { (r, h) \<leftarrow> heap_alloc n h;
           s \<leftarrow> unlock_heap hs s;
           Some (r, s, h) })"

definition rt_malloc :: "nat \<Rightarrow> u32 \<Rightarrow> kernel \<times> heap \<Rightarrow> (mem_call \<times> kernel \<times> heap) option" where
  "rt_malloc hs sz c =
     (let (s, h) = c in
      do { not_in_interrupt s;
           if malloc_refused sz h then Some (Got None, s, h)
           else do { (got, s) \<leftarrow> lock_heap hs s;
                     if got then do { (r, c) \<leftarrow> malloc_locked hs (malloc_size sz) (s, h); Some (Got r, c) }
                     else Some (Sleeps (Malloc_wait (malloc_size sz)), s, h) } })"

definition free_locked :: "nat \<Rightarrow> nat \<Rightarrow> kernel \<times> heap \<Rightarrow> (kernel \<times> heap) option" where
  "free_locked hs rmem c =
     (let (s, h) = c in
      do { h \<leftarrow> heap_free rmem h;
           s \<leftarrow> unlock_heap hs s;
           Some (s, h) })"

definition rt_free :: "nat \<Rightarrow> nat \<Rightarrow> kernel \<times> heap \<Rightarrow> (mem_call \<times> kernel \<times> heap) option" where
  "rt_free hs rmem c =
     (let (s, h) = c in
      do { not_in_interrupt s;
           if rmem = 0 then Some (Got None, s, h)
           else do { rt_assert (rmem mod 4 = 0);
                     rt_assert (heap_ptr h \<le> rmem \<and> rmem < heap_ptr h + heap_end h);
                     (got, s) \<leftarrow> lock_heap hs s;
                     if got then do { c \<leftarrow> free_locked hs rmem (s, h); Some (Got None, c) }
                     else Some (Sleeps (Free_wait rmem), s, h) } })"

text \<open>Writing past the end of a block would overwrite the headers behind it.\<close>

definition in_block :: "nat \<Rightarrow> nat \<Rightarrow> heap \<Rightarrow> bool" where
  "in_block a n h \<longleftrightarrow> heap_ptr h + 12 \<le> a \<and> a + n \<le> heap_ptr h + hm_next (headers h (a - heap_ptr h - 12))"

definition calloc_zero :: "nat option \<Rightarrow> nat \<Rightarrow> kernel \<times> heap \<Rightarrow> (kernel \<times> heap) option" where
  "calloc_zero p n c =
     (let (s, h) = c in
      case p of
        None \<Rightarrow> Some (s, h)
      | Some a \<Rightarrow> do { rt_assert (in_block a n h); Some (s, h\<lparr>heap_bytes := rt_memset a 0 n (heap_bytes h)\<rparr>) })"

definition rt_calloc :: "nat \<Rightarrow> u32 \<Rightarrow> u32 \<Rightarrow> kernel \<times> heap \<Rightarrow> (mem_call \<times> kernel \<times> heap) option" where
  "rt_calloc hs count sz c =
     do { not_in_interrupt (fst c);
          (r, c) \<leftarrow> rt_malloc hs (count * sz) c;
          case r of
            Got p \<Rightarrow> do { c \<leftarrow> calloc_zero p (unat (count * sz)) c; Some (Got p, c) }
          | Sleeps w \<Rightarrow> Some (Sleeps (case w of Malloc_wait n \<Rightarrow> Calloc_wait n (unat (count * sz)) | _ \<Rightarrow> w), c) }"

text \<open>\<open>rt_realloc\<close> behind the call that allocates the new block.\<close>

definition realloc_move :: "nat \<Rightarrow> nat \<Rightarrow> nat \<Rightarrow> nat \<Rightarrow> nat option \<Rightarrow> kernel \<times> heap \<Rightarrow> (mem_call \<times> kernel \<times> heap) option" where
  "realloc_move hs rmem sz newsize p c =
     (let (s, h) = c in
      case p of
        None \<Rightarrow> Some (Got None, s, h)
      | Some nmem \<Rightarrow>
          do { let len = (if sz < newsize then sz else newsize);
               rt_assert (in_block nmem len h);
               (r, c) \<leftarrow> rt_free hs rmem (s, h\<lparr>heap_bytes := rt_memcpy nmem rmem len (heap_bytes h)\<rparr>);
               Some (case r of Got _ \<Rightarrow> Got (Some nmem) | Sleeps _ \<Rightarrow> Sleeps (Realloc_free_wait rmem nmem), c) })"

definition realloc_locked :: "nat \<Rightarrow> nat \<Rightarrow> nat \<Rightarrow> kernel \<times> heap \<Rightarrow> (mem_call \<times> kernel \<times> heap) option" where
  "realloc_locked hs rmem newsize c =
     (let (s, h) = c in
      if rmem < heap_ptr h \<or> rmem \<ge> heap_ptr h + heap_end h
      then do { s \<leftarrow> unlock_heap hs s; Some (Got (Some rmem), s, h) }
      else do { rt_assert (heap_ptr h + 12 \<le> rmem);
                let ptr = rmem - heap_ptr h - 12;
                let sz = sub32 (sub32 (hm_next (headers h ptr)) ptr) 12;
                if sz = newsize
                then do { s \<leftarrow> unlock_heap hs s; Some (Got (Some rmem), s, h) }
                else if add32 newsize 24 < sz
                then do { h \<leftarrow> heap_shrink ptr newsize h; s \<leftarrow> unlock_heap hs s; Some (Got (Some rmem), s, h) }
                else do { s \<leftarrow> unlock_heap hs s;
                          (r, c) \<leftarrow> rt_malloc hs (of_nat newsize) (s, h);
                          case r of Got p \<Rightarrow> realloc_move hs rmem sz newsize p c
                          | Sleeps _ \<Rightarrow> Some (Sleeps (Realloc_malloc_wait rmem sz newsize), c) } })"

definition rt_realloc :: "nat \<Rightarrow> nat \<Rightarrow> u32 \<Rightarrow> kernel \<times> heap \<Rightarrow> (mem_call \<times> kernel \<times> heap) option" where
  "rt_realloc hs rmem newsize c =
     (let (s, h) = c; newsize = RT_ALIGN newsize 4 in
      do { not_in_interrupt s;
           if unat newsize > mem_size_aligned h then Some (Got None, s, h)
           else if newsize = 0 then rt_free hs rmem (s, h)
           else if rmem = 0 then rt_malloc hs newsize (s, h)
           else do { (got, s) \<leftarrow> lock_heap hs s;
                     if got then realloc_locked hs rmem (unat newsize) (s, h)
                     else Some (Sleeps (Realloc_wait rmem (unat newsize)), s, h) } })"

fun heap_resume :: "nat \<Rightarrow> heap_wait \<Rightarrow> kernel \<times> heap \<Rightarrow> (mem_call \<times> kernel \<times> heap) option" where
  "heap_resume hs (Malloc_wait n) c = do { (r, c) \<leftarrow> malloc_locked hs n c; Some (Got r, c) }"
| "heap_resume hs (Free_wait a) c = do { c \<leftarrow> free_locked hs a c; Some (Got None, c) }"
| "heap_resume hs (Calloc_wait n k) c =
     do { (r, c) \<leftarrow> malloc_locked hs n c; c \<leftarrow> calloc_zero r k c; Some (Got r, c) }"
| "heap_resume hs (Realloc_wait a n) c = realloc_locked hs a n c"
| "heap_resume hs (Realloc_malloc_wait a sz n) c =
     do { (r, c) \<leftarrow> malloc_locked hs (malloc_size (of_nat n)) c; realloc_move hs a sz n r c }"
| "heap_resume hs (Realloc_free_wait a p) c = do { c \<leftarrow> free_locked hs a c; Some (Got (Some p), c) }"

definition rt_memory_info :: "heap \<Rightarrow> nat \<times> nat \<times> nat" where
  "rt_memory_info h = (mem_size_aligned h, used_mem h, max_mem h)"

section \<open>Calls that find the heap unlocked\<close>

definition unlocked :: "kernel \<Rightarrow> nat \<Rightarrow> bool" where
  "unlocked s hs \<longleftrightarrow> sem_ok s hs \<and> sem_abs s hs = Some (1, []) \<and> rt_interrupt_nest s = 0"

lemma lock_unlock:
  assumes "unlocked s hs"
  obtains s' where "lock_heap hs s = Some (True, s')" "unlock_heap hs s' = Some s" "rt_interrupt_nest s' = 0"
proof -
  obtain v x where v: "sems s hs = Some v" and x: "objects s (OSem hs) = Some x"
    and ck: "check_type s (OSem hs) RT_Object_Class_Semaphore = Some ()"
    using assms unfolding unlocked_def by (metis sem_okE)
  have q: "tlists s (SuspendQ (OSem hs)) = []" "unat (sem_value v) = 1" "rt_interrupt_nest s = 0"
    using assms v by (simp_all add: unlocked_def sem_abs_def)
  have v1: "sem_value v = 1" using q(2) by (simp add: word_unat_eq_iff)
  let ?s = "s\<lparr>sems := (sems s)(hs \<mapsto> v\<lparr>sem_value := 0\<rparr>)\<rparr>"
  have "lock_heap hs s = Some (True, ?s)" using ck v v1 by (simp add: lock_heap_def rt_sem_take_def del: check_type_iff)
  moreover have "unlock_heap hs ?s = Some s"
  proof -
    have "check_type ?s (OSem hs) RT_Object_Class_Semaphore = Some ()"
      using ck by (simp add: check_type_def rt_object_get_type_def)
    moreover have "v\<lparr>sem_value := 1\<rparr> = v" using v1 by simp
    then have "s\<lparr>sems := (sems s)(hs \<mapsto> v\<lparr>sem_value := 1\<rparr>)\<rparr> = s" using v by (simp add: fun_upd_idem)
    ultimately show ?thesis using q(1) by (simp add: unlock_heap_def rt_sem_release_def del: check_type_iff)
  qed
  ultimately show thesis using that q(3) by simp
qed

lemma rt_malloc_unlocked:
  assumes "unlocked s hs"
  shows "rt_malloc hs sz (s, h) = map_option (\<lambda>(r, h'). (Got r, s, h')) (heap_malloc sz h)"
proof -
  obtain s' where l: "lock_heap hs s = Some (True, s')" "unlock_heap hs s' = Some s" using lock_unlock [OF assms] by metis
  have "rt_interrupt_nest s = 0" using assms by (simp add: unlocked_def)
  then show ?thesis using l
    by (cases "heap_alloc (malloc_size sz) h") (auto simp: rt_malloc_def heap_malloc_def malloc_locked_def not_in_interrupt_def)
qed

lemma rt_free_unlocked:
  assumes "unlocked s hs" "heap_ok h" "(a, n) \<in> out h"
  shows "rt_free hs a (s, h) = map_option (\<lambda>h'. (Got None, s, h')) (heap_free a h)"
proof -
  obtain s' where l: "lock_heap hs s = Some (True, s')" "unlock_heap hs s' = Some s" using lock_unlock [OF assms(1)] by metis
  have "rt_interrupt_nest s = 0" using assms by (simp add: unlocked_def)
  moreover have "a \<noteq> 0" "a mod 4 = 0" "heap_ptr h \<le> a" "a < heap_ptr h + heap_end h"
    using out_disjoint [OF assms(2,3,3)] by auto
  ultimately show ?thesis using l
    by (cases "heap_free a h") (auto simp: rt_free_def free_locked_def not_in_interrupt_def)
qed

text \<open>Data written between the headers leaves the heap as it is.\<close>

lemma heap_bytes_frame [simp]:
  "heap_ok (h\<lparr>heap_bytes := m\<rparr>) = heap_ok h" "out (h\<lparr>heap_bytes := m\<rparr>) = out h"
proof -
  have "is_free (h\<lparr>heap_bytes := m\<rparr>) = is_free h" "extent (h\<lparr>heap_bytes := m\<rparr>) = extent h"
    by (simp_all add: is_free_def extent_def fun_eq_iff)
  then have a: "heap_wf (h\<lparr>heap_bytes := m\<rparr>) os = heap_wf h os" "held (h\<lparr>heap_bytes := m\<rparr>) os = held h os"
    "settled (h\<lparr>heap_bytes := m\<rparr>) os = settled h os" for os
    by (simp_all add: heap_wf_def held_def settled_def in_use_def)
  show "heap_ok (h\<lparr>heap_bytes := m\<rparr>) = heap_ok h" "out (h\<lparr>heap_bytes := m\<rparr>) = out h"
    by (simp_all add: heap_ok_def out_def a data_at_def)
qed

lemma out_in_block:
  assumes "heap_ok h" "(a, n) \<in> out h" "k \<le> n"
  shows "in_block a k h"
proof -
  obtain os where wf: "heap_wf h os" using assms(1) by (auto simp: heap_ok_def)
  obtain x m where x: "(x, m) \<in> set (held h os)" "a = data_at h x" "n = m - 12" using assms(2) by (auto simp: out_eq [OF wf])
  have "x \<in> set os" "m = extent h x" using x(1) by (auto simp: held_def)
  then show ?thesis using x assms(3) heap_wf_small [OF wf, of x] by (simp add: in_block_def data_at_def extent_def)
qed

text \<open>Resizing a block that is out, from the point where the heap is locked.\<close>

lemma realloc_size:
  assumes ok: "heap_ok h" and a: "(a, n) \<in> out h"
  obtains os x where "heap_wf h os" "settled h os" "(x, n + 12) \<in> set (held h os)" "a = data_at h x"
    "sub32 (sub32 (hm_next (headers h x)) x) 12 = n" "\<not> (a < heap_ptr h \<or> a \<ge> heap_ptr h + heap_end h)"
    "heap_ptr h + 12 \<le> a" "a - heap_ptr h - 12 = x"
proof -
  obtain os where wf: "heap_wf h os" and st: "settled h os" using ok by (auto simp: heap_ok_def)
  obtain x m where x: "(x, m) \<in> set (held h os)" "a = data_at h x" "n = m - 12" using a by (auto simp: out_eq [OF wf])
  have xo: "x \<in> set os" "m = extent h x" using x(1) by (auto simp: held_def)
  note w = heap_wf_small [OF wf xo(1)]
  have "m = n + 12" using w(1) xo(2) x(3) by (simp add: extent_def)
  then show thesis using that [OF wf st, of x] x w xo(2) by (auto simp: extent_def data_at_def)
qed

lemma image_resize:
  assumes d: "\<And>y. d y = a \<longleftrightarrow> y = x" and x: "(x, m) \<in> S"
  shows "(\<lambda>(y, m). (d y, (if y = x then k + 12 else m) - 12)) ` S =
    insert (a, k :: nat) {b \<in> (\<lambda>(y, m). (d y, m - 12)) ` S. fst b \<noteq> a}" (is "?l = ?r")
proof
  have "(d y, (if y = x then k + 12 else l) - 12) \<in> ?r" if "(y, l) \<in> S" for y l
    using that d [of y] by (cases "y = x") force+
  then show "?l \<subseteq> ?r" by (intro image_subsetI) (simp only: case_prod_beta prod.collapse)
  have "(a, k) \<in> ?l" using x d [of x] by (intro image_eqI [of _ _ "(x, m)"]) auto
  moreover have "(d y, l - 12) \<in> ?l" if "(y, l) \<in> S" "d y \<noteq> a" for y l
    using that d [of y] by (intro image_eqI [of _ _ "(y, l)"]) auto
  ultimately show "?r \<subseteq> ?l" by auto
qed

lemma out_other:
  assumes "heap_ok h" "(a, n) \<in> out h" shows "{b \<in> out h. fst b \<noteq> a} = out h - {(a, n)}"
proof -
  have "fst b = a \<longleftrightarrow> b = (a, n)" if "b \<in> out h" for b
    using out_disjoint(6) [OF assms, of "fst b" "snd b"] that by (cases b) (metis fst_conv snd_conv)
  then show ?thesis by blast
qed

lemma realloc_shrinks:
  assumes ok: "heap_ok h" and a: "(a, n) \<in> out h" and k: "0 < k" "4 dvd k" "k + 24 < n" and s': "unlock_heap hs s' = Some s"
  obtains h' where "realloc_locked hs a k (s', h) = Some (Got (Some a), s, h')" "heap_ok h'" "heap_bytes h' = heap_bytes h"
    "out h' = insert (a, k) (out h - {(a, n)})" "used_mem h' + (n - k) = used_mem h" "lfree h = heap_end h \<longrightarrow> lfree h' = heap_end h'"
    "mem_size_aligned h' = mem_size_aligned h"
proof -
  obtain os x where wf: "heap_wf h os" and st: "settled h os" and x: "(x, n + 12) \<in> set (held h os)" "a = data_at h x"
    and c: "sub32 (sub32 (hm_next (headers h x)) x) 12 = n" "\<not> (a < heap_ptr h \<or> a \<ge> heap_ptr h + heap_end h)"
      "heap_ptr h + 12 \<le> a" "a - heap_ptr h - 12 = x" using realloc_size [OF ok a] .
  have km: "k + 24 < n + 12 - 12" using k by simp
  obtain h' os' where r: "heap_shrink x k h = Some h'" "heap_wf h' os'" "settled h' os'"
    "held h' os' = map (\<lambda>(y, m). (y, if y = x then k + 12 else m)) (held h os)"
    "heap_ptr h' = heap_ptr h" "heap_end h' = heap_end h" "mem_size_aligned h' = mem_size_aligned h" "heap_bytes h' = heap_bytes h"
    "lfree h = heap_end h \<longrightarrow> lfree h' = heap_end h" "used_mem h' + (n + 12 - 12 - k) = used_mem h"
    using heap_shrink_ok [OF wf st x(1) k(1,2) km] .
  have "x + n < 2 ^ 32" using held_tiles [OF heap_wfD(1) [OF wf] x(1)] heap_wfD(4) [OF wf] by simp
  then have "add32 k 24 = k + 24" using k by simp
  then have "realloc_locked hs a k (s', h) = Some (Got (Some a), s, h')"
    using c k(3) r(1) s' by (simp add: realloc_locked_def Let_def)
  moreover have "out h' = insert (a, k) (out h - {(a, n)})"
  proof -
    have d: "data_at h' = data_at h" using r(5) by (simp add: data_at_def fun_eq_iff)
    have "out h' = (\<lambda>(y, m). (data_at h y, (if y = x then k + 12 else m) - 12)) ` set (held h os)"
      unfolding out_eq [OF r(2)] r(4) d set_map image_image by (rule image_cong) (auto simp: case_prod_beta)
    also have "\<dots> = insert (a, k) {b \<in> out h. fst b \<noteq> a}"
      unfolding out_eq [OF wf] by (rule image_resize [OF _ x(1)]) (auto simp: x(2) data_at_def)
    also have "{b \<in> out h. fst b \<noteq> a} = out h - {(a, n)}" by (rule out_other [OF ok a])
    finally show ?thesis .
  qed
  moreover have "heap_ok h'" using r(2,3) by (auto simp: heap_ok_def)
  ultimately show thesis using that [of h'] r(6-10) by simp
qed

lemma RT_ALIGN_aligned:
  assumes "k + 3 < 2 ^ 32" "4 dvd k" shows "unat (RT_ALIGN (of_nat k) 4) = k"
proof -
  have "unat (of_nat k + 3 :: u32) = k + 3" using assms(1) by (simp add: unat_word_ariths unat_of_nat)
  then show ?thesis using assms(2) by (auto simp: RT_ALIGN_unat)
qed

lemma realloc_moves:
  assumes u: "unlocked s hs" and ok: "heap_ok h" and a: "(a, n) \<in> out h" and k: "0 < k" "4 dvd k" "k \<le> mem_size_aligned h"
      "k \<noteq> n" "\<not> k + 24 < n" and s': "unlock_heap hs s' = Some s"
  obtains r h' where "realloc_locked hs a k (s', h) = Some (Got r, s, h')" "heap_ok h'"
    "case r of None \<Rightarrow> h' = h
     | Some p \<Rightarrow> \<exists>m. k \<le> m \<and> out h' = insert (p, m) (out h - {(a, n)}) \<and> heap_bytes h' = copied p a (min n k) (heap_bytes h) \<and>
         (\<forall>c l. (c, l) \<in> out h \<longrightarrow> p + m \<le> c \<or> c + l \<le> p)"
proof -
  obtain os x where wf: "heap_wf h os" and c: "sub32 (sub32 (hm_next (headers h x)) x) 12 = n"
      "\<not> (a < heap_ptr h \<or> a \<ge> heap_ptr h + heap_end h)" "heap_ptr h + 12 \<le> a" "a - heap_ptr h - 12 = x"
    using realloc_size [OF ok a] by metis
  have k32: "k + 24 < 2 ^ 32" using k(3) heap_wfD(2,4,10) [OF wf] by simp
  then have z: "add32 k 24 = k + 24" by simp
  have go: "realloc_locked hs a k (s', h) = (case heap_malloc (of_nat k) h of None \<Rightarrow> None
      | Some (p, g) \<Rightarrow> realloc_move hs a n k p (s, g))"
    using c z k(4,5) s' rt_malloc_unlocked [OF u, of "of_nat k" h]
    by (auto simp: realloc_locked_def Let_def split: option.splits)
  show thesis
  proof (cases "fits (of_nat k) h")
    case False
    then show thesis using that [of None h] go heap_malloc_none [OF ok False] ok by (simp add: realloc_move_def)
  next
    case True
    obtain p m g where g: "heap_malloc (of_nat k) h = Some (Some p, g)" "heap_ok g" "out g = insert (p, m) (out h)"
      "p \<notin> fst ` out h" "malloc_size (of_nat k) \<le> m" "heap_bytes g = heap_bytes h"
      using heap_malloc_ok [OF ok True] by metis
    have km: "k \<le> m"
    proof -
      have "unat (RT_ALIGN (of_nat k) 4) = k" using k32 k(2) by (intro RT_ALIGN_aligned) simp_all
      then show ?thesis using g(5) by (simp add: malloc_size_def Let_def split: if_splits)
    qed
    have ag: "(a, n) \<in> out g" "(p, m) \<in> out g" using a g(3) by auto
    have dis: "p + m \<le> c \<or> c + l \<le> p" if "(c, l) \<in> out h" for c l
    proof -
      have "(c, l) \<in> out g" "c \<noteq> p" using that g(3,4) by force+
      then show ?thesis using out_disjoint(5) [OF g(2) ag(2)] out_disjoint(5) [OF g(2) _ ag(2)] by (metis linorder_neqE_nat trans_le_add1 add_leE)
    qed
    let ?len = "if n < k then n else k" and ?b = "rt_memcpy p a (if n < k then n else k) (heap_bytes g)"
    have cp: "?b = copied p a (min n k) (heap_bytes h)"
    proof -
      have "forward_safe p a ?len" using dis [OF a] km by (auto simp: forward_safe_def)
      then show ?thesis using rt_memcpy_copied g(6) by (simp add: min_def)
    qed
    have ib: "in_block p ?len g" by (rule out_in_block [OF g(2) ag(2)]) (use km in auto)
    obtain h' where h': "heap_free a (g\<lparr>heap_bytes := ?b\<rparr>) = Some h'" "heap_ok h'"
      "out h' = {c \<in> out g. fst c \<noteq> a}" "heap_bytes h' = ?b"
      using heap_free_out [of "g\<lparr>heap_bytes := ?b\<rparr>" a n] g(2) ag(1) by auto
    have "rt_free hs a (s, g\<lparr>heap_bytes := ?b\<rparr>) = Some (Got None, s, h')"
      using rt_free_unlocked [OF u, of "g\<lparr>heap_bytes := ?b\<rparr>" a n] g(2) ag(1) h'(1) by simp
    then have "realloc_locked hs a k (s', h) = Some (Got (Some p), s, h')"
      using go g(1) ib by (simp add: realloc_move_def)
    moreover have "out h' = insert (p, m) (out h - {(a, n)})"
    proof -
      have "p \<noteq> a" using g(4) a by force
      then show ?thesis unfolding out_other [OF ok a, symmetric] using h'(3) g(3) by auto
    qed
    ultimately show thesis using that [of "Some p" h'] h'(2,4) cp km dis by auto
  qed
qed

section \<open>What the calls do\<close>

text \<open>
  (C14) The blocks of the heap never overlap: whatever a client that returns only what it holds asks of a heap
  that has just been initialised, in whatever order, every call returns, every block it holds is aligned, lies inside
  the heap and does not reach into another one, and the heap stays in order.
\<close>

theorem heap_never_overlaps:
  assumes "unat (RT_ALIGN b 4) + 36 \<le> unat (RT_ALIGN_DOWN e 4)" "used_mem h = 0"
  shows "\<exists>h' held. serve heap_malloc heap_free rs (heap_init b e h, []) = Some (h', held) \<and> heap_ok h' \<and>
    distinct held \<and> set held = fst ` out h' \<and>
    (\<forall>a n. (a, n) \<in> out h' \<longrightarrow> 4 dvd a \<and> 0 < n \<and> heap_ptr h' + 12 \<le> a \<and> a + n \<le> heap_ptr h' + heap_end h' \<and>
       (\<forall>c m. (c, m) \<in> out h' \<and> c \<noteq> a \<longrightarrow> a + n \<le> c \<or> c + m \<le> a))"
proof -
  obtain h' held where r: "serve heap_malloc heap_free rs (heap_init b e h, []) = Some (h', held)" "heap_ok h'"
    "distinct held" "set held = fst ` out h'"
    using small_mem.serve_ok [of "heap_init b e h" "[]" rs] heap_init_ok [OF assms] by auto
  have "4 dvd a \<and> 0 < n \<and> heap_ptr h' + 12 \<le> a \<and> a + n \<le> heap_ptr h' + heap_end h'" if "(a, n) \<in> out h'" for a n
    using out_disjoint [OF r(2) that that] by auto
  moreover have "a + n \<le> c \<or> c + m \<le> a" if "(a, n) \<in> out h'" "(c, m) \<in> out h'" "c \<noteq> a" for a n c m
    using out_disjoint(5) [OF r(2) that(1,2)] out_disjoint(5) [OF r(2) that(2,1)] that(3) by linarith
  ultimately show ?thesis using r by blast
qed

text \<open>The blocks that would do for a request: free, not below \<^verbatim>\<open>lfree\<close>, long enough, and not an exact fit at the end.\<close>

definition would_do :: "heap \<Rightarrow> nat list \<Rightarrow> u32 \<Rightarrow> nat set" where
  "would_do h os sz = {x \<in> set os. lfree h \<le> x \<and> is_free h x \<and> malloc_size sz + 12 \<le> extent h x \<and> x < mem_size_aligned h - malloc_size sz}"

lemma find_Min:
  "sorted_wrt (<) xs \<Longrightarrow> find P xs = (if {x \<in> set xs. P x} = {} then None else Some (Min {x \<in> set xs. P x}))"
  for xs :: "nat list"
proof (induction xs)
  case (Cons y ys)
  show ?case
  proof (cases "P y")
    case True
    then have "Min {x \<in> set (y # ys). P x} = y" using Cons.prems by (intro Min_eqI) (auto simp: less_imp_le)
    moreover have "{x \<in> set (y # ys). P x} \<noteq> {}" using True by auto
    ultimately show ?thesis using True by (simp only: find.simps if_True if_False)
  next
    case False
    then have "{x \<in> set (y # ys). P x} = {x \<in> set ys. P x}" by auto
    then show ?thesis using Cons False by simp
  qed
qed simp

lemma first_fit_Min:
  assumes "heap_wf h os"
  shows "first_fit h os (malloc_size sz) = (if would_do h os sz = {} then None else Some (Min (would_do h os sz)))"
proof -
  have "{x \<in> set os. lfree h \<le> x \<and> candidate h (malloc_size sz) x} = would_do h os sz"
    by (auto simp: would_do_def candidate_def)
  then show ?thesis
    unfolding first_fit_def using find_Min [OF tiles_sorted [OF heap_wfD(1) [OF assms]], of "\<lambda>x. lfree h \<le> x \<and> candidate h (malloc_size sz) x"]
    by (simp only:)
qed

lemma align_covers: "sz \<le> 0xfffffffc \<Longrightarrow> unat sz \<le> unat (RT_ALIGN sz 4)"
proof -
  assume "sz \<le> 0xfffffffc"
  then have "unat sz \<le> unat (0xfffffffc :: u32)" by (simp only: word_le_nat_alt)
  then have "unat (sz + 3) = unat sz + 3" by (simp add: unat_word_ariths)
  then show ?thesis by (simp add: RT_ALIGN_unat)
qed

text \<open>
  (C15) \<^verbatim>\<open>rt_malloc\<close> with the heap unlocked, on every branch. The size is rounded up to a multiple of four and to
  at least twelve. Nothing is handed out, and nothing changes, when the size is 0, when the rounded size is more than the
  heap, and when no block would do (\<open>would_do\<close>): one that is free, stands at \<^verbatim>\<open>lfree\<close> or above, has room, and
  does not end with the rounded size exactly at the end of the heap, an exact fit there being refused by the loop's bound.
  Otherwise the lowest such block is handed out; it has room for the rounded size, it touches no block that
  is out, and the contents of the heap stay. The room is at least the size asked for, for all sizes but the last
  three, which are rounded to 0 (\<^verbatim>\<open>malloc_size_wraps\<close>). Free blocks below \<^verbatim>\<open>lfree\<close> are not looked at; there
  are none in a heap on which \<^verbatim>\<open>rt_realloc\<close> was not called (see \<^verbatim>\<open>realloc_hides_space\<close>).
\<close>

theorem malloc_branches:
  assumes u: "unlocked s hs" and ok: "heap_ok h" and wf: "heap_wf h os"
  shows "if sz = 0 \<or> mem_size_aligned h < unat (RT_ALIGN sz 4) \<or> would_do h os sz = {}
    then rt_malloc hs sz (s, h) = Some (Got None, s, h)
    else \<exists>h' n. rt_malloc hs sz (s, h) = Some (Got (Some (data_at h (Min (would_do h os sz)))), s, h') \<and>
      heap_ok h' \<and> heap_bytes h' = heap_bytes h \<and> out h' = insert (data_at h (Min (would_do h os sz)), n) (out h) \<and>
      malloc_size sz \<le> n \<and> (sz \<le> 0xfffffffc \<longrightarrow> unat sz \<le> n) \<and>
      (\<forall>c m. (c, m) \<in> out h \<longrightarrow> data_at h (Min (would_do h os sz)) + n \<le> c \<or> c + m \<le> data_at h (Min (would_do h os sz)))"
proof (cases "sz = 0 \<or> mem_size_aligned h < unat (RT_ALIGN sz 4) \<or> would_do h os sz = {}")
  case True
  then have "\<not> fits sz h"
    using first_fit_Min [OF wf, of sz] heap_wf_unique [OF wf] by (auto simp: fits_def malloc_refused_def)
  then have "heap_malloc sz h = Some (None, h)" by (rule heap_malloc_none [OF ok])
  then show ?thesis using True rt_malloc_unlocked [OF u, of sz h] by simp
next
  case False
  let ?x = "Min (would_do h os sz)"
  have nr: "\<not> malloc_refused sz h" and ff: "first_fit h os (malloc_size sz) = Some ?x"
    using False first_fit_Min [OF wf, of sz] by (auto simp: malloc_refused_def)
  have "settled h os" using ok heap_wf_unique [OF wf] by (auto simp: heap_ok_def)
  from heap_alloc_ok [OF wf this malloc_size_ok(1-3) [OF wf nr] ff]
  have at: "\<exists>h'. heap_malloc sz h = Some (Some (data_at h ?x), h')" using nr by (metis heap_malloc_def)
  have "fits sz h" using nr ff wf by (auto simp: fits_def)
  then obtain a n h' where r: "heap_malloc sz h = Some (Some a, h')" "heap_ok h'" "out h' = insert (a, n) (out h)"
    "a \<notin> fst ` out h" "malloc_size sz \<le> n" "heap_bytes h' = heap_bytes h"
    using heap_malloc_ok [OF ok] by metis
  have a: "a = data_at h ?x" using at r(1) by simp
  have "a + n \<le> c \<or> c + m \<le> a" if "(c, m) \<in> out h" for c m
  proof -
    have "(a, n) \<in> out h'" "(c, m) \<in> out h'" "c \<noteq> a" using that r(3,4) by force+
    then show ?thesis using out_disjoint(5) [OF r(2), of a n c m] out_disjoint(5) [OF r(2), of c m a n] by linarith
  qed
  moreover have "unat sz \<le> n" if "sz \<le> 0xfffffffc"
    using align_covers [OF that] r(5) by (auto simp: malloc_size_def Let_def split: if_splits)
  ultimately show ?thesis
    unfolding if_not_P [OF False] using r rt_malloc_unlocked [OF u, of sz h] unfolding a
    by (intro exI [of _ h'] exI [of _ n]) auto
qed

text \<open>
  (C16) Resizing a block that is out, to a size that is not zero, with the heap unlocked: either nothing happens and
  nothing is returned, or the result is a block with room for the new size, in the place of the old
  one, that starts with the bytes of the old block as far as both reach; the bytes of every other block
  stay as they were.
\<close>

theorem realloc_keeps_contents:
  assumes u: "unlocked s hs" and ok: "heap_ok h" and a: "(a, n) \<in> out h" and k: "0 < unat (RT_ALIGN newsize 4)"
  shows "\<exists>r h'. rt_realloc hs a newsize (s, h) = Some (Got r, s, h') \<and> heap_ok h' \<and>
    (case r of None \<Rightarrow> h' = h
     | Some p \<Rightarrow> \<exists>m. unat (RT_ALIGN newsize 4) \<le> m \<and> out h' = insert (p, m) (out h - {(a, n)}) \<and>
         (\<forall>i < min n (unat (RT_ALIGN newsize 4)). heap_bytes h' (p + i) = heap_bytes h (a + i)) \<and>
         (\<forall>c l i. (c, l) \<in> out h \<and> c \<noteq> a \<and> i < l \<longrightarrow> heap_bytes h' (c + i) = heap_bytes h (c + i)))"
proof -
  let ?k = "unat (RT_ALIGN newsize 4)"
  obtain s' where l: "lock_heap hs s = Some (True, s')" "unlock_heap hs s' = Some s" using lock_unlock [OF u] by metis
  have irq: "rt_interrupt_nest s = 0" "RT_ALIGN newsize 4 \<noteq> 0" "a \<noteq> 0" using u k out_disjoint [OF ok a a] by (auto simp: unlocked_def)
  have al: "4 dvd ?k" by (rule RT_ALIGN_dvd)
  have go: "rt_realloc hs a newsize (s, h) = realloc_locked hs a ?k (s', h)" if "?k \<le> mem_size_aligned h"
    using that irq l(1) by (simp add: rt_realloc_def not_in_interrupt_def Let_def)
  consider "?k > mem_size_aligned h" | "?k \<le> mem_size_aligned h" "?k = n" | "?k \<le> mem_size_aligned h" "?k + 24 < n"
    | "?k \<le> mem_size_aligned h" "?k \<noteq> n" "\<not> ?k + 24 < n" by linarith
  then show ?thesis
  proof cases
    case 1
    then show ?thesis using irq ok by (auto simp: rt_realloc_def not_in_interrupt_def Let_def)
  next
    case 2
    obtain x where "sub32 (sub32 (hm_next (headers h x)) x) 12 = n" "\<not> (a < heap_ptr h \<or> a \<ge> heap_ptr h + heap_end h)"
      "heap_ptr h + 12 \<le> a" "a - heap_ptr h - 12 = x" using realloc_size [OF ok a] by metis
    then have "realloc_locked hs a ?k (s', h) = Some (Got (Some a), s, h)" using 2 l(2) by (simp add: realloc_locked_def Let_def)
    then show ?thesis using go 2 ok a by (auto simp: insert_absorb)
  next
    case 3
    obtain h' where "realloc_locked hs a ?k (s', h) = Some (Got (Some a), s, h')" "heap_ok h'" "heap_bytes h' = heap_bytes h"
      "out h' = insert (a, ?k) (out h - {(a, n)})" using realloc_shrinks [OF ok a k al 3(2) l(2)] by metis
    then show ?thesis using go 3 by (intro exI [of _ "Some a"] exI [of _ h']) auto
  next
    case 4
    obtain r h' where r: "realloc_locked hs a ?k (s', h) = Some (Got r, s, h')" "heap_ok h'"
      "case r of None \<Rightarrow> h' = h
       | Some p \<Rightarrow> \<exists>m. ?k \<le> m \<and> out h' = insert (p, m) (out h - {(a, n)}) \<and> heap_bytes h' = copied p a (min n ?k) (heap_bytes h) \<and>
           (\<forall>c l. (c, l) \<in> out h \<longrightarrow> p + m \<le> c \<or> c + l \<le> p)"
      using realloc_moves [OF u ok a k al 4 l(2)] .
    show ?thesis
    proof (cases r)
      case None
      then show ?thesis using r go 4 by auto
    next
      case (Some p)
      then obtain m where m: "?k \<le> m" "out h' = insert (p, m) (out h - {(a, n)})"
        "heap_bytes h' = copied p a (min n ?k) (heap_bytes h)" "\<And>c l. (c, l) \<in> out h \<Longrightarrow> p + m \<le> c \<or> c + l \<le> p"
        using r(3) by auto
      have "heap_bytes h' (c + i) = heap_bytes h (c + i)" if "(c, l) \<in> out h" "i < l" for c l i
        using m(4) [OF that(1)] that(2) m(1) by (auto simp: m(3) copied_def)
      moreover have "heap_bytes h' (p + i) = heap_bytes h (a + i)" if "i < min n ?k" for i
        using that by (simp add: m(3) copied_def)
      ultimately show ?thesis using r(1,2) go 4(1) Some m(1,2) by (intro exI [of _ "Some p"] exI [of _ h']) auto
    qed
  qed
qed

text \<open>
  Shrinking a block does not always make its end usable again. When the heap is full, that is, the pointer
  to the lowest free block stands at the end, \<^verbatim>\<open>rt_realloc\<close> to a smaller size succeeds and counts the bytes
  as free, but leaves that pointer alone: every \<^verbatim>\<open>rt_malloc\<close> that follows fails, whatever its size.
\<close>

theorem realloc_hides_space:
  assumes u: "unlocked s hs" and ok: "heap_ok h" and a: "(a, n) \<in> out h" and full: "lfree h = heap_end h"
    and k: "0 < unat (RT_ALIGN newsize 4)" "unat (RT_ALIGN newsize 4) + 24 < n"
  shows "\<exists>h'. rt_realloc hs a newsize (s, h) = Some (Got (Some a), s, h') \<and>
    used_mem h' + (n - unat (RT_ALIGN newsize 4)) = used_mem h \<and>
    (\<forall>sz. rt_malloc hs sz (s, h') = Some (Got None, s, h'))"
proof -
  let ?k = "unat (RT_ALIGN newsize 4)"
  obtain s' where l: "lock_heap hs s = Some (True, s')" "unlock_heap hs s' = Some s" using lock_unlock [OF u] by metis
  have irq: "rt_interrupt_nest s = 0" "RT_ALIGN newsize 4 \<noteq> 0" "a \<noteq> 0" using u k out_disjoint [OF ok a a] by (auto simp: unlocked_def)
  obtain os where wf: "heap_wf h os" using ok by (auto simp: heap_ok_def)
  have "?k \<le> mem_size_aligned h" using out_disjoint [OF ok a a] k heap_wfD(2) [OF wf] by simp
  moreover obtain h' where h': "realloc_locked hs a ?k (s', h) = Some (Got (Some a), s, h')" "heap_ok h'"
    "used_mem h' + (n - ?k) = used_mem h" "lfree h = heap_end h \<longrightarrow> lfree h' = heap_end h'"
    using realloc_shrinks [OF ok a k(1) RT_ALIGN_dvd(1) k(2) l(2)] by metis
  ultimately have "rt_realloc hs a newsize (s, h) = Some (Got (Some a), s, h')"
    using irq l(1) by (simp add: rt_realloc_def not_in_interrupt_def Let_def)
  moreover have "\<not> fits sz h'" for sz
  proof
    assume "fits sz h'"
    then obtain os x where o: "heap_wf h' os" "first_fit h' os (malloc_size sz) = Some x" by (auto simp: fits_def)
    then have "x \<in> set os" "lfree h' \<le> x" using find_SomeD unfolding first_fit_def by fastforce+
    then show False using heap_wf_small [OF o(1), of x] h'(4) full by simp
  qed
  then have "rt_malloc hs sz (s, h') = Some (Got None, s, h')" for sz
    using heap_malloc_none [OF h'(2)] rt_malloc_unlocked [OF u] by simp
  ultimately show ?thesis using h'(3) by blast
qed

text \<open>
  A size within three bytes of the end of the 32-bit range wraps to zero when it is aligned, passes
  the test against the size of the heap and is then served like a request for twelve bytes.
\<close>

theorem malloc_size_wraps:
  assumes "heap_ok h" "sz > 0xfffffffc"
  shows "rt_malloc hs sz (s, h) = rt_malloc hs 12 (s, h)"
proof -
  have "unat sz > unat (0xfffffffc :: u32)" using assms(2) by (simp only: word_less_nat_alt)
  then have "unat sz \<ge> 0xfffffffd" by simp
  then have "unat (sz + 3) < 3"
    using unsigned_less [of sz, where 'a = nat] by (simp add: unat_word_ariths mod_if) linarith
  then have z: "unat (RT_ALIGN sz 4) = 0" by (simp add: RT_ALIGN_unat)
  have t: "unat (RT_ALIGN 12 4) = 12" by (simp add: RT_ALIGN_unat)
  obtain os where wf: "heap_wf h os" using assms(1) by (auto simp: heap_ok_def)
  have m: "malloc_refused sz h = False" "malloc_refused 12 h = False" "malloc_size sz = 12" "malloc_size 12 = 12"
    using z t heap_wfD(3) [OF wf] assms(2) by (auto simp: malloc_refused_def malloc_size_def Let_def)
  show ?thesis by (simp only: rt_malloc_def Let_def prod.case m if_False)
qed

subsection \<open>On a sample heap\<close>

text \<open>A heap of one used block of 100 bytes; an unlocked heap semaphore.\<close>

definition demo_heap :: heap where
  "demo_heap = \<lparr>heap_ptr = 0x20000000, heap_end = 112, lfree = 112, mem_size_aligned = 100, used_mem = 112, max_mem = 112,
     headers = (\<lambda>x. \<lparr>hm_magic = HEAP_MAGIC, hm_used = 1, hm_next = 112, hm_prev = (if x = 0 then 0 else 112)\<rparr>), heap_bytes = (\<lambda>_. 0)\<rparr>"

definition demo_unlocked :: kernel where
  "demo_unlocked = demo\<lparr>sems := [0 \<mapsto> \<lparr>sem_value = 1\<rparr>], tlists := (tlists demo)(SuspendQ (OSem 0) := [])\<rparr>"

lemma demo_heap_ok: "heap_ok demo_heap" "(0x2000000c, 100) \<in> out demo_heap" "lfree demo_heap = heap_end demo_heap"
proof -
  have wf: "heap_wf demo_heap [0]" by (simp add: heap_wf_def demo_heap_def is_free_def extent_def)
  moreover have "settled demo_heap [0]" by (simp add: settled_def demo_heap_def)
  ultimately show "heap_ok demo_heap" by (auto simp: heap_ok_def)
  show "(0x2000000c, 100) \<in> out demo_heap"
    unfolding out_eq [OF wf] by (simp add: demo_heap_def is_free_def extent_def data_at_def)
  show "lfree demo_heap = heap_end demo_heap" by (simp add: demo_heap_def)
qed

lemma demo_unlocked_ok: "unlocked demo_unlocked 0"
  by (simp add: unlocked_def sem_ok_def sem_abs_def demo_unlocked_def)

theorem heap_never_overlaps_witness:
  "\<exists>h' held. serve heap_malloc heap_free [Take 16, Take 40, Give 0x2000000c, Take 8] (heap_init 0x20000000 0x20001000 (demo_heap\<lparr>used_mem := 0\<rparr>), [])
     = Some (h', held) \<and> heap_ok h' \<and> distinct held"
proof -
  have "unat (RT_ALIGN 0x20000000 4) + 36 \<le> unat (RT_ALIGN_DOWN 0x20001000 4)" by (simp add: RT_ALIGN_unat)
  moreover have "used_mem (demo_heap\<lparr>used_mem := 0\<rparr>) = 0" by simp
  ultimately show ?thesis by (blast dest: heap_never_overlaps)
qed

text \<open>The sample heap after its one block was freed.\<close>

definition demo_heap_free :: heap where
  "demo_heap_free = demo_heap\<lparr>headers := (headers demo_heap)(0 := (headers demo_heap 0)\<lparr>hm_used := 0\<rparr>), lfree := 0, used_mem := 0\<rparr>"

lemma demo_heap_free_ok: "heap_ok demo_heap_free" "heap_wf demo_heap_free [0]" "would_do demo_heap_free [0] 40 = {0}"
  "heap_wf demo_heap [0]" "would_do demo_heap [0] 40 = {}"
proof -
  show wf: "heap_wf demo_heap_free [0]" "heap_wf demo_heap [0]"
    by (simp_all add: heap_wf_def demo_heap_free_def demo_heap_def is_free_def extent_def)
  moreover have "settled demo_heap_free [0]" by (simp add: settled_def demo_heap_free_def demo_heap_def is_free_def)
  ultimately show "heap_ok demo_heap_free" by (auto simp: heap_ok_def)
  show "would_do demo_heap_free [0] 40 = {0}" "would_do demo_heap [0] 40 = {}"
    by (auto simp: would_do_def demo_heap_free_def demo_heap_def is_free_def extent_def malloc_size_def RT_ALIGN_unat)
qed

theorem malloc_branches_witness:
  "(\<exists>h'. rt_malloc 0 40 (demo_unlocked, demo_heap_free) = Some (Got (Some 0x2000000c), demo_unlocked, h') \<and> heap_ok h') \<and>
   rt_malloc 0 40 (demo_unlocked, demo_heap) = Some (Got None, demo_unlocked, demo_heap)"
proof -
  have "\<not> mem_size_aligned demo_heap_free < unat (RT_ALIGN 40 4)" "data_at demo_heap_free 0 = 0x2000000c"
    by (simp_all add: demo_heap_free_def demo_heap_def data_at_def RT_ALIGN_unat)
  then show ?thesis
    using malloc_branches [OF demo_unlocked_ok demo_heap_free_ok(1,2), of 40]
      malloc_branches [OF demo_unlocked_ok demo_heap_ok(1) demo_heap_free_ok(4), of 40] demo_heap_free_ok(3,5) by auto
qed

theorem realloc_keeps_contents_witness:
  "\<exists>r h'. rt_realloc 0 0x2000000c 40 (demo_unlocked, demo_heap) = Some (Got r, demo_unlocked, h') \<and> heap_ok h'"
  using realloc_keeps_contents [OF demo_unlocked_ok demo_heap_ok(1,2), of 40] by (auto simp: RT_ALIGN_unat)

theorem realloc_hides_space_witness:
  "\<exists>h'. rt_realloc 0 0x2000000c 40 (demo_unlocked, demo_heap) = Some (Got (Some 0x2000000c), demo_unlocked, h') \<and>
     used_mem h' + 60 = 112 \<and> rt_malloc 0 4 (demo_unlocked, h') = Some (Got None, demo_unlocked, h')"
  using realloc_hides_space [OF demo_unlocked_ok demo_heap_ok, of 40] by (auto simp: RT_ALIGN_unat demo_heap_def)

theorem malloc_size_wraps_witness:
  "rt_malloc 0 0xffffffff (demo_unlocked, demo_heap) = rt_malloc 0 12 (demo_unlocked, demo_heap)"
  by (rule malloc_size_wraps [OF demo_heap_ok(1)]) simp

end
