(* ===== verification/Signals.thy ===== *)
theory Signals
  imports MemCalls
begin

text \<open>
  Signals (\<^verbatim>\<open>src/signal.c\<close>). The fields that \<^verbatim>\<open>RT_USING_SIGNALS\<close> adds to
  \<^verbatim>\<open>struct rt_thread\<close>, the nodes of the pending signals and their pool are kept beside the
  kernel state. A node is named by its block in the pool.

  The list of a thread is entered through \<^verbatim>\<open>si_list\<close>, an untyped pointer: \<open>Si_node i\<close>
  points to the start of a node, \<open>Si_inner i\<close> to the member \<^verbatim>\<open>list\<close> inside it, eight bytes further,
  which is what the links between nodes hold. A \<^verbatim>\<open>struct siginfo_node *\<close> that does not point to
  the start of a node, or an \<^verbatim>\<open>rt_slist_node *\<close> that does not point to its \<^verbatim>\<open>list\<close>, reads
  outside the node; the model then gives \<open>None\<close>.

  \<open>run\<close> stands for the handlers the application installs.
\<close>

section \<open>The code\<close>

datatype si_ptr = Si_null | Si_node nat | Si_inner nat

record siginfo =
  si_signo :: u16
  si_code :: u16
  si_value :: u32

record siginfo_node =
  node_si :: siginfo
  node_next :: "nat option"

datatype sighandler = Default_handler | User_handler nat

text \<open>\<open>sig_vectors\<close>: the address of the table and its entries; an entry that is \<open>None\<close> is null.\<close>

record thread_sig =
  sig_pending :: u32
  sig_mask :: u32
  sig_ret :: u32
  sig_vectors :: "(nat \<times> sighandler option list) option"
  si_list :: si_ptr

record sigs =
  thread_sigs :: "tid \<Rightarrow> thread_sig"
  siginfo_nodes :: "nat \<Rightarrow> siginfo_node option"
  siginfo_pool :: nat

type_synonym with_sigs = "kernel \<times> sigs"

type_synonym handlers = "nat \<Rightarrow> u16 \<Rightarrow> with_sigs \<Rightarrow> with_sigs option"

abbreviation (input) RT_SIG_MAX :: nat where "RT_SIG_MAX \<equiv> 32"
abbreviation (input) RT_SIG_INFO_MAX :: u32 where "RT_SIG_INFO_MAX \<equiv> 32"
abbreviation (input) SI_USER :: u16 where "SI_USER \<equiv> 1"
abbreviation (input) RT_THREAD_STAT_SIGNAL :: u8 where "RT_THREAD_STAT_SIGNAL \<equiv> 0x10"
abbreviation (input) RT_THREAD_STAT_SIGNAL_WAIT :: u8 where "RT_THREAD_STAT_SIGNAL_WAIT \<equiv> 0x20"

text \<open>The signal fields after \<^verbatim>\<open>_rt_thread_init\<close>.\<close>

definition fresh_sig :: thread_sig where
  "fresh_sig = \<lparr>sig_pending = 0, sig_mask = 0, sig_ret = 0, sig_vectors = None, si_list = Si_null\<rparr>"

definition upd_sig :: "tid \<Rightarrow> (thread_sig \<Rightarrow> thread_sig) \<Rightarrow> sigs \<Rightarrow> sigs" where
  "upd_sig t f g = g\<lparr>thread_sigs := (thread_sigs g)(t := f (thread_sigs g t))\<rparr>"

definition sig_valid :: "int \<Rightarrow> bool" where
  "sig_valid sig_no \<longleftrightarrow> sig_no \<ge> 0 \<and> sig_no < int RT_SIG_MAX"

text \<open>\<^verbatim>\<open>sig_mask(sig_no)\<close>; a shift by 32 or more, or by a negative number, is undefined.\<close>

definition sig_bit :: "int \<Rightarrow> u32 option" where
  "sig_bit sig_no = do { rt_assert (sig_valid sig_no); Some (2 ^ nat sig_no) }"

definition upd_stat :: "tid \<Rightarrow> (u8 \<Rightarrow> u8) \<Rightarrow> kernel \<Rightarrow> kernel" where
  "upd_stat t f = upd_thread t (\<lambda>th. th\<lparr>stat := f (stat th)\<rparr>)"

definition run_handler :: "handlers \<Rightarrow> sighandler option \<Rightarrow> u16 \<Rightarrow> with_sigs \<Rightarrow> with_sigs option" where
  "run_handler run h signo c =
     (case h of Some (User_handler k) \<Rightarrow> run k signo c | _ \<Rightarrow> Some c)"

partial_function (option) handle_sig_loop :: "handlers \<Rightarrow> tid \<Rightarrow> with_sigs \<Rightarrow> with_sigs option" where
  "handle_sig_loop run t c =
     (let g = thread_sigs (snd c) t in
      if sig_pending g AND sig_mask g = 0 then Some c
      else case si_list g of
             Si_null \<Rightarrow> Some c
           | Si_inner _ \<Rightarrow> None
           | Si_node i \<Rightarrow>
               do { nd \<leftarrow> siginfo_nodes (snd c) i;
                    let rest = (case node_next nd of None \<Rightarrow> Si_null | Some j \<Rightarrow> Si_node j);
                    let signo = si_signo (node_si nd);
                    (_, vec) \<leftarrow> sig_vectors g;
                    rt_assert (unat signo < length vec);
                    (s, g) \<leftarrow> run_handler run (vec ! unat signo) signo
                                (fst c, upd_sig t (\<lambda>g. g\<lparr>si_list := rest\<rparr>) (snd c));
                    b \<leftarrow> sig_bit (int (unat signo));
                    let g = upd_sig t (\<lambda>g. g\<lparr>sig_pending := sig_pending g AND NOT b\<rparr>) g;
                    s \<leftarrow> rt_mp_free (siginfo_pool g) i s;
                    let s = upd_thread t (\<lambda>th. th\<lparr>thread_error := - RT_EINTR\<rparr>) s;
                    handle_sig_loop run t (s, g) })"

definition rt_thread_handle_sig :: "handlers \<Rightarrow> bool \<Rightarrow> with_sigs \<Rightarrow> with_sigs option" where
  "rt_thread_handle_sig run clean_state c =
     do { t \<leftarrow> rt_thread_self (fst c);
          th \<leftarrow> threads (fst c) t;
          let g = thread_sigs (snd c) t;
          if sig_pending g AND sig_mask g \<noteq> 0 \<and> stat th AND RT_THREAD_STAT_SIGNAL_WAIT = 0
          then do { (s, g) \<leftarrow> handle_sig_loop run t c;
                    Some (if clean_state then upd_stat t (\<lambda>x. x AND NOT RT_THREAD_STAT_SIGNAL) s else s, g) }
          else Some c }"

text \<open>The signal context of a thread: up to the switch back to the stack the thread had.\<close>

definition signal_entry :: "handlers \<Rightarrow> with_sigs \<Rightarrow> with_sigs option" where
  "signal_entry run c =
     do { t \<leftarrow> rt_thread_self (fst c);
          (s, g) \<leftarrow> rt_thread_handle_sig run False c;
          let s = upd_thread t (\<lambda>th. th\<lparr>sp := sig_ret (thread_sigs g t)\<rparr>) s;
          let g = upd_sig t (\<lambda>x. x\<lparr>sig_ret := 0\<rparr>) g;
          Some (upd_stat t (\<lambda>x. x AND NOT RT_THREAD_STAT_SIGNAL) s, g) }"

text \<open>The address of the entry function is only stored in the new stack frame.\<close>

definition signal_deliver :: "handlers \<Rightarrow> tid \<Rightarrow> with_sigs \<Rightarrow> with_sigs option" where
  "signal_deliver run t c =
     (let (s, g) = c in
      if sig_pending (thread_sigs g t) AND sig_mask (thread_sigs g t) = 0 then Some (s, g)
      else do { th \<leftarrow> threads s t;
                if stat th AND RT_THREAD_STAT_MASK = RT_THREAD_SUSPEND
                then do { (_, s) \<leftarrow> rt_thread_resume t s;
                          s \<leftarrow> rt_schedule (upd_stat t (\<lambda>x. x OR RT_THREAD_STAT_SIGNAL) s);
                          Some (s, g) }
                else if Some t = rt_thread_self s
                then rt_thread_handle_sig run True (upd_stat t (\<lambda>x. x OR RT_THREAD_STAT_SIGNAL) s, g)
                else if (stat th AND RT_THREAD_STAT_MASK) AND RT_THREAD_STAT_SIGNAL = 0
                then do { let s = upd_stat t (\<lambda>x. x OR RT_THREAD_STAT_SIGNAL) s;
                          let g = upd_sig t (\<lambda>x. x\<lparr>sig_ret := sp th\<rparr>) g;
                          let (sp', _) = rt_hw_stack_init 0 0 (sp th - 32) 0;
                          s \<leftarrow> rt_schedule (upd_thread t (\<lambda>th. th\<lparr>sp := sp'\<rparr>) s);
                          Some (s, g) }
                else Some (s, g) })"

text \<open>\<open>mem\<close>: what \<^verbatim>\<open>RT_KERNEL_MALLOC\<close> gives for the table of handlers.\<close>

definition rt_thread_alloc_sig :: "nat option \<Rightarrow> tid \<Rightarrow> sigs \<Rightarrow> sigs option" where
  "rt_thread_alloc_sig mem t g =
     do { a \<leftarrow> mem;
          Some (upd_sig t (\<lambda>x. x\<lparr>sig_vectors := Some (a, replicate RT_SIG_MAX (Some Default_handler))\<rparr>) g) }"

datatype sig_action = SIG_IGN | SIG_DFL | SIG_handler nat

datatype install_result = SIG_ERR | Old_handler "sighandler option"

definition rt_signal_install :: "nat option \<Rightarrow> int \<Rightarrow> sig_action \<Rightarrow> with_sigs \<Rightarrow> (install_result \<times> with_sigs) option" where
  "rt_signal_install mem signo handler c =
     (let (s, g) = c in
      if \<not> sig_valid signo then Some (SIG_ERR, s, g)
      else do { t \<leftarrow> rt_thread_self s;
                let s = rt_enter_critical s;
                g \<leftarrow> (if sig_vectors (thread_sigs g t) = None then rt_thread_alloc_sig mem t g else Some g);
                (a, vec) \<leftarrow> sig_vectors (thread_sigs g t);
                let new = (case handler of SIG_IGN \<Rightarrow> None | SIG_DFL \<Rightarrow> Some Default_handler
                           | SIG_handler k \<Rightarrow> Some (User_handler k));
                let g = upd_sig t (\<lambda>x. x\<lparr>sig_vectors := Some (a, vec[nat signo := new])\<rparr>) g;
                s \<leftarrow> rt_exit_critical s;
                Some (Old_handler (vec ! nat signo), s, g) })"

definition rt_signal_mask :: "int \<Rightarrow> with_sigs \<Rightarrow> with_sigs option" where
  "rt_signal_mask signo c =
     do { t \<leftarrow> rt_thread_self (fst c);
          b \<leftarrow> sig_bit signo;
          Some (fst c, upd_sig t (\<lambda>x. x\<lparr>sig_mask := sig_mask x AND NOT b\<rparr>) (snd c)) }"

definition rt_signal_unmask :: "handlers \<Rightarrow> int \<Rightarrow> with_sigs \<Rightarrow> with_sigs option" where
  "rt_signal_unmask run signo c =
     do { t \<leftarrow> rt_thread_self (fst c);
          b \<leftarrow> sig_bit signo;
          let g = upd_sig t (\<lambda>x. x\<lparr>sig_mask := sig_mask x OR b\<rparr>) (snd c);
          if sig_mask (thread_sigs g t) AND sig_pending (thread_sigs g t) \<noteq> 0
          then signal_deliver run t (fst c, g) else Some (fst c, g) }"

text \<open>
  The search of \<^verbatim>\<open>rt_signal_wait\<close>: the first node whose signal is in the set, and the node
  before it. Behind the last node \<^verbatim>\<open>rt_slist_entry\<close> turns the null link into a pointer that is not
  null.
\<close>

partial_function (option) si_search ::
    "(nat \<Rightarrow> siginfo_node option) \<Rightarrow> u32 \<Rightarrow> nat option \<Rightarrow> nat \<Rightarrow> (nat option \<times> nat \<times> siginfo_node) option" where
  "si_search nodes sigset prev i =
     do { nd \<leftarrow> nodes i;
          b \<leftarrow> sig_bit (int (unat (si_signo (node_si nd))));
          if b AND sigset \<noteq> 0 then Some (prev, i, nd)
          else case node_next nd of None \<Rightarrow> None | Some j \<Rightarrow> si_search nodes sigset (Some i) j }"

definition no_siginfo :: siginfo where
  "no_siginfo = \<lparr>si_signo = 0, si_code = 0, si_value = 0\<rparr>"

definition signal_wait_done :: "u32 \<Rightarrow> tid \<Rightarrow> with_sigs \<Rightarrow> ((rt_err \<times> siginfo) \<times> with_sigs) option" where
  "signal_wait_done sigset t c =
     (let (s, g) = c in
      case si_list (thread_sigs g t) of
        Si_null \<Rightarrow> Some ((RT_EOK, no_siginfo), s, g)
      | Si_inner _ \<Rightarrow> None
      | Si_node h \<Rightarrow>
          do { (prev, i, nd) \<leftarrow> si_search (siginfo_nodes g) sigset None h;
               b \<leftarrow> sig_bit (int (unat (si_signo (node_si nd))));
               let g = (case prev of
                          Some j \<Rightarrow> g\<lparr>siginfo_nodes := (siginfo_nodes g)(j :=
                              map_option (\<lambda>x. x\<lparr>node_next := node_next nd\<rparr>) (siginfo_nodes g j))\<rparr>
                        | None \<Rightarrow> upd_sig t (\<lambda>x. x\<lparr>si_list := (case node_next nd of None \<Rightarrow> Si_null
                                                               | Some j \<Rightarrow> Si_inner j)\<rparr>) g);
               let g = upd_sig t (\<lambda>x. x\<lparr>sig_pending := sig_pending x AND NOT b\<rparr>) g;
               s \<leftarrow> rt_mp_free (siginfo_pool g) i s;
               Some ((RT_EOK, node_si nd), s, g) })"

text \<open>The second result is what is written to \<^verbatim>\<open>*si\<close>, if anything; \<open>has_si\<close>: the pointer is not null.\<close>

definition rt_signal_wait ::
    "u32 option \<Rightarrow> bool \<Rightarrow> u32 \<Rightarrow> with_sigs \<Rightarrow> ((rt_err \<times> siginfo option) outcome \<times> with_sigs) option" where
  "rt_signal_wait sigset has_si timeout c =
     (let (s, g) = c in
      do { in_thread_context s;
           t \<leftarrow> rt_thread_self s;
           if sigset = None \<or> sigset = Some 0 \<or> \<not> has_si then Some (Return (- RT_EINVAL, None), s, g)
           else do { w \<leftarrow> sigset;
                if sig_pending (thread_sigs g t) AND w \<noteq> 0
                then do { ((r, si), c) \<leftarrow> signal_wait_done w t (s, g); Some (Return (r, Some si), c) }
                else if timeout = 0 then Some (Return (- RT_ETIMEOUT, Some no_siginfo), s, g)
                else do { (_, s) \<leftarrow> rt_thread_suspend t s;
                          let s = upd_stat t (\<lambda>x. x OR RT_THREAD_STAT_SIGNAL_WAIT) s;
                          s \<leftarrow> (if timeout \<noteq> RT_WAITING_FOREVER then start_thread_timer t timeout s else Some s);
                          s \<leftarrow> rt_schedule s;
                          Some (Pending, s, g) } } })"

text \<open>The end of \<^verbatim>\<open>rt_schedule\<close> handles signals before the call goes on.\<close>

definition rt_signal_wait_resumed :: "handlers \<Rightarrow> u32 \<Rightarrow> tid \<Rightarrow> with_sigs \<Rightarrow> ((rt_err \<times> siginfo) \<times> with_sigs) option" where
  "rt_signal_wait_resumed run sigset t c =
     do { (s, g) \<leftarrow> rt_thread_handle_sig run True c;
          let s = upd_stat t (\<lambda>x. x AND NOT RT_THREAD_STAT_SIGNAL_WAIT) s;
          th \<leftarrow> threads s t;
          if thread_error th = - RT_ETIMEOUT
          then Some ((- RT_ETIMEOUT, no_siginfo), upd_thread t (\<lambda>th. th\<lparr>thread_error := RT_EOK\<rparr>) s, g)
          else signal_wait_done sigset t (s, g) }"

text \<open>Along the links: the node for a signal, and the last node.\<close>

partial_function (option) si_find :: "(nat \<Rightarrow> siginfo_node option) \<Rightarrow> u16 \<Rightarrow> nat \<Rightarrow> nat option option" where
  "si_find nodes signo i =
     do { nd \<leftarrow> nodes i;
          if si_signo (node_si nd) = signo then Some (Some i)
          else case node_next nd of None \<Rightarrow> Some None | Some j \<Rightarrow> si_find nodes signo j }"

partial_function (option) si_last :: "(nat \<Rightarrow> siginfo_node option) \<Rightarrow> nat \<Rightarrow> nat option" where
  "si_last nodes i =
     do { nd \<leftarrow> nodes i;
          case node_next nd of None \<Rightarrow> Some i | Some j \<Rightarrow> si_last nodes j }"

text \<open>The new node goes to the end of the list.\<close>

definition si_append :: "tid \<Rightarrow> nat \<Rightarrow> siginfo \<Rightarrow> sigs \<Rightarrow> sigs option" where
  "si_append t i si g =
     (let g = g\<lparr>siginfo_nodes := (siginfo_nodes g)(i \<mapsto> \<lparr>node_si = si, node_next = None\<rparr>)\<rparr> in
      case si_list (thread_sigs g t) of
        Si_null \<Rightarrow> Some (upd_sig t (\<lambda>x. x\<lparr>si_list := Si_node i\<rparr>) g)
      | Si_inner _ \<Rightarrow> None
      | Si_node h \<Rightarrow>
          do { l \<leftarrow> si_last (siginfo_nodes g) h;
               Some (g\<lparr>siginfo_nodes := (siginfo_nodes g)(l :=
                   map_option (\<lambda>x. x\<lparr>node_next := Some i\<rparr>) (siginfo_nodes g l))\<rparr>) })"

definition kill_new :: "handlers \<Rightarrow> tid \<Rightarrow> siginfo \<Rightarrow> with_sigs \<Rightarrow> (rt_err \<times> with_sigs) option" where
  "kill_new run t si c =
     (let (s, g) = c in
      do { (r, s) \<leftarrow> rt_mp_alloc (siginfo_pool g) 0 s;
           g \<leftarrow> (case r of Done (Some i) \<Rightarrow> si_append t i si g | _ \<Rightarrow> Some g);
           c \<leftarrow> signal_deliver run t (s, g);
           Some (RT_EOK, c) })"

text \<open>
  For a signal that is pending, \<^verbatim>\<open>si_list\<close> is cast to an \<^verbatim>\<open>rt_slist_node *\<close> and searched.
\<close>

definition rt_thread_kill :: "handlers \<Rightarrow> tid \<Rightarrow> int \<Rightarrow> with_sigs \<Rightarrow> (rt_err \<times> with_sigs) option" where
  "rt_thread_kill run t sig c =
     (let (s, g) = c; si = \<lparr>si_signo = of_int sig, si_code = SI_USER, si_value = 0\<rparr> in
      if \<not> sig_valid sig then Some (- RT_EINVAL, s, g)
      else do { b \<leftarrow> sig_bit sig;
                if sig_pending (thread_sigs g t) AND b \<noteq> 0
                then do { let s = rt_enter_critical s;
                          found \<leftarrow> (case si_list (thread_sigs g t) of
                                     Si_null \<Rightarrow> Some None
                                   | Si_node _ \<Rightarrow> None
                                   | Si_inner i \<Rightarrow> si_find (siginfo_nodes g) (of_int sig) i);
                          s \<leftarrow> rt_exit_critical s;
                          case found of
                            Some i \<Rightarrow> Some (RT_EOK, s, g\<lparr>siginfo_nodes := (siginfo_nodes g)(i :=
                                map_option (\<lambda>x. x\<lparr>node_si := si\<rparr>) (siginfo_nodes g i))\<rparr>)
                          | None \<Rightarrow> kill_new run t si (s, g) }
                else kill_new run t si (s, upd_sig t (\<lambda>x. x\<lparr>sig_pending := sig_pending x OR b\<rparr>) g) })"

text \<open>The nodes of a thread go back to the pool; a block keeps its contents when it is freed.\<close>

partial_function (option) si_free_all :: "(nat \<Rightarrow> siginfo_node option) \<Rightarrow> nat \<Rightarrow> nat \<Rightarrow> kernel \<Rightarrow> kernel option" where
  "si_free_all nodes mp i s =
     do { nd \<leftarrow> nodes i;
          s \<leftarrow> rt_mp_free mp i s;
          case node_next nd of None \<Rightarrow> Some s | Some j \<Rightarrow> si_free_all nodes mp j s }"

definition rt_thread_free_sig :: "nat \<Rightarrow> tid \<Rightarrow> (kernel \<times> heap) \<times> sigs \<Rightarrow> (mem_call \<times> (kernel \<times> heap) \<times> sigs) option" where
  "rt_thread_free_sig hs t c =
     (let ((s, h), g) = c; x = thread_sigs g t;
          g = upd_sig t (\<lambda>x. x\<lparr>si_list := Si_null, sig_vectors := None\<rparr>) g in
      do { s \<leftarrow> (case si_list x of Si_null \<Rightarrow> Some s | Si_inner _ \<Rightarrow> None
                | Si_node i \<Rightarrow> si_free_all (siginfo_nodes g) (siginfo_pool g) i s);
           case sig_vectors x of
             None \<Rightarrow> Some (Got None, (s, h), g)
           | Some (a, _) \<Rightarrow> do { (r, c) \<leftarrow> rt_free hs a (s, h); Some (r, c, g) } })"

definition rt_system_signal_init :: "nat option \<Rightarrow> bool \<Rightarrow> with_sigs \<Rightarrow> with_sigs option" where
  "rt_system_signal_init mem start c =
     do { (r, s) \<leftarrow> rt_mp_create [0x73, 0x69, 0x67, 0x6e, 0x61, 0x6c, 0] RT_SIG_INFO_MAX 12 mem start (fst c);
          mp \<leftarrow> r;
          Some (s, (snd c)\<lparr>siginfo_pool := mp\<rparr>) }"

section \<open>The queue of pending signals\<close>

definition link_at :: "sigs \<Rightarrow> nat \<Rightarrow> nat option" where
  "link_at g i = (case siginfo_nodes g i of None \<Rightarrow> None | Some nd \<Rightarrow> node_next nd)"

definition signo_at :: "sigs \<Rightarrow> nat \<Rightarrow> nat" where
  "signo_at g i = (case siginfo_nodes g i of None \<Rightarrow> 0 | Some nd \<Rightarrow> unat (si_signo (node_si nd)))"

definition si_head :: "nat option \<Rightarrow> si_ptr" where
  "si_head p = (case p of None \<Rightarrow> Si_null | Some i \<Rightarrow> Si_node i)"

lemma si_head_simps [simp]: "si_head None = Si_null" "si_head (Some i) = Si_node i"
  by (simp_all add: si_head_def)

fun sig_bits :: "nat list \<Rightarrow> u32" where
  "sig_bits [] = 0"
| "sig_bits (n # ns) = 2 ^ n OR sig_bits ns"

lemma bit_sig_bits: "bit (sig_bits ns) k \<longleftrightarrow> k < 32 \<and> k \<in> set ns"
  by (induction ns) (auto simp: bit_or_iff bit_exp_iff)

lemma sig_bits_rest: "n \<notin> set ns \<Longrightarrow> sig_bits (n # ns) AND NOT (2 ^ n) = sig_bits ns"
  by (rule bit_word_eqI) (auto simp: bit_and_iff bit_or_iff bit_not_iff bit_exp_iff bit_sig_bits)

lemma sig_bits_append [simp]: "sig_bits (xs @ ys) = sig_bits xs OR sig_bits ys"
  by (induction xs) (auto simp: or.assoc)

lemma sig_bits_mask:
  assumes "\<forall>n\<in>set ns. n < 32"
  shows "sig_bits ns AND m = 0 \<longleftrightarrow> (\<forall>n\<in>set ns. \<not> bit m n)"
proof
  assume z: "sig_bits ns AND m = 0"
  show "\<forall>n\<in>set ns. \<not> bit m n"
  proof
    fix n assume "n \<in> set ns"
    then have "bit (sig_bits ns AND m) n = bit m n" using assms by (simp add: bit_and_iff bit_sig_bits)
    then show "\<not> bit m n" using z by simp
  qed
next
  assume "\<forall>n\<in>set ns. \<not> bit m n"
  then show "sig_bits ns AND m = 0"
    by (intro bit_eqI) (auto simp: bit_and_iff bit_sig_bits)
qed

lemma sig_bit_eq: "unat n < 32 \<Longrightarrow> sig_bit (uint n) = Some (2 ^ unat n)"
proof -
  assume n: "unat n < 32"
  have "uint n = int (unat n)" by simp
  then have "uint n < 32" using n by linarith
  then show ?thesis by (simp add: sig_bit_def sig_valid_def)
qed

text \<open>
  The signals pending on a thread: its nodes in the order in which they were sent, no signal twice, and the
  pending bits theirs.
\<close>

definition queued :: "sigs \<Rightarrow> tid \<Rightarrow> nat list \<Rightarrow> bool" where
  "queued g t is \<longleftrightarrow>
     (\<exists>p. si_list (thread_sigs g t) = si_head p \<and> chain (link_at g) p is) \<and>
     distinct is \<and> distinct (map (signo_at g) is) \<and>
     (\<forall>i\<in>set is. siginfo_nodes g i \<noteq> None \<and> signo_at g i < 32) \<and>
     sig_pending (thread_sigs g t) = sig_bits (map (signo_at g) is)"

lemma upd_sig_sel [simp]:
  "siginfo_nodes (upd_sig t f g) = siginfo_nodes g" "siginfo_pool (upd_sig t f g) = siginfo_pool g"
  "thread_sigs (upd_sig t f g) u = (if u = t then f (thread_sigs g t) else thread_sigs g u)"
  by (auto simp: upd_sig_def)

lemma queued_cong:
  "siginfo_nodes g' = siginfo_nodes g \<Longrightarrow> link_at g' = link_at g \<and> signo_at g' = signo_at g"
  by (simp add: link_at_def signo_at_def fun_eq_iff)

lemma queued_tail:
  assumes q: "queued g t (i # is)"
  shows "si_list (thread_sigs g t) = Si_node i"
    "\<exists>nd. siginfo_nodes g i = Some nd \<and> unat (si_signo (node_si nd)) = signo_at g i \<and> signo_at g i < 32 \<and>
       queued (upd_sig t (\<lambda>x. x\<lparr>sig_pending := sig_pending x AND NOT (2 ^ signo_at g i)\<rparr>)
         (upd_sig t (\<lambda>x. x\<lparr>si_list := si_head (node_next nd)\<rparr>) g)) t is"
proof -
  have c: "si_list (thread_sigs g t) = Si_node i" "chain (link_at g) (link_at g i) is"
    using q by (auto simp: queued_def)
  then show "si_list (thread_sigs g t) = Si_node i" by simp
  obtain nd where nd: "siginfo_nodes g i = Some nd" using q by (auto simp: queued_def)
  have "sig_bits (signo_at g i # map (signo_at g) is) AND NOT (2 ^ signo_at g i) = sig_bits (map (signo_at g) is)"
    by (rule sig_bits_rest) (use q in \<open>auto simp: queued_def\<close>)
  moreover have "link_at g i = node_next nd" using nd by (simp add: link_at_def)
  ultimately have "queued (upd_sig t (\<lambda>x. x\<lparr>sig_pending := sig_pending x AND NOT (2 ^ signo_at g i)\<rparr>)
         (upd_sig t (\<lambda>x. x\<lparr>si_list := si_head (node_next nd)\<rparr>) g)) t is" (is "queued ?g t is")
    using q c queued_cong [of ?g g] by (auto simp: queued_def)
  then show "\<exists>nd. siginfo_nodes g i = Some nd \<and> unat (si_signo (node_si nd)) = signo_at g i \<and> signo_at g i < 32 \<and>
       queued (upd_sig t (\<lambda>x. x\<lparr>sig_pending := sig_pending x AND NOT (2 ^ signo_at g i)\<rparr>)
         (upd_sig t (\<lambda>x. x\<lparr>si_list := si_head (node_next nd)\<rparr>) g)) t is"
    using nd q by (auto simp: signo_at_def queued_def)
qed

section \<open>Handling\<close>

text \<open>The pool of the nodes, with the blocks of a list of nodes out and no thread waiting.\<close>

definition node_pool :: "kernel \<Rightarrow> nat \<Rightarrow> rt_mempool \<Rightarrow> bool" where
  "node_pool s mp m \<longleftrightarrow> mempools s mp = Some m \<and> pool_ok mp m \<and> suspend_thread_count m = 0"

lemma node_pool_free:
  assumes "node_pool s mp m" "i \<in> mp_used m"
  obtains m' where "rt_mp_free mp i s = Some (s\<lparr>mempools := (mempools s)(mp \<mapsto> m')\<rparr>)"
    "pool_ok mp m'" "suspend_thread_count m' = 0" "mp_used m' = mp_used m - {i}"
proof -
  have m: "mempools s mp = Some m" "pool_ok mp m" "suspend_thread_count m = 0" using assms(1) by (simp_all add: node_pool_def)
  obtain f where f: "blocks mp m f" using m(2) by (auto simp: pool_ok_def)
  obtain m' where m': "mp_give mp i m = Some m'" "suspend_thread_count m' = suspend_thread_count m"
    using mp_give_blocks [OF f assms(2)] by blast
  have "pool_ok mp m'" "mp_used m' = mp_used m - {i}" using pool.release_ok [OF m(2) assms(2)] m'(1) by auto
  then show thesis using that m m' by (simp add: rt_mp_free_def)
qed


text \<open>
  The contract of a handler: called in any well-formed state it comes back, and it leaves the thread's place with the
  scheduler, the thread's signals and the pool of nodes as they are. It may change everything else of the kernel. A
  handler that sends or waits for signals, or changes a mask or a handler, does not keep it.
\<close>

definition handlers_ok :: "handlers \<Rightarrow> tid \<Rightarrow> bool" where
  "handlers_ok run t \<longleftrightarrow> (\<forall>k n s g th. kernel_wf s \<and> threads s t = Some th \<longrightarrow>
     (\<exists>s' g' th'. run k n (s, g) = Some (s', g') \<and> kernel_wf s' \<and> threads s' t = Some th' \<and> stat th' = stat th \<and>
        mempools s' (siginfo_pool g) = mempools s (siginfo_pool g) \<and> siginfo_pool g' = siginfo_pool g \<and>
        siginfo_nodes g' = siginfo_nodes g \<and> thread_sigs g' t = thread_sigs g t))"

text \<open>
  What handling the signals of the nodes \<open>xs\<close> is to do, with the nodes \<open>ys\<close> left behind them: one after the other, the
  node is off the queue, the handler installed for its signal is called with the number of the signal, the node goes
  back to the pool, the pending bits become those of the signals that are left, and the thread's error is set.
\<close>

definition call_handler :: "handlers \<Rightarrow> sighandler option \<Rightarrow> nat \<Rightarrow> with_sigs \<Rightarrow> with_sigs option" where
  "call_handler run h n c = (case h of
       None \<Rightarrow> Some c
     | Some Default_handler \<Rightarrow> Some c
     | Some (User_handler k) \<Rightarrow> run k (of_nat n) c)"

definition queue_head :: "nat list \<Rightarrow> si_ptr" where
  "queue_head is = (case is of [] \<Rightarrow> Si_null | i # _ \<Rightarrow> Si_node i)"

primrec handled ::
    "handlers \<Rightarrow> tid \<Rightarrow> sighandler option list \<Rightarrow> (nat \<Rightarrow> nat) \<Rightarrow> nat list \<Rightarrow> nat list \<Rightarrow> with_sigs \<Rightarrow> with_sigs option" where
  "handled run t vec sig ys [] c = Some c"
| "handled run t vec sig ys (i # xs) c =
     do { (s, g) \<leftarrow> call_handler run (vec ! sig i) (sig i)
                       (fst c, upd_sig t (\<lambda>x. x\<lparr>si_list := queue_head (xs @ ys)\<rparr>) (snd c));
          s \<leftarrow> rt_mp_free (siginfo_pool g) i s;
          handled run t vec sig ys xs
            (upd_thread t (\<lambda>th. th\<lparr>thread_error := - RT_EINTR\<rparr>) s,
             upd_sig t (\<lambda>x. x\<lparr>sig_pending := sig_bits (map sig (xs @ ys))\<rparr>) g) }"

lemma call_handler_ok:
  assumes "handlers_ok run t" "kernel_wf s" "threads s t = Some th"
  obtains s' g' th' where "call_handler run h n (s, g) = Some (s', g')" "kernel_wf s'" "threads s' t = Some th'"
    "stat th' = stat th" "mempools s' (siginfo_pool g) = mempools s (siginfo_pool g)" "siginfo_pool g' = siginfo_pool g"
    "siginfo_nodes g' = siginfo_nodes g" "thread_sigs g' t = thread_sigs g t"
proof (cases "\<exists>k. h = Some (User_handler k)")
  case True
  then show ?thesis using assms that unfolding handlers_ok_def call_handler_def by fastforce
next
  case False
  then have "call_handler run h n (s, g) = Some (s, g)"
    by (cases h) (auto simp: call_handler_def split: sighandler.split)
  then show ?thesis using assms(2,3) that by blast
qed

lemma run_handler_call: "run_handler run h (of_nat n) c = call_handler run h n c"
  by (auto simp: run_handler_def call_handler_def split: option.split sighandler.split)

lemma queued_cong_thread:
  assumes "queued g t is" "siginfo_nodes g' = siginfo_nodes g" "thread_sigs g' t = thread_sigs g t"
  shows "queued g' t is"
  using assms queued_cong [OF assms(2)] by (simp add: queued_def)

text \<open>One signal: the loop does what the specification says and goes on.\<close>

lemma handle_sig_step:
  assumes q: "queued g t (i # is)" and hit: "sig_pending (thread_sigs g t) AND sig_mask (thread_sigs g t) \<noteq> 0"
    and np: "node_pool s (siginfo_pool g) m" "i \<in> mp_used m"
    and vec: "sig_vectors (thread_sigs g t) = Some (a, vec)" "length vec = RT_SIG_MAX"
    and ok: "handlers_ok run t" and t: "threads s t = Some th" and wf: "kernel_wf s"
  obtains s2 g2 s' g' m' th' where
    "call_handler run (vec ! signo_at g i) (signo_at g i) (s, upd_sig t (\<lambda>x. x\<lparr>si_list := queue_head is\<rparr>) g) = Some (s2, g2)"
    "rt_mp_free (siginfo_pool g2) i s2 = Some s'"
    "g' = upd_sig t (\<lambda>x. x\<lparr>sig_pending := sig_bits (map (signo_at g) is)\<rparr>) g2"
    "handle_sig_loop run t (s, g) = handle_sig_loop run t (upd_thread t (\<lambda>th. th\<lparr>thread_error := - RT_EINTR\<rparr>) s', g')"
    "queued g' t is" "siginfo_nodes g' = siginfo_nodes g" "siginfo_pool g' = siginfo_pool g"
    "sig_mask (thread_sigs g' t) = sig_mask (thread_sigs g t)" "sig_vectors (thread_sigs g' t) = Some (a, vec)"
    "node_pool s' (siginfo_pool g) m'" "mp_used m' = mp_used m - {i}" "kernel_wf s'" "threads s' t = Some th'" "stat th' = stat th"
proof -
  obtain nd where nd: "siginfo_nodes g i = Some nd" "unat (si_signo (node_si nd)) = signo_at g i" "signo_at g i < 32"
    and qt: "queued (upd_sig t (\<lambda>x. x\<lparr>sig_pending := sig_pending x AND NOT (2 ^ signo_at g i)\<rparr>)
         (upd_sig t (\<lambda>x. x\<lparr>si_list := si_head (node_next nd)\<rparr>) g)) t is" using queued_tail(2) [OF q] by blast
  have hd: "si_head (node_next nd) = queue_head is"
    using q nd(1) by (cases "is") (auto simp: queued_def link_at_def queue_head_def si_head_def)
  have no: "si_signo (node_si nd) = of_nat (signo_at g i)" by (simp flip: nd(2))
  let ?g1 = "upd_sig t (\<lambda>x. x\<lparr>si_list := queue_head is\<rparr>) g"
  obtain s2 g2 th2 where h: "call_handler run (vec ! signo_at g i) (signo_at g i) (s, ?g1) = Some (s2, g2)"
    "kernel_wf s2" "threads s2 t = Some th2" "stat th2 = stat th"
    "mempools s2 (siginfo_pool ?g1) = mempools s (siginfo_pool ?g1)" "siginfo_pool g2 = siginfo_pool ?g1"
    "siginfo_nodes g2 = siginfo_nodes ?g1" "thread_sigs g2 t = thread_sigs ?g1 t"
    using call_handler_ok [OF ok wf t] .
  have "node_pool s2 (siginfo_pool g2) m" using np(1) h(5,6) by (simp add: node_pool_def)
  then obtain m' where m': "rt_mp_free (siginfo_pool g2) i s2 = Some (s2\<lparr>mempools := (mempools s2)(siginfo_pool g2 \<mapsto> m')\<rparr>)"
    "pool_ok (siginfo_pool g2) m'" "suspend_thread_count m' = 0" "mp_used m' = mp_used m - {i}"
    using node_pool_free [OF _ np(2)] by metis
  let ?s' = "s2\<lparr>mempools := (mempools s2)(siginfo_pool g2 \<mapsto> m')\<rparr>"
  let ?g' = "upd_sig t (\<lambda>x. x\<lparr>sig_pending := sig_bits (map (signo_at g) is)\<rparr>) g2"
  let ?c = "upd_sig t (\<lambda>x. x\<lparr>sig_pending := sig_pending x AND NOT (2 ^ signo_at g i)\<rparr>) g2"
  have pend: "sig_pending (thread_sigs g t) AND NOT (2 ^ signo_at g i) = sig_bits (map (signo_at g) is)"
    using q sig_bits_rest [of "signo_at g i" "map (signo_at g) is"] by (auto simp: queued_def)
  have same: "?c = ?g'" using pend h(8) by (simp add: upd_sig_def)
  have "queued ?c t is" by (rule queued_cong_thread [OF qt]) (use h(7,8) hd in simp_all)
  moreover have "handle_sig_loop run t (s, g) = handle_sig_loop run t (upd_thread t (\<lambda>th. th\<lparr>thread_error := - RT_EINTR\<rparr>) ?s', ?c)"
  proof -
    have "run_handler run (vec ! signo_at g i) (si_signo (node_si nd)) (s, ?g1) = Some (s2, g2)"
      unfolding no run_handler_call by (rule h(1))
    moreover have "sig_bit (uint (si_signo (node_si nd))) = Some (2 ^ signo_at g i)" using nd(2,3) sig_bit_eq by metis
    moreover have "(case node_next nd of None \<Rightarrow> Si_null | Some j \<Rightarrow> Si_node j) = queue_head is"
      unfolding hd [symmetric] by (simp add: si_head_def)
    ultimately show ?thesis
      using hit queued_tail(1) [OF q] nd m'(1) vec by (subst handle_sig_loop.simps) (simp add: Let_def)
  qed
  moreover have "node_pool ?s' (siginfo_pool g) m'" using m'(2,3) h(6) by (simp add: node_pool_def)
  moreover have "kernel_wf ?s'" using h(2) by simp
  ultimately show thesis
    using h(1,3,4,6,7,8) m'(1,4) vec unfolding same by (intro that [of s2 g2 ?s' ?g' m' th2]) simp_all
qed

text \<open>
  The signals are handled from the front of the queue up to the last one that is not masked, whatever those
  before it are.
\<close>

lemma queued_hits:
  assumes "queued g t is"
  shows "sig_pending (thread_sigs g t) AND sig_mask (thread_sigs g t) \<noteq> 0 \<longleftrightarrow>
    (\<exists>i\<in>set is. bit (sig_mask (thread_sigs g t)) (signo_at g i))"
proof -
  have "\<forall>n\<in>set (map (signo_at g) is). n < 32" using assms by (auto simp: queued_def)
  from sig_bits_mask [OF this, of "sig_mask (thread_sigs g t)"] show ?thesis using assms by (auto simp: queued_def)
qed

lemma handle_sig_loop_front:
  assumes "queued g t (xs @ ys)" "node_pool s (siginfo_pool g) m" "set (xs @ ys) \<subseteq> mp_used m"
    and "sig_vectors (thread_sigs g t) = Some (a, vec)" "length vec = RT_SIG_MAX" "handlers_ok run t"
    and "threads s t = Some th" "kernel_wf s"
    and "xs \<noteq> [] \<longrightarrow> bit (sig_mask (thread_sigs g t)) (signo_at g (last xs))"
    and "\<forall>i\<in>set ys. \<not> bit (sig_mask (thread_sigs g t)) (signo_at g i)"
  shows "\<exists>m' g' s' th'. handled run t vec (signo_at g) ys xs (s, g) = Some (s', g') \<and>
    handle_sig_loop run t (s, g) = Some (s', g') \<and> kernel_wf s' \<and>
    queued g' t ys \<and> node_pool s' (siginfo_pool g) m' \<and> mp_used m' = mp_used m - set xs \<and>
    threads s' t = Some th' \<and> stat th' = stat th \<and> (xs \<noteq> [] \<longrightarrow> thread_error th' = - RT_EINTR)"
  using assms
proof (induction xs arbitrary: g s m th)
  case Nil
  then have "handle_sig_loop run t (s, g) = Some (s, g)"
    using queued_hits [of g t ys] by (subst handle_sig_loop.simps) auto
  then show ?case using Nil.prems by (intro exI [of _ m] exI [of _ g] exI [of _ s] exI [of _ th]) simp
next
  case (Cons i xs)
  have q: "queued g t (i # xs @ ys)" using Cons.prems(1) by simp
  have "bit (sig_mask (thread_sigs g t)) (signo_at g (last (i # xs)))" using Cons.prems(9) by blast
  then have hit: "sig_pending (thread_sigs g t) AND sig_mask (thread_sigs g t) \<noteq> 0"
    using queued_hits [OF q] last_in_set [of "i # xs"] by force
  have used: "i \<in> mp_used m" using Cons.prems(3) by simp
  obtain s2 g2 s1 g1 m1 th1 where r:
    "call_handler run (vec ! signo_at g i) (signo_at g i) (s, upd_sig t (\<lambda>x. x\<lparr>si_list := queue_head (xs @ ys)\<rparr>) g) = Some (s2, g2)"
    "rt_mp_free (siginfo_pool g2) i s2 = Some s1"
    "g1 = upd_sig t (\<lambda>x. x\<lparr>sig_pending := sig_bits (map (signo_at g) (xs @ ys))\<rparr>) g2"
    "handle_sig_loop run t (s, g) = handle_sig_loop run t (upd_thread t (\<lambda>th. th\<lparr>thread_error := - RT_EINTR\<rparr>) s1, g1)"
    "queued g1 t (xs @ ys)" "siginfo_nodes g1 = siginfo_nodes g" "siginfo_pool g1 = siginfo_pool g"
    "sig_mask (thread_sigs g1 t) = sig_mask (thread_sigs g t)" "sig_vectors (thread_sigs g1 t) = Some (a, vec)"
    "node_pool s1 (siginfo_pool g) m1" "mp_used m1 = mp_used m - {i}" "kernel_wf s1" "threads s1 t = Some th1" "stat th1 = stat th"
    using handle_sig_step [OF q hit Cons.prems(2) used Cons.prems(4-8)] .
  let ?s = "upd_thread t (\<lambda>th. th\<lparr>thread_error := - RT_EINTR\<rparr>) s1"
  have same: "signo_at g1 = signo_at g" using queued_cong [OF r(6)] by simp
  have i: "i \<notin> set xs" "i \<notin> set ys" using q by (auto simp: queued_def)
  have wf: "kernel_wf ?s" by (rule kernel_wf_upd_thread) (use r(12) in \<open>simp_all add: sched_view_def\<close>)
  have np: "node_pool ?s (siginfo_pool g1) m1" using r(7,10) by (simp add: node_pool_def upd_thread_def)
  have sub: "set (xs @ ys) \<subseteq> mp_used m1" using Cons.prems(3) r(11) i by auto
  have th: "threads ?s t = Some (th1\<lparr>thread_error := - RT_EINTR\<rparr>)" using r(13) by (simp add: upd_thread_def)
  have last: "xs \<noteq> [] \<longrightarrow> bit (sig_mask (thread_sigs g1 t)) (signo_at g1 (last xs))"
    using Cons.prems(9) same r(8) by (auto split: if_splits)
  have rest: "\<forall>i\<in>set ys. \<not> bit (sig_mask (thread_sigs g1 t)) (signo_at g1 i)" using Cons.prems(10) same r(8) by simp
  obtain m' g' s' th' where ih: "handled run t vec (signo_at g1) ys xs (?s, g1) = Some (s', g')"
    "handle_sig_loop run t (?s, g1) = Some (s', g')" "kernel_wf s'"
    "queued g' t ys" "node_pool s' (siginfo_pool g1) m'" "mp_used m' = mp_used m1 - set xs"
    "threads s' t = Some th'" "stat th' = stat (th1\<lparr>thread_error := - RT_EINTR\<rparr>)" "xs \<noteq> [] \<longrightarrow> thread_error th' = - RT_EINTR"
    using Cons.IH [OF r(5) np sub r(9) Cons.prems(5,6) th wf last rest] by blast
  have "xs = [] \<Longrightarrow> thread_error th' = - RT_EINTR" using ih(1,7) th by simp
  then have e: "thread_error th' = - RT_EINTR" using ih(9) by blast
  have "handled run t vec (signo_at g) ys (i # xs) (s, g) = Some (s', g')"
    using r(1,2,3) ih(1) unfolding same by simp
  moreover have "mp_used m' = mp_used m - set (i # xs)" using ih(6) r(11) by auto
  ultimately show ?case using r(4,7,14) ih(2-5,7,8) e
    by (intro exI [of _ m'] exI [of _ g'] exI [of _ s'] exI [of _ th']) simp
qed

section \<open>Sending\<close>


text \<open>A node is put behind the others.\<close>

definition add_node :: "tid \<Rightarrow> nat \<Rightarrow> siginfo \<Rightarrow> nat list \<Rightarrow> sigs \<Rightarrow> sigs" where
  "add_node t i si is g =
     (let g = g\<lparr>siginfo_nodes := (siginfo_nodes g)(i \<mapsto> \<lparr>node_si = si, node_next = None\<rparr>)\<rparr> in
      if is = [] then upd_sig t (\<lambda>x. x\<lparr>si_list := Si_node i\<rparr>) g
      else g\<lparr>siginfo_nodes := (siginfo_nodes g)(last is :=
          map_option (\<lambda>x. x\<lparr>node_next := Some i\<rparr>) (siginfo_nodes g (last is)))\<rparr>)"

lemma add_node_sel [simp]:
  "siginfo_pool (add_node t i si is g) = siginfo_pool g" "u \<noteq> t \<Longrightarrow> thread_sigs (add_node t i si is g) u = thread_sigs g u"
  "sig_mask (thread_sigs (add_node t i si is g) u) = sig_mask (thread_sigs g u)"
  "sig_pending (thread_sigs (add_node t i si is g) u) = sig_pending (thread_sigs g u)"
  by (simp_all add: add_node_def Let_def)



section \<open>Properties\<close>

text \<open>A thread with no pending signal goes on from \<^verbatim>\<open>rt_schedule\<close> as if there were no signals.\<close>

lemma rt_thread_handle_sig_none:
  assumes "rt_current_thread s = Some t" "threads s t \<noteq> None" "sig_pending (thread_sigs g t) = 0"
  shows "rt_thread_handle_sig run b (s, g) = Some (s, g)"
  using assms by (auto simp: rt_thread_handle_sig_def rt_thread_self_def)


text \<open>
  (C34) When a thread that is not waiting for a signal has a pending one that it does not mask, handling ends, for
  handlers that come back and leave alone the thread's place with the scheduler, its signals and the pool of nodes
  (\<^verbatim>\<open>handlers_ok\<close>; a handler that sends a signal again is not one of them). The signals of the queue are
  handled in order up to the last one that is not masked, the masked ones among them too: for each of them the handler
  installed for it is called with its number, its node goes back to the pool and its pending bit is cleared
  (\<^verbatim>\<open>handled\<close>). The rest stays queued, and the thread's error is \<^verbatim>\<open>-RT_EINTR\<close>.
\<close>

theorem handle_sig_front:
  assumes "queued g t (xs @ ys)" "node_pool s (siginfo_pool g) m" "set (xs @ ys) \<subseteq> mp_used m"
    and "sig_vectors (thread_sigs g t) = Some (a, vec)" "length vec = RT_SIG_MAX" "handlers_ok run t"
    and "rt_current_thread s = Some t" "threads s t = Some th" "kernel_wf s" "stat th AND RT_THREAD_STAT_SIGNAL_WAIT = 0"
    and "xs \<noteq> []" "bit (sig_mask (thread_sigs g t)) (signo_at g (last xs))"
    and "\<forall>i\<in>set ys. \<not> bit (sig_mask (thread_sigs g t)) (signo_at g i)"
  shows "\<exists>m' g' s2 s'. handled run t vec (signo_at g) ys xs (s, g) = Some (s2, g') \<and>
    rt_thread_handle_sig run True (s, g) = Some (s', g') \<and>
    s' = upd_thread t (\<lambda>th. th\<lparr>stat := stat th AND NOT RT_THREAD_STAT_SIGNAL\<rparr>) s2 \<and> kernel_wf s' \<and>
    queued g' t ys \<and> mempools s' (siginfo_pool g) = Some m' \<and> mp_used m' = mp_used m - set xs \<and>
    (\<exists>th'. threads s' t = Some th' \<and> thread_error th' = - RT_EINTR \<and> stat_of th' = stat_of th)"
proof -
  obtain m' g' s2 th' where h: "handled run t vec (signo_at g) ys xs (s, g) = Some (s2, g')"
    "handle_sig_loop run t (s, g) = Some (s2, g')" "kernel_wf s2"
    "queued g' t ys" "node_pool s2 (siginfo_pool g) m'" "mp_used m' = mp_used m - set xs"
    "threads s2 t = Some th'" "stat th' = stat th" "thread_error th' = - RT_EINTR"
    using handle_sig_loop_front [OF assms(1-6,8,9) _ assms(13)] assms(11,12) by blast
  let ?n = "upd_thread t (\<lambda>th. th\<lparr>stat := stat th AND NOT RT_THREAD_STAT_SIGNAL\<rparr>) s2"
  have "last xs \<in> set (xs @ ys)" using assms(11) by simp
  then have "sig_pending (thread_sigs g t) AND sig_mask (thread_sigs g t) \<noteq> 0"
    using queued_hits [OF assms(1)] assms(12) by blast
  then have "rt_thread_handle_sig run True (s, g) = Some (?n, g')"
    using h(2) assms(7,8,10) by (simp add: rt_thread_handle_sig_def rt_thread_self_def upd_stat_def)
  moreover have st: "(x AND NOT RT_THREAD_STAT_SIGNAL) AND RT_THREAD_STAT_MASK = x AND RT_THREAD_STAT_MASK" for x :: u8
    by (simp add: and.assoc)
  note st = st [simplified]
  have "kernel_wf ?n"
    by (intro kernel_wf_upd_thread [OF h(3)]) (simp add: sched_view_def stat_of_def st)
  moreover have "threads ?n t = Some (th'\<lparr>stat := stat th' AND NOT RT_THREAD_STAT_SIGNAL\<rparr>)"
    using h(7) by (simp add: upd_thread_def)
  moreover have "mempools ?n (siginfo_pool g) = Some m'" using h(5) by (simp add: node_pool_def upd_thread_def)
  ultimately show ?thesis using h(1,4,6,8,9) st
    by (intro exI [of _ m'] exI [of _ g'] exI [of _ s2] exI [of _ ?n]) (simp add: stat_of_def)
qed

text \<open>
  Sending a signal that is already pending is undefined: the pointer to the first node is taken for a
  pointer to its link, so the search starts eight bytes before the node.
\<close>

theorem kill_pending_undefined:
  assumes "queued g t is" "i \<in> set is"
  shows "rt_thread_kill run t (int (signo_at g i)) (s, g) = None"
proof -
  obtain h js where "is = h # js" using assms(2) by (cases "is") auto
  then have "si_list (thread_sigs g t) = Si_node h" using assms(1) by (auto simp: queued_def)
  moreover have n: "\<forall>n\<in>set (map (signo_at g) is). n < 32" using assms(1) by (auto simp: queued_def)
  have "sig_pending (thread_sigs g t) AND 2 ^ signo_at g i \<noteq> 0"
    using sig_bits_mask [OF n, of "2 ^ signo_at g i"] assms n by (auto simp: queued_def bit_exp_iff)
  ultimately show ?thesis using n assms(2) by (simp add: rt_thread_kill_def sig_valid_def sig_bit_def Let_def)
qed

text \<open>
  Taking the oldest of several pending signals with \<^verbatim>\<open>rt_signal_wait\<close> breaks the
  list: the thread is left with the address inside the next node that the link held, in place of the
  address of the node, and waiting for that next signal reads outside it.
\<close>

theorem wait_breaks_list:
  assumes "queued g t (i # j # is)" "node_pool s (siginfo_pool g) m" "i \<in> mp_used m" "bit w (signo_at g i)"
    and "rt_current_thread s = Some t" "rt_interrupt_nest s = 0"
  shows "\<exists>si s' g'. rt_signal_wait (Some w) True timeout (s, g) = Some (Return (RT_EOK, Some si), s', g') \<and>
    unat (si_signo si) = signo_at g i \<and> si_list (thread_sigs g' t) = Si_inner j \<and>
    rt_signal_wait (Some (2 ^ signo_at g j)) True timeout (s', g') = None"
proof -
  obtain nd where nd: "siginfo_nodes g i = Some nd" "unat (si_signo (node_si nd)) = signo_at g i" "signo_at g i < 32"
    using queued_tail(2) [OF assms(1)] by auto
  have l: "si_list (thread_sigs g t) = Si_node i" "node_next nd = Some j"
    using assms(1) nd(1) by (auto simp: queued_def link_at_def)
  have n: "\<forall>n\<in>set (map (signo_at g) (i # j # is)). n < 32" "signo_at g i \<noteq> signo_at g j" using assms(1) by (auto simp: queued_def)
  have p: "sig_pending (thread_sigs g t) = sig_bits (map (signo_at g) (i # j # is))" using assms(1) by (simp add: queued_def)
  have pi: "sig_pending (thread_sigs g t) AND w \<noteq> 0" unfolding p using sig_bits_mask [OF n(1), of w] assms(4) by auto
  then have w: "w \<noteq> 0" by auto
  have b: "sig_bit (uint (si_signo (node_si nd))) = Some (2 ^ signo_at g i)" using nd(2,3) sig_bit_eq by metis
  have h: "2 ^ signo_at g i AND w \<noteq> 0" using sig_bits_mask [of "[signo_at g i]" w] nd(3) assms(4) by simp
  have s: "si_search (siginfo_nodes g) w None i = Some (None, i, nd)" using nd(1) b h by (subst si_search.simps) simp
  let ?g1 = "upd_sig t (\<lambda>x. x\<lparr>si_list := Si_inner j\<rparr>) g"
  let ?g = "upd_sig t (\<lambda>x. x\<lparr>sig_pending := sig_pending x AND NOT (2 ^ signo_at g i)\<rparr>) ?g1"
  obtain m' where m': "rt_mp_free (siginfo_pool g) i s = Some (s\<lparr>mempools := (mempools s)(siginfo_pool g \<mapsto> m')\<rparr>)"
    using node_pool_free [OF assms(2,3)] by metis
  let ?s = "s\<lparr>mempools := (mempools s)(siginfo_pool g \<mapsto> m')\<rparr>"
  have c: "in_thread_context s = Some ()" "in_thread_context ?s = Some ()" "rt_thread_self ?s = Some t" "rt_thread_self s = Some t"
    using assms(5,6) by (simp_all add: in_thread_context_def rt_thread_self_def)
  have "rt_signal_wait (Some w) True timeout (s, g) = Some (Return (RT_EOK, Some (node_si nd)), ?s, ?g)"
    using c w pi l s b m' by (simp add: rt_signal_wait_def signal_wait_done_def)
  moreover have "bit ((sig_bits (map (signo_at g) (i # j # is)) AND NOT (2 ^ signo_at g i)) AND 2 ^ signo_at g j) (signo_at g j)"
    using n by (auto simp: bit_and_iff bit_not_iff bit_exp_iff bit_sig_bits bit_or_iff)
  then have "sig_pending (thread_sigs ?g t) AND 2 ^ signo_at g j \<noteq> 0" unfolding p [symmetric] by (auto simp del: bit_and_iff)
  then have "rt_signal_wait (Some (2 ^ signo_at g j)) True timeout (?s, ?g) = None"
    using c n(1) by (simp add: rt_signal_wait_def signal_wait_done_def)
  ultimately show ?thesis using nd(2) by (intro exI [of _ "node_si nd"] exI [of _ ?s] exI [of _ ?g]) simp
qed

text \<open>
  A second signal sent to a ready thread before it runs loses the thread's context. Nothing keeps
  \<^verbatim>\<open>_signal_deliver\<close> from building a second signal context (the state bits are masked off
  before the signal bit is tested), so the saved stack pointer is overwritten with that of the first one
  and the one the thread had is nowhere.
\<close>

theorem second_signal_loses_context:
  assumes "threads s t = Some th" "stat_of th = RT_THREAD_READY" "rt_current_thread s \<noteq> Some t"
    and "rt_scheduler_lock_nest s \<noteq> 0" "sig_pending (thread_sigs g t) AND sig_mask (thread_sigs g t) \<noteq> 0"
  shows "\<exists>s1 g1 s2 g2 th1. signal_deliver run t (s, g) = Some (s1, g1) \<and> sig_ret (thread_sigs g1 t) = sp th \<and>
    threads s1 t = Some th1 \<and> stat th1 AND RT_THREAD_STAT_SIGNAL \<noteq> 0 \<and>
    signal_deliver run t (s1, g1) = Some (s2, g2) \<and> sig_ret (thread_sigs g2 t) = sp th1 \<and> sp th1 \<noteq> sp th"
proof -
  define fr where "fr x = fst (rt_hw_stack_init 0 0 (x - 32) 0)" for x
  have other: "fr x \<noteq> x" for x
  proof
    assume "fr x = x"
    define y where "y = x - 28"
    have "RT_ALIGN_DOWN y 8 = y + 96" using \<open>fr x = x\<close> by (simp add: y_def fr_def rt_hw_stack_init_def Let_def algebra_simps)
    then have e: "unat y div 8 * 8 = (unat y + 96) mod 2 ^ 32" using unat_align_down_8 [of y] by (simp add: unat_word_ariths)
    have y: "unat y < 2 ^ 32" using unsigned_less [of y, where 'a = nat] by simp
    show False
    proof (cases "unat y + 96 < 2 ^ 32")
      case True
      then show False using e div_times_less_eq_dividend [of "unat y" 8] by simp
    next
      case False
      then have "(unat y + 96) mod 2 ^ 32 = unat y + 96 - 2 ^ 32" using y by (simp add: le_mod_geq)
      moreover have "unat y div 8 * 8 + 8 > unat y" using div_mult_mod_eq [of "unat y" 8] by linarith
      ultimately show False using e y False by simp
    qed
  qed
  let ?th1 = "th\<lparr>stat := stat th OR RT_THREAD_STAT_SIGNAL, sp := fr (sp th)\<rparr>"
  let ?s1 = "s\<lparr>threads := (threads s)(t \<mapsto> ?th1)\<rparr>" and ?g1 = "upd_sig t (\<lambda>x. x\<lparr>sig_ret := sp th\<rparr>) g"
  let ?th2 = "?th1\<lparr>stat := stat ?th1 OR RT_THREAD_STAT_SIGNAL, sp := fr (sp ?th1)\<rparr>"
  have m: "(x OR RT_THREAD_STAT_SIGNAL) AND RT_THREAD_STAT_MASK = x AND RT_THREAD_STAT_MASK" for x :: u8
    by (simp add: bit.conj_disj_distrib2)
  have z: "(x AND RT_THREAD_STAT_MASK) AND RT_THREAD_STAT_SIGNAL = 0" for x :: u8 by (simp add: and.assoc)
  note m = m [simplified] and z = z [simplified]
  have "signal_deliver run t (s, g) = Some (?s1, ?g1)"
    using assms m z by (simp add: signal_deliver_def stat_of_def rt_thread_self_def upd_stat_def upd_thread_def
        rt_schedule_def fr_def split_def Let_def)
  moreover have "signal_deliver run t (?s1, ?g1) = Some (?s1\<lparr>threads := (threads s)(t \<mapsto> ?th2)\<rparr>, upd_sig t (\<lambda>x. x\<lparr>sig_ret := fr (sp th)\<rparr>) ?g1)"
    using assms m z by (simp add: signal_deliver_def stat_of_def rt_thread_self_def upd_stat_def upd_thread_def
        rt_schedule_def fr_def split_def Let_def)
  moreover have "bit ((stat th OR RT_THREAD_STAT_SIGNAL) AND RT_THREAD_STAT_SIGNAL) 4"
    by (simp add: bit_and_iff bit_or_iff)
  then have "stat ?th1 AND RT_THREAD_STAT_SIGNAL \<noteq> 0" by auto
  ultimately show ?thesis using other by (intro exI conjI) (assumption | simp)+
qed

section \<open>Witnesses\<close>

text \<open>
  Thread 1 of the sample state with signals 5 and 9 pending, or only 5; 9 is not masked in the first case.
\<close>

definition demo_sigs :: "bool \<Rightarrow> sigs" where
  "demo_sigs two = \<lparr>thread_sigs = (\<lambda>_. fresh_sig)(1 := \<lparr>sig_pending = (if two then 2 ^ 5 OR 2 ^ 9 else 2 ^ 5),
       sig_mask = (if two then 2 ^ 9 else 0), sig_ret = 0,
       sig_vectors = Some (0x20000100, replicate 32 (Some Default_handler)), si_list = Si_node 0\<rparr>),
     siginfo_nodes = [0 \<mapsto> \<lparr>node_si = \<lparr>si_signo = 5, si_code = SI_USER, si_value = 0\<rparr>, node_next = (if two then Some 1 else None)\<rparr>,
       1 \<mapsto> \<lparr>node_si = \<lparr>si_signo = 9, si_code = SI_USER, si_value = 0\<rparr>, node_next = None\<rparr>],
     siginfo_pool = 0\<rparr>"

definition demo_both :: kernel where
  "demo_both = demo\<lparr>mempools := [0 \<mapsto> demo_pool (\<lambda>i. BUsed 0) None 0 0]\<rparr>"

lemma demo_both_ok: "kernel_wf demo_both" "node_pool demo_both 0 (demo_pool (\<lambda>i. BUsed 0) None 0 0)"
  "{0, 1} \<subseteq> mp_used (demo_pool (\<lambda>i. BUsed 0) None 0 0)"
proof -
  show "kernel_wf demo_both" using demo_wf by (simp add: demo_both_def)
  have "pool_ok 0 (demo_pool (\<lambda>i. BUsed 0) None 0 0)"
    unfolding pool_ok_def by (intro exI [of _ "[]"]) (auto simp: blocks_def demo_pool_def)
  then show "node_pool demo_both 0 (demo_pool (\<lambda>i. BUsed 0) None 0 0)" by (simp add: node_pool_def demo_both_def demo_pool_def)
qed (simp add: mp_used_def demo_pool_def)

lemma demo_sigs_queued: "queued (demo_sigs True) 1 [0, 1]" "queued (demo_sigs False) 1 [0]"
proof -
  show "queued (demo_sigs True) 1 [0, 1]" "queued (demo_sigs False) 1 [0]" unfolding queued_def
    by (auto intro!: exI [of _ "Some 0"] simp: link_at_def signo_at_def demo_sigs_def)
qed


text \<open>A handler for signal 5 that changes another thread's error.\<close>

definition demo_handler :: handlers where
  "demo_handler k n c = Some (upd_thread 3 (\<lambda>th. th\<lparr>thread_error := uint n\<rparr>) (fst c), snd c)"

definition demo_caught :: sigs where
  "demo_caught = upd_sig 1 (\<lambda>x. x\<lparr>sig_vectors := Some (0x20000100, (replicate 32 (Some Default_handler))[5 := Some (User_handler 0)])\<rparr>) (demo_sigs True)"

lemma demo_handler_ok: "handlers_ok demo_handler 1"
proof -
  have "kernel_wf (upd_thread 3 (\<lambda>th. th\<lparr>thread_error := uint n\<rparr>) s)" if "kernel_wf s" for n :: u16 and s
    by (rule kernel_wf_upd_thread [OF that]) (simp add: sched_view_def)
  then show ?thesis
    unfolding handlers_ok_def demo_handler_def by (auto simp: upd_thread_def)
qed

theorem handle_sig_front_witness:
  "\<exists>s2 s' g'. handled demo_handler 1 ((replicate 32 (Some Default_handler))[5 := Some (User_handler 0)]) (signo_at demo_caught) [] [0, 1]
      (demo_both, demo_caught) = Some (s2, g') \<and>
    rt_thread_handle_sig demo_handler True (demo_both, demo_caught) = Some (s', g') \<and> queued g' 1 []"
proof -
  have "stat (demo_thread 10 1) AND RT_THREAD_STAT_SIGNAL_WAIT = 0" "rt_current_thread demo_both = Some 1"
    "threads demo_both 1 = Some (demo_thread 10 1)"
    by (simp_all add: demo_thread_def demo_both_def)
  moreover have "sig_vectors (thread_sigs demo_caught 1) = Some (0x20000100, (replicate 32 (Some Default_handler))[5 := Some (User_handler 0)])"
    "bit (sig_mask (thread_sigs demo_caught 1)) (signo_at demo_caught 1)" "siginfo_pool demo_caught = 0"
    by (simp_all add: demo_caught_def demo_sigs_def signo_at_def)
  moreover have "queued demo_caught 1 [0, 1]"
    using demo_sigs_queued(1) by (simp add: queued_def demo_caught_def link_at_def signo_at_def)
  ultimately show ?thesis
    using handle_sig_front [where g = demo_caught and t = 1 and xs = "[0, 1]" and ys = "[]" and s = demo_both and run = demo_handler]
      demo_both_ok demo_handler_ok by fastforce
qed

theorem kill_pending_undefined_witness:
  "rt_thread_kill (\<lambda>_ _. Some) 1 5 (demo_both, demo_sigs True) = None"
  using kill_pending_undefined [OF demo_sigs_queued(1), of 0] by (simp add: signo_at_def demo_sigs_def)

theorem wait_breaks_list_witness:
  "\<exists>si s' g'. rt_signal_wait (Some (2 ^ 5)) True 0 (demo_both, demo_sigs True) = Some (Return (RT_EOK, Some si), s', g') \<and>
     si_list (thread_sigs g' 1) = Si_inner 1"
proof -
  have "bit (2 ^ 5 :: u32) (signo_at (demo_sigs True) 0)" "rt_current_thread demo_both = Some 1"
    "rt_interrupt_nest demo_both = 0" "siginfo_pool (demo_sigs True) = 0"
    by (simp_all add: signo_at_def demo_sigs_def demo_both_def bit_exp_iff)
  then show ?thesis
    using wait_breaks_list [OF demo_sigs_queued(1), of demo_both _ "2 ^ 5" 0] demo_both_ok(2,3) by fastforce
qed

theorem second_signal_loses_context_witness:
  "\<exists>s1 g1. signal_deliver (\<lambda>_ _. Some) 1 (demo\<lparr>rt_scheduler_lock_nest := 1, rt_current_thread := Some 3\<rparr>, demo_sigs True) = Some (s1, g1) \<and>
     (\<exists>s2 g2. signal_deliver (\<lambda>_ _. Some) 1 (s1, g1) = Some (s2, g2) \<and> sig_ret (thread_sigs g2 1) \<noteq> sig_ret (thread_sigs g1 1))"
proof -
  have "sig_pending (thread_sigs (demo_sigs True) 1) AND sig_mask (thread_sigs (demo_sigs True) 1) \<noteq> 0"
    by (simp add: demo_sigs_def)
  then show ?thesis
    using second_signal_loses_context [of "demo\<lparr>rt_scheduler_lock_nest := 1, rt_current_thread := Some 3\<rparr>" 1 "demo_thread 10 1"
        "demo_sigs True" "\<lambda>_ _. Some"]
    by simp metis
qed

end
