(* ===== verification/Idle.thy ===== *)
theory Idle
  imports Signals
begin

text \<open>
  The idle thread (\<^verbatim>\<open>src/idle.c\<close>): the hooks it runs and the threads it reclaims from
  the defunct list, to which \<^verbatim>\<open>rt_thread_delete\<close>, \<^verbatim>\<open>rt_thread_detach\<close> and
  \<^verbatim>\<open>rt_thread_exit\<close> move them. Here the kernel, the heap and the signals meet. \<open>cl\<close> stands for the cleanup functions of
  the application, \<open>hk\<close> for its hooks, and \<open>tcb t\<close> is the address of the control block of thread \<open>t\<close>.
\<close>

section \<open>The code\<close>

type_synonym system = "(kernel \<times> heap) \<times> sigs"

text \<open>\<open>idle_hook_list\<close>: a slot that is \<open>None\<close> is null.\<close>

fun rt_thread_idle_sethook :: "nat option \<Rightarrow> nat option list \<Rightarrow> rt_err \<times> nat option list" where
  "rt_thread_idle_sethook hook [] = (- RT_EFULL, [])"
| "rt_thread_idle_sethook hook (None # l) = (RT_EOK, hook # l)"
| "rt_thread_idle_sethook hook (Some k # l) = (let (r, l) = rt_thread_idle_sethook hook l in (r, Some k # l))"

fun rt_thread_idle_delhook :: "nat option \<Rightarrow> nat option list \<Rightarrow> rt_err \<times> nat option list" where
  "rt_thread_idle_delhook hook [] = (- RT_ENOSYS, [])"
| "rt_thread_idle_delhook hook (k # l) =
     (if k = hook then (RT_EOK, None # l) else let (r, l) = rt_thread_idle_delhook hook l in (r, k # l))"

text \<open>What a round of the loop comes to, and the point at which a call waits for the heap.\<close>

datatype idle_wait = Sig_wait tid heap_wait | Stack_wait tid heap_wait | Tcb_wait heap_wait

datatype idle_result = Idle_more | Idle_return | Idle_sleeps idle_wait

definition idle_delete :: "nat \<Rightarrow> (tid \<Rightarrow> nat) \<Rightarrow> tid \<Rightarrow> system \<Rightarrow> (idle_result \<times> system) option" where
  "idle_delete hs tcb t c =
     (let ((s, h), g) = c in
      do { s \<leftarrow> rt_object_delete (OThread t) s;
           (r, c) \<leftarrow> rt_free hs (tcb t) (s\<lparr>threads := (threads s)(t := None)\<rparr>, h);
           Some (case r of Got _ \<Rightarrow> Idle_more | Sleeps w \<Rightarrow> Idle_sleeps (Tcb_wait w), c, g) })"

definition idle_free_stack :: "nat \<Rightarrow> (tid \<Rightarrow> nat) \<Rightarrow> tid \<Rightarrow> system \<Rightarrow> (idle_result \<times> system) option" where
  "idle_free_stack hs tcb t c =
     (let ((s, h), g) = c in
      do { th \<leftarrow> threads s t;
           (r, c) \<leftarrow> rt_free hs (unat (stack_addr th)) (s, h);
           case r of Got _ \<Rightarrow> idle_delete hs tcb t (c, g) | Sleeps w \<Rightarrow> Some (Idle_sleeps (Stack_wait t w), c, g) })"

definition idle_after_sig :: "nat \<Rightarrow> (tid \<Rightarrow> nat) \<Rightarrow> tid \<Rightarrow> system \<Rightarrow> (idle_result \<times> system) option" where
  "idle_after_sig hs tcb t c =
     (let ((s, h), g) = c in
      do { sys \<leftarrow> rt_object_is_systemobject s (OThread t);
           s \<leftarrow> rt_exit_critical s;
           if sys then Some (Idle_return, (s, h), g) else idle_free_stack hs tcb t ((s, h), g) })"

definition idle_round ::
    "(nat \<Rightarrow> tid \<Rightarrow> system \<Rightarrow> system option) \<Rightarrow> nat \<Rightarrow> (tid \<Rightarrow> nat) \<Rightarrow> tid \<Rightarrow> system \<Rightarrow> (idle_result \<times> system) option" where
  "idle_round cl hs tcb t c =
     (let ((s, h), g) = c in
      do { not_in_interrupt s;
           let s = rt_enter_critical (s\<lparr>tlists := ls_remove t (tlists s)\<rparr>);
           th \<leftarrow> threads s t;
           c \<leftarrow> (case cleanup th of None \<Rightarrow> Some ((s, h), g) | Some k \<Rightarrow> cl k t ((s, h), g));
           (r, c) \<leftarrow> rt_thread_free_sig hs t c;
           case r of Got _ \<Rightarrow> idle_after_sig hs tcb t c | Sleeps w \<Rightarrow> Some (Idle_sleeps (Sig_wait t w), c) })"

partial_function (option) rt_thread_idle_excute ::
    "(nat \<Rightarrow> tid \<Rightarrow> system \<Rightarrow> system option) \<Rightarrow> nat \<Rightarrow> (tid \<Rightarrow> nat) \<Rightarrow> system \<Rightarrow> (idle_result \<times> system) option" where
  "rt_thread_idle_excute cl hs tcb c =
     (case tlists (fst (fst c)) Defunct of
        [] \<Rightarrow> Some (Idle_return, c)
      | t # _ \<Rightarrow> do { (r, c) \<leftarrow> idle_round cl hs tcb t c;
                     if r = Idle_more then rt_thread_idle_excute cl hs tcb c else Some (r, c) })"

text \<open>The rest of a round, and of the loop, after the wait.\<close>

definition rt_thread_idle_excute_resumed ::
    "(nat \<Rightarrow> tid \<Rightarrow> system \<Rightarrow> system option) \<Rightarrow> nat \<Rightarrow> (tid \<Rightarrow> nat) \<Rightarrow> idle_wait \<Rightarrow> system \<Rightarrow> (idle_result \<times> system) option" where
  "rt_thread_idle_excute_resumed cl hs tcb w c =
     do { (r, c) \<leftarrow> (case w of
              Sig_wait t w \<Rightarrow> do { (_, k) \<leftarrow> heap_resume hs w (fst c); idle_after_sig hs tcb t (k, snd c) }
            | Stack_wait t w \<Rightarrow> do { (_, k) \<leftarrow> heap_resume hs w (fst c); idle_delete hs tcb t (k, snd c) }
            | Tcb_wait w \<Rightarrow> do { (_, k) \<leftarrow> heap_resume hs w (fst c); Some (Idle_more, k, snd c) });
          if r = Idle_more then rt_thread_idle_excute cl hs tcb c else Some (r, c) }"

text \<open>One pass of the endless loop of the idle thread.\<close>

fun run_hooks :: "(nat \<Rightarrow> system \<Rightarrow> system option) \<Rightarrow> nat option list \<Rightarrow> system \<Rightarrow> system option" where
  "run_hooks hk [] c = Some c"
| "run_hooks hk (None # l) c = run_hooks hk l c"
| "run_hooks hk (Some k # l) c = do { c \<leftarrow> hk k c; run_hooks hk l c }"

definition idle_pass ::
    "(nat \<Rightarrow> system \<Rightarrow> system option) \<Rightarrow> (nat \<Rightarrow> tid \<Rightarrow> system \<Rightarrow> system option) \<Rightarrow> nat \<Rightarrow> (tid \<Rightarrow> nat) \<Rightarrow> nat option list \<Rightarrow>
     system \<Rightarrow> (idle_result \<times> system) option" where
  "idle_pass hk cl hs tcb hooks c = do { c \<leftarrow> run_hooks hk hooks c; rt_thread_idle_excute cl hs tcb c }"

text \<open>\<open>t\<close> and \<open>stack\<close> are the static variables, \<open>entry'\<close> and \<open>texit\<close> addresses of code.\<close>

definition rt_thread_idle_init :: "tid \<Rightarrow> u32 \<Rightarrow> u32 \<Rightarrow> u32 \<Rightarrow> kernel \<Rightarrow> kernel option" where
  "rt_thread_idle_init t entry' stack texit s =
     do { (_, s) \<leftarrow> rt_thread_init t [0x74, 0x69, 0x64, 0x6c, 0x65, 0] entry' 0 stack 256
                     (of_nat RT_THREAD_PRIORITY_MAX - 1) 32 texit s;
          (_, s) \<leftarrow> rt_thread_startup t s;
          Some s }"

section \<open>One thread\<close>

lemma unlocked_cong:
  assumes "unlocked s hs" "sems s' hs = sems s hs" "objects s' (OSem hs) = objects s (OSem hs)"
    "tlists s' (SuspendQ (OSem hs)) = tlists s (SuspendQ (OSem hs))" "rt_interrupt_nest s' = rt_interrupt_nest s"
  shows "unlocked s' hs"
  using assms by (simp add: unlocked_def sem_ok_def sem_abs_def)

lemma undefunct_wf:
  assumes wf: "kernel_wf s" and t: "t \<in> set (tlists s Defunct)"
  shows "kernel_wf (s\<lparr>tlists := ls_remove t (tlists s)\<rparr>)"
    and "\<exists>th. threads s t = Some th \<and> stat_of th = RT_THREAD_CLOSE"
    and "h \<noteq> Defunct \<Longrightarrow> ls_remove t (tlists s) h = tlists s h"
proof -
  have sw: "sched_wf s" using kernel_wfD(1) [OF wf] .
  obtain th where th: "threads s t = Some th" "stat_of th = RT_THREAD_CLOSE" using sched_wf_member [OF sw t] by auto
  then show "\<exists>th. threads s t = Some th \<and> stat_of th = RT_THREAD_CLOSE" by blast
  have off: "ls_remove t (tlists s) h = tlists s h" if "h \<noteq> Defunct" for h
    using lists_wf_same [OF sched_wf_lists [OF sw] t] that unfolding ls_remove_def by (metis removeAll_id)
  then show "h \<noteq> Defunct \<Longrightarrow> ls_remove t (tlists s) h = tlists s h" .
  have "sched_wf (s\<lparr>tlists := ls_remove t (tlists s)\<rparr>)"
    unfolding sched_wf_def
  proof (intro conjI allI impI)
    show "lists_wf (tlists (s\<lparr>tlists := ls_remove t (tlists s)\<rparr>))"
      using lists_wf_remove [OF sched_wf_lists [OF sw]] by simp
  qed (use sw off th in \<open>auto simp: sched_wf_def ls_remove_def split: if_splits\<close>)
  then show "kernel_wf (s\<lparr>tlists := ls_remove t (tlists s)\<rparr>)" by (rule kernel_wf_tlists [OF wf])
qed

lemma gone_wf:
  assumes wf: "kernel_wf s" and t: "threads s t = Some th" "stat_of th = RT_THREAD_CLOSE" and u: "unlinked t (tlists s)"
    and d: "rt_object_delete (OThread t) s = Some s'"
  shows "kernel_wf (s'\<lparr>threads := (threads s')(t := None)\<rparr>)"
proof -
  let ?n = "s'\<lparr>threads := (threads s')(t := None)\<rparr>"
  have s': "s' = s\<lparr>objects := (objects s)(OThread t := None), containers := ls_remove (OThread t) (containers s)\<rparr>"
    using d by (auto simp: rt_object_delete_def bind_Some_iff)
  have "sched_wf ?n"
    using kernel_wfD(1) [OF wf] u unfolding sched_wf_def s' by (auto simp: unlinked_def)
  moreover have "timers_wf ?n" by (rule timers_wf_cong [OF kernel_wfD(2) [OF wf]]) (simp_all add: s')
  moreover have "objects_wf ?n"
    using kernel_wfD(3) [OF wf] lists_wf_remove [of "containers s" "OThread t"]
    by (auto simp: objects_wf_def s' ls_remove_def split: if_splits)
  moreover have "threads_wf ?n"
    by (rule threads_wf_except [OF kernel_wfD(4) [OF wf], of t])
       (use t threads_wfD(2) [OF kernel_wfD(4) [OF wf], of t] in \<open>auto simp: s'\<close>)
  ultimately show ?thesis by (simp add: kernel_wf_def)
qed

text \<open>
  A thread the idle thread can take back: closed, allocated from the heap like its stack, with no cleanup function
  and no signals.
\<close>

definition reclaimable :: "(tid \<Rightarrow> nat) \<Rightarrow> system \<Rightarrow> tid \<Rightarrow> bool" where
  "reclaimable tcb c t \<longleftrightarrow>
     (let ((s, h), g) = c in
      \<exists>th. threads s t = Some th \<and> cleanup th = None \<and> rt_object_is_systemobject s (OThread t) = Some False \<and>
        si_list (thread_sigs g t) = Si_null \<and> sig_vectors (thread_sigs g t) = None \<and>
        unat (stack_addr th) \<in> fst ` out h \<and> tcb t \<in> fst ` out h)"

text \<open>The two addresses that are given back.\<close>

definition blocks_of :: "(tid \<Rightarrow> nat) \<Rightarrow> kernel \<Rightarrow> tid \<Rightarrow> nat list" where
  "blocks_of tcb s t = (case threads s t of None \<Rightarrow> [] | Some th \<Rightarrow> [unat (stack_addr th), tcb t])"

lemma rt_free_returns:
  assumes "unlocked s hs" "heap_ok h" "a \<in> fst ` out h"
  obtains h' where "rt_free hs a (s, h) = Some (Got None, s, h')" "heap_ok h'" "out h' = {b \<in> out h. fst b \<noteq> a}"
proof -
  obtain n where n: "(a, n) \<in> out h" using assms(3) by auto
  obtain h' where "heap_free a h = Some h'" "heap_ok h'" "out h' = {b \<in> out h. fst b \<noteq> a}"
    using heap_free_out [OF assms(2) n] .
  then show thesis using that rt_free_unlocked [OF assms(1,2) n] by simp
qed

lemma idle_round_reclaims:
  assumes wf: "kernel_wf s" and run: "runnable s" and q: "tlists s Defunct = t # ts" and r: "reclaimable tcb ((s, h), g) t"
    and lock: "rt_scheduler_lock_nest s = 0" and unl: "unlocked s hs" and ok: "heap_ok h"
    and d: "distinct (blocks_of tcb s t)"
  obtains s' h' g' where "idle_round cl hs tcb t ((s, h), g) = Some (Idle_more, (s', h'), g')"
    "kernel_wf s'" "runnable s'" "rt_scheduler_lock_nest s' = 0" "unlocked s' hs" "heap_ok h'"
    "tlists s' = ls_remove t (tlists s)" "tlists s' Defunct = ts"
    "threads s' = (threads s)(t := None)" "objects s' = (objects s)(OThread t := None)"
    "out h' = {b \<in> out h. fst b \<notin> set (blocks_of tcb s t)}"
    "\<forall>u. u \<noteq> t \<longrightarrow> thread_sigs g' u = thread_sigs g u"
proof -
  have dt: "t \<in> set (tlists s Defunct)" using q by simp
  note u = undefunct_wf [OF wf dt]
  obtain th where th: "threads s t = Some th" "stat_of th = RT_THREAD_CLOSE" using u(2) by blast
  have rc: "cleanup th = None" "rt_object_is_systemobject s (OThread t) = Some False"
    "si_list (thread_sigs g t) = Si_null" "sig_vectors (thread_sigs g t) = None"
    "unat (stack_addr th) \<in> fst ` out h" "tcb t \<in> fst ` out h"
    using r th(1) by (auto simp: reclaimable_def)
  have b: "blocks_of tcb s t = [unat (stack_addr th), tcb t]" using th(1) by (simp add: blocks_of_def)
  let ?u = "s\<lparr>tlists := ls_remove t (tlists s)\<rparr>"
  have ru: "runnable ?u" using run runnable_cong [of ?u s] by simp
  obtain s1 where s1: "rt_schedule ?u = Some s1" "kernel_wf s1" "same_rest ?u s1" "threads s1 = threads ?u"
    "tlists s1 = tlists ?u" "rt_timer_list s1 = rt_timer_list ?u" "timers s1 = timers ?u" "runnable s1"
    "rt_scheduler_lock_nest ?u = 0 \<longrightarrow> runs_highest s1" "cur_ok ?u \<longrightarrow> cur_ok s1"
    using schedule_ends [OF u(1) ru] .
  have o1: "objects s1 = objects s" using rt_schedule_core(5) [OF s1(1)] by simp
  have e: "?u\<lparr>rt_scheduler_lock_nest := 0\<rparr> = ?u" using lock by simp
  have exit: "rt_exit_critical (rt_enter_critical ?u) = Some s1"
    using lock s1(1) by (simp add: rt_exit_critical_def rt_enter_critical_def e)
  have unl1: "unlocked s1 hs"
    by (rule unlocked_cong [OF unl]) (use s1(5) u(3) o1 same_restD(1,8) [OF s1(3)] in auto)
  obtain h1 where h1: "rt_free hs (unat (stack_addr th)) (s1, h) = Some (Got None, s1, h1)" "heap_ok h1"
    "out h1 = {b \<in> out h. fst b \<noteq> unat (stack_addr th)}" using rt_free_returns [OF unl1 ok rc(5)] .
  obtain x where x: "objects s1 (OThread t) = Some x" "obj_type x AND RT_Object_Class_Static = 0"
    using rc(2) o1 by (auto simp: rt_object_is_systemobject_def bind_Some_iff)
  let ?d = "s1\<lparr>objects := (objects s1)(OThread t := None), containers := ls_remove (OThread t) (containers s1)\<rparr>"
  let ?n = "?d\<lparr>threads := (threads ?d)(t := None)\<rparr>"
  have del: "rt_object_delete (OThread t) s1 = Some ?d" using x by (simp add: rt_object_delete_def)
  have un: "unlinked t (tlists s1)" using s1(5) by (simp add: unlinked_def ls_remove_def)
  have nw: "kernel_wf ?n" using gone_wf [OF s1(2) _ th(2) un del] th(1) s1(4) by simp
  have unl2: "unlocked ?n hs" by (rule unlocked_cong [OF unl1]) simp_all
  have t2: "tcb t \<in> fst ` out h1" using rc(6) h1(3) d b by force
  obtain h2 where h2: "rt_free hs (tcb t) (?n, h1) = Some (Got None, ?n, h2)" "heap_ok h2"
    "out h2 = {b \<in> out h1. fst b \<noteq> tcb t}" using rt_free_returns [OF unl2 h1(2) t2] .
  let ?g = "upd_sig t (\<lambda>x. x\<lparr>si_list := Si_null, sig_vectors := None\<rparr>) g"
  have "idle_round cl hs tcb t ((s, h), g) = Some (Idle_more, (?n, h2), ?g)"
  proof -
    have "not_in_interrupt s = Some ()" using unl by (simp add: unlocked_def not_in_interrupt_def)
    moreover have "threads (rt_enter_critical ?u) t = Some th" using th(1) by (simp add: rt_enter_critical_def)
    moreover have "rt_thread_free_sig hs t ((rt_enter_critical ?u, h), g) = Some (Got None, (rt_enter_critical ?u, h), ?g)"
      using rc(3,4) by (simp add: rt_thread_free_sig_def Let_def)
    moreover have "rt_object_is_systemobject (rt_enter_critical ?u) (OThread t) = Some False"
      using rc(2) by (simp add: rt_object_is_systemobject_def rt_enter_critical_def)
    moreover have "threads s1 t = Some th" using s1(4) th(1) by simp
    ultimately show ?thesis
      using rc(1) exit h1(1) del h2(1) by (simp add: idle_round_def idle_after_sig_def idle_free_stack_def idle_delete_def Let_def)
  qed
  moreover have "runnable ?n"
  proof -
    obtain w wh where w: "threads s w = Some wh" "stat_of wh = RT_THREAD_READY" using run by (auto simp: runnable_def)
    then have "w \<noteq> t" using th by auto
    then show ?thesis using w s1(4) run by (auto simp: runnable_def stacks_ok_def)
  qed
  moreover have "rt_scheduler_lock_nest ?n = 0" using same_restD(9) [OF s1(3)] lock by simp
  moreover have "tlists ?n = ls_remove t (tlists s)" using s1(5) by simp
  moreover have "tlists ?n Defunct = ts"
    using s1(5) q removeAll_hd [OF sched_wf_lists [OF kernel_wfD(1) [OF wf]]] by (simp add: ls_remove_def)
  moreover have "threads ?n = (threads s)(t := None)" "objects ?n = (objects s)(OThread t := None)" using s1(4) o1 by simp_all
  moreover have "out h2 = {b \<in> out h. fst b \<notin> set (blocks_of tcb s t)}" unfolding h2(3) h1(3) b by auto
  ultimately show thesis using that [of ?n h2 ?g] nw unl2 h2(2) by simp
qed

text \<open>One after the other, as long as they come from the heap.\<close>

lemma idle_excute_none:
  "tlists (fst (fst c)) Defunct = [] \<Longrightarrow> rt_thread_idle_excute cl hs tcb c = Some (Idle_return, c)"
  by (subst rt_thread_idle_excute.simps) simp

lemma idle_excute_prefix:
  assumes "kernel_wf s" "runnable s" "rt_scheduler_lock_nest s = 0" "unlocked s hs" "heap_ok h"
    and "tlists s Defunct = ts @ rest" "\<forall>t\<in>set ts. reclaimable tcb ((s, h), g) t"
    and "distinct (concat (map (blocks_of tcb s) ts))"
  shows "\<exists>s' h' g'. rt_thread_idle_excute cl hs tcb ((s, h), g) = rt_thread_idle_excute cl hs tcb ((s', h'), g') \<and>
    kernel_wf s' \<and> heap_ok h' \<and> unlocked s' hs \<and> tlists s' Defunct = rest \<and>
    (\<forall>u. threads s' u = (if u \<in> set ts then None else threads s u)) \<and>
    out h' = {b \<in> out h. fst b \<notin> set (concat (map (blocks_of tcb s) ts))}"
  using assms
proof (induction ts arbitrary: s h g)
  case Nil
  then show ?case by (intro exI [of _ s] exI [of _ h] exI [of _ g]) simp
next
  case (Cons t ts)
  have q: "tlists s Defunct = t # ts @ rest" using Cons.prems(6) by simp
  have r: "reclaimable tcb ((s, h), g) t" and d: "distinct (blocks_of tcb s t)" using Cons.prems(7,8) by simp_all
  obtain s1 h1 g1 where r1: "idle_round cl hs tcb t ((s, h), g) = Some (Idle_more, (s1, h1), g1)"
    "kernel_wf s1" "runnable s1" "rt_scheduler_lock_nest s1 = 0" "unlocked s1 hs" "heap_ok h1"
    "tlists s1 = ls_remove t (tlists s)" "tlists s1 Defunct = ts @ rest"
    "threads s1 = (threads s)(t := None)" "objects s1 = (objects s)(OThread t := None)"
    "out h1 = {b \<in> out h. fst b \<notin> set (blocks_of tcb s t)}"
    "\<forall>u. u \<noteq> t \<longrightarrow> thread_sigs g1 u = thread_sigs g u"
    using idle_round_reclaims [OF Cons.prems(1,2) q r Cons.prems(3-5) d] .
  have t: "t \<notin> set ts" using lists_wf_distinct [OF sched_wf_lists [OF kernel_wfD(1) [OF Cons.prems(1)]], of Defunct] q by simp
  have same: "blocks_of tcb s1 u = blocks_of tcb s u" if "u \<noteq> t" for u using that r1(9) by (simp add: blocks_of_def)
  then have m: "map (blocks_of tcb s1) ts = map (blocks_of tcb s) ts" using t by (metis map_cong)
  have dis: "set (blocks_of tcb s u) \<inter> set (blocks_of tcb s t) = {}" if "u \<in> set ts" for u
    using Cons.prems(8) that by auto
  have "reclaimable tcb ((s1, h1), g1) u" if u: "u \<in> set ts" for u
  proof -
    have n: "u \<noteq> t" using u t by blast
    have "reclaimable tcb ((s, h), g) u" using Cons.prems(7) u by simp
    then obtain uh where uh: "threads s u = Some uh" "cleanup uh = None" "rt_object_is_systemobject s (OThread u) = Some False"
      "si_list (thread_sigs g u) = Si_null" "sig_vectors (thread_sigs g u) = None"
      "unat (stack_addr uh) \<in> fst ` out h" "tcb u \<in> fst ` out h"
      unfolding reclaimable_def Let_def prod.case by blast
    have still: "a \<in> fst ` out h1" if a: "a \<in> fst ` out h" "a \<in> {unat (stack_addr uh), tcb u}" for a
    proof -
      have "set (blocks_of tcb s u) = {unat (stack_addr uh), tcb u}" using uh(1) by (simp add: blocks_of_def)
      then have "a \<notin> set (blocks_of tcb s t)" using a(2) dis [OF u] by blast
      moreover obtain n where "(a, n) \<in> out h" using a(1) by auto
      ultimately have "(a, n) \<in> out h1" unfolding r1(11) by simp
      then show ?thesis by force
    qed
    show ?thesis using uh(1-5) n r1(9,10,12) still [OF uh(6)] still [OF uh(7)]
      by (simp add: reclaimable_def rt_object_is_systemobject_def)
  qed
  moreover have "distinct (concat (map (blocks_of tcb s1) ts))" unfolding m using Cons.prems(8) by simp
  ultimately obtain s' h' g' where ih: "rt_thread_idle_excute cl hs tcb ((s1, h1), g1) = rt_thread_idle_excute cl hs tcb ((s', h'), g')"
    "kernel_wf s'" "heap_ok h'" "unlocked s' hs" "tlists s' Defunct = rest"
    "\<forall>u. threads s' u = (if u \<in> set ts then None else threads s1 u)"
    "out h' = {b \<in> out h1. fst b \<notin> set (concat (map (blocks_of tcb s1) ts))}"
    using Cons.IH [of s1 h1 g1] r1(2-6,8) by auto
  have "rt_thread_idle_excute cl hs tcb ((s, h), g) = rt_thread_idle_excute cl hs tcb ((s', h'), g')"
    using q r1(1) ih(1) by (subst rt_thread_idle_excute.simps) simp
  moreover have "out h' = {b \<in> out h. fst b \<notin> set (concat (map (blocks_of tcb s) (t # ts)))}"
    unfolding ih(7) r1(11) m by auto
  ultimately show ?case using ih(2-6) r1(9) by (intro exI [of _ s'] exI [of _ h'] exI [of _ g']) auto
qed

lemma idle_excute_reclaims:
  assumes "kernel_wf s" "runnable s" "rt_scheduler_lock_nest s = 0" "unlocked s hs" "heap_ok h"
    and "\<forall>t\<in>set (tlists s Defunct). reclaimable tcb ((s, h), g) t"
    and "distinct (concat (map (blocks_of tcb s) (tlists s Defunct)))"
  shows "\<exists>s' h' g'. rt_thread_idle_excute cl hs tcb ((s, h), g) = Some (Idle_return, (s', h'), g') \<and>
    kernel_wf s' \<and> heap_ok h' \<and> unlocked s' hs \<and> tlists s' Defunct = [] \<and>
    (\<forall>u. threads s' u = (if u \<in> set (tlists s Defunct) then None else threads s u)) \<and>
    out h' = {b \<in> out h. fst b \<notin> set (concat (map (blocks_of tcb s) (tlists s Defunct)))}"
proof -
  obtain s' h' g' where i: "rt_thread_idle_excute cl hs tcb ((s, h), g) = rt_thread_idle_excute cl hs tcb ((s', h'), g')"
    "kernel_wf s'" "heap_ok h'" "unlocked s' hs" "tlists s' Defunct = []"
    "\<forall>u. threads s' u = (if u \<in> set (tlists s Defunct) then None else threads s u)"
    "out h' = {b \<in> out h. fst b \<notin> set (concat (map (blocks_of tcb s) (tlists s Defunct)))}"
    using idle_excute_prefix [OF assms(1-5) append_Nil2 [symmetric] assms(6,7), of cl] by blast
  then show ?thesis using idle_excute_none [of "((s', h'), g')"] by (intro exI [of _ s'] exI [of _ h'] exI [of _ g']) simp
qed

section \<open>Properties\<close>

text \<open>
  (C30) A call of \<^verbatim>\<open>rt_thread_idle_excute\<close> reclaims the threads at the front of the defunct list that were
  allocated from the heap and have no cleanup function and no signals, however many there are: the call goes on as it
  would from the state in which they are off the list and gone, exactly their stacks and control blocks are back in the
  heap, and the invariants of the kernel and of the heap hold. When no other thread is on the list the call returns
  there, with the list empty. (A static thread behind them ends the call; the threads behind it wait for the next one,
  see \<^verbatim>\<open>idle_stops_at_static\<close>.)
\<close>

theorem idle_reclaims:
  assumes "kernel_wf s" "runnable s" "rt_scheduler_lock_nest s = 0" "unlocked s hs" "heap_ok h"
    and "tlists s Defunct = ts @ rest" "\<forall>t\<in>set ts. reclaimable tcb ((s, h), g) t"
    and "distinct (concat (map (blocks_of tcb s) ts))"
  shows "\<exists>s' h' g'. rt_thread_idle_excute cl hs tcb ((s, h), g) = rt_thread_idle_excute cl hs tcb ((s', h'), g') \<and>
    (rest = [] \<longrightarrow> rt_thread_idle_excute cl hs tcb ((s, h), g) = Some (Idle_return, (s', h'), g')) \<and>
    kernel_wf s' \<and> heap_ok h' \<and> unlocked s' hs \<and> tlists s' Defunct = rest \<and>
    (\<forall>u. threads s' u = (if u \<in> set ts then None else threads s u)) \<and>
    out h' = {b \<in> out h. fst b \<notin> set (concat (map (blocks_of tcb s) ts))}"
proof -
  obtain s' h' g' where i: "rt_thread_idle_excute cl hs tcb ((s, h), g) = rt_thread_idle_excute cl hs tcb ((s', h'), g')"
    "kernel_wf s'" "heap_ok h'" "unlocked s' hs" "tlists s' Defunct = rest"
    "\<forall>u. threads s' u = (if u \<in> set ts then None else threads s u)"
    "out h' = {b \<in> out h. fst b \<notin> set (concat (map (blocks_of tcb s) ts))}"
    using idle_excute_prefix [OF assms] by blast
  then show ?thesis using idle_excute_none [of "((s', h'), g')"] by (intro exI [of _ s'] exI [of _ h'] exI [of _ g']) simp
qed

text \<open>
  (C31) Deleting a thread that was created gives its memory back: \<^verbatim>\<open>rt_thread_delete\<close> and
  the next run of the idle thread leave neither the thread nor its stack and control block.
\<close>

theorem deleted_thread_reclaimed:
  assumes "kernel_wf s" "threads s t = Some th" "stat_of th \<noteq> RT_THREAD_CLOSE" "cleanup th = None"
    and "rt_object_is_systemobject s (OThread t) = Some False" "tlists s Defunct = []"
    and "rt_scheduler_lock_nest s = 0" "unlocked s hs" "heap_ok h" "runnable_without t s"
    and "si_list (thread_sigs g t) = Si_null" "sig_vectors (thread_sigs g t) = None"
    and "unat (stack_addr th) \<in> fst ` out h" "tcb t \<in> fst ` out h" "unat (stack_addr th) \<noteq> tcb t"
  shows "\<exists>s1 s' h' g'. rt_thread_delete t s = Some (RT_EOK, s1) \<and>
    rt_thread_idle_excute cl hs tcb ((s1, h), g) = Some (Idle_return, (s', h'), g') \<and>
    kernel_wf s' \<and> heap_ok h' \<and> threads s' = (threads s)(t := None) \<and>
    out h' = {b \<in> out h. fst b \<noteq> unat (stack_addr th) \<and> fst b \<noteq> tcb t}"
proof -
  have obj: "thread_obj s t" using threads_wfD(1) [OF kernel_wfD(4) [OF assms(1)] assms(2,3)] .
  note c = closed_wf [OF assms(1-3)]
  let ?s = "(closed t th s)\<lparr>tlists := ls_insert_after Defunct t (tlists (closed t th s))\<rparr>"
  have s1: "rt_thread_delete t s = Some (RT_EOK, ?s)"
    using c(2) assms(5) thread_obj_check [OF obj] by (simp add: rt_thread_delete_def del: check_type_iff)
  have wf: "kernel_wf ?s"
    by (rule defunct_wf [OF c(1), of _ "th\<lparr>stat := RT_THREAD_CLOSE\<rparr>"]) simp_all
  have q: "tlists ?s Defunct = [t]" using assms(6) by (simp add: ls_insert_after_def ls_remove_def)
  have w: "ls_remove t (tlists s) (SuspendQ (OSem hs)) = tlists s (SuspendQ (OSem hs))"
    using assms(8) by (auto simp: unlocked_def sem_abs_def ls_remove_def)
  have unl: "unlocked ?s hs"
    by (rule unlocked_cong [OF assms(8)]) (use w in \<open>simp_all add: closed_def ls_insert_after_def\<close>)
  have run: "runnable ?s"
    using assms(10) by (auto simp: runnable_def runnable_without_def stacks_ok_def)
  have lock: "rt_scheduler_lock_nest ?s = 0" using assms(7) by (simp add: closed_def)
  have "rt_object_is_systemobject ?s (OThread t) = Some False"
    using assms(5) by (simp add: rt_object_is_systemobject_def closed_def)
  then have r: "\<forall>u\<in>set (tlists ?s Defunct). reclaimable tcb ((?s, h), g) u"
    unfolding q using assms(4,11-14) by (simp add: reclaimable_def)
  have "blocks_of tcb ?s t = [unat (stack_addr th), tcb t]" by (simp add: blocks_of_def)
  then have "distinct (concat (map (blocks_of tcb ?s) (tlists ?s Defunct)))" unfolding q using assms(15) by simp
  from idle_excute_reclaims [OF wf run lock unl assms(9) r this, of cl] obtain s' h' g' where
    i: "rt_thread_idle_excute cl hs tcb ((?s, h), g) = Some (Idle_return, (s', h'), g')" "kernel_wf s'" "heap_ok h'"
    "\<forall>u. threads s' u = (if u \<in> set [t] then None else threads ?s u)"
    "out h' = {x \<in> out h. fst x \<notin> set (concat (map (blocks_of tcb ?s) [t]))}" unfolding q by blast
  have "threads s' = (threads s)(t := None)" using i(4) by (auto simp: fun_eq_iff)
  moreover have "out h' = {x \<in> out h. fst x \<noteq> unat (stack_addr th) \<and> fst x \<noteq> tcb t}" unfolding i(5) by (simp add: blocks_of_def)
  ultimately show ?thesis using s1 i(1-3) by blast
qed

text \<open>
  A thread that is not from the heap ends the call: it is cleaned up and leaves the list, and the threads
  behind it stay there until the idle thread comes round again.
\<close>

theorem idle_stops_at_static:
  assumes "kernel_wf s" "runnable s" "rt_scheduler_lock_nest s = 0" "rt_interrupt_nest s = 0" "tlists s Defunct = t # ts"
    and "threads s t = Some th" "cleanup th = Some k" "\<forall>c. cl k t c = Some c"
    and "rt_object_is_systemobject s (OThread t) = Some True"
    and "si_list (thread_sigs g t) = Si_null" "sig_vectors (thread_sigs g t) = None"
  shows "\<exists>s' g'. rt_thread_idle_excute cl hs tcb ((s, h), g) = Some (Idle_return, (s', h), g') \<and> kernel_wf s' \<and>
    tlists s' Defunct = ts \<and> threads s' = threads s"
proof -
  have dt: "t \<in> set (tlists s Defunct)" using assms(5) by simp
  note u = undefunct_wf [OF assms(1) dt]
  let ?u = "s\<lparr>tlists := ls_remove t (tlists s)\<rparr>" and ?g = "upd_sig t (\<lambda>x. x\<lparr>si_list := Si_null, sig_vectors := None\<rparr>) g"
  have ru: "runnable ?u" using assms(2) runnable_cong [of ?u s] by simp
  obtain s' where s': "rt_schedule ?u = Some s'" "kernel_wf s'" "same_rest ?u s'" "threads s' = threads ?u"
    "tlists s' = tlists ?u" "rt_timer_list s' = rt_timer_list ?u" "timers s' = timers ?u" "runnable s'"
    "rt_scheduler_lock_nest ?u = 0 \<longrightarrow> runs_highest s'" "cur_ok ?u \<longrightarrow> cur_ok s'"
    using schedule_ends [OF u(1) ru] .
  have e: "?u\<lparr>rt_scheduler_lock_nest := 0\<rparr> = ?u" using assms(3) by simp
  have "rt_exit_critical (rt_enter_critical ?u) = Some s'"
    using assms(3) s'(1) by (simp add: rt_exit_critical_def rt_enter_critical_def e)
  moreover have "threads (rt_enter_critical ?u) t = Some th" "rt_object_is_systemobject (rt_enter_critical ?u) (OThread t) = Some True"
    using assms(6,9) by (simp_all add: rt_object_is_systemobject_def rt_enter_critical_def)
  ultimately have "idle_round cl hs tcb t ((s, h), g) = Some (Idle_return, (s', h), ?g)"
    using assms(4,7,8,10,11)
    by (simp add: idle_round_def idle_after_sig_def rt_thread_free_sig_def not_in_interrupt_def Let_def)
  then have "rt_thread_idle_excute cl hs tcb ((s, h), g) = Some (Idle_return, (s', h), ?g)"
    using assms(5) by (subst rt_thread_idle_excute.simps) simp
  moreover have "tlists s' Defunct = ts"
    using s'(5) assms(5) removeAll_hd [OF sched_wf_lists [OF kernel_wfD(1) [OF assms(1)]]] by (simp add: ls_remove_def)
  ultimately show ?thesis using s'(2,4) by (intro exI [of _ s'] exI [of _ ?g]) simp
qed

text \<open>
  (C32) Detaching a static thread that has a cleanup function brings the idle thread to a failed assertion:
  \<^verbatim>\<open>rt_thread_detach\<close> resets the object's type before it puts the thread on the defunct list, so the
  idle thread does not see a static object and frees a stack that is not from the heap.
\<close>

theorem detach_with_cleanup_frees_static:
  assumes "kernel_wf s" "threads s t = Some th" "stat_of th \<noteq> RT_THREAD_CLOSE" "cleanup th = Some k" "\<forall>c. cl k t c = Some c"
    and "rt_object_is_systemobject s (OThread t) = Some True" "tlists s Defunct = []"
    and "si_list (thread_sigs g t) = Si_null" "sig_vectors (thread_sigs g t) = None"
    and "stack_addr th \<noteq> 0" "unat (stack_addr th) < heap_ptr h \<or> heap_ptr h + heap_end h \<le> unat (stack_addr th)"
  shows "\<exists>s1. rt_thread_detach t s = Some (RT_EOK, s1) \<and> kernel_wf s1 \<and> tlists s1 Defunct = [t] \<and>
    rt_object_is_systemobject s1 (OThread t) = Some False \<and> rt_thread_idle_excute cl hs tcb ((s1, h), g) = None"
proof -
  obtain s1 where s1: "rt_thread_detach t s = Some (RT_EOK, s1)" "kernel_wf s1"
    "threads s1 = (threads s)(t \<mapsto> th\<lparr>stat := RT_THREAD_CLOSE\<rparr>)" "tlists s1 = ls_insert_after Defunct t (ls_remove t (tlists s))"
    using rt_thread_detach_closed [OF assms(1-3,6)] assms(4) by auto
  have sys: "rt_object_is_systemobject s1 (OThread t) = Some False"
    using s1(1) by (auto simp: rt_thread_detach_def bind_Some_iff rt_object_detach_def rt_object_is_systemobject_def)
  have q: "tlists s1 Defunct = [t]" using s1(4) assms(7) by (simp add: ls_insert_after_def ls_remove_def)
  let ?u = "rt_enter_critical (s1\<lparr>tlists := ls_remove t (tlists s1)\<rparr>)"
  let ?g = "upd_sig t (\<lambda>x. x\<lparr>si_list := Si_null, sig_vectors := None\<rparr>) g"
  have ut: "threads ?u t = Some (th\<lparr>stat := RT_THREAD_CLOSE\<rparr>)" using s1(3) by (simp add: rt_enter_critical_def)
  have fr: "rt_free hs (unat (stack_addr th)) (s2, h) = None" for s2
    using assms(10,11) by (auto simp: rt_free_def unsigned_eq_0_iff)
  have "idle_after_sig hs tcb t ((?u, h), ?g) = None"
  proof (cases "rt_exit_critical ?u")
    case (Some s2)
    then have "threads s2 = threads ?u"
      by (auto simp: rt_exit_critical_def Let_def dest!: rt_schedule_core(1) split: if_splits)
    then have "threads s2 t = Some (th\<lparr>stat := RT_THREAD_CLOSE\<rparr>)" using ut by simp
    then have "idle_free_stack hs tcb t ((s2, h), ?g) = None" using fr by (simp add: idle_free_stack_def)
    moreover have "rt_object_is_systemobject ?u (OThread t) = Some False"
      using sys by (simp add: rt_object_is_systemobject_def rt_enter_critical_def)
    ultimately show ?thesis using Some by (simp add: idle_after_sig_def)
  qed (simp add: idle_after_sig_def)
  then have "idle_round cl hs tcb t ((s1, h), g) = None"
    using ut assms(4,5,8,9) by (auto simp: idle_round_def rt_thread_free_sig_def Let_def)
  then have "rt_thread_idle_excute cl hs tcb ((s1, h), g) = None"
    using q by (subst rt_thread_idle_excute.simps) simp
  then show ?thesis using s1(1,2) q sys by blast
qed

section \<open>Witnesses\<close>

text \<open>A heap of two used blocks: the stack and the control block of a thread.\<close>

definition demo_heap2 :: heap where
  "demo_heap2 = \<lparr>heap_ptr = 0x1ffffff4, heap_end = 1024, lfree = 1024, mem_size_aligned = 1012, used_mem = 1024, max_mem = 1024,
     headers = (\<lambda>x. if x = 0 then \<lparr>hm_magic = HEAP_MAGIC, hm_used = 1, hm_next = 524, hm_prev = 0\<rparr>
                     else \<lparr>hm_magic = HEAP_MAGIC, hm_used = 1, hm_next = 1024, hm_prev = 0\<rparr>), heap_bytes = (\<lambda>_. 0)\<rparr>"

lemma demo_heap2_ok: "heap_ok demo_heap2" "0x20000000 \<in> fst ` out demo_heap2" "0x2000020c \<in> fst ` out demo_heap2"
proof -
  have wf: "heap_wf demo_heap2 [0, 524]" by (simp add: heap_wf_def demo_heap2_def is_free_def extent_def)
  moreover have "settled demo_heap2 [0, 524]" by (simp add: settled_def demo_heap2_def is_free_def)
  ultimately show "heap_ok demo_heap2" by (auto simp: heap_ok_def)
  have "out demo_heap2 = {(0x20000000, 512), (0x2000020c, 488)}"
    unfolding out_eq [OF wf] by (simp add: demo_heap2_def is_free_def extent_def data_at_def)
  then show "0x20000000 \<in> fst ` out demo_heap2" "0x2000020c \<in> fst ` out demo_heap2" by force+
qed

text \<open>Thread 4 is static or from the heap, with or without a cleanup function; the heap's semaphore is free.\<close>

definition demo_idle :: "bool \<Rightarrow> nat option \<Rightarrow> kernel" where
  "demo_idle st cu = upd_thread 4 (\<lambda>th. th\<lparr>cleanup := cu\<rparr>) ((demo_on (DriverQ 9 0) id)\<lparr>sems := [0 \<mapsto> \<lparr>sem_value = 1\<rparr>],
     objects := demo_objects(OThread 4 \<mapsto> \<lparr>obj_name = demo_name,
       obj_type = (if st then RT_Object_Class_Thread OR RT_Object_Class_Static else RT_Object_Class_Thread), obj_flag = 0\<rparr>)\<rparr>)"

abbreviation "demo4 cu \<equiv> (demo_thread 7 RT_THREAD_INIT)\<lparr>cleanup := cu\<rparr>"

abbreviation "demo_defunct st cu \<equiv> (closed 4 (demo4 cu) (demo_idle st cu))\<lparr>
  tlists := ls_insert_after Defunct 4 (tlists (closed 4 (demo4 cu) (demo_idle st cu)))\<rparr>"

definition demo_nosig :: sigs where
  "demo_nosig = \<lparr>thread_sigs = (\<lambda>_. fresh_sig), siginfo_nodes = Map.empty, siginfo_pool = 0\<rparr>"

definition demo_tcb :: "tid \<Rightarrow> nat" where
  "demo_tcb t = 0x2000020c"

lemma demo_idle_sel [simp]:
  "threads (demo_idle st cu) = (threads demo)(4 \<mapsto> demo4 cu)"
  "tlists (demo_idle st cu) = (tlists demo)(SuspendQ (OSem 0) := [], DriverQ 9 0 := [2])"
  "rt_scheduler_lock_nest (demo_idle st cu) = 0" "rt_interrupt_nest (demo_idle st cu) = 0"
  "sems (demo_idle st cu) = [0 \<mapsto> \<lparr>sem_value = 1\<rparr>]"
  "rt_object_is_systemobject (demo_idle st cu) (OThread 4) = Some st"
  by (auto simp: demo_idle_def upd_thread_def rt_object_is_systemobject_def)

lemma demo_idle_ok: "kernel_wf (demo_idle st cu)" "runnable_without 4 (demo_idle st cu)" "unlocked (demo_idle st cu) 0"
proof -
  let ?d = "(demo_on (DriverQ 9 0) id)\<lparr>sems := [0 \<mapsto> \<lparr>sem_value = 1\<rparr>],
     objects := demo_objects(OThread 4 \<mapsto> \<lparr>obj_name = demo_name,
       obj_type = (if st then RT_Object_Class_Thread OR RT_Object_Class_Static else RT_Object_Class_Thread), obj_flag = 0\<rparr>)\<rparr>"
  have w: "kernel_wf (demo_on (DriverQ 9 0) id)" by (rule demo_on_wf) simp_all
  have tm: "timers (demo_on (DriverQ 9 0) id) = demo_timers" by (simp add: demo_on_def upd_thread_def)
  have "sched_wf ?d" by (rule sched_wf_cong [OF kernel_wfD(1) [OF w]]) simp_all
  moreover have "timers_wf ?d" by (rule timers_wf_cong [OF kernel_wfD(2) [OF w]]) simp_all
  moreover have "containers ?d = containers demo" by (simp add: demo_on_def upd_thread_def)
  then have "objects_wf ?d"
    using kernel_wfD(3) [OF demo_wf] by (auto simp: objects_wf_def split: if_splits)
  moreover have "threads_wf ?d" by (rule threads_wf_except [OF kernel_wfD(4) [OF w], of 4]) (auto simp: thread_obj_def tm)
  ultimately have "kernel_wf ?d" by (simp add: kernel_wf_def)
  then show "kernel_wf (demo_idle st cu)"
    unfolding demo_idle_def by (rule kernel_wf_upd_thread) (simp add: sched_view_def stat_of_def mask_ok_def)
  show "runnable_without 4 (demo_idle st cu)"
  proof -
    have "stacks_ok demo" using demo_runnable(1) by (simp add: runnable_def)
    then have "stacks_ok (demo_idle st cu)"
      by (rule stacks_ok_upd [of demo 4 "demo_thread 7 RT_THREAD_INIT" _ "demo4 cu"])
         (simp_all add: rt_scheduler_stack_check_def stat_of_def)
    moreover have "threads (demo_idle st cu) 1 = Some (demo_thread 10 RT_THREAD_READY)" by simp
    moreover have "stat_of (demo_thread 10 RT_THREAD_READY) = RT_THREAD_READY" by simp
    ultimately show ?thesis unfolding runnable_without_def by (intro conjI exI [of _ 1]) auto
  qed
  show "unlocked (demo_idle st cu) 0"
    by (simp add: unlocked_def sem_ok_def sem_abs_def) (simp add: demo_idle_def upd_thread_def)
qed

lemma demo_defunct_ok: "kernel_wf (demo_defunct st cu)" "runnable (demo_defunct st cu)" "unlocked (demo_defunct st cu) 0"
  "tlists (demo_defunct st cu) Defunct = [4]" "threads (demo_defunct st cu) 4 = Some ((demo4 cu)\<lparr>stat := RT_THREAD_CLOSE\<rparr>)"
  "rt_scheduler_lock_nest (demo_defunct st cu) = 0" "rt_object_is_systemobject (demo_defunct st cu) (OThread 4) = Some st"
proof -
  have t: "threads (demo_idle st cu) 4 = Some (demo4 cu)" "stat_of (demo4 cu) \<noteq> RT_THREAD_CLOSE" by (simp_all add: stat_of_def demo_thread_def)
  note c = closed_wf [OF demo_idle_ok(1) t]
  show "kernel_wf (demo_defunct st cu)"
    by (rule defunct_wf [OF c(1), of _ "(demo4 cu)\<lparr>stat := RT_THREAD_CLOSE\<rparr>"]) simp_all
  show "runnable (demo_defunct st cu)"
    using demo_idle_ok(2) [where st = st and cu = cu] by (auto simp: runnable_def runnable_without_def stacks_ok_def)
  show "unlocked (demo_defunct st cu) 0"
    by (rule unlocked_cong [OF demo_idle_ok(3)]) (simp_all add: closed_def ls_insert_after_def ls_remove_def)
  show "rt_object_is_systemobject (demo_defunct st cu) (OThread 4) = Some st"
    using demo_idle_sel(6) [where st = st and cu = cu] by (simp add: rt_object_is_systemobject_def closed_def del: demo_idle_sel)
qed (simp_all add: closed_def ls_insert_after_def ls_remove_def)

lemma demo_nosig_sel [simp]: "si_list (thread_sigs demo_nosig t) = Si_null" "sig_vectors (thread_sigs demo_nosig t) = None"
  by (simp_all add: demo_nosig_def fresh_sig_def)

theorem idle_reclaims_witness:
  "\<exists>s' h' g'. rt_thread_idle_excute (\<lambda>_ _ _. None) 0 demo_tcb ((demo_defunct False None, demo_heap2), demo_nosig) =
     Some (Idle_return, (s', h'), g') \<and> threads s' 4 = None \<and> 0x20000000 \<notin> fst ` out h'"
proof -
  note d = demo_defunct_ok [where st = False and cu = None]
  have "reclaimable demo_tcb ((demo_defunct False None, demo_heap2), demo_nosig) 4"
    using d(5,7) demo_heap2_ok(2,3) by (simp add: reclaimable_def demo_tcb_def demo_thread_def)
  moreover have b: "blocks_of demo_tcb (demo_defunct False None) 4 = [0x20000000, 0x2000020c]"
    using d(5) by (simp add: blocks_of_def demo_tcb_def demo_thread_def)
  ultimately have "\<forall>t\<in>set [4]. reclaimable demo_tcb ((demo_defunct False None, demo_heap2), demo_nosig) t"
    "distinct (concat (map (blocks_of demo_tcb (demo_defunct False None)) [4]))"
    by simp_all
  moreover have "tlists (demo_defunct False None) Defunct = [4] @ []" using d(4) by simp
  ultimately show ?thesis
    using idle_reclaims [OF d(1,2,6,3) demo_heap2_ok(1), of "[4]" "[]" demo_tcb demo_nosig "\<lambda>_ _ _. None"] b by force
qed

theorem deleted_thread_reclaimed_witness:
  "\<exists>s1 s' h' g'. rt_thread_delete 4 (demo_idle False None) = Some (RT_EOK, s1) \<and>
     rt_thread_idle_excute (\<lambda>_ _ _. None) 0 demo_tcb ((s1, demo_heap2), demo_nosig) = Some (Idle_return, (s', h'), g') \<and>
     threads s' 4 = None"
proof -
  have "threads (demo_idle False None) 4 = Some (demo4 None)" "stat_of (demo4 None) \<noteq> RT_THREAD_CLOSE" "cleanup (demo4 None) = None"
    "rt_object_is_systemobject (demo_idle False None) (OThread 4) = Some False" "tlists (demo_idle False None) Defunct = []"
    "rt_scheduler_lock_nest (demo_idle False None) = 0"
    by (simp_all add: stat_of_def demo_thread_def)
  from deleted_thread_reclaimed [OF demo_idle_ok(1) this demo_idle_ok(3) demo_heap2_ok(1) demo_idle_ok(2),
      of demo_nosig demo_tcb "\<lambda>_ _ _. None"] demo_heap2_ok(2,3)
  show ?thesis by (auto simp: demo_tcb_def demo_thread_def)
qed

theorem idle_stops_at_static_witness:
  "\<exists>s' g'. rt_thread_idle_excute (\<lambda>_ _. Some) 0 demo_tcb ((demo_defunct True (Some 0), demo_heap2), demo_nosig) =
     Some (Idle_return, (s', demo_heap2), g') \<and> tlists s' Defunct = []"
proof -
  note d = demo_defunct_ok [where st = True and cu = "Some 0"]
  have "rt_interrupt_nest (demo_defunct True (Some 0)) = 0" using d(3) by (simp add: unlocked_def)
  from idle_stops_at_static [OF d(1,2,6) this d(4,5), of 0 "\<lambda>_ _. Some" demo_nosig 0 demo_tcb demo_heap2] d(7)
  show ?thesis by auto
qed

theorem detach_with_cleanup_frees_static_witness:
  "\<exists>s1. rt_thread_detach 4 (demo_idle True (Some 0)) = Some (RT_EOK, s1) \<and>
     rt_thread_idle_excute (\<lambda>_ _. Some) 0 demo_tcb ((s1, demo_heap\<lparr>heap_ptr := 0x20001000\<rparr>), demo_nosig) = None"
proof -
  have "threads (demo_idle True (Some 0)) 4 = Some (demo4 (Some 0))" "stat_of (demo4 (Some 0)) \<noteq> RT_THREAD_CLOSE"
    "cleanup (demo4 (Some 0)) = Some 0" "\<forall>c. (\<lambda>_ _. Some) (0 :: nat) (4 :: nat) c = Some (c :: system)"
    "rt_object_is_systemobject (demo_idle True (Some 0)) (OThread 4) = Some True" "tlists (demo_idle True (Some 0)) Defunct = []"
    by (simp_all add: stat_of_def demo_thread_def)
  from detach_with_cleanup_frees_static [OF demo_idle_ok(1) this, of demo_nosig "demo_heap\<lparr>heap_ptr := 0x20001000\<rparr>" 0 demo_tcb]
  show ?thesis by (auto simp: demo_thread_def)
qed

end
