(* ===== verification/MemHeap.thy ===== *)
theory MemHeap
  imports MemAlloc
begin

text \<open>
  Heaps of several regions (\<^verbatim>\<open>src/memheap.c\<close>): the blocks of a region form a ring in
  the order of their addresses, closed by a used block of length zero, and its free blocks a second ring
  through a header inside the \<^verbatim>\<open>struct rt_memheap\<close>. This theory has the sections that run under
  the lock of a heap and what they do to the two rings.

  A heap is named by the address of its structure. Addresses are naturals below \<open>2 ^ 32\<close>
  (\<open>add32\<close>, \<open>sub32\<close>), \<^verbatim>\<open>RT_NULL\<close> is 0; \<open>items\<close> is the memory read as
  \<^verbatim>\<open>struct rt_memheap_item\<close>, \<open>mh_bytes\<close> the memory between the items.
\<close>

section \<open>The code\<close>

abbreviation (input) RT_MEMHEAP_MAGIC :: u32 where "RT_MEMHEAP_MAGIC \<equiv> 0x1ea01ea0"
abbreviation (input) RT_MEMHEAP_MASK :: u32 where "RT_MEMHEAP_MASK \<equiv> 0xfffffffe"
abbreviation (input) RT_MEMHEAP_USED :: u32 where "RT_MEMHEAP_USED \<equiv> 1"
abbreviation (input) RT_MEMHEAP_MINIALLOC :: nat where "RT_MEMHEAP_MINIALLOC \<equiv> 12"
abbreviation (input) RT_MEMHEAP_SIZE :: nat where "RT_MEMHEAP_SIZE \<equiv> 24"

record rt_memheap_item =
  mi_magic :: u32
  mi_pool_ptr :: nat
  mi_next :: nat
  mi_prev :: nat
  mi_next_free :: nat
  mi_prev_free :: nat

record rt_memheap =
  start_addr :: nat
  pool_size :: nat
  available_size :: nat
  max_used_size :: nat
  mh_block_list :: nat
  mh_free_list :: nat

record mh_memory =
  memheaps :: "nat \<Rightarrow> rt_memheap option"
  items :: "nat \<Rightarrow> rt_memheap_item"
  mh_bytes :: "nat \<Rightarrow> u8"

text \<open>The offsets of \<^verbatim>\<open>free_header\<close> and \<^verbatim>\<open>lock\<close> in \<^verbatim>\<open>struct rt_memheap\<close>.\<close>

definition free_header :: "nat \<Rightarrow> nat" where "free_header p = p + 44"
definition memheap_lock :: "nat \<Rightarrow> nat" where "memheap_lock p = p + 68"

definition set_item :: "nat \<Rightarrow> (rt_memheap_item \<Rightarrow> rt_memheap_item) \<Rightarrow> mh_memory \<Rightarrow> mh_memory" where
  "set_item a f m = m\<lparr>items := (items m)(a := f (items m a))\<rparr>"

definition set_memheap :: "nat \<Rightarrow> (rt_memheap \<Rightarrow> rt_memheap) \<Rightarrow> mh_memory \<Rightarrow> mh_memory" where
  "set_memheap p f m = m\<lparr>memheaps := (memheaps m)(p := map_option f (memheaps m p))\<rparr>"

definition RT_MEMHEAP_IS_USED :: "nat \<Rightarrow> mh_memory \<Rightarrow> bool" where
  "RT_MEMHEAP_IS_USED i m \<longleftrightarrow> mi_magic (items m i) AND RT_MEMHEAP_USED \<noteq> 0"

definition MEMITEM_SIZE :: "nat \<Rightarrow> mh_memory \<Rightarrow> nat" where
  "MEMITEM_SIZE i m = sub32 (sub32 (mi_next (items m i)) i) RT_MEMHEAP_SIZE"

text \<open>The pieces the routines share: links of the free ring, links of the ring of blocks, the counters.\<close>

definition free_insert :: "nat \<Rightarrow> nat \<Rightarrow> mh_memory \<Rightarrow> mh_memory" where
  "free_insert l i m =
     (let m = set_item i (\<lambda>x. x\<lparr>mi_next_free := mi_next_free (items m l)\<rparr>) m;
          m = set_item i (\<lambda>x. x\<lparr>mi_prev_free := l\<rparr>) m;
          m = set_item (mi_next_free (items m l)) (\<lambda>x. x\<lparr>mi_prev_free := i\<rparr>) m
      in set_item l (\<lambda>x. x\<lparr>mi_next_free := i\<rparr>) m)"

definition free_unlink :: "nat \<Rightarrow> mh_memory \<Rightarrow> mh_memory" where
  "free_unlink i m =
     (let m = set_item (mi_next_free (items m i)) (\<lambda>x. x\<lparr>mi_prev_free := mi_prev_free (items m i)\<rparr>) m
      in set_item (mi_prev_free (items m i)) (\<lambda>x. x\<lparr>mi_next_free := mi_next_free (items m i)\<rparr>) m)"

definition free_clear :: "nat \<Rightarrow> mh_memory \<Rightarrow> mh_memory" where
  "free_clear i m = set_item i (\<lambda>x. x\<lparr>mi_prev_free := 0\<rparr>) (set_item i (\<lambda>x. x\<lparr>mi_next_free := 0\<rparr>) m)"

definition mark_used :: "nat \<Rightarrow> mh_memory \<Rightarrow> mh_memory" where
  "mark_used i = set_item i (\<lambda>x. x\<lparr>mi_magic := mi_magic x OR RT_MEMHEAP_USED\<rparr>)"

definition mark_free :: "nat \<Rightarrow> mh_memory \<Rightarrow> mh_memory" where
  "mark_free i = set_item i (\<lambda>x. x\<lparr>mi_magic := mi_magic x AND NOT RT_MEMHEAP_USED\<rparr>)"

text \<open>A new block \<open>n\<close> of heap \<open>p\<close> behind block \<open>i\<close>.\<close>

definition block_split :: "nat \<Rightarrow> nat \<Rightarrow> nat \<Rightarrow> mh_memory \<Rightarrow> mh_memory" where
  "block_split p i n m =
     (let m = set_item n (\<lambda>x. x\<lparr>mi_magic := RT_MEMHEAP_MAGIC\<rparr>) m;
          m = set_item n (\<lambda>x. x\<lparr>mi_pool_ptr := p\<rparr>) m;
          m = set_item n (\<lambda>x. x\<lparr>mi_prev := i\<rparr>) m;
          m = set_item n (\<lambda>x. x\<lparr>mi_next := mi_next (items m i)\<rparr>) m;
          m = set_item (mi_next (items m i)) (\<lambda>x. x\<lparr>mi_prev := n\<rparr>) m
      in set_item i (\<lambda>x. x\<lparr>mi_next := n\<rparr>) m)"

text \<open>The block behind \<open>i\<close> becomes a part of \<open>i\<close>.\<close>

definition block_join :: "nat \<Rightarrow> mh_memory \<Rightarrow> mh_memory" where
  "block_join i m =
     (let n = mi_next (items m i);
          m = set_item (mi_next (items m n)) (\<lambda>x. x\<lparr>mi_prev := i\<rparr>) m
      in set_item i (\<lambda>x. x\<lparr>mi_next := mi_next (items m n)\<rparr>) m)"

definition block_unlink :: "nat \<Rightarrow> mh_memory \<Rightarrow> mh_memory" where
  "block_unlink i m =
     (let m = set_item (mi_next (items m i)) (\<lambda>x. x\<lparr>mi_prev := mi_prev (items m i)\<rparr>) m
      in set_item (mi_prev (items m i)) (\<lambda>x. x\<lparr>mi_next := mi_next (items m i)\<rparr>) m)"

text \<open>The block in front of \<open>i\<close> takes it in.\<close>

definition block_bypass :: "nat \<Rightarrow> mh_memory \<Rightarrow> mh_memory" where
  "block_bypass i m =
     (let m = set_item (mi_prev (items m i)) (\<lambda>x. x\<lparr>mi_next := mi_next (items m i)\<rparr>) m
      in set_item (mi_next (items m i)) (\<lambda>x. x\<lparr>mi_prev := mi_prev (items m i)\<rparr>) m)"

definition avail_add :: "nat \<Rightarrow> nat \<Rightarrow> mh_memory \<Rightarrow> mh_memory" where
  "avail_add p n = set_memheap p (\<lambda>h. h\<lparr>available_size := add32 (available_size h) n\<rparr>)"

definition avail_sub :: "nat \<Rightarrow> nat \<Rightarrow> mh_memory \<Rightarrow> mh_memory" where
  "avail_sub p n = set_memheap p (\<lambda>h. h\<lparr>available_size := sub32 (available_size h) n\<rparr>)"

definition note_max :: "nat \<Rightarrow> mh_memory \<Rightarrow> mh_memory" where
  "note_max p = set_memheap p (\<lambda>h.
     if sub32 (pool_size h) (available_size h) > max_used_size h
     then h\<lparr>max_used_size := sub32 (pool_size h) (available_size h)\<rparr> else h)"

text \<open>\<^verbatim>\<open>rt_memheap_init\<close> lays out the region \<open>a\<close> of \<open>n\<close> bytes.\<close>

definition memheap_layout :: "nat \<Rightarrow> nat \<Rightarrow> u32 \<Rightarrow> mh_memory \<Rightarrow> mh_memory" where
  "memheap_layout p a n m =
     (let l = free_header p;
          pool = unat (RT_ALIGN_DOWN n 4);
          avail = sub32 pool (2 * RT_MEMHEAP_SIZE);
          m = m\<lparr>memheaps := (memheaps m)(p \<mapsto>
                \<lparr>start_addr = a, pool_size = pool, available_size = avail, max_used_size = sub32 pool avail,
                 mh_block_list = 0, mh_free_list = l\<rparr>)\<rparr>;
          m = set_item l (\<lambda>_. \<lparr>mi_magic = RT_MEMHEAP_MAGIC, mi_pool_ptr = p, mi_next = 0, mi_prev = 0,
                              mi_next_free = l, mi_prev_free = l\<rparr>) m;
          t = add32 (add32 a avail) RT_MEMHEAP_SIZE;
          m = set_item a (\<lambda>_. \<lparr>mi_magic = RT_MEMHEAP_MAGIC, mi_pool_ptr = p, mi_next = t, mi_prev = t,
                              mi_next_free = a, mi_prev_free = a\<rparr>) m;
          m = set_memheap p (\<lambda>h. h\<lparr>mh_block_list := a\<rparr>) m;
          m = free_insert l a m
      in set_item t (\<lambda>_. \<lparr>mi_magic = RT_MEMHEAP_MAGIC OR RT_MEMHEAP_USED, mi_pool_ptr = p, mi_next = a, mi_prev = a,
                          mi_next_free = 0, mi_prev_free = 0\<rparr>) m)"

text \<open>The search of \<^verbatim>\<open>rt_memheap_alloc\<close>: the item it stops at and the last size it read.\<close>

partial_function (option) memheap_find :: "nat \<Rightarrow> nat \<Rightarrow> nat \<Rightarrow> nat \<Rightarrow> mh_memory \<Rightarrow> (nat \<times> nat) option" where
  "memheap_find l sz i free_size m =
     (if i \<noteq> l \<and> free_size < sz
      then if MEMITEM_SIZE i m < sz
           then memheap_find l sz (mi_next_free (items m i)) (MEMITEM_SIZE i m) m
           else memheap_find l sz i (MEMITEM_SIZE i m) m
      else Some (i, free_size))"

definition memheap_carve :: "nat \<Rightarrow> nat \<Rightarrow> nat \<Rightarrow> nat \<Rightarrow> nat \<Rightarrow> mh_memory \<Rightarrow> mh_memory" where
  "memheap_carve p l sz i free_size m =
     (let m = (if free_size \<ge> add32 sz (RT_MEMHEAP_SIZE + RT_MEMHEAP_MINIALLOC)
               then let n = add32 i (sz + RT_MEMHEAP_SIZE);
                        m = block_split p i n m;
                        m = free_clear i (free_unlink i m);
                        m = free_insert l n m
                    in note_max p (avail_sub p RT_MEMHEAP_SIZE (avail_sub p sz m))
               else let m = note_max p (avail_sub p free_size m)
                    in free_clear i (free_unlink i m))
      in mark_used i m)"

definition memheap_take :: "nat \<Rightarrow> nat \<Rightarrow> mh_memory \<Rightarrow> (nat option \<times> mh_memory) option" where
  "memheap_take p sz m =
     do { h \<leftarrow> memheaps m p;
          let l = mh_free_list h;
          (i, free_size) \<leftarrow> memheap_find l sz (mi_next_free (items m l)) 0 m;
          Some (if free_size \<ge> sz
                then (Some (add32 i RT_MEMHEAP_SIZE), memheap_carve p l sz i free_size m)
                else (None, m)) }"

text \<open>The checks of \<^verbatim>\<open>rt_memheap_free\<close> and its section.\<close>

definition memheap_checks :: "nat \<Rightarrow> mh_memory \<Rightarrow> unit option" where
  "memheap_checks i m =
     do { rt_assert (mi_magic (items m i) AND RT_MEMHEAP_MASK = RT_MEMHEAP_MAGIC);
          rt_assert (mi_magic (items m i) AND RT_MEMHEAP_USED \<noteq> 0);
          rt_assert (mi_magic (items m (mi_next (items m i))) AND RT_MEMHEAP_MASK = RT_MEMHEAP_MAGIC);
          rt_assert (mi_pool_ptr (items m i) \<noteq> 0) }"

definition memheap_give :: "nat \<Rightarrow> nat \<Rightarrow> mh_memory \<Rightarrow> mh_memory option" where
  "memheap_give p i m =
     do { h \<leftarrow> memheaps m p;
          let l = mh_free_list h;
          let m = mark_free i m;
          let m = avail_add p (MEMITEM_SIZE i m) m;
          let left = \<not> RT_MEMHEAP_IS_USED (mi_prev (items m i)) m;
          let (i, m) = (if left
                        then let m = block_bypass i (avail_add p RT_MEMHEAP_SIZE m)
                             in (mi_prev (items m i), m)
                        else (i, m));
          let m = (if \<not> RT_MEMHEAP_IS_USED (mi_next (items m i)) m
                   then let m = avail_add p RT_MEMHEAP_SIZE m;
                            n = mi_next (items m i)
                        in free_unlink n (block_join i m)
                   else m);
          Some (if left then m else free_insert l i m) }"

text \<open>\<^verbatim>\<open>rt_memheap_realloc\<close>: growing into the free block behind, and shrinking.\<close>

definition memheap_grow :: "nat \<Rightarrow> nat \<Rightarrow> nat \<Rightarrow> nat \<Rightarrow> mh_memory \<Rightarrow> (bool \<times> mh_memory) option" where
  "memheap_grow p i oldsize newsize m =
     do { h \<leftarrow> memheaps m p;
          let l = mh_free_list h;
          let n = mi_next (items m i);
          rt_assert (n > i);
          if \<not> RT_MEMHEAP_IS_USED n m \<and> add32 (MEMITEM_SIZE n m) oldsize > add32 newsize RT_MEMHEAP_MINIALLOC
          then do { let m = note_max p (avail_sub p (sub32 newsize oldsize) m);
                    let m = block_unlink n (free_unlink n m);
                    let n = add32 (add32 i RT_MEMHEAP_SIZE) newsize;
                    let m = block_split p i n m;
                    Some (True, free_insert l n m) }
          else Some (False, m) }"

definition memheap_shrink :: "nat \<Rightarrow> nat \<Rightarrow> nat \<Rightarrow> mh_memory \<Rightarrow> mh_memory option" where
  "memheap_shrink p i newsize m =
     do { h \<leftarrow> memheaps m p;
          let l = mh_free_list h;
          let n = add32 (add32 i newsize) RT_MEMHEAP_SIZE;
          let m = block_split p i n m;
          let m = (if \<not> RT_MEMHEAP_IS_USED (mi_next (items m n)) m
                   then let f = mi_next (items m n);
                            m = avail_sub p (MEMITEM_SIZE f m) m
                        in free_unlink f (block_join n m)
                   else m);
          let m = free_insert l n m;
          Some (avail_add p (MEMITEM_SIZE n m) m) }"

text \<open>The size that is searched for.\<close>

definition memheap_size :: "u32 \<Rightarrow> nat" where
  "memheap_size sz =
     (let n = unat (RT_ALIGN sz 4) in if n < RT_MEMHEAP_MINIALLOC then RT_MEMHEAP_MINIALLOC else n)"

section \<open>The two rings\<close>

definition block_ring :: "mh_memory \<Rightarrow> list_heap" where
  "block_ring m = \<lparr>nxt = \<lambda>a. mi_next (items m a), prv = \<lambda>a. mi_prev (items m a)\<rparr>"

definition free_ring :: "mh_memory \<Rightarrow> list_heap" where
  "free_ring m = \<lparr>nxt = \<lambda>a. mi_next_free (items m a), prv = \<lambda>a. mi_prev_free (items m a)\<rparr>"

abbreviation magic_of :: "mh_memory \<Rightarrow> nat \<Rightarrow> u32" where "magic_of m a \<equiv> mi_magic (items m a)"
abbreviation pool_of :: "mh_memory \<Rightarrow> nat \<Rightarrow> nat" where "pool_of m a \<equiv> mi_pool_ptr (items m a)"

lemma ring_sel [simp]:
  "nxt (block_ring m) a = mi_next (items m a)" "prv (block_ring m) a = mi_prev (items m a)"
  "nxt (free_ring m) a = mi_next_free (items m a)" "prv (free_ring m) a = mi_prev_free (items m a)"
  by (simp_all add: block_ring_def free_ring_def)

lemma list_heap_eqI: "\<lbrakk>\<And>a. nxt g a = nxt h a; \<And>a. prv g a = prv h a\<rbrakk> \<Longrightarrow> g = (h :: list_heap)"
  by (cases g; cases h) auto

lemma set_item_sel [simp]:
  "items (set_item a f m) = (items m)(a := f (items m a))" "memheaps (set_item a f m) = memheaps m"
  "mh_bytes (set_item a f m) = mh_bytes m"
  by (simp_all add: set_item_def)

lemma set_memheap_sel [simp]:
  "items (set_memheap p f m) = items m" "memheaps (set_memheap p f m) = (memheaps m)(p := map_option f (memheaps m p))"
  "mh_bytes (set_memheap p f m) = mh_bytes m"
  by (simp_all add: set_memheap_def)

text \<open>What each piece leaves alone.\<close>

lemma free_pieces [simp]:
  "memheaps (free_insert l i m) = memheaps m" "memheaps (free_unlink i m) = memheaps m" "memheaps (free_clear i m) = memheaps m"
  "mh_bytes (free_insert l i m) = mh_bytes m" "mh_bytes (free_unlink i m) = mh_bytes m" "mh_bytes (free_clear i m) = mh_bytes m"
  "block_ring (free_insert l i m) = block_ring m" "block_ring (free_unlink i m) = block_ring m" "block_ring (free_clear i m) = block_ring m"
  "magic_of (free_insert l i m) a = magic_of m a" "magic_of (free_unlink i m) a = magic_of m a" "magic_of (free_clear i m) a = magic_of m a"
  "pool_of (free_insert l i m) a = pool_of m a" "pool_of (free_unlink i m) a = pool_of m a" "pool_of (free_clear i m) a = pool_of m a"
  by (auto simp: free_insert_def free_unlink_def free_clear_def Let_def intro!: list_heap_eqI)

lemma block_pieces [simp]:
  "memheaps (block_split p i n m) = memheaps m" "memheaps (block_join i m) = memheaps m"
  "memheaps (block_unlink i m) = memheaps m" "memheaps (block_bypass i m) = memheaps m"
  "mh_bytes (block_split p i n m) = mh_bytes m" "mh_bytes (block_join i m) = mh_bytes m"
  "mh_bytes (block_unlink i m) = mh_bytes m" "mh_bytes (block_bypass i m) = mh_bytes m"
  "free_ring (block_split p i n m) = free_ring m" "free_ring (block_join i m) = free_ring m"
  "free_ring (block_unlink i m) = free_ring m" "free_ring (block_bypass i m) = free_ring m"
  "magic_of (block_join i m) a = magic_of m a" "magic_of (block_unlink i m) a = magic_of m a" "magic_of (block_bypass i m) a = magic_of m a"
  "pool_of (block_join i m) a = pool_of m a" "pool_of (block_unlink i m) a = pool_of m a" "pool_of (block_bypass i m) a = pool_of m a"
  "magic_of (block_split p i n m) a = (if a = n then RT_MEMHEAP_MAGIC else magic_of m a)"
  "pool_of (block_split p i n m) a = (if a = n then p else pool_of m a)"
  by (auto simp: block_split_def block_join_def block_unlink_def block_bypass_def Let_def intro!: list_heap_eqI)

lemma counter_pieces [simp]:
  "items (avail_add p n m) = items m" "items (avail_sub p n m) = items m" "items (note_max p m) = items m"
  "mh_bytes (avail_add p n m) = mh_bytes m" "mh_bytes (avail_sub p n m) = mh_bytes m" "mh_bytes (note_max p m) = mh_bytes m"
  by (simp_all add: avail_add_def avail_sub_def note_max_def)

lemma ring_cong: "items m' = items m \<Longrightarrow> block_ring m' = block_ring m \<and> free_ring m' = free_ring m"
  by (simp add: block_ring_def free_ring_def)

lemma magic_rings [simp]:
  "block_ring (set_item a (\<lambda>x. x\<lparr>mi_magic := f x\<rparr>) m) = block_ring m" "free_ring (set_item a (\<lambda>x. x\<lparr>mi_magic := f x\<rparr>) m) = free_ring m"
  by (auto intro!: list_heap_eqI)

text \<open>The pieces that follow \<^verbatim>\<open>rtservice.h\<close>.\<close>

lemma free_insert_eq:
  "\<lbrakk>i \<noteq> l; i \<noteq> mi_next_free (items m l)\<rbrakk> \<Longrightarrow> free_ring (free_insert l i m) = rt_list_insert_after l i (free_ring m)"
  by (auto simp: free_insert_def rt_list_insert_after_def Let_def intro!: list_heap_eqI)

lemma block_split_eq:
  "\<lbrakk>n \<noteq> i; n \<noteq> mi_next (items m i)\<rbrakk> \<Longrightarrow> block_ring (block_split p i n m) = rt_list_insert_after i n (block_ring m)"
  by (auto simp: block_split_def rt_list_insert_after_def Let_def intro!: list_heap_eqI)

lemma dlist_cong:
  assumes "\<And>a. a \<in> set (l # xs) \<Longrightarrow> nxt h' a = nxt h a \<and> prv h' a = prv h a"
  shows "dlist h' l xs = dlist h l xs"
  using seg_cong [of l xs h' h l] assms by (auto simp: dlist_def)

text \<open>Taking a node out, whatever becomes of its own links.\<close>

lemma dlist_drop:
  assumes d: "dlist h l (ys @ n # zs)"
    and nx: "\<And>a. a \<noteq> n \<Longrightarrow> nxt h' a = (if a = last (l # ys) then hd (zs @ [l]) else nxt h a)"
    and pr: "\<And>a. a \<noteq> n \<Longrightarrow> prv h' a = (if a = hd (zs @ [l]) then last (l # ys) else prv h a)"
  shows "dlist h' l (ys @ zs)"
proof -
  let ?g = "\<lparr>nxt = (nxt h)(last (l # ys) := hd (zs @ [l]), n := n), prv = (prv h)(hd (zs @ [l]) := last (l # ys), n := n)\<rparr>"
  have "dlist ?g l (ys @ zs)" by (rule dlist_unsplice [OF d]) simp_all
  moreover have n: "n \<notin> set (l # ys @ zs)" using dlist_distinct [OF d] by auto
  have "dlist h' l (ys @ zs) = dlist ?g l (ys @ zs)"
  proof (rule dlist_cong)
    fix a assume "a \<in> set (l # ys @ zs)"
    then have "a \<noteq> n" using n by blast
    then show "nxt h' a = nxt ?g a \<and> prv h' a = prv ?g a" using nx [of a] pr [of a] by simp
  qed
  ultimately show ?thesis by simp
qed

lemma free_unlink_ring:
  assumes "dlist (free_ring m) l (ys @ x # zs)"
  shows "dlist (free_ring (free_unlink x m)) l (ys @ zs)"
proof -
  note nb = dlist_neighbours [OF assms] and d = dlist_distinct [OF assms]
  have "hd (zs @ [l]) \<noteq> x" using d by (cases zs) auto
  then show ?thesis using nb by (intro dlist_drop [OF assms]) (auto simp: free_unlink_def Let_def)
qed

lemma free_clear_ring:
  assumes "dlist (free_ring m) l xs" "x \<notin> set (l # xs)"
  shows "dlist (free_ring (free_clear x m)) l xs"
  by (subst dlist_cong [OF _, of _ _ _ "free_ring m"]) (use assms in \<open>auto simp: free_clear_def\<close>)

lemma free_insert_ring:
  assumes "dlist (free_ring m) l xs" "x \<notin> set (l # xs)"
  shows "dlist (free_ring (free_insert l x m)) l (x # xs)"
proof -
  have "mi_next_free (items m l) = hd (xs @ [l])" using dlist_head_neighbours(2) [OF assms(1)] by simp
  then have "x \<noteq> l" "x \<noteq> mi_next_free (items m l)" using assms(2) hd_app_mem [of xs l] by auto
  then show ?thesis using dlist_insert_after_head [OF assms] by (simp add: free_insert_eq)
qed

lemma block_split_ring:
  assumes "dlist (block_ring m) t (as @ x # cs)" "n \<notin> set (t # as @ x # cs)"
  shows "dlist (block_ring (block_split p x n m)) t (as @ x # n # cs)"
proof -
  have "mi_next (items m x) = hd (cs @ [t])" using dlist_neighbours(2) [OF assms(1)] by simp
  then have "n \<noteq> x" "n \<noteq> mi_next (items m x)" using assms(2) hd_app_mem [of cs t] by auto
  then show ?thesis using dlist_insert_after_node [OF assms] by (simp add: block_split_eq)
qed

lemma block_join_ring:
  assumes "dlist (block_ring m) t (as @ x # y # cs)"
  shows "dlist (block_ring (block_join x m)) t (as @ x # cs)"
proof -
  have a: "dlist (block_ring m) t ((as @ [x]) @ y # cs)" using assms by simp
  note nb = dlist_neighbours [OF a] dlist_neighbours [OF assms] and d = dlist_distinct [OF a]
  have "hd (cs @ [t]) \<noteq> y" using d by (cases cs) auto
  then have "dlist (block_ring (block_join x m)) t ((as @ [x]) @ cs)"
    using nb d by (intro dlist_drop [OF a]) (auto simp: block_join_def Let_def)
  then show ?thesis by simp
qed

lemma block_unlink_ring:
  assumes "dlist (block_ring m) t (as @ y # cs)"
  shows "dlist (block_ring (block_unlink y m)) t (as @ cs)" "dlist (block_ring (block_bypass y m)) t (as @ cs)"
proof -
  note nb = dlist_neighbours [OF assms] and d = dlist_distinct [OF assms]
  have "hd (cs @ [t]) \<noteq> y" "last (t # as) \<noteq> y" using d last_Cons_mem [of t as] by (cases cs; auto)+
  then show "dlist (block_ring (block_unlink y m)) t (as @ cs)" "dlist (block_ring (block_bypass y m)) t (as @ cs)"
    using nb by (intro dlist_drop [OF assms]; auto simp: block_unlink_def block_bypass_def Let_def)+
qed

section \<open>The layout of a region\<close>

text \<open>The blocks at the addresses \<open>bs\<close> up to \<open>t\<close>, each with the length of its data.\<close>

fun spans :: "nat list \<Rightarrow> nat \<Rightarrow> (nat \<times> nat) list" where
  "spans [] t = []"
| "spans (x # xs) t = (x, hd (xs @ [t]) - x - 24) # spans xs t"

text \<open>Of blocks that are free where \<open>F\<close> says so: the free bytes, and the blocks that are lent out.\<close>

definition room :: "(nat \<Rightarrow> bool) \<Rightarrow> nat list \<Rightarrow> nat \<Rightarrow> nat" where
  "room F bs t = sum_list (map snd (filter (\<lambda>b. F (fst b)) (spans bs t)))"

definition lent :: "(nat \<Rightarrow> bool) \<Rightarrow> nat list \<Rightarrow> nat \<Rightarrow> (nat \<times> nat) set" where
  "lent F bs t = {b \<in> set (spans bs t). \<not> F (fst b)}"

definition spaced :: "nat list \<Rightarrow> nat \<Rightarrow> bool" where
  "spaced bs t \<longleftrightarrow> sorted_wrt (\<lambda>x y. x + 36 \<le> y) (bs @ [t])"

lemma spans_append: "spans (as @ x # cs) t = spans as x @ (x, hd (cs @ [t]) - x - 24) # spans cs t"
proof (induction as)
  case (Cons a as)
  then show ?case by (cases as) auto
qed simp

lemma spans_fst: "map fst (spans bs t) = bs"
  by (induction bs) auto

lemma spans_mem: "(x, n) \<in> set (spans bs t) \<Longrightarrow> x \<in> set bs"
  using spans_fst [of bs t] by (metis fst_conv image_eqI list.set_map)

lemma room_append: "room F (as @ x # cs) t = room F as x + (if F x then hd (cs @ [t]) - x - 24 else 0) + room F cs t"
  by (simp add: room_def spans_append)

lemma lent_append:
  "lent F (as @ x # cs) t = lent F as x \<union> (if F x then {} else {(x, hd (cs @ [t]) - x - 24)}) \<union> lent F cs t"
  by (auto simp: lent_def spans_append)

lemma room_cong: "(\<And>x. x \<in> set bs \<Longrightarrow> F x = G x) \<Longrightarrow> room F bs t = room G bs t"
  unfolding room_def by (rule arg_cong, rule arg_cong, rule filter_cong) (auto dest: spans_mem)

lemma lent_cong: "(\<And>x. x \<in> set bs \<Longrightarrow> F x = G x) \<Longrightarrow> lent F bs t = lent G bs t"
  unfolding lent_def by (auto dest: spans_mem)

lemma lent_mem: "(x, n) \<in> lent F bs t \<Longrightarrow> x \<in> set bs \<and> \<not> F x"
  by (auto simp: lent_def dest: spans_mem)

lemma spaced_at:
  assumes "spaced (as @ x # cs) t"
  shows "x + 36 \<le> hd (cs @ [t])" "spaced as x" "spaced cs t" "\<forall>y \<in> set as. y + 36 \<le> x" "\<forall>y \<in> set (cs @ [t]). hd (cs @ [t]) \<le> y"
    "x + 36 \<le> t"
proof -
  show "x + 36 \<le> hd (cs @ [t])" "spaced as x" "spaced cs t" "\<forall>y \<in> set as. y + 36 \<le> x" "x + 36 \<le> t"
    using assms by (cases cs; auto simp: spaced_def sorted_wrt_append)+
  show "\<forall>y \<in> set (cs @ [t]). hd (cs @ [t]) \<le> y" using assms by (cases cs) (auto simp: spaced_def sorted_wrt_append)
qed

lemma spaced_parts:
  "spaced (as @ x # cs) t \<longleftrightarrow> spaced as x \<and> (\<forall>y \<in> set as. y + 36 \<le> x) \<and> x + 36 \<le> hd (cs @ [t]) \<and> spaced cs t"
proof
  assume r: "spaced as x \<and> (\<forall>y \<in> set as. y + 36 \<le> x) \<and> x + 36 \<le> hd (cs @ [t]) \<and> spaced cs t"
  have "\<forall>y \<in> set (cs @ [t]). hd (cs @ [t]) \<le> y" using r by (cases cs) (auto simp: spaced_def)
  then have "\<forall>y \<in> set (cs @ [t]). x + 36 \<le> y" using r by fastforce
  then show "spaced (as @ x # cs) t" using r by (fastforce simp: spaced_def sorted_wrt_append)
qed (use spaced_at [of as x cs t] in simp)

lemma spaced_insert:
  assumes "spaced (as @ x # cs) t" "x + 36 \<le> n" "n + 36 \<le> hd (cs @ [t])"
  shows "spaced (as @ x # n # cs) t"
  using assms spaced_parts [of as x cs t] spaced_parts [of as x "n # cs" t] spaced_parts [of "[]" n cs t] by (simp add: spaced_def)

lemma spaced_delete:
  assumes "spaced (as @ y # cs) t" shows "spaced (as @ cs) t"
  using assms by (auto simp: spaced_def sorted_wrt_append)

section \<open>Regions in order\<close>

definition mh_free :: "mh_memory \<Rightarrow> nat \<Rightarrow> bool" where
  "mh_free m x \<longleftrightarrow> \<not> RT_MEMHEAP_IS_USED x m"

lemma mh_free_magic: "mh_free m x \<longleftrightarrow> magic_of m x AND 1 = 0"
  by (simp add: mh_free_def RT_MEMHEAP_IS_USED_def)

text \<open>Only a split and the marks change what is free.\<close>

lemma mh_free_pieces [simp]:
  "mh_free (free_insert l i m) = mh_free m" "mh_free (free_unlink i m) = mh_free m" "mh_free (free_clear i m) = mh_free m"
  "mh_free (block_join i m) = mh_free m" "mh_free (block_unlink i m) = mh_free m" "mh_free (block_bypass i m) = mh_free m"
  "mh_free (avail_add p n m) = mh_free m" "mh_free (avail_sub p n m) = mh_free m" "mh_free (note_max p m) = mh_free m"
  by (simp_all add: fun_eq_iff mh_free_magic)

lemma mh_free_split [simp]: "mh_free (block_split p x n m) = (mh_free m)(n := True)"
  by (rule ext) (simp add: mh_free_magic)

definition item_ok :: "nat \<Rightarrow> mh_memory \<Rightarrow> nat \<Rightarrow> bool" where
  "item_ok p m x \<longleftrightarrow> 4 dvd x \<and> pool_of m x = p \<and> magic_of m x = (if mh_free m x then RT_MEMHEAP_MAGIC else RT_MEMHEAP_MAGIC OR RT_MEMHEAP_USED)"

text \<open>
  The rings of heap \<open>p\<close> between the addresses \<open>a\<close> and \<open>t\<close>: the ring of blocks goes through
  \<open>t\<close>, the ring of free blocks through the header of the heap, which lies elsewhere.
\<close>

definition rings :: "nat \<Rightarrow> nat \<Rightarrow> nat \<Rightarrow> mh_memory \<Rightarrow> nat list \<Rightarrow> nat list \<Rightarrow> bool" where
  "rings p a t m bs fs \<longleftrightarrow>
     dlist (block_ring m) t bs \<and> dlist (free_ring m) (free_header p) fs \<and> spaced bs t \<and>
     (\<exists>cs. bs = a # cs) \<and> set fs \<subseteq> {a..t} \<and> t < 2 ^ 32 \<and> free_header p \<notin> {a..t} \<and> (\<forall>x \<in> set (t # bs). item_ok p m x)"

lemma ringsD:
  assumes "rings p a t m bs fs"
  shows "dlist (block_ring m) t bs" "dlist (free_ring m) (free_header p) fs" "spaced bs t" "t < 2 ^ 32"
    "free_header p \<notin> {a..t}" "\<And>x. x \<in> set (t # bs) \<Longrightarrow> item_ok p m x" "\<And>x. x \<in> set bs \<Longrightarrow> a \<le> x \<and> x < t"
    "set fs \<subseteq> {a..t}" "a < t"
proof -
  show "dlist (block_ring m) t bs" "dlist (free_ring m) (free_header p) fs" "spaced bs t" "t < 2 ^ 32"
    "free_header p \<notin> {a..t}" "\<And>x. x \<in> set (t # bs) \<Longrightarrow> item_ok p m x" "set fs \<subseteq> {a..t}"
    using assms by (auto simp: rings_def)
  show b: "a \<le> x \<and> x < t" if "x \<in> set bs" for x
    using assms that by (fastforce simp: rings_def spaced_def sorted_wrt_append)
  show "a < t" using b [of a] assms by (auto simp: rings_def)
qed

lemma rings_items: "items m' = items m \<Longrightarrow> rings p a t m' bs fs = rings p a t m bs fs"
  using ring_cong [of m' m] by (simp add: rings_def item_ok_def mh_free_magic)

text \<open>How the pieces act on the rings.\<close>

lemma rings_split:
  assumes r: "rings p a t m (as @ x # cs) fs" and n: "x + 36 \<le> n" "n + 36 \<le> hd (cs @ [t])" "4 dvd n"
  shows "rings p a t (block_split p x n m) (as @ x # n # cs) fs" "mh_free (block_split p x n m) = (mh_free m)(n := True)"
proof -
  note d = ringsD [OF r]
  have "\<forall>y \<in> set as. y < n" using spaced_at(4) [OF d(3)] n(1) by fastforce
  moreover have "\<forall>y \<in> set (cs @ [t]). n < y" using spaced_at(5) [OF d(3)] n(2) by fastforce
  ultimately have nn: "n \<notin> set (t # as @ x # cs)" using n(1) by force
  have "dlist (block_ring (block_split p x n m)) t (as @ x # n # cs)" by (rule block_split_ring [OF d(1) nn])
  moreover have "spaced (as @ x # n # cs) t" by (rule spaced_insert [OF d(3) n(1,2)])
  moreover show f: "mh_free (block_split p x n m) = (mh_free m)(n := True)" by (rule ext) (simp add: mh_free_magic)
  have "\<forall>y \<in> set (t # as @ x # n # cs). item_ok p (block_split p x n m) y"
    using d(6) n(3) nn by (auto simp: item_ok_def f)
  ultimately show "rings p a t (block_split p x n m) (as @ x # n # cs) fs"
    using r by (cases as) (simp_all add: rings_def)
qed

lemma rings_shorter:
  assumes r: "rings p a t m (as @ y # cs) fs" and as: "as \<noteq> []"
    and b: "dlist (block_ring m') t (as @ cs)" and f: "free_ring m' = free_ring m"
    and i: "\<And>x. magic_of m' x = magic_of m x" "\<And>x. pool_of m' x = pool_of m x"
  shows "rings p a t m' (as @ cs) fs" "mh_free m' = mh_free m"
proof -
  show e: "mh_free m' = mh_free m" by (auto simp: mh_free_magic i)
  have "item_ok p m' x = item_ok p m x" for x by (simp add: item_ok_def i e)
  then show "rings p a t m' (as @ cs) fs"
    using r as b f spaced_delete [of as y cs t] by (cases as) (auto simp: rings_def)
qed

lemma rings_join:
  assumes "rings p a t m (as @ x # y # cs) fs"
  shows "rings p a t (block_join x m) (as @ x # cs) fs" "mh_free (block_join x m) = mh_free m"
  using rings_shorter [of p a t m "as @ [x]" y cs fs "block_join x m"] block_join_ring [OF ringsD(1) [OF assms]] assms by simp_all

lemma rings_unlink:
  assumes "rings p a t m (as @ y # cs) fs" "as \<noteq> []"
  shows "rings p a t (block_unlink y m) (as @ cs) fs" "mh_free (block_unlink y m) = mh_free m"
    "rings p a t (block_bypass y m) (as @ cs) fs" "mh_free (block_bypass y m) = mh_free m"
  using rings_shorter [OF assms] block_unlink_ring [OF ringsD(1) [OF assms(1)]] by simp_all

lemma rings_relink:
  assumes r: "rings p a t m bs fs" and f: "dlist (free_ring m') (free_header p) gs" "set gs \<subseteq> {a..t}"
    and b: "block_ring m' = block_ring m" and i: "\<And>x. magic_of m' x = magic_of m x" "\<And>x. pool_of m' x = pool_of m x"
  shows "rings p a t m' bs gs" "mh_free m' = mh_free m"
proof -
  show e: "mh_free m' = mh_free m" by (auto simp: mh_free_magic i)
  have "item_ok p m' x = item_ok p m x" for x by (simp add: item_ok_def i e)
  then show "rings p a t m' bs gs" using r f b by (auto simp: rings_def)
qed

lemma rings_free_unlink:
  assumes "rings p a t m bs (us @ x # vs)"
  shows "rings p a t (free_unlink x m) bs (us @ vs)" "mh_free (free_unlink x m) = mh_free m"
  using rings_relink [OF assms free_unlink_ring [OF ringsD(2) [OF assms]]] ringsD(8) [OF assms] by simp_all

lemma rings_free_clear:
  assumes "rings p a t m bs fs" "x \<in> set bs" "x \<notin> set fs"
  shows "rings p a t (free_clear x m) bs fs" "mh_free (free_clear x m) = mh_free m"
proof -
  have "x \<notin> set (free_header p # fs)" using assms(3) ringsD(5) [OF assms(1)] ringsD(7) [OF assms(1,2)] by auto
  from rings_relink [OF assms(1) free_clear_ring [OF ringsD(2) [OF assms(1)] this] ringsD(8) [OF assms(1)]]
  show "rings p a t (free_clear x m) bs fs" "mh_free (free_clear x m) = mh_free m" by simp_all
qed

lemma rings_free_insert:
  assumes "rings p a t m bs fs" "x \<in> set bs" "x \<notin> set fs"
  shows "rings p a t (free_insert (free_header p) x m) bs (x # fs)" "mh_free (free_insert (free_header p) x m) = mh_free m"
proof -
  have "x \<notin> set (free_header p # fs)" using assms(3) ringsD(5) [OF assms(1)] ringsD(7) [OF assms(1,2)] by auto
  from rings_relink [OF assms(1) free_insert_ring [OF ringsD(2) [OF assms(1)] this]] ringsD(7) [OF assms(1,2)] ringsD(8) [OF assms(1)]
  show "rings p a t (free_insert (free_header p) x m) bs (x # fs)" "mh_free (free_insert (free_header p) x m) = mh_free m" by simp_all
qed

lemma rings_magic:
  assumes r: "rings p a t m bs fs" and x: "x \<in> set bs" and m': "m' = set_item x (\<lambda>i. i\<lparr>mi_magic := f (mi_magic i)\<rparr>) m"
    and f: "f (magic_of m x) = (if F then RT_MEMHEAP_MAGIC else RT_MEMHEAP_MAGIC OR RT_MEMHEAP_USED)"
  shows "rings p a t m' bs fs" "mh_free m' = (mh_free m)(x := F)"
proof -
  show e: "mh_free m' = (mh_free m)(x := F)" using f m' by (intro ext) (auto simp: mh_free_magic)
  have "item_ok p m' y" if "y \<in> set (t # bs)" for y
    using ringsD(6) [OF r that] f by (auto simp: item_ok_def e) (auto simp: m')
  moreover have "block_ring m' = block_ring m" "free_ring m' = free_ring m" by (auto simp: m' intro!: list_heap_eqI)
  ultimately show "rings p a t m' bs fs" using r by (auto simp: rings_def)
qed

lemma rings_mark:
  assumes r: "rings p a t m bs fs" and x: "x \<in> set bs"
  shows "mh_free m x \<Longrightarrow> rings p a t (mark_used x m) bs fs" "mh_free m x \<Longrightarrow> mh_free (mark_used x m) = (mh_free m)(x := False)"
    "\<not> mh_free m x \<Longrightarrow> rings p a t (mark_free x m) bs fs" "\<not> mh_free m x \<Longrightarrow> mh_free (mark_free x m) = (mh_free m)(x := True)"
proof -
  have i: "magic_of m x = (if mh_free m x then RT_MEMHEAP_MAGIC else RT_MEMHEAP_MAGIC OR RT_MEMHEAP_USED)"
    using ringsD(6) [OF r, of x] x by (simp add: item_ok_def)
  show "rings p a t (mark_used x m) bs fs" "mh_free (mark_used x m) = (mh_free m)(x := False)" if "mh_free m x"
    using rings_magic [OF r x mark_used_def [THEN fun_cong], of False] i that by simp_all
  show "rings p a t (mark_free x m) bs fs" "mh_free (mark_free x m) = (mh_free m)(x := True)" if "\<not> mh_free m x"
    using rings_magic [OF r x mark_free_def [THEN fun_cong], of True] i that by simp_all
qed

lemma mark_sel [simp]:
  "memheaps (mark_used x m) = memheaps m" "memheaps (mark_free x m) = memheaps m"
  "mh_bytes (mark_used x m) = mh_bytes m" "mh_bytes (mark_free x m) = mh_bytes m"
  by (simp_all add: mark_used_def mark_free_def)

lemma rings_at:
  assumes r: "rings p a t m (as @ x # cs) fs"
  shows "mi_next (items m x) = hd (cs @ [t])" "mi_prev (items m x) = last (t # as)"
    "MEMITEM_SIZE x m = hd (cs @ [t]) - x - 24" "x + 36 \<le> hd (cs @ [t])" "hd (cs @ [t]) \<le> t"
proof -
  note d = ringsD [OF r]
  show n: "mi_next (items m x) = hd (cs @ [t])" "mi_prev (items m x) = last (t # as)"
    using dlist_neighbours [OF d(1)] by simp_all
  show l: "x + 36 \<le> hd (cs @ [t])" by (rule spaced_at(1) [OF d(3)])
  show u: "hd (cs @ [t]) \<le> t" using spaced_at(5) [OF d(3)] by simp
  show "MEMITEM_SIZE x m = hd (cs @ [t]) - x - 24" using n(1) l u d(4) by (simp add: MEMITEM_SIZE_def)
qed

text \<open>Where the pieces write.\<close>

definition area :: "nat \<Rightarrow> nat \<Rightarrow> nat \<Rightarrow> nat set" where
  "area p a t = insert (free_header p) {a..t}"

lemma piece_items:
  "b \<noteq> n \<Longrightarrow> b \<noteq> x \<Longrightarrow> b \<noteq> mi_next (items m x) \<Longrightarrow> items (block_split p x n m) b = items m b"
  "b \<noteq> x \<Longrightarrow> b \<noteq> mi_next (items m (mi_next (items m x))) \<Longrightarrow> items (block_join x m) b = items m b"
  "b \<noteq> mi_next (items m x) \<Longrightarrow> b \<noteq> mi_prev (items m x) \<Longrightarrow> mi_next (items m x) \<noteq> x \<Longrightarrow> items (block_unlink x m) b = items m b"
  "b \<noteq> mi_next (items m x) \<Longrightarrow> b \<noteq> mi_prev (items m x) \<Longrightarrow> mi_prev (items m x) \<noteq> x \<Longrightarrow> items (block_bypass x m) b = items m b"
  "b \<noteq> mi_next_free (items m x) \<Longrightarrow> b \<noteq> mi_prev_free (items m x) \<Longrightarrow> mi_next_free (items m x) \<noteq> x \<Longrightarrow> items (free_unlink x m) b = items m b"
  "b \<noteq> x \<Longrightarrow> items (free_clear x m) b = items m b"
  "b \<noteq> x \<Longrightarrow> b \<noteq> l \<Longrightarrow> b \<noteq> mi_next_free (items m l) \<Longrightarrow> l \<noteq> x \<Longrightarrow> items (free_insert l x m) b = items m b"
  "b \<noteq> x \<Longrightarrow> items (mark_used x m) b = items m b" "b \<noteq> x \<Longrightarrow> items (mark_free x m) b = items m b"
  by (auto simp: block_split_def block_join_def block_unlink_def block_bypass_def free_unlink_def free_clear_def free_insert_def
      mark_used_def mark_free_def Let_def)

lemma rings_area:
  assumes r: "rings p a t m bs fs" and x: "x \<in> set bs"
  shows "x \<in> area p a t" "mi_next (items m x) \<in> area p a t" "mi_prev (items m x) \<in> area p a t"
    "mi_next (items m x) \<noteq> x" "mi_prev (items m x) \<noteq> x"
proof -
  obtain as cs where bs: "bs = as @ x # cs" using x by (meson split_list)
  note at = rings_at [OF r [unfolded bs]] and d = ringsD [OF r]
  show "x \<in> area p a t" using d(7) [OF x] by (simp add: area_def)
  show "mi_next (items m x) \<in> area p a t" using at(1,4,5) d(7) [OF x] by (simp add: area_def)
  have "last (t # as) \<in> set (t # as)" by simp
  then have "last (t # as) = t \<or> last (t # as) \<in> set bs" using bs by auto
  then show "mi_prev (items m x) \<in> area p a t" using at(2) d(7) [of "last (t # as)"] d(9) by (auto simp: area_def)
  show "mi_next (items m x) \<noteq> x" using at(1,4) by simp
  show "mi_prev (items m x) \<noteq> x" using at(2) d(1) bs last_Cons_mem [of t as] by (auto simp: dlist_def)
qed

lemma rings_area_free:
  assumes r: "rings p a t m bs (us @ x # vs)"
  shows "mi_next_free (items m x) \<in> area p a t" "mi_prev_free (items m x) \<in> area p a t" "mi_next_free (items m x) \<noteq> x"
proof -
  note nb = dlist_neighbours [OF ringsD(2) [OF r]] and d = ringsD(8) [OF r] dlist_distinct [OF ringsD(2) [OF r]]
  have "insert (free_header p) (set vs) \<subseteq> area p a t" "insert (free_header p) (set us) \<subseteq> area p a t"
    using d(1) by (auto simp: area_def)
  then show "mi_next_free (items m x) \<in> area p a t" "mi_prev_free (items m x) \<in> area p a t"
    using nb hd_app_mem [of vs "free_header p"] last_Cons_mem [of "free_header p" us] by auto
  show "mi_next_free (items m x) \<noteq> x" using nb(2) d(2) hd_app_mem [of vs "free_header p"] by auto
qed

lemma rings_area_head:
  assumes r: "rings p a t m bs fs"
  shows "mi_next_free (items m (free_header p)) \<in> area p a t" "free_header p \<in> area p a t"
  using dlist_head_neighbours(2) [OF ringsD(2) [OF r]] ringsD(8) [OF r] hd_app_mem [of fs "free_header p"]
  by (auto simp: area_def)

text \<open>Memory outside its area does not matter to a heap.\<close>

lemma rings_local:
  assumes r: "rings p a t m bs fs" and i: "\<And>b. b \<in> area p a t \<Longrightarrow> items m' b = items m b"
  shows "rings p a t m' bs fs" "\<And>b. b \<in> {a..t} \<Longrightarrow> mh_free m' b = mh_free m b"
proof -
  show f: "mh_free m' b = mh_free m b" if "b \<in> {a..t}" for b using i that by (simp add: mh_free_magic area_def)
  note d = ringsD [OF r]
  have b: "set (t # bs) \<subseteq> {a..t}" using d(7,9) by fastforce
  have "dlist (block_ring m') t bs" by (subst dlist_cong [OF _]) (use d(1) b i in \<open>auto simp: area_def\<close>)
  moreover have "dlist (free_ring m') (free_header p) fs"
    by (subst dlist_cong [OF _]) (use d(2,8) i in \<open>auto simp: area_def\<close>)
  moreover have "item_ok p m' x" if "x \<in> set (t # bs)" for x
    using d(6) [OF that] f [of x] i [of x] that b by (auto simp: item_ok_def area_def)
  ultimately show "rings p a t m' bs fs" using r by (simp add: rings_def)
qed

end
