(* ===== verification/MemRegion.thy ===== *)
theory MemRegion
  imports MemHeap
begin

text \<open>
  What the sections of \<^verbatim>\<open>src/memheap.c\<close> do to a region in order: its rings fit the
  layout, the free ring has the free blocks, no two of them are neighbours, and
  \<^verbatim>\<open>available_size\<close> is their length. Allocation takes the first block of the free ring
  that is long enough, freeing merges, and growing and shrinking resize the block in place.
\<close>

section \<open>A region in order\<close>

definition tailer :: "rt_memheap \<Rightarrow> nat" where
  "tailer h = start_addr h + pool_size h - 24"

definition region :: "nat \<Rightarrow> mh_memory \<Rightarrow> nat list \<Rightarrow> nat list \<Rightarrow> bool" where
  "region p m bs fs \<longleftrightarrow>
     (\<exists>h. memheaps m p = Some h \<and> mh_free_list h = free_header p \<and> p \<noteq> 0 \<and> 0 < start_addr h \<and> 24 \<le> pool_size h \<and>
        start_addr h + pool_size h < 2 ^ 32 \<and> rings p (start_addr h) (tailer h) m bs fs \<and>
        set fs = {x \<in> set bs. mh_free m x} \<and> \<not> mh_free m (tailer h) \<and> apart (mh_free m) bs \<and>
        available_size h = room (mh_free m) bs (tailer h))"

lemma regionE:
  assumes "region p m bs fs"
  obtains h where "memheaps m p = Some h" "mh_free_list h = free_header p" "p \<noteq> 0" "0 < start_addr h"
    "rings p (start_addr h) (tailer h) m bs fs" "set fs = {x \<in> set bs. mh_free m x}" "\<not> mh_free m (tailer h)"
    "apart (mh_free m) bs" "available_size h = room (mh_free m) bs (tailer h)" "24 \<le> pool_size h" "start_addr h + pool_size h < 2 ^ 32"
  using assms by (auto simp: region_def)

lemma regionD:
  assumes "region p m bs fs" "memheaps m p = Some h"
  shows "mh_free_list h = free_header p" "p \<noteq> 0" "0 < start_addr h" "rings p (start_addr h) (tailer h) m bs fs"
    "set fs = {x \<in> set bs. mh_free m x}" "\<not> mh_free m (tailer h)" "apart (mh_free m) bs"
    "available_size h = room (mh_free m) bs (tailer h)" "24 \<le> pool_size h" "start_addr h + pool_size h < 2 ^ 32"
  using assms by (simp_all add: region_def)

text \<open>A heap keeps its place; only its counters change.\<close>

definition same_place :: "rt_memheap \<Rightarrow> rt_memheap \<Rightarrow> bool" where
  "same_place h h' \<longleftrightarrow> start_addr h' = start_addr h \<and> pool_size h' = pool_size h \<and> mh_free_list h' = mh_free_list h \<and>
     mh_block_list h' = mh_block_list h"

lemma same_place_tailer: "same_place h h' \<Longrightarrow> tailer h' = tailer h \<and> start_addr h' = start_addr h"
  by (simp add: same_place_def tailer_def)

lemma regionI:
  assumes r: "region p m bs fs" and h: "memheaps m p = Some h" and h': "memheaps m' p = Some h'" "same_place h h'"
    and ri: "rings p (start_addr h) (tailer h) m' bs' fs'" and fs: "set fs' = {x \<in> set bs'. mh_free m' x}"
    and t: "\<not> mh_free m' (tailer h)" and ap: "apart (mh_free m') bs'" and av: "available_size h' = room (mh_free m') bs' (tailer h)"
  shows "region p m' bs' fs'"
  using r h ri fs t ap av h'(1) same_place_tailer [OF h'(2)] h'(2) by (auto simp: region_def same_place_def)

definition lent_out :: "nat \<Rightarrow> mh_memory \<Rightarrow> nat list \<Rightarrow> (nat \<times> nat) set" where
  "lent_out p m bs = (case memheaps m p of None \<Rightarrow> {} | Some h \<Rightarrow> lent (mh_free m) bs (tailer h))"

lemma lent_out_eq:
  "\<lbrakk>memheaps m p = Some h'; same_place h h'\<rbrakk> \<Longrightarrow> lent_out p m bs = lent (mh_free m) bs (tailer h)"
  using same_place_tailer by (simp add: lent_out_def)

lemma room_le: "spaced bs t \<Longrightarrow> room F bs t \<le> t - hd (bs @ [t])"
proof (induction bs)
  case (Cons x cs)
  have s: "spaced cs t" "x + 36 \<le> hd (cs @ [t])" "hd (cs @ [t]) \<le> t"
    using spaced_at [of "[]" x cs t] Cons.prems by auto
  have "room F (x # cs) t = (if F x then hd (cs @ [t]) - x - 24 else 0) + room F cs t"
    using room_append [of F "[]" x cs t] by (simp add: room_def)
  also have "\<dots> \<le> (hd (cs @ [t]) - x) + (t - hd (cs @ [t]))" using Cons.IH [OF s(1)] by (intro add_mono) auto
  also have "\<dots> = t - x" using s(2,3) by simp
  finally show ?case by simp
qed (simp add: room_def)

lemma room_Cons: "room F (x # cs) t = (if F x then hd (cs @ [t]) - x - 24 else 0) + room F cs t"
  using room_append [of F "[]" x cs t] by (simp add: room_def)

lemma lent_Cons: "lent F (x # cs) t = (if F x then {} else {(x, hd (cs @ [t]) - x - 24)}) \<union> lent F cs t"
  using lent_append [of F "[]" x cs t] by (simp add: lent_def)

section \<open>Inside a section\<close>

lemma counter_heap:
  "memheaps m p = Some h \<Longrightarrow> memheaps (avail_add p n m) p = Some (h\<lparr>available_size := add32 (available_size h) n\<rparr>)"
  "memheaps m p = Some h \<Longrightarrow> memheaps (avail_sub p n m) p = Some (h\<lparr>available_size := sub32 (available_size h) n\<rparr>)"
  "memheaps m p = Some h \<Longrightarrow> \<exists>k. memheaps (note_max p m) p = Some (h\<lparr>max_used_size := k\<rparr>)"
  "q \<noteq> p \<Longrightarrow> memheaps (avail_add p n m) q = memheaps m q" "q \<noteq> p \<Longrightarrow> memheaps (avail_sub p n m) q = memheaps m q"
  "q \<noteq> p \<Longrightarrow> memheaps (note_max p m) q = memheaps m q"
proof -
  assume "memheaps m p = Some h"
  then show "\<exists>k. memheaps (note_max p m) p = Some (h\<lparr>max_used_size := k\<rparr>)"
    by (cases "sub32 (pool_size h) (available_size h) > max_used_size h")
      (auto simp: note_max_def intro: exI [of _ "max_used_size h"])
qed (simp_all add: avail_add_def avail_sub_def note_max_def)

text \<open>
  A point inside a section that began in the state \<open>m0\<close>, with the heap \<open>h\<close>: the rings are in
  order and the counter stands at \<open>v\<close>, but they need not fit each other yet.
\<close>

definition stage :: "nat \<Rightarrow> rt_memheap \<Rightarrow> mh_memory \<Rightarrow> nat \<Rightarrow> mh_memory \<Rightarrow> nat list \<Rightarrow> nat list \<Rightarrow> bool" where
  "stage p h m0 v m bs fs \<longleftrightarrow>
     rings p (start_addr h) (tailer h) m bs fs \<and>
     (\<exists>g. memheaps m p = Some g \<and> same_place h g \<and> available_size g = v) \<and>
     (\<forall>q. q \<noteq> p \<longrightarrow> memheaps m q = memheaps m0 q) \<and> mh_bytes m = mh_bytes m0 \<and>
     (\<forall>b. b \<notin> area p (start_addr h) (tailer h) \<longrightarrow> items m b = items m0 b)"

lemma stage_rings: "stage p h m0 v m bs fs \<Longrightarrow> rings p (start_addr h) (tailer h) m bs fs"
  by (simp add: stage_def)

lemma stage_start: "\<lbrakk>region p m bs fs; memheaps m p = Some h\<rbrakk> \<Longrightarrow> stage p h m (available_size h) m bs fs"
  using regionD(4) by (simp add: stage_def same_place_def)

lemma stage_step:
  assumes "stage p h m0 v m bs fs" "rings p (start_addr h) (tailer h) m' bs' fs'" "memheaps m' = memheaps m" "mh_bytes m' = mh_bytes m"
    and "\<And>b. b \<notin> area p (start_addr h) (tailer h) \<Longrightarrow> items m' b = items m b"
  shows "stage p h m0 v m' bs' fs'"
  using assms by (simp add: stage_def)

lemma stage_split:
  assumes st: "stage p h m0 v m (as @ x # cs) fs" and n: "x + 36 \<le> n" "n + 36 \<le> hd (cs @ [tailer h])" "4 dvd n"
  shows "stage p h m0 v (block_split p x n m) (as @ x # n # cs) fs"
proof (rule stage_step [OF st rings_split(1) [OF stage_rings [OF st] n]])
  note ri = rings_split(1) [OF stage_rings [OF st] n]
  have "n \<in> area p (start_addr h) (tailer h)" using rings_area(1) [OF ri] by simp
  then show "items (block_split p x n m) b = items m b" if "b \<notin> area p (start_addr h) (tailer h)" for b
    using that rings_area(1,2) [OF stage_rings [OF st], of x] by (intro piece_items(1)) auto
qed simp_all

lemma stage_join:
  assumes st: "stage p h m0 v m (as @ x # y # cs) fs"
  shows "stage p h m0 v (block_join x m) (as @ x # cs) fs"
proof (rule stage_step [OF st rings_join(1) [OF stage_rings [OF st]]])
  note ri = stage_rings [OF st]
  have "mi_next (items m x) = y" using rings_at(1) [OF ri] by simp
  then show "items (block_join x m) b = items m b" if "b \<notin> area p (start_addr h) (tailer h)" for b
    using that rings_area(1) [OF ri, of x] rings_area(2) [OF ri, of y] by (intro piece_items(2)) auto
qed simp_all

lemma stage_unlink:
  assumes st: "stage p h m0 v m (as @ y # cs) fs" and as: "as \<noteq> []"
  shows "stage p h m0 v (block_unlink y m) (as @ cs) fs" "stage p h m0 v (block_bypass y m) (as @ cs) fs"
proof -
  note ri = stage_rings [OF st] and ar = rings_area [OF stage_rings [OF st], of y]
  show "stage p h m0 v (block_unlink y m) (as @ cs) fs"
    by (rule stage_step [OF st rings_unlink(1) [OF ri as]]) (use ar in \<open>auto intro: piece_items(3)\<close>)
  show "stage p h m0 v (block_bypass y m) (as @ cs) fs"
    by (rule stage_step [OF st rings_unlink(3) [OF ri as]]) (use ar in \<open>auto intro: piece_items(4)\<close>)
qed

lemma stage_free_unlink:
  assumes st: "stage p h m0 v m bs (us @ x # vs)"
  shows "stage p h m0 v (free_unlink x m) bs (us @ vs)"
  by (rule stage_step [OF st rings_free_unlink(1) [OF stage_rings [OF st]]])
    (use rings_area_free [OF stage_rings [OF st]] in \<open>auto intro: piece_items(5)\<close>)

lemma stage_free_clear:
  assumes st: "stage p h m0 v m bs fs" and x: "x \<in> set bs" "x \<notin> set fs"
  shows "stage p h m0 v (free_clear x m) bs fs"
  by (rule stage_step [OF st rings_free_clear(1) [OF stage_rings [OF st] x]])
    (use rings_area(1) [OF stage_rings [OF st] x(1)] in \<open>auto intro: piece_items(6)\<close>)

lemma stage_free_insert:
  assumes st: "stage p h m0 v m bs fs" and x: "x \<in> set bs" "x \<notin> set fs"
  shows "stage p h m0 v (free_insert (free_header p) x m) bs (x # fs)"
proof (rule stage_step [OF st rings_free_insert(1) [OF stage_rings [OF st] x]])
  note ri = stage_rings [OF st]
  have "free_header p \<noteq> x" using ringsD(5) [OF ri] ringsD(7) [OF ri x(1)] by auto
  then show "items (free_insert (free_header p) x m) b = items m b" if "b \<notin> area p (start_addr h) (tailer h)" for b
    using that rings_area(1) [OF ri x(1)] rings_area_head [OF ri] by (intro piece_items(7)) auto
qed simp_all

lemma stage_mark:
  assumes st: "stage p h m0 v m bs fs" and x: "x \<in> set bs"
  shows "mh_free m x \<Longrightarrow> stage p h m0 v (mark_used x m) bs fs" "mh_free m x \<Longrightarrow> mh_free (mark_used x m) = (mh_free m)(x := False)"
    "\<not> mh_free m x \<Longrightarrow> stage p h m0 v (mark_free x m) bs fs" "\<not> mh_free m x \<Longrightarrow> mh_free (mark_free x m) = (mh_free m)(x := True)"
proof -
  note ma = rings_mark [OF stage_rings [OF st] x] and ar = rings_area(1) [OF stage_rings [OF st] x]
  show "stage p h m0 v (mark_used x m) bs fs" if "mh_free m x"
    by (rule stage_step [OF st ma(1) [OF that]]) (use ar in \<open>auto intro: piece_items\<close>)
  show "stage p h m0 v (mark_free x m) bs fs" if "\<not> mh_free m x"
    by (rule stage_step [OF st ma(3) [OF that]]) (use ar in \<open>auto intro: piece_items\<close>)
qed (use rings_mark [OF stage_rings [OF st] x] in simp_all)

lemma stage_counters:
  assumes "stage p h m0 v m bs fs"
  shows "stage p h m0 (add32 v n) (avail_add p n m) bs fs" "stage p h m0 (sub32 v n) (avail_sub p n m) bs fs"
    "stage p h m0 v (note_max p m) bs fs"
proof -
  have i: "rings p (start_addr h) (tailer h) m' bs fs" if "items m' = items m" for m'
    using stage_rings [OF assms] rings_items [OF that] by simp
  obtain g where g: "memheaps m p = Some g" "same_place h g" "available_size g = v" using assms by (auto simp: stage_def)
  have o: "\<forall>q. q \<noteq> p \<longrightarrow> memheaps m q = memheaps m0 q" "mh_bytes m = mh_bytes m0"
    "\<forall>b. b \<notin> area p (start_addr h) (tailer h) \<longrightarrow> items m b = items m0 b" using assms by (simp_all add: stage_def)
  show "stage p h m0 (add32 v n) (avail_add p n m) bs fs" "stage p h m0 (sub32 v n) (avail_sub p n m) bs fs"
    unfolding stage_def using i [of "avail_add p n m"] i [of "avail_sub p n m"] g o
    by (simp_all add: counter_heap same_place_def)
  show "stage p h m0 v (note_max p m) bs fs"
  proof -
    obtain k where "memheaps (note_max p m) p = Some (g\<lparr>max_used_size := k\<rparr>)" using counter_heap(3) [OF g(1)] by blast
    then show ?thesis unfolding stage_def using i [of "note_max p m"] g o by (simp add: counter_heap(6) same_place_def)
  qed
qed

lemma stage_region:
  assumes r: "region p m0 bs0 fs0" and h: "memheaps m0 p = Some h" and st: "stage p h m0 v m bs fs"
    and fs: "set fs = {x \<in> set bs. mh_free m x}" and t: "\<not> mh_free m (tailer h)" and ap: "apart (mh_free m) bs"
    and v: "v = room (mh_free m) bs (tailer h)"
  shows "region p m bs fs" "lent_out p m bs = lent (mh_free m) bs (tailer h)"
proof -
  obtain g where g: "memheaps m p = Some g" "same_place h g" "available_size g = v" using st by (auto simp: stage_def)
  show "region p m bs fs"
    by (rule regionI [OF r h g(1,2) stage_rings [OF st] fs t ap]) (simp add: g(3) v)
  show "lent_out p m bs = lent (mh_free m) bs (tailer h)" by (rule lent_out_eq [OF g(1,2)])
qed

text \<open>What a section leaves alone.\<close>

definition elsewhere :: "nat \<Rightarrow> mh_memory \<Rightarrow> mh_memory \<Rightarrow> bool" where
  "elsewhere p m0 m \<longleftrightarrow>
     (\<exists>h h'. memheaps m0 p = Some h \<and> memheaps m p = Some h' \<and> same_place h h' \<and>
        (\<forall>b. b \<notin> area p (start_addr h) (tailer h) \<longrightarrow> items m b = items m0 b)) \<and>
     (\<forall>q. q \<noteq> p \<longrightarrow> memheaps m q = memheaps m0 q) \<and> mh_bytes m = mh_bytes m0"

lemma stage_elsewhere: "\<lbrakk>stage p h m0 v m bs fs; memheaps m0 p = Some h\<rbrakk> \<Longrightarrow> elsewhere p m0 m"
  by (auto simp: stage_def elsewhere_def)

section \<open>Allocation\<close>

lemma memheap_find_seg:
  assumes "seg (free_ring m) u qs l" "l \<notin> set qs" "k < sz"
  shows "\<exists>r. memheap_find l sz (mi_next_free (items m u)) k m = Some r \<and>
    (case find (\<lambda>x. sz \<le> MEMITEM_SIZE x m) qs of Some x \<Rightarrow> r = (x, MEMITEM_SIZE x m) | None \<Rightarrow> fst r = l \<and> snd r < sz)"
  using assms
proof (induction qs arbitrary: u k)
  case Nil
  then show ?case by (subst memheap_find.simps) simp
next
  case (Cons x qs)
  then have x: "mi_next_free (items m u) = x" "x \<noteq> l" "seg (free_ring m) x qs l" by auto
  show ?case
  proof (cases "sz \<le> MEMITEM_SIZE x m")
    case True
    then have "memheap_find l sz x (MEMITEM_SIZE x m) m = Some (x, MEMITEM_SIZE x m)"
      by (subst memheap_find.simps) simp
    then show ?thesis using True x Cons.prems(3) by (subst memheap_find.simps) simp
  next
    case False
    then show ?thesis using Cons.IH [OF x(3), of "MEMITEM_SIZE x m"] x Cons.prems
      by (subst memheap_find.simps) simp
  qed
qed

definition first_free :: "nat \<Rightarrow> mh_memory \<Rightarrow> nat list \<Rightarrow> nat option" where
  "first_free sz m fs = find (\<lambda>x. sz \<le> MEMITEM_SIZE x m) fs"

lemma memheap_take_eq:
  assumes "region p m bs fs" "0 < sz"
  shows "memheap_take p sz m = Some (case first_free sz m fs of None \<Rightarrow> (None, m)
    | Some x \<Rightarrow> (Some (add32 x 24), memheap_carve p (free_header p) sz x (MEMITEM_SIZE x m) m))"
proof -
  obtain h where h: "memheaps m p = Some h" "mh_free_list h = free_header p" "rings p (start_addr h) (tailer h) m bs fs"
    using assms(1) by (rule regionE)
  have "seg (free_ring m) (free_header p) fs (free_header p)" "free_header p \<notin> set fs"
    using ringsD(2) [OF h(3)] by (simp_all add: dlist_def)
  from memheap_find_seg [OF this assms(2)] obtain r where
    r: "memheap_find (free_header p) sz (mi_next_free (items m (free_header p))) 0 m = Some r"
       "case first_free sz m fs of Some x \<Rightarrow> r = (x, MEMITEM_SIZE x m) | None \<Rightarrow> fst r = free_header p \<and> snd r < sz"
    unfolding first_free_def by blast
  show ?thesis
  proof (cases "first_free sz m fs")
    case None
    then show ?thesis using r h by (simp add: memheap_take_def case_prod_beta)
  next
    case (Some x)
    then have "sz \<le> MEMITEM_SIZE x m" by (auto simp: first_free_def dest: find_SomeD)
    then show ?thesis using r h Some by (simp add: memheap_take_def)
  qed
qed

text \<open>A free block is handed out. If the rest of it is long enough, it is the new head of the free ring.\<close>

lemma region_block:
  assumes r: "region p m (as @ x # cs) fs" and h: "memheaps m p = Some h"
  shows "distinct (tailer h # as @ x # cs)" "distinct fs" "4 dvd x" "x + 36 \<le> hd (cs @ [tailer h])"
    "MEMITEM_SIZE x m = hd (cs @ [tailer h]) - x - 24" "hd (cs @ [tailer h]) \<le> tailer h" "tailer h + 24 < 2 ^ 32"
    "magic_of m x = (if mh_free m x then RT_MEMHEAP_MAGIC else RT_MEMHEAP_MAGIC OR RT_MEMHEAP_USED)" "0 < x"
    "room (mh_free m) (as @ x # cs) (tailer h) < 2 ^ 32"
    "lent_out p m (as @ x # cs) = lent (mh_free m) (as @ x # cs) (tailer h)"
proof -
  note ri = regionD(4) [OF r h] and d = ringsD [OF regionD(4) [OF r h]]
  show "distinct (tailer h # as @ x # cs)" "distinct fs" using d(1,2) by (simp_all add: dlist_def)
  show "4 dvd x" "magic_of m x = (if mh_free m x then RT_MEMHEAP_MAGIC else RT_MEMHEAP_MAGIC OR RT_MEMHEAP_USED)"
    using d(6) [of x] by (simp_all add: item_ok_def)
  show "x + 36 \<le> hd (cs @ [tailer h])" "MEMITEM_SIZE x m = hd (cs @ [tailer h]) - x - 24" "hd (cs @ [tailer h]) \<le> tailer h"
    using rings_at [OF ri] by simp_all
  show "tailer h + 24 < 2 ^ 32" "0 < x" using regionD(3,9,10) [OF r h] d(7) [of x] by (simp_all add: tailer_def)
  then show "room (mh_free m) (as @ x # cs) (tailer h) < 2 ^ 32"
    using room_le [OF d(3), of "mh_free m"] by simp
  show "lent_out p m (as @ x # cs) = lent (mh_free m) (as @ x # cs) (tailer h)" using h by (simp add: lent_out_def)
qed

lemma region_ring_split:
  assumes r: "region p m bs fs" and x: "x \<in> set bs" "mh_free m x"
  obtains us vs where "fs = us @ x # vs" "x \<notin> set (us @ vs)" "set (us @ vs) = {y \<in> set bs. mh_free m y} - {x}"
proof -
  obtain h where h: "memheaps m p = Some h" "rings p (start_addr h) (tailer h) m bs fs" "set fs = {x \<in> set bs. mh_free m x}"
    using r by (rule regionE)
  have "x \<in> set fs" unfolding h(3) using x by simp
  then obtain us vs where fs: "fs = us @ x # vs" by (meson split_list)
  have "distinct fs" using ringsD(2) [OF h(2)] by (simp add: dlist_def)
  then show thesis using that [OF fs] h(3) fs by auto
qed

lemma carve_split_ok:
  assumes r: "region p m (as @ x # cs) fs" and x: "mh_free m x" and sz: "12 \<le> sz" "4 dvd sz" "sz + 36 \<le> MEMITEM_SIZE x m"
    and h: "memheaps m p = Some h"
  defines "m' \<equiv> memheap_carve p (free_header p) sz x (MEMITEM_SIZE x m) m"
  shows "\<exists>fs'. region p m' (as @ x # (x + 24 + sz) # cs) fs'"
    "lent_out p m' (as @ x # (x + 24 + sz) # cs) = insert (x, sz) (lent_out p m (as @ x # cs))" "elsewhere p m m'"
proof -
  let ?F = "mh_free m" and ?t = "tailer h" and ?n = "x + 24 + sz" and ?v = "available_size h"
  let ?bs = "as @ x # ?n # cs"
  note b = region_block [OF r h]
  have n: "x + 36 \<le> ?n" "?n + 36 \<le> hd (cs @ [?t])" "4 dvd ?n" using sz b(3-6) by auto
  obtain us vs where fs: "fs = us @ x # vs" "x \<notin> set (us @ vs)" "set (us @ vs) = {y \<in> set (as @ x # cs). ?F y} - {x}"
    using region_ring_split [OF r _ x] by auto
  define m1 where "m1 = free_clear x (free_unlink x (block_split p x ?n m))"
  define m2 where "m2 = note_max p (avail_sub p 24 (avail_sub p sz (free_insert (free_header p) ?n m1)))"
  note s1 = stage_split [OF stage_start [OF r h, unfolded fs(1)] n]
  note s2 = stage_free_unlink [OF s1]
  have s3: "stage p h m ?v m1 ?bs (us @ vs)" "mh_free m1 = ?F(?n := True)"
    using stage_free_clear [OF s2 _ fs(2)] by (simp_all add: m1_def)
  have dn: "distinct (?t # ?bs)" using ringsD(1) [OF stage_rings [OF s1]] by (simp add: dlist_def)
  have "?n \<notin> set (us @ vs)" unfolding fs(3) using dn by simp
  note s4 = stage_free_insert [OF s3(1) _ this]
  note s5 = stage_counters(3) [OF stage_counters(2) [OF stage_counters(2) [OF s4]], of sz 24]
  have s6: "stage p h m (sub32 (sub32 ?v sz) 24) m2 ?bs (?n # us @ vs)" "mh_free m2 = ?F(?n := True)"
    using s5 s3(2) by (simp_all add: m2_def)
  have big: "add32 sz 36 = sz + 36" "add32 x (sz + 24) = ?n" using sz(3) b(4-7) by simp_all
  then have m': "m' = mark_used x m2" using sz(3) by (simp add: m'_def memheap_carve_def Let_def m1_def m2_def)
  have st: "stage p h m (sub32 (sub32 ?v sz) 24) m' ?bs (?n # us @ vs)" and f: "mh_free m' = ?F(?n := True, x := False)"
    using stage_mark(1,2) [OF s6(1), of x] s6(2) x m' by simp_all
  have same: "mh_free m' y = ?F y" if "y \<in> set as \<union> set cs" for y using that dn f by auto
  have cong: "room (mh_free m') as x = room ?F as x" "room (mh_free m') cs ?t = room ?F cs ?t"
    "lent (mh_free m') as x = lent ?F as x" "lent (mh_free m') cs ?t = lent ?F cs ?t"
    using same by (blast intro!: room_cong lent_cong)+
  have xn: "\<not> mh_free m' x" "mh_free m' ?n" using f by simp_all
  have "?v = room ?F as x + (hd (cs @ [?t]) - x - 24) + room ?F cs ?t"
    using regionD(8) [OF r h] x by (simp add: room_append)
  then have "sub32 (sub32 ?v sz) 24 = room (mh_free m') ?bs ?t"
    using b(4,5,10) regionD(8) [OF r h] sz(3) xn cong by (simp add: room_append room_Cons)
  note st' = stage_region [OF r h st _ _ _ this]
  have set': "set (?n # us @ vs) = {y \<in> set ?bs. mh_free m' y}" using fs(3) dn f by auto
  have t': "\<not> mh_free m' ?t" using regionD(6) [OF r h] dn f by auto
  have ap': "apart (mh_free m') ?bs" by (rule apart_cut [OF regionD(7) [OF r h]]) (use x f dn in auto)
  show "\<exists>fs'. region p m' ?bs fs'" using st'(1) [OF set' t' ap'] by blast
  show "lent_out p m' ?bs = insert (x, sz) (lent_out p m (as @ x # cs))"
    using st'(2) [OF set' t' ap'] b(11) x xn cong by (simp add: lent_append lent_Cons)
  show "elsewhere p m m'" by (rule stage_elsewhere [OF st h])
qed

lemma carve_whole_ok:
  assumes r: "region p m (as @ x # cs) fs" and x: "mh_free m x" and sz: "12 \<le> sz" "sz \<le> MEMITEM_SIZE x m" "MEMITEM_SIZE x m < sz + 36"
    and h: "memheaps m p = Some h"
  defines "m' \<equiv> memheap_carve p (free_header p) sz x (MEMITEM_SIZE x m) m"
  shows "\<exists>fs'. region p m' (as @ x # cs) fs'"
    "lent_out p m' (as @ x # cs) = insert (x, MEMITEM_SIZE x m) (lent_out p m (as @ x # cs))" "elsewhere p m m'"
proof -
  let ?F = "mh_free m" and ?t = "tailer h" and ?v = "available_size h" and ?s = "MEMITEM_SIZE x m"
  let ?bs = "as @ x # cs"
  note b = region_block [OF r h]
  obtain us vs where fs: "fs = us @ x # vs" "x \<notin> set (us @ vs)" "set (us @ vs) = {y \<in> set ?bs. ?F y} - {x}"
    using region_ring_split [OF r _ x] by auto
  define m1 where "m1 = note_max p (avail_sub p ?s m)"
  define m2 where "m2 = free_clear x (free_unlink x m1)"
  note s0 = stage_counters(3) [OF stage_counters(2) [OF stage_start [OF r h, unfolded fs(1)], of ?s]]
  have s1: "stage p h m (sub32 ?v ?s) m1 ?bs (us @ x # vs)" "mh_free m1 = ?F"
    using s0 by (simp_all add: m1_def)
  note s2 = stage_free_unlink [OF s1(1)]
  have s3: "stage p h m (sub32 ?v ?s) m2 ?bs (us @ vs)" "mh_free m2 = ?F"
    using stage_free_clear [OF s2 _ fs(2)] s1(2) by (simp_all add: m2_def)
  have "sz + 36 < 2 ^ 32" using sz(2) b(4-7,9) by simp
  then have m': "m' = mark_used x m2" using sz(3) by (simp add: m'_def memheap_carve_def Let_def m1_def m2_def)
  have st: "stage p h m (sub32 ?v ?s) m' ?bs (us @ vs)" and f: "mh_free m' = ?F(x := False)"
    using stage_mark(1,2) [OF s3(1), of x] s3(2) x m' by simp_all
  have same: "mh_free m' y = ?F y" if "y \<in> set as \<union> set cs" for y using that b(1) f by auto
  have cong: "room (mh_free m') as x = room ?F as x" "room (mh_free m') cs ?t = room ?F cs ?t"
    "lent (mh_free m') as x = lent ?F as x" "lent (mh_free m') cs ?t = lent ?F cs ?t"
    using same by (blast intro!: room_cong lent_cong)+
  have xn: "\<not> mh_free m' x" using f by simp
  have "?v = room ?F as x + ?s + room ?F cs ?t" using regionD(8) [OF r h] x b(5) by (simp add: room_append)
  then have "sub32 ?v ?s = room (mh_free m') ?bs ?t"
    using b(10) regionD(8) [OF r h] xn cong by (simp add: room_append)
  note st' = stage_region [OF r h st _ _ _ this]
  have set': "set (us @ vs) = {y \<in> set ?bs. mh_free m' y}" using fs(3) b(1) f by auto
  have t': "\<not> mh_free m' ?t" using regionD(6) [OF r h] b(1) f by auto
  have ap': "apart (mh_free m') ?bs" by (rule apart_mono [OF regionD(7) [OF r h]]) (use f in \<open>auto split: if_splits\<close>)
  show "\<exists>fs'. region p m' ?bs fs'" using st'(1) [OF set' t' ap'] by blast
  show "lent_out p m' ?bs = insert (x, ?s) (lent_out p m ?bs)"
    using st'(2) [OF set' t' ap'] b(5,11) x xn cong by (simp add: lent_append)
  show "elsewhere p m m'" by (rule stage_elsewhere [OF st h])
qed

section \<open>Freeing\<close>

lemma apart_glue:
  assumes "apart f as" "as \<noteq> [] \<Longrightarrow> \<not> f (last as)" "apart f (x # cs)"
  shows "apart f (as @ x # cs)"
proof (cases as rule: rev_cases)
  case (snoc ys y)
  then show ?thesis using assms apart_append [of f ys y "x # cs"] by simp
qed (use assms in simp)

lemma size_mark [simp]: "MEMITEM_SIZE x (mark_free i m) = MEMITEM_SIZE x m" "MEMITEM_SIZE x (mark_used i m) = MEMITEM_SIZE x m"
  by (simp_all add: MEMITEM_SIZE_def mark_free_def mark_used_def)

lemma used_iff: "RT_MEMHEAP_IS_USED x m \<longleftrightarrow> \<not> mh_free m x"
  by (simp add: mh_free_def)

lemma stage_small: "stage p h m0 v m bs fs \<Longrightarrow> room F bs (tailer h) < 2 ^ 32"
  using room_le [OF ringsD(3) [OF stage_rings], of p h m0 v m bs fs F] ringsD(4) [OF stage_rings, of p h m0 v m bs fs] by simp

text \<open>The free block \<open>i\<close> takes in the block behind it if that is free.\<close>

definition join_right :: "nat \<Rightarrow> nat \<Rightarrow> mh_memory \<Rightarrow> mh_memory" where
  "join_right p i m =
     (if \<not> RT_MEMHEAP_IS_USED (mi_next (items m i)) m
      then let m = avail_add p RT_MEMHEAP_SIZE m; n = mi_next (items m i) in free_unlink n (block_join i m)
      else m)"

lemma join_right_ok:
  assumes st: "stage p h m0 (room F (as @ i # cs) (tailer h)) m (as @ i # cs) gs" and F: "mh_free m = F" "F i" "\<not> F (tailer h)"
    and gs: "set gs = {y \<in> set (as @ i # cs). F y} - D" "D \<subseteq> {i}"
    and ap: "apart F as" "as \<noteq> [] \<Longrightarrow> \<not> F (last as)" "apart F cs"
  obtains cs' gs' where "stage p h m0 (room F (as @ i # cs') (tailer h)) (join_right p i m) (as @ i # cs') gs'"
    "mh_free (join_right p i m) = F" "set gs' = {y \<in> set (as @ i # cs'). F y} - D" "apart F (as @ i # cs')"
    "lent F (as @ i # cs') (tailer h) = lent F (as @ i # cs) (tailer h)"
proof -
  let ?t = "tailer h"
  have nx: "mi_next (items m i) = hd (cs @ [?t])" using rings_at(1) [OF stage_rings [OF st]] .
  have d: "distinct (?t # as @ i # cs)" "distinct gs"
    using ringsD(1,2) [OF stage_rings [OF st]] by (simp_all add: dlist_def)
  show thesis
  proof (cases "\<exists>y ds. cs = y # ds \<and> F y")
    case False
    then have j: "join_right p i m = m" using nx F by (cases cs) (auto simp: join_right_def used_iff)
    have "apart F (i # cs)" using ap(3) False by (cases cs) auto
    then show thesis using that [of cs gs] j st F(1) gs(1) apart_glue [OF ap(1,2)] by simp
  next
    case True
    then obtain y ds where y: "cs = y # ds" "F y" by blast
    have "y \<in> set gs" unfolding gs(1) using y d gs(2) by auto
    then obtain us vs where uv: "gs = us @ y # vs" by (meson split_list)
    define m1 where "m1 = block_join i (avail_add p 24 m)"
    have "stage p h m0 (add32 (room F (as @ i # cs) ?t) 24) m1 (as @ i # ds) (us @ y # vs)"
      using stage_join [of p h m0 _ _ as i y ds gs] stage_counters(1) [OF st, of 24] uv y(1) by (simp add: m1_def)
    from stage_free_unlink [OF this]
    have st2: "stage p h m0 (add32 (room F (as @ i # cs) ?t) 24) (join_right p i m) (as @ i # ds) (us @ vs)"
      using y nx F(1) by (simp add: join_right_def used_iff Let_def m1_def)
    have gap: "i + 36 \<le> y" "y + 36 \<le> hd (ds @ [?t])"
      using spaced_at(1) [of as i cs ?t] spaced_at(1) [of "as @ [i]" y ds ?t] ringsD(3) [OF stage_rings [OF st]] y(1) by simp_all
    have "room F (as @ i # ds) ?t = room F (as @ i # cs) ?t + 24"
      using F(2) y gap by (simp add: room_append room_Cons)
    then have "add32 (room F (as @ i # cs) ?t) 24 = room F (as @ i # ds) ?t"
      using stage_small [OF st2, of F] by simp
    moreover have "set (us @ vs) = {z \<in> set (as @ i # ds). F z} - D"
      using gs uv d y by auto
    moreover have "apart F (i # ds)" using ap(3) y by (cases ds) auto
    ultimately show thesis using that [of ds "us @ vs"] st2 F apart_glue [OF ap(1,2)] y
      by (simp add: lent_append lent_Cons join_right_def Let_def)
  qed
qed

lemma memheap_give_eq:
  assumes "memheaps m p = Some h" "mh_free_list h = free_header p"
  shows "memheap_give p i m = Some
    (let m1 = avail_add p (MEMITEM_SIZE i m) (mark_free i m); z = mi_prev (items m1 i)
     in if mh_free m1 z then let m2 = block_bypass i (avail_add p 24 m1) in join_right p (mi_prev (items m2 i)) m2
        else free_insert (free_header p) i (join_right p i m1))"
  using assms by (simp add: memheap_give_def join_right_def used_iff Let_def)

text \<open>The block is marked free and counted.\<close>

lemma release_stage:
  assumes r: "region p m (as @ x # cs) fs" and x: "\<not> mh_free m x" and h: "memheaps m p = Some h"
  defines "m1 \<equiv> avail_add p (MEMITEM_SIZE x m) (mark_free x m)" and "F \<equiv> (mh_free m)(x := True)"
  shows "stage p h m (room F (as @ x # cs) (tailer h)) m1 (as @ x # cs) fs" "mh_free m1 = F" "\<not> F (tailer h)"
    "apart F as" "apart F cs" "set fs = {y \<in> set (as @ x # cs). F y} - {x}"
    "lent F (as @ x # cs) (tailer h) = lent_out p m (as @ x # cs) - {(x, MEMITEM_SIZE x m)}"
    "lent_out p m (as @ x # cs) = insert (x, MEMITEM_SIZE x m) (lent F (as @ x # cs) (tailer h))"
proof -
  let ?t = "tailer h" and ?bs = "as @ x # cs" and ?s = "MEMITEM_SIZE x m"
  note b = region_block [OF r h]
  have same: "mh_free m y = F y" if "y \<in> set as \<union> set cs" for y using that b(1) by (auto simp: F_def)
  have cong: "room F as x = room (mh_free m) as x" "room F cs ?t = room (mh_free m) cs ?t"
    "lent F as x = lent (mh_free m) as x" "lent F cs ?t = lent (mh_free m) cs ?t"
    using same by (metis UnCI room_cong lent_cong)+
  note s1 = stage_mark(3,4) [OF stage_start [OF r h], of x]
  have "room F ?bs ?t = available_size h + ?s"
    using regionD(8) [OF r h] x b(5) cong by (simp add: room_append F_def)
  moreover have "room F ?bs ?t < 2 ^ 32" using stage_small [OF stage_start [OF r h]] .
  ultimately have "add32 (available_size h) ?s = room F ?bs ?t" by simp
  then show st: "stage p h m (room F ?bs ?t) m1 ?bs fs"
    using stage_counters(1) [OF s1(1), of ?s] x by (simp add: m1_def)
  show "mh_free m1 = F" using s1(2) x by (simp add: m1_def F_def)
  show "\<not> F ?t" using regionD(6) [OF r h] b(1) by (auto simp: F_def)
  have "apart (mh_free m) as \<and> apart (mh_free m) cs"
    using regionD(7) [OF r h] apart_parts [of "mh_free m" as "x # cs"] apart_parts [of "mh_free m" "[x]" cs] by simp
  then show "apart F as" "apart F cs" using apart_cong [of as F "mh_free m"] apart_cong [of cs F "mh_free m"] same by blast+
  show "set fs = {y \<in> set ?bs. F y} - {x}" using regionD(5) [OF r h] x by (auto simp: F_def)
  have l: "lent (mh_free m) ?bs ?t = insert (x, ?s) (lent F ?bs ?t)"
    using x b(5) cong by (simp add: lent_append F_def)
  then show "lent_out p m ?bs = insert (x, ?s) (lent F ?bs ?t)" using b(11) by simp
  moreover have "(x, ?s) \<notin> lent F ?bs ?t" using lent_mem [of x ?s F ?bs ?t] by (auto simp: F_def)
  ultimately show "lent F ?bs ?t = lent_out p m ?bs - {(x, ?s)}" by blast
qed

lemma memheap_give_ok:
  assumes r: "region p m (as @ x # cs) fs" and x: "\<not> mh_free m x" and h: "memheaps m p = Some h"
  obtains m' bs' fs' where "memheap_give p x m = Some m'" "region p m' bs' fs'" "elsewhere p m m'"
    "lent_out p m' bs' = lent_out p m (as @ x # cs) - {(x, MEMITEM_SIZE x m)}"
proof -
  let ?t = "tailer h" and ?F = "(mh_free m)(x := True)"
  define m1 where "m1 = avail_add p (MEMITEM_SIZE x m) (mark_free x m)"
  note s1 = release_stage [OF r x h, folded m1_def]
  have run: "memheap_give p x m = Some
    (let z = mi_prev (items m1 x)
     in if mh_free m1 z then let m2 = block_bypass x (avail_add p 24 m1) in join_right p (mi_prev (items m2 x)) m2
        else free_insert (free_header p) x (join_right p x m1))"
    using memheap_give_eq [OF h regionD(1) [OF r h]] by (simp add: m1_def Let_def)
  have prev: "mi_prev (items m1 x) = last (?t # as)" using rings_at(2) [OF stage_rings [OF s1(1)]] .
  show thesis
  proof (cases "as \<noteq> [] \<and> ?F (last as)")
    case False
    then have l: "\<not> mh_free m1 (mi_prev (items m1 x))" using prev s1(2,3) by (auto split: if_splits)
    obtain cs' gs' where j: "stage p h m (room ?F (as @ x # cs') ?t) (join_right p x m1) (as @ x # cs') gs'"
      "mh_free (join_right p x m1) = ?F" "set gs' = {y \<in> set (as @ x # cs'). ?F y} - {x}" "apart ?F (as @ x # cs')"
      "lent ?F (as @ x # cs') ?t = lent ?F (as @ x # cs) ?t"
      by (rule join_right_ok [OF s1(1,2) _ s1(3,6) _ s1(4) _ s1(5)]) (use False in simp_all)
    define m' where "m' = free_insert (free_header p) x (join_right p x m1)"
    have st: "stage p h m (room ?F (as @ x # cs') ?t) m' (as @ x # cs') (x # gs')" "mh_free m' = ?F"
      using stage_free_insert [OF j(1), of x] j(2,3) by (simp_all add: m'_def)
    have "memheap_give p x m = Some m'" using run l by (simp add: m'_def Let_def)
    moreover have "set (x # gs') = {y \<in> set (as @ x # cs'). mh_free m' y}" using j(3) st(2) by auto
    note stage_region [OF r h st(1) this]
    ultimately show thesis using that [of m' "as @ x # cs'" "x # gs'"] j(4,5) s1(3,7) st(2) stage_elsewhere [OF st(1) h] by simp
  next
    case True
    then obtain as' z where z: "as = as' @ [z]" "?F z" by (cases as rule: rev_cases) auto
    define m2 where "m2 = block_bypass x (avail_add p 24 m1)"
    have gap: "z + 36 \<le> x" "x + 36 \<le> hd (cs @ [?t])"
      using spaced_at(1) [of as' z "x # cs" ?t] spaced_at(1) [of as x cs ?t] ringsD(3) [OF stage_rings [OF s1(1)]] z(1) by simp_all
    have rm: "room ?F (as' @ z # cs) ?t = room ?F (as @ x # cs) ?t + 24" and
      le: "lent ?F (as' @ z # cs) ?t = lent ?F (as @ x # cs) ?t"
      using z gap by (simp_all add: room_append room_Cons lent_append lent_Cons del: fun_upd_apply)
        (simp_all add: room_append room_Cons lent_append lent_Cons)
    have "stage p h m (add32 (room ?F (as @ x # cs) ?t) 24) m2 (as' @ z # cs) fs"
      using stage_unlink(2) [OF stage_counters(1) [OF s1(1), of 24]] z(1) by (simp add: m2_def)
    then have s2: "stage p h m (room ?F (as' @ z # cs) ?t) m2 (as' @ z # cs) fs" using stage_small rm by (metis add32_small)
    have p2: "mi_prev (items m2 x) = z" using prev z(1) gap by (simp add: m2_def block_bypass_def Let_def)
    have ap: "apart ?F as'" using s1(4) z(1) apart_parts [of ?F as' "[z]"] by simp
    have la: "\<not> ?F (last as')" if "as' \<noteq> []"
      using s1(4) z that apart_append [of ?F "butlast as'" "last as'" "[z]"] by (cases as' rule: rev_cases) auto
    have "x \<notin> set (as' @ z # cs)" using region_block(1) [OF r h] z(1) by auto
    then have fs: "set fs = {y \<in> set (as' @ z # cs). ?F y} - {}" using s1(6) z(1) by auto
    obtain cs' gs' where j: "stage p h m (room ?F (as' @ z # cs') ?t) (join_right p z m2) (as' @ z # cs') gs'"
      "mh_free (join_right p z m2) = ?F" "set gs' = {y \<in> set (as' @ z # cs'). ?F y} - {}" "apart ?F (as' @ z # cs')"
      "lent ?F (as' @ z # cs') ?t = lent ?F (as' @ z # cs) ?t"
      by (rule join_right_ok [OF s2 _ z(2) s1(3) fs _ ap la s1(5)]) (use s1(2) in \<open>simp_all add: m2_def\<close>)
    have "mh_free m1 (mi_prev (items m1 x))" using prev z s1(2) by simp
    then have "memheap_give p x m = Some (join_right p z m2)" using run p2 by (simp add: m2_def Let_def)
    moreover note stage_region [OF r h j(1)]
    ultimately show thesis using that [of "join_right p z m2" "as' @ z # cs'" gs'] j(2-5) s1(3,7) le stage_elsewhere [OF j(1) h] by simp
  qed
qed

end
