(* ===== verification/MemResize.thy ===== *)
theory MemResize
  imports MemRegion
begin

text \<open>
  The two sections of \<^verbatim>\<open>rt_memheap_realloc\<close> that resize a block where it is: it grows into
  the free block behind it, or gives back its end.
\<close>

section \<open>A used block followed by a free one\<close>

lemma apart_resized:
  assumes "apart F (as @ x # cs)" "\<And>y. y \<in> set as \<Longrightarrow> G y = F y" "\<not> G x" "apart G (n # ds)"
  shows "apart G (as @ x # n # ds)"
proof -
  have "apart F (as @ [x])" using assms(1) apart_append [of F as x cs] by simp
  then have "apart G (as @ [x])" by (rule apart_mono) (use assms(2,3) in auto)
  then show ?thesis using assms(3,4) apart_append [of G as x "n # ds"] by simp
qed

lemma apart_head:
  assumes "apart F ds" "\<And>y. y \<in> set ds \<Longrightarrow> G y = F y" "ds \<noteq> [] \<Longrightarrow> \<not> F (hd ds)"
  shows "apart G (n # ds)"
proof -
  have "apart G ds" using assms(1,2) apart_cong [of ds G F] by blast
  then show ?thesis using assms(2,3) by (cases ds) auto
qed

text \<open>
  At the end of both sections the block \<open>x\<close> ends at the free block \<open>n\<close>, which is not yet in
  the free ring; \<open>ds\<close> are the blocks behind it.
\<close>

lemma resized:
  assumes r: "region p m (as @ x # cs) fs" and h: "memheaps m p = Some h" and x: "\<not> mh_free m x"
    and st: "stage p h m v m' (as @ x # n # ds) gs" and f: "mh_free m' = (mh_free m)(n := True)"
    and gs: "set gs = {y \<in> set (as @ x # n # ds). mh_free m' y}" and ap: "apart (mh_free m') (n # ds)"
    and v: "v = room (mh_free m) as x + (hd (ds @ [tailer h]) - n - 24) + room (mh_free m) ds (tailer h)"
    and l: "lent (mh_free m) cs (tailer h) = lent (mh_free m) ds (tailer h)"
  shows "region p m' (as @ x # n # ds) gs" "elsewhere p m m'"
    "lent_out p m' (as @ x # n # ds) = insert (x, n - x - 24) (lent_out p m (as @ x # cs) - {(x, MEMITEM_SIZE x m)})"
proof -
  let ?t = "tailer h" and ?F = "mh_free m" and ?bs = "as @ x # n # ds"
  note b = region_block [OF r h]
  have dn: "distinct (?t # ?bs)" using ringsD(1) [OF stage_rings [OF st]] by (simp add: dlist_def)
  have same: "mh_free m' y = ?F y" if "y \<in> set as \<union> set ds" for y using that dn f by auto
  have cong: "room (mh_free m') as x = room ?F as x" "room (mh_free m') ds ?t = room ?F ds ?t"
    "lent (mh_free m') as x = lent ?F as x" "lent (mh_free m') ds ?t = lent ?F ds ?t"
    using same by (blast intro!: room_cong lent_cong)+
  have xn: "\<not> mh_free m' x" "mh_free m' n" "\<not> mh_free m' ?t" using f x regionD(6) [OF r h] dn by auto
  have v': "v = room (mh_free m') ?bs ?t" using v xn cong by (simp add: room_append room_Cons)
  have ap': "apart (mh_free m') ?bs"
    by (rule apart_resized [OF regionD(7) [OF r h] _ xn(1) ap]) (use same in blast)
  note st' = stage_region [OF r h st gs xn(3) ap' v']
  have "(x, k) \<notin> lent ?F as x \<union> lent ?F ds ?t" for k using lent_mem dn by fastforce
  then show "lent_out p m' ?bs = insert (x, n - x - 24) (lent_out p m (as @ x # cs) - {(x, MEMITEM_SIZE x m)})"
    using st'(2) b(5,11) x xn cong l by (auto simp: lent_append lent_Cons)
  show "region p m' ?bs gs" "elsewhere p m m'" using st'(1) stage_elsewhere [OF st h] by simp_all
qed

section \<open>Shrinking\<close>

text \<open>The new block joins the free ring and is counted.\<close>

lemma shrink_end:
  assumes st: "stage p h m0 v m (as @ x # n # ds) gs" and n: "n \<notin> set gs" and f: "mh_free m = F(n := True)" "\<not> F x"
    and v: "v = room F as x + room F ds (tailer h)"
  defines "m' \<equiv> (let m = free_insert (free_header p) n m in avail_add p (MEMITEM_SIZE n m) m)"
  shows "stage p h m0 (room F as x + (hd (ds @ [tailer h]) - n - 24) + room F ds (tailer h)) m' (as @ x # n # ds) (n # gs)"
    "mh_free m' = mh_free m"
proof -
  let ?t = "tailer h" and ?k = "hd (ds @ [tailer h]) - n - 24"
  have dn: "distinct (?t # as @ x # n # ds)" using ringsD(1) [OF stage_rings [OF st]] by (simp add: dlist_def)
  have same: "mh_free m y = F y" if "y \<in> set as \<union> set ds" for y using that dn f(1) by auto
  have cong: "room (mh_free m) as x = room F as x" "room (mh_free m) ds ?t = room F ds ?t"
    using same by (blast intro!: room_cong)+
  have "mh_free m n" "\<not> mh_free m x" using f dn by auto
  then have "room (mh_free m) (as @ x # n # ds) ?t = v + ?k" using cong v by (simp add: room_append room_Cons)
  then have "add32 v ?k = v + ?k" using stage_small [OF st, of "mh_free m"] by simp
  moreover note s = stage_free_insert [OF st _ n]
  moreover have "MEMITEM_SIZE n (free_insert (free_header p) n m) = ?k"
    using rings_at(3) [of p _ "tailer h" _ "as @ [x]" n ds] stage_rings [OF s] by simp
  ultimately show "stage p h m0 (room F as x + ?k + room F ds ?t) m' (as @ x # n # ds) (n # gs)"
    using stage_counters(1) [OF s, of ?k] v by (simp add: m'_def ac_simps)
  show "mh_free m' = mh_free m" by (simp add: m'_def Let_def)
qed

lemma memheap_shrink_ok:
  assumes r: "region p m (as @ x # cs) fs" and h: "memheaps m p = Some h" and x: "\<not> mh_free m x"
    and sz: "12 \<le> sz" "4 dvd sz" "sz + 36 \<le> MEMITEM_SIZE x m"
  obtains m' bs' fs' where "memheap_shrink p x sz m = Some m'" "region p m' bs' fs'" "elsewhere p m m'"
    "lent_out p m' bs' = insert (x, sz) (lent_out p m (as @ x # cs) - {(x, MEMITEM_SIZE x m)})"
proof -
  let ?t = "tailer h" and ?F = "mh_free m" and ?n = "x + sz + 24" and ?v = "available_size h"
  note b = region_block [OF r h]
  have n: "x + 36 \<le> ?n" "?n + 36 \<le> hd (cs @ [?t])" "4 dvd ?n" "add32 (add32 x sz) 24 = ?n"
    using sz b(3-7) by auto
  define m1 where "m1 = block_split p x ?n m"
  have s1: "stage p h m ?v m1 (as @ x # ?n # cs) fs" "mh_free m1 = ?F(?n := True)"
    using stage_split [OF stage_start [OF r h] n(1-3)] by (simp_all add: m1_def)
  have dn: "distinct (?t # as @ x # ?n # cs)" using ringsD(1) [OF stage_rings [OF s1(1)]] by (simp add: dlist_def)
  have nx: "mi_next (items m1 ?n) = hd (cs @ [?t])"
    using rings_at(1) [of p _ ?t m1 "as @ [x]" ?n cs] stage_rings [OF s1(1)] by simp
  have v: "?v = room ?F as x + room ?F cs ?t" using regionD(8) [OF r h] x by (simp add: room_append)
  have nf: "?n \<notin> set fs" using regionD(5) [OF r h] dn by auto
  have run: "memheap_shrink p x sz m = Some
      (let m2 = (if mh_free m1 (hd (cs @ [?t]))
                 then free_unlink (hd (cs @ [?t])) (block_join ?n (avail_sub p (MEMITEM_SIZE (hd (cs @ [?t])) m1) m1)) else m1);
           m3 = free_insert (free_header p) ?n m2 in avail_add p (MEMITEM_SIZE ?n m3) m3)"
    using h regionD(1) [OF r h] n(4) nx by (simp add: memheap_shrink_def used_iff Let_def m1_def)
  show thesis
  proof (cases "\<exists>y ds. cs = y # ds \<and> ?F y")
    case False
    have "\<not> mh_free m1 (hd (cs @ [?t]))" using False s1(2) regionD(6) [OF r h] dn by (cases cs) auto
    then obtain m' where m': "memheap_shrink p x sz m = Some m'"
      "m' = (let m = free_insert (free_header p) ?n m1 in avail_add p (MEMITEM_SIZE ?n m) m)" using run by (simp add: Let_def)
    note e = shrink_end [OF s1(1) nf s1(2) x v, folded m'(2)]
    have "apart ?F cs" using regionD(7) [OF r h] apart_parts [of ?F "as @ [x]" cs] apart_append [of ?F as x cs]
        apart_parts [of ?F "[x]" cs] by simp
    then have "apart (mh_free m') (?n # cs)"
      by (rule apart_head) (use e(2) s1(2) dn False in \<open>auto simp: neq_Nil_conv\<close>)
    moreover have "set (?n # fs) = {y \<in> set (as @ x # ?n # cs). mh_free m' y}"
      using regionD(5) [OF r h] e(2) s1(2) x dn by auto
    ultimately show thesis using resized [OF r h x e(1)] e(2) s1(2) m'(1) that by simp
  next
    case True
    then obtain y ds where y: "cs = y # ds" "?F y" by blast
    obtain us vs where uv: "fs = us @ y # vs" "y \<notin> set (us @ vs)" "set (us @ vs) = {z \<in> set (as @ x # cs). ?F z} - {y}"
      using region_ring_split [OF r _ y(2)] y(1) by auto
    define m2 where "m2 = free_unlink y (block_join ?n (avail_sub p (MEMITEM_SIZE y m1) m1))"
    have yn: "y \<noteq> ?n" "mh_free m1 y" using dn y s1(2) by auto
    obtain m' where m': "memheap_shrink p x sz m = Some m'"
      "m' = (let m = free_insert (free_header p) ?n m2 in avail_add p (MEMITEM_SIZE ?n m) m)"
      using run y(1) yn(2) by (simp add: m2_def Let_def)
    have sy: "MEMITEM_SIZE y m1 = hd (ds @ [?t]) - y - 24"
      using rings_at(3) [of p _ ?t m1 "as @ [x, ?n]" y ds] stage_rings [OF s1(1)] y(1) by simp
    have v2: "sub32 ?v (MEMITEM_SIZE y m1) = room ?F as x + room ?F ds ?t"
      using v y sy b(10) regionD(8) [OF r h] by (simp add: room_Cons)
    have "stage p h m (sub32 ?v (MEMITEM_SIZE y m1)) (block_join ?n (avail_sub p (MEMITEM_SIZE y m1) m1)) (as @ x # ?n # ds) fs"
      using stage_join [of p h m _ _ "as @ [x]" ?n y ds fs] stage_counters(2) [OF s1(1)] y(1) by simp
    from stage_free_unlink [OF this [unfolded uv(1)]]
    have s2: "stage p h m (sub32 ?v (MEMITEM_SIZE y m1)) m2 (as @ x # ?n # ds) (us @ vs)" "mh_free m2 = ?F(?n := True)"
      using s1(2) by (simp_all add: m2_def)
    have "?n \<notin> set (us @ vs)" using nf uv(1) by auto
    note e = shrink_end [OF s2(1) this s2(2) x v2, folded m'(2)]
    have d: "apart ?F (y # ds)" using regionD(7) [OF r h] apart_parts [of ?F "[x]" cs] apart_append [of ?F as x cs] y(1) by simp
    then have ap: "apart ?F ds" "ds \<noteq> [] \<Longrightarrow> \<not> ?F (hd ds)" using y(2) by (cases ds; simp)+
    have "apart (mh_free m') (?n # ds)"
      by (rule apart_head [OF ap(1) _ ap(2)]) (use e(2) s2(2) dn y(1) in auto)
    moreover have "set (?n # us @ vs) = {z \<in> set (as @ x # ?n # ds). mh_free m' z}"
      using uv(3) e(2) s2(2) x dn y by auto
    moreover have "lent ?F cs ?t = lent ?F ds ?t" using y by (simp add: lent_Cons)
    ultimately show thesis using resized [OF r h x e(1)] e(2) s2(2) m'(1) that by simp
  qed
qed

section \<open>Growing\<close>

lemma memheap_grow_not:
  assumes r: "region p m (as @ x # cs) fs" and h: "memheaps m p = Some h"
    and n: "\<not> (\<exists>y ds. cs = y # ds \<and> mh_free m y \<and> add32 (MEMITEM_SIZE y m) (MEMITEM_SIZE x m) > add32 sz 12)"
  shows "memheap_grow p x (MEMITEM_SIZE x m) sz m = Some (False, m)"
proof -
  note b = region_block [OF r h] and nx = rings_at(1) [OF regionD(4) [OF r h]]
  have "x < hd (cs @ [tailer h])" using b(4) by simp
  moreover have "\<not> (mh_free m (hd (cs @ [tailer h])) \<and>
      add32 (MEMITEM_SIZE (hd (cs @ [tailer h])) m) (MEMITEM_SIZE x m) > add32 sz 12)"
    using n regionD(6) [OF r h] by (cases cs) auto
  ultimately show ?thesis using h nx by (simp add: memheap_grow_def used_iff Let_def)
qed

lemma memheap_grow_ok:
  assumes r: "region p m (as @ x # y # ds) fs" and h: "memheaps m p = Some h" and x: "\<not> mh_free m x" and y: "mh_free m y"
    and sz: "4 dvd sz" "MEMITEM_SIZE x m < sz" "sz + 12 < MEMITEM_SIZE y m + MEMITEM_SIZE x m"
  obtains m' bs' fs' where "memheap_grow p x (MEMITEM_SIZE x m) sz m = Some (True, m')" "region p m' bs' fs'" "elsewhere p m m'"
    "lent_out p m' bs' = insert (x, sz) (lent_out p m (as @ x # y # ds) - {(x, MEMITEM_SIZE x m)})"
proof -
  let ?t = "tailer h" and ?F = "mh_free m" and ?n = "x + 24 + sz" and ?v = "available_size h"
  note b = region_block [OF r h] and nx = rings_at(1) [OF regionD(4) [OF r h]]
  have r2: "region p m ((as @ [x]) @ y # ds) fs" using r by simp
  note c = region_block [OF r2 h]
  have sx: "MEMITEM_SIZE x m = y - x - 24" "x + 36 \<le> y" and sy: "MEMITEM_SIZE y m = hd (ds @ [?t]) - y - 24" "y + 36 \<le> hd (ds @ [?t])"
    using b(4,5) c(4,5) by simp_all
  have n: "x + 36 \<le> ?n" "?n + 36 \<le> hd (ds @ [?t])" "4 dvd ?n" "y < ?n" using sx sy sz b(3) by auto
  have big: "add32 (add32 x 24) sz = ?n" "add32 (MEMITEM_SIZE y m) (MEMITEM_SIZE x m) > add32 sz 12"
    using n(2) sz(3) sx sy c(6,7) by simp_all
  obtain us vs where uv: "fs = us @ y # vs" "y \<notin> set (us @ vs)" "set (us @ vs) = {z \<in> set (as @ x # y # ds). ?F z} - {y}"
    using region_ring_split [OF r _ y] by auto
  define m1 where "m1 = block_unlink y (free_unlink y (note_max p (avail_sub p (sub32 sz (MEMITEM_SIZE x m)) m)))"
  define m2 where "m2 = block_split p x ?n m1"
  define m' where "m' = free_insert (free_header p) ?n m2"
  have run: "memheap_grow p x (MEMITEM_SIZE x m) sz m = Some (True, m')"
    using h regionD(1) [OF r h] nx y big b(4) by (simp add: memheap_grow_def used_iff Let_def m'_def m2_def m1_def)
  let ?w = "sub32 ?v (sub32 sz (MEMITEM_SIZE x m))"
  note s0 = stage_counters(3) [OF stage_counters(2) [OF stage_start [OF r h, unfolded uv(1)]], of "sub32 sz (MEMITEM_SIZE x m)"]
  have s1: "stage p h m ?w m1 (as @ x # ds) (us @ vs)"
    using stage_unlink(1) [of p h m ?w _ "as @ [x]" y ds "us @ vs"] stage_free_unlink [OF s0] by (simp add: m1_def)
  have s2: "stage p h m ?w m2 (as @ x # ?n # ds) (us @ vs)"
    using stage_split [OF s1 n(1,2,3)] by (simp add: m2_def)
  have dn: "distinct (?t # as @ x # ?n # ds)" using ringsD(1) [OF stage_rings [OF s2]] by (simp add: dlist_def)
  have "?n \<notin> set (us @ vs)" unfolding uv(3) using dn n(4) by auto
  from stage_free_insert [OF s2 _ this] have s3: "stage p h m ?w m' (as @ x # ?n # ds) (?n # us @ vs)" by (simp add: m'_def)
  have f: "mh_free m' = ?F(?n := True)" by (simp add: m'_def m2_def m1_def)
  have "apart ?F (y # ds)" using regionD(7) [OF r h] apart_append [of ?F "as @ [x]" y ds] by simp
  then have ap: "apart ?F ds" "ds \<noteq> [] \<Longrightarrow> \<not> ?F (hd ds)" using y by (cases ds; simp)+
  have apn: "apart (mh_free m') (?n # ds)" by (rule apart_head [OF ap(1) _ ap(2)]) (use f dn in auto)
  have set': "set (?n # us @ vs) = {z \<in> set (as @ x # ?n # ds). mh_free m' z}"
    using uv(3) f x dn b(1) by auto
  have v: "?w = room ?F as x + (hd (ds @ [?t]) - ?n - 24) + room ?F ds ?t"
  proof -
    have V: "?v = room ?F as x + MEMITEM_SIZE y m + room ?F ds ?t"
      using regionD(8) [OF r h] x y sy by (simp add: room_append room_Cons)
    have "?v < 2 ^ 32" and k: "sub32 sz (MEMITEM_SIZE x m) = sz - MEMITEM_SIZE x m"
      using b(10) regionD(8) [OF r h] sz(2) n(2) c(6,7) by simp_all
    moreover have "sz - MEMITEM_SIZE x m \<le> ?v" using V sz(3) by linarith
    ultimately have w: "?w = ?v - (sz - MEMITEM_SIZE x m)" unfolding k by (intro sub32_small)
    have "hd (ds @ [?t]) = ?n + 24 + (MEMITEM_SIZE x m + MEMITEM_SIZE y m - sz)" using sx sy sz(3) by simp
    then have "hd (ds @ [?t]) - ?n - 24 = MEMITEM_SIZE x m + MEMITEM_SIZE y m - sz" by simp
    then show ?thesis unfolding w unfolding V using sz(2,3) by simp
  qed
  have "lent ?F (y # ds) ?t = lent ?F ds ?t" using y by (simp add: lent_Cons)
  from resized [OF r h x s3 f set' apn v this] show thesis using that [OF run] by simp
qed

end
