(* ===== verification/MemHeapSpec.thy ===== *)
theory MemHeapSpec
  imports MemResize Alloc
begin

text \<open>
  What the sections of \<^verbatim>\<open>src/memheap.c\<close> promise, in terms of the blocks that are out:
  the addresses that were handed out and not given back, with the number of bytes that belong to each.
\<close>

section \<open>The blocks that are out\<close>

definition memheap_ok :: "nat \<Rightarrow> mh_memory \<Rightarrow> bool" where
  "memheap_ok p m \<longleftrightarrow> (\<exists>bs fs. region p m bs fs)"

definition mh_out :: "nat \<Rightarrow> mh_memory \<Rightarrow> (nat \<times> nat) set" where
  "mh_out p m = {(x + 24, n) | x n bs fs. region p m bs fs \<and> (x, n) \<in> lent_out p m bs}"

definition memheap_fits :: "nat \<Rightarrow> nat \<Rightarrow> mh_memory \<Rightarrow> bool" where
  "memheap_fits p n m \<longleftrightarrow> (\<exists>bs fs x. region p m bs fs \<and> first_free n m fs = Some x)"

lemma seg_unique: "\<lbrakk>seg h a xs l; seg h a ys l; l \<notin> set xs; l \<notin> set ys\<rbrakk> \<Longrightarrow> xs = ys"
proof (induction xs arbitrary: a ys)
  case Nil
  then show ?case by (cases ys) auto
next
  case (Cons x xs)
  then show ?case by (cases ys) auto
qed

lemma dlist_unique: "\<lbrakk>dlist h l xs; dlist h l ys\<rbrakk> \<Longrightarrow> xs = ys"
  using seg_unique by (auto simp: dlist_def)

lemma region_unique:
  assumes "region p m bs fs" "region p m bs' fs'"
  shows "bs' = bs" "fs' = fs"
proof -
  obtain h where h: "memheaps m p = Some h" "rings p (start_addr h) (tailer h) m bs fs" using assms(1) by (rule regionE)
  have "rings p (start_addr h) (tailer h) m bs' fs'" by (rule regionD(4) [OF assms(2) h(1)])
  then show "bs' = bs" "fs' = fs" using dlist_unique ringsD(1,2) [OF h(2)] ringsD(1,2) [of p _ _ m bs' fs'] by blast+
qed

lemma mh_out_eq:
  assumes "region p m bs fs"
  shows "mh_out p m = (\<lambda>(x, n). (x + 24, n)) ` lent_out p m bs"
proof -
  have "region p m bs' fs' \<longleftrightarrow> bs' = bs \<and> fs' = fs" for bs' fs'
    using assms region_unique [OF assms] by blast
  then show ?thesis unfolding mh_out_def by force
qed

text \<open>A block that is out, in the ring.\<close>

lemma mh_outE:
  assumes "region p m bs fs" "(a, n) \<in> mh_out p m" "memheaps m p = Some h"
  obtains as x cs where "bs = as @ x # cs" "a = x + 24" "\<not> mh_free m x" "n = MEMITEM_SIZE x m" "sub32 a 24 = x"
    "start_addr h \<le> x" "12 \<le> n" "a + n = mi_next (items m x)" "a + n \<le> tailer h" "4 dvd a" "mi_pool_ptr (items m x) = p"
    "a < 2 ^ 32" "n < 2 ^ 32" "memheap_checks x m = Some ()"
proof -
  obtain x where x: "a = x + 24" "(x, n) \<in> lent (mh_free m) bs (tailer h)"
    using assms(2,3) unfolding mh_out_eq [OF assms(1)] by (auto simp: lent_out_def)
  note l = lent_mem [OF x(2)]
  then obtain as cs where bs: "bs = as @ x # cs" by (meson split_list)
  note r = assms(1) [unfolded bs] and b = region_block [OF assms(1) [unfolded bs] assms(3)]
  note ri = regionD(4) [OF r assms(3)] and at = rings_at [OF regionD(4) [OF r assms(3)]]
  have nn: "n = hd (cs @ [tailer h]) - x - 24"
  proof -
    have "(x, k) \<notin> lent (mh_free m) as x \<union> lent (mh_free m) cs (tailer h)" for k using lent_mem b(1) by fastforce
    then show ?thesis using x(2) l by (auto simp: bs lent_append)
  qed
  have nx: "mi_next (items m x) \<in> set (tailer h # bs)" using at(1) bs by (cases cs) auto
  then have io: "item_ok p m (mi_next (items m x))" "item_ok p m x" using ringsD(6) [OF ri] bs by auto
  have "magic_of m (mi_next (items m x)) AND RT_MEMHEAP_MASK = RT_MEMHEAP_MAGIC" "magic_of m x AND RT_MEMHEAP_MASK = RT_MEMHEAP_MAGIC"
    using io by (auto simp: item_ok_def split: if_splits)
  then have "memheap_checks x m = Some ()"
    using l io(2) regionD(2) [OF r assms(3)] by (simp add: memheap_checks_def mh_free_magic item_ok_def)
  moreover have "4 dvd a" using b(3) x(1) by simp
  moreover have "start_addr h \<le> x" using ringsD(7) [OF ri, of x] by simp
  ultimately show thesis using that [OF bs x(1)] l nn b(4-7,9) at(1) io(2) x(1) by (auto simp: item_ok_def)
qed

lemma mh_out_disjoint:
  assumes ok: "memheap_ok p m" and h: "memheaps m p = Some h" and o: "(a, n) \<in> mh_out p m" "(b, k) \<in> mh_out p m"
  shows "start_addr h + 24 \<le> a" "a + n \<le> tailer h" "4 dvd a" "12 \<le> n" "a < b \<Longrightarrow> a + n + 24 \<le> b" "a = b \<Longrightarrow> n = k"
proof -
  obtain bs fs where r: "region p m bs fs" using ok by (auto simp: memheap_ok_def)
  obtain as x cs where x: "bs = as @ x # cs" "a = x + 24" "n = MEMITEM_SIZE x m" "start_addr h \<le> x" "12 \<le> n"
    "a + n = mi_next (items m x)" "a + n \<le> tailer h" "4 dvd a" using mh_outE [OF r o(1) h] by metis
  obtain as' y cs' where y: "bs = as' @ y # cs'" "b = y + 24" "k = MEMITEM_SIZE y m" using mh_outE [OF r o(2) h] by metis
  show "start_addr h + 24 \<le> a" "a + n \<le> tailer h" "4 dvd a" "12 \<le> n" "a = b \<Longrightarrow> n = k" using x y by auto
  show "a + n + 24 \<le> b" if "a < b"
  proof -
    have sp: "spaced (as @ x # cs) (tailer h)" "rings p (start_addr h) (tailer h) m (as @ x # cs) fs"
      using regionD(4) [OF r h] ringsD(3) [OF regionD(4) [OF r h]] x(1) by simp_all
    have "y \<in> set cs" using that x(1,2) y(1,2) spaced_at(4) [OF sp(1)] by (metis Un_iff add_less_cancel_right in_set_conv_decomp
          le_add1 less_le_not_le order_trans set_ConsD set_append)
    then have "hd (cs @ [tailer h]) \<le> y" using spaced_at(5) [OF sp(1)] by simp
    then show ?thesis using x(6) y(2) rings_at(1) [OF sp(2)] by simp
  qed
qed

text \<open>Heaps whose memory does not overlap do not see each other.\<close>

definition memheap_area :: "nat \<Rightarrow> mh_memory \<Rightarrow> nat set" where
  "memheap_area p m = (case memheaps m p of None \<Rightarrow> {} | Some h \<Rightarrow> area p (start_addr h) (tailer h))"

lemma memheap_apart:
  assumes e: "elsewhere p m m'" and q: "q \<noteq> p" "memheap_ok q m" "memheap_area p m \<inter> memheap_area q m = {}"
  shows "memheap_ok q m'" "mh_out q m' = mh_out q m"
proof -
  obtain bs fs where r: "region q m bs fs" using q(2) by (auto simp: memheap_ok_def)
  obtain g where g: "memheaps m q = Some g" using r by (rule regionE)
  obtain h where h: "memheaps m p = Some h" "\<And>b. b \<notin> area p (start_addr h) (tailer h) \<Longrightarrow> items m' b = items m b"
    using e by (auto simp: elsewhere_def)
  have "items m' b = items m b" if "b \<in> area q (start_addr g) (tailer g)" for b
    using that q(3) h g by (auto simp: memheap_area_def)
  note lo = rings_local [OF regionD(4) [OF r g] this]
  have g': "memheaps m' q = Some g" using e q(1) g by (simp add: elsewhere_def)
  have f: "mh_free m' x = mh_free m x" if "x \<in> set (tailer g # bs)" for x
    using lo(2) [of x] that ringsD(7,9) [OF regionD(4) [OF r g]] by fastforce
  have c: "room (mh_free m') bs (tailer g) = room (mh_free m) bs (tailer g)"
    "lent (mh_free m') bs (tailer g) = lent (mh_free m) bs (tailer g)"
    using f by (auto intro!: room_cong lent_cong)
  have "{x \<in> set bs. mh_free m' x} = {x \<in> set bs. mh_free m x}" using f by auto
  moreover have "apart (mh_free m') bs" using regionD(7) [OF r g] apart_cong [of bs "mh_free m'" "mh_free m"] f by auto
  ultimately have r': "region q m' bs fs"
    using regionD [OF r g] g' lo(1) f c unfolding region_def by auto
  then show "memheap_ok q m'" by (auto simp: memheap_ok_def)
  show "mh_out q m' = mh_out q m" using c g g' by (simp add: mh_out_eq [OF r] mh_out_eq [OF r'] lent_out_def)
qed

section \<open>The sections on the blocks that are out\<close>

text \<open>Allocation gives the block at the first free item that is long enough, and fails only if there is none.\<close>

lemma take_spec:
  assumes ok: "memheap_ok p m" and f: "memheap_fits p n m" and n: "12 \<le> n" "4 dvd n"
  obtains a k m' bs fs where "memheap_take p n m = Some (Some a, m')" "memheap_ok p m'" "elsewhere p m m'"
    "mh_out p m' = insert (a, k) (mh_out p m)" "n \<le> k" "a \<notin> fst ` mh_out p m"
    "region p m bs fs" "first_free n m fs = Some (a - 24)"
proof -
  obtain bs fs x where r: "region p m bs fs" and x: "first_free n m fs = Some x" using f by (auto simp: memheap_fits_def)
  obtain h where h: "memheaps m p = Some h" using r by (rule regionE)
  have xf: "x \<in> set fs" "n \<le> MEMITEM_SIZE x m" using find_SomeD x unfolding first_free_def by fastforce+
  then have xb: "x \<in> set bs" "mh_free m x" using regionD(5) [OF r h] by auto
  then obtain as cs where bs: "bs = as @ x # cs" by (meson split_list)
  note r' = r [unfolded bs] and b = region_block [OF r [unfolded bs] h]
  define m' where "m' = memheap_carve p (free_header p) n x (MEMITEM_SIZE x m) m"
  have "add32 x 24 = x + 24" using b(4-7) by simp
  then have run: "memheap_take p n m = Some (Some (x + 24), m')"
    using memheap_take_eq [OF r, of n] n(1) x by (simp add: m'_def)
  have fresh: "x + 24 \<notin> fst ` mh_out p m"
    using xb(2) h lent_mem unfolding mh_out_eq [OF r] lent_out_def by fastforce
  obtain bs' k where k: "\<exists>fs'. region p m' bs' fs'" "lent_out p m' bs' = insert (x, k) (lent_out p m bs)" "elsewhere p m m'" "n \<le> k"
  proof (cases "n + 36 \<le> MEMITEM_SIZE x m")
    case True
    then show thesis using that carve_split_ok [OF r' xb(2) n True h] by (simp add: m'_def bs)
  next
    case False
    then show thesis using that carve_whole_ok [OF r' xb(2) n(1) xf(2) _ h] xf(2) by (simp add: m'_def bs)
  qed
  then obtain fs' where rr: "region p m' bs' fs'" by blast
  then have "memheap_ok p m'" by (auto simp: memheap_ok_def)
  moreover have "mh_out p m' = insert (x + 24, k) (mh_out p m)" by (simp add: mh_out_eq [OF rr] mh_out_eq [OF r] k(2))
  ultimately show thesis using that [OF run _ k(3) _ k(4) fresh r] x by simp
qed

lemma take_none:
  assumes "memheap_ok p m" "\<not> memheap_fits p n m" "0 < n"
  shows "memheap_take p n m = Some (None, m)"
proof -
  obtain bs fs where r: "region p m bs fs" using assms(1) by (auto simp: memheap_ok_def)
  then have "first_free n m fs = None" using assms(2) unfolding memheap_fits_def by (metis not_None_eq)
  then show ?thesis using memheap_take_eq [OF r assms(3)] by simp
qed

text \<open>What resizing does to one block does not touch the others.\<close>

lemma out_swap:
  assumes r: "region p m bs fs" and r': "region p m' bs' fs'"
  shows "lent_out p m' bs' = lent_out p m bs - {(x, n)} \<Longrightarrow> mh_out p m' = mh_out p m - {(x + 24, n)}"
    "lent_out p m' bs' = insert (x, k) (lent_out p m bs - {(x, n)}) \<Longrightarrow> mh_out p m' = insert (x + 24, k) (mh_out p m - {(x + 24, n)})"
proof -
  have "inj (\<lambda>(x :: nat, n :: nat). (x + 24, n))" by (auto simp: inj_def)
  note d = image_set_diff [OF this]
  show "lent_out p m' bs' = lent_out p m bs - {(x, n)} \<Longrightarrow> mh_out p m' = mh_out p m - {(x + 24, n)}"
    "lent_out p m' bs' = insert (x, k) (lent_out p m bs - {(x, n)}) \<Longrightarrow> mh_out p m' = insert (x + 24, k) (mh_out p m - {(x + 24, n)})"
    by (simp_all add: mh_out_eq [OF r] mh_out_eq [OF r'] d)
qed

lemma give_spec:
  assumes ok: "memheap_ok p m" and a: "(a, n) \<in> mh_out p m"
  obtains m' where "memheap_give p (sub32 a 24) m = Some m'" "memheap_ok p m'" "elsewhere p m m'"
    "mh_out p m' = mh_out p m - {(a, n)}"
proof -
  obtain bs fs where r: "region p m bs fs" using ok by (auto simp: memheap_ok_def)
  obtain h where h: "memheaps m p = Some h" using r by (rule regionE)
  obtain as x cs where x: "bs = as @ x # cs" "a = x + 24" "\<not> mh_free m x" "n = MEMITEM_SIZE x m" "sub32 a 24 = x"
    using mh_outE [OF r a h] by metis
  obtain m' bs' fs' where m': "memheap_give p x m = Some m'" "region p m' bs' fs'" "elsewhere p m m'"
    "lent_out p m' bs' = lent_out p m bs - {(x, n)}" using memheap_give_ok [OF r [unfolded x(1)] x(3) h] x(1,4) by metis
  have "mh_out p m' = mh_out p m - {(a, n)}" using out_swap(1) [OF r m'(2,4)] x(2) by simp
  then show thesis using that m' x(5) by (auto simp: memheap_ok_def)
qed

lemma shrink_spec:
  assumes ok: "memheap_ok p m" and a: "(a, n) \<in> mh_out p m" and k: "12 \<le> k" "4 dvd k" "k + 36 \<le> n"
  obtains m' where "memheap_shrink p (sub32 a 24) k m = Some m'" "memheap_ok p m'" "elsewhere p m m'"
    "mh_out p m' = insert (a, k) (mh_out p m - {(a, n)})"
proof -
  obtain bs fs where r: "region p m bs fs" using ok by (auto simp: memheap_ok_def)
  obtain h where h: "memheaps m p = Some h" using r by (rule regionE)
  obtain as x cs where x: "bs = as @ x # cs" "a = x + 24" "\<not> mh_free m x" "n = MEMITEM_SIZE x m" "sub32 a 24 = x"
    using mh_outE [OF r a h] by metis
  obtain m' bs' fs' where m': "memheap_shrink p x k m = Some m'" "region p m' bs' fs'" "elsewhere p m m'"
    "lent_out p m' bs' = insert (x, k) (lent_out p m bs - {(x, n)})"
    using memheap_shrink_ok [OF r [unfolded x(1)] h x(3) k(1,2)] k(3) x(1,4) by metis
  have "mh_out p m' = insert (a, k) (mh_out p m - {(a, n)})" using out_swap(2) [OF r m'(2,4)] x(2) by simp
  then show thesis using that m' x(5) by (auto simp: memheap_ok_def)
qed

lemma grow_spec:
  assumes ok: "memheap_ok p m" and a: "(a, n) \<in> mh_out p m" and k: "4 dvd k" "n < k" "k + 12 < 2 ^ 32"
  obtains b m' where "memheap_grow p (sub32 a 24) n k m = Some (b, m')" "memheap_ok p m'" "elsewhere p m m'"
    "if b then mh_out p m' = insert (a, k) (mh_out p m - {(a, n)}) else m' = m"
proof -
  obtain bs fs where r: "region p m bs fs" using ok by (auto simp: memheap_ok_def)
  obtain h where h: "memheaps m p = Some h" using r by (rule regionE)
  obtain as x cs where x: "bs = as @ x # cs" "a = x + 24" "\<not> mh_free m x" "n = MEMITEM_SIZE x m" "sub32 a 24 = x"
    using mh_outE [OF r a h] by metis
  note r' = r [unfolded x(1)]
  show thesis
  proof (cases "\<exists>y ds. cs = y # ds \<and> mh_free m y \<and> add32 (MEMITEM_SIZE y m) (MEMITEM_SIZE x m) > add32 k 12")
    case False
    have "elsewhere p m m" using h by (auto simp: elsewhere_def same_place_def)
    then show thesis using that [of False m] memheap_grow_not [OF r' h False] ok x(4,5) by simp
  next
    case True
    then obtain y ds where y: "cs = y # ds" "mh_free m y" "add32 (MEMITEM_SIZE y m) (MEMITEM_SIZE x m) > add32 k 12" by blast
    have c: "region p m ((as @ [x]) @ y # ds) fs" using r' y(1) by simp
    note b = region_block [OF r' h] region_block [OF c h]
    have "MEMITEM_SIZE y m + MEMITEM_SIZE x m < 2 ^ 32" using b(4,5,6,7,15,16,17) y(1) by simp
    then have "k + 12 < MEMITEM_SIZE y m + MEMITEM_SIZE x m" using y(3) k(3) by simp
    from memheap_grow_ok [OF r' [unfolded y(1)] h x(3) y(2) k(1) _ this] obtain m' bs' fs' where
      m': "memheap_grow p x (MEMITEM_SIZE x m) k m = Some (True, m')" "region p m' bs' fs'" "elsewhere p m m'"
      "lent_out p m' bs' = insert (x, k) (lent_out p m bs - {(x, n)})" using k(2) x(1,4) y(1) by metis
    have "mh_out p m' = insert (a, k) (mh_out p m - {(a, n)})" using out_swap(2) [OF r m'(2,4)] x(2) by simp
    then show thesis using that [of True m'] m' x(4,5) by (auto simp: memheap_ok_def)
  qed
qed

section \<open>A new heap\<close>

text \<open>A heap on the \<open>n\<close> bytes at \<open>a\<close>.\<close>

definition memheap_at :: "nat \<Rightarrow> nat \<Rightarrow> nat \<Rightarrow> mh_memory \<Rightarrow> bool" where
  "memheap_at p a n m \<longleftrightarrow> memheap_ok p m \<and> (\<exists>h. memheaps m p = Some h \<and> start_addr h = a \<and> pool_size h = n)"

lemma memheap_at_elsewhere: "\<lbrakk>memheap_at p a n m; elsewhere p m m'; memheap_ok p m'\<rbrakk> \<Longrightarrow> memheap_at p a n m'"
  by (auto simp: memheap_at_def elsewhere_def same_place_def)

lemma memheap_layout_ok:
  fixes sz :: u32
  defines "n \<equiv> unat (RT_ALIGN_DOWN sz 4)"
  assumes p: "p \<noteq> 0" "free_header p \<notin> {a..a + n - 24}" and a: "0 < a" "4 dvd a" "60 \<le> n" "a + n < 2 ^ 32"
  shows "memheap_at p a n (memheap_layout p a sz m)" "mh_out p (memheap_layout p a sz m) = {}"
    "region p (memheap_layout p a sz m) [a] [a]"
proof -
  let ?m = "memheap_layout p a sz m" and ?t = "a + n - 24" and ?l = "free_header p"
  have t: "add32 (add32 a (n - 48)) 24 = ?t" "sub32 n 48 = n - 48" "sub32 n (n - 48) = 48" using a by simp_all
  have ne: "?l \<noteq> a" "?l \<noteq> ?t" "a \<noteq> ?t" using p(2) a(3) by auto
  have "4 dvd n" unfolding n_def by (rule RT_ALIGN_dvd)
  then have dv: "4 dvd ?t" using a(2,3) by simp
  have I: "items ?m = (items m)(?l := \<lparr>mi_magic = RT_MEMHEAP_MAGIC, mi_pool_ptr = p, mi_next = 0, mi_prev = 0, mi_next_free = a, mi_prev_free = a\<rparr>,
      a := \<lparr>mi_magic = RT_MEMHEAP_MAGIC, mi_pool_ptr = p, mi_next = ?t, mi_prev = ?t, mi_next_free = ?l, mi_prev_free = ?l\<rparr>,
      ?t := \<lparr>mi_magic = RT_MEMHEAP_MAGIC OR RT_MEMHEAP_USED, mi_pool_ptr = p, mi_next = a, mi_prev = a, mi_next_free = 0, mi_prev_free = 0\<rparr>)"
    using ne t by (simp add: memheap_layout_def Let_def free_insert_def n_def [symmetric] fun_eq_iff)
  have H: "memheaps ?m p = Some \<lparr>start_addr = a, pool_size = n, available_size = n - 48, max_used_size = 48,
      mh_block_list = a, mh_free_list = ?l\<rparr>" (is "_ = Some ?h")
    using t by (simp add: memheap_layout_def Let_def n_def [symmetric])
  have tl: "tailer ?h = ?t" by (simp add: tailer_def)
  have f: "mh_free ?m a" "\<not> mh_free ?m ?t" using ne by (simp_all add: mh_free_magic I)
  have "rings p a ?t ?m [a] [a]"
  proof -
    have "a + 36 \<le> ?t" "a \<le> ?t" "?t < 2 ^ 32" using a(3,4) by linarith+
    then show ?thesis using ne a(1,2) p dv f by (simp add: rings_def dlist_def I spaced_def item_ok_def)
  qed
  then have r: "region p ?m [a] [a]"
    using a p f by (auto simp: region_def H tl room_def)
  then show "region p ?m [a] [a]" .
  from r show "memheap_at p a n ?m" by (auto simp: memheap_at_def memheap_ok_def H)
  show "mh_out p ?m = {}" using f(1) by (auto simp: mh_out_eq [OF r] lent_out_def H lent_def)
qed

section \<open>A heap as an allocator\<close>

definition memheap_room :: "nat \<Rightarrow> nat \<Rightarrow> mh_memory \<Rightarrow> bool" where
  "memheap_room p n m \<longleftrightarrow> (\<exists>h. memheaps m p = Some h \<and> n < available_size h) \<and> memheap_fits p n m"

definition memheap_serve :: "nat \<Rightarrow> u32 \<Rightarrow> mh_memory \<Rightarrow> (nat option \<times> mh_memory) option" where
  "memheap_serve p sz m =
     do { h \<leftarrow> memheaps m p;
          if memheap_size sz < available_size h then memheap_take p (memheap_size sz) m else Some (None, m) }"

lemma memheap_size_ok:
  "12 \<le> memheap_size sz" "4 dvd memheap_size sz" "unat (RT_ALIGN sz 4) \<le> memheap_size sz" "memheap_size sz < 2 ^ 32"
  using RT_ALIGN_dvd(1) [of sz] unsigned_less [of "RT_ALIGN sz 4", where 'a = nat] by (simp_all add: memheap_size_def Let_def)

interpretation region_alloc: allocator "memheap_at p a n" "\<lambda>m. fst ` mh_out p m" "\<lambda>sz. memheap_room p (memheap_size sz)"
    "memheap_serve p" "\<lambda>b. memheap_give p (sub32 b 24)" for p a n
proof unfold_locales
  fix m sz
  assume at: "memheap_at p a n m" and ro: "memheap_room p (memheap_size sz) m"
  then have ok: "memheap_ok p m" "memheap_fits p (memheap_size sz) m" by (simp_all add: memheap_at_def memheap_room_def)
  obtain b k m' where t: "memheap_take p (memheap_size sz) m = Some (Some b, m')" "memheap_ok p m'" "elsewhere p m m'"
    "mh_out p m' = insert (b, k) (mh_out p m)" "b \<notin> fst ` mh_out p m"
    using take_spec [OF ok memheap_size_ok(1,2)] by metis
  have "memheap_serve p sz m = Some (Some b, m')" using ro t(1) by (auto simp: memheap_serve_def memheap_room_def)
  then show "\<exists>b p'. memheap_serve p sz m = Some (Some b, p') \<and> memheap_at p a n p' \<and> b \<notin> fst ` mh_out p m \<and>
      fst ` mh_out p p' = insert b (fst ` mh_out p m)"
    using t memheap_at_elsewhere [OF at t(3,2)] by simp
next
  fix m sz
  assume at: "memheap_at p a n m" and ro: "\<not> memheap_room p (memheap_size sz) m"
  then obtain h where h: "memheap_ok p m" "memheaps m p = Some h" by (auto simp: memheap_at_def)
  show "memheap_serve p sz m = Some (None, m)"
  proof (cases "memheap_size sz < available_size h")
    case True
    then have "\<not> memheap_fits p (memheap_size sz) m" using ro h(2) by (simp add: memheap_room_def)
    then show ?thesis using take_none [OF h(1)] memheap_size_ok(1) [of sz] h(2) by (simp add: memheap_serve_def)
  qed (use h(2) in \<open>simp add: memheap_serve_def\<close>)
next
  fix m b
  assume at: "memheap_at p a n m" and "b \<in> fst ` mh_out p m"
  then obtain k where k: "memheap_ok p m" "(b, k) \<in> mh_out p m" by (auto simp: memheap_at_def)
  then obtain m' where m': "memheap_give p (sub32 b 24) m = Some m'" "memheap_ok p m'" "elsewhere p m m'"
    "mh_out p m' = mh_out p m - {(b, k)}" using give_spec by metis
  obtain h where h: "memheaps m p = Some h" using at by (auto simp: memheap_at_def)
  have "c \<in> mh_out p m - {(b, k)} \<longleftrightarrow> c \<in> mh_out p m \<and> fst c \<noteq> b" for c
    using mh_out_disjoint(6) [OF k(1) h _ k(2), of b "snd c"] by (cases c) auto
  then have "mh_out p m' = {c \<in> mh_out p m. fst c \<noteq> b}" unfolding m'(4) by blast
  then have "fst ` mh_out p m' = fst ` mh_out p m - {b}" by auto
  then show "\<exists>p'. memheap_give p (sub32 b 24) m = Some p' \<and> memheap_at p a n p' \<and> fst ` mh_out p p' = fst ` mh_out p m - {b}"
    using m'(1) memheap_at_elsewhere [OF at m'(3,2)] by simp
qed

end
