(* ===== verification/MemHeapCalls.thy ===== *)
theory MemHeapCalls
  imports MemCalls MemHeapSpec
begin

text \<open>
  The calls of \<^verbatim>\<open>src/memheap.c\<close> on the kernel and the memory together. A call takes the
  semaphore of the heap around its section; when it is taken the caller sleeps with the work it has left, and
  \<open>memheap_resume\<close> goes on with it. Unlike \<^verbatim>\<open>mem.c\<close>, these calls give up when
  \<^verbatim>\<open>rt_sem_take\<close> fails.
\<close>

section \<open>The code\<close>

text \<open>What a sleeping call has left: \<open>Mh_move\<close> is the allocation inside a reallocation, \<open>Mh_drop\<close> the
  free at the end of it.\<close>

datatype memheap_wait =
    Mh_alloc nat nat
  | Mh_free nat nat
  | Mh_grow nat nat nat nat
  | Mh_shrink nat nat nat
  | Mh_move nat nat nat nat
  | Mh_drop nat nat nat

datatype mh_call = Mh_got "nat option" | Mh_sleeps memheap_wait

definition mh_enter :: "nat \<Rightarrow> memheap_wait \<Rightarrow> nat option \<Rightarrow> (kernel \<times> mh_memory \<Rightarrow> (mh_call \<times> kernel \<times> mh_memory) option) \<Rightarrow>
    kernel \<times> mh_memory \<Rightarrow> (mh_call \<times> kernel \<times> mh_memory) option" where
  "mh_enter p w q f c =
     (let (s, m) = c in
      do { (r, s) \<leftarrow> rt_sem_take (memheap_lock p) RT_WAITING_FOREVER s;
           case r of
             Pending \<Rightarrow> Some (Mh_sleeps w, s, m)
           | Return e \<Rightarrow> if e \<noteq> RT_EOK then Some (Mh_got q, rt_set_errno e s, m) else f (s, m) })"

definition mh_leave :: "nat \<Rightarrow> nat option \<Rightarrow> kernel \<times> mh_memory \<Rightarrow> (mh_call \<times> kernel \<times> mh_memory) option" where
  "mh_leave p r c = do { s \<leftarrow> unlock_heap (memheap_lock p) (fst c); Some (Mh_got r, s, snd c) }"

definition rt_memheap_init :: "nat \<Rightarrow> cbuf \<Rightarrow> nat \<Rightarrow> u32 \<Rightarrow> kernel \<times> mh_memory \<Rightarrow> (rt_err \<times> kernel \<times> mh_memory) option" where
  "rt_memheap_init p name a sz c =
     (let (s, m) = c in
      do { rt_assert (p \<noteq> 0);
           s \<leftarrow> rt_object_init (OMemHeap p) RT_Object_Class_MemHeap name s;
           (_, s) \<leftarrow> rt_sem_init (memheap_lock p) name 1 RT_IPC_FLAG_FIFO s;
           Some (RT_EOK, s, memheap_layout p a sz m) })"

definition rt_memheap_detach :: "nat \<Rightarrow> kernel \<Rightarrow> (rt_err \<times> kernel) option" where
  "rt_memheap_detach p s =
     do { check_type s (OMemHeap p) RT_Object_Class_MemHeap;
          sys \<leftarrow> rt_object_is_systemobject s (OMemHeap p);
          rt_assert sys;
          s \<leftarrow> rt_object_detach (OSem (memheap_lock p)) s;
          s \<leftarrow> rt_object_detach (OMemHeap p) s;
          Some (RT_EOK, s) }"

definition mh_alloc_locked :: "nat \<Rightarrow> nat \<Rightarrow> kernel \<times> mh_memory \<Rightarrow> (mh_call \<times> kernel \<times> mh_memory) option" where
  "mh_alloc_locked p n c = do { (r, m) \<leftarrow> memheap_take p n (snd c); mh_leave p r (fst c, m) }"

definition rt_memheap_alloc :: "nat \<Rightarrow> u32 \<Rightarrow> kernel \<times> mh_memory \<Rightarrow> (mh_call \<times> kernel \<times> mh_memory) option" where
  "rt_memheap_alloc p sz c =
     do { check_type (fst c) (OMemHeap p) RT_Object_Class_MemHeap;
          h \<leftarrow> memheaps (snd c) p;
          let n = memheap_size sz;
          if n < available_size h then mh_enter p (Mh_alloc p n) None (mh_alloc_locked p n) c
          else Some (Mh_got None, c) }"

definition mh_free_locked :: "nat \<Rightarrow> nat \<Rightarrow> kernel \<times> mh_memory \<Rightarrow> (mh_call \<times> kernel \<times> mh_memory) option" where
  "mh_free_locked p i c = do { m \<leftarrow> memheap_give p i (snd c); mh_leave p None (fst c, m) }"

definition rt_memheap_free :: "nat \<Rightarrow> kernel \<times> mh_memory \<Rightarrow> (mh_call \<times> kernel \<times> mh_memory) option" where
  "rt_memheap_free ptr c =
     (if ptr = 0 then Some (Mh_got None, c)
      else do { let i = sub32 ptr RT_MEMHEAP_SIZE;
                memheap_checks i (snd c);
                let p = mi_pool_ptr (items (snd c) i);
                check_type (fst c) (OMemHeap p) RT_Object_Class_MemHeap;
                mh_enter p (Mh_free p i) None (mh_free_locked p i) c })"

text \<open>\<open>rt_memheap_realloc\<close> behind its call of \<^verbatim>\<open>rt_memheap_alloc\<close>.\<close>

definition mh_in_block :: "nat \<Rightarrow> nat \<Rightarrow> mh_memory \<Rightarrow> bool" where
  "mh_in_block a n m \<longleftrightarrow> a + n \<le> mi_next (items m (sub32 a RT_MEMHEAP_SIZE))"

definition mh_move :: "nat \<Rightarrow> nat \<Rightarrow> nat \<Rightarrow> nat option \<Rightarrow> kernel \<times> mh_memory \<Rightarrow> (mh_call \<times> kernel \<times> mh_memory) option" where
  "mh_move ptr oldsize newsize q c =
     (case q of
        None \<Rightarrow> Some (Mh_got None, c)
      | Some new_ptr \<Rightarrow>
          do { let len = (if oldsize < newsize then oldsize else newsize);
               let m = snd c;
               rt_assert (mh_in_block new_ptr len m);
               (r, c) \<leftarrow> rt_memheap_free ptr (fst c, m\<lparr>mh_bytes := rt_memcpy new_ptr ptr len (mh_bytes m)\<rparr>);
               Some (case r of Mh_sleeps (Mh_free p i) \<Rightarrow> Mh_sleeps (Mh_drop p i new_ptr) | _ \<Rightarrow> Mh_got (Some new_ptr), c) })"

definition mh_grow_locked :: "nat \<Rightarrow> nat \<Rightarrow> nat \<Rightarrow> nat \<Rightarrow> kernel \<times> mh_memory \<Rightarrow> (mh_call \<times> kernel \<times> mh_memory) option" where
  "mh_grow_locked p ptr oldsize newsize c =
     do { (grown, m) \<leftarrow> memheap_grow p (sub32 ptr RT_MEMHEAP_SIZE) oldsize newsize (snd c);
          if grown then mh_leave p (Some ptr) (fst c, m)
          else do { (_, c) \<leftarrow> mh_leave p None (fst c, m);
                    (r, c) \<leftarrow> rt_memheap_alloc p (of_nat newsize) c;
                    case r of
                      Mh_got q \<Rightarrow> mh_move ptr oldsize newsize q c
                    | Mh_sleeps _ \<Rightarrow> Some (Mh_sleeps (Mh_move p ptr oldsize newsize), c) } }"

definition mh_shrink_locked :: "nat \<Rightarrow> nat \<Rightarrow> nat \<Rightarrow> kernel \<times> mh_memory \<Rightarrow> (mh_call \<times> kernel \<times> mh_memory) option" where
  "mh_shrink_locked p ptr newsize c =
     do { m \<leftarrow> memheap_shrink p (sub32 ptr RT_MEMHEAP_SIZE) newsize (snd c); mh_leave p (Some ptr) (fst c, m) }"

definition rt_memheap_realloc :: "nat \<Rightarrow> nat \<Rightarrow> u32 \<Rightarrow> kernel \<times> mh_memory \<Rightarrow> (mh_call \<times> kernel \<times> mh_memory) option" where
  "rt_memheap_realloc p ptr sz c =
     do { check_type (fst c) (OMemHeap p) RT_Object_Class_MemHeap;
          let n = memheap_size sz;
          let oldsize = MEMITEM_SIZE (sub32 ptr RT_MEMHEAP_SIZE) (snd c);
          if sz = 0 then rt_memheap_free ptr c
          else if ptr = 0 then rt_memheap_alloc p (of_nat n) c
          else if n > oldsize then mh_enter p (Mh_grow p ptr oldsize n) None (mh_grow_locked p ptr oldsize n) c
          else if add32 n (RT_MEMHEAP_SIZE + RT_MEMHEAP_MINIALLOC) \<ge> oldsize then Some (Mh_got (Some ptr), c)
          else mh_enter p (Mh_shrink p ptr n) None (mh_shrink_locked p ptr n) c }"

text \<open>The thread runs again: the section, or the way out when the semaphore was not got.\<close>

fun mh_failed :: "memheap_wait \<Rightarrow> nat option" where
  "mh_failed (Mh_drop p i new_ptr) = Some new_ptr"
| "mh_failed w = None"

fun mh_section :: "memheap_wait \<Rightarrow> kernel \<times> mh_memory \<Rightarrow> (mh_call \<times> kernel \<times> mh_memory) option" where
  "mh_section (Mh_alloc p n) c = mh_alloc_locked p n c"
| "mh_section (Mh_free p i) c = mh_free_locked p i c"
| "mh_section (Mh_grow p ptr oldsize n) c = mh_grow_locked p ptr oldsize n c"
| "mh_section (Mh_shrink p ptr n) c = mh_shrink_locked p ptr n c"
| "mh_section (Mh_move p ptr oldsize n) c =
     do { (r, c) \<leftarrow> mh_alloc_locked p (memheap_size (of_nat n)) c;
          case r of Mh_got q \<Rightarrow> mh_move ptr oldsize n q c | Mh_sleeps w \<Rightarrow> Some (Mh_sleeps w, c) }"
| "mh_section (Mh_drop p i new_ptr) c = do { (_, c) \<leftarrow> mh_free_locked p i c; Some (Mh_got (Some new_ptr), c) }"

definition memheap_resume :: "memheap_wait \<Rightarrow> tid \<Rightarrow> kernel \<times> mh_memory \<Rightarrow> (mh_call \<times> kernel \<times> mh_memory) option" where
  "memheap_resume w t c =
     do { e \<leftarrow> rt_sem_take_resumed t (fst c);
          if e \<noteq> RT_EOK then Some (Mh_got (mh_failed w), rt_set_errno e (fst c), snd c) else mh_section w c }"

section \<open>Calls that find the heap unlocked\<close>

definition memheap_open :: "kernel \<Rightarrow> nat \<Rightarrow> bool" where
  "memheap_open s p \<longleftrightarrow> unlocked s (memheap_lock p) \<and> check_type s (OMemHeap p) RT_Object_Class_MemHeap = Some ()"

lemma open_enter:
  assumes "memheap_open s p"
  obtains s' where "\<And>w q f m. mh_enter p w q f (s, m) = f (s', m)" "\<And>q m. mh_leave p q (s', m) = Some (Mh_got q, s, m)"
proof -
  let ?l = "memheap_lock p"
  have u: "unlocked s ?l" using assms by (simp add: memheap_open_def)
  obtain s' where s': "lock_heap ?l s = Some (True, s')" "unlock_heap ?l s' = Some s" using lock_unlock [OF u] by metis
  then obtain r where r: "rt_sem_take ?l RT_WAITING_FOREVER s = Some (r, s')" "case r of Return _ \<Rightarrow> True | Pending \<Rightarrow> False"
    by (auto simp: lock_heap_def bind_Some_iff)
  then obtain e where e: "rt_sem_take ?l RT_WAITING_FOREVER s = Some (Return e, s')" by (cases r) auto
  obtain v where "sems s ?l = Some v" "unat (sem_value v) = 1" using u by (auto simp: unlocked_def sem_abs_def)
  then have "e = RT_EOK" using e by (auto simp: rt_sem_take_def bind_Some_iff word_gt_0 split: if_splits)
  then show thesis using that [of s'] e s'(2) by (simp add: mh_enter_def mh_leave_def)
qed

lemma alloc_open:
  assumes o: "memheap_open s p" and h: "memheaps m p = Some h"
  shows "rt_memheap_alloc p sz (s, m) =
    (if memheap_size sz < available_size h
     then map_option (\<lambda>(r, m'). (Mh_got r, s, m')) (memheap_take p (memheap_size sz) m) else Some (Mh_got None, s, m))"
proof -
  obtain s' where s': "\<And>w q f m. mh_enter p w q f (s, m) = f (s', m)" "\<And>q m. mh_leave p q (s', m) = Some (Mh_got q, s, m)"
    using open_enter [OF o] by metis
  have "check_type s (OMemHeap p) RT_Object_Class_MemHeap = Some ()" using o by (simp add: memheap_open_def)
  then show ?thesis using h s'
    by (cases "memheap_take p (memheap_size sz) m") (auto simp: rt_memheap_alloc_def mh_alloc_locked_def simp del: check_type_iff)
qed

lemma free_open:
  assumes o: "memheap_open s p" and ok: "memheap_ok p m" and a: "(a, n) \<in> mh_out p m"
  shows "rt_memheap_free a (s, m) = map_option (\<lambda>m'. (Mh_got None, s, m')) (memheap_give p (sub32 a 24) m)"
proof -
  obtain s' where s': "\<And>w q f m. mh_enter p w q f (s, m) = f (s', m)" "\<And>q m. mh_leave p q (s', m) = Some (Mh_got q, s, m)"
    using open_enter [OF o] by metis
  obtain bs fs where r: "region p m bs fs" using ok by (auto simp: memheap_ok_def)
  obtain h where h: "memheaps m p = Some h" "p \<noteq> 0" using r by (rule regionE)
  obtain x where x: "a = x + 24" "sub32 a 24 = x" "mi_pool_ptr (items m x) = p" "memheap_checks x m = Some ()"
    using mh_outE [OF r a h(1)] by metis
  have "check_type s (OMemHeap p) RT_Object_Class_MemHeap = Some ()" using o by (simp add: memheap_open_def)
  then show ?thesis using x s'
    by (cases "memheap_give p x m") (auto simp: rt_memheap_free_def mh_free_locked_def simp del: check_type_iff)
qed

text \<open>Data written between the items leaves the heap as it is.\<close>

lemma mh_bytes_frame [simp]:
  "region p (m\<lparr>mh_bytes := b\<rparr>) bs fs = region p m bs fs" "memheap_ok p (m\<lparr>mh_bytes := b\<rparr>) = memheap_ok p m"
  "mh_out p (m\<lparr>mh_bytes := b\<rparr>) = mh_out p m" "memheap_area p (m\<lparr>mh_bytes := b\<rparr>) = memheap_area p m"
proof -
  have f: "mh_free (m\<lparr>mh_bytes := b\<rparr>) = mh_free m" by (simp add: fun_eq_iff mh_free_magic)
  have r: "region p (m\<lparr>mh_bytes := b\<rparr>) bs fs = region p m bs fs" for bs fs
    by (simp add: region_def f rings_items [of "m\<lparr>mh_bytes := b\<rparr>" m])
  then show "region p (m\<lparr>mh_bytes := b\<rparr>) bs fs = region p m bs fs" "memheap_ok p (m\<lparr>mh_bytes := b\<rparr>) = memheap_ok p m"
    by (simp_all add: memheap_ok_def)
  show "mh_out p (m\<lparr>mh_bytes := b\<rparr>) = mh_out p m" by (cases "memheaps m p") (simp_all add: mh_out_def r lent_out_def f)
  show "memheap_area p (m\<lparr>mh_bytes := b\<rparr>) = memheap_area p m" by (simp add: memheap_area_def)
qed

lemma memheap_size_again:
  assumes "12 \<le> k" "4 dvd k" "k + 3 < 2 ^ 32"
  shows "memheap_size (of_nat k) = k"
  using RT_ALIGN_aligned [OF assms(3,2)] assms(1) by (simp add: memheap_size_def)

text \<open>What a call leaves alone: the bytes, and the heaps whose memory it does not share.\<close>

definition others_kept :: "nat \<Rightarrow> mh_memory \<Rightarrow> mh_memory \<Rightarrow> bool" where
  "others_kept p m m' \<longleftrightarrow>
     (\<forall>q. q \<noteq> p \<and> memheap_ok q m \<and> memheap_area p m \<inter> memheap_area q m = {} \<longrightarrow> memheap_ok q m' \<and> mh_out q m' = mh_out q m)"

lemma others_kept_refl [simp]: "others_kept p m m" by (simp add: others_kept_def)

lemma others_kept_elsewhere: "elsewhere p m m' \<Longrightarrow> others_kept p m m'"
  using memheap_apart by (simp add: others_kept_def)

lemma elsewhere_area: "elsewhere p m m' \<Longrightarrow> memheap_area p m' = memheap_area p m \<and> (q \<noteq> p \<longrightarrow> memheap_area q m' = memheap_area q m)"
  by (auto simp: elsewhere_def memheap_area_def same_place_def tailer_def)

lemma others_kept_trans: "\<lbrakk>elsewhere p m m1; others_kept p m1 m2\<rbrakk> \<Longrightarrow> others_kept p m m2"
  using others_kept_elsewhere [of p m m1] elsewhere_area [of p m m1] unfolding others_kept_def by metis

text \<open>Allocation and freeing.\<close>

lemma alloc_call:
  assumes o: "memheap_open s p" and ok: "memheap_ok p m"
  shows "\<exists>r m'. rt_memheap_alloc p sz (s, m) = Some (Mh_got r, s, m') \<and> memheap_ok p m' \<and> elsewhere p m m' \<and> (r = None \<longleftrightarrow> \<not> memheap_room p (memheap_size sz) m) \<and>
    (case r of None \<Rightarrow> m' = m
     | Some a \<Rightarrow> \<exists>k. unat (RT_ALIGN sz 4) \<le> k \<and> mh_out p m' = insert (a, k) (mh_out p m) \<and>
         (\<forall>c l. (c, l) \<in> mh_out p m \<longrightarrow> a + k \<le> c \<or> c + l \<le> a))"
proof -
  obtain h where h: "memheaps m p = Some h" using ok by (auto simp: memheap_ok_def region_def)
  show ?thesis
  proof (cases "memheap_room p (memheap_size sz) m")
    case True
    then have f: "memheap_fits p (memheap_size sz) m" "memheap_size sz < available_size h" using h by (auto simp: memheap_room_def)
    obtain a k m' where t: "memheap_take p (memheap_size sz) m = Some (Some a, m')" "memheap_ok p m'" "elsewhere p m m'"
      "mh_out p m' = insert (a, k) (mh_out p m)" "memheap_size sz \<le> k" "a \<notin> fst ` mh_out p m"
      using take_spec [OF ok f(1) memheap_size_ok(1,2)] by metis
    obtain h' where h': "memheaps m' p = Some h'" using t(3) by (auto simp: elsewhere_def)
    have "a + k \<le> c \<or> c + l \<le> a" if "(c, l) \<in> mh_out p m" for c l
    proof -
      have "(a, k) \<in> mh_out p m'" "(c, l) \<in> mh_out p m'" "c \<noteq> a" using that t(4,6) by force+
      then show ?thesis using mh_out_disjoint(5) [OF t(2) h', of a k c l] mh_out_disjoint(5) [OF t(2) h', of c l a k] by linarith
    qed
    moreover have "unat (RT_ALIGN sz 4) \<le> k" using t(5) memheap_size_ok(3) [of sz] by simp
    ultimately show ?thesis using alloc_open [OF o h, of sz] f(2) t True
      by (intro exI [of _ "Some a"] exI [of _ m']) auto
  next
    case False
    then have "memheap_size sz < available_size h \<longrightarrow> \<not> memheap_fits p (memheap_size sz) m" using h by (simp add: memheap_room_def)
    then have "rt_memheap_alloc p sz (s, m) = Some (Mh_got None, s, m)"
      using alloc_open [OF o h, of sz] take_none [OF ok] memheap_size_ok(1) [of sz] by simp
    moreover have "elsewhere p m m" using h by (auto simp: elsewhere_def same_place_def)
    ultimately show ?thesis using ok False by simp
  qed
qed

lemma free_call:
  assumes o: "memheap_open s p" and ok: "memheap_ok p m" and a: "(a, n) \<in> mh_out p m"
  shows "\<exists>m'. rt_memheap_free a (s, m) = Some (Mh_got None, s, m') \<and> memheap_ok p m' \<and> mh_out p m' = mh_out p m - {(a, n)} \<and>
    elsewhere p m m'"
proof -
  obtain m' where m': "memheap_give p (sub32 a 24) m = Some m'" "memheap_ok p m'" "elsewhere p m m'" "mh_out p m' = mh_out p m - {(a, n)}"
    using give_spec [OF ok a] by metis
  then show ?thesis using free_open [OF o ok a] by simp
qed

text \<open>The reallocation that has to move the block.\<close>

lemma move_spec:
  assumes o: "memheap_open s p" and ok: "memheap_ok p m" and a: "(a, n) \<in> mh_out p m"
    and k: "12 \<le> k" "4 dvd k" "k + 3 < 2 ^ 32"
  obtains r m' where "(do { (r, c) \<leftarrow> rt_memheap_alloc p (of_nat k) (s, m);
      case r of Mh_got q \<Rightarrow> mh_move a n k q c | Mh_sleeps _ \<Rightarrow> Some (Mh_sleeps (Mh_move p a n k), c) }) = Some (Mh_got r, s, m')"
    "memheap_ok p m'" "others_kept p m m'"
    "case r of None \<Rightarrow> m' = m
     | Some b \<Rightarrow> \<exists>l. k \<le> l \<and> mh_out p m' = insert (b, l) (mh_out p m - {(a, n)}) \<and> mh_bytes m' = copied b a (min n k) (mh_bytes m) \<and>
         (\<forall>c j. (c, j) \<in> mh_out p m \<longrightarrow> b + l \<le> c \<or> c + j \<le> b)"
proof -
  have ks: "memheap_size (of_nat k) = k" "unat (RT_ALIGN (of_nat k) 4) = k"
    using memheap_size_again [OF k] RT_ALIGN_aligned [OF k(3,2)] by simp_all
  obtain q m1 where q: "rt_memheap_alloc p (of_nat k) (s, m) = Some (Mh_got q, s, m1)" "memheap_ok p m1" "elsewhere p m m1"
    "case q of None \<Rightarrow> m1 = m
     | Some b \<Rightarrow> \<exists>l. k \<le> l \<and> mh_out p m1 = insert (b, l) (mh_out p m) \<and> (\<forall>c j. (c, j) \<in> mh_out p m \<longrightarrow> b + l \<le> c \<or> c + j \<le> b)"
    using alloc_call [OF o ok, of "of_nat k"] ks(2) by auto
  show thesis
  proof (cases q)
    case None
    then show thesis using that [of None m] q ok by (simp add: mh_move_def)
  next
    case (Some b)
    then obtain l where l: "k \<le> l" "mh_out p m1 = insert (b, l) (mh_out p m)" "\<And>c j. (c, j) \<in> mh_out p m \<Longrightarrow> b + l \<le> c \<or> c + j \<le> b"
      using q(4) by auto
    let ?len = "if n < k then n else k"
    have cp: "rt_memcpy b a ?len (mh_bytes m1) = copied b a (min n k) (mh_bytes m)"
    proof -
      have "forward_safe b a ?len" using l(3) [OF a] l(1) by (auto simp: forward_safe_def)
      then show ?thesis using rt_memcpy_copied q(3) by (simp add: min_def elsewhere_def)
    qed
    obtain bs fs h where r: "region p m1 bs fs" "memheaps m1 p = Some h" using q(2) by (auto simp: memheap_ok_def region_def)
    have "(b, l) \<in> mh_out p m1" using l(2) by simp
    then have "b + l = mi_next (items m1 (sub32 b 24))" using mh_outE [OF r(1) _ r(2)] by metis
    then have ib: "mh_in_block b ?len m1" using l(1) by (simp add: mh_in_block_def)
    let ?m = "m1\<lparr>mh_bytes := copied b a (min n k) (mh_bytes m)\<rparr>"
    obtain m' where m': "rt_memheap_free a (s, ?m) = Some (Mh_got None, s, m')" "memheap_ok p m'" "mh_out p m' = mh_out p ?m - {(a, n)}"
      "elsewhere p ?m m'" using free_call [OF o, of ?m a n] q(2) a l(2) by auto
    have "12 \<le> n" using mh_out_disjoint(4) [OF ok _ a a] ok by (auto simp: memheap_ok_def region_def)
    then have "b \<noteq> a" using l(3) [OF a] l(1) k(1) by auto
    then have "mh_out p m' = insert (b, l) (mh_out p m - {(a, n)})" using m'(3) l(2) by auto
    moreover have "others_kept p m1 m'" using others_kept_elsewhere [OF m'(4)] by (simp add: others_kept_def)
    moreover have "mh_bytes m' = copied b a (min n k) (mh_bytes m)" using m'(4) by (simp add: elsewhere_def)
    ultimately have fin: "\<exists>l. k \<le> l \<and> mh_out p m' = insert (b, l) (mh_out p m - {(a, n)}) \<and> mh_bytes m' = copied b a (min n k) (mh_bytes m) \<and>
        (\<forall>c j. (c, j) \<in> mh_out p m \<longrightarrow> b + l \<le> c \<or> c + j \<le> b)" "others_kept p m m'"
      using l(1,3) others_kept_trans [OF q(3)] by blast+
    show thesis by (rule that [of "Some b" m']) (use q(1) Some ib cp m'(1,2) fin in \<open>simp_all add: mh_move_def\<close>)
  qed
qed

section \<open>What the calls do\<close>

text \<open>
  (C17) The blocks of a region never overlap: whatever a client that returns only what it holds asks of a region that
  has just been initialised, in whatever order, every call returns (the search of the free list ends, and a run in which
  it did not would have no result), every block the client holds is aligned, lies inside the region
  and does not reach into another one, and the region stays in order.
\<close>

theorem memheap_never_overlaps:
  fixes sz :: u32
  defines "n \<equiv> unat (RT_ALIGN_DOWN sz 4)"
  assumes "p \<noteq> 0" "free_header p \<notin> {a..a + n - 24}" "0 < a" "4 dvd a" "60 \<le> n" "a + n < 2 ^ 32"
  shows "\<exists>m' held. serve (memheap_serve p) (\<lambda>b. memheap_give p (sub32 b 24)) rs (memheap_layout p a sz m, []) = Some (m', held) \<and>
    memheap_ok p m' \<and> distinct held \<and> set held = fst ` mh_out p m' \<and>
    (\<forall>b k. (b, k) \<in> mh_out p m' \<longrightarrow> 4 dvd b \<and> 12 \<le> k \<and> a + 24 \<le> b \<and> b + k + 24 \<le> a + n \<and>
       (\<forall>c l. (c, l) \<in> mh_out p m' \<and> c \<noteq> b \<longrightarrow> b + k + 24 \<le> c \<or> c + l + 24 \<le> b))"
proof -
  note lay = memheap_layout_ok [OF assms(2,3) [unfolded n_def] assms(4-7) [unfolded n_def], folded n_def, of m]
  obtain m' held where r: "serve (memheap_serve p) (\<lambda>b. memheap_give p (sub32 b 24)) rs (memheap_layout p a sz m, []) = Some (m', held)"
    "memheap_at p a n m'" "distinct held" "set held = fst ` mh_out p m'"
    using region_alloc.serve_ok [of p a n "memheap_layout p a sz m" "[]" rs] lay by auto
  then obtain h where ok: "memheap_ok p m'" and h: "memheaps m' p = Some h" "start_addr h = a" "pool_size h = n"
    by (auto simp: memheap_at_def)
  have "4 dvd b \<and> 12 \<le> k \<and> a + 24 \<le> b \<and> b + k + 24 \<le> a + n" if "(b, k) \<in> mh_out p m'" for b k
    using mh_out_disjoint [OF ok h(1) that that] h(2,3) \<open>60 \<le> n\<close> by (simp add: tailer_def)
  moreover have "b + k + 24 \<le> c \<or> c + l + 24 \<le> b" if "(b, k) \<in> mh_out p m'" "(c, l) \<in> mh_out p m'" "c \<noteq> b" for b k c l
    using mh_out_disjoint(5) [OF ok h(1) that(1,2)] mh_out_disjoint(5) [OF ok h(1) that(2,1)] that(3) by linarith
  ultimately show ?thesis using r(1,3,4) ok by blast
qed

text \<open>
  (C18) \<^verbatim>\<open>rt_memheap_alloc\<close> with the heap unlocked: it either hands out a block with room for the (aligned) size that
  touches no block that is out, or nothing, and then nothing has changed. It hands one out exactly if the size is
  below \<^verbatim>\<open>available_size\<close> and a free block is long enough. No other heap is affected.
\<close>

theorem memheap_alloc_branches:
  assumes o: "memheap_open s p" and ok: "memheap_ok p m"
  shows "\<exists>r m'. rt_memheap_alloc p sz (s, m) = Some (Mh_got r, s, m') \<and> memheap_ok p m' \<and> mh_bytes m' = mh_bytes m \<and>
    others_kept p m m' \<and> (r = None \<longleftrightarrow> \<not> memheap_room p (memheap_size sz) m) \<and>
    (case r of None \<Rightarrow> m' = m
     | Some a \<Rightarrow> \<exists>k. unat (RT_ALIGN sz 4) \<le> k \<and> mh_out p m' = insert (a, k) (mh_out p m) \<and>
         (\<forall>c l. (c, l) \<in> mh_out p m \<longrightarrow> a + k \<le> c \<or> c + l \<le> a))"
  using alloc_call [OF o ok, of sz] others_kept_elsewhere by (fastforce simp: elsewhere_def)

text \<open>Reallocation by cases.\<close>

lemma realloc_open:
  assumes o: "memheap_open s p" and ok: "memheap_ok p m" and a: "(a, n) \<in> mh_out p m" and sz: "sz \<noteq> 0"
    and s': "\<And>w q f m. mh_enter p w q f (s, m) = f (s', m)"
  shows "rt_memheap_realloc p a sz (s, m) = (if memheap_size sz > n then mh_grow_locked p a n (memheap_size sz) (s', m)
      else if memheap_size sz + 36 \<ge> n then Some (Mh_got (Some a), s, m) else mh_shrink_locked p a (memheap_size sz) (s', m))"
proof -
  obtain bs fs h where r: "region p m bs fs" "memheaps m p = Some h" using ok by (auto simp: memheap_ok_def region_def)
  obtain x where x: "a = x + 24" "n = MEMITEM_SIZE x m" "sub32 a 24 = x" using mh_outE [OF r(1) a r(2)] by metis
  have ck: "check_type s (OMemHeap p) RT_Object_Class_MemHeap = Some ()" using o by (simp add: memheap_open_def)
  have "n + 48 < 2 ^ 32" using mh_out_disjoint(1,2) [OF ok r(2) a a] regionD(9,10) [OF r] by (simp add: tailer_def)
  then have "\<not> memheap_size sz > n \<Longrightarrow> add32 (memheap_size sz) 36 \<ge> n \<longleftrightarrow> memheap_size sz + 36 \<ge> n" by simp
  then show ?thesis using sz x ck s' by (simp add: rt_memheap_realloc_def Let_def del: check_type_iff)
qed

text \<open>
  Block \<open>a\<close> with \<open>n\<close> bytes was given at least \<open>k\<close> bytes: nothing happened, or \<open>r\<close> is there in its place and
  starts with its bytes; the bytes of the other blocks are as they were.
\<close>

definition resized_out :: "nat \<Rightarrow> nat \<Rightarrow> nat \<Rightarrow> nat \<Rightarrow> nat option \<Rightarrow> mh_memory \<Rightarrow> mh_memory \<Rightarrow> bool" where
  "resized_out p a n k r m m' \<longleftrightarrow>
    (case r of None \<Rightarrow> m' = m
     | Some b \<Rightarrow> (\<exists>l. k \<le> l \<and> mh_out p m' = insert (b, l) (mh_out p m - {(a, n)})) \<and>
         (\<forall>i < min n k. mh_bytes m' (b + i) = mh_bytes m (a + i)) \<and>
         (\<forall>c l i. (c, l) \<in> mh_out p m \<and> c \<noteq> a \<and> i < l \<longrightarrow> mh_bytes m' (c + i) = mh_bytes m (c + i)))"

lemma resized_in_place:
  "\<lbrakk>k \<le> l; mh_out p m' = insert (a, l) (mh_out p m - {(a, n)}); elsewhere p m m'\<rbrakk> \<Longrightarrow> resized_out p a n k (Some a) m m'"
  unfolding resized_out_def elsewhere_def by auto

lemma realloc_grows:
  assumes o: "memheap_open s p" and ok: "memheap_ok p m" and a: "(a, n) \<in> mh_out p m"
    and k: "12 \<le> k" "4 dvd k" "n < k" "k + 12 < 2 ^ 32" and s': "\<And>q m. mh_leave p q (s', m) = Some (Mh_got q, s, m)"
  shows "\<exists>r m'. mh_grow_locked p a n k (s', m) = Some (Mh_got r, s, m') \<and> memheap_ok p m' \<and> others_kept p m m' \<and> resized_out p a n k r m m'"
proof -
  obtain b m1 where m1: "memheap_grow p (sub32 a 24) n k m = Some (b, m1)" "memheap_ok p m1" "elsewhere p m m1"
    "if b then mh_out p m1 = insert (a, k) (mh_out p m - {(a, n)}) else m1 = m"
    using grow_spec [OF ok a k(2-4)] by metis
  show ?thesis
  proof (cases b)
    case True
    then have "mh_grow_locked p a n k (s', m) = Some (Mh_got (Some a), s, m1)" using s' m1(1) by (simp add: mh_grow_locked_def)
    then show ?thesis using m1 True others_kept_elsewhere [OF m1(3)] resized_in_place [OF order_refl _ m1(3)] by auto
  next
    case False
    have "k + 3 < 2 ^ 32" using k(4) by simp
    from move_spec [OF o ok a k(1,2) this] obtain q m' where
      q: "(do { (r, c) \<leftarrow> rt_memheap_alloc p (of_nat k) (s, m);
          case r of Mh_got q \<Rightarrow> mh_move a n k q c | Mh_sleeps _ \<Rightarrow> Some (Mh_sleeps (Mh_move p a n k), c) }) = Some (Mh_got q, s, m')"
        "memheap_ok p m'" "others_kept p m m'"
        "case q of None \<Rightarrow> m' = m
         | Some b \<Rightarrow> \<exists>l. k \<le> l \<and> mh_out p m' = insert (b, l) (mh_out p m - {(a, n)}) \<and> mh_bytes m' = copied b a (min n k) (mh_bytes m) \<and>
             (\<forall>c j. (c, j) \<in> mh_out p m \<longrightarrow> b + l \<le> c \<or> c + j \<le> b)" .
    have "mh_grow_locked p a n k (s', m) = Some (Mh_got q, s, m')"
      using s' m1(1,4) False q(1) by (simp add: mh_grow_locked_def)
    moreover have "resized_out p a n k q m m'"
    proof (cases q)
      case None
      then show ?thesis using q(4) by (simp add: resized_out_def)
    next
      case (Some b)
      then obtain l where l: "k \<le> l" "mh_out p m' = insert (b, l) (mh_out p m - {(a, n)})"
        "mh_bytes m' = copied b a (min n k) (mh_bytes m)" "\<And>c j. (c, j) \<in> mh_out p m \<Longrightarrow> b + l \<le> c \<or> c + j \<le> b"
        using q(4) by auto
      have "mh_bytes m' (c + i) = mh_bytes m (c + i)" if "(c, j) \<in> mh_out p m" "i < j" for c j i
        using l(4) [OF that(1)] that(2) l(1) by (auto simp: l(3) copied_def)
      moreover have "mh_bytes m' (b + i) = mh_bytes m (a + i)" if "i < min n k" for i
        using that by (simp add: l(3) copied_def)
      ultimately show ?thesis using Some l(1,2) by (auto simp: resized_out_def)
    qed
    ultimately show ?thesis using q(2,3) by blast
  qed
qed

text \<open>
  (C19) Resizing a block that is out with the heap unlocked, to a size that is not zero and not in the last twelve bytes of
  the 32-bit range: either nothing happens and nothing is returned, or the result is a block with room for the new size,
  in the place of the old one, that starts with the bytes of the old block as far as both reach; the bytes of every
  other block stay as they were, and no other heap is affected.
\<close>

theorem memheap_realloc_keeps_contents:
  assumes o: "memheap_open s p" and ok: "memheap_ok p m" and a: "(a, n) \<in> mh_out p m"
    and sz: "sz \<noteq> 0" "memheap_size sz + 12 < 2 ^ 32"
  shows "\<exists>r m'. rt_memheap_realloc p a sz (s, m) = Some (Mh_got r, s, m') \<and> memheap_ok p m' \<and> others_kept p m m' \<and>
    resized_out p a n (memheap_size sz) r m m'"
proof -
  let ?k = "memheap_size sz"
  note ks = memheap_size_ok [of sz]
  obtain s' where s': "\<And>w q f m. mh_enter p w q f (s, m) = f (s', m)" "\<And>q m. mh_leave p q (s', m) = Some (Mh_got q, s, m)"
    using open_enter [OF o] by metis
  note go = realloc_open [OF o ok a sz(1) s'(1)]
  consider "?k > n" | "?k \<le> n" "?k + 36 \<ge> n" | "?k + 36 < n" by linarith
  then show ?thesis
  proof cases
    case 1
    then show ?thesis using go realloc_grows [OF o ok a ks(1,2) _ sz(2) s'(2)] by simp
  next
    case 2
    have "elsewhere p m m" using ok by (auto simp: memheap_ok_def region_def elsewhere_def same_place_def)
    then have "resized_out p a n ?k (Some a) m m" using resized_in_place [OF 2(1), of p m a m] a by (simp add: insert_absorb)
    then show ?thesis using go 2 ok by auto
  next
    case 3
    then obtain m' where m': "memheap_shrink p (sub32 a 24) ?k m = Some m'" "memheap_ok p m'" "elsewhere p m m'"
      "mh_out p m' = insert (a, ?k) (mh_out p m - {(a, n)})" using shrink_spec [OF ok a ks(1,2)] by (metis less_imp_le_nat)
    then have "rt_memheap_realloc p a sz (s, m) = Some (Mh_got (Some a), s, m')"
      using go 3 s'(2) by (simp add: mh_shrink_locked_def)
    then show ?thesis using m'(2) others_kept_elsewhere [OF m'(3)] resized_in_place [OF order_refl m'(4,3)] by blast
  qed
qed

text \<open>
  (C20) A size in the last twelve bytes of the 32-bit range passes every test of \<^verbatim>\<open>rt_memheap_realloc\<close> when the
  block behind is free: the sum with \<^verbatim>\<open>RT_MEMHEAP_MINIALLOC\<close> wraps to less than any length. The call succeeds,
  and the header of the new free block is written into the header of the block that was to grow.
\<close>

theorem memheap_realloc_wraps:
  assumes o: "memheap_open s p" and ok: "memheap_ok p m" and a: "(a, n) \<in> mh_out p m"
    and sz: "2 ^ 32 - 12 \<le> memheap_size sz" and nx: "mh_free m (a + n)"
  shows "\<exists>m'. rt_memheap_realloc p a sz (s, m) = Some (Mh_got (Some a), s, m') \<and>
    mi_next (items m' (a - 24)) = a - (2 ^ 32 - memheap_size sz) \<and>
    a - 24 < mi_next (items m' (a - 24)) \<and> mi_next (items m' (a - 24)) < a"
proof -
  let ?k = "memheap_size sz"
  note ks = memheap_size_ok [of sz]
  obtain s' where s': "\<And>w q f m. mh_enter p w q f (s, m) = f (s', m)" "\<And>q m. mh_leave p q (s', m) = Some (Mh_got q, s, m)"
    using open_enter [OF o] by metis
  obtain bs fs h where r: "region p m bs fs" "memheaps m p = Some h" using ok by (auto simp: memheap_ok_def region_def)
  obtain as x cs where x: "bs = as @ x # cs" "a = x + 24" "n = MEMITEM_SIZE x m" "sub32 a 24 = x" "a + n = mi_next (items m x)"
    "start_addr h \<le> x" "12 \<le> n" "a < 2 ^ 32"
    using mh_outE [OF r(1) a r(2)] by metis
  have n48: "n + 48 < 2 ^ 32" using mh_out_disjoint(1,2) [OF ok r(2) a a] regionD(9,10) [OF r] by (simp add: tailer_def)
  have "sz \<noteq> 0" using sz by (auto simp: memheap_size_def RT_ALIGN_def)
  then have go: "rt_memheap_realloc p a sz (s, m) = mh_grow_locked p a n ?k (s', m)"
    using realloc_open [OF o ok a _ s'(1)] sz n48 by simp
  let ?y = "a + n" and ?n = "a - (2 ^ 32 - ?k)"
  have lt: "a - 24 < ?n" "?n < a" using sz ks(4) x(2) by simp_all
  have big: "add32 (add32 x 24) ?k = ?n"
  proof -
    have "add32 x 24 = a" using x(2,8) by simp
    moreover have "(a + ?k) mod 2 ^ 32 = ?n"
      using sz ks(4) x(2,8) lt by (simp add: mod_if)
    ultimately show ?thesis by (simp add: add32_def)
  qed
  have "add32 ?k 12 < 12" using sz ks(4) by (simp add: add32_def mod_if) linarith
  moreover have "add32 (MEMITEM_SIZE ?y m) n \<ge> 12"
  proof -
    have "?y = hd (cs @ [tailer h])" using rings_at(1) [OF regionD(4) [OF r(1) [unfolded x(1)] r(2)]] x(5) by simp
    then obtain ds where "cs = ?y # ds" using nx regionD(6) [OF r] by (cases cs) auto
    then have "region p m ((as @ [x]) @ ?y # ds) fs" using r(1) x(1) by simp
    note b = region_block(4-7) [OF this r(2)]
    have "MEMITEM_SIZE ?y m + n < 2 ^ 32" using b by simp
    then show ?thesis using x(7) by simp
  qed
  ultimately have c: "add32 (MEMITEM_SIZE ?y m) n > add32 ?k 12" by simp
  define m1 where "m1 = block_unlink ?y (free_unlink ?y (note_max p (avail_sub p (sub32 ?k n) m)))"
  define m' where "m' = free_insert (free_header p) ?n (block_split p x ?n m1)"
  have "memheap_grow p (sub32 a 24) n ?k m = Some (True, m')"
    using r(2) regionD(1) [OF r] nx c big x(2,4,5,7) by (simp add: memheap_grow_def used_iff Let_def m'_def m1_def)
  then have "rt_memheap_realloc p a sz (s, m) = Some (Mh_got (Some a), s, m')"
    using go s'(2) by (simp add: mh_grow_locked_def)
  moreover have "mi_next (items m' (a - 24)) = ?n"
  proof -
    have "nxt (block_ring m') x = ?n" by (simp add: m'_def block_split_def Let_def)
    then show ?thesis using x(2) by simp
  qed
  ultimately show ?thesis using lt by simp
qed

text \<open>
  \<^verbatim>\<open>rt_memheap_detach\<close> does not wake the threads that wait for the lock, as \<^verbatim>\<open>rt_sem_detach\<close> would:
  they stay on its list, and a thread that is inside a section fails the assertion of \<^verbatim>\<open>rt_sem_release\<close>
  when it leaves.
\<close>

theorem memheap_detach_strands:
  assumes "objects s (OMemHeap p) = Some x" "obj_type x = RT_Object_Class_MemHeap OR RT_Object_Class_Static"
    and "objects s (OSem (memheap_lock p)) = Some y"
  shows "\<exists>s'. rt_memheap_detach p s = Some (RT_EOK, s') \<and> threads s' = threads s \<and> tlists s' = tlists s \<and>
    (\<forall>q m. mh_leave p q (s', m) = None)"
proof -
  let ?l = "OSem (memheap_lock p)"
  let ?s = "s\<lparr>objects := (objects s)(?l \<mapsto> y\<lparr>obj_type := 0\<rparr>, OMemHeap p \<mapsto> x\<lparr>obj_type := 0\<rparr>),
      containers := ls_remove (OMemHeap p) (ls_remove ?l (containers s))\<rparr>"
  have "rt_memheap_detach p s = Some (RT_EOK, ?s)"
    using assms by (simp add: rt_memheap_detach_def rt_object_is_systemobject_def rt_object_detach_def check_type_known)
  moreover have "check_type ?s ?l RT_Object_Class_Semaphore = None" by (simp add: check_type_def rt_object_get_type_def)
  then have "mh_leave p q (?s, m) = None" for q m by (simp add: mh_leave_def unlock_heap_def rt_sem_release_def)
  ultimately show ?thesis by simp
qed

subsection \<open>On a sample heap\<close>

text \<open>A heap on 4096 bytes of memory with one block of 100 bytes out, and its lock free.\<close>

definition mh_blank :: mh_memory where
  "mh_blank = \<lparr>memheaps = Map.empty, items = (\<lambda>_. \<lparr>mi_magic = 0, mi_pool_ptr = 0, mi_next = 0, mi_prev = 0, mi_next_free = 0, mi_prev_free = 0\<rparr>),
     mh_bytes = (\<lambda>_. 0)\<rparr>"

definition demo_new :: mh_memory where
  "demo_new = memheap_layout 0x20000000 0x10000000 4096 mh_blank"

definition demo_used :: mh_memory where
  "demo_used = memheap_carve 0x20000000 (free_header 0x20000000) 100 0x10000000 (MEMITEM_SIZE 0x10000000 demo_new) demo_new"

definition demo_open :: kernel where
  "demo_open = demo\<lparr>sems := [memheap_lock 0x20000000 \<mapsto> \<lparr>sem_value = 1\<rparr>],
     objects := (objects demo)(
       OSem (memheap_lock 0x20000000) \<mapsto>
         \<lparr>obj_name = replicate 8 0, obj_type = RT_Object_Class_Semaphore OR RT_Object_Class_Static, obj_flag = RT_IPC_FLAG_FIFO\<rparr>,
       OMemHeap 0x20000000 \<mapsto>
         \<lparr>obj_name = replicate 8 0, obj_type = RT_Object_Class_MemHeap OR RT_Object_Class_Static, obj_flag = 0\<rparr>),
     tlists := (tlists demo)(SuspendQ (OSem (memheap_lock 0x20000000)) := [])\<rparr>"

lemma demo_open_ok: "memheap_open demo_open 0x20000000"
  by (simp add: memheap_open_def unlocked_def sem_ok_def sem_abs_def demo_open_def)

lemma demo_new_ok: "region 0x20000000 demo_new [0x10000000] [0x10000000]" "memheap_at 0x20000000 0x10000000 4096 demo_new"
  "mh_out 0x20000000 demo_new = {}"
  using memheap_layout_ok [where p = "0x20000000" and a = "0x10000000" and sz = 4096 and m = mh_blank]
  by (simp_all add: RT_ALIGN_unat free_header_def demo_new_def)

lemma demo_used_ok: "memheap_ok 0x20000000 demo_used" "(0x10000018, 100) \<in> mh_out 0x20000000 demo_used"
  "mh_free demo_used (0x10000018 + 100)"
proof -
  obtain h where h: "memheaps demo_new 0x20000000 = Some h" "start_addr h = 0x10000000" "pool_size h = 4096"
    using demo_new_ok(2) by (auto simp: memheap_at_def)
  have t: "tailer h = 0x10000fe8" using h by (simp add: tailer_def)
  have r: "region 0x20000000 demo_new ([] @ 0x10000000 # []) [0x10000000]" using demo_new_ok(1) by simp
  have "0x10000000 \<in> set [0x10000000 :: nat]" by simp
  then have f: "mh_free demo_new 0x10000000" unfolding regionD(5) [OF r h(1)] by blast
  have "100 + 36 \<le> MEMITEM_SIZE 0x10000000 demo_new" using region_block(5) [OF r h(1)] t by simp
  note c = carve_split_ok [OF r f _ _ this h(1), folded demo_used_def]
  have "12 \<le> (100 :: nat)" "4 dvd (100 :: nat)" by simp_all
  note c = c(1,2) [OF this]
  have bs: "[] @ 0x10000000 # (0x10000000 + 24 + 100) # [] = [0x10000000, 0x1000007c :: nat]" by simp
  note c = c [unfolded bs]
  obtain fs where fs: "region 0x20000000 demo_used [0x10000000, 0x1000007c] fs" using c(1) by blast
  then show "memheap_ok 0x20000000 demo_used" by (auto simp: memheap_ok_def)
  have l: "(0x10000000, 100) \<in> lent_out 0x20000000 demo_used [0x10000000, 0x1000007c]" unfolding c(2) by simp
  then show "(0x10000018, 100) \<in> mh_out 0x20000000 demo_used" unfolding mh_out_eq [OF fs] by force
  obtain g where g: "memheaps demo_used 0x20000000 = Some g" using fs by (rule regionE)
  have "lent_out 0x20000000 demo_new [0x10000000] = {}" using f h(1) by (simp add: lent_out_def lent_Cons) (simp add: lent_def)
  then have "lent (mh_free demo_used) [0x10000000, 0x1000007c] (tailer g) = {(0x10000000, 100)}"
    using c(2) g by (simp add: lent_out_def)
  then show "mh_free demo_used (0x10000018 + 100)" by (auto simp: lent_Cons split: if_splits)
qed

theorem memheap_never_overlaps_witness:
  "\<exists>m' held. serve (memheap_serve 0x20000000) (\<lambda>b. memheap_give 0x20000000 (sub32 b 24) )
     [Take 100, Take 30, Give 0x10000018, Take 8] (memheap_layout 0x20000000 0x10000000 4096 mh_blank, []) = Some (m', held) \<and>
     memheap_ok 0x20000000 m' \<and> distinct held"
proof -
  have n: "unat (RT_ALIGN_DOWN 4096 4) = 4096" by (simp add: RT_ALIGN_unat)
  have "free_header 0x20000000 \<notin> {0x10000000..0x10000000 + unat (RT_ALIGN_DOWN 4096 4) - 24}" "60 \<le> unat (RT_ALIGN_DOWN 4096 4)"
    "0x10000000 + unat (RT_ALIGN_DOWN 4096 4) < 2 ^ 32" unfolding n free_header_def by simp_all
  note w = this
  have z: "(0x20000000 :: nat) \<noteq> 0" "0 < (0x10000000 :: nat)" "4 dvd (0x10000000 :: nat)" by simp_all
  from memheap_never_overlaps [OF z(1) w(1) z(2,3) w(2,3), of "[Take 100, Take 30, Give 0x10000018, Take 8]" mh_blank]
  show ?thesis by (elim exE conjE, intro exI conjI)
qed

theorem memheap_alloc_branches_witness:
  "\<exists>r m'. rt_memheap_alloc 0x20000000 40 (demo_open, demo_used) = Some (Mh_got r, demo_open, m') \<and> memheap_ok 0x20000000 m'"
  using memheap_alloc_branches [OF demo_open_ok demo_used_ok(1), of 40] by blast

theorem memheap_realloc_keeps_contents_witness:
  "\<exists>r m'. rt_memheap_realloc 0x20000000 0x10000018 200 (demo_open, demo_used) = Some (Mh_got r, demo_open, m') \<and>
     resized_out 0x20000000 0x10000018 100 200 r demo_used m'"
proof -
  have "memheap_size 200 = 200" by (simp add: memheap_size_def RT_ALIGN_unat)
  then show ?thesis
    using memheap_realloc_keeps_contents [OF demo_open_ok demo_used_ok(1,2), of 200] by simp blast
qed

theorem memheap_realloc_wraps_witness:
  "\<exists>m'. rt_memheap_realloc 0x20000000 0x10000018 0xfffffff4 (demo_open, demo_used) = Some (Mh_got (Some 0x10000018), demo_open, m') \<and>
     mi_next (items m' 0x10000000) = 0x1000000c"
proof -
  have "memheap_size 0xfffffff4 = 0xfffffff4" by (simp add: memheap_size_def RT_ALIGN_unat)
  then show ?thesis
    using memheap_realloc_wraps [OF demo_open_ok demo_used_ok(1,2) _ demo_used_ok(3), of "0xfffffff4"] by simp blast
qed

theorem memheap_detach_strands_witness:
  "\<exists>s'. rt_memheap_detach 0x20000000 demo_open = Some (RT_EOK, s') \<and> tlists s' = tlists demo_open \<and>
     mh_leave 0x20000000 None (s', demo_used) = None"
proof -
  let ?x = "\<lparr>obj_name = replicate 8 0, obj_type = RT_Object_Class_MemHeap OR RT_Object_Class_Static, obj_flag = 0\<rparr>"
  let ?y = "\<lparr>obj_name = replicate 8 0, obj_type = RT_Object_Class_Semaphore OR RT_Object_Class_Static, obj_flag = RT_IPC_FLAG_FIFO\<rparr>"
  have "objects demo_open (OMemHeap 0x20000000) = Some ?x" "objects demo_open (OSem (memheap_lock 0x20000000)) = Some ?y"
    by (simp_all add: demo_open_def)
  then show ?thesis using memheap_detach_strands [of demo_open "0x20000000" ?x ?y] by auto
qed

end
