(* ===== verification/Device.thy ===== *)
theory Device
  imports MemCalls
begin

text \<open>
  The device layer (\<^verbatim>\<open>src/device.c\<close>): the register of devices and the calls that go through to
  their drivers. A device is named by its address. The function pointers of a device are numbers; what the functions
  do is the parameter \<open>drv\<close>, on everything the program keeps: the kernel, the heap, the devices and
  whatever else the drivers have. A driver that does not come back gives \<open>None\<close>.
\<close>

section \<open>The code\<close>

abbreviation (input) RT_DEVICE_FLAG_STANDALONE :: u16 where "RT_DEVICE_FLAG_STANDALONE \<equiv> 0x008"
abbreviation (input) RT_DEVICE_FLAG_ACTIVATED :: u16 where "RT_DEVICE_FLAG_ACTIVATED \<equiv> 0x010"
abbreviation (input) RT_DEVICE_OFLAG_CLOSE :: u16 where "RT_DEVICE_OFLAG_CLOSE \<equiv> 0x000"
abbreviation (input) RT_DEVICE_OFLAG_OPEN :: u16 where "RT_DEVICE_OFLAG_OPEN \<equiv> 0x008"
abbreviation (input) RT_DEVICE_OFLAG_MASK :: u16 where "RT_DEVICE_OFLAG_MASK \<equiv> 0xf0f"

text \<open>The part of \<^verbatim>\<open>struct rt_device\<close> behind its object.\<close>

record rt_device =
  dev_type :: nat
  dev_flag :: u16
  open_flag :: u16
  ref_count :: u8
  rx_indicate :: "nat option"
  tx_complete :: "nat option"
  device_init :: "nat option"
  device_open :: "nat option"
  device_close :: "nat option"
  device_read :: "nat option"
  device_write :: "nat option"
  device_control :: "nat option"

record 'd device_world =
  dw_kernel :: kernel
  dw_heap :: heap
  devices :: "nat \<Rightarrow> rt_device option"
  dw_rest :: 'd

text \<open>What the driver functions do: the function, the device, the arguments.\<close>

record 'd drivers =
  init_call :: "nat \<Rightarrow> nat \<Rightarrow> 'd device_world \<Rightarrow> (rt_err \<times> 'd device_world) option"
  open_call :: "nat \<Rightarrow> nat \<Rightarrow> u16 \<Rightarrow> 'd device_world \<Rightarrow> (rt_err \<times> 'd device_world) option"
  close_call :: "nat \<Rightarrow> nat \<Rightarrow> 'd device_world \<Rightarrow> (rt_err \<times> 'd device_world) option"
  read_call :: "nat \<Rightarrow> nat \<Rightarrow> u32 \<Rightarrow> nat \<Rightarrow> u32 \<Rightarrow> 'd device_world \<Rightarrow> (u32 \<times> 'd device_world) option"
  write_call :: "nat \<Rightarrow> nat \<Rightarrow> u32 \<Rightarrow> nat \<Rightarrow> u32 \<Rightarrow> 'd device_world \<Rightarrow> (u32 \<times> 'd device_world) option"
  control_call :: "nat \<Rightarrow> nat \<Rightarrow> int \<Rightarrow> nat \<Rightarrow> 'd device_world \<Rightarrow> (rt_err \<times> 'd device_world) option"

definition upd_device :: "nat \<Rightarrow> (rt_device \<Rightarrow> rt_device) \<Rightarrow> 'd device_world \<Rightarrow> 'd device_world" where
  "upd_device d f w = w\<lparr>devices := (devices w)(d := map_option f (devices w d))\<rparr>"

definition is_device :: "nat \<Rightarrow> 'd device_world \<Rightarrow> unit option" where
  "is_device d w = check_type (dw_kernel w) (ODevice d) RT_Object_Class_Device"

definition rt_device_find :: "cbuf \<Rightarrow> kernel \<Rightarrow> (oid option \<times> kernel) option" where
  "rt_device_find name s =
     do { let s = (if rt_thread_self s \<noteq> None then rt_enter_critical s else s);
          information \<leftarrow> rt_object_get_information RT_Object_Class_Device;
          r \<leftarrow> find_by_name (objects s) name (containers s information);
          s \<leftarrow> (if rt_thread_self s \<noteq> None then rt_exit_critical s else Some s);
          Some (r, s) }"

text \<open>\<^verbatim>\<open>RT_NULL\<close> is the device 0.\<close>

definition rt_device_register :: "nat \<Rightarrow> cbuf \<Rightarrow> u16 \<Rightarrow> 'd device_world \<Rightarrow> (rt_err \<times> 'd device_world) option" where
  "rt_device_register d name flags w =
     (if d = 0 then Some (- RT_ERROR, w)
      else do { (r, s) \<leftarrow> rt_device_find name (dw_kernel w);
                let w = w\<lparr>dw_kernel := s\<rparr>;
                if r \<noteq> None then Some (- RT_ERROR, w)
                else do { _ \<leftarrow> devices w d;
                          s \<leftarrow> rt_object_init (ODevice d) RT_Object_Class_Device name s;
                          Some (RT_EOK, upd_device d (\<lambda>x. x\<lparr>dev_flag := flags, ref_count := 0, open_flag := 0\<rparr>) (w\<lparr>dw_kernel := s\<rparr>)) } })"

definition rt_device_unregister :: "nat \<Rightarrow> 'd device_world \<Rightarrow> (rt_err \<times> 'd device_world) option" where
  "rt_device_unregister d w =
     do { is_device d w;
          sys \<leftarrow> rt_object_is_systemobject (dw_kernel w) (ODevice d);
          rt_assert sys;
          s \<leftarrow> rt_object_detach (ODevice d) (dw_kernel w);
          Some (RT_EOK, w\<lparr>dw_kernel := s\<rparr>) }"

definition rt_device_init_all :: rt_err where
  "rt_device_init_all = RT_EOK"

text \<open>
  \<^verbatim>\<open>rt_device_create\<close>; the size of the structure depends on how the compiler stores an enumeration and
  is an argument. When the heap is locked the thread sleeps and \<open>device_made\<close> is what it does with the block.
\<close>

definition device_made :: "nat \<Rightarrow> u32 \<Rightarrow> nat option \<Rightarrow> 'd device_world \<Rightarrow> (nat option \<times> 'd device_world) option" where
  "device_made ty sizeof p w =
     (case p of
        None \<Rightarrow> Some (None, w)
      | Some d \<Rightarrow>
          do { rt_assert (in_block d (unat sizeof) (dw_heap w));
               let h = (dw_heap w)\<lparr>heap_bytes := rt_memset d 0 (unat sizeof) (heap_bytes (dw_heap w))\<rparr>;
               let s = (dw_kernel w)\<lparr>objects := (objects (dw_kernel w))(ODevice d \<mapsto> blank_object)\<rparr>;
               let x = \<lparr>dev_type = ty, dev_flag = 0, open_flag = 0, ref_count = 0, rx_indicate = None, tx_complete = None,
                        device_init = None, device_open = None, device_close = None, device_read = None, device_write = None,
                        device_control = None\<rparr>;
               Some (Some d, w\<lparr>dw_kernel := s, dw_heap := h, devices := (devices w)(d \<mapsto> x)\<rparr>) })"

definition rt_device_create :: "nat \<Rightarrow> u32 \<Rightarrow> nat \<Rightarrow> u32 \<Rightarrow> 'd device_world \<Rightarrow> (mem_call \<times> 'd device_world) option" where
  "rt_device_create hs sizeof ty attach_size w =
     do { let sz = RT_ALIGN sizeof 4 + RT_ALIGN attach_size 4;
          (r, s, h) \<leftarrow> rt_malloc hs sz (dw_kernel w, dw_heap w);
          let w = w\<lparr>dw_kernel := s, dw_heap := h\<rparr>;
          case r of
            Got p \<Rightarrow> do { (p, w) \<leftarrow> device_made ty sizeof p w; Some (Got p, w) }
          | Sleeps k \<Rightarrow> Some (Sleeps k, w) }"

definition rt_device_destroy :: "nat \<Rightarrow> nat \<Rightarrow> 'd device_world \<Rightarrow> (mem_call \<times> 'd device_world) option" where
  "rt_device_destroy hs d w =
     do { rt_assert (d \<noteq> 0);
          is_device d w;
          sys \<leftarrow> rt_object_is_systemobject (dw_kernel w) (ODevice d);
          rt_assert (\<not> sys);
          s \<leftarrow> rt_object_detach (ODevice d) (dw_kernel w);
          (r, s, h) \<leftarrow> rt_free hs d (s, dw_heap w);
          Some (r, w\<lparr>dw_kernel := s, dw_heap := h\<rparr>) }"

text \<open>The call of the init function that \<^verbatim>\<open>rt_device_init\<close> and \<^verbatim>\<open>rt_device_open\<close> share.\<close>

definition device_activate :: "'d drivers \<Rightarrow> nat \<Rightarrow> nat \<Rightarrow> 'd device_world \<Rightarrow> (rt_err \<times> 'd device_world) option" where
  "device_activate drv f d w =
     do { (result, w) \<leftarrow> init_call drv f d w;
          if result \<noteq> RT_EOK then Some (result, w)
          else Some (result, upd_device d (\<lambda>x. x\<lparr>dev_flag := dev_flag x OR RT_DEVICE_FLAG_ACTIVATED\<rparr>) w) }"

definition rt_device_init :: "'d drivers \<Rightarrow> nat \<Rightarrow> 'd device_world \<Rightarrow> (rt_err \<times> 'd device_world) option" where
  "rt_device_init drv d w =
     do { rt_assert (d \<noteq> 0);
          x \<leftarrow> devices w d;
          case device_init x of
            None \<Rightarrow> Some (RT_EOK, w)
          | Some f \<Rightarrow> if dev_flag x AND RT_DEVICE_FLAG_ACTIVATED = 0 then device_activate drv f d w else Some (RT_EOK, w) }"

definition device_opened :: "rt_err \<Rightarrow> nat \<Rightarrow> 'd device_world \<Rightarrow> (rt_err \<times> 'd device_world) option" where
  "device_opened result d w =
     (if result = RT_EOK \<or> result = - RT_ENOSYS
      then do { let w = upd_device d (\<lambda>x. x\<lparr>open_flag := open_flag x OR RT_DEVICE_OFLAG_OPEN, ref_count := ref_count x + 1\<rparr>) w;
                x \<leftarrow> devices w d;
                rt_assert (ref_count x \<noteq> 0);
                Some (result, w) }
      else Some (result, w))"

definition rt_device_open :: "'d drivers \<Rightarrow> nat \<Rightarrow> u16 \<Rightarrow> 'd device_world \<Rightarrow> (rt_err \<times> 'd device_world) option" where
  "rt_device_open drv d oflag w =
     do { rt_assert (d \<noteq> 0);
          is_device d w;
          x \<leftarrow> devices w d;
          (result, w) \<leftarrow>
            (if dev_flag x AND RT_DEVICE_FLAG_ACTIVATED = 0
             then case device_init x of
                    None \<Rightarrow> Some (RT_EOK, upd_device d (\<lambda>x. x\<lparr>dev_flag := dev_flag x OR RT_DEVICE_FLAG_ACTIVATED\<rparr>) w)
                  | Some f \<Rightarrow> device_activate drv f d w
             else Some (RT_EOK, w));
          if result \<noteq> RT_EOK then Some (result, w)
          else do { x \<leftarrow> devices w d;
                    if dev_flag x AND RT_DEVICE_FLAG_STANDALONE \<noteq> 0 \<and> open_flag x AND RT_DEVICE_OFLAG_OPEN \<noteq> 0
                    then Some (- RT_EBUSY, w)
                    else do { (result, w) \<leftarrow>
                                (case device_open x of
                                   Some f \<Rightarrow> open_call drv f d oflag w
                                 | None \<Rightarrow> Some (RT_EOK, upd_device d (\<lambda>x. x\<lparr>open_flag := oflag AND RT_DEVICE_OFLAG_MASK\<rparr>) w));
                              device_opened result d w } } }"

definition rt_device_close :: "'d drivers \<Rightarrow> nat \<Rightarrow> 'd device_world \<Rightarrow> (rt_err \<times> 'd device_world) option" where
  "rt_device_close drv d w =
     do { rt_assert (d \<noteq> 0);
          is_device d w;
          x \<leftarrow> devices w d;
          if ref_count x = 0 then Some (- RT_ERROR, w)
          else do { let w = upd_device d (\<lambda>x. x\<lparr>ref_count := ref_count x - 1\<rparr>) w;
                    if ref_count x - 1 \<noteq> 0 then Some (RT_EOK, w)
                    else do { (result, w) \<leftarrow> (case device_close x of Some f \<Rightarrow> close_call drv f d w | None \<Rightarrow> Some (RT_EOK, w));
                              Some (result,
                                if result = RT_EOK \<or> result = - RT_ENOSYS
                                then upd_device d (\<lambda>x. x\<lparr>open_flag := RT_DEVICE_OFLAG_CLOSE\<rparr>) w else w) } } }"

text \<open>What \<^verbatim>\<open>rt_device_read\<close> and \<^verbatim>\<open>rt_device_write\<close> do when there is nobody to ask.\<close>

definition device_refuses :: "rt_err \<Rightarrow> 'd device_world \<Rightarrow> (u32 \<times> 'd device_world) option" where
  "device_refuses e w = Some (0, w\<lparr>dw_kernel := rt_set_errno e (dw_kernel w)\<rparr>)"

definition rt_device_read :: "'d drivers \<Rightarrow> nat \<Rightarrow> u32 \<Rightarrow> nat \<Rightarrow> u32 \<Rightarrow> 'd device_world \<Rightarrow> (u32 \<times> 'd device_world) option" where
  "rt_device_read drv d pos buffer sz w =
     do { rt_assert (d \<noteq> 0);
          is_device d w;
          x \<leftarrow> devices w d;
          if ref_count x = 0 then device_refuses (- RT_ERROR) w
          else case device_read x of Some f \<Rightarrow> read_call drv f d pos buffer sz w | None \<Rightarrow> device_refuses (- RT_ENOSYS) w }"

definition rt_device_write :: "'d drivers \<Rightarrow> nat \<Rightarrow> u32 \<Rightarrow> nat \<Rightarrow> u32 \<Rightarrow> 'd device_world \<Rightarrow> (u32 \<times> 'd device_world) option" where
  "rt_device_write drv d pos buffer sz w =
     do { rt_assert (d \<noteq> 0);
          is_device d w;
          x \<leftarrow> devices w d;
          if ref_count x = 0 then device_refuses (- RT_ERROR) w
          else case device_write x of Some f \<Rightarrow> write_call drv f d pos buffer sz w | None \<Rightarrow> device_refuses (- RT_ENOSYS) w }"

definition rt_device_control :: "'d drivers \<Rightarrow> nat \<Rightarrow> int \<Rightarrow> nat \<Rightarrow> 'd device_world \<Rightarrow> (rt_err \<times> 'd device_world) option" where
  "rt_device_control drv d cmd arg w =
     do { rt_assert (d \<noteq> 0);
          is_device d w;
          x \<leftarrow> devices w d;
          case device_control x of Some f \<Rightarrow> control_call drv f d cmd arg w | None \<Rightarrow> Some (- RT_ENOSYS, w) }"

definition rt_device_set_rx_indicate :: "nat \<Rightarrow> nat option \<Rightarrow> 'd device_world \<Rightarrow> (rt_err \<times> 'd device_world) option" where
  "rt_device_set_rx_indicate d f w =
     do { rt_assert (d \<noteq> 0); is_device d w; Some (RT_EOK, upd_device d (\<lambda>x. x\<lparr>rx_indicate := f\<rparr>) w) }"

definition rt_device_set_tx_complete :: "nat \<Rightarrow> nat option \<Rightarrow> 'd device_world \<Rightarrow> (rt_err \<times> 'd device_world) option" where
  "rt_device_set_tx_complete d f w =
     do { rt_assert (d \<noteq> 0); is_device d w; Some (RT_EOK, upd_device d (\<lambda>x. x\<lparr>tx_complete := f\<rparr>) w) }"

section \<open>Opening and closing\<close>

text \<open>
  What the layer keeps of a device: whether it is for one client at a time, whether it has been initialised, whether
  it is marked open, and how many clients hold it.
\<close>

record dev_state =
  ds_alone :: bool
  ds_active :: bool
  ds_opened :: bool
  ds_users :: nat

definition dev_view :: "rt_device \<Rightarrow> dev_state" where
  "dev_view x = \<lparr>ds_alone = (dev_flag x AND RT_DEVICE_FLAG_STANDALONE \<noteq> 0), ds_active = (dev_flag x AND RT_DEVICE_FLAG_ACTIVATED \<noteq> 0),
     ds_opened = (open_flag x AND RT_DEVICE_OFLAG_OPEN \<noteq> 0), ds_users = unat (ref_count x)\<rparr>"

definition dev_abs :: "'d device_world \<Rightarrow> nat \<Rightarrow> dev_state option" where
  "dev_abs w d = do { rt_assert (d \<noteq> 0); is_device d w; x \<leftarrow> devices w d; Some (dev_view x) }"

definition answered :: "rt_err \<Rightarrow> bool" where
  "answered r \<longleftrightarrow> r = RT_EOK \<or> r = - RT_ENOSYS"

text \<open>
  What the layer relies on: a driver function that comes back leaves the device registered and leaves alone the count and
  the mark for a single client, which belong to the layer; an init function also leaves the open mark. It may do
  anything else: answer what it likes, set or clear \<^verbatim>\<open>RT_DEVICE_FLAG_ACTIVATED\<close> (as
  \<^verbatim>\<open>rt_hwtimer_close\<close> does), write the open flags when it opens or closes (as the serial, CAN and audio drivers
  do), or not come back (as after a failed assertion in \<^verbatim>\<open>rt_serial_open\<close>).
\<close>

definition kept :: "dev_state \<Rightarrow> dev_state \<Rightarrow> bool" where
  "kept v v' \<longleftrightarrow> ds_users v' = ds_users v \<and> ds_alone v' = ds_alone v"

definition driver_keeps :: "'d drivers \<Rightarrow> nat \<Rightarrow> bool" where
  "driver_keeps drv d \<longleftrightarrow> (\<forall>f w v r w'. dev_abs w d = Some v \<longrightarrow>
     (init_call drv f d w = Some (r, w') \<longrightarrow> (\<exists>v'. dev_abs w' d = Some v' \<and> kept v v' \<and> ds_opened v' = ds_opened v)) \<and>
     (\<forall>fl. open_call drv f d fl w = Some (r, w') \<longrightarrow> (\<exists>v'. dev_abs w' d = Some v' \<and> kept v v')) \<and>
     (close_call drv f d w = Some (r, w') \<longrightarrow> (\<exists>v'. dev_abs w' d = Some v' \<and> kept v v')))"

text \<open>A driver whose functions all come back.\<close>

definition driver_returns :: "'d drivers \<Rightarrow> nat \<Rightarrow> bool" where
  "driver_returns drv d \<longleftrightarrow> (\<forall>f w. dev_abs w d \<noteq> None \<longrightarrow>
     init_call drv f d w \<noteq> None \<and> (\<forall>fl. open_call drv f d fl w \<noteq> None) \<and> close_call drv f d w \<noteq> None)"

lemma driver_keepsD:
  assumes "driver_keeps drv d" "dev_abs w d = Some v"
  shows "init_call drv f d w = Some (r, w') \<Longrightarrow> \<exists>v'. dev_abs w' d = Some v' \<and> kept v v' \<and> ds_opened v' = ds_opened v"
    and "open_call drv f d fl w = Some (r, w') \<Longrightarrow> \<exists>v'. dev_abs w' d = Some v' \<and> kept v v'"
    and "close_call drv f d w = Some (r, w') \<Longrightarrow> \<exists>v'. dev_abs w' d = Some v' \<and> kept v v'"
  using assms unfolding driver_keeps_def by blast+

lemma dev_abs_iff:
  "dev_abs w d = Some v \<longleftrightarrow> d \<noteq> 0 \<and> is_device d w = Some () \<and> (\<exists>x. devices w d = Some x \<and> dev_view x = v)"
  by (auto simp: dev_abs_def bind_Some_iff rt_assert_def split: if_splits)

lemma is_device_upd [simp]: "is_device d (upd_device e f w) = is_device d w"
  by (simp add: is_device_def upd_device_def)

lemma devices_upd: "devices (upd_device e f w) d = (if d = e then map_option f (devices w d) else devices w d)"
  by (simp add: upd_device_def)

lemma dev_abs_upd:
  assumes "dev_abs w d = Some v" "\<And>x. devices w d = Some x \<Longrightarrow> dev_view x = v \<Longrightarrow> dev_view (f x) = v'"
  shows "dev_abs (upd_device d f w) d = Some v'"
  using assms by (auto simp: dev_abs_iff devices_upd)

lemma view_activate:
  "dev_view (x\<lparr>dev_flag := dev_flag x OR RT_DEVICE_FLAG_ACTIVATED\<rparr>) = dev_view x\<lparr>ds_active := True\<rparr>"
proof -
  have "(f OR 16) AND 8 = f AND 8" "(f OR 16) AND 16 \<noteq> 0" for f :: u16
    by (simp_all add: word_ao_dist)
  then show ?thesis by (simp add: dev_view_def)
qed

lemma view_open:
  assumes "unat (ref_count x) < 255"
  shows "dev_view (x\<lparr>open_flag := open_flag x OR RT_DEVICE_OFLAG_OPEN, ref_count := ref_count x + 1\<rparr>)
     = dev_view x\<lparr>ds_opened := True, ds_users := Suc (ds_users (dev_view x))\<rparr>"
    and "ref_count x + 1 \<noteq> 0"
proof -
  have "(f OR 8) AND 8 \<noteq> 0" for f :: u16 by (simp add: word_ao_dist)
  moreover have "unat (ref_count x + 1) = Suc (unat (ref_count x))"
    using assms by (simp add: unat_word_ariths)
  ultimately show "dev_view (x\<lparr>open_flag := open_flag x OR RT_DEVICE_OFLAG_OPEN, ref_count := ref_count x + 1\<rparr>)
     = dev_view x\<lparr>ds_opened := True, ds_users := Suc (ds_users (dev_view x))\<rparr>"
    and "ref_count x + 1 \<noteq> 0"
    by (auto simp: dev_view_def)
qed

text \<open>The two halves of an open: initialise the device if need be, then ask the driver and count.\<close>

definition open_init :: "'d drivers \<Rightarrow> nat \<Rightarrow> 'd device_world \<Rightarrow> (rt_err \<times> 'd device_world) option" where
  "open_init drv d w =
     do { x \<leftarrow> devices w d;
          if dev_flag x AND RT_DEVICE_FLAG_ACTIVATED = 0
          then case device_init x of
                 None \<Rightarrow> Some (RT_EOK, upd_device d (\<lambda>x. x\<lparr>dev_flag := dev_flag x OR RT_DEVICE_FLAG_ACTIVATED\<rparr>) w)
               | Some f \<Rightarrow> device_activate drv f d w
          else Some (RT_EOK, w) }"

definition open_count :: "'d drivers \<Rightarrow> nat \<Rightarrow> u16 \<Rightarrow> 'd device_world \<Rightarrow> (rt_err \<times> 'd device_world) option" where
  "open_count drv d oflag w =
     do { x \<leftarrow> devices w d;
          (result, w) \<leftarrow>
            (case device_open x of
               Some f \<Rightarrow> open_call drv f d oflag w
             | None \<Rightarrow> Some (RT_EOK, upd_device d (\<lambda>x. x\<lparr>open_flag := oflag AND RT_DEVICE_OFLAG_MASK\<rparr>) w));
          device_opened result d w }"

lemma rt_device_open_alt:
  assumes v: "dev_abs w d = Some v" and k: "\<And>r w'. open_init drv d w = Some (r, w') \<Longrightarrow> dev_abs w' d \<noteq> None"
  shows "rt_device_open drv d oflag w =
    do { (r, w') \<leftarrow> open_init drv d w;
         v' \<leftarrow> dev_abs w' d;
         if r \<noteq> RT_EOK then Some (r, w') else if ds_alone v' \<and> ds_opened v' then Some (- RT_EBUSY, w') else open_count drv d oflag w' }"
proof -
  from v obtain x where x: "devices w d = Some x" "d \<noteq> 0" "is_device d w = Some ()" by (auto simp: dev_abs_iff)
  define i where "i = (if dev_flag x AND RT_DEVICE_FLAG_ACTIVATED = 0
     then case device_init x of
            None \<Rightarrow> Some (RT_EOK, upd_device d (\<lambda>x. x\<lparr>dev_flag := dev_flag x OR RT_DEVICE_FLAG_ACTIVATED\<rparr>) w)
          | Some f \<Rightarrow> device_activate drv f d w
     else Some (RT_EOK, w))"
  have i: "open_init drv d w = i" using x by (simp add: open_init_def i_def)
  have o: "rt_device_open drv d oflag w = do { (result, w) \<leftarrow> i;
      if result \<noteq> RT_EOK then Some (result, w)
      else do { x \<leftarrow> devices w d;
                if dev_flag x AND RT_DEVICE_FLAG_STANDALONE \<noteq> 0 \<and> open_flag x AND RT_DEVICE_OFLAG_OPEN \<noteq> 0
                then Some (- RT_EBUSY, w)
                else do { (result, w) \<leftarrow>
                            (case device_open x of
                               Some f \<Rightarrow> open_call drv f d oflag w
                             | None \<Rightarrow> Some (RT_EOK, upd_device d (\<lambda>x. x\<lparr>open_flag := oflag AND RT_DEVICE_OFLAG_MASK\<rparr>) w));
                          device_opened result d w } } }"
    using x unfolding rt_device_open_def i_def by simp
  show ?thesis
  proof (cases i)
    case (Some q)
    obtain r w' where q: "q = (r, w')" by (cases q)
    then obtain v' where v': "dev_abs w' d = Some v'" using k [of r w'] i Some by auto
    then obtain y where y: "devices w' d = Some y" "dev_view y = v'" by (auto simp: dev_abs_iff)
    have "(ds_alone v' \<and> ds_opened v') \<longleftrightarrow> (dev_flag y AND RT_DEVICE_FLAG_STANDALONE \<noteq> 0 \<and> open_flag y AND RT_DEVICE_OFLAG_OPEN \<noteq> 0)"
      using y(2) by (auto simp: dev_view_def)
    then show ?thesis unfolding o i Some q using y(1) v' by (simp add: open_count_def)
  qed (simp add: o i)
qed

lemma open_init_spec:
  assumes drv: "driver_keeps drv d" and v: "dev_abs w d = Some v" and r: "open_init drv d w = Some (r, w')"
  obtains v' where "dev_abs w' d = Some v'" "kept v v'" "ds_opened v' = ds_opened v"
proof -
  let ?a = "upd_device d (\<lambda>x. x\<lparr>dev_flag := dev_flag x OR RT_DEVICE_FLAG_ACTIVATED\<rparr>)"
  have on: "\<exists>v'. dev_abs (?a u) d = Some v' \<and> kept v v' \<and> ds_opened v' = ds_opened v"
    if "dev_abs u d = Some v1" "kept v v1" "ds_opened v1 = ds_opened v" for u v1
  proof -
    have "dev_abs (?a u) d = Some (v1\<lparr>ds_active := True\<rparr>)" using that(1) by (rule dev_abs_upd) (simp only: view_activate)
    then show ?thesis using that(2,3) by (simp add: kept_def)
  qed
  have self: "kept v v" by (simp add: kept_def)
  from v obtain x where x: "devices w d = Some x" by (auto simp: dev_abs_iff)
  consider "w' = w" | "w' = ?a w" | f u q where "init_call drv f d w = Some (q, u)" "w' = u \<or> w' = ?a u"
    using r x by (auto simp: open_init_def device_activate_def bind_eq_Some_conv split: if_splits option.splits)
  then show thesis
  proof cases
    case 1
    then show thesis using v self that by blast
  next
    case 2
    then show thesis using on [OF v self] that by blast
  next
    case 3
    then show thesis using driver_keepsD(1) [OF drv v 3(1)] on that by blast
  qed
qed

lemma device_opened_spec:
  assumes v: "dev_abs w d = Some v" and r: "device_opened r d w = Some (q, w')"
  shows "q = r" "ds_users v < 255 \<or> \<not> answered r"
    "dev_abs w' d = Some (if answered r then v\<lparr>ds_opened := True, ds_users := Suc (ds_users v)\<rparr> else v)"
proof -
  let ?f = "\<lambda>x. x\<lparr>open_flag := open_flag x OR RT_DEVICE_OFLAG_OPEN, ref_count := ref_count x + 1\<rparr>"
  from v obtain x where x: "devices w d = Some x" "dev_view x = v" by (auto simp: dev_abs_iff)
  show q: "q = r" using r by (auto simp: device_opened_def Let_def bind_eq_Some_conv split: if_splits)
  show n: "ds_users v < 255 \<or> \<not> answered r"
  proof (rule ccontr)
    assume "\<not> ?thesis"
    then have "ds_users v \<ge> 255" "answered r" by auto
    then have "unat (ref_count x) = 255" using x(2) unsigned_less [of "ref_count x", where 'a = nat] by (auto simp: dev_view_def)
    then have "unat (ref_count x + 1) = 0" by (simp add: unat_word_ariths)
    then have "ref_count x + 1 = 0" by (simp only: unat_eq_0)
    then show False using r x \<open>answered r\<close>
      by (auto simp: device_opened_def answered_def devices_upd Let_def bind_eq_Some_conv rt_assert_def split: if_splits)
  qed
  show "dev_abs w' d = Some (if answered r then v\<lparr>ds_opened := True, ds_users := Suc (ds_users v)\<rparr> else v)"
  proof (cases "answered r")
    case True
    then have "unat (ref_count x) < 255" using n x(2) by (auto simp: dev_view_def)
    then have "dev_abs (upd_device d ?f w) d = Some (v\<lparr>ds_opened := True, ds_users := Suc (ds_users v)\<rparr>)"
      using v by (intro dev_abs_upd) (use x view_open(1) in auto)
    then show ?thesis using r True by (auto simp: device_opened_def answered_def Let_def bind_eq_Some_conv split: if_splits)
  qed (use r v in \<open>auto simp: device_opened_def answered_def\<close>)
qed

lemma open_count_spec:
  assumes drv: "driver_keeps drv d" and v: "dev_abs w d = Some v" and r: "open_count drv d oflag w = Some (r, w')"
  obtains v' where "dev_abs w' d = Some v'" "ds_alone v' = ds_alone v"
    "if answered r then ds_opened v' \<and> ds_users v' = Suc (ds_users v) else ds_users v' = ds_users v"
proof -
  from v obtain x where x: "devices w d = Some x" by (auto simp: dev_abs_iff)
  obtain q u where u: "(case device_open x of Some f \<Rightarrow> open_call drv f d oflag w
       | None \<Rightarrow> Some (RT_EOK, upd_device d (\<lambda>x. x\<lparr>open_flag := oflag AND RT_DEVICE_OFLAG_MASK\<rparr>) w)) = Some (q, u)"
    "device_opened q d u = Some (r, w')" using r x by (auto simp: open_count_def bind_eq_Some_conv)
  have "\<exists>v1. dev_abs u d = Some v1 \<and> kept v v1"
  proof (cases "device_open x")
    case None
    then have "u = upd_device d (\<lambda>x. x\<lparr>open_flag := oflag AND RT_DEVICE_OFLAG_MASK\<rparr>) w" using u(1) by simp
    moreover have "dev_abs (upd_device d (\<lambda>x. x\<lparr>open_flag := oflag AND RT_DEVICE_OFLAG_MASK\<rparr>) w) d
        = Some (v\<lparr>ds_opened := ((oflag AND RT_DEVICE_OFLAG_MASK) AND RT_DEVICE_OFLAG_OPEN \<noteq> 0)\<rparr>)"
      using v by (rule dev_abs_upd) (auto simp: dev_view_def)
    ultimately show ?thesis by (simp add: kept_def)
  next
    case (Some f)
    then show ?thesis using driver_keepsD(2) [OF drv v] u(1) by auto
  qed
  then obtain v1 where v1: "dev_abs u d = Some v1" "kept v v1" by blast
  note o = device_opened_spec [OF v1(1) u(2)]
  show thesis
    by (rule that [OF o(3)]) (use o(1) v1(2) in \<open>auto simp: kept_def\<close>)
qed

text \<open>What an open does, by the code it returns, and what a close does.\<close>

definition open_result :: "rt_err \<Rightarrow> dev_state \<Rightarrow> dev_state \<Rightarrow> bool" where
  "open_result r v v' \<longleftrightarrow> ds_alone v' = ds_alone v \<and>
     (r \<noteq> RT_EOK \<and> ds_users v' = ds_users v \<and> ds_opened v' = ds_opened v \<or>
      \<not> (ds_alone v \<and> ds_opened v) \<and>
        (if answered r then ds_opened v' \<and> ds_users v' = Suc (ds_users v) else ds_users v' = ds_users v))"

definition close_result :: "rt_err \<Rightarrow> dev_state \<Rightarrow> dev_state \<Rightarrow> bool" where
  "close_result r v v' \<longleftrightarrow> ds_alone v' = ds_alone v \<and>
     (if ds_users v = 0 then r = - RT_ERROR \<and> v' = v
      else if ds_users v > 1 then r = RT_EOK \<and> v' = v\<lparr>ds_users := ds_users v - 1\<rparr>
      else ds_users v' = 0 \<and> (answered r \<longrightarrow> \<not> ds_opened v'))"

lemma rt_device_open_spec:
  assumes drv: "driver_keeps drv d" and v: "dev_abs w d = Some v" and r: "rt_device_open drv d oflag w = Some (r, w')"
  obtains v' where "dev_abs w' d = Some v'" "open_result r v v'"
proof -
  have k: "dev_abs u d \<noteq> None" if "open_init drv d w = Some (q, u)" for q u
    by (rule open_init_spec [OF drv v that]) simp
  obtain q u v1 where i: "open_init drv d w = Some (q, u)" "dev_abs u d = Some v1"
    and rest: "(if q \<noteq> RT_EOK then Some (q, u) else if ds_alone v1 \<and> ds_opened v1 then Some (- RT_EBUSY, u)
      else open_count drv d oflag u) = Some (r, w')"
    using r rt_device_open_alt [OF v, of drv oflag] k by (auto simp: bind_eq_Some_conv)
  obtain v2 where "dev_abs u d = Some v2" "kept v v2" "ds_opened v2 = ds_opened v" using open_init_spec [OF drv v i(1)] .
  then have v1: "kept v v1" "ds_opened v1 = ds_opened v" using i(2) by simp_all
  show thesis
  proof (cases "q = RT_EOK \<and> \<not> (ds_alone v1 \<and> ds_opened v1)")
    case True
    then have "open_count drv d oflag u = Some (r, w')" using rest by auto
    from open_count_spec [OF drv i(2) this] obtain v' where "dev_abs w' d = Some v'" "ds_alone v' = ds_alone v1"
      "if answered r then ds_opened v' \<and> ds_users v' = Suc (ds_users v1) else ds_users v' = ds_users v1" .
    then show thesis using that [of v'] True v1 by (simp add: open_result_def kept_def)
  next
    case False
    then have "u = w'" "r \<noteq> RT_EOK" using rest by (auto split: if_splits)
    then show thesis using that [of v1] i(2) v1 by (simp add: open_result_def kept_def)
  qed
qed

lemma view_close:
  assumes "ref_count x \<noteq> 0"
  shows "dev_view (x\<lparr>ref_count := ref_count x - 1\<rparr>) = dev_view x\<lparr>ds_users := ds_users (dev_view x) - 1\<rparr>"
    and "ref_count x - 1 \<noteq> 0 \<longleftrightarrow> ds_users (dev_view x) > 1"
proof -
  have u: "unat (ref_count x - 1) = unat (ref_count x) - 1" using assms by (simp add: unat_minus_one)
  then show "dev_view (x\<lparr>ref_count := ref_count x - 1\<rparr>) = dev_view x\<lparr>ds_users := ds_users (dev_view x) - 1\<rparr>"
    by (simp add: dev_view_def)
  show "ref_count x - 1 \<noteq> 0 \<longleftrightarrow> ds_users (dev_view x) > 1"
    unfolding unat_eq_0 [symmetric] u by (auto simp: dev_view_def)
qed

text \<open>A close, by how many clients there are.\<close>

lemma rt_device_close_alt:
  assumes v: "dev_abs w d = Some v"
  shows "\<exists>x w1. devices w d = Some x \<and> (ds_users v \<noteq> 0 \<longrightarrow> dev_abs w1 d = Some (v\<lparr>ds_users := ds_users v - 1\<rparr>)) \<and>
     rt_device_close drv d w =
       (if ds_users v = 0 then Some (- RT_ERROR, w) else if ds_users v > 1 then Some (RT_EOK, w1)
        else do { (r, u) \<leftarrow> (case device_close x of Some f \<Rightarrow> close_call drv f d w1 | None \<Rightarrow> Some (RT_EOK, w1));
                  Some (r, if answered r then upd_device d (\<lambda>x. x\<lparr>open_flag := RT_DEVICE_OFLAG_CLOSE\<rparr>) u else u) })"
proof -
  from v obtain x where x: "devices w d = Some x" "dev_view x = v" "d \<noteq> 0" "is_device d w = Some ()" by (auto simp: dev_abs_iff)
  let ?w = "upd_device d (\<lambda>x. x\<lparr>ref_count := ref_count x - 1\<rparr>) w"
  have z: "ref_count x = 0 \<longleftrightarrow> ds_users v = 0" using x(2) by (auto simp: dev_view_def unat_eq_0)
  have "dev_abs ?w d = Some (v\<lparr>ds_users := ds_users v - 1\<rparr>)" if "ds_users v \<noteq> 0"
    using v by (rule dev_abs_upd) (use x view_close(1) that z in simp)
  moreover have "ref_count x - 1 \<noteq> 0 \<longleftrightarrow> ds_users v > 1" if "ds_users v \<noteq> 0" using view_close(2) [of x] that z x(2) by simp
  ultimately show ?thesis using x z by (intro exI [of _ x] exI [of _ ?w]) (auto simp: rt_device_close_def Let_def answered_def)
qed

lemma rt_device_close_spec:
  assumes drv: "driver_keeps drv d" and v: "dev_abs w d = Some v" and r: "rt_device_close drv d w = Some (r, w')"
  obtains v' where "dev_abs w' d = Some v'" "close_result r v v'"
proof -
  obtain x w1 where c: "devices w d = Some x" "ds_users v \<noteq> 0 \<longrightarrow> dev_abs w1 d = Some (v\<lparr>ds_users := ds_users v - 1\<rparr>)"
    "rt_device_close drv d w =
       (if ds_users v = 0 then Some (- RT_ERROR, w) else if ds_users v > 1 then Some (RT_EOK, w1)
        else do { (r, u) \<leftarrow> (case device_close x of Some f \<Rightarrow> close_call drv f d w1 | None \<Rightarrow> Some (RT_EOK, w1));
                  Some (r, if answered r then upd_device d (\<lambda>x. x\<lparr>open_flag := RT_DEVICE_OFLAG_CLOSE\<rparr>) u else u) })"
    using rt_device_close_alt [OF v, of drv] by blast
  consider "ds_users v = 0" | "ds_users v > 1" | "ds_users v = 1" by linarith
  then show thesis
  proof cases
    case 1
    then show thesis using r c(3) v by (intro that [of v]) (auto simp: close_result_def)
  next
    case 2
    then show thesis using r c(2,3) by (intro that [of "v\<lparr>ds_users := ds_users v - 1\<rparr>"]) (auto simp: close_result_def)
  next
    case 3
    then obtain u where u: "(case device_close x of Some f \<Rightarrow> close_call drv f d w1 | None \<Rightarrow> Some (RT_EOK, w1)) = Some (r, u)"
      "w' = (if answered r then upd_device d (\<lambda>x. x\<lparr>open_flag := RT_DEVICE_OFLAG_CLOSE\<rparr>) u else u)"
      using r c(3) by (auto simp: bind_eq_Some_conv)
    have w1: "dev_abs w1 d = Some (v\<lparr>ds_users := 0\<rparr>)" using c(2) 3 by simp
    have "\<exists>v1. dev_abs u d = Some v1 \<and> kept (v\<lparr>ds_users := 0\<rparr>) v1"
    proof (cases "device_close x")
      case None
      then show ?thesis using u(1) w1 by (simp add: kept_def)
    next
      case (Some f)
      then show ?thesis using driver_keepsD(3) [OF drv w1] u(1) by auto
    qed
    then obtain v1 where v1: "dev_abs u d = Some v1" "ds_users v1 = 0" "ds_alone v1 = ds_alone v" by (auto simp: kept_def)
    have "dev_abs (upd_device d (\<lambda>x. x\<lparr>open_flag := RT_DEVICE_OFLAG_CLOSE\<rparr>) u) d = Some (v1\<lparr>ds_opened := False\<rparr>)"
      using v1(1) by (rule dev_abs_upd) (auto simp: dev_view_def)
    then show thesis using that [of "if answered r then v1\<lparr>ds_opened := False\<rparr> else v1"] v1 u(2) 3 by (auto simp: close_result_def)
  qed
qed

subsection \<open>Many clients\<close>

datatype dev_req = Open_req u16 | Close_req

fun dev_call :: "'d drivers \<Rightarrow> nat \<Rightarrow> dev_req \<Rightarrow> 'd device_world \<Rightarrow> (rt_err \<times> 'd device_world) option" where
  "dev_call drv d (Open_req oflag) w = rt_device_open drv d oflag w"
| "dev_call drv d Close_req w = rt_device_close drv d w"

fun dev_serve :: "'d drivers \<Rightarrow> nat \<Rightarrow> dev_req list \<Rightarrow> 'd device_world \<Rightarrow> (rt_err list \<times> 'd device_world) option" where
  "dev_serve drv d [] w = Some ([], w)"
| "dev_serve drv d (q # qs) w =
     do { (r, w) \<leftarrow> dev_call drv d q w;
          (rs, w) \<leftarrow> dev_serve drv d qs w;
          Some (r # rs, w) }"

text \<open>
  How many clients hold the device, reckoned from what they asked and what they were told, when the answers \<open>P\<close> to
  an open are taken for a success.
\<close>

fun balance :: "(rt_err \<Rightarrow> bool) \<Rightarrow> nat \<Rightarrow> (dev_req \<times> rt_err) list \<Rightarrow> nat" where
  "balance P n [] = n"
| "balance P n ((Open_req _, r) # h) = balance P (if P r then Suc n else n) h"
| "balance P n ((Close_req, r) # h) = balance P (n - 1) h"

definition opens :: "dev_req list \<Rightarrow> nat" where
  "opens qs = length (filter (\<lambda>q. q \<noteq> Close_req) qs)"

text \<open>A device for a single client has at most one, and is marked open while it has one.\<close>

definition dev_fit :: "dev_state \<Rightarrow> bool" where
  "dev_fit v \<longleftrightarrow> (ds_alone v \<longrightarrow> ds_users v \<le> 1 \<and> (ds_users v > 0 \<longrightarrow> ds_opened v))"

lemma balance_cong: "(\<And>r. r \<in> set (map snd h) \<Longrightarrow> P r = Q r) \<Longrightarrow> balance P n h = balance Q n h"
  by (induction P n h rule: balance.induct) auto

lemma dev_call_fit:
  assumes drv: "driver_keeps drv d" and v: "dev_abs w d = Some v" "dev_fit v" and r: "dev_call drv d q w = Some (r, w')"
  obtains v' where "dev_abs w' d = Some v'" "dev_fit v'" "ds_alone v' = ds_alone v"
    "balance (\<lambda>r. r = RT_EOK) (ds_users v) [(q, r)] \<le> ds_users v'" "ds_users v' \<le> balance answered (ds_users v) [(q, r)]"
proof (cases q)
  case (Open_req oflag)
  then have "rt_device_open drv d oflag w = Some (r, w')" using r by simp
  from rt_device_open_spec [OF drv v(1) this] obtain v' where o: "dev_abs w' d = Some v'" "open_result r v v'" .
  show thesis using o v(2) Open_req by (intro that [of v']) (auto simp: open_result_def dev_fit_def answered_def split: if_splits)
next
  case Close_req
  then have "rt_device_close drv d w = Some (r, w')" using r by simp
  from rt_device_close_spec [OF drv v(1) this] obtain v' where o: "dev_abs w' d = Some v'" "close_result r v v'" .
  show thesis using o v(2) Close_req by (intro that [of v']) (auto simp: close_result_def dev_fit_def split: if_splits)
qed

lemma balance_mono: "n \<le> m \<Longrightarrow> balance P n h \<le> balance P m h"
  by (induction P n h arbitrary: m rule: balance.induct) (auto simp: diff_le_mono)

lemma dev_serve_fit:
  assumes "driver_keeps drv d" "dev_abs w d = Some v" "dev_fit v" "dev_serve drv d qs w = Some (rs, w')"
  shows "\<exists>v'. dev_abs w' d = Some v' \<and> dev_fit v' \<and> ds_alone v' = ds_alone v \<and> length rs = length qs \<and>
    balance (\<lambda>r. r = RT_EOK) (ds_users v) (zip qs rs) \<le> ds_users v' \<and> ds_users v' \<le> balance answered (ds_users v) (zip qs rs)"
  using assms(2-)
proof (induction qs arbitrary: w v rs)
  case (Cons q qs)
  obtain r w1 ss where s: "dev_call drv d q w = Some (r, w1)" "dev_serve drv d qs w1 = Some (ss, w')" "rs = r # ss"
    using Cons.prems(3) by (auto simp: bind_eq_Some_conv)
  obtain v1 where v1: "dev_abs w1 d = Some v1" "dev_fit v1" "ds_alone v1 = ds_alone v"
    "balance (\<lambda>r. r = RT_EOK) (ds_users v) [(q, r)] \<le> ds_users v1" "ds_users v1 \<le> balance answered (ds_users v) [(q, r)]"
    using dev_call_fit [OF assms(1) Cons.prems(1,2) s(1)] .
  have split: "balance P n (zip (q # qs) (r # ss)) = balance P (balance P n [(q, r)]) (zip qs ss)" for P n by (cases q) auto
  obtain v' where v': "dev_abs w' d = Some v'" "dev_fit v'" "ds_alone v' = ds_alone v1" "length ss = length qs"
    "balance (\<lambda>r. r = RT_EOK) (ds_users v1) (zip qs ss) \<le> ds_users v'" "ds_users v' \<le> balance answered (ds_users v1) (zip qs ss)"
    using Cons.IH [OF v1(1,2) s(2)] by blast
  show ?case unfolding s(3) split
    using v' v1(3) order_trans [OF balance_mono [OF v1(4)] v'(5)] order_trans [OF v'(6) balance_mono [OF v1(5)]]
    by (intro exI [of _ v']) simp
qed simp

text \<open>With a driver that comes back, the calls do, unless the count would wrap.\<close>

lemma open_init_returns:
  assumes "driver_returns drv d" "dev_abs w d = Some v"
  shows "open_init drv d w \<noteq> None"
proof -
  from assms(2) obtain x where x: "devices w d = Some x" by (auto simp: dev_abs_iff)
  have "device_activate drv f d w \<noteq> None" for f
  proof -
    have "init_call drv f d w \<noteq> None" using assms by (simp add: driver_returns_def)
    then show ?thesis by (auto simp: device_activate_def)
  qed
  then show ?thesis using x by (auto simp: open_init_def split: option.splits)
qed

lemma open_count_returns:
  assumes ret: "driver_returns drv d" and keep: "driver_keeps drv d" and v: "dev_abs w d = Some v" and n: "ds_users v < 255"
  shows "open_count drv d oflag w \<noteq> None"
proof -
  from v obtain x where x: "devices w d = Some x" by (auto simp: dev_abs_iff)
  let ?c = "case device_open x of Some f \<Rightarrow> open_call drv f d oflag w
       | None \<Rightarrow> Some (RT_EOK, upd_device d (\<lambda>x. x\<lparr>open_flag := oflag AND RT_DEVICE_OFLAG_MASK\<rparr>) w)"
  have "?c \<noteq> None" using ret v by (auto simp: driver_returns_def split: option.splits)
  then obtain q u where c: "?c = Some (q, u)" by auto
  have "\<exists>v1. dev_abs u d = Some v1 \<and> ds_users v1 = ds_users v"
  proof (cases "device_open x")
    case None
    then have u: "u = upd_device d (\<lambda>x. x\<lparr>open_flag := oflag AND RT_DEVICE_OFLAG_MASK\<rparr>) w" using c by simp
    have "dev_abs u d = Some (v\<lparr>ds_opened := ((oflag AND RT_DEVICE_OFLAG_MASK) AND RT_DEVICE_OFLAG_OPEN \<noteq> 0)\<rparr>)"
      unfolding u using v by (rule dev_abs_upd) (auto simp: dev_view_def)
    then show ?thesis by simp
  next
    case (Some f)
    then show ?thesis using driver_keepsD(2) [OF keep v, of f oflag q u] c by (auto simp: kept_def)
  qed
  then obtain y where y: "devices u d = Some y" "unat (ref_count y) < 255" using n by (auto simp: dev_abs_iff dev_view_def)
  then have "device_opened q d u \<noteq> None"
    using view_open(2) [OF y(2)] by (auto simp: device_opened_def devices_upd Let_def)
  then show ?thesis unfolding open_count_def x bind.bind_lunit c by simp
qed

lemma dev_call_returns:
  assumes ret: "driver_returns drv d" and keep: "driver_keeps drv d" and v: "dev_abs w d = Some v"
    and n: "q \<noteq> Close_req \<Longrightarrow> ds_users v < 255"
  shows "dev_call drv d q w \<noteq> None"
proof (cases q)
  case (Open_req oflag)
  have k: "dev_abs u d \<noteq> None" if "open_init drv d w = Some (r, u)" for r u
    by (rule open_init_spec [OF keep v that]) simp
  obtain r u where u: "open_init drv d w = Some (r, u)" using open_init_returns [OF ret v] by auto
  obtain v1 where v1: "dev_abs u d = Some v1" "kept v v1" "ds_opened v1 = ds_opened v" using open_init_spec [OF keep v u] .
  have "open_count drv d oflag u \<noteq> None" using open_count_returns [OF ret keep v1(1)] n v1(2) Open_req by (simp add: kept_def)
  then show ?thesis using Open_req u v1(1) rt_device_open_alt [OF v, of drv oflag] k by simp
next
  case Close_req
  obtain x w1 where c: "devices w d = Some x" "ds_users v \<noteq> 0 \<longrightarrow> dev_abs w1 d = Some (v\<lparr>ds_users := ds_users v - 1\<rparr>)"
    "rt_device_close drv d w =
       (if ds_users v = 0 then Some (- RT_ERROR, w) else if ds_users v > 1 then Some (RT_EOK, w1)
        else do { (r, u) \<leftarrow> (case device_close x of Some f \<Rightarrow> close_call drv f d w1 | None \<Rightarrow> Some (RT_EOK, w1));
                  Some (r, if answered r then upd_device d (\<lambda>x. x\<lparr>open_flag := RT_DEVICE_OFLAG_CLOSE\<rparr>) u else u) })"
    using rt_device_close_alt [OF v, of drv] by blast
  have "close_call drv f d w1 \<noteq> None" if "ds_users v \<noteq> 0" for f using ret c(2) that by (simp add: driver_returns_def)
  then have "(case device_close x of Some f \<Rightarrow> close_call drv f d w1 | None \<Rightarrow> Some (RT_EOK, w1)) \<noteq> None" if "ds_users v \<noteq> 0"
    using that by (simp split: option.splits)
  then show ?thesis using Close_req c(3) by fastforce
qed

lemma dev_serve_returns:
  assumes "driver_returns drv d" "driver_keeps drv d" "dev_abs w d = Some v" "dev_fit v" "ds_users v + opens qs \<le> 255"
  shows "dev_serve drv d qs w \<noteq> None"
  using assms(3-)
proof (induction qs arbitrary: w v)
  case (Cons q qs)
  have "q \<noteq> Close_req \<Longrightarrow> ds_users v < 255" using Cons.prems(3) by (auto simp: opens_def)
  then obtain r w1 where r: "dev_call drv d q w = Some (r, w1)" using dev_call_returns [OF assms(1,2) Cons.prems(1)] by force
  obtain v1 where v1: "dev_abs w1 d = Some v1" "dev_fit v1" "ds_alone v1 = ds_alone v"
    "balance (\<lambda>r. r = RT_EOK) (ds_users v) [(q, r)] \<le> ds_users v1" "ds_users v1 \<le> balance answered (ds_users v) [(q, r)]"
    using dev_call_fit [OF assms(2) Cons.prems(1,2) r] .
  have "ds_users v1 + opens qs \<le> 255" using v1(5) Cons.prems(3) by (cases q) (auto simp: opens_def split: if_splits)
  from Cons.IH [OF v1(1,2) this] obtain rs w' where "dev_serve drv d qs w1 = Some (rs, w')" by auto
  then show ?case using r by simp
qed simp

text \<open>
  (C21) The device layer counts the clients of a device, for drivers that leave the count and the mark for a single client
  alone (\<^verbatim>\<open>driver_keeps\<close>, which says nothing of what they answer or whether they come back). After any sequence of opens
  and closes of a registered device that comes back, the count lies between what the clients reckon from their answers
  when only \<^verbatim>\<open>RT_EOK\<close> counts for an open and when \<^verbatim>\<open>-RT_ENOSYS\<close> does too (a close
  is one less, never below zero); it is both when no call answers \<^verbatim>\<open>-RT_ENOSYS\<close>, the answer an init
  function that fails can give to an open that does not count. A stand-alone device never has two clients and is marked
  open while it has one. A device nobody holds refuses reads and writes with
  \<^verbatim>\<open>-RT_ERROR\<close>. The sequence comes back if the driver's functions do and the clients stay below 256.
\<close>

theorem device_counts_clients:
  assumes "driver_keeps drv d" "dev_abs w d = Some v" "dev_fit v"
  shows "(driver_returns drv d \<and> ds_users v + opens qs \<le> 255 \<longrightarrow> dev_serve drv d qs w \<noteq> None) \<and>
    (\<forall>rs w'. dev_serve drv d qs w = Some (rs, w') \<longrightarrow>
      (\<exists>v'. dev_abs w' d = Some v' \<and> length rs = length qs \<and>
         balance (\<lambda>r. r = RT_EOK) (ds_users v) (zip qs rs) \<le> ds_users v' \<and>
         ds_users v' \<le> balance answered (ds_users v) (zip qs rs) \<and>
         (- RT_ENOSYS \<notin> set rs \<longrightarrow> ds_users v' = balance answered (ds_users v) (zip qs rs)) \<and>
         ds_alone v' = ds_alone v \<and> (ds_alone v \<longrightarrow> ds_users v' \<le> 1 \<and> (ds_users v' > 0 \<longrightarrow> ds_opened v')) \<and>
         (ds_users v' = 0 \<longrightarrow> (\<forall>pos buf n. rt_device_read drv d pos buf n w' = device_refuses (- RT_ERROR) w' \<and>
            rt_device_write drv d pos buf n w' = device_refuses (- RT_ERROR) w'))))"
proof (intro conjI impI allI)
  show "dev_serve drv d qs w \<noteq> None" if "driver_returns drv d \<and> ds_users v + opens qs \<le> 255"
    using dev_serve_returns assms that by blast
  fix rs w'
  assume s: "dev_serve drv d qs w = Some (rs, w')"
  obtain v' where v': "dev_abs w' d = Some v'" "dev_fit v'" "ds_alone v' = ds_alone v" "length rs = length qs"
    "balance (\<lambda>r. r = RT_EOK) (ds_users v) (zip qs rs) \<le> ds_users v'" "ds_users v' \<le> balance answered (ds_users v) (zip qs rs)"
    using dev_serve_fit [OF assms s] by blast
  have eq: "balance (\<lambda>r. r = RT_EOK) (ds_users v) (zip qs rs) = balance answered (ds_users v) (zip qs rs)"
    if "- RT_ENOSYS \<notin> set rs" using that v'(4) by (intro balance_cong) (auto simp: answered_def)
  have "rt_device_read drv d pos buf n w' = device_refuses (- RT_ERROR) w'"
    "rt_device_write drv d pos buf n w' = device_refuses (- RT_ERROR) w'" if "ds_users v' = 0" for pos buf n
    using v'(1) that by (auto simp: rt_device_read_def rt_device_write_def dev_abs_iff dev_view_def unat_eq_0)
  then show "\<exists>v'. dev_abs w' d = Some v' \<and> length rs = length qs \<and>
      balance (\<lambda>r. r = RT_EOK) (ds_users v) (zip qs rs) \<le> ds_users v' \<and>
      ds_users v' \<le> balance answered (ds_users v) (zip qs rs) \<and>
      (- RT_ENOSYS \<notin> set rs \<longrightarrow> ds_users v' = balance answered (ds_users v) (zip qs rs)) \<and>
      ds_alone v' = ds_alone v \<and> (ds_alone v \<longrightarrow> ds_users v' \<le> 1 \<and> (ds_users v' > 0 \<longrightarrow> ds_opened v')) \<and>
      (ds_users v' = 0 \<longrightarrow> (\<forall>pos buf n. rt_device_read drv d pos buf n w' = device_refuses (- RT_ERROR) w' \<and>
         rt_device_write drv d pos buf n w' = device_refuses (- RT_ERROR) w'))"
    using v' eq by (intro exI [of _ v']) (auto simp: dev_fit_def)
qed

text \<open>
  A stand-alone device whose driver fails to close, and leaves its flags as they were, is lost: the count is already zero
  and the device is still marked open, so from then on every open is answered with \<^verbatim>\<open>-RT_EBUSY\<close> and
  every close with \<^verbatim>\<open>-RT_ERROR\<close>, whatever the sequence, and no driver function is called again.
\<close>

theorem close_failure_locks_device:
  assumes "rt_device_close drv d w = Some (r, w')" "dev_abs w' d = Some (v\<lparr>ds_users := 0\<rparr>)"
    "ds_opened v" "ds_alone v" "ds_active v"
  shows "dev_serve drv d qs w' = Some (map (\<lambda>q. if q = Close_req then - RT_ERROR else - RT_EBUSY) qs, w')"
proof -
  from assms(2) obtain x where x: "devices w' d = Some x" "dev_view x = v\<lparr>ds_users := 0\<rparr>" "d \<noteq> 0" "is_device d w' = Some ()"
    by (auto simp: dev_abs_iff)
  then have f: "dev_flag x AND RT_DEVICE_FLAG_STANDALONE \<noteq> 0" "dev_flag x AND RT_DEVICE_FLAG_ACTIVATED \<noteq> 0"
    "open_flag x AND RT_DEVICE_OFLAG_OPEN \<noteq> 0" "ref_count x = 0"
    using assms(3-5) by (auto simp: dev_view_def unat_eq_0 dest: arg_cong [of _ _ ds_alone] arg_cong [of _ _ ds_active]
        arg_cong [of _ _ ds_opened] arg_cong [of _ _ ds_users])
  have "rt_device_open drv d fl w' = Some (- RT_EBUSY, w')" for fl
    using x f by (simp add: rt_device_open_def)
  moreover have "rt_device_close drv d w' = Some (- RT_ERROR, w')"
    using x f by (simp add: rt_device_close_def)
  ultimately have "dev_call drv d q w' = Some (if q = Close_req then - RT_ERROR else - RT_EBUSY, w')" for q
    by (cases q) auto
  then show ?thesis by (induction qs) simp_all
qed

section \<open>On a sample system\<close>

text \<open>
  A driver whose functions succeed, but for a close function that answers \<open>r\<close>, and a system with the
  stand-alone device 1, registered and held by one client, beside the device 2, not yet registered.
\<close>

definition demo_driver :: "rt_err \<Rightarrow> unit drivers" where
  "demo_driver r = \<lparr>init_call = (\<lambda>f d w. Some (RT_EOK, w)), open_call = (\<lambda>f d fl w. Some (RT_EOK, w)),
     close_call = (\<lambda>f d w. Some (r, w)), read_call = (\<lambda>f d pos buf n w. Some (n, w)),
     write_call = (\<lambda>f d pos buf n w. Some (n, w)), control_call = (\<lambda>f d cmd arg w. Some (RT_EOK, w))\<rparr>"

definition demo_device :: rt_device where
  "demo_device = \<lparr>dev_type = 0, dev_flag = RT_DEVICE_FLAG_STANDALONE OR RT_DEVICE_FLAG_ACTIVATED, open_flag = RT_DEVICE_OFLAG_OPEN,
     ref_count = 1, rx_indicate = None, tx_complete = None, device_init = Some 1, device_open = Some 2, device_close = Some 3,
     device_read = Some 4, device_write = Some 5, device_control = None\<rparr>"

definition demo_world :: "unit device_world" where
  "demo_world = \<lparr>dw_kernel = demo\<lparr>objects := (objects demo)(ODevice 1 \<mapsto> demo_object RT_Object_Class_Device 0)\<rparr>,
     dw_heap = demo_heap, devices = [1 \<mapsto> demo_device, 2 \<mapsto> demo_device], dw_rest = ()\<rparr>"

definition demo_view :: dev_state where
  "demo_view = \<lparr>ds_alone = True, ds_active = True, ds_opened = True, ds_users = 1\<rparr>"

lemma demo_driver_ok: "driver_keeps (demo_driver r) d" "driver_returns (demo_driver r) d"
  by (auto simp: driver_keeps_def driver_returns_def demo_driver_def kept_def)

lemma demo_world_view: "dev_abs demo_world 1 = Some demo_view" "dev_fit demo_view"
  by (simp_all add: dev_abs_iff demo_world_def is_device_def check_type_known dev_view_def demo_view_def demo_device_def
      dev_fit_def)

theorem device_counts_clients_witness:
  "\<exists>rs w' v'. dev_serve (demo_driver (- 8)) 1 [Open_req 3, Close_req, Close_req, Open_req 3] demo_world = Some (rs, w') \<and>
     length rs = 4 \<and> dev_abs w' 1 = Some v' \<and> ds_users v' \<le> 1"
proof -
  have "ds_users demo_view + opens [Open_req 3, Close_req, Close_req, Open_req 3] \<le> 255" "ds_alone demo_view"
    by (simp_all add: demo_view_def opens_def)
  with device_counts_clients [OF demo_driver_ok(1) demo_world_view, of "- 8" "[Open_req 3, Close_req, Close_req, Open_req 3]"] demo_driver_ok(2)
  show ?thesis by fastforce
qed

theorem close_failure_locks_device_witness:
  "\<exists>w'. rt_device_close (demo_driver (- 8)) 1 demo_world = Some (- 8, w') \<and>
     dev_serve (demo_driver (- 8)) 1 [Open_req 3, Close_req] w' = Some ([- RT_EBUSY, - RT_ERROR], w')"
proof -
  have "rt_device_close (demo_driver (- 8)) 1 demo_world = Some (- 8, upd_device 1 (\<lambda>x. x\<lparr>ref_count := ref_count x - 1\<rparr>) demo_world)"
    by (simp add: rt_device_close_def demo_world_def demo_driver_def is_device_def check_type_known demo_device_def
        upd_device_def Let_def)
  then obtain w' where c: "rt_device_close (demo_driver (- 8)) 1 demo_world = Some (- 8, w')"
    and w': "w' = upd_device 1 (\<lambda>x. x\<lparr>ref_count := ref_count x - 1\<rparr>) demo_world" by blast
  have "dev_abs w' 1 = Some (demo_view\<lparr>ds_users := 0\<rparr>)"
    unfolding w' by (simp add: dev_abs_iff demo_world_def is_device_def check_type_known dev_view_def demo_view_def demo_device_def upd_device_def)
  then have "dev_serve (demo_driver (- 8)) 1 [Open_req 3, Close_req] w'
      = Some (map (\<lambda>q. if q = Close_req then - RT_ERROR else - RT_EBUSY) [Open_req 3, Close_req], w')"
    by (rule close_failure_locks_device [OF c]) (simp_all add: demo_view_def)
  with c show ?thesis by auto
qed

end
