(* ===== verification/DeviceReg.thy ===== *)
theory DeviceReg
  imports Device
begin

text \<open>
  The register of devices of \<^verbatim>\<open>src/device.c\<close>: what kind of object a device can be, and how devices are
  found by name.
\<close>

section \<open>The type of a device\<close>

text \<open>The kernel calls around the heap leave the objects of the devices alone.\<close>

abbreviation "same_devices s s' \<equiv> (\<forall>d. objects s' (ODevice d) = objects s (ODevice d))"

lemma rt_thread_resume_objects:
  assumes "rt_thread_resume t s = Some (r, s')"
  shows "\<exists>y. objects s' = (objects s)(OTimer (ThreadTimer t) := y)"
proof (cases "s' = s")
  case True
  then have "objects s' = (objects s)(OTimer (ThreadTimer t) := objects s (OTimer (ThreadTimer t)))" by simp
  then show ?thesis by blast
next
  case False
  with assms obtain u q v where u: "rt_timer_stop (ThreadTimer t) (s\<lparr>tlists := ls_remove t (tlists s)\<rparr>) = Some (q, u)"
    and v: "rt_schedule_insert_thread t u = Some s'"
    by (auto simp: rt_thread_resume_def bind_Some_iff Let_def simp del: check_type_iff split: if_splits)
  have "objects s' = objects u"
    using v by (auto simp: rt_schedule_insert_thread_def bind_Some_iff Let_def)
  with rt_timer_stop_objects [OF u] show ?thesis by simp
qed

lemma wait_on_devices: "wait_on h t fl time s = Some s' \<Longrightarrow> same_devices s s'"
  using wait_on_objects by blast

lemma lock_heap_devices:
  assumes "lock_heap hs s = Some (g, s')"
  shows "same_devices s s'"
proof -
  from assms obtain r where "rt_sem_take hs RT_WAITING_FOREVER s = Some (r, s')"
    by (auto simp: lock_heap_def bind_Some_iff)
  then show ?thesis
    by (auto simp: rt_sem_take_def bind_Some_iff Let_def upd_thread_def simp del: check_type_iff split: if_splits dest!: wait_on_devices)
qed

lemma unlock_heap_devices:
  assumes "unlock_heap hs s = Some s'"
  shows "same_devices s s'"
  using assms
  by (auto simp: unlock_heap_def rt_sem_release_def rt_ipc_list_resume_def bind_Some_iff simp del: check_type_iff
      split: if_splits list.splits dest!: rt_thread_resume_objects rt_schedule_core(5))

lemma rt_malloc_devices:
  assumes "rt_malloc hs sz (s, h) = Some (r, s', h')"
  shows "same_devices s s'"
  using assms
  by (auto simp: rt_malloc_def malloc_locked_def bind_Some_iff split: if_splits dest!: lock_heap_devices unlock_heap_devices)

text \<open>
  The life of a system of devices: whatever calls of this layer are made, in whatever order and by whatever threads,
  with other kernel work in between.
\<close>

inductive dev_step :: "'d drivers \<Rightarrow> 'd device_world \<Rightarrow> 'd device_world \<Rightarrow> bool" for drv where
  find: "rt_device_find name (dw_kernel w) = Some (r, s') \<Longrightarrow> dev_step drv w (w\<lparr>dw_kernel := s'\<rparr>)"
| register: "rt_device_register d name flags w = Some (r, w') \<Longrightarrow> dev_step drv w w'"
| unregister: "rt_device_unregister d w = Some (r, w') \<Longrightarrow> dev_step drv w w'"
| create: "rt_device_create hs sizeof ty attach_size w = Some (c, w') \<Longrightarrow> dev_step drv w w'"
| created_late: "device_made ty sizeof p w = Some (q, w') \<Longrightarrow> dev_step drv w w'"
| destroy: "rt_device_destroy hs d w = Some (c, w') \<Longrightarrow> dev_step drv w w'"
| init: "rt_device_init drv d w = Some (r, w') \<Longrightarrow> dev_step drv w w'"
| open_it: "rt_device_open drv d oflag w = Some (r, w') \<Longrightarrow> dev_step drv w w'"
| close_it: "rt_device_close drv d w = Some (r, w') \<Longrightarrow> dev_step drv w w'"
| read_from: "rt_device_read drv d pos buf n w = Some (k, w') \<Longrightarrow> dev_step drv w w'"
| write_to: "rt_device_write drv d pos buf n w = Some (k, w') \<Longrightarrow> dev_step drv w w'"
| control: "rt_device_control drv d cmd arg w = Some (r, w') \<Longrightarrow> dev_step drv w w'"
| rx: "rt_device_set_rx_indicate d f w = Some (r, w') \<Longrightarrow> dev_step drv w w'"
| tx: "rt_device_set_tx_complete d f w = Some (r, w') \<Longrightarrow> dev_step drv w w'"
| elsewhere: "same_devices (dw_kernel w) (dw_kernel w') \<Longrightarrow> dev_step drv w w'"

inductive dev_steps :: "'d drivers \<Rightarrow> 'd device_world \<Rightarrow> 'd device_world \<Rightarrow> bool" for drv where
  rest: "dev_steps drv w w"
| more: "dev_steps drv w w' \<Longrightarrow> dev_step drv w' w'' \<Longrightarrow> dev_steps drv w w''"

text \<open>Drivers that leave the register to this layer.\<close>

definition driver_apart :: "'d drivers \<Rightarrow> bool" where
  "driver_apart drv \<longleftrightarrow>
     (\<forall>f d w r w'. init_call drv f d w = Some (r, w') \<longrightarrow> same_devices (dw_kernel w) (dw_kernel w')) \<and>
     (\<forall>f d fl w r w'. open_call drv f d fl w = Some (r, w') \<longrightarrow> same_devices (dw_kernel w) (dw_kernel w')) \<and>
     (\<forall>f d w r w'. close_call drv f d w = Some (r, w') \<longrightarrow> same_devices (dw_kernel w) (dw_kernel w')) \<and>
     (\<forall>f d pos buf n w k w'. read_call drv f d pos buf n w = Some (k, w') \<longrightarrow> same_devices (dw_kernel w) (dw_kernel w')) \<and>
     (\<forall>f d pos buf n w k w'. write_call drv f d pos buf n w = Some (k, w') \<longrightarrow> same_devices (dw_kernel w) (dw_kernel w')) \<and>
     (\<forall>f d cmd arg w r w'. control_call drv f d cmd arg w = Some (r, w') \<longrightarrow> same_devices (dw_kernel w) (dw_kernel w'))"

lemma driver_apartD:
  assumes "driver_apart drv"
  shows "init_call drv f d w = Some (r, w') \<Longrightarrow> same_devices (dw_kernel w) (dw_kernel w')"
    and "open_call drv f d fl w = Some (r, w') \<Longrightarrow> same_devices (dw_kernel w) (dw_kernel w')"
    and "close_call drv f d w = Some (r, w') \<Longrightarrow> same_devices (dw_kernel w) (dw_kernel w')"
    and "read_call drv f d pos buf n w = Some (k, w') \<Longrightarrow> same_devices (dw_kernel w) (dw_kernel w')"
    and "write_call drv f d pos buf n w = Some (k, w') \<Longrightarrow> same_devices (dw_kernel w) (dw_kernel w')"
    and "control_call drv f d cmd arg w = Some (r, w') \<Longrightarrow> same_devices (dw_kernel w) (dw_kernel w')"
  using assms unfolding driver_apart_def by metis+

text \<open>The type byte of a device object: untouched, or the class with the static bit.\<close>

definition devices_typed :: "kernel \<Rightarrow> bool" where
  "devices_typed s \<longleftrightarrow>
     (\<forall>d x. objects s (ODevice d) = Some x \<longrightarrow> obj_type x = 0 \<or> obj_type x = RT_Object_Class_Device OR RT_Object_Class_Static)"

lemma upd_device_kernel [simp]: "dw_kernel (upd_device d f w) = dw_kernel w"
  by (simp add: upd_device_def)

lemma devices_typed_same: "devices_typed s \<Longrightarrow> same_devices s s' \<Longrightarrow> devices_typed s'"
  by (simp add: devices_typed_def)

lemma devices_typed_upd:
  assumes "devices_typed s" "objects s' = (objects s)(ODevice d \<mapsto> y)"
    "obj_type y = 0 \<or> obj_type y = RT_Object_Class_Device OR RT_Object_Class_Static"
  shows "devices_typed s'"
  using assms by (auto simp: devices_typed_def)

lemma rt_exit_critical_same:
  assumes "rt_exit_critical s = Some s'"
  shows "objects s' = objects s \<and> containers s' = containers s"
proof (cases "sint (rt_scheduler_lock_nest s - 1) \<le> 0")
  case True
  then have "rt_schedule (s\<lparr>rt_scheduler_lock_nest := 0\<rparr>) = Some s'"
    using assms by (simp add: rt_exit_critical_def Let_def)
  from rt_schedule_frame [OF this] show ?thesis by auto
next
  case False
  then show ?thesis using assms by (auto simp: rt_exit_critical_def Let_def)
qed

lemma rt_device_find_cases:
  assumes "rt_device_find name s = Some (r, s')"
  shows "find_by_name (objects s) name (containers s RT_Object_Class_Device) = Some r"
    "objects s' = objects s" "containers s' = containers s"
  using assms
  by (auto simp: rt_device_find_def rt_enter_critical_def Let_def bind_Some_iff split: if_splits
      dest!: rt_exit_critical_same)

lemma typed_destroy:
  assumes "devices_typed (dw_kernel w)"
  shows "rt_device_destroy hs d w = None"
proof (cases "objects (dw_kernel w) (ODevice d)")
  case None
  then show ?thesis by (simp add: rt_device_destroy_def is_device_def check_type_def rt_object_get_type_def rt_assert_def)
next
  case (Some x)
  with assms have "obj_type x = 0 \<or> obj_type x = RT_Object_Class_Device OR RT_Object_Class_Static"
    by (auto simp: devices_typed_def)
  with Some show ?thesis
    by (auto simp: rt_device_destroy_def is_device_def check_type_known rt_object_is_systemobject_def rt_assert_def)
qed

lemma typed_register:
  assumes "devices_typed (dw_kernel w)" "rt_device_register d name flags w = Some (r, w')"
  shows "devices_typed (dw_kernel w')"
proof (cases "d = 0")
  case True
  then show ?thesis using assms by (simp add: rt_device_register_def)
next
  case False
  with assms(2) obtain q s where f: "rt_device_find name (dw_kernel w) = Some (q, s)"
    and rest: "if q \<noteq> None then r = - RT_ERROR \<and> w' = w\<lparr>dw_kernel := s\<rparr>
      else \<exists>u. rt_object_init (ODevice d) RT_Object_Class_Device name s = Some u \<and> dw_kernel w' = u"
    by (auto simp: rt_device_register_def bind_Some_iff upd_device_def Let_def split: if_splits)
  have s: "devices_typed s" using devices_typed_same [OF assms(1)] rt_device_find_cases(2) [OF f] by simp
  show ?thesis
  proof (cases q)
    case None
    with rest obtain u where u: "rt_object_init (ODevice d) RT_Object_Class_Device name s = Some u" "dw_kernel w' = u" by auto
    from u(1) obtain nm where "objects u = (objects s)(ODevice d \<mapsto>
        (obj_mem s (ODevice d))\<lparr>obj_type := RT_Object_Class_Device OR RT_Object_Class_Static, obj_name := nm\<rparr>)"
      by (auto simp: rt_object_init_def bind_Some_iff Let_def simp del: get_information_eq)
    from devices_typed_upd [OF s this] u(2) show ?thesis by simp
  qed (use rest s in auto)
qed

lemma typed_unregister:
  assumes "devices_typed (dw_kernel w)" "rt_device_unregister d w = Some (r, w')"
  shows "devices_typed (dw_kernel w')"
proof -
  from assms(2) obtain x where "objects (dw_kernel w') = (objects (dw_kernel w))(ODevice d \<mapsto> x\<lparr>obj_type := 0\<rparr>)"
    by (auto simp: rt_device_unregister_def rt_object_detach_def bind_Some_iff)
  from devices_typed_upd [OF assms(1) this] show ?thesis by simp
qed

lemma typed_made:
  assumes "devices_typed (dw_kernel w)" "device_made ty sizeof p w = Some (q, w')"
  shows "devices_typed (dw_kernel w')"
proof (cases p)
  case (Some a)
  then have "objects (dw_kernel w') = (objects (dw_kernel w))(ODevice a \<mapsto> blank_object)"
    using assms(2) by (auto simp: device_made_def bind_Some_iff Let_def)
  from devices_typed_upd [OF assms(1) this] show ?thesis by (simp add: blank_object_def)
qed (use assms in \<open>auto simp: device_made_def\<close>)

lemma typed_create:
  assumes "devices_typed (dw_kernel w)" "rt_device_create hs sizeof ty attach_size w = Some (c, w')"
  shows "devices_typed (dw_kernel w')"
proof -
  from assms(2) obtain r s h where m: "rt_malloc hs (RT_ALIGN sizeof 4 + RT_ALIGN attach_size 4) (dw_kernel w, dw_heap w) = Some (r, s, h)"
    and c: "(case r of Got p \<Rightarrow> do { (p, w) \<leftarrow> device_made ty sizeof p (w\<lparr>dw_kernel := s, dw_heap := h\<rparr>); Some (Got p, w) }
       | Sleeps k \<Rightarrow> Some (Sleeps k, w\<lparr>dw_kernel := s, dw_heap := h\<rparr>)) = Some (c, w')"
    by (auto simp: rt_device_create_def bind_Some_iff Let_def)
  let ?w = "w\<lparr>dw_kernel := s, dw_heap := h\<rparr>"
  have t: "devices_typed (dw_kernel ?w)"
    using devices_typed_same [OF assms(1) rt_malloc_devices [OF m]] by simp
  show ?thesis
  proof (cases r)
    case (Got p)
    with c obtain q where "device_made ty sizeof p ?w = Some (q, w')" by (auto simp: bind_Some_iff)
    then show ?thesis by (rule typed_made [OF t])
  next
    case (Sleeps k)
    with c have "w' = ?w" by auto
    with t show ?thesis by simp
  qed
qed

lemma rt_device_open_cases:
  assumes run: "rt_device_open drv d oflag w = Some (r, w')"
  obtains q w1 where "open_init drv d w = Some (q, w1)" "w' = w1 \<or> open_count drv d oflag w1 = Some (r, w')"
proof -
  from run obtain x where x: "devices w d = Some x" "d \<noteq> 0" "is_device d w = Some ()"
    by (auto simp: rt_device_open_def bind_Some_iff)
  with run have e: "Option.bind (open_init drv d w) (\<lambda>(q, w1). if q \<noteq> RT_EOK then Some (q, w1)
      else do { x \<leftarrow> devices w1 d;
                if dev_flag x AND RT_DEVICE_FLAG_STANDALONE \<noteq> 0 \<and> open_flag x AND RT_DEVICE_OFLAG_OPEN \<noteq> 0
                then Some (- RT_EBUSY, w1)
                else do { (result, w) \<leftarrow>
                            (case device_open x of
                               Some f \<Rightarrow> open_call drv f d oflag w1
                             | None \<Rightarrow> Some (RT_EOK, upd_device d (\<lambda>x. x\<lparr>open_flag := oflag AND RT_DEVICE_OFLAG_MASK\<rparr>) w1));
                          device_opened result d w } }) = Some (r, w')"
    by (simp add: rt_device_open_def open_init_def rt_assert_def)
  then obtain q w1 where i: "open_init drv d w = Some (q, w1)" by (cases "open_init drv d w") auto
  show thesis
  proof (cases "w' = w1")
    case False
    with e i have "open_count drv d oflag w1 = Some (r, w')"
      by (cases "devices w1 d") (auto simp: open_count_def split: if_splits)
    with i show thesis by (intro that) auto
  qed (use i that in auto)
qed

lemma typed_driver_calls:
  assumes t: "devices_typed (dw_kernel w)" and drv: "driver_apart drv"
  shows "rt_device_init drv d w = Some (r, w') \<Longrightarrow> devices_typed (dw_kernel w')"
    and "rt_device_open drv d oflag w = Some (r, w') \<Longrightarrow> devices_typed (dw_kernel w')"
    and "rt_device_close drv d w = Some (r, w') \<Longrightarrow> devices_typed (dw_kernel w')"
    and "rt_device_control drv d cmd arg w = Some (r, w') \<Longrightarrow> devices_typed (dw_kernel w')"
proof -
  note i = driver_apartD(1) [OF drv] and o' = driver_apartD(2) [OF drv] and c = driver_apartD(3) [OF drv] and k = driver_apartD(6) [OF drv]
  have a: "same_devices (dw_kernel w) (dw_kernel w')" if "device_activate drv f d w = Some (r, w')" for f d w r w'
    using that by (auto simp: device_activate_def bind_Some_iff split: if_splits dest!: i)
  have n: "same_devices (dw_kernel w) (dw_kernel w')" if "device_opened r d w = Some (q, w')" for r d w q w'
    using that by (auto simp: device_opened_def bind_Some_iff Let_def split: if_splits)
  show "devices_typed (dw_kernel w')" if "rt_device_init drv d w = Some (r, w')"
    using that t by (auto simp: rt_device_init_def bind_Some_iff split: if_splits option.splits dest!: a intro: devices_typed_same)
  show "devices_typed (dw_kernel w')" if run: "rt_device_open drv d oflag w = Some (r, w')"
  proof -
    obtain q w1 where first: "open_init drv d w = Some (q, w1)"
      and second: "w' = w1 \<or> open_count drv d oflag w1 = Some (r, w')"
      using run by (rule rt_device_open_cases)
    have w1: "same_devices (dw_kernel w) (dw_kernel w1)"
      using first by (auto simp: open_init_def bind_Some_iff split: if_splits option.splits dest!: a)
    have "same_devices (dw_kernel w1) (dw_kernel w')" if "open_count drv d oflag w1 = Some (r, w')"
    proof -
      from that obtain x :: rt_device and p w2 where p: "(case device_open x of Some f \<Rightarrow> open_call drv f d oflag w1
            | None \<Rightarrow> Some (RT_EOK, upd_device d (\<lambda>x. x\<lparr>open_flag := oflag AND RT_DEVICE_OFLAG_MASK\<rparr>) w1)) = Some (p, w2)"
        and q: "device_opened p d w2 = Some (r, w')"
        by (auto simp: open_count_def bind_Some_iff)
      have "same_devices (dw_kernel w1) (dw_kernel w2)" using p by (auto split: option.splits dest!: o')
      with n [OF q] show ?thesis by simp
    qed
    with second have "same_devices (dw_kernel w1) (dw_kernel w')" by auto
    with w1 show ?thesis by (intro devices_typed_same [OF t]) simp
  qed
  show "devices_typed (dw_kernel w')" if "rt_device_close drv d w = Some (r, w')"
    using that t
    by (auto simp: rt_device_close_def bind_Some_iff Let_def split: if_splits option.splits dest!: c intro: devices_typed_same)
  show "devices_typed (dw_kernel w')" if "rt_device_control drv d cmd arg w = Some (r, w')"
    using that t by (auto simp: rt_device_control_def bind_Some_iff split: option.splits dest!: k intro: devices_typed_same)
qed

lemma typed_transfers:
  assumes t: "devices_typed (dw_kernel w)" and drv: "driver_apart drv"
  shows "rt_device_read drv d pos buf n w = Some (k, w') \<Longrightarrow> devices_typed (dw_kernel w')"
    and "rt_device_write drv d pos buf n w = Some (k, w') \<Longrightarrow> devices_typed (dw_kernel w')"
proof -
  note r = driver_apartD(4) [OF drv] and w = driver_apartD(5) [OF drv]
  have e: "same_devices (dw_kernel w) (dw_kernel w')" if "device_refuses e w = Some (k, w')" for e w k w'
    using that by (auto simp: device_refuses_def rt_set_errno_def upd_thread_def split: option.splits)
  show "devices_typed (dw_kernel w')" if "rt_device_read drv d pos buf n w = Some (k, w')"
    using that t
    by (auto simp: rt_device_read_def bind_Some_iff split: if_splits option.splits dest!: r e intro: devices_typed_same)
  show "devices_typed (dw_kernel w')" if "rt_device_write drv d pos buf n w = Some (k, w')"
    using that t
    by (auto simp: rt_device_write_def bind_Some_iff split: if_splits option.splits dest!: w e intro: devices_typed_same)
qed

lemma typed_step:
  assumes "driver_apart drv" "dev_step drv w w'" "devices_typed (dw_kernel w)"
  shows "devices_typed (dw_kernel w')"
  using assms(2,3)
proof (cases rule: dev_step.cases)
  case (find name r s')
  then show ?thesis using assms(3) rt_device_find_cases(2) [OF find(2)] by (simp add: devices_typed_def)
next
  case (destroy hs d c)
  then show ?thesis using typed_destroy [OF assms(3), of hs d] by simp
next
  case (rx d f r)
  then show ?thesis using assms(3) by (auto simp: rt_device_set_rx_indicate_def bind_Some_iff upd_device_def)
next
  case (tx d f r)
  then show ?thesis using assms(3) by (auto simp: rt_device_set_tx_complete_def bind_Some_iff upd_device_def)
next
  case elsewhere
  with assms(3) show ?thesis by (rule devices_typed_same)
next
  case register
  with assms(3) show ?thesis by (rule typed_register)
next
  case unregister
  with assms(3) show ?thesis by (rule typed_unregister)
next
  case create
  with assms(3) show ?thesis by (rule typed_create)
next
  case created_late
  with assms(3) show ?thesis by (rule typed_made)
qed (erule typed_driver_calls [OF assms(3,1)] typed_transfers [OF assms(3,1)])+

text \<open>
  (C22) The object of a device never has the type of a dynamic object. Start from a system whose device objects are
  untouched or registered, run any calls of the device layer in any order, over drivers that leave the objects of
  devices to this layer, with any other kernel work in between: every device object still has type 0 or the device
  class with the static bit. So \<^verbatim>\<open>rt_device_destroy\<close>, which asserts the device class without the static bit,
  never completes on any device in any such state: what \<^verbatim>\<open>rt_device_create\<close> allocates cannot be given back by
  its counterpart, neither before it is registered, nor after, nor after it is unregistered again.
\<close>

theorem device_types:
  assumes "driver_apart drv" "devices_typed (dw_kernel w)" "dev_steps drv w w'"
  shows "devices_typed (dw_kernel w') \<and> (\<forall>hs d. rt_device_destroy hs d w' = None)"
  using assms(3,2)
proof (induction rule: dev_steps.induct)
  case rest
  then show ?case using typed_destroy by blast
next
  case (more w w' w'')
  have "devices_typed (dw_kernel w'')" using more.hyps(2) conjunct1 [OF more.IH [OF more.prems]]
    by (rule typed_step [OF assms(1)])
  then show ?case using typed_destroy by blast
qed

section \<open>Names\<close>

text \<open>A name the string routines can read, and whether an object bears it.\<close>

definition name_ok :: "cbuf \<Rightarrow> bool" where
  "name_ok name \<longleftrightarrow> terminated name \<or> RT_NAME_MAX \<le> length name"

definition name_key :: "cbuf \<Rightarrow> cbuf" where
  "name_key name = take RT_NAME_MAX (text_of name)"

definition bears :: "kernel \<Rightarrow> cbuf \<Rightarrow> oid \<Rightarrow> bool" where
  "bears s name ob \<longleftrightarrow> (\<exists>x. objects s ob = Some x \<and> name_key (obj_name x) = name_key name)"

lemma find_by_name_eq:
  assumes "\<And>ob. ob \<in> set obs \<Longrightarrow> \<exists>x. objects s ob = Some x \<and> length (obj_name x) = RT_NAME_MAX" "name_ok name"
  shows "find_by_name (objects s) name obs = Some (find (bears s name) obs)"
  using assms(1)
proof (induction obs)
  case (Cons ob obs)
  then obtain x where x: "objects s ob = Some x" "length (obj_name x) = RT_NAME_MAX" by auto
  have "rt_strncmp (obj_name x) name RT_NAME_MAX \<noteq> None"
    using x(2) assms(2) by (intro rt_strncmp_defined) (auto simp: name_ok_def)
  then obtain r where r: "rt_strncmp (obj_name x) name RT_NAME_MAX = Some r" by blast
  have "bears s name ob \<longleftrightarrow> r = 0" using x rt_strncmp_zero [OF r] by (simp add: bears_def name_key_def)
  with x r Cons show ?case by simp
qed simp

text \<open>Looking for a device takes the scheduler lock and gives it back; here, when that does not switch threads.\<close>

definition find_quiet :: "kernel \<Rightarrow> bool" where
  "find_quiet s \<longleftrightarrow> rt_thread_self s = None \<or> rt_exit_critical (rt_enter_critical s) = Some s"

lemma rt_schedule_upd:
  "rt_schedule (s\<lparr>objects := ob, containers := c\<rparr>) = map_option (\<lambda>u. u\<lparr>objects := ob, containers := c\<rparr>) (rt_schedule s)"
proof -
  have h: "highest_ready (s\<lparr>objects := ob, containers := c\<rparr>) = highest_ready s"
    by (simp add: highest_ready_def Let_def)
  show ?thesis
  proof (cases "highest_ready s")
    case None
    then show ?thesis by (simp add: rt_schedule_def h)
  next
    case (Some pt)
    obtain p t where pt: "pt = (p, t)" by (cases pt)
    show ?thesis
    proof (cases "threads s t")
      case None
      then show ?thesis using Some pt by (simp add: rt_schedule_def h Let_def)
    next
      case th: (Some th)
      then show ?thesis using Some pt by (cases "rt_scheduler_stack_check th") (simp_all add: rt_schedule_def h Let_def)
    qed
  qed
qed

lemma find_quiet_upd:
  assumes "find_quiet s"
  shows "find_quiet (s\<lparr>objects := ob, containers := c\<rparr>)"
proof -
  have e: "s\<lparr>objects := ob, containers := c, rt_scheduler_lock_nest := 0\<rparr>
      = s\<lparr>rt_scheduler_lock_nest := 0, objects := ob, containers := c\<rparr>" by simp
  have "rt_exit_critical (rt_enter_critical (s\<lparr>objects := ob, containers := c\<rparr>))
      = map_option (\<lambda>u. u\<lparr>objects := ob, containers := c\<rparr>) (rt_exit_critical (rt_enter_critical s))"
    using rt_schedule_upd [where s = "s\<lparr>rt_scheduler_lock_nest := 0\<rparr>" and ob = ob and c = c]
    by (simp add: rt_exit_critical_def rt_enter_critical_def Let_def e)
  with assms show ?thesis by (auto simp: find_quiet_def rt_thread_self_def)
qed

lemma rt_device_find_eq:
  assumes wf: "objects_wf s" and q: "find_quiet s" and n: "name_ok name"
  shows "rt_device_find name s = Some (find (bears s name) (containers s RT_Object_Class_Device), s)"
proof -
  have "find_by_name (objects s) name (containers s RT_Object_Class_Device)
      = Some (find (bears s name) (containers s RT_Object_Class_Device))"
    using objects_wfD(1,3) [OF wf] n by (intro find_by_name_eq) blast+
  moreover have "objects (rt_enter_critical s) = objects s" "containers (rt_enter_critical s) = containers s"
    "rt_thread_self (rt_enter_critical s) = rt_thread_self s"
    by (simp_all add: rt_enter_critical_def rt_thread_self_def)
  moreover have "RT_Object_Class_Device \<in> set rt_object_container" by (simp add: rt_object_container_def)
  ultimately show ?thesis using q by (auto simp: rt_device_find_def find_quiet_def Let_def)
qed

lemma register_named:
  assumes wf: "objects_wf (dw_kernel w)" and q: "find_quiet (dw_kernel w)"
    and d: "d \<noteq> 0" "devices w d = Some x" "unlinked (ODevice d) (containers (dw_kernel w))" and n: "name_ok name"
    and new: "\<not> (\<exists>ob\<in>set (containers (dw_kernel w) RT_Object_Class_Device). bears (dw_kernel w) name ob)"
  obtains nm s where "name_key nm = name_key name"
    "s = (dw_kernel w)\<lparr>objects := (objects (dw_kernel w))(ODevice d \<mapsto>
          (obj_mem (dw_kernel w) (ODevice d))\<lparr>obj_type := RT_Object_Class_Device OR RT_Object_Class_Static, obj_name := nm\<rparr>),
        containers := ls_insert_after RT_Object_Class_Device (ODevice d) (containers (dw_kernel w))\<rparr>"
    "objects_wf s" "find_quiet s"
    "rt_device_register d name flags w =
       Some (RT_EOK, upd_device d (\<lambda>x. x\<lparr>dev_flag := flags, ref_count := 0, open_flag := 0\<rparr>) (w\<lparr>dw_kernel := s\<rparr>))"
proof -
  let ?k = "dw_kernel w"
  have cls: "RT_Object_Class_Device \<in> set rt_object_container" by (simp add: rt_object_container_def)
  have "find (bears ?k name) (containers ?k RT_Object_Class_Device) = None"
    using new by (simp add: find_None_iff)
  then have f: "rt_device_find name ?k = Some (None, ?k)" using rt_device_find_eq [OF wf q n] by simp
  obtain nm where nm: "length nm = RT_NAME_MAX" "rt_strncmp nm name RT_NAME_MAX = Some 0"
    and i: "rt_object_init (ODevice d) RT_Object_Class_Device name ?k =
      Some (?k\<lparr>objects := (objects ?k)(ODevice d \<mapsto>
          (obj_mem ?k (ODevice d))\<lparr>obj_type := RT_Object_Class_Device OR RT_Object_Class_Static, obj_name := nm\<rparr>),
        containers := ls_insert_after RT_Object_Class_Device (ODevice d) (containers ?k)\<rparr>)"
    using rt_object_init_defined [OF wf cls, of name "ODevice d"] n unfolding name_ok_def by blast
  show thesis
  proof (rule that [OF _ refl])
    show "name_key nm = name_key name" using rt_strncmp_zero [OF nm(2)] by (simp add: name_key_def)
    show "objects_wf (?k\<lparr>objects := (objects ?k)(ODevice d \<mapsto>
          (obj_mem ?k (ODevice d))\<lparr>obj_type := RT_Object_Class_Device OR RT_Object_Class_Static, obj_name := nm\<rparr>),
        containers := ls_insert_after RT_Object_Class_Device (ODevice d) (containers ?k)\<rparr>)"
      by (rule rt_object_init_wf [OF wf d(3) i])
  qed (use f i d find_quiet_upd [OF q] in \<open>simp_all add: rt_device_register_def\<close>)
qed

text \<open>
  (C23) A registered device is found by its name. Register a device that is in no container under a name no device has:
  \<^verbatim>\<open>rt_device_register\<close> succeeds with the count at zero, the kernel's objects stay well formed (every linked
  object has the type of its container), \<^verbatim>\<open>rt_device_find\<close> then answers with this device for every name
  that agrees with it in the first \<^verbatim>\<open>RT_NAME_MAX\<close> characters, and for every other name what it answered
  before; and no second device can be registered under such a name: the attempt returns \<^verbatim>\<open>-RT_ERROR\<close> and
  changes nothing.
\<close>

theorem device_found_by_name:
  assumes "objects_wf (dw_kernel w)" "find_quiet (dw_kernel w)" "d \<noteq> 0" "devices w d = Some x"
    "unlinked (ODevice d) (containers (dw_kernel w))" "name_ok name" "rt_device_find name (dw_kernel w) = Some (None, dw_kernel w)"
  shows "\<exists>w'. rt_device_register d name flags w = Some (RT_EOK, w') \<and>
    devices w' d = Some (x\<lparr>dev_flag := flags, ref_count := 0, open_flag := 0\<rparr>) \<and> is_device d w' = Some () \<and>
    objects_wf (dw_kernel w') \<and> find_quiet (dw_kernel w') \<and>
    (\<forall>name'. name_ok name' \<and> name_key name' = name_key name \<longrightarrow>
       rt_device_find name' (dw_kernel w') = Some (Some (ODevice d), dw_kernel w') \<and>
       (\<forall>e fl. e \<noteq> 0 \<longrightarrow> rt_device_register e name' fl w' = Some (- RT_ERROR, w'))) \<and>
    (\<forall>name'. name_ok name' \<and> name_key name' \<noteq> name_key name \<longrightarrow>
       map_option fst (rt_device_find name' (dw_kernel w')) = map_option fst (rt_device_find name' (dw_kernel w)))"
proof -
  let ?k = "dw_kernel w"
  have "find (bears ?k name) (containers ?k RT_Object_Class_Device) = None"
    using rt_device_find_eq [OF assms(1,2,6)] assms(7) by simp
  then have new: "\<not> (\<exists>ob\<in>set (containers ?k RT_Object_Class_Device). bears ?k name ob)" by (simp add: find_None_iff)
  obtain nm s where nm: "name_key nm = name_key name"
    and s: "s = ?k\<lparr>objects := (objects ?k)(ODevice d \<mapsto>
          (obj_mem ?k (ODevice d))\<lparr>obj_type := RT_Object_Class_Device OR RT_Object_Class_Static, obj_name := nm\<rparr>),
        containers := ls_insert_after RT_Object_Class_Device (ODevice d) (containers ?k)\<rparr>"
    and wf: "objects_wf s" and q: "find_quiet s"
    and reg: "rt_device_register d name flags w =
       Some (RT_EOK, upd_device d (\<lambda>x. x\<lparr>dev_flag := flags, ref_count := 0, open_flag := 0\<rparr>) (w\<lparr>dw_kernel := s\<rparr>))"
    using register_named [OF assms(1,2,3,4,5,6) new] by metis
  let ?w = "upd_device d (\<lambda>x. x\<lparr>dev_flag := flags, ref_count := 0, open_flag := 0\<rparr>) (w\<lparr>dw_kernel := s\<rparr>)"
  have k: "dw_kernel ?w = s" by simp
  have list: "containers s RT_Object_Class_Device = ODevice d # containers ?k RT_Object_Class_Device"
    by (simp add: s ls_insert_after_def)
  have old: "bears s name' ob = bears ?k name' ob" if "ob \<in> set (containers ?k RT_Object_Class_Device)" for name' ob
    using that assms(5) by (auto simp: bears_def s unlinked_def)
  have this_one: "bears s name' (ODevice d) \<longleftrightarrow> name_key name' = name_key name" for name'
    using nm by (auto simp: bears_def s)
  have found: "rt_device_find name' s = Some (Some (ODevice d), s)" if "name_ok name'" "name_key name' = name_key name" for name'
    using rt_device_find_eq [OF wf q that(1)] that(2) by (simp add: list this_one)
  have others: "map_option fst (rt_device_find name' s) = map_option fst (rt_device_find name' ?k)"
    if "name_ok name'" "name_key name' \<noteq> name_key name" for name'
  proof -
    have "find (bears s name') (containers ?k RT_Object_Class_Device) = find (bears ?k name') (containers ?k RT_Object_Class_Device)"
      using old by (intro find_cong) auto
    then show ?thesis
      using rt_device_find_eq [OF wf q that(1)] rt_device_find_eq [OF assms(1,2) that(1)] that(2) by (simp add: list this_one)
  qed
  have second: "rt_device_register e name' fl ?w = Some (- RT_ERROR, ?w)"
    if "name_ok name'" "name_key name' = name_key name" "e \<noteq> 0" for e name' fl
    using found [OF that(1,2)] that(3) by (simp add: rt_device_register_def k upd_device_def)
  have typed: "is_device d ?w = Some ()"
    by (simp add: is_device_def s check_type_known)
  show ?thesis
    by (intro exI [of _ ?w]) (use reg typed wf q found others second assms(4) in \<open>simp add: k devices_upd\<close>)
qed

section \<open>On the sample system\<close>

lemma demo_world_typed: "devices_typed (dw_kernel demo_world)"
  by (simp add: devices_typed_def demo_world_def)

lemma demo_driver_apart: "driver_apart (demo_driver r)"
  by (simp add: driver_apart_def demo_driver_def)

theorem device_types_witness:
  "\<exists>w'. rt_device_unregister 1 demo_world = Some (RT_EOK, w') \<and> devices_typed (dw_kernel w') \<and> rt_device_destroy 0 1 w' = None"
proof -
  have "\<exists>w'. rt_device_unregister 1 demo_world = Some (RT_EOK, w')"
    by (simp add: rt_device_unregister_def demo_world_def is_device_def check_type_known rt_object_is_systemobject_def
        rt_object_detach_def)
  then obtain w' where u: "rt_device_unregister 1 demo_world = Some (RT_EOK, w')" by blast
  have "dev_steps (demo_driver 0) demo_world w'"
    by (rule dev_steps.more [OF dev_steps.rest dev_step.unregister [OF u]])
  from device_types [OF demo_driver_apart demo_world_typed this] u show ?thesis by blast
qed

theorem device_found_by_name_witness:
  "\<exists>w'. rt_device_register 2 demo_name 3 (demo_world\<lparr>dw_kernel := demo\<rparr>) = Some (RT_EOK, w') \<and>
     rt_device_find [0x74, 0] (dw_kernel w') = Some (Some (ODevice 2), dw_kernel w')"
proof -
  let ?w = "demo_world\<lparr>dw_kernel := demo\<rparr>"
  have wf: "objects_wf demo" using demo_wf by (simp add: kernel_wf_def)
  have "rt_ffs (rt_thread_ready_priority_group demo) = 11" by code_simp
  then have q: "find_quiet demo"
    by (simp add: find_quiet_def rt_exit_critical_def rt_enter_critical_def rt_schedule_def highest_ready_def Let_def)
  have n: "name_ok demo_name" "name_ok [0x74, 0]" "name_key [0x74, 0] = name_key demo_name"
    by (simp_all add: name_ok_def terminated_def demo_name_def name_key_def text_of_def RT_NAME_MAX_def)
  have f: "rt_device_find demo_name demo = Some (None, demo)" using rt_device_find_eq [OF wf q n(1)] by simp
  have u: "unlinked (ODevice 2) (containers demo)" by (auto simp: unlinked_def)
  have k: "dw_kernel ?w = demo" by simp
  have d: "devices ?w 2 = Some demo_device" "(2 :: nat) \<noteq> 0" by (simp_all add: demo_world_def)
  have at_w: "objects_wf (dw_kernel ?w)" "find_quiet (dw_kernel ?w)" "unlinked (ODevice 2) (containers (dw_kernel ?w))"
    "rt_device_find demo_name (dw_kernel ?w) = Some (None, dw_kernel ?w)"
    unfolding k by (fact wf q u f)+
  from device_found_by_name [OF at_w(1,2) d(2,1) at_w(3) n(1) at_w(4), of 3] n(2,3)
  show ?thesis by (elim exE conjE) (intro exI conjI, assumption, blast)
qed

end
