(* ===== verification/RingBlk.thy ===== *)
theory RingBlk
  imports Mem
begin

text \<open>
  The ring of blocks (\<^verbatim>\<open>components/drivers/src/ringblk_buf.c\<close>): blocks of different sizes are cut in
  turn from a buffer, filled, handed over and given back. A block is named by its place in \<^verbatim>\<open>blk_set\<close>; the
  list node of block \<open>i\<close> is the node \<open>Suc i\<close>, the head of \<^verbatim>\<open>blk_list\<close> is the node 0. Addresses
  and sizes are numbers below \<open>2 ^ 32\<close>. \<^verbatim>\<open>rt_rbb_create\<close> allocates the structure, the buffer and
  the set before it calls \<^verbatim>\<open>rt_rbb_init\<close>; \<^verbatim>\<open>rt_rbb_destroy\<close> frees the three.
\<close>

section \<open>The code\<close>

datatype rt_rbb_status = RT_RBB_BLK_UNUSED | RT_RBB_BLK_INITED | RT_RBB_BLK_PUT | RT_RBB_BLK_GET

record rt_rbb_blk =
  blk_status :: rt_rbb_status
  blk_size :: nat
  blk_buf :: nat

record rt_rbb_blk_queue =
  q_blocks :: nat
  q_blk_num :: nat

record rt_rbb =
  rbb_buf :: nat
  rbb_buf_size :: nat
  blk_set :: "rt_rbb_blk list"
  blk_max_num :: nat
  blk_list :: slist_heap

definition rt_rbb_init :: "nat \<Rightarrow> nat \<Rightarrow> rt_rbb_blk list \<Rightarrow> nat \<Rightarrow> slist_heap \<Rightarrow> rt_rbb option" where
  "rt_rbb_init buf buf_size block_set max_num l =
     do { rt_assert (buf \<noteq> 0);
          rt_assert (max_num \<le> length block_set);
          Some \<lparr>rbb_buf = buf, rbb_buf_size = buf_size,
            blk_set = map (blk_status_update (\<lambda>_. RT_RBB_BLK_UNUSED)) (take max_num block_set) @ drop max_num block_set,
            blk_max_num = max_num, blk_list = rt_slist_init 0 l\<rparr> }"

text \<open>What \<^verbatim>\<open>rt_malloc\<close> returned for the structure, the buffer and the set; the blocks that were freed again.\<close>

definition rt_rbb_create :: "nat \<Rightarrow> nat \<Rightarrow> nat option \<Rightarrow> nat option \<Rightarrow> rt_rbb_blk list option \<Rightarrow> slist_heap \<Rightarrow>
    ((nat \<times> rt_rbb) option \<times> nat list) option" where
  "rt_rbb_create buf_size max_num p q s l =
     (case p of
        None \<Rightarrow> Some (None, [])
      | Some p \<Rightarrow>
          (case q of
             None \<Rightarrow> Some (None, [p])
           | Some q \<Rightarrow>
               (case s of
                  None \<Rightarrow> Some (None, [q, p])
                | Some s \<Rightarrow> do { r \<leftarrow> rt_rbb_init q buf_size s max_num l; Some (Some (p, r), []) })))"

definition find_empty_blk_in_set :: "rt_rbb \<Rightarrow> nat option" where
  "find_empty_blk_in_set r = find (\<lambda>i. blk_status (blk_set r ! i) = RT_RBB_BLK_UNUSED) [0..<blk_max_num r]"

text \<open>The block of a list node.\<close>

definition blk_of :: "addr \<Rightarrow> rt_rbb \<Rightarrow> rt_rbb_blk option" where
  "blk_of n r = (if 0 < n \<and> n \<le> length (blk_set r) then Some (blk_set r ! (n - 1)) else None)"

text \<open>The block that was found is put at the end of the list and set up.\<close>

definition blk_place :: "nat \<Rightarrow> nat \<Rightarrow> nat \<Rightarrow> rt_rbb \<Rightarrow> (nat option \<times> rt_rbb) option" where
  "blk_place i buf sz r =
     do { l \<leftarrow> rt_slist_append 0 (Suc i) (blk_list r);
          Some (Some i, r\<lparr>blk_list := l,
            blk_set := (blk_set r)[i := \<lparr>blk_status = RT_RBB_BLK_INITED, blk_size = sz, blk_buf = buf\<rparr>]\<rparr>) }"

definition rt_rbb_blk_alloc :: "nat \<Rightarrow> rt_rbb \<Rightarrow> (nat option \<times> rt_rbb) option" where
  "rt_rbb_blk_alloc sz r =
     do { rt_assert (sz < 2 ^ 24);
          len \<leftarrow> rt_slist_len 0 (blk_list r);
          case find_empty_blk_in_set r of
            None \<Rightarrow> Some (None, r)
          | Some i \<Rightarrow>
              if \<not> unat len < blk_max_num r then Some (None, r)
              else if len > 0
              then do { n \<leftarrow> rt_slist_first 0 (blk_list r);
                        head \<leftarrow> blk_of n r;
                        n \<leftarrow> rt_slist_tail (blk_list r) 0;
                        tail \<leftarrow> blk_of n r;
                        let behind = add32 (blk_buf tail) (blk_size tail);
                        if blk_buf head \<le> blk_buf tail
                        then let empty1 = sub32 (add32 (rbb_buf r) (rbb_buf_size r)) behind;
                                 empty2 = sub32 (blk_buf head) (rbb_buf r)
                             in if empty1 \<ge> sz then blk_place i behind sz r
                                else if empty2 \<ge> sz then blk_place i (rbb_buf r) sz r
                                else Some (None, r)
                        else let empty1 = sub32 (blk_buf head) behind
                             in if empty1 \<ge> sz then blk_place i behind sz r
                                else Some (None, r) }
              else blk_place i (rbb_buf r) sz r }"

definition set_status :: "nat \<Rightarrow> rt_rbb_status \<Rightarrow> rt_rbb \<Rightarrow> rt_rbb" where
  "set_status i st r = r\<lparr>blk_set := (blk_set r)[i := (blk_set r ! i)\<lparr>blk_status := st\<rparr>]\<rparr>"

definition rt_rbb_blk_put :: "nat \<Rightarrow> rt_rbb \<Rightarrow> rt_rbb option" where
  "rt_rbb_blk_put i r =
     do { rt_assert (i < length (blk_set r));
          rt_assert (blk_status (blk_set r ! i) = RT_RBB_BLK_INITED);
          Some (set_status i RT_RBB_BLK_PUT r) }"

partial_function (option) blk_get_loop :: "addr option \<Rightarrow> rt_rbb \<Rightarrow> (nat option \<times> rt_rbb) option" where
  "blk_get_loop node r =
     (case node of
        None \<Rightarrow> Some (None, r)
      | Some n \<Rightarrow>
          do { block \<leftarrow> blk_of n r;
               if blk_status block = RT_RBB_BLK_PUT
               then Some (Some (n - 1), set_status (n - 1) RT_RBB_BLK_GET r)
               else blk_get_loop (blk_list r n) r })"

definition rt_rbb_blk_get :: "rt_rbb \<Rightarrow> (nat option \<times> rt_rbb) option" where
  "rt_rbb_blk_get r =
     (if rt_slist_isempty 0 (blk_list r) then Some (None, r) else blk_get_loop (rt_slist_first 0 (blk_list r)) r)"

definition rt_rbb_blk_free :: "nat \<Rightarrow> rt_rbb \<Rightarrow> rt_rbb option" where
  "rt_rbb_blk_free i r =
     do { rt_assert (i < length (blk_set r));
          rt_assert (blk_status (blk_set r ! i) \<noteq> RT_RBB_BLK_UNUSED);
          l \<leftarrow> rt_slist_remove 0 (Suc i) (blk_list r);
          Some (set_status i RT_RBB_BLK_UNUSED (r\<lparr>blk_list := l\<rparr>)) }"

text \<open>
  The loop of \<^verbatim>\<open>rt_rbb_blk_queue_get\<close>: the node, the last block that was taken, the length so far, the
  queue. \<open>queue_take\<close> is what is done to a block that is taken.
\<close>

definition queue_take :: "nat \<Rightarrow> rt_rbb \<Rightarrow> rt_rbb option" where
  "queue_take i r =
     do { l \<leftarrow> rt_slist_remove 0 (Suc i) (blk_list r);
          Some (set_status i RT_RBB_BLK_GET (r\<lparr>blk_list := l\<rparr>)) }"

partial_function (option) queue_get_loop ::
    "nat \<Rightarrow> addr option \<Rightarrow> nat option \<Rightarrow> nat \<Rightarrow> rt_rbb_blk_queue \<Rightarrow> rt_rbb \<Rightarrow> (nat \<times> rt_rbb_blk_queue \<times> rt_rbb) option" where
  "queue_get_loop limit node last_block len q r =
     (case node of
        None \<Rightarrow> Some (len, q, r)
      | Some n \<Rightarrow>
          do { block \<leftarrow> blk_of n r;
               case last_block of
                 None \<Rightarrow>
                   if blk_status block = RT_RBB_BLK_PUT
                   then do { r \<leftarrow> queue_take (n - 1) r;
                             queue_get_loop limit (blk_list r n) (Some (n - 1)) (add32 len (blk_size block))
                               \<lparr>q_blocks = n - 1, q_blk_num = 1\<rparr> r }
                   else queue_get_loop limit (blk_list r n) None len q r
               | Some b \<Rightarrow>
                   if blk_status block \<noteq> RT_RBB_BLK_PUT \<or> blk_buf (blk_set r ! b) > blk_buf block \<or>
                      add32 len (blk_size block) > limit
                   then Some (len, q, r)
                   else do { r \<leftarrow> queue_take (n - 1) r;
                             queue_get_loop limit (blk_list r n) (Some (n - 1)) (add32 len (blk_size block))
                               (q\<lparr>q_blk_num := add32 (q_blk_num q) 1\<rparr>) r } })"

definition rt_rbb_blk_queue_get :: "nat \<Rightarrow> rt_rbb_blk_queue \<Rightarrow> rt_rbb \<Rightarrow> (nat \<times> rt_rbb_blk_queue \<times> rt_rbb) option" where
  "rt_rbb_blk_queue_get limit q r =
     (if rt_slist_isempty 0 (blk_list r) then Some (0, q, r)
      else queue_get_loop limit (rt_slist_first 0 (blk_list r)) None 0 q r)"

text \<open>The blocks of a queue are taken to follow one another in \<^verbatim>\<open>blk_set\<close>.\<close>

definition rt_rbb_blk_queue_len :: "rt_rbb_blk_queue \<Rightarrow> rt_rbb \<Rightarrow> nat option" where
  "rt_rbb_blk_queue_len q r =
     do { rt_assert (q_blk_num q = 0 \<or> q_blocks q + q_blk_num q \<le> length (blk_set r));
          Some (fold (\<lambda>i len. add32 len (blk_size (blk_set r ! (q_blocks q + i)))) [0..<q_blk_num q] 0) }"

definition rt_rbb_blk_queue_buf :: "rt_rbb_blk_queue \<Rightarrow> rt_rbb \<Rightarrow> nat option" where
  "rt_rbb_blk_queue_buf q r =
     do { rt_assert (q_blocks q < length (blk_set r)); Some (blk_buf (blk_set r ! q_blocks q)) }"

fun queue_free_loop :: "nat \<Rightarrow> nat \<Rightarrow> rt_rbb \<Rightarrow> rt_rbb option" where
  "queue_free_loop i 0 r = Some r"
| "queue_free_loop i (Suc k) r = do { r \<leftarrow> rt_rbb_blk_free i r; queue_free_loop (Suc i) k r }"

definition rt_rbb_blk_queue_free :: "rt_rbb_blk_queue \<Rightarrow> rt_rbb \<Rightarrow> rt_rbb option" where
  "rt_rbb_blk_queue_free q r = queue_free_loop (q_blocks q) (q_blk_num q) r"

partial_function (option) next_len_loop :: "addr option \<Rightarrow> nat option \<Rightarrow> nat \<Rightarrow> rt_rbb \<Rightarrow> nat option" where
  "next_len_loop node last_block len r =
     (case node of
        None \<Rightarrow> Some len
      | Some n \<Rightarrow>
          do { block \<leftarrow> blk_of n r;
               case last_block of
                 None \<Rightarrow>
                   if blk_status block = RT_RBB_BLK_PUT
                   then next_len_loop (blk_list r n) (Some (n - 1)) (add32 len (blk_size block)) r
                   else next_len_loop (blk_list r n) None len r
               | Some b \<Rightarrow>
                   if blk_status block \<noteq> RT_RBB_BLK_PUT \<or> blk_buf (blk_set r ! b) > blk_buf block then Some len
                   else next_len_loop (blk_list r n) (Some (n - 1)) (add32 len (blk_size block)) r })"

definition rt_rbb_next_blk_queue_len :: "rt_rbb \<Rightarrow> nat option" where
  "rt_rbb_next_blk_queue_len r =
     (if rt_slist_isempty 0 (blk_list r) then Some 0
      else next_len_loop (rt_slist_first 0 (blk_list r)) None 0 r)"

definition rt_rbb_get_buf_size :: "rt_rbb \<Rightarrow> nat" where
  "rt_rbb_get_buf_size r = rbb_buf_size r"

section \<open>Blocks laid out in a buffer\<close>

text \<open>The blocks \<open>xs\<close> lie in this order between two addresses; none is empty.\<close>

fun laid :: "rt_rbb_blk list \<Rightarrow> nat \<Rightarrow> nat list \<Rightarrow> nat \<Rightarrow> bool" where
  "laid S lo [] hi \<longleftrightarrow> lo \<le> hi"
| "laid S lo (i # xs) hi \<longleftrightarrow> lo \<le> blk_buf (S ! i) \<and> 0 < blk_size (S ! i) \<and> laid S (blk_buf (S ! i) + blk_size (S ! i)) xs hi"

definition blk_end :: "rt_rbb_blk list \<Rightarrow> nat \<Rightarrow> nat" where
  "blk_end S i = blk_buf (S ! i) + blk_size (S ! i)"

lemma laid_le: "laid S lo xs hi \<Longrightarrow> lo \<le> hi"
  by (induction xs arbitrary: lo) fastforce+

lemma laid_mono: "laid S lo xs hi \<Longrightarrow> lo' \<le> lo \<Longrightarrow> hi \<le> hi' \<Longrightarrow> laid S lo' xs hi'"
  by (induction xs arbitrary: lo lo') auto

lemma laid_cong:
  "(\<And>i. i \<in> set xs \<Longrightarrow> blk_buf (T ! i) = blk_buf (S ! i) \<and> blk_size (T ! i) = blk_size (S ! i)) \<Longrightarrow>
   laid T lo xs hi = laid S lo xs hi"
  by (induction xs arbitrary: lo) auto

lemma laid_snoc: "laid S lo (xs @ [i]) hi \<longleftrightarrow> laid S lo xs (blk_buf (S ! i)) \<and> 0 < blk_size (S ! i) \<and> blk_end S i \<le> hi"
  by (induction xs arbitrary: lo) (auto simp: blk_end_def)

lemma laid_tail: "laid S lo (x # xs) hi \<Longrightarrow> laid S (blk_buf (S ! x)) xs hi"
  by (auto intro: laid_mono)

lemma laid_drop: "laid S lo xs hi \<Longrightarrow> laid S lo (remove1 i xs) hi"
proof (induction xs arbitrary: lo)
  case (Cons j xs)
  then have "lo \<le> blk_buf (S ! j) + blk_size (S ! j)" by simp
  with Cons show ?case by (auto intro: laid_mono)
qed simp

lemma laid_mem:
  "laid S lo xs hi \<Longrightarrow> i \<in> set xs \<Longrightarrow> lo \<le> blk_buf (S ! i) \<and> 0 < blk_size (S ! i) \<and> blk_end S i \<le> hi"
proof (induction xs arbitrary: lo)
  case (Cons j xs)
  then show ?case
  proof (cases "i = j")
    case True
    then show ?thesis using Cons.prems(1) laid_le [of S _ xs hi] by (auto simp: blk_end_def)
  next
    case False
    then show ?thesis using Cons by fastforce
  qed
qed simp

lemma laid_last:
  assumes "laid S lo xs hi" "xs \<noteq> []"
  shows "laid S lo xs (blk_end S (last xs))"
proof -
  have "xs = butlast xs @ [last xs]" using assms(2) by simp
  with assms(1) show ?thesis using laid_snoc [of S lo "butlast xs" "last xs"] by (metis order_refl)
qed

lemma laid_apart:
  assumes "laid S lo xs hi" "i \<in> set xs" "j \<in> set xs" "i \<noteq> j"
  shows "blk_end S i \<le> blk_buf (S ! j) \<or> blk_end S j \<le> blk_buf (S ! i)"
  using assms
proof (induction xs arbitrary: lo)
  case (Cons k xs)
  have rest: "laid S (blk_end S k) xs hi" using Cons.prems(1) by (simp add: blk_end_def)
  consider "i = k" "j \<in> set xs" | "j = k" "i \<in> set xs" | "i \<in> set xs" "j \<in> set xs" using Cons.prems by auto
  then show ?case
  proof cases
    case 1
    then show ?thesis using laid_mem [OF rest, of j] by simp
  next
    case 2
    then show ?thesis using laid_mem [OF rest, of i] by simp
  next
    case 3
    then show ?thesis using Cons.IH [OF rest] Cons.prems(4) by simp
  qed
qed simp

section \<open>The invariant\<close>

text \<open>
  The list holds the blocks that are not unused, each once. In memory they form a run \<open>as\<close> in the order of their
  addresses, and a second run \<open>bs\<close>, those that were cut from the start of the buffer again, in front of the first.
\<close>

definition rbb_links :: "rt_rbb \<Rightarrow> nat list \<Rightarrow> bool" where
  "rbb_links r xs \<longleftrightarrow> slist (blk_list r) (blk_list r 0) (map Suc xs) \<and> distinct xs \<and>
     blk_max_num r = length (blk_set r) \<and> blk_max_num r < 2 ^ 32 \<and>
     set xs = {i. i < length (blk_set r) \<and> blk_status (blk_set r ! i) \<noteq> RT_RBB_BLK_UNUSED}"

definition rbb_room :: "rt_rbb \<Rightarrow> nat list \<Rightarrow> nat list \<Rightarrow> bool" where
  "rbb_room r as bs \<longleftrightarrow> rbb_buf r + rbb_buf_size r < 2 ^ 32 \<and> (as = [] \<longrightarrow> bs = []) \<and>
     laid (blk_set r) (rbb_buf r) as (rbb_buf r + rbb_buf_size r) \<and>
     (as \<noteq> [] \<longrightarrow> laid (blk_set r) (rbb_buf r) bs (blk_buf (blk_set r ! hd as)))"

definition rbb_inv :: "rt_rbb \<Rightarrow> nat list \<Rightarrow> nat list \<Rightarrow> bool" where
  "rbb_inv r as bs \<longleftrightarrow> rbb_links r (as @ bs) \<and> rbb_room r as bs"

lemma rbb_linksD:
  assumes "rbb_links r xs"
  shows "slist (blk_list r) (blk_list r 0) (map Suc xs)" "distinct (0 # map Suc xs)" "distinct xs"
    "blk_max_num r = length (blk_set r)" "length xs \<le> blk_max_num r" "blk_max_num r < 2 ^ 32"
    "i \<in> set xs \<longleftrightarrow> i < length (blk_set r) \<and> blk_status (blk_set r ! i) \<noteq> RT_RBB_BLK_UNUSED"
proof -
  show "slist (blk_list r) (blk_list r 0) (map Suc xs)" "distinct xs" "blk_max_num r = length (blk_set r)"
    "blk_max_num r < 2 ^ 32" "i \<in> set xs \<longleftrightarrow> i < length (blk_set r) \<and> blk_status (blk_set r ! i) \<noteq> RT_RBB_BLK_UNUSED"
    using assms by (auto simp: rbb_links_def)
  then show "distinct (0 # map Suc xs)" by (auto simp: distinct_map)
  have "length xs = card (set xs)" using \<open>distinct xs\<close> by (rule distinct_card [symmetric])
  also have "\<dots> \<le> card {..<length (blk_set r)}" using assms by (intro card_mono) (auto simp: rbb_links_def)
  finally show "length xs \<le> blk_max_num r" using assms by (simp add: rbb_links_def)
qed

text \<open>What the invariant is for: the blocks in use lie inside the buffer and do not overlap.\<close>

definition in_use_blk :: "rt_rbb \<Rightarrow> nat \<Rightarrow> bool" where
  "in_use_blk r i \<longleftrightarrow> i < length (blk_set r) \<and> blk_status (blk_set r ! i) \<noteq> RT_RBB_BLK_UNUSED"

lemma rbb_inv_apart:
  assumes "rbb_inv r as bs"
  shows "in_use_blk r i \<Longrightarrow> rbb_buf r \<le> blk_buf (blk_set r ! i) \<and> blk_end (blk_set r) i \<le> rbb_buf r + rbb_buf_size r"
    and "in_use_blk r i \<Longrightarrow> in_use_blk r j \<Longrightarrow> i \<noteq> j \<Longrightarrow>
      blk_end (blk_set r) i \<le> blk_buf (blk_set r ! j) \<or> blk_end (blk_set r) j \<le> blk_buf (blk_set r ! i)"
proof -
  let ?S = "blk_set r"
  have l: "rbb_links r (as @ bs)" and g: "rbb_room r as bs" using assms by (auto simp: rbb_inv_def)
  have mem: "in_use_blk r i \<longleftrightarrow> i \<in> set as \<or> i \<in> set bs" for i
    using rbb_linksD(7) [OF l, of i] by (auto simp: in_use_blk_def)
  have as: "laid ?S (rbb_buf r) as (rbb_buf r + rbb_buf_size r)" using g by (simp add: rbb_room_def)
  have bs: "laid ?S (rbb_buf r) bs (blk_buf (?S ! hd as)) \<and> as \<noteq> []" if "j \<in> set bs" for j
    using g that by (cases "as = []") (auto simp: rbb_room_def)
  have first: "blk_buf (?S ! hd as) \<le> blk_buf (?S ! i)" if "i \<in> set as" for i
  proof (cases as)
    case (Cons a xs)
    then have "laid ?S (blk_end ?S a) xs (rbb_buf r + rbb_buf_size r)" using as by (simp add: blk_end_def)
    then show ?thesis using laid_mem [of ?S "blk_end ?S a" xs _ i] that Cons by (fastforce simp: blk_end_def)
  qed (use that in simp)
  have top: "blk_buf (?S ! hd as) \<le> rbb_buf r + rbb_buf_size r" if "as \<noteq> []"
    using laid_mem [OF as, of "hd as"] that by (auto simp: blk_end_def)
  show "in_use_blk r i \<Longrightarrow> rbb_buf r \<le> blk_buf (?S ! i) \<and> blk_end ?S i \<le> rbb_buf r + rbb_buf_size r"
    unfolding mem using laid_mem [OF as, of i] bs [of i] laid_mem [of ?S "rbb_buf r" bs _ i] top by (metis order_trans)
  show "blk_end ?S i \<le> blk_buf (?S ! j) \<or> blk_end ?S j \<le> blk_buf (?S ! i)"
    if "in_use_blk r i" "in_use_blk r j" "i \<noteq> j"
  proof -
    have low: "blk_end ?S k \<le> blk_buf (?S ! l)" if "k \<in> set bs" "l \<in> set as" for k l
      using bs [OF that(1)] laid_mem [of ?S "rbb_buf r" bs _ k] that first [OF that(2)] by (metis order_trans)
    consider "i \<in> set as" "j \<in> set as" | "i \<in> set bs" "j \<in> set bs" | "i \<in> set bs" "j \<in> set as" | "i \<in> set as" "j \<in> set bs"
      using \<open>in_use_blk r i\<close> \<open>in_use_blk r j\<close> unfolding mem by blast
    then show ?thesis
      by cases (use laid_apart [OF as _ _ \<open>i \<noteq> j\<close>] laid_apart [OF conjunct1 [OF bs] _ _ \<open>i \<noteq> j\<close>] low in blast)+
  qed
qed

section \<open>The operations\<close>

lemma len_word: "length xs < 2 ^ 32 \<Longrightarrow> unat (of_nat (length xs) :: u32) = length xs"
  by (simp add: unat_of_nat)

lemma find_empty_None:
  assumes "rbb_links r xs"
  shows "find_empty_blk_in_set r = None \<longleftrightarrow> length xs = blk_max_num r"
proof -
  note L = rbb_linksD [OF assms]
  have "find_empty_blk_in_set r = None \<longleftrightarrow> {..<length (blk_set r)} \<subseteq> set xs"
    using L(7) by (auto simp: find_empty_blk_in_set_def find_None_iff L(4))
  also have "\<dots> \<longleftrightarrow> set xs = {..<length (blk_set r)}" using L(7) by auto
  also have "\<dots> \<longleftrightarrow> length xs = blk_max_num r"
  proof
    assume "set xs = {..<length (blk_set r)}"
    then show "length xs = blk_max_num r" using distinct_card [OF L(3)] L(4) by simp
  next
    assume "length xs = blk_max_num r"
    then show "set xs = {..<length (blk_set r)}"
      using L(7) distinct_card [OF L(3)] L(4) by (intro card_subset_eq) auto
  qed
  finally show ?thesis .
qed

lemma find_empty_Some:
  assumes "rbb_links r xs" "find_empty_blk_in_set r = Some i"
  shows "i < length (blk_set r)" "i \<notin> set xs" "length xs < blk_max_num r"
proof -
  note L = rbb_linksD [OF assms(1)]
  show "i < length (blk_set r)" "i \<notin> set xs"
    using assms(2) L(4,7) by (auto simp: find_empty_blk_in_set_def find_Some_iff)
  have "length xs \<noteq> blk_max_num r" using find_empty_None [OF assms(1)] assms(2) by auto
  then show "length xs < blk_max_num r" using L(5) by simp
qed

lemma blk_place_ok:
  assumes l: "rbb_links r xs" and i: "i < length (blk_set r)" "i \<notin> set xs"
  obtains r' where "blk_place i a sz r = Some (Some i, r')" "rbb_links r' (xs @ [i])"
    "blk_set r' = (blk_set r)[i := \<lparr>blk_status = RT_RBB_BLK_INITED, blk_size = sz, blk_buf = a\<rparr>]"
    "rbb_buf r' = rbb_buf r" "rbb_buf_size r' = rbb_buf_size r"
proof -
  note L = rbb_linksD [OF l]
  have "Suc i \<notin> set (0 # map Suc xs)" using i(2) by auto
  from rt_slist_append_slist [OF L(1,2) this] obtain h where h: "rt_slist_append 0 (Suc i) (blk_list r) = Some h"
    "slist h (h 0) (map Suc (xs @ [i]))" by auto
  let ?r = "r\<lparr>blk_list := h, blk_set := (blk_set r)[i := \<lparr>blk_status = RT_RBB_BLK_INITED, blk_size = sz, blk_buf = a\<rparr>]\<rparr>"
  have "set (xs @ [i]) = {j. j < length (blk_set ?r) \<and> blk_status (blk_set ?r ! j) \<noteq> RT_RBB_BLK_UNUSED}"
    using L(7) i by (auto simp: nth_list_update)
  then have "rbb_links ?r (xs @ [i])" using h(2) L(3,4,6) i(2) by (simp add: rbb_links_def)
  then show thesis using h(1) by (intro that [of ?r]) (simp_all add: blk_place_def)
qed

text \<open>Where the next block goes.\<close>

definition rbb_slot :: "rt_rbb \<Rightarrow> nat list \<Rightarrow> nat list \<Rightarrow> nat \<Rightarrow> nat option" where
  "rbb_slot r as bs sz =
     (let S = blk_set r; top = rbb_buf r + rbb_buf_size r in
      if as = [] then Some (rbb_buf r)
      else if bs = [] then if blk_end S (last as) + sz \<le> top then Some (blk_end S (last as))
           else if rbb_buf r + sz \<le> blk_buf (S ! hd as) then Some (rbb_buf r) else None
      else if blk_end S (last bs) + sz \<le> blk_buf (S ! hd as) then Some (blk_end S (last bs)) else None)"

lemma rbb_slot_room:
  assumes g: "rbb_room r as bs" and s: "rbb_slot r as bs sz = Some a" and sz: "0 < sz" "sz \<le> rbb_buf_size r"
    and i: "i \<notin> set (as @ bs)" "i < length (blk_set r)"
    and r': "blk_set r' = (blk_set r)[i := \<lparr>blk_status = RT_RBB_BLK_INITED, blk_size = sz, blk_buf = a\<rparr>]"
      "rbb_buf r' = rbb_buf r" "rbb_buf_size r' = rbb_buf_size r"
  shows "\<exists>as' bs'. rbb_room r' as' bs' \<and> as' @ bs' = as @ bs @ [i]"
proof -
  let ?S = "blk_set r" and ?T = "blk_set r'" and ?top = "rbb_buf r + rbb_buf_size r"
  have T: "?T ! i = \<lparr>blk_status = RT_RBB_BLK_INITED, blk_size = sz, blk_buf = a\<rparr>" using i(2) r'(1) by simp
  have T': "blk_buf (?T ! j) = blk_buf (?S ! j) \<and> blk_size (?T ! j) = blk_size (?S ! j)" if "j \<in> set (as @ bs)" for j
    using that i(1) r'(1) by (metis nth_list_update_neq)
  have keep: "laid ?T lo xs hi = laid ?S lo xs hi" if "set xs \<subseteq> set (as @ bs)" for lo xs hi
    using T' that by (intro laid_cong) blast
  have end_i: "blk_end ?T i = a + sz" "blk_buf (?T ! i) = a" by (simp_all add: T blk_end_def)
  have top: "?top < 2 ^ 32" and as: "laid ?S (rbb_buf r) as ?top" and bs: "as \<noteq> [] \<Longrightarrow> laid ?S (rbb_buf r) bs (blk_buf (?S ! hd as))"
    using g by (auto simp: rbb_room_def)
  show ?thesis
  proof (cases "as = []")
    case True
    then have "bs = []" "a = rbb_buf r" using g s by (auto simp: rbb_room_def rbb_slot_def Let_def)
    then have "rbb_room r' [i] []" using sz top end_i by (auto simp: rbb_room_def r'(2,3) T)
    with True \<open>bs = []\<close> show ?thesis by (intro exI [of _ "[i]"] exI [of _ "[]"]) simp
  next
    case as_ne: False
    have hd_as: "blk_buf (?T ! hd as) = blk_buf (?S ! hd as)" using T' [of "hd as"] as_ne by simp
    show ?thesis
    proof (cases "bs = []")
      case bs_e: True
      show ?thesis
      proof (cases "blk_end ?S (last as) + sz \<le> ?top")
        case True
        then have a: "a = blk_end ?S (last as)" using s as_ne bs_e by (simp add: rbb_slot_def Let_def)
        have "laid ?T (rbb_buf r) as a" using keep [of as] laid_last [OF as as_ne] a by simp
        then have "laid ?T (rbb_buf r) (as @ [i]) ?top" unfolding laid_snoc using sz True a by (simp add: end_i T)
        moreover have "rbb_buf r \<le> blk_buf (?T ! hd (as @ [i]))" using hd_as as as_ne by (cases as) auto
        ultimately have "rbb_room r' (as @ [i]) []" using top by (simp add: rbb_room_def r'(2,3))
        with bs_e show ?thesis by (intro exI [of _ "as @ [i]"] exI [of _ "[]"]) simp
      next
        case False
        then have a: "a = rbb_buf r" "rbb_buf r + sz \<le> blk_buf (?S ! hd as)"
          using s as_ne bs_e by (auto simp: rbb_slot_def Let_def split: if_splits)
        have "laid ?T (rbb_buf r) [i] (blk_buf (?T ! hd as))" using a sz hd_as by (simp add: T)
        then have "rbb_room r' as [i]" using top as keep [of as] as_ne by (simp add: rbb_room_def r'(2,3))
        with bs_e show ?thesis by (intro exI [of _ as] exI [of _ "[i]"]) simp
      qed
    next
      case bs_ne: False
      then have a: "a = blk_end ?S (last bs)" "blk_end ?S (last bs) + sz \<le> blk_buf (?S ! hd as)"
        using s as_ne by (auto simp: rbb_slot_def Let_def split: if_splits)
      have "laid ?T (rbb_buf r) bs a" using keep [of bs] laid_last [OF bs [OF as_ne] bs_ne] a by simp
      then have "laid ?T (rbb_buf r) (bs @ [i]) (blk_buf (?T ! hd as))" unfolding laid_snoc using sz a hd_as by (simp add: end_i T)
      then have "rbb_room r' as (bs @ [i])" using top as keep [of as] as_ne by (simp add: rbb_room_def r'(2,3))
      then show ?thesis by (intro exI [of _ as] exI [of _ "bs @ [i]"]) simp
    qed
  qed
qed

lemma blk_of_Suc [simp]: "i < length (blk_set r) \<Longrightarrow> blk_of (Suc i) r = Some (blk_set r ! i)"
  by (simp add: blk_of_def)

lemma rbb_alloc_eq:
  assumes inv: "rbb_inv r as bs" and sz: "sz < 2 ^ 24"
  shows "rt_rbb_blk_alloc sz r =
    (case find_empty_blk_in_set r of None \<Rightarrow> Some (None, r)
     | Some i \<Rightarrow> (case rbb_slot r as bs sz of None \<Rightarrow> Some (None, r) | Some a \<Rightarrow> blk_place i a sz r))"
proof -
  let ?S = "blk_set r" and ?top = "rbb_buf r + rbb_buf_size r" and ?xs = "as @ bs"
  have l: "rbb_links r ?xs" and g: "rbb_room r as bs" using inv by (auto simp: rbb_inv_def)
  note L = rbb_linksD [OF l]
  have len: "rt_slist_len 0 (blk_list r) = Some (of_nat (length ?xs))"
    using rt_slist_len_slist [OF L(1)] by simp
  have ulen: "unat (of_nat (length ?xs) :: u32) = length ?xs" using L(5,6) by (intro len_word) simp
  show ?thesis
  proof (cases "find_empty_blk_in_set r")
    case None
    then show ?thesis using len sz by (simp add: rt_rbb_blk_alloc_def)
  next
    case (Some i)
    have room: "length ?xs < blk_max_num r" using find_empty_Some(3) [OF l Some] .
    show ?thesis
    proof (cases "as = []")
      case True
      then have "bs = []" using g by (simp add: rbb_room_def)
      then show ?thesis using True Some len sz room by (simp add: rt_rbb_blk_alloc_def rbb_slot_def)
    next
      case as_ne: False
      have in_use: "in_use_blk r j" if "j \<in> set ?xs" for j using that L(7) by (simp add: in_use_blk_def)
      have h: "hd as < length ?S" using L(7) [of "hd as"] as_ne by simp
      have t: "last ?xs \<in> set ?xs" using as_ne by (intro last_in_set) simp
      then have t2: "last ?xs < length ?S" using L(7) by blast
      have first: "rt_slist_first 0 (blk_list r) = Some (Suc (hd as))"
        using L(1) as_ne by (cases as) (auto simp: rt_slist_first_def)
      have tail: "rt_slist_tail (blk_list r) 0 = Some (Suc (last ?xs))"
        using rt_slist_tail_slist [OF L(1)] last_map [of ?xs Suc] as_ne by simp
      note at = rbb_inv_apart(1) [OF inv in_use [OF t]]
      have top: "?top < 2 ^ 32" using g by (simp add: rbb_room_def)
      have e: "add32 (blk_buf (?S ! last ?xs)) (blk_size (?S ! last ?xs)) = blk_end ?S (last ?xs)"
        "add32 (rbb_buf r) (rbb_buf_size r) = ?top" using at top by (simp_all add: blk_end_def)
      have pos: "(of_nat (length ?xs) :: u32) > 0"
        using ulen as_ne by (metis append_is_Nil_conv length_0_conv unat_0 word_neq_0_conv)
      have hb: "rbb_buf r \<le> blk_buf (?S ! hd as)" "blk_buf (?S ! hd as) < 2 ^ 32"
        using rbb_inv_apart(1) [OF inv in_use [of "hd as"]] as_ne top by (auto simp: blk_end_def)
      have e2: "sub32 (blk_buf (?S ! hd as)) (rbb_buf r) = blk_buf (?S ! hd as) - rbb_buf r" using hb by simp
      have e1: "sub32 ?top (blk_end ?S (last ?xs)) = ?top - blk_end ?S (last ?xs)" using at top by simp
      have alloc: "rt_rbb_blk_alloc sz r =
        (if blk_buf (?S ! hd as) \<le> blk_buf (?S ! last ?xs)
         then if ?top - blk_end ?S (last ?xs) \<ge> sz then blk_place i (blk_end ?S (last ?xs)) sz r
              else if blk_buf (?S ! hd as) - rbb_buf r \<ge> sz then blk_place i (rbb_buf r) sz r else Some (None, r)
         else if sub32 (blk_buf (?S ! hd as)) (blk_end ?S (last ?xs)) \<ge> sz then blk_place i (blk_end ?S (last ?xs)) sz r
              else Some (None, r))"
        using Some len ulen room sz pos first tail h t2
        by (simp add: rt_rbb_blk_alloc_def e e1 e2 Let_def)
      show ?thesis
      proof (cases "bs = []")
        case True
        have "blk_buf (?S ! hd as) \<le> blk_buf (?S ! last as)"
        proof (cases "hd as = last as")
          case False
          then have "last as \<in> set (tl as)" using as_ne by (cases as) (auto split: if_splits)
          moreover have "laid ?S (blk_end ?S (hd as)) (tl as) ?top" using g as_ne by (cases as) (auto simp: rbb_room_def blk_end_def)
          ultimately show ?thesis using laid_mem by (fastforce simp: blk_end_def)
        qed simp
        then show ?thesis using alloc True Some as_ne hb at by (auto simp: rbb_slot_def Let_def le_diff_conv2 add.commute)
      next
        case False
        then have lb: "last ?xs = last bs" by simp
        have "laid ?S (rbb_buf r) bs (blk_buf (?S ! hd as))" using g as_ne by (simp add: rbb_room_def)
        then have m: "0 < blk_size (?S ! last bs)" "blk_end ?S (last bs) \<le> blk_buf (?S ! hd as)"
          using laid_mem [of ?S _ bs _ "last bs"] False by auto
        then have "\<not> blk_buf (?S ! hd as) \<le> blk_buf (?S ! last bs)" by (simp add: blk_end_def)
        moreover have "sub32 (blk_buf (?S ! hd as)) (blk_end ?S (last bs)) = blk_buf (?S ! hd as) - blk_end ?S (last bs)"
          using m(2) hb(2) by simp
        ultimately show ?thesis
          using alloc lb False Some as_ne m(2) by (auto simp: rbb_slot_def Let_def le_diff_conv2 add.commute)
      qed
    qed
  qed
qed

lemma rbb_alloc_ok:
  assumes inv: "rbb_inv r as bs" and sz: "0 < sz" "sz < 2 ^ 24" "sz \<le> rbb_buf_size r"
  shows "\<exists>q r'. rt_rbb_blk_alloc sz r = Some (q, r') \<and>
    (q = None \<longleftrightarrow> (\<forall>i. i < length (blk_set r) \<longrightarrow> in_use_blk r i) \<or> rbb_slot r as bs sz = None) \<and>
    (case q of None \<Rightarrow> r' = r
     | Some i \<Rightarrow> \<not> in_use_blk r i \<and> rbb_buf r' = rbb_buf r \<and> rbb_buf_size r' = rbb_buf_size r \<and>
         (\<exists>a. blk_set r' = (blk_set r)[i := \<lparr>blk_status = RT_RBB_BLK_INITED, blk_size = sz, blk_buf = a\<rparr>]) \<and>
         (\<exists>as' bs'. rbb_inv r' as' bs' \<and> as' @ bs' = as @ bs @ [i]))"
proof -
  have l: "rbb_links r (as @ bs)" and g: "rbb_room r as bs" using inv by (auto simp: rbb_inv_def)
  note L = rbb_linksD [OF l] and eq = rbb_alloc_eq [OF inv sz(2)]
  have full: "find_empty_blk_in_set r = None \<longleftrightarrow> (\<forall>i. i < length (blk_set r) \<longrightarrow> in_use_blk r i)"
    by (auto simp: find_empty_blk_in_set_def find_None_iff L(4) in_use_blk_def)
  show ?thesis
  proof (cases "find_empty_blk_in_set r")
    case None
    then show ?thesis using eq full by auto
  next
    case (Some i)
    note i = find_empty_Some [OF l Some]
    show ?thesis
    proof (cases "rbb_slot r as bs sz")
      case None
      then show ?thesis using eq Some by auto
    next
      case a: (Some a)
      obtain r' where p: "blk_place i a sz r = Some (Some i, r')" "rbb_links r' ((as @ bs) @ [i])"
        "blk_set r' = (blk_set r)[i := \<lparr>blk_status = RT_RBB_BLK_INITED, blk_size = sz, blk_buf = a\<rparr>]"
        "rbb_buf r' = rbb_buf r" "rbb_buf_size r' = rbb_buf_size r" by (rule blk_place_ok [OF l i(1,2)])
      obtain as' bs' where n: "rbb_room r' as' bs'" "as' @ bs' = as @ bs @ [i]"
        using rbb_slot_room [OF g a sz(1,3) i(2,1) p(3-5)] by blast
      have "rbb_inv r' as' bs'" using n p(2) by (simp add: rbb_inv_def)
      moreover have "\<not> in_use_blk r i" using i(2) L(7) [of i] unfolding in_use_blk_def by blast
      moreover have "rt_rbb_blk_alloc sz r = Some (Some i, r')" using eq Some a p(1) by simp
      moreover have "\<not> (\<forall>i. i < length (blk_set r) \<longrightarrow> in_use_blk r i)" using full Some by auto
      moreover have "\<exists>as' bs'. rbb_inv r' as' bs' \<and> as' @ bs' = as @ bs @ [i]" using \<open>rbb_inv r' as' bs'\<close> n(2) by blast
      moreover have "\<exists>a. blk_set r' = (blk_set r)[i := \<lparr>blk_status = RT_RBB_BLK_INITED, blk_size = sz, blk_buf = a\<rparr>]"
        using p(3) by blast
      ultimately show ?thesis
        by (intro exI [of _ "Some i"] exI [of _ r'] conjI) (simp_all only: a p(4,5) option.case option.distinct simp_thms)
    qed
  qed
qed

lemma set_status_sel [simp]:
  "blk_list (set_status i st r) = blk_list r" "rbb_buf (set_status i st r) = rbb_buf r"
  "rbb_buf_size (set_status i st r) = rbb_buf_size r" "blk_max_num (set_status i st r) = blk_max_num r"
  "length (blk_set (set_status i st r)) = length (blk_set r)"
  "blk_buf (blk_set (set_status i st r) ! j) = blk_buf (blk_set r ! j)"
  "blk_size (blk_set (set_status i st r) ! j) = blk_size (blk_set r ! j)"
proof -
  have j: "blk_buf (xs[i := (xs ! i)\<lparr>blk_status := st\<rparr>] ! j) = blk_buf (xs ! j) \<and>
      blk_size (xs[i := (xs ! i)\<lparr>blk_status := st\<rparr>] ! j) = blk_size (xs ! j)" for xs :: "rt_rbb_blk list"
    by (cases "i < length xs \<and> i = j") (auto simp: nth_list_update list_update_beyond)
  show "blk_buf (blk_set (set_status i st r) ! j) = blk_buf (blk_set r ! j)"
    "blk_size (blk_set (set_status i st r) ! j) = blk_size (blk_set r ! j)"
    using j by (simp_all add: set_status_def)
qed (simp_all add: set_status_def)

lemma set_status_status:
  "i < length (blk_set r) \<Longrightarrow> blk_status (blk_set (set_status i st r) ! j) = (if j = i then st else blk_status (blk_set r ! j))"
  by (simp add: set_status_def nth_list_update)

lemma rbb_room_cong:
  assumes "rbb_room r as bs" "rbb_buf r' = rbb_buf r" "rbb_buf_size r' = rbb_buf_size r"
    "\<And>j. blk_buf (blk_set r' ! j) = blk_buf (blk_set r ! j)" "\<And>j. blk_size (blk_set r' ! j) = blk_size (blk_set r ! j)"
  shows "rbb_room r' as bs"
  using assms laid_cong [of _ "blk_set r'" "blk_set r"] by (simp add: rbb_room_def)

lemma rbb_restatus:
  assumes "rbb_inv r as bs" "i < length (blk_set r)" "st \<noteq> RT_RBB_BLK_UNUSED" "blk_status (blk_set r ! i) \<noteq> RT_RBB_BLK_UNUSED"
  shows "rbb_inv (set_status i st r) as bs"
proof -
  have "rbb_room (set_status i st r) as bs" using assms(1) by (auto simp: rbb_inv_def intro: rbb_room_cong)
  moreover have "rbb_links (set_status i st r) (as @ bs)"
    using assms by (auto simp: rbb_inv_def rbb_links_def set_status_status)
  ultimately show ?thesis by (simp add: rbb_inv_def)
qed

lemma rbb_put_ok:
  assumes "rbb_inv r as bs" "i < length (blk_set r)" "blk_status (blk_set r ! i) = RT_RBB_BLK_INITED"
  shows "rt_rbb_blk_put i r = Some (set_status i RT_RBB_BLK_PUT r)" "rbb_inv (set_status i RT_RBB_BLK_PUT r) as bs"
  using assms by (simp_all add: rt_rbb_blk_put_def rbb_restatus)

text \<open>The block that \<^verbatim>\<open>rt_rbb_blk_get\<close> gives is the first one of the list that was put.\<close>

lemma blk_get_loop_eq:
  assumes "slist (blk_list r) node (map Suc xs)" "\<And>i. i \<in> set xs \<Longrightarrow> i < length (blk_set r)"
  shows "blk_get_loop node r =
    (case find (\<lambda>i. blk_status (blk_set r ! i) = RT_RBB_BLK_PUT) xs of
       None \<Rightarrow> Some (None, r) | Some i \<Rightarrow> Some (Some i, set_status i RT_RBB_BLK_GET r))"
  using assms
proof (induction xs arbitrary: node)
  case Nil
  then show ?case by (subst blk_get_loop.simps) simp
next
  case (Cons i xs)
  then have "node = Some (Suc i)" "slist (blk_list r) (blk_list r (Suc i)) (map Suc xs)" by auto
  with Cons show ?case by (subst blk_get_loop.simps) simp
qed

lemma rbb_get_ok:
  assumes inv: "rbb_inv r as bs"
  shows "rt_rbb_blk_get r =
    (case find (\<lambda>i. blk_status (blk_set r ! i) = RT_RBB_BLK_PUT) (as @ bs) of
       None \<Rightarrow> Some (None, r) | Some i \<Rightarrow> Some (Some i, set_status i RT_RBB_BLK_GET r))"
    and "find (\<lambda>i. blk_status (blk_set r ! i) = RT_RBB_BLK_PUT) (as @ bs) = Some i \<Longrightarrow>
      rbb_inv (set_status i RT_RBB_BLK_GET r) as bs"
proof -
  have l: "rbb_links r (as @ bs)" using inv by (simp add: rbb_inv_def)
  note L = rbb_linksD [OF l]
  have "blk_get_loop (blk_list r 0) r =
    (case find (\<lambda>i. blk_status (blk_set r ! i) = RT_RBB_BLK_PUT) (as @ bs) of
       None \<Rightarrow> Some (None, r) | Some i \<Rightarrow> Some (Some i, set_status i RT_RBB_BLK_GET r))"
    using L(7) by (intro blk_get_loop_eq [OF L(1)]) blast
  moreover have "as @ bs = []" if "blk_list r 0 = None" using L(1) that by (cases "as @ bs") auto
  ultimately show "rt_rbb_blk_get r =
    (case find (\<lambda>i. blk_status (blk_set r ! i) = RT_RBB_BLK_PUT) (as @ bs) of
       None \<Rightarrow> Some (None, r) | Some i \<Rightarrow> Some (Some i, set_status i RT_RBB_BLK_GET r))"
    by (auto simp: rt_rbb_blk_get_def rt_slist_isempty_def rt_slist_first_def)
  show "rbb_inv (set_status i RT_RBB_BLK_GET r) as bs"
    if "find (\<lambda>i. blk_status (blk_set r ! i) = RT_RBB_BLK_PUT) (as @ bs) = Some i"
  proof -
    from that have "i \<in> set (as @ bs)" by (metis find_Some_iff nth_mem)
    then show ?thesis using L(7) [of i] by (intro rbb_restatus [OF inv]) auto
  qed
qed

text \<open>Freeing a block takes it out of its run; the runs change their places when the first becomes empty.\<close>

lemma rbb_room_drop:
  assumes "rbb_room r as bs" "distinct (as @ bs)"
  shows "\<exists>as' bs'. rbb_room r as' bs' \<and> as' @ bs' = remove1 i (as @ bs)"
proof -
  let ?S = "blk_set r" and ?top = "rbb_buf r + rbb_buf_size r"
  have g: "?top < 2 ^ 32" "laid ?S (rbb_buf r) as ?top" "as \<noteq> [] \<Longrightarrow> laid ?S (rbb_buf r) bs (blk_buf (?S ! hd as))"
    using assms(1) by (auto simp: rbb_room_def)
  show ?thesis
  proof (cases "i \<in> set as")
    case False
    have "rbb_room r as (remove1 i bs)" using assms(1) laid_drop by (auto simp: rbb_room_def)
    with False show ?thesis by (intro exI [of _ as] exI [of _ "remove1 i bs"]) (simp add: remove1_append)
  next
    case True
    have as': "laid ?S (rbb_buf r) (remove1 i as) ?top" using g(2) by (rule laid_drop)
    show ?thesis
    proof (cases "remove1 i as = []")
      case e: True
      then have "as = [i]" using True by (cases as) (auto split: if_splits)
      then have "laid ?S (rbb_buf r) bs ?top" using g(2) laid_mono [OF g(3)] by simp
      then have "rbb_room r bs []" using g(1) by (cases bs) (auto simp: rbb_room_def)
      with e True show ?thesis by (intro exI [of _ bs] exI [of _ "[]"]) (simp add: remove1_append)
    next
      case ne: False
      obtain a xs where as: "as = a # xs" using True by (cases as) auto
      have "blk_buf (?S ! a) \<le> blk_buf (?S ! hd (remove1 i as))"
      proof (cases "a = i")
        case True
        then show ?thesis using g(2) ne as by (cases xs) auto
      qed (simp add: as)
      then have "laid ?S (rbb_buf r) bs (blk_buf (?S ! hd (remove1 i as)))" using laid_mono [OF g(3)] as by simp
      then have "rbb_room r (remove1 i as) bs" using g(1) as' ne by (simp add: rbb_room_def)
      with True show ?thesis by (intro exI [of _ "remove1 i as"] exI [of _ bs]) (simp add: remove1_append)
    qed
  qed
qed

lemma remove1_Suc: "remove1 (Suc i) (map Suc xs) = map Suc (remove1 i xs)"
  by (induction xs) auto

lemma rbb_free_ok:
  assumes inv: "rbb_inv r as bs" and i: "in_use_blk r i"
  obtains h as' bs' where "rt_rbb_blk_free i r = Some (set_status i RT_RBB_BLK_UNUSED (r\<lparr>blk_list := h\<rparr>))"
    "rbb_inv (set_status i RT_RBB_BLK_UNUSED (r\<lparr>blk_list := h\<rparr>)) as' bs'" "as' @ bs' = remove1 i (as @ bs)"
proof -
  have l: "rbb_links r (as @ bs)" and g: "rbb_room r as bs" using inv by (auto simp: rbb_inv_def)
  note L = rbb_linksD [OF l]
  from rt_slist_remove_slist [OF L(1,2), of "Suc i"] obtain h where h: "rt_slist_remove 0 (Suc i) (blk_list r) = Some h"
    "slist h (h 0) (map Suc (remove1 i (as @ bs)))" unfolding remove1_Suc by blast
  let ?r = "set_status i RT_RBB_BLK_UNUSED (r\<lparr>blk_list := h\<rparr>)"
  obtain as' bs' where n: "rbb_room r as' bs'" "as' @ bs' = remove1 i (as @ bs)"
    using rbb_room_drop [OF g L(3)] by blast
  have "rbb_room ?r as' bs'" using n(1) by (rule rbb_room_cong) simp_all
  moreover have "rbb_links ?r (as' @ bs')"
    using h(2) L(3,4,6,7) i unfolding n(2) rbb_links_def by (auto simp: set_status_status in_use_blk_def)
  ultimately show thesis
    using h(1) i n(2) by (intro that [of h as' bs']) (auto simp: rbb_inv_def rt_rbb_blk_free_def in_use_blk_def)
qed

section \<open>Clients\<close>

text \<open>
  What a client may ask: blocks that are not empty and not larger than the buffer, putting blocks it was given to fill,
  freeing blocks that are in use. A run also keeps the blocks in use in the order in which they were cut.
\<close>

datatype rbb_req = Alloc_req nat | Put_req nat | Get_req | Free_req nat

fun rbb_legal :: "rbb_req \<Rightarrow> rt_rbb \<Rightarrow> bool" where
  "rbb_legal (Alloc_req sz) r \<longleftrightarrow> 0 < sz \<and> sz < 2 ^ 24 \<and> sz \<le> rbb_buf_size r"
| "rbb_legal (Put_req i) r \<longleftrightarrow> i < length (blk_set r) \<and> blk_status (blk_set r ! i) = RT_RBB_BLK_INITED"
| "rbb_legal Get_req r \<longleftrightarrow> True"
| "rbb_legal (Free_req i) r \<longleftrightarrow> in_use_blk r i"

fun rbb_do :: "rbb_req \<Rightarrow> rt_rbb \<times> nat list \<Rightarrow> (rt_rbb \<times> nat list) option" where
  "rbb_do (Alloc_req sz) (r, xs) =
     do { (q, r) \<leftarrow> rt_rbb_blk_alloc sz r; Some (r, case q of None \<Rightarrow> xs | Some i \<Rightarrow> xs @ [i]) }"
| "rbb_do (Put_req i) (r, xs) = do { r \<leftarrow> rt_rbb_blk_put i r; Some (r, xs) }"
| "rbb_do Get_req (r, xs) = do { (q, r) \<leftarrow> rt_rbb_blk_get r; Some (r, xs) }"
| "rbb_do (Free_req i) (r, xs) = do { r \<leftarrow> rt_rbb_blk_free i r; Some (r, remove1 i xs) }"

fun rbb_run :: "rbb_req list \<Rightarrow> rt_rbb \<times> nat list \<Rightarrow> (rt_rbb \<times> nat list) option" where
  "rbb_run [] c = Some c"
| "rbb_run (q # qs) c = (if rbb_legal q (fst c) then do { c \<leftarrow> rbb_do q c; rbb_run qs c } else rbb_run qs c)"

definition rbb_at :: "nat \<Rightarrow> nat \<Rightarrow> rt_rbb \<times> nat list \<Rightarrow> bool" where
  "rbb_at b n c \<longleftrightarrow> rbb_buf (fst c) = b \<and> rbb_buf_size (fst c) = n \<and>
     (\<exists>as bs. snd c = as @ bs \<and> rbb_inv (fst c) as bs)"

lemma rbb_do_ok:
  assumes "rbb_at b n c" "rbb_legal q (fst c)"
  shows "\<exists>c'. rbb_do q c = Some c' \<and> rbb_at b n c'"
proof -
  obtain r xs where c: "c = (r, xs)" by (cases c)
  with assms obtain as bs where a: "xs = as @ bs" "rbb_inv r as bs" "rbb_buf r = b" "rbb_buf_size r = n"
    by (auto simp: rbb_at_def)
  show ?thesis
  proof (cases q)
    case (Alloc_req sz)
    then have "0 < sz" "sz < 2 ^ 24" "sz \<le> rbb_buf_size r" using assms(2) c by simp_all
    from rbb_alloc_ok [OF a(2) this] obtain o' r' where r': "rt_rbb_blk_alloc sz r = Some (o', r')"
      "case o' of None \<Rightarrow> r' = r
       | Some i \<Rightarrow> \<not> in_use_blk r i \<and> rbb_buf r' = rbb_buf r \<and> rbb_buf_size r' = rbb_buf_size r \<and>
         (\<exists>a. blk_set r' = (blk_set r)[i := \<lparr>blk_status = RT_RBB_BLK_INITED, blk_size = sz, blk_buf = a\<rparr>]) \<and>
         (\<exists>as' bs'. rbb_inv r' as' bs' \<and> as' @ bs' = as @ bs @ [i])" by (elim exE conjE)
    show ?thesis
    proof (cases o')
      case None
      then show ?thesis using r' a c Alloc_req assms(1) by simp
    next
      case (Some i)
      with r'(2) have "rbb_buf r' = b" "rbb_buf_size r' = n" "\<exists>as' bs'. rbb_inv r' as' bs' \<and> as' @ bs' = as @ bs @ [i]"
        using a(3,4) by simp_all
      then have "rbb_at b n (r', xs @ [i])" unfolding rbb_at_def using a(1) by (auto intro: sym)
      then show ?thesis using r'(1) c Alloc_req Some by simp
    qed
  next
    case (Put_req i)
    then show ?thesis using rbb_put_ok [OF a(2), of i] a c assms(2) by (auto simp: rbb_at_def)
  next
    case Get_req
    show ?thesis
    proof (cases "find (\<lambda>i. blk_status (blk_set r ! i) = RT_RBB_BLK_PUT) (as @ bs)")
      case None
      then show ?thesis using rbb_get_ok(1) [OF a(2)] Get_req assms(1) c by simp
    next
      case (Some i)
      then show ?thesis using rbb_get_ok [OF a(2)] Get_req a c by (auto simp: rbb_at_def)
    qed
  next
    case (Free_req i)
    then have "in_use_blk r i" using assms(2) c by simp
    then obtain h as' bs' where f: "rt_rbb_blk_free i r = Some (set_status i RT_RBB_BLK_UNUSED (r\<lparr>blk_list := h\<rparr>))"
      "rbb_inv (set_status i RT_RBB_BLK_UNUSED (r\<lparr>blk_list := h\<rparr>)) as' bs'" "as' @ bs' = remove1 i (as @ bs)"
      by (rule rbb_free_ok [OF a(2)])
    then have "rbb_at b n (set_status i RT_RBB_BLK_UNUSED (r\<lparr>blk_list := h\<rparr>), remove1 i xs)"
      unfolding rbb_at_def using a(1,3,4) by (auto intro: sym)
    then show ?thesis using f(1) Free_req c by simp
  qed
qed

lemma rbb_run_ok: "rbb_at b n c \<Longrightarrow> \<exists>c'. rbb_run qs c = Some c' \<and> rbb_at b n c'"
proof (induction qs arbitrary: c)
  case (Cons q qs)
  show ?case
  proof (cases "rbb_legal q (fst c)")
    case True
    then obtain c' where "rbb_do q c = Some c'" "rbb_at b n c'" using rbb_do_ok [OF Cons.prems] by blast
    with True Cons.IH [of c'] show ?thesis by simp
  next
    case False
    then show ?thesis using Cons by simp
  qed
qed simp

lemma rbb_init_ok:
  assumes "b \<noteq> 0" "b + n < 2 ^ 32" "length S < 2 ^ 32"
  obtains r where "rt_rbb_init b n S (length S) l = Some r" "rbb_at b n (r, [])"
proof -
  obtain r where r: "rt_rbb_init b n S (length S) l = Some r" using assms(1) by (simp add: rt_rbb_init_def)
  then have "rbb_inv r [] []" "rbb_buf r = b" "rbb_buf_size r = n"
    using assms by (auto simp: rt_rbb_init_def rt_slist_init_def rbb_inv_def rbb_links_def rbb_room_def)
  then have "rbb_at b n (r, [])" by (simp add: rbb_at_def)
  with r show thesis by (rule that)
qed

text \<open>
  (C24) The blocks of a ring never overlap, for clients that keep to rules the code does not check: whatever sequence of
  \<^verbatim>\<open>rt_rbb_blk_alloc\<close>, \<^verbatim>\<open>rt_rbb_blk_put\<close>, \<^verbatim>\<open>rt_rbb_blk_get\<close> and \<^verbatim>\<open>rt_rbb_blk_free\<close> is called, with
  sizes that are not 0, below \<open>2 ^ 24\<close> and not larger than the buffer, and with blocks that were handed out put
  and freed, every call returns, every block in use lies inside the buffer and no two of them share a byte. A larger size
  is granted beyond the buffer (\<^verbatim>\<open>rbb_alloc_past_end\<close>) and the queue calls are not among these runs, because
  they take blocks off the list that are still to be read (\<^verbatim>\<open>rbb_queue_unprotected\<close>).
\<close>

theorem rbb_blocks_apart:
  assumes "b \<noteq> 0" "b + n < 2 ^ 32" "length S < 2 ^ 32" "rt_rbb_init b n S (length S) l = Some r"
  shows "\<exists>r' xs. rbb_run qs (r, []) = Some (r', xs) \<and>
    (\<forall>i. in_use_blk r' i \<longrightarrow> b \<le> blk_buf (blk_set r' ! i) \<and> blk_buf (blk_set r' ! i) + blk_size (blk_set r' ! i) \<le> b + n) \<and>
    (\<forall>i j. in_use_blk r' i \<and> in_use_blk r' j \<and> i \<noteq> j \<longrightarrow>
       blk_buf (blk_set r' ! i) + blk_size (blk_set r' ! i) \<le> blk_buf (blk_set r' ! j) \<or>
       blk_buf (blk_set r' ! j) + blk_size (blk_set r' ! j) \<le> blk_buf (blk_set r' ! i))"
proof -
  have "rbb_at b n (r, [])" using rbb_init_ok [OF assms(1-3), of l] assms(4) by auto
  from rbb_run_ok [OF this, of qs] obtain r' xs where r: "rbb_run qs (r, []) = Some (r', xs)" "rbb_at b n (r', xs)" by auto
  then obtain as bs where "rbb_inv r' as bs" "rbb_buf r' = b" "rbb_buf_size r' = n" by (auto simp: rbb_at_def)
  with r(1) show ?thesis using rbb_inv_apart [of r' as bs] by (simp add: blk_end_def)
qed

text \<open>
  (C25) Blocks come out in the order in which they were cut: after any such run of allocs, puts, gets and frees, the blocks
  in use are those that were cut and not freed, and \<^verbatim>\<open>rt_rbb_blk_get\<close> gives the one among them that was put
  and is the longest in use, and marks it; when none was put it gives nothing and changes nothing.
\<close>

theorem rbb_get_in_order:
  assumes "b \<noteq> 0" "b + n < 2 ^ 32" "length S < 2 ^ 32" "rt_rbb_init b n S (length S) l = Some r"
  shows "\<exists>r' xs. rbb_run qs (r, []) = Some (r', xs) \<and> distinct xs \<and> set xs = {i. in_use_blk r' i} \<and>
    rt_rbb_blk_get r' = (case find (\<lambda>i. blk_status (blk_set r' ! i) = RT_RBB_BLK_PUT) xs of
       None \<Rightarrow> Some (None, r') | Some i \<Rightarrow> Some (Some i, set_status i RT_RBB_BLK_GET r'))"
proof -
  have "rbb_at b n (r, [])" using rbb_init_ok [OF assms(1-3), of l] assms(4) by auto
  from rbb_run_ok [OF this, of qs] obtain r' xs where r: "rbb_run qs (r, []) = Some (r', xs)" "rbb_at b n (r', xs)" by auto
  then obtain as bs where i: "rbb_inv r' as bs" "xs = as @ bs" by (auto simp: rbb_at_def)
  then have l: "rbb_links r' xs" by (simp add: rbb_inv_def)
  have "set xs = {i. in_use_blk r' i}" using rbb_linksD(7) [OF l] by (auto simp: in_use_blk_def)
  with r(1) rbb_linksD(3) [OF l] rbb_get_ok(1) [OF i(1)] i(2) show ?thesis by blast
qed

text \<open>
  The first block of an empty ring is not checked against the buffer: any size below \<open>2 ^ 24\<close> is granted, and the
  block reaches past the end of the buffer by what it is too long.
\<close>

theorem rbb_alloc_past_end:
  assumes "b \<noteq> 0" "b + n < 2 ^ 32" "length S < 2 ^ 32" "rt_rbb_init b n S (length S) l = Some r" "S \<noteq> []"
    "n < sz" "sz < 2 ^ 24"
  shows "\<exists>i r'. rt_rbb_blk_alloc sz r = Some (Some i, r') \<and> in_use_blk r' i \<and>
    blk_buf (blk_set r' ! i) = b \<and> blk_buf (blk_set r' ! i) + blk_size (blk_set r' ! i) = b + n + (sz - n)"
proof -
  have "rbb_at b n (r, [])" using rbb_init_ok [OF assms(1-3), of l] assms(4) by auto
  then have inv: "rbb_inv r [] []" and b: "rbb_buf r = b" by (auto simp: rbb_at_def)
  then have l: "rbb_links r []" by (simp add: rbb_inv_def)
  have "length (blk_set r) = length S" using assms(4) by (auto simp: rt_rbb_init_def)
  then have "find_empty_blk_in_set r \<noteq> None" using find_empty_None [OF l] rbb_linksD(4) [OF l] assms(5) by simp
  then obtain i where i: "find_empty_blk_in_set r = Some i" by auto
  obtain r' where r': "blk_place i b sz r = Some (Some i, r')"
    "blk_set r' = (blk_set r)[i := \<lparr>blk_status = RT_RBB_BLK_INITED, blk_size = sz, blk_buf = b\<rparr>]"
    using blk_place_ok [OF l find_empty_Some(1,2) [OF l i], of b sz] by metis
  have "rt_rbb_blk_alloc sz r = Some (Some i, r')"
    using rbb_alloc_eq [OF inv assms(7)] i r'(1) by (simp add: rbb_slot_def b)
  then show ?thesis using r'(2) find_empty_Some(1) [OF l i] assms(6) by (auto simp: in_use_blk_def)
qed

section \<open>Queues of blocks\<close>

text \<open>The blocks \<open>xs\<close> have been taken.\<close>

definition taken :: "nat list \<Rightarrow> rt_rbb \<Rightarrow> rt_rbb \<Rightarrow> bool" where
  "taken xs r r' \<longleftrightarrow> blk_list r' 0 = None \<and> length (blk_set r') = length (blk_set r) \<and> blk_max_num r' = blk_max_num r \<and>
     rbb_buf r' = rbb_buf r \<and> rbb_buf_size r' = rbb_buf_size r \<and>
     (\<forall>i<length (blk_set r). blk_buf (blk_set r' ! i) = blk_buf (blk_set r ! i) \<and> blk_size (blk_set r' ! i) = blk_size (blk_set r ! i) \<and>
        blk_status (blk_set r' ! i) = (if i \<in> set xs then RT_RBB_BLK_GET else blk_status (blk_set r ! i)))"

lemma queue_take_head:
  assumes "slist (blk_list r) (blk_list r 0) (map Suc (x # xs))" "distinct (x # xs)"
  obtains h where "queue_take x r = Some (set_status x RT_RBB_BLK_GET (r\<lparr>blk_list := h\<rparr>))" "h (Suc x) = h 0"
    "slist h (h 0) (map Suc xs)"
proof -
  have 0: "blk_list r 0 = Some (Suc x)" using assms(1) by simp
  then have "rt_slist_find (blk_list r) 0 (Suc x) = Some 0" by (subst rt_slist_find.simps) simp
  then have m: "rt_slist_remove 0 (Suc x) (blk_list r) = Some ((blk_list r)(0 := blk_list r (Suc x)))"
    using 0 by (simp add: rt_slist_remove_def)
  have "slist ((blk_list r)(0 := blk_list r (Suc x))) (blk_list r (Suc x)) (map Suc xs)"
    using assms(1) by (intro slist_frame) auto
  then show thesis using m by (intro that [of "(blk_list r)(0 := blk_list r (Suc x))"]) (simp_all add: queue_take_def)
qed

lemma taken_step:
  assumes "taken xs (set_status x RT_RBB_BLK_GET (r\<lparr>blk_list := h\<rparr>)) r'" "x < length (blk_set r)"
  shows "taken (x # xs) r r'"
  using assms set_status_status [of x "r\<lparr>blk_list := h\<rparr>" RT_RBB_BLK_GET] by (auto simp: taken_def)

lemma queue_get_rest:
  assumes "slist (blk_list r) (blk_list r 0) (map Suc xs)" "distinct xs" "b < length (blk_set r)" "b \<notin> set xs"
    "\<And>i. i \<in> set xs \<Longrightarrow> i < length (blk_set r) \<and> blk_status (blk_set r ! i) = RT_RBB_BLK_PUT"
    "laid (blk_set r) (blk_buf (blk_set r ! b)) xs hi"
    "len + (\<Sum>i\<leftarrow>xs. blk_size (blk_set r ! i)) \<le> limit" "limit < 2 ^ 32"
  shows "\<exists>q' r'. queue_get_loop limit (blk_list r 0) (Some b) len q r = Some (len + (\<Sum>i\<leftarrow>xs. blk_size (blk_set r ! i)), q', r') \<and>
    taken xs r r'"
  using assms
proof (induction xs arbitrary: r b len q)
  case Nil
  then show ?case by (subst queue_get_loop.simps) (auto simp: taken_def)
next
  case (Cons x xs)
  have x: "x < length (blk_set r)" "blk_status (blk_set r ! x) = RT_RBB_BLK_PUT" using Cons.prems(5) by auto
  obtain h where h: "queue_take x r = Some (set_status x RT_RBB_BLK_GET (r\<lparr>blk_list := h\<rparr>))" "h (Suc x) = h 0"
    "slist h (h 0) (map Suc xs)" by (rule queue_take_head [OF Cons.prems(1,2)])
  let ?r = "set_status x RT_RBB_BLK_GET (r\<lparr>blk_list := h\<rparr>)" and ?len = "len + blk_size (blk_set r ! x)"
  have l: "blk_buf (blk_set r ! b) \<le> blk_buf (blk_set r ! x)" "add32 len (blk_size (blk_set r ! x)) = ?len" "?len \<le> limit"
    using Cons.prems(6-8) by auto
  have sum: "(\<Sum>i\<leftarrow>xs. blk_size (blk_set ?r ! i)) = (\<Sum>i\<leftarrow>xs. blk_size (blk_set r ! i))" by simp
  have "laid (blk_set ?r) (blk_buf (blk_set ?r ! x)) xs hi"
    using laid_tail [OF Cons.prems(6)] laid_cong [of xs "blk_set ?r" "blk_set r"] by simp
  moreover have "i < length (blk_set ?r) \<and> blk_status (blk_set ?r ! i) = RT_RBB_BLK_PUT" if "i \<in> set xs" for i
    using Cons.prems(2,5) that x(1) by (auto simp: set_status_status)
  ultimately obtain q' r' where q: "queue_get_loop limit (blk_list ?r 0) (Some x) ?len (q\<lparr>q_blk_num := add32 (q_blk_num q) 1\<rparr>) ?r
      = Some (?len + (\<Sum>i\<leftarrow>xs. blk_size (blk_set ?r ! i)), q', r')" "taken xs ?r r'"
    using Cons.IH [of ?r x ?len "q\<lparr>q_blk_num := add32 (q_blk_num q) 1\<rparr>"] h(3) Cons.prems(2,7,8) x(1) by auto
  have "queue_get_loop limit (blk_list r 0) (Some b) len q r = queue_get_loop limit (blk_list ?r 0) (Some x) ?len (q\<lparr>q_blk_num := add32 (q_blk_num q) 1\<rparr>) ?r"
    using Cons.prems(1) x l h(1,2) by (subst queue_get_loop.simps) (simp add: not_less)
  then show ?case using q taken_step [OF q(2) x(1)] sum by (auto simp: add.assoc)
qed

lemma queue_get_all:
  assumes inv: "rbb_inv r as []" and as: "as \<noteq> []"
    and put: "\<And>i. i \<in> set as \<Longrightarrow> blk_status (blk_set r ! i) = RT_RBB_BLK_PUT"
    and lim: "(\<Sum>i\<leftarrow>as. blk_size (blk_set r ! i)) \<le> limit" "limit < 2 ^ 32"
  obtains q' r' where "rt_rbb_blk_queue_get limit q r = Some (\<Sum>i\<leftarrow>as. blk_size (blk_set r ! i), q', r')" "taken as r r'"
proof -
  have l: "rbb_links r as" and g: "laid (blk_set r) (rbb_buf r) as (rbb_buf r + rbb_buf_size r)"
    using inv by (auto simp: rbb_inv_def rbb_room_def)
  note L = rbb_linksD [OF l]
  obtain x xs where xs: "as = x # xs" using as by (cases as) auto
  have ix: "j < length (blk_set r)" "blk_status (blk_set r ! j) = RT_RBB_BLK_PUT" if "j \<in> set as" for j
    using L(7) [of j] put that by auto
  obtain h where h: "queue_take x r = Some (set_status x RT_RBB_BLK_GET (r\<lparr>blk_list := h\<rparr>))" "h (Suc x) = h 0"
    "slist h (h 0) (map Suc xs)" using queue_take_head [of r x xs] L(1,3) xs by metis
  let ?r = "set_status x RT_RBB_BLK_GET (r\<lparr>blk_list := h\<rparr>)" and ?len = "blk_size (blk_set r ! x)"
  have "laid (blk_set ?r) (blk_buf (blk_set ?r ! x)) xs (rbb_buf r + rbb_buf_size r)"
    using laid_tail [OF g [unfolded xs]] laid_cong [of xs "blk_set ?r" "blk_set r"] by simp
  moreover have "j < length (blk_set ?r) \<and> blk_status (blk_set ?r ! j) = RT_RBB_BLK_PUT" if "j \<in> set xs" for j
    using L(3) ix [of j] ix(1) [of x] xs that by (auto simp: set_status_status)
  ultimately obtain q' r' where q: "queue_get_loop limit (blk_list ?r 0) (Some x) ?len \<lparr>q_blocks = x, q_blk_num = 1\<rparr> ?r
      = Some (?len + (\<Sum>i\<leftarrow>xs. blk_size (blk_set ?r ! i)), q', r')" "taken xs ?r r'"
    using queue_get_rest [of ?r xs x "rbb_buf r + rbb_buf_size r" ?len limit "\<lparr>q_blocks = x, q_blk_num = 1\<rparr>"] h(3) L(3) ix(1) [of x] lim xs by auto
  have "rt_rbb_blk_queue_get limit q r = queue_get_loop limit (blk_list ?r 0) (Some x) ?len \<lparr>q_blocks = x, q_blk_num = 1\<rparr> ?r"
    using L(1) xs ix [of x] h(1,2) lim unfolding rt_rbb_blk_queue_get_def rt_slist_isempty_def rt_slist_first_def
    by (subst queue_get_loop.simps) simp
  moreover have "taken as r r'" using taken_step [OF q(2)] ix(1) [of x] xs by simp
  ultimately show thesis using q(1) xs by (intro that) auto
qed

text \<open>
  (C26) A queue of blocks is not protected while it is read. Take a ring whose blocks have all been put and lie in one
  run, and get them as a queue: \<^verbatim>\<open>rt_rbb_blk_queue_get\<close> gives their total length and takes them all off the
  list, while \<^verbatim>\<open>rt_rbb_blk_alloc\<close> looks only at the list. The next allocation therefore succeeds, whatever
  its size, and starts at the beginning of the buffer, in the bytes of the block that is still to be read there.
\<close>

theorem rbb_queue_unprotected:
  assumes inv: "rbb_inv r as []" and as: "as \<noteq> []" "blk_buf (blk_set r ! hd as) = rbb_buf r"
    and put: "\<And>i. i \<in> set as \<Longrightarrow> blk_status (blk_set r ! i) = RT_RBB_BLK_PUT"
    and lim: "(\<Sum>i\<leftarrow>as. blk_size (blk_set r ! i)) \<le> limit" "limit < 2 ^ 32"
    and free: "i < length (blk_set r)" "\<not> in_use_blk r i" and sz: "sz < 2 ^ 24"
  shows "\<exists>q' r'. rt_rbb_blk_queue_get limit q r = Some (\<Sum>i\<leftarrow>as. blk_size (blk_set r ! i), q', r') \<and>
    (\<forall>i\<in>set as. blk_status (blk_set r' ! i) = RT_RBB_BLK_GET) \<and>
    (\<exists>k r''. rt_rbb_blk_alloc sz r' = Some (Some k, r'') \<and> k \<notin> set as \<and> blk_size (blk_set r'' ! k) = sz \<and>
       blk_buf (blk_set r'' ! k) = blk_buf (blk_set r'' ! hd as) \<and> blk_status (blk_set r'' ! hd as) = RT_RBB_BLK_GET)"
proof -
  have l: "rbb_links r as" using inv by (simp add: rbb_inv_def)
  note L = rbb_linksD [OF l]
  obtain q' r' where get: "rt_rbb_blk_queue_get limit q r = Some (\<Sum>i\<leftarrow>as. blk_size (blk_set r ! i), q', r')"
    and t: "taken as r r'" by (rule queue_get_all [OF inv as(1) put lim])
  have ix: "j < length (blk_set r)" if "j \<in> set as" for j using L(7) [of j] that by auto
  have got: "blk_status (blk_set r' ! j) = RT_RBB_BLK_GET" if "j \<in> set as" for j
    using t ix [OF that] that by (simp add: taken_def)
  have i: "i < blk_max_num r'" "blk_status (blk_set r' ! i) = RT_RBB_BLK_UNUSED" "i \<notin> set as"
    using t free L(4,7) by (auto simp: taken_def in_use_blk_def)
  have "find_empty_blk_in_set r' \<noteq> None" using i(1,2) by (auto simp: find_empty_blk_in_set_def find_None_iff)
  then obtain k where k: "find_empty_blk_in_set r' = Some k" by auto
  then have kk: "k < length (blk_set r')" "blk_status (blk_set r' ! k) = RT_RBB_BLK_UNUSED"
    using t L(4) by (auto simp: find_empty_blk_in_set_def find_Some_iff taken_def)
  have ka: "k \<notin> set as" using got [of k] kk(2) by auto
  have e: "slist (blk_list r') (blk_list r' 0) (map Suc [])" using t by (simp add: taken_def)
  have len: "rt_slist_len 0 (blk_list r') = Some 0" using rt_slist_len_slist [OF e] by simp
  obtain l' where l': "rt_slist_append 0 (Suc k) (blk_list r') = Some l'"
    using rt_slist_append_slist [OF e, of "Suc k"] by auto
  have alloc: "rt_rbb_blk_alloc sz r' = blk_place k (rbb_buf r') sz r'"
    using k len sz i(1) by (simp add: rt_rbb_blk_alloc_def)
  have hd: "hd as \<in> set as" "hd as < length (blk_set r)" using as(1) ix by simp_all
  then have "blk_buf (blk_set r' ! hd as) = rbb_buf r'" "k \<noteq> hd as" using t as(2) ka by (auto simp: taken_def)
  then show ?thesis using get got alloc l' ka kk(1) got [OF hd(1)] by (auto simp: blk_place_def)
qed

section \<open>On a sample ring\<close>

definition demo_blk :: rt_rbb_blk where
  "demo_blk = \<lparr>blk_status = RT_RBB_BLK_UNUSED, blk_size = 0, blk_buf = 0\<rparr>"

definition demo_ring :: rt_rbb where
  "demo_ring = \<lparr>rbb_buf = 0x20000000, rbb_buf_size = 100, blk_set = replicate 3 demo_blk, blk_max_num = 3, blk_list = (\<lambda>_. None)\<rparr>"

lemma demo_ring_init:
  "(0x20000000 :: nat) \<noteq> 0" "0x20000000 + 100 < (2 ^ 32 :: nat)" "length (replicate 3 demo_blk) < 2 ^ 32"
  "rt_rbb_init 0x20000000 100 (replicate 3 demo_blk) (length (replicate 3 demo_blk)) (\<lambda>_. None) = Some demo_ring"
  by (simp_all add: rt_rbb_init_def demo_ring_def rt_slist_init_def demo_blk_def fun_eq_iff)

theorem rbb_blocks_apart_witness:
  "\<exists>r xs. rbb_run [Alloc_req 60, Alloc_req 30, Put_req 0, Get_req, Free_req 0, Alloc_req 40] (demo_ring, []) = Some (r, xs) \<and>
     (\<forall>i. in_use_blk r i \<longrightarrow> 0x20000000 \<le> blk_buf (blk_set r ! i))"
  using rbb_blocks_apart [OF demo_ring_init] by blast

theorem rbb_get_in_order_witness:
  "\<exists>r xs. rbb_run [Alloc_req 60, Alloc_req 30, Put_req 1, Put_req 0] (demo_ring, []) = Some (r, xs) \<and> distinct xs"
  using rbb_get_in_order [OF demo_ring_init] by blast

theorem rbb_alloc_past_end_witness:
  "\<exists>i r'. rt_rbb_blk_alloc 4096 demo_ring = Some (Some i, r') \<and> blk_buf (blk_set r' ! i) + blk_size (blk_set r' ! i) = 0x20001000"
  using rbb_alloc_past_end [OF demo_ring_init, of 4096] by auto

theorem rbb_queue_unprotected_witness:
  "\<exists>r q' r'. rbb_run [Alloc_req 60, Put_req 0] (demo_ring, []) = Some (r, [0]) \<and>
     rt_rbb_blk_queue_get 100 \<lparr>q_blocks = 0, q_blk_num = 0\<rparr> r = Some (60, q', r') \<and>
     (\<exists>k r''. rt_rbb_blk_alloc 100 r' = Some (Some k, r'') \<and> blk_buf (blk_set r'' ! k) = blk_buf (blk_set r'' ! 0))"
proof -
  have "rbb_at 0x20000000 100 (demo_ring, [])" using rbb_init_ok [OF demo_ring_init(1-3), of "\<lambda>_. None"] demo_ring_init(4) by auto
  from rbb_run_ok [OF this, of "[Alloc_req 60, Put_req 0]"] obtain c
    where c: "rbb_run [Alloc_req 60, Put_req 0] (demo_ring, []) = Some c" "rbb_at 0x20000000 100 c" by blast
  have f: "find_empty_blk_in_set demo_ring = Some 0"
    by (simp add: find_empty_blk_in_set_def demo_ring_def demo_blk_def upt_rec)
  have "rt_slist_append 0 (Suc 0) (\<lambda>_. None) = Some ((\<lambda>_. None)(0 := Some (Suc 0), Suc 0 := None))"
    using rt_slist_tail.simps by (simp add: rt_slist_append_def)
  then have a: "rt_rbb_blk_alloc 60 demo_ring = Some (Some 0, demo_ring\<lparr>blk_list := (\<lambda>_. None)(0 := Some (Suc 0), Suc 0 := None),
      blk_set := (replicate 3 demo_blk)[0 := \<lparr>blk_status = RT_RBB_BLK_INITED, blk_size = 60, blk_buf = 0x20000000\<rparr>]\<rparr>)"
    using rt_slist_len_loop.simps
    by (simp add: rt_rbb_blk_alloc_def f rt_slist_len_def) (simp add: demo_ring_def blk_place_def)
  let ?r = "demo_ring\<lparr>blk_list := (\<lambda>_. None)(0 := Some (Suc 0), Suc 0 := None),
      blk_set := (replicate 3 demo_blk)[0 := \<lparr>blk_status = RT_RBB_BLK_PUT, blk_size = 60, blk_buf = 0x20000000\<rparr>]\<rparr>"
  have run: "rbb_run [Alloc_req 60, Put_req 0] (demo_ring, []) = Some (?r, [0])"
    using a by (simp add: rt_rbb_blk_put_def set_status_def demo_ring_def)
  with c obtain as bs where "as @ bs = [0]" "rbb_inv ?r as bs" by (auto simp: rbb_at_def)
  moreover from this have "as = [0]" "bs = []"
    by (cases as; auto simp: rbb_inv_def rbb_room_def)+
  ultimately have "rbb_inv ?r [0] []" by simp
  from rbb_queue_unprotected [OF this, of 100 1 100 "\<lparr>q_blocks = 0, q_blk_num = 0\<rparr>"]
  have "\<exists>q' r'. rt_rbb_blk_queue_get 100 \<lparr>q_blocks = 0, q_blk_num = 0\<rparr> ?r = Some (60, q', r') \<and>
     (\<exists>k r''. rt_rbb_blk_alloc 100 r' = Some (Some k, r'') \<and> blk_buf (blk_set r'' ! k) = blk_buf (blk_set r'' ! 0))"
    by (simp add: demo_ring_def in_use_blk_def demo_blk_def) blast
  with run show ?thesis by blast
qed

end
