(* ===== verification/WorkQueue.thy ===== *)
theory WorkQueue
  imports Sem ThreadOps Sample
begin

text \<open>
  Work queues (\<^verbatim>\<open>components/drivers/src/workqueue.c\<close>): a list of works, a thread that does them one after the
  other, and a semaphore on which those wait who cancel the work that is being done. A work is a number; what its
  function does is the parameter \<open>work_func\<close>. The queue is kept beside the kernel state. The thread's
  loop is cut where other threads can come between its steps: the test of the list, the suspension, the removal of a
  work, the work itself, and its end.
\<close>

section \<open>The code\<close>

record rt_workqueue =
  work_list :: "nat list"
  work_current :: "nat option"
  wq_sem :: nat
  work_thread :: tid

type_synonym with_queue = "kernel \<times> rt_workqueue"

partial_function (option) work_completion_loop :: "nat \<Rightarrow> kernel \<Rightarrow> (rt_err \<times> kernel) option" where
  "work_completion_loop sem s =
     do { (r, s) \<leftarrow> rt_sem_trytake sem s;
          case r of
            Pending \<Rightarrow> None
          | Return result \<Rightarrow>
              if result = - RT_ETIMEOUT
              then do { (_, s) \<leftarrow> rt_sem_release sem s; work_completion_loop sem s }
              else if result = RT_EOK then Some (RT_EOK, s)
              else Some (- RT_ERROR, s) }"

definition workqueue_work_completion :: "nat \<Rightarrow> kernel \<Rightarrow> (rt_err \<times> kernel) option" where
  "workqueue_work_completion sem s =
     do { (result, s) \<leftarrow> work_completion_loop sem (rt_enter_critical s);
          s \<leftarrow> rt_exit_critical s;
          Some (result, s) }"

text \<open>\<^verbatim>\<open>_workqueue_thread_entry\<close>, step by step.\<close>

definition worker_idle :: "rt_workqueue \<Rightarrow> bool" where
  "worker_idle g \<longleftrightarrow> work_list g = []"

definition worker_sleep :: "with_queue \<Rightarrow> with_queue option" where
  "worker_sleep c =
     (let (s, g) = c in
      do { t \<leftarrow> rt_thread_self s;
           (_, s) \<leftarrow> rt_thread_suspend t s;
           s \<leftarrow> rt_schedule s;
           Some (s, g) })"

text \<open>The first work is taken off; behind an empty list there is only its head.\<close>

definition worker_pick :: "with_queue \<Rightarrow> (nat \<times> with_queue) option" where
  "worker_pick c =
     (let (s, g) = c in
      case work_list g of
        [] \<Rightarrow> None
      | work # ws \<Rightarrow> Some (work, s, g\<lparr>work_list := removeAll work (work # ws), work_current := Some work\<rparr>))"

definition worker_done :: "with_queue \<Rightarrow> with_queue option" where
  "worker_done c =
     (let (s, g) = c in
      do { let g = g\<lparr>work_current := None\<rparr>;
           (_, s) \<leftarrow> workqueue_work_completion (wq_sem g) s;
           Some (s, g) })"

definition worker_round :: "(nat \<Rightarrow> with_queue \<Rightarrow> with_queue option) \<Rightarrow> with_queue \<Rightarrow> with_queue option" where
  "worker_round work_func c =
     do { (work, c) \<leftarrow> worker_pick c;
          c \<leftarrow> work_func work c;
          worker_done c }"

text \<open>
  What \<^verbatim>\<open>RT_KERNEL_MALLOC\<close> returned for the queue, the thread and its stack; the semaphore of a queue is
  named by its address.
\<close>

definition rt_workqueue_create ::
    "cbuf \<Rightarrow> u16 \<Rightarrow> u8 \<Rightarrow> u32 \<Rightarrow> u32 \<Rightarrow> nat option \<Rightarrow> tid option \<Rightarrow> u32 \<Rightarrow> kernel \<Rightarrow> (rt_workqueue option \<times> kernel) option" where
  "rt_workqueue_create name sz priority entry_addr texit queue mem stack s =
     (case queue of
        None \<Rightarrow> Some (None, s)
      | Some q \<Rightarrow>
          do { (_, s) \<leftarrow> rt_sem_init q [0x77, 0x71, 0x75, 0x65, 0x75, 0x65, 0] 0 RT_IPC_FLAG_FIFO s;
               (r, s) \<leftarrow> rt_thread_create name entry_addr (of_nat q) (ucast sz) priority 10 texit mem stack s;
               case r of
                 None \<Rightarrow> Some (None, s)
               | Some t \<Rightarrow>
                   do { (_, s) \<leftarrow> rt_thread_startup t s;
                        Some (Some \<lparr>work_list = [], work_current = None, wq_sem = q, work_thread = t\<rparr>, s) } })"

text \<open>The queue's memory is given back behind this.\<close>

definition rt_workqueue_destroy :: "with_queue \<Rightarrow> (rt_err \<times> kernel) option" where
  "rt_workqueue_destroy c =
     (let (s, g) = c in
      do { (_, s) \<leftarrow> rt_thread_delete (work_thread g) s;
           Some (RT_EOK, s) })"

definition rt_workqueue_dowork :: "nat \<Rightarrow> with_queue \<Rightarrow> (rt_err \<times> with_queue) option" where
  "rt_workqueue_dowork work c =
     (let (s, g) = c in
      if work_current g = Some work then Some (- RT_EBUSY, s, g)
      else let g = g\<lparr>work_list := removeAll work (work_list g) @ [work]\<rparr> in
        if work_current g = None
        then do { (_, s) \<leftarrow> rt_thread_resume (work_thread g) s;
                  s \<leftarrow> rt_schedule s;
                  Some (RT_EOK, s, g) }
        else Some (RT_EOK, s, g))"

definition rt_workqueue_critical_work :: "nat \<Rightarrow> with_queue \<Rightarrow> (rt_err \<times> with_queue) option" where
  "rt_workqueue_critical_work work c =
     (let (s, g) = c in
      if work_current g = Some work then Some (- RT_EBUSY, s, g)
      else let g = g\<lparr>work_list := removeAll work (work_list g) @ [work]\<rparr> in
        if work_current g = None
        then do { (_, s) \<leftarrow> rt_thread_resume (work_thread g) s;
                  s \<leftarrow> rt_schedule s;
                  Some (RT_EOK, s, g) }
        else Some (RT_EOK, s, g))"

definition rt_workqueue_cancel_work :: "nat \<Rightarrow> with_queue \<Rightarrow> (rt_err \<times> with_queue) option" where
  "rt_workqueue_cancel_work work c =
     (let (s, g) = c in
      if work_current g = Some work then Some (- RT_EBUSY, s, g)
      else Some (RT_EOK, s, g\<lparr>work_list := removeAll work (work_list g)\<rparr>))"

text \<open>The result of \<^verbatim>\<open>rt_sem_take\<close> is not looked at; a \<open>Pending\<close> call returns \<^verbatim>\<open>RT_EOK\<close> when the thread runs again.\<close>

definition rt_workqueue_cancel_work_sync :: "nat \<Rightarrow> with_queue \<Rightarrow> (rt_err outcome \<times> with_queue) option" where
  "rt_workqueue_cancel_work_sync work c =
     (let (s, g) = c in
      if work_current g = Some work
      then do { (r, s) \<leftarrow> rt_sem_take (wq_sem g) (- 1) s;
                Some (case r of Return _ \<Rightarrow> Return RT_EOK | Pending \<Rightarrow> Pending, s, g) }
      else Some (Return RT_EOK, s, g\<lparr>work_list := removeAll work (work_list g)\<rparr>))"

definition rt_workqueue_cancel_all_work :: "with_queue \<Rightarrow> (rt_err \<times> with_queue) option" where
  "rt_workqueue_cancel_all_work c =
     (let (s, g) = c in
      do { let g = g\<lparr>work_list := fold removeAll (work_list g) (work_list g)\<rparr>;
           s \<leftarrow> rt_exit_critical (rt_enter_critical s);
           Some (RT_EOK, s, g) })"

section \<open>The end of a work\<close>

lemma sem_trytake_eq:
  assumes "sem_ok s sem" "sem_abs s sem = Some (n, q)"
  shows "rt_sem_trytake sem s = (if n = 0 then Some (Return (- RT_ETIMEOUT), s)
    else Some (Return RT_EOK, s\<lparr>sems := (sems s)(sem := map_option (\<lambda>v. v\<lparr>sem_value := sem_value v - 1\<rparr>) (sems s sem))\<rparr>))"
proof -
  obtain v where v: "sems s sem = Some v" "check_type s (OSem sem) RT_Object_Class_Semaphore = Some ()"
    using assms(1) by (rule sem_okE)
  then have "n = unat (sem_value v)" using assms(2) by (simp add: sem_abs_def)
  then show ?thesis using v by (auto simp: rt_sem_trytake_def rt_sem_take_def unat_eq_0 word_greater_zero_iff simp del: check_type_iff)
qed

lemma sem_took:
  assumes "sem_ok s sem" "sem_abs s sem = Some (Suc n, q)"
  shows "sem_ok (s\<lparr>sems := (sems s)(sem := map_option (\<lambda>v. v\<lparr>sem_value := sem_value v - 1\<rparr>) (sems s sem))\<rparr>) sem"
    and "sem_abs (s\<lparr>sems := (sems s)(sem := map_option (\<lambda>v. v\<lparr>sem_value := sem_value v - 1\<rparr>) (sems s sem))\<rparr>) sem = Some (n, [])"
proof -
  obtain v where v: "sems s sem = Some v" "tlists s (SuspendQ (OSem sem)) \<noteq> [] \<longrightarrow> sem_value v = 0"
    using assms(1) by (rule sem_okE)
  then have "unat (sem_value v) = Suc n" using assms(2) by (simp add: sem_abs_def)
  moreover from this have "sem_value v \<noteq> 0" by auto
  ultimately have "unat (sem_value v - 1) = n" "tlists s (SuspendQ (OSem sem)) = []" using v(2) by (auto simp: unat_minus_one)
  then show "sem_ok (s\<lparr>sems := (sems s)(sem := map_option (\<lambda>v. v\<lparr>sem_value := sem_value v - 1\<rparr>) (sems s sem))\<rparr>) sem"
    "sem_abs (s\<lparr>sems := (sems s)(sem := map_option (\<lambda>v. v\<lparr>sem_value := sem_value v - 1\<rparr>) (sems s sem))\<rparr>) sem = Some (n, [])"
    using assms(1) v by (auto simp: sem_ok_def sem_abs_def)
qed

text \<open>The threads \<open>q\<close> made ready.\<close>

definition all_ready :: "tid list \<Rightarrow> (tid \<Rightarrow> rt_thread option) \<Rightarrow> tid \<Rightarrow> rt_thread option" where
  "all_ready q th = (\<lambda>u. if u \<in> set q then map_option (set_stat RT_THREAD_READY) (th u) else th u)"

lemma sem_released:
  assumes "kernel_wf s" "sem_ok s sem" "sem_abs s sem = Some a" "runnable s"
  shows "\<exists>s'. rt_sem_release sem s = Some (RT_EOK, s') \<and> kernel_wf s' \<and> runnable s' \<and> sem_ok s' sem \<and>
    sem_abs s' sem = Some (sem_post a) \<and>
    threads s' = (case snd a of [] \<Rightarrow> threads s | t # _ \<Rightarrow> (threads s)(t := map_option (set_stat RT_THREAD_READY) (threads s t)))"
  by (rule rt_sem_release_posts [OF assms]) blast

lemma completion_loop_take:
  assumes "sem_ok s sem" "sem_abs s sem = Some (Suc n, q)" "kernel_wf s" "runnable s"
  shows "\<exists>s'. work_completion_loop sem s = Some (RT_EOK, s') \<and> kernel_wf s' \<and> runnable s' \<and> sem_ok s' sem \<and>
    sem_abs s' sem = Some (n, []) \<and> threads s' = threads s"
proof -
  let ?s = "s\<lparr>sems := (sems s)(sem := map_option (\<lambda>v. v\<lparr>sem_value := sem_value v - 1\<rparr>) (sems s sem))\<rparr>"
  have "work_completion_loop sem s = Some (RT_EOK, ?s)"
    using sem_trytake_eq [OF assms(1,2)] by (subst work_completion_loop.simps) simp
  moreover have "runnable ?s" using assms(4) runnable_cong [of ?s s] by simp
  ultimately show ?thesis using sem_took [OF assms(1,2)] assms(3) by (intro exI [of _ ?s]) simp
qed

lemma completion_loop_ends:
  assumes "kernel_wf s" "runnable s" "sem_ok s sem" "sem_abs s sem = Some (n, q)"
  shows "\<exists>s'. work_completion_loop sem s = Some (RT_EOK, s') \<and> kernel_wf s' \<and> runnable s' \<and> sem_ok s' sem \<and>
    sem_abs s' sem = Some (n - 1, []) \<and> threads s' = all_ready q (threads s)"
  using assms
proof (induction q arbitrary: s n)
  case Nil
  show ?case
  proof (cases n)
    case (Suc m)
    with completion_loop_take [OF Nil(3) _ Nil(1,2)] Nil(4) show ?thesis by (auto simp: all_ready_def)
  next
    case 0
    obtain s1 where s1: "rt_sem_release sem s = Some (RT_EOK, s1)" "kernel_wf s1" "runnable s1" "sem_ok s1 sem"
      "sem_abs s1 sem = Some (sem_post (0, []))" "threads s1 = threads s"
      using sem_released [OF Nil(1,3) _ Nil(2), of "(0, [])"] Nil(4) 0 by auto
    have "work_completion_loop sem s = work_completion_loop sem s1"
      using sem_trytake_eq [OF Nil(3,4)] 0 s1(1) by (subst work_completion_loop.simps) simp
    moreover have "sem_abs s1 sem = Some (Suc 0, [])" using s1(5) by simp
    ultimately show ?thesis using completion_loop_take [OF s1(4) _ s1(2,3)] s1(6) 0 by (auto simp: all_ready_def)
  qed
next
  case (Cons t q)
  have n: "n = 0" using Cons.prems(3,4) by (auto simp: sem_ok_def sem_abs_def)
  obtain s1 where s1: "rt_sem_release sem s = Some (RT_EOK, s1)" "kernel_wf s1" "runnable s1" "sem_ok s1 sem"
    "sem_abs s1 sem = Some (0, q)" "threads s1 = (threads s)(t := map_option (set_stat RT_THREAD_READY) (threads s t))"
    using sem_released [OF Cons.prems(1,3) _ Cons.prems(2), of "(0, t # q)"] Cons.prems(4) n by auto
  have "work_completion_loop sem s = work_completion_loop sem s1"
    using sem_trytake_eq [OF Cons.prems(3,4)] n s1(1) by (subst work_completion_loop.simps) simp
  moreover have "tlists s (SuspendQ (OSem sem)) = t # q" using Cons.prems(4) by (auto simp: sem_abs_def)
  then have "t \<notin> set q"
    using lists_wf_distinct [OF sched_wf_lists [OF kernel_wfD(1) [OF Cons.prems(1)]], of "SuspendQ (OSem sem)"] by simp
  then have "all_ready q (threads s1) = all_ready (t # q) (threads s)" by (auto simp: all_ready_def s1(6) fun_eq_iff)
  ultimately show ?case using Cons.IH [OF s1(2-5)] n by simp
qed

lemma critical_wf:
  "kernel_wf (s\<lparr>rt_scheduler_lock_nest := n\<rparr>) = kernel_wf s" "runnable (s\<lparr>rt_scheduler_lock_nest := n\<rparr>) = runnable s"
  "sem_ok (s\<lparr>rt_scheduler_lock_nest := n\<rparr>) sem = sem_ok s sem" "sem_abs (s\<lparr>rt_scheduler_lock_nest := n\<rparr>) sem = sem_abs s sem"
  by (auto elim: kernel_wf_view simp: runnable_def stacks_ok_def sem_ok_def sem_abs_def)

lemma exit_critical_ends:
  assumes "kernel_wf s" "runnable s"
  obtains s' where "rt_exit_critical s = Some s'" "kernel_wf s'" "runnable s'" "threads s' = threads s" "sems s' = sems s"
    "tlists s' = tlists s" "objects s' = objects s"
proof (cases "sint (rt_scheduler_lock_nest s - 1) \<le> 0")
  case True
  let ?u = "s\<lparr>rt_scheduler_lock_nest := 0\<rparr>"
  have "kernel_wf ?u" "runnable ?u" using assms by (simp_all add: critical_wf)
  from schedule_ends [OF this] obtain s' where s': "rt_schedule ?u = Some s'" "kernel_wf s'" "same_rest ?u s'"
    "threads s' = threads ?u" "tlists s' = tlists ?u" "runnable s'" by metis
  have "rt_exit_critical s = Some s'" using s'(1) True by (simp add: rt_exit_critical_def Let_def)
  with s' same_restD(1) [OF s'(3)] rt_schedule_core(5) [OF s'(1)] show thesis by (intro that [of s']) auto
next
  case False
  then have "rt_exit_critical s = Some (s\<lparr>rt_scheduler_lock_nest := rt_scheduler_lock_nest s - 1\<rparr>)"
    by (simp add: rt_exit_critical_def Let_def)
  with assms show thesis
    by (intro that [of "s\<lparr>rt_scheduler_lock_nest := rt_scheduler_lock_nest s - 1\<rparr>"]) (simp_all add: critical_wf)
qed

text \<open>
  (C27) The end of a work lets everybody go who waits for it: \<^verbatim>\<open>_workqueue_work_completion\<close> takes and releases
  the semaphore of the queue in a loop, and the loop ends. However many threads wait, each of them is ready
  afterwards, none waits any more, and the count is back at zero (or one lower than it was when nobody waited).
\<close>

theorem work_completion_wakes_all:
  assumes wf: "kernel_wf s" and run: "runnable s" and ok: "sem_ok s sem" and a: "sem_abs s sem = Some (n, q)"
  shows "\<exists>s'. workqueue_work_completion sem s = Some (RT_EOK, s') \<and> kernel_wf s' \<and> sem_ok s' sem \<and>
    sem_abs s' sem = Some (n - 1, []) \<and>
    threads s' = (\<lambda>u. if u \<in> set q then map_option (set_stat RT_THREAD_READY) (threads s u) else threads s u)"
proof -
  let ?s = "rt_enter_critical s"
  have e: "kernel_wf ?s" "runnable ?s" "sem_ok ?s sem" "sem_abs ?s sem = Some (n, q)" "threads ?s = threads s"
    using assms by (simp_all add: rt_enter_critical_def critical_wf)
  obtain s1 where s1: "work_completion_loop sem ?s = Some (RT_EOK, s1)" "kernel_wf s1" "runnable s1" "sem_ok s1 sem"
    "sem_abs s1 sem = Some (n - 1, [])" "threads s1 = all_ready q (threads s)"
    using completion_loop_ends [OF e(1-4)] e(5) by auto
  obtain s' where s': "rt_exit_critical s1 = Some s'" "kernel_wf s'" "threads s' = threads s1" "sems s' = sems s1"
    "tlists s' = tlists s1" "objects s' = objects s1" using exit_critical_ends [OF s1(2,3)] by metis
  have "sem_ok s' sem" "sem_abs s' sem = Some (n - 1, [])" using s1(4,5) s'(4-6) by (simp_all add: sem_ok_def sem_abs_def)
  then show ?thesis using s1(1,6) s'(1-3) by (simp add: workqueue_work_completion_def all_ready_def)
qed

section \<open>Queueing and cancelling\<close>

text \<open>A sleeping worker.\<close>

definition worker_at :: "u8 \<Rightarrow> with_queue \<Rightarrow> bool" where
  "worker_at st c \<longleftrightarrow> (\<exists>th. threads (fst c) (work_thread (snd c)) = Some th \<and> stat_of th = st)"

lemma dowork_wakes:
  assumes wf: "kernel_wf s" and run: "runnable s" and st: "worker_at RT_THREAD_SUSPEND (s, g)" and g: "work_current g = None"
  shows "\<exists>s'. rt_workqueue_dowork w (s, g) = Some (RT_EOK, s', g\<lparr>work_list := removeAll w (work_list g) @ [w]\<rparr>) \<and>
    kernel_wf s' \<and> worker_at RT_THREAD_READY (s', g) \<and> (rt_scheduler_lock_nest s = 0 \<longrightarrow> runs_highest s')"
proof -
  let ?t = "work_thread g"
  obtain th where th: "threads s ?t = Some th" "stat_of th = RT_THREAD_SUSPEND" using st by (auto simp: worker_at_def)
  note r = rt_thread_resume_woken [OF wf th]
  have "runnable (woken ?t th s)" using runnable_woken [OF th] run by (simp add: runnable_def)
  from schedule_ends [OF r(2) this] obtain s' where s': "rt_schedule (woken ?t th s) = Some s'" "kernel_wf s'"
    "same_rest (woken ?t th s) s'" "threads s' = threads (woken ?t th s)"
    "rt_scheduler_lock_nest (woken ?t th s) = 0 \<longrightarrow> runs_highest s'" by metis
  have "rt_scheduler_lock_nest (woken ?t th s) = rt_scheduler_lock_nest s" using same_restD(9) [OF same_rest_woken] by simp
  then show ?thesis using r(1) s' g by (simp add: rt_workqueue_dowork_def worker_at_def)
qed

text \<open>
  Cancelling can send the worker astray. Let the worker sleep on an empty list. A thread queues a work, which makes
  the worker ready, and cancels it before the worker runs: both calls succeed, the list is empty again, and the
  worker, which does not look at the list a second time when it is resumed, takes the list's head for a work.
\<close>

theorem cancel_strands_worker:
  assumes "kernel_wf s" "runnable s" "worker_at RT_THREAD_SUSPEND (s, g)" "work_current g = None" "work_list g = []"
  shows "\<exists>s' g'. rt_workqueue_dowork w (s, g) = Some (RT_EOK, s', g') \<and> worker_at RT_THREAD_READY (s', g') \<and>
    rt_workqueue_cancel_work w (s', g') = Some (RT_EOK, s', g) \<and> worker_at RT_THREAD_READY (s', g) \<and>
    worker_pick (s', g) = None"
proof -
  let ?g = "g\<lparr>work_list := [w]\<rparr>"
  obtain s' where s': "rt_workqueue_dowork w (s, g) = Some (RT_EOK, s', ?g)" "worker_at RT_THREAD_READY (s', g)"
    using dowork_wakes [OF assms(1-4), of w] assms(5) by auto
  have "worker_at RT_THREAD_READY (s', ?g)" using s'(2) by (simp add: worker_at_def)
  moreover have "rt_workqueue_cancel_work w (s', ?g) = Some (RT_EOK, s', g)"
    using assms(4,5) by (simp add: rt_workqueue_cancel_work_def)
  moreover have "worker_pick (s', g) = None" using assms(5) by (simp add: worker_pick_def)
  ultimately show ?thesis using s' by blast
qed

text \<open>
  A work can be left lying. The worker tests its list with interrupts enabled: let it find the list empty, and let
  a work be queued before it suspends itself. It is still ready, so \<^verbatim>\<open>rt_workqueue_dowork\<close> has nobody to
  wake and returns \<^verbatim>\<open>RT_EOK\<close>; when the worker goes on it suspends itself, with the work on the list, until somebody
  queues another one.
\<close>

theorem dowork_wakeup_lost:
  assumes wf: "kernel_wf s" and run: "runnable_without (work_thread g) s" and st: "worker_at RT_THREAD_READY (s, g)"
    and g: "work_current g = None" "worker_idle g"
  shows "\<exists>s' g'. rt_workqueue_dowork w (s, g) = Some (RT_EOK, s', g') \<and> kernel_wf s' \<and> work_list g' = [w] \<and>
    (\<forall>u. rt_current_thread u = Some (work_thread g) \<and> kernel_wf u \<and> threads u = threads s' \<longrightarrow>
      (\<exists>s''. worker_sleep (u, g') = Some (s'', g') \<and> kernel_wf s'' \<and> worker_at RT_THREAD_SUSPEND (s'', g')))"
proof -
  let ?t = "work_thread g" and ?g = "g\<lparr>work_list := [w]\<rparr>"
  obtain th where th: "threads s ?t = Some th" "stat_of th = RT_THREAD_READY" using st by (auto simp: worker_at_def)
  have r: "rt_thread_resume ?t s = Some (- RT_ERROR, s)" using rt_thread_resume_eq [OF wf th(1)] th(2) by simp
  have rs: "runnable s" using run by (auto simp: runnable_def runnable_without_def)
  obtain s' where s': "rt_schedule s = Some s'" "kernel_wf s'" "threads s' = threads s"
    using schedule_ends [OF wf rs] by metis
  have d: "rt_workqueue_dowork w (s, g) = Some (RT_EOK, s', ?g)"
    using g r s'(1) by (simp add: rt_workqueue_dowork_def worker_idle_def)
  have "\<exists>s''. worker_sleep (u, ?g) = Some (s'', ?g) \<and> kernel_wf s'' \<and> worker_at RT_THREAD_SUSPEND (s'', ?g)"
    if u: "rt_current_thread u = Some ?t" "kernel_wf u" "threads u = threads s'" for u
  proof -
    have ut: "threads u ?t = Some th" using u(3) s'(3) th(1) by simp
    have "runnable_without ?t u" using run u(3) s'(3) by (simp add: runnable_without_def stacks_ok_def)
    then have "runnable (suspended ?t th u)" using runnable_suspended ut th(2) by blast
    from schedule_ends [OF suspended_wf [OF u(2) ut th(2)] this] obtain s'' where s'':
      "rt_schedule (suspended ?t th u) = Some s''" "kernel_wf s''" "threads s'' = threads (suspended ?t th u)" by metis
    have "rt_thread_suspend ?t u = Some (RT_EOK, suspended ?t th u)"
      using rt_thread_suspend_eq [OF u(2) ut] th(2) by simp
    then show ?thesis using u(1) s'' by (simp add: worker_sleep_def rt_thread_self_def worker_at_def)
  qed
  with d s'(2) show ?thesis by (intro exI [of _ s'] exI [of _ ?g]) simp
qed

section \<open>On the sample state\<close>

definition demo_wq :: rt_workqueue where
  "demo_wq = \<lparr>work_list = [], work_current = None, wq_sem = 0, work_thread = 2\<rparr>"

lemma demo_wq_asleep: "worker_at RT_THREAD_SUSPEND (demo, demo_wq)"
  by (simp add: worker_at_def demo_wq_def)

theorem work_completion_wakes_all_witness:
  "\<exists>s'. workqueue_work_completion 0 demo = Some (RT_EOK, s') \<and> sem_abs s' 0 = Some (0, []) \<and>
     threads s' 2 = Some (set_stat RT_THREAD_READY (demo_thread 5 RT_THREAD_SUSPEND))"
proof -
  have "sem_abs demo 0 = Some (0, [2])" by (simp add: sem_abs_def)
  from work_completion_wakes_all [OF demo_wf demo_runnable(1) demo_sem_ok(1) this] show ?thesis by auto
qed

theorem cancel_strands_worker_witness:
  "\<exists>s' g'. rt_workqueue_dowork 7 (demo, demo_wq) = Some (RT_EOK, s', g') \<and>
     rt_workqueue_cancel_work 7 (s', g') = Some (RT_EOK, s', demo_wq) \<and> worker_pick (s', demo_wq) = None"
  using cancel_strands_worker [OF demo_wf demo_runnable(1) demo_wq_asleep, of 7] by (auto simp: demo_wq_def)

theorem dowork_wakeup_lost_witness:
  "\<exists>s' g'. rt_workqueue_dowork 7 (demo, demo_wq\<lparr>work_thread := 1\<rparr>) = Some (RT_EOK, s', g') \<and> work_list g' = [7]"
proof -
  let ?g = "demo_wq\<lparr>work_thread := 1\<rparr>"
  have "runnable_without (work_thread ?g) demo" "worker_at RT_THREAD_READY (demo, ?g)" "work_current ?g = None" "worker_idle ?g"
    using demo_runnable(2) by (simp_all add: worker_at_def demo_wq_def worker_idle_def)
  from dowork_wakeup_lost [OF demo_wf this, of 7] show ?thesis by blast
qed

end
