(* ===== verification/Printf.thy ===== *)
theory Printf
  imports Kservice
begin

text \<open>
  Formatted output (\<^verbatim>\<open>rt_vsnprintf\<close> and its helpers, \<^verbatim>\<open>src/kservice.c\<close>), as the file
  is built: with \<^verbatim>\<open>RT_PRINTF_PRECISION\<close>, without \<^verbatim>\<open>RT_PRINTF_SPECIAL\<close> and
  \<^verbatim>\<open>RT_PRINTF_LONGLONG\<close>. An \<^verbatim>\<open>int\<close>, a \<^verbatim>\<open>long\<close> and a pointer are words of
  32 bits whose arithmetic wraps; the comparisons of the code read them as signed numbers. The format and the
  strings are buffers of their own; the output goes to memory.
\<close>

section \<open>The code\<close>

abbreviation (input) ZEROPAD :: u8 where "ZEROPAD \<equiv> 1"
abbreviation (input) SIGN :: u8 where "SIGN \<equiv> 2"
abbreviation (input) PLUS :: u8 where "PLUS \<equiv> 4"
abbreviation (input) SPACE :: u8 where "SPACE \<equiv> 8"
abbreviation (input) LEFT :: u8 where "LEFT \<equiv> 16"
abbreviation (input) SPECIAL :: u8 where "SPECIAL \<equiv> 32"
abbreviation (input) LARGE :: u8 where "LARGE \<equiv> 64"

text \<open>The output: where the next character goes, and the memory.\<close>

record fout =
  out_str :: u32
  out_mem :: memory

text \<open>\<^verbatim>\<open>if (str <= end) *str = c; ++ str;\<close>\<close>

definition put :: "u32 \<Rightarrow> u8 \<Rightarrow> fout \<Rightarrow> fout" where
  "put e c f =
     \<lparr>out_str = out_str f + 1,
      out_mem = (if out_str f \<le> e then (out_mem f)(unat (out_str f) := c) else out_mem f)\<rparr>"

definition is_digit :: "u8 \<Rightarrow> bool" where
  "is_digit c \<longleftrightarrow> (ucast c - 48 :: u32) < 10"

definition divide :: "u32 \<Rightarrow> u8 \<Rightarrow> u32 \<times> u32" where
  "divide n base = (if base = 10 then (n mod 10, n div 10) else (n mod 16, n div 16))"

fun skip_atoi :: "u32 \<Rightarrow> cbuf \<Rightarrow> (u32 \<times> cbuf) option" where
  "skip_atoi i [] = None"
| "skip_atoi i (c # s) = (if is_digit c then skip_atoi (i * 10 + ucast c - 48) s else Some (i, c # s))"

definition small_digits :: cbuf where
  "small_digits = [48, 49, 50, 51, 52, 53, 54, 55, 56, 57, 97, 98, 99, 100, 101, 102]"

definition large_digits :: cbuf where
  "large_digits = [48, 49, 50, 51, 52, 53, 54, 55, 56, 57, 65, 66, 67, 68, 69, 70]"

text \<open>The digits in \<^verbatim>\<open>tmp\<close>, the last one first.\<close>

function number_digits :: "cbuf \<Rightarrow> u8 \<Rightarrow> u32 \<Rightarrow> cbuf" where
  "number_digits digits base num =
     (if num = 0 then []
      else let (res, num) = divide num base in digits ! unat res # number_digits digits base num)"
  by pat_completeness auto

lemma divide_less: "divide n b = (r, m) \<Longrightarrow> n \<noteq> 0 \<Longrightarrow> m < n"
  by (auto simp: divide_def word_less_nat_alt unat_div unat_gt_0 split: if_splits)

termination number_digits
  by (relation "measure (\<lambda>(_, _, n). unat n)") (auto dest!: divide_less [OF sym] simp: word_less_nat_alt)

declare number_digits.simps [simp del]

text \<open>The loops \<^verbatim>\<open>while (lo < n--)\<close>, which write one character a round; \<^verbatim>\<open>size-- > 0\<close> is the case 0.\<close>

lemma sint_dec: "- (2 ^ 31) < sint n \<Longrightarrow> sint (n - 1 :: u32) = sint n - 1"
  using sint_range_size [of n] by (simp add: sint_word_ariths signed_take_bit_int_eq_self_iff word_size)

lemma sless_dec:
  fixes m n :: u32
  shows "m <s n \<Longrightarrow> sint (n - 1) = sint n - 1"
  using sint_range_size [of m] by (intro sint_dec) (simp add: word_sless_alt word_size)

function pad_loop :: "u32 \<Rightarrow> u8 \<Rightarrow> u32 \<Rightarrow> u32 \<Rightarrow> fout \<Rightarrow> u32 \<times> fout" where
  "pad_loop e c lo n f = (if lo <s n then pad_loop e c lo (n - 1) (put e c f) else (n - 1, f))"
  by pat_completeness auto

termination pad_loop
  by (relation "measure (\<lambda>(_, _, lo, n, _). nat (sint n - sint lo))")
    (auto simp: sless_dec, simp add: word_sless_alt)

declare pad_loop.simps [simp del]

text \<open>\<^verbatim>\<open>while (--field_width > 0)\<close>\<close>

function width_loop :: "u32 \<Rightarrow> u32 \<Rightarrow> fout \<Rightarrow> u32 \<times> fout" where
  "width_loop e w f = (if 0 <s w - 1 then width_loop e (w - 1) (put e 32 f) else (w - 1, f))"
  by pat_completeness auto

termination width_loop
proof (relation "measure (\<lambda>(_, w, _). nat (sint (w - 1)))")
  fix e w :: u32 and f
  assume "0 <s w - 1"
  with sless_dec [OF this] show "((e, w - 1, put e 32 f), e, w, f) \<in> measure (\<lambda>(_, w, _). nat (sint (w - 1)))"
    by (simp add: word_sless_alt)
qed simp

declare width_loop.simps [simp del]

text \<open>The sign to print and the number without it; \<^verbatim>\<open>-num\<close> of the least number is that number.\<close>

definition number_sign :: "u8 \<Rightarrow> u32 \<Rightarrow> u8 \<times> u32" where
  "number_sign ty num =
     (if ty AND SIGN = 0 then (0, num)
      else if num <s 0 then (45, - num)
      else if ty AND PLUS \<noteq> 0 then (43, num)
      else if ty AND SPACE \<noteq> 0 then (32, num)
      else (0, num))"

text \<open>The part of \<^verbatim>\<open>print_number\<close> that writes: the loops, in their order.\<close>

definition number_out :: "u32 \<Rightarrow> u8 \<Rightarrow> u8 \<Rightarrow> u8 \<Rightarrow> cbuf \<Rightarrow> u32 \<Rightarrow> u32 \<Rightarrow> fout \<Rightarrow> fout" where
  "number_out e ty c sign tmp precision sz f =
     (let (sz, f) = (if ty AND (ZEROPAD OR LEFT) = 0 then pad_loop e 32 0 (if sign \<noteq> 0 \<and> 0 <s sz then sz - 1 else sz) f
                     else (sz, f));
          (sz, f) = (if sign \<noteq> 0 then (if out_str f \<le> e then sz - 1 else sz, put e sign f) else (sz, f));
          (sz, f) = (if ty AND LEFT = 0 then pad_loop e c 0 sz f else (sz, f));
          (precision, f) = pad_loop e 48 (word_of_nat (length tmp)) precision f;
          f = fold (put e) (rev tmp) f;
          (sz, f) = pad_loop e 32 0 sz f
      in f)"

definition print_number :: "u32 \<Rightarrow> u32 \<Rightarrow> u8 \<Rightarrow> u32 \<Rightarrow> u32 \<Rightarrow> u8 \<Rightarrow> fout \<Rightarrow> fout" where
  "print_number e num base s precision ty f =
     (let digits = (if ty AND LARGE \<noteq> 0 then large_digits else small_digits);
          ty = (if ty AND LEFT \<noteq> 0 then ty AND NOT ZEROPAD else ty);
          c = (if ty AND ZEROPAD \<noteq> 0 then 48 else 32);
          (sign, num) = number_sign ty num;
          tmp = (if num = 0 then [48] else number_digits digits base num);
          i = word_of_nat (length tmp);
          precision = (if precision <s i then i else precision)
      in number_out e ty c sign tmp precision (s - precision) f)"

text \<open>The arguments after the format: a word, or a pointer with the string behind it.\<close>

datatype c_arg = ArgWord u32 | ArgText u32 cbuf

fun va_word :: "c_arg list \<Rightarrow> (u32 \<times> c_arg list) option" where
  "va_word [] = None"
| "va_word (ArgWord n # args) = Some (n, args)"
| "va_word (ArgText p s # args) = Some (p, args)"

definition null_text :: cbuf where
  "null_text = [40, 78, 85, 76, 76, 41, 0]"

fun va_text :: "c_arg list \<Rightarrow> (cbuf \<times> c_arg list) option" where
  "va_text [] = None"
| "va_text (ArgWord n # args) = (if n = 0 then Some (null_text, args) else None)"
| "va_text (ArgText p s # args) = Some (if p = 0 then null_text else s, args)"

text \<open>The parts of a conversion, from behind the \<^verbatim>\<open>%\<close>.\<close>

fun fmt_flags :: "u8 \<Rightarrow> cbuf \<Rightarrow> (u8 \<times> cbuf) option" where
  "fmt_flags flags [] = None"
| "fmt_flags flags (c # fmt) =
     (if c = 45 then fmt_flags (flags OR LEFT) fmt
      else if c = 43 then fmt_flags (flags OR PLUS) fmt
      else if c = 32 then fmt_flags (flags OR SPACE) fmt
      else if c = 35 then fmt_flags (flags OR SPECIAL) fmt
      else if c = 48 then fmt_flags (flags OR ZEROPAD) fmt
      else Some (flags, c # fmt))"

fun fmt_width :: "u8 \<Rightarrow> cbuf \<Rightarrow> c_arg list \<Rightarrow> (u32 \<times> u8 \<times> cbuf \<times> c_arg list) option" where
  "fmt_width flags [] args = None"
| "fmt_width flags (c # fmt) args =
     (if is_digit c then do { (w, fmt) \<leftarrow> skip_atoi 0 (c # fmt); Some (w, flags, fmt, args) }
      else if c = 42
      then do { (w, args) \<leftarrow> va_word args;
                Some (if w <s 0 then (- w, flags OR LEFT, fmt, args) else (w, flags, fmt, args)) }
      else Some (- 1, flags, c # fmt, args))"

fun fmt_precision :: "cbuf \<Rightarrow> c_arg list \<Rightarrow> (u32 \<times> cbuf \<times> c_arg list) option" where
  "fmt_precision [] args = None"
| "fmt_precision (c # fmt) args =
     (if c = 46
      then do { d \<leftarrow> (case fmt of [] \<Rightarrow> None | d # _ \<Rightarrow> Some d);
                (p, fmt, args) \<leftarrow>
                  (if is_digit d then do { (p, fmt) \<leftarrow> skip_atoi 0 fmt; Some (p, fmt, args) }
                   else if d = 42 then do { (p, args) \<leftarrow> va_word args; Some (p, tl fmt, args) }
                   else Some (- 1, fmt, args));
                Some (if p <s 0 then 0 else p, fmt, args) }
      else Some (- 1, c # fmt, args))"

fun fmt_qualifier :: "cbuf \<Rightarrow> (u8 \<times> cbuf) option" where
  "fmt_qualifier [] = None"
| "fmt_qualifier (c # fmt) = Some (if c = 104 \<or> c = 108 then (c, fmt) else (0, c # fmt))"

text \<open>The cases of the switch.\<close>

definition put_char :: "u32 \<Rightarrow> u8 \<Rightarrow> u32 \<Rightarrow> u8 \<Rightarrow> fout \<Rightarrow> fout" where
  "put_char e flags w c f =
     (let (w, f) = (if flags AND LEFT = 0 then width_loop e w f else (w, f));
          (w, f) = width_loop e w (put e c f)
      in f)"

definition put_text :: "u32 \<Rightarrow> u8 \<Rightarrow> u32 \<Rightarrow> u32 \<Rightarrow> cbuf \<Rightarrow> fout \<Rightarrow> fout option" where
  "put_text e flags w precision s f =
     do { n \<leftarrow> rt_strlen s;
          let len = word_of_nat n;
          let len = (if 0 <s precision \<and> precision <s len then precision else len);
          let (w, f) = (if flags AND LEFT = 0 then pad_loop e 32 len w f else (w, f));
          let f = (if 0 <s len then fold (put e) (take (unat len) s) f else f);
          let (w, f) = pad_loop e 32 len w f;
          Some f }"

definition arg_number :: "u8 \<Rightarrow> u8 \<Rightarrow> u32 \<Rightarrow> u32" where
  "arg_number qualifier flags n =
     (if qualifier = 104
      then (if flags AND SIGN \<noteq> 0 then scast (ucast n :: u16) else ucast (ucast n :: u16))
      else n)"

definition put_int :: "u32 \<Rightarrow> u8 \<Rightarrow> u8 \<Rightarrow> u32 \<Rightarrow> u32 \<Rightarrow> u8 \<Rightarrow> u32 \<Rightarrow> fout \<Rightarrow> fout" where
  "put_int e c flags w precision qualifier n f =
     (let base = (if c = 111 then 8 else if c = 88 \<or> c = 120 then 16 else 10);
          flags = (if c = 88 then flags OR LARGE else if c = 100 \<or> c = 105 then flags OR SIGN else flags)
      in print_number e (arg_number qualifier flags n) base w precision flags f)"

definition convert ::
  "u32 \<Rightarrow> u8 \<Rightarrow> u8 \<Rightarrow> u32 \<Rightarrow> u32 \<Rightarrow> u8 \<Rightarrow> cbuf \<Rightarrow> c_arg list \<Rightarrow> fout \<Rightarrow> (cbuf \<times> c_arg list \<times> fout) option" where
  "convert e c flags w precision qualifier fmt args f =
     (if c = 99 then do { (n, args) \<leftarrow> va_word args; Some (fmt, args, put_char e flags w (ucast n) f) }
      else if c = 115 then do { (s, args) \<leftarrow> va_text args; f \<leftarrow> put_text e flags w precision s f; Some (fmt, args, f) }
      else if c = 112
      then do { (n, args) \<leftarrow> va_word args;
                Some (fmt, args,
                  if w = - 1 then print_number e n 16 8 precision (flags OR ZEROPAD) f
                  else print_number e n 16 w precision flags f) }
      else if c = 37 then Some (fmt, args, put e 37 f)
      else if c \<in> {111, 88, 120, 100, 105, 117}
      then do { (n, args) \<leftarrow> va_word args; Some (fmt, args, put_int e c flags w precision qualifier n f) }
      else if c \<noteq> 0 then Some (fmt, args, put e c (put e 37 f))
      else Some (0 # fmt, args, put e 37 f))"

definition directive :: "u32 \<Rightarrow> cbuf \<Rightarrow> c_arg list \<Rightarrow> fout \<Rightarrow> (cbuf \<times> c_arg list \<times> fout) option" where
  "directive e fmt args f =
     do { (flags, fmt) \<leftarrow> fmt_flags 0 fmt;
          (w, flags, fmt, args) \<leftarrow> fmt_width flags fmt args;
          (precision, fmt, args) \<leftarrow> fmt_precision fmt args;
          (qualifier, fmt) \<leftarrow> fmt_qualifier fmt;
          case fmt of [] \<Rightarrow> None | c # fmt \<Rightarrow> convert e c flags w precision qualifier fmt args f }"


text \<open>A conversion never goes back in the format, so the loop over the format ends.\<close>

lemma skip_atoi_shorter: "skip_atoi i s = Some (n, s') \<Longrightarrow> length s' \<le> length s"
  by (induction i s rule: skip_atoi.induct) (auto split: if_splits)

lemma fmt_flags_shorter: "fmt_flags fl s = Some (fl', s') \<Longrightarrow> length s' \<le> length s"
  by (induction fl s rule: fmt_flags.induct) (auto split: if_splits)

lemma fmt_width_shorter: "fmt_width fl s args = Some (w, fl', s', args') \<Longrightarrow> length s' \<le> length s"
  by (cases s) (auto simp: bind_Some_iff split: if_splits dest: skip_atoi_shorter)

lemma fmt_precision_shorter: "fmt_precision s args = Some (p, s', args') \<Longrightarrow> length s' \<le> length s"
  by (cases s) (auto simp: bind_Some_iff split: if_splits list.splits dest!: skip_atoi_shorter)

lemma fmt_qualifier_shorter: "fmt_qualifier s = Some (q, s') \<Longrightarrow> length s' \<le> length s"
  by (cases s) (auto split: if_splits)

lemma convert_shorter: "convert e c fl w p q s args f = Some (s', args', f') \<Longrightarrow> length s' \<le> Suc (length s)"
  by (auto simp: convert_def bind_Some_iff split: if_splits)

lemmas fmt_shorter =
  fmt_flags_shorter fmt_width_shorter fmt_precision_shorter fmt_qualifier_shorter convert_shorter

lemma directive_shorter:
  assumes "directive e fmt args f = Some (fmt', args', f')"
  shows "length fmt' \<le> length fmt"
  using assms unfolding directive_def
  by (auto simp: bind_Some_iff neq_Nil_conv split: list.splits dest!: fmt_shorter)

function vsn_loop :: "u32 \<Rightarrow> cbuf \<Rightarrow> c_arg list \<Rightarrow> fout \<Rightarrow> fout option" where
  "vsn_loop e [] args f = None"
| "vsn_loop e (c # fmt) args f =
     (if c = 0 then Some f
      else if c \<noteq> 37 then vsn_loop e fmt args (put e c f)
      else case directive e fmt args f of
             None \<Rightarrow> None
           | Some (fmt, args, f) \<Rightarrow> vsn_loop e fmt args f)"
  by pat_completeness auto

termination vsn_loop
  by (relation "measure (\<lambda>(_, fmt, _). length fmt)") (auto simp: less_Suc_eq_le dest: directive_shorter)

declare vsn_loop.simps [simp del]

text \<open>
  \<^verbatim>\<open>end = buf + size - 1\<close>; when that lies before the buffer the whole address space is the buffer. The
  result is the number of characters that were produced, stored or not.
\<close>

definition rt_vsnprintf :: "u32 \<Rightarrow> u32 \<Rightarrow> cbuf \<Rightarrow> c_arg list \<Rightarrow> memory \<Rightarrow> (u32 \<times> memory) option" where
  "rt_vsnprintf buf sz fmt args m =
     do { let e = buf + sz - 1;
          let e = (if e < buf then - 1 else e);
          f \<leftarrow> vsn_loop e fmt args \<lparr>out_str = buf, out_mem = m\<rparr>;
          let m = (out_mem f)(unat (if out_str f \<le> e then out_str f else e) := 0);
          Some (out_str f - buf, m) }"

definition rt_snprintf :: "u32 \<Rightarrow> u32 \<Rightarrow> cbuf \<Rightarrow> c_arg list \<Rightarrow> memory \<Rightarrow> (u32 \<times> memory) option" where
  "rt_snprintf buf sz fmt args m = rt_vsnprintf buf sz fmt args m"

definition rt_vsprintf :: "u32 \<Rightarrow> cbuf \<Rightarrow> c_arg list \<Rightarrow> memory \<Rightarrow> (u32 \<times> memory) option" where
  "rt_vsprintf buf fmt args m = rt_vsnprintf buf (- 1) fmt args m"

definition rt_sprintf :: "u32 \<Rightarrow> cbuf \<Rightarrow> c_arg list \<Rightarrow> memory \<Rightarrow> (u32 \<times> memory) option" where
  "rt_sprintf buf fmt args m = rt_vsprintf buf fmt args m"

section \<open>The loops\<close>

lemma pad_loop_eq:
  "pad_loop e c lo n f = (if lo <s n then lo - 1 else n - 1, fold (put e) (replicate (nat (sint n - sint lo)) c) f)"
proof (induction e c lo n f rule: pad_loop.induct)
  case (1 e c lo n f)
  show ?case
  proof (cases "lo <s n")
    case True
    with sless_dec [OF True] have k: "nat (sint n - sint lo) = Suc (nat (sint (n - 1) - sint lo))"
      by (simp add: word_sless_alt)
    have "lo <s n - 1 \<or> n - 1 = lo"
      using True sless_dec [OF True] by (simp add: word_sless_alt) (metis linorder_neqE_linordered_idom signed_word_eqI zle_diff1_eq not_less)
    with 1 True show ?thesis by (auto simp: pad_loop.simps [of e c lo n] k)
  qed (simp add: pad_loop.simps [of e c lo n] word_sless_alt)
qed

lemma width_loop_eq:
  "width_loop e w f = (if 0 <s w - 1 then 0 else w - 1, fold (put e) (replicate (nat (sint (w - 1))) 32) f)"
proof -
  have "pad_loop e 32 0 n f = (let (w, f) = width_loop e (n + 1) f in (w - 1, f))" for n f
  proof (induction e "32 :: u8" "0 :: u32" n f rule: pad_loop.induct)
    case (1 e n f)
    then show ?case by (simp add: pad_loop.simps [of e 32 0 n] width_loop.simps [of e "n + 1"])
  qed
  from this [of "w - 1" f] show ?thesis
    by (cases "width_loop e w f") (auto simp: pad_loop_eq diff_eq_eq)
qed

section \<open>What a format promises\<close>

text \<open>
  The text of each conversion, on natural numbers and without a buffer: the width and the precision are counts
  (\<open>count\<close>, where the code's \<open>-1\<close> stands for none), a number is its sign, zeros up to the precision and its digits,
  a string is cut to the precision, and the field is filled on one side. The flags, the width and the precision are read
  from the format by the functions above. Where the code and the C library part the text is that of the code in two
  cases (zeros fill the field even when there is a precision, and the number 0 with the precision 0 is one digit); two
  conversions have no text here, \<^verbatim>\<open>%o\<close>, which prints in hexadecimal, and a string with the precision 0, which the code
  prints whole.
\<close>

definition count :: "u32 \<Rightarrow> nat" where
  "count w = (if w = - 1 then 0 else unat w)"

function numeral_text :: "cbuf \<Rightarrow> nat \<Rightarrow> nat \<Rightarrow> cbuf" where
  "numeral_text ds b n = (if n < b \<or> b < 2 then [ds ! n] else numeral_text ds b (n div b) @ [ds ! (n mod b)])"
  by pat_completeness auto

termination numeral_text
  by (relation "measure (\<lambda>(_, _, n). n)") (auto intro: div_less_dividend)

declare numeral_text.simps [simp del]

definition sign_text :: "u8 \<Rightarrow> u32 \<Rightarrow> cbuf" where
  "sign_text ty n =
     (if ty AND SIGN = 0 then []
      else if sint n < 0 then [45]
      else if ty AND PLUS \<noteq> 0 then [43]
      else if ty AND SPACE \<noteq> 0 then [32] else [])"

definition magnitude :: "u8 \<Rightarrow> u32 \<Rightarrow> nat" where
  "magnitude ty n = (if ty AND SIGN = 0 then unat n else nat \<bar>sint n\<bar>)"

definition filled_field :: "u8 \<Rightarrow> nat \<Rightarrow> cbuf \<Rightarrow> cbuf \<Rightarrow> cbuf" where
  "filled_field ty w sg body =
     (let room = w - length (sg @ body)
      in if ty AND LEFT \<noteq> 0 then sg @ body @ replicate room 32
         else if ty AND ZEROPAD \<noteq> 0 then sg @ replicate room 48 @ body
         else replicate room 32 @ sg @ body)"

definition number_text :: "u8 \<Rightarrow> nat \<Rightarrow> nat \<Rightarrow> nat \<Rightarrow> u32 \<Rightarrow> cbuf" where
  "number_text ty w p base n =
     (let ds = numeral_text (if ty AND LARGE \<noteq> 0 then large_digits else small_digits) base (magnitude ty n)
      in filled_field ty w (sign_text ty n) (replicate (p - length ds) 48 @ ds))"

definition text_field :: "u8 \<Rightarrow> nat \<Rightarrow> cbuf \<Rightarrow> cbuf" where
  "text_field ty w t = filled_field (ty AND LEFT) w [] t"

definition convert_text ::
  "u8 \<Rightarrow> u8 \<Rightarrow> u32 \<Rightarrow> u32 \<Rightarrow> u8 \<Rightarrow> cbuf \<Rightarrow> c_arg list \<Rightarrow> (cbuf \<times> cbuf \<times> c_arg list) option" where
  "convert_text c flags w p q fmt args =
     (if c = 99 then do { (n, args) \<leftarrow> va_word args; Some (text_field flags (count w) [ucast n], fmt, args) }
      else if c = 115
      then do { (s, args) \<leftarrow> va_text args;
                rt_assert (terminated s \<and> length s < 2 ^ 31 \<and> p \<noteq> 0);
                Some (text_field flags (count w) (if p = - 1 then text_of s else take (unat p) (text_of s)), fmt, args) }
      else if c = 112
      then do { (n, args) \<leftarrow> va_word args;
                Some (if w = - 1 then number_text (flags OR ZEROPAD) 8 (count p) 16 n
                      else number_text flags (count w) (count p) 16 n, fmt, args) }
      else if c = 37 then Some ([37], fmt, args)
      else if c = 111 then None
      else if c \<in> {88, 120}
      then do { (n, args) \<leftarrow> va_word args;
                Some (number_text (if c = 88 then flags OR LARGE else flags) (count w) (count p) 16 (arg_number q flags n), fmt, args) }
      else if c \<in> {100, 105}
      then do { (n, args) \<leftarrow> va_word args;
                Some (number_text (flags OR SIGN) (count w) (count p) 10 (arg_number q (flags OR SIGN) n), fmt, args) }
      else if c = 117
      then do { (n, args) \<leftarrow> va_word args;
                Some (number_text flags (count w) (count p) 10 (arg_number q flags n), fmt, args) }
      else if c \<noteq> 0 then Some ([37, c], fmt, args)
      else Some ([37], 0 # fmt, args))"

definition directive_text :: "cbuf \<Rightarrow> c_arg list \<Rightarrow> (cbuf \<times> cbuf \<times> c_arg list) option" where
  "directive_text fmt args =
     do { (flags, fmt) \<leftarrow> fmt_flags 0 fmt;
          (w, flags, fmt, args) \<leftarrow> fmt_width flags fmt args;
          (p, fmt, args) \<leftarrow> fmt_precision fmt args;
          (q, fmt) \<leftarrow> fmt_qualifier fmt;
          case fmt of [] \<Rightarrow> None | c # fmt \<Rightarrow> convert_text c flags w p q fmt args }"

lemma convert_text_shorter: "convert_text c fl w p q s args = Some (t, s', args') \<Longrightarrow> length s' \<le> Suc (length s)"
  by (auto simp: convert_text_def bind_Some_iff split: if_splits)

lemma directive_text_shorter:
  assumes "directive_text fmt args = Some (t, fmt', args')"
  shows "length fmt' \<le> length fmt"
  using assms unfolding directive_text_def
  by (auto simp: bind_Some_iff neq_Nil_conv split: list.splits dest!: fmt_shorter convert_text_shorter)

function formatted :: "cbuf \<Rightarrow> c_arg list \<Rightarrow> cbuf option" where
  "formatted [] args = None"
| "formatted (c # fmt) args =
     (if c = 0 then Some []
      else if c \<noteq> 37 then map_option ((#) c) (formatted fmt args)
      else case directive_text fmt args of
             None \<Rightarrow> None
           | Some (t, fmt, args) \<Rightarrow> map_option ((@) t) (formatted fmt args))"
  by pat_completeness auto

termination formatted
  by (relation "measure (\<lambda>(fmt, _). length fmt)") (auto simp: less_Suc_eq_le dest: directive_text_shorter)

declare formatted.simps [simp del]

section \<open>The output so far\<close>

text \<open>
  The part of a text that lies in the buffer from \<open>b\<close> to \<open>e\<close> is stored and nothing else is written; past
  the end the counter may run ahead of the text, by at most \<open>k\<close>.
\<close>

definition stored :: "nat \<Rightarrow> nat \<Rightarrow> cbuf \<Rightarrow> memory \<Rightarrow> memory" where
  "stored b e cs m = (\<lambda>a. if b \<le> a \<and> a \<le> e \<and> a - b < length cs then cs ! (a - b) else m a)"

definition shown :: "nat \<Rightarrow> u32 \<Rightarrow> memory \<Rightarrow> nat \<Rightarrow> cbuf \<Rightarrow> fout \<Rightarrow> bool" where
  "shown b e m k cs f \<longleftrightarrow>
     out_mem f = stored b (unat e) cs m \<and>
     (\<exists>j \<le> k. unat (out_str f) = b + length cs + j \<and> (0 < j \<longrightarrow> unat e < b + length cs))"

lemma out_put [simp]:
  "out_str (put e c f) = out_str f + 1"
  "out_mem (put e c f) = (if out_str f \<le> e then (out_mem f)(unat (out_str f) := c) else out_mem f)"
  by (simp_all add: put_def)

lemma unat_Suc: "unat (x :: u32) + 1 < 2 ^ 32 \<Longrightarrow> unat (x + 1) = unat x + 1"
  by (simp add: unat_word_ariths)

lemma stored_snoc:
  "stored b e (cs @ [c]) m = (if b + length cs \<le> e then (stored b e cs m)(b + length cs := c) else stored b e cs m)"
  by (auto simp: stored_def fun_eq_iff nth_append)

lemma shown_put:
  assumes "shown b e m k cs f" "b + length cs + k + 1 < 2 ^ 32"
  shows "shown b e m k (cs @ [c]) (put e c f)"
proof -
  obtain j where j: "j \<le> k" "unat (out_str f) = b + length cs + j" "0 < j \<longrightarrow> unat e < b + length cs"
    and m: "out_mem f = stored b (unat e) cs m"
    using assms(1) by (auto simp: shown_def)
  have u: "unat (out_str f + 1) = b + length cs + j + 1"
    using j(1,2) assms(2) by (subst unat_Suc) simp_all
  have le: "out_str f \<le> e \<longleftrightarrow> b + length cs \<le> unat e"
    using j(2,3) by (cases "j = 0") (simp_all add: word_le_nat_alt)
  have "0 < j \<longrightarrow> \<not> b + length cs \<le> unat e" using j(3) by auto
  then have "out_mem (put e c f) = stored b (unat e) (cs @ [c]) m"
    by (cases "j = 0") (simp_all add: stored_snoc le m j(2))
  moreover have "0 < j \<longrightarrow> unat e < b + length (cs @ [c])" using j(3) by auto
  ultimately show ?thesis using j(1) u by (auto simp: shown_def intro!: exI [of _ j])
qed

lemma shown_puts:
  "shown b e m k cs f \<Longrightarrow> b + length cs + length xs + k < 2 ^ 32 \<Longrightarrow> shown b e m k (cs @ xs) (fold (put e) xs f)"
proof (induction xs arbitrary: cs f)
  case (Cons x xs)
  have "shown b e m k (cs @ [x]) (put e x f)"
    using Cons.prems by (intro shown_put) simp_all
  then show ?case using Cons.IH [of "cs @ [x]" "put e x f"] Cons.prems(2) by simp
qed simp

text \<open>Past the end nothing is stored, whatever is put.\<close>

lemma past_puts:
  assumes "e < out_str f" "unat (out_str f) + length ys < 2 ^ 32"
  shows "out_mem (fold (put e) ys f) = out_mem f" "unat (out_str (fold (put e) ys f)) = unat (out_str f) + length ys"
proof -
  have "out_mem (fold (put e) ys f) = out_mem f \<and> unat (out_str (fold (put e) ys f)) = unat (out_str f) + length ys"
    using assms
  proof (induction ys arbitrary: f)
    case (Cons y ys)
    have u: "unat (out_str f + 1) = unat (out_str f) + 1" using Cons.prems(2) by (intro unat_Suc) simp
    then have "e < out_str (put e y f)" using Cons.prems(1) by (simp add: word_less_nat_alt)
    then show ?case using Cons.IH [of "put e y f"] Cons.prems u by (simp add: not_le [symmetric])
  qed simp
  then show "out_mem (fold (put e) ys f) = out_mem f" "unat (out_str (fold (put e) ys f)) = unat (out_str f) + length ys"
    by blast+
qed

lemma shown_past:
  assumes "shown b e m k cs f" "e < out_str f" "length xs \<le> length ys" "length ys \<le> length xs + 1"
    and "b + length cs + length xs + k + 1 < 2 ^ 32"
  shows "shown b e m (k + 1) (cs @ xs) (fold (put e) ys f)"
proof -
  obtain j where j: "j \<le> k" "unat (out_str f) = b + length cs + j" "0 < j \<longrightarrow> unat e < b + length cs"
    and m: "out_mem f = stored b (unat e) cs m"
    using assms(1) by (auto simp: shown_def)
  have e: "unat e < b + length cs" using j assms(2) by (cases "j = 0") (simp_all add: word_less_nat_alt)
  have "stored b (unat e) (cs @ xs) m = stored b (unat e) cs m"
    using e by (auto simp: stored_def fun_eq_iff nth_append)
  moreover have "unat (out_str f) + length ys < 2 ^ 32" using assms(4,5) j(1,2) by simp
  ultimately have "out_mem (fold (put e) ys f) = stored b (unat e) (cs @ xs) m"
    and "unat (out_str (fold (put e) ys f)) = b + length (cs @ xs) + (j + length ys - length xs)"
    using past_puts [OF assms(2), of ys] m j(2) assms(3) by simp_all
  then show ?thesis using e j(1) assms(3,4) by (auto simp: shown_def intro!: exI [of _ "j + length ys - length xs"])
qed

lemma shown_more: "shown b e m k cs f \<Longrightarrow> k \<le> k' \<Longrightarrow> shown b e m k' cs f"
  unfolding shown_def by (meson order_trans)

section \<open>Numbers\<close>

definition radix :: "u8 \<Rightarrow> nat" where
  "radix base = (if base = 10 then 10 else 16)"

lemma radix_bounds [simp]: "0 < radix b" "10 \<le> radix b" "\<not> radix b < 2"
  by (simp_all add: radix_def)

lemma divide_radix:
  "unat (fst (divide n b)) = unat n mod radix b" "unat (snd (divide n b)) = unat n div radix b"
  by (simp_all add: divide_def radix_def unat_mod unat_div)

lemma number_digits_text:
  "n \<noteq> 0 \<Longrightarrow> rev (number_digits ds b n) = numeral_text ds (radix b) (unat n)"
proof (induction ds b n rule: number_digits.induct)
  case (1 ds b n)
  obtain r m where d: "divide n b = (r, m)" by fastforce
  then have u: "unat r = unat n mod radix b" "unat m = unat n div radix b"
    using divide_radix [of n b] by simp_all
  have z: "m = 0 \<longleftrightarrow> unat n < radix b"
    using u(2) by (auto simp: unat_eq_0 [symmetric] div_eq_0_iff radix_def simp del: unat_eq_0 split: if_splits)
  show ?case
  proof (cases "m = 0")
    case True
    then show ?thesis using 1(2) z u d
      by (simp add: number_digits.simps [of ds b n] number_digits.simps [of ds b 0] numeral_text.simps [of ds "radix b" "unat n"])
  next
    case False
    then show ?thesis using 1(1) [OF 1(2) d [symmetric] refl] 1(2) z u d
      by (simp add: number_digits.simps [of ds b n] numeral_text.simps [of ds "radix b" "unat n"])
  qed
qed

lemma tmp_text:
  "rev (if n = 0 then [48] else number_digits ds b n) = numeral_text ds (radix b) (unat n)" if "ds ! 0 = 48"
  using number_digits_text [of n ds b] that
  by (auto simp: numeral_text.simps [of ds "radix b" 0])

text \<open>Ten digits are enough, so \<^verbatim>\<open>tmp\<close> with its 16 places never overflows.\<close>

lemma numeral_text_short: "n < 10 ^ k \<Longrightarrow> 0 < k \<Longrightarrow> 10 \<le> b \<Longrightarrow> length (numeral_text ds b n) \<le> k"
proof (induction k arbitrary: n)
  case (Suc k)
  show ?case
  proof (cases "n < b")
    case False
    have "n div b \<le> n div 10" using Suc.prems(3) by (simp add: div_le_mono2)
    also have "\<dots> < 10 ^ k" using Suc.prems(1) by (simp add: div_less_iff_less_mult mult.commute)
    finally have "n div b < 10 ^ k" .
    moreover from False Suc.prems have "0 < k" by (cases k) simp_all
    ultimately show ?thesis using Suc.IH [of "n div b"] Suc.prems(3) False
      by (simp add: numeral_text.simps [of ds b n])
  qed (simp add: numeral_text.simps [of ds b n])
qed simp

lemma numeral_text_ten:
  fixes n :: u32
  shows "length (numeral_text ds (radix b) (unat n)) \<le> 10"
proof -
  have "unat n < 2 ^ 32" using unsigned_less [of n, where 'a = nat] by simp
  then have "unat n < 10 ^ 10" by simp
  then show ?thesis by (intro numeral_text_short) (simp_all add: radix_def)
qed

lemma number_sign_text:
  "number_sign ty n = (s, v) \<Longrightarrow> sign_text ty n = (if s = 0 then [] else [s]) \<and> magnitude ty n = unat v"
proof -
  assume a: "number_sign ty n = (s, v)"
  have "nat \<bar>sint n\<bar> = unat (- n)" if "sint n < 0"
  proof -
    have "uint (- n) = 2 ^ 32 - uint n" using that uint_lt2p [of n]
      by (simp add: uint_word_ariths sint_u32 zmod_zminus1_eq_if split: if_splits)
    moreover have "unat (- n) = nat (uint (- n))" by simp
    moreover have "uint n < 2 ^ 32" "sint n = uint n - 2 ^ 32"
      using that uint_lt2p [of n] by (simp_all add: sint_u32 split: if_splits)
    ultimately show ?thesis by linarith
  qed
  moreover have "nat \<bar>sint n\<bar> = unat n" if "\<not> sint n < 0"
  proof -
    have "sint n = uint n" "0 \<le> uint n" using that uint_lt2p [of n] by (simp_all add: sint_u32 split: if_splits)
    then show ?thesis by simp
  qed
  ultimately show ?thesis using a
    by (auto simp: number_sign_def sign_text_def magnitude_def word_sless_alt split: if_splits)
qed

text \<open>The part of \<^verbatim>\<open>print_number\<close> that writes, over the sign and the digits it writes.\<close>

definition layout :: "u32 \<Rightarrow> bool \<Rightarrow> bool \<Rightarrow> u8 \<Rightarrow> cbuf \<Rightarrow> u32 \<Rightarrow> fout \<Rightarrow> fout" where
  "layout e left zero sign body sz f =
     (let (sz, f) = (if \<not> zero \<and> \<not> left then pad_loop e 32 0 (if sign \<noteq> 0 \<and> 0 <s sz then sz - 1 else sz) f else (sz, f));
          (sz, f) = (if sign \<noteq> 0 then (if out_str f \<le> e then sz - 1 else sz, put e sign f) else (sz, f));
          (sz, f) = (if \<not> left then pad_loop e (if zero then 48 else 32) 0 sz f else (sz, f));
          f = fold (put e) body f;
          (sz, f) = pad_loop e 32 0 sz f
      in f)"

lemma less_sint [simp]: "0 <s (n :: u32) \<longleftrightarrow> 0 < sint n"
  by (simp add: word_sless_alt)

lemma layout_right:
  assumes "- (2 ^ 30) \<le> sint sz"
  shows "layout e False False sign body sz f =
    fold (put e) (replicate (nat (sint sz - of_bool (sign \<noteq> 0))) 32 @ (if sign = 0 then [] else [sign]) @ body) f"
proof -
  have d: "sint (n - 1) = sint n - 1" if "- (2 ^ 31) < sint n" for n :: u32 using that by (rule sint_dec)
  have m: "- (2 ^ 31) < sint sz" using assms by simp
  have m1: "sint (sz - 1) = sint sz - 1" using d [OF m] .
  have m2: "sint (sz - 2) = sint sz - 2" using d [of "sz - 1"] m1 assms by simp
  have m3: "sint (sz - 3) = sint sz - 3" using d [of "sz - 2"] m2 assms by simp
  have m4: "sint (sz - 4) = sint sz - 4" using d [of "sz - 3"] m3 assms by simp
  have n1: "sint (- 1 :: u32) = - 1" "sint (- 2 :: u32) = - 2" "sint (- 3 :: u32) = - 3" by simp_all
  show ?thesis
    by (auto simp: layout_def Let_def pad_loop_eq m1 m2 m3 m4 n1)
qed


lemma layout_zero:
  assumes "- (2 ^ 30) \<le> sint sz"
  shows "layout e False True sign body sz f =
    fold (put e) ((if sign = 0 then [] else [sign]) @
      replicate (nat (sint sz - of_bool (sign \<noteq> 0 \<and> out_str f \<le> e))) 48 @ body) f"
proof -
  have d: "sint (n - 1) = sint n - 1" if "- (2 ^ 31) < sint n" for n :: u32 using that by (rule sint_dec)
  have m: "- (2 ^ 31) < sint sz" using assms by simp
  have m1: "sint (sz - 1) = sint sz - 1" using d [OF m] .
  have m2: "sint (sz - 2) = sint sz - 2" using d [of "sz - 1"] m1 assms by simp
  show ?thesis
    by (auto simp: layout_def Let_def pad_loop_eq m1 m2)
qed

lemma layout_left:
  assumes "- (2 ^ 30) \<le> sint sz"
  shows "layout e True False sign body sz f =
    fold (put e) ((if sign = 0 then [] else [sign]) @ body @
      replicate (nat (sint sz - of_bool (sign \<noteq> 0 \<and> out_str f \<le> e))) 32) f"
proof -
  have "- (2 ^ 31) < sint sz" using assms by simp
  note m1 = sint_dec [OF this]
  show ?thesis
    by (auto simp: layout_def Let_def pad_loop_eq m1)
qed

lemma and_17: "ty AND 17 = 0 \<longleftrightarrow> ty AND 1 = 0 \<and> ty AND 16 = 0" for ty :: u8
proof -
  have "ty AND 17 = (ty AND 1) OR (ty AND 16)" by (simp flip: bit.conj_disj_distrib)
  then show ?thesis by (simp add: or_eq_0_iff)
qed

lemma number_out_layout:
  assumes "ty AND LEFT \<noteq> 0 \<longrightarrow> ty AND ZEROPAD = 0" "c = (if ty AND ZEROPAD \<noteq> 0 then 48 else 32)"
  shows "number_out e ty c sign tmp p sz f =
    layout e (ty AND LEFT \<noteq> 0) (ty AND ZEROPAD \<noteq> 0) sign
      (replicate (nat (sint p - sint (word_of_nat (length tmp) :: u32))) 48 @ rev tmp) sz f"
  using assms
  by (cases "ty AND LEFT = 0"; cases "ty AND ZEROPAD = 0")
    (simp_all add: number_out_def layout_def and_17 pad_loop_eq [of e 48] split del: if_split)

lemma length_filled_field: "length (filled_field ty w sg body) = max w (length sg + length body)"
  by (auto simp: filled_field_def Let_def max_def)

lemma sint_nonneg:
  assumes "unat (x :: u32) < 2 ^ 31" shows "sint x = int (unat x)"
proof -
  have "int (unat x) < int (2 ^ 31)" using assms by (rule iffD2 [OF of_nat_less_iff])
  then have "uint x < 2147483648" by simp
  then show ?thesis by (simp add: sint_u32)
qed

lemma sint_count:
  "count w < 2 ^ 31 \<Longrightarrow> sint w = (if w = - 1 then - 1 else int (count w))"
  using sint_nonneg [of w] by (cases "w = - 1") (simp_all add: count_def)

lemma count_nonneg:
  assumes "0 \<le> sint p" shows "int (count p) = sint p"
proof -
  have "p \<noteq> - 1" using assms by auto
  moreover have "sint p = uint p" using assms uint_lt2p [of p] by (simp add: sint_u32 split: if_splits)
  ultimately show ?thesis by (simp add: count_def)
qed

lemma sint_diff:
  fixes x y :: u32
  assumes "\<bar>sint x\<bar> < 2 ^ 30" "\<bar>sint y\<bar> < 2 ^ 30"
  shows "sint (x - y) = sint x - sint y"
proof -
  have "\<bar>sint x\<bar> < 1073741824" "\<bar>sint y\<bar> < 1073741824" using assms by simp_all
  then have "- 2147483648 \<le> sint x - sint y" "sint x - sint y < 2147483648" by linarith+
  then show ?thesis by (simp add: sint_word_ariths signed_take_bit_int_eq_self_iff)
qed

lemma layout_shown:
  assumes sh: "shown b e m k cs f" and t: "t = filled_field ty w sg body"
    and room: "b + length cs + length t + k + 1 < 2 ^ 32"
    and sg: "sg = (if sign = 0 then [] else [sign])"
    and sz: "- (2 ^ 30) \<le> sint sz" "\<And>d. nat (sint sz - int d) = w - length body - d"
  shows "shown b e m (k + 1) (cs @ t)
    (layout e (ty AND LEFT \<noteq> 0) (ty AND LEFT = 0 \<and> ty AND ZEROPAD \<noteq> 0) sign body sz f)"
proof -
  have fits: "shown b e m (k + 1) (cs @ t) (fold (put e) t f)"
    by (rule shown_more [OF shown_puts [OF sh]]) (use room in simp_all)
  have sz1: "nat (sint sz - 1) = w - length body - 1" "nat (sint sz) = w - length body"
    using sz(2) [of 1] sz(2) [of 0] by simp_all
  have past: "shown b e m (k + 1) (cs @ t) (fold (put e) ys f)"
    if "\<not> out_str f \<le> e" "length ys = length sg + length body + (w - length body)" "sign \<noteq> 0" for ys
  proof (rule shown_past [OF sh])
    show "e < out_str f" using that(1) by simp
    show "length t \<le> length ys" "length ys \<le> length t + 1"
      using that(2,3) by (simp_all add: t length_filled_field sg)
  qed (use room in simp)
  show ?thesis
  proof (cases "ty AND LEFT = 0 \<and> ty AND ZEROPAD = 0")
    case True
    then show ?thesis using fits
      by (cases "sign = 0") (simp_all add: layout_right [OF sz(1)] t filled_field_def sz1 sg Let_def del: fold_append)
  next
    case False
    consider (ok) "sign = 0 \<or> out_str f \<le> e" | (off) "sign \<noteq> 0" "\<not> out_str f \<le> e" by blast
    then show ?thesis
    proof cases
      case ok
      with False fits show ?thesis
        by (cases "sign = 0"; cases "ty AND LEFT = 0")
          (simp_all add: layout_zero [OF sz(1)] layout_left [OF sz(1)] t filled_field_def sz1 sg Let_def del: fold_append)
    next
      case off
      show ?thesis
      proof (cases "ty AND LEFT = 0")
        case True
        with False off have "layout e (ty AND LEFT \<noteq> 0) (ty AND LEFT = 0 \<and> ty AND ZEROPAD \<noteq> 0) sign body sz f
            = fold (put e) (sg @ replicate (w - length body) 48 @ body) f"
          by (simp add: layout_zero [OF sz(1)] sz1 sg del: fold_append)
        then show ?thesis using past [OF off(2) _ off(1), of "sg @ replicate (w - length body) 48 @ body"] by simp
      next
        case False
        with off have "layout e (ty AND LEFT \<noteq> 0) (ty AND LEFT = 0 \<and> ty AND ZEROPAD \<noteq> 0) sign body sz f
            = fold (put e) (sg @ body @ replicate (w - length body) 32) f"
          by (simp add: layout_left [OF sz(1)] sz1 sg del: fold_append)
        then show ?thesis using past [OF off(2) _ off(1), of "sg @ body @ replicate (w - length body) 32"] by simp
      qed
    qed
  qed
qed

lemma print_number_layout:
  assumes room: "length (number_text ty (count w) (count p) (radix base) n) < 2 ^ 30" and p: "p = - 1 \<or> 0 \<le> sint p"
  obtains sign body sz where
    "print_number e n base w p ty f = layout e (ty AND LEFT \<noteq> 0) (ty AND LEFT = 0 \<and> ty AND ZEROPAD \<noteq> 0) sign body sz f"
    and "number_text ty (count w) (count p) (radix base) n = filled_field ty (count w) (sign_text ty n) body"
    and "sign_text ty n = (if sign = 0 then [] else [sign])"
    and "- (2 ^ 30) \<le> sint sz" "\<And>d. nat (sint sz - int d) = count w - length body - d"
proof -
  obtain sign v where nv: "number_sign ty n = (sign, v)" by fastforce
  define ds where "ds = (if ty AND LARGE \<noteq> 0 then large_digits else small_digits)"
  define tmp where "tmp = (if v = 0 then [48] else number_digits ds base v)"
  define i :: u32 where "i = word_of_nat (length tmp)"
  define p' where "p' = (if p <s i then i else p)"
  define ty' where "ty' = (if ty AND LEFT \<noteq> 0 then ty AND NOT ZEROPAD else ty)"
  define c :: u8 where "c = (if ty' AND ZEROPAD \<noteq> 0 then 48 else 32)"
  define body where "body = replicate (count p - length tmp) 48 @ rev tmp"
  have rt: "rev tmp = numeral_text ds (radix base) (unat v)"
    unfolding tmp_def by (rule tmp_text) (simp add: ds_def large_digits_def small_digits_def)
  have "length tmp \<le> 10" using numeral_text_ten [of ds base v] by (simp flip: rt)
  then have i: "sint i = int (length tmp)" by (subst sint_nonneg) (simp_all add: i_def unat_of_nat)
  have t: "number_text ty (count w) (count p) (radix base) n = filled_field ty (count w) (sign_text ty n) body"
    using number_sign_text [OF nv] by (simp add: number_text_def Let_def body_def ds_def [symmetric] flip: rt)
  have lb: "length body = max (count p) (length tmp)" by (simp add: body_def)
  have lt: "count w < 2 ^ 30" "length body < 2 ^ 30"
    using room by (simp_all add: t length_filled_field)
  have sp: "sint p' = int (length body)"
  proof (cases "p = - 1")
    case True
    then show ?thesis using i lb by (simp add: p'_def word_sless_alt count_def)
  next
    case False
    with p count_nonneg [of p] have "sint p = int (count p)" by simp
    then show ?thesis using i by (simp add: p'_def word_sless_alt lb max_def)
  qed
  have sw: "sint w = (if w = - 1 then - 1 else int (count w))" by (rule sint_count) (use lt in simp)
  have sz: "sint (w - p') = sint w - int (length body)"
    using lt by (subst sint_diff) (simp_all add: sp sw)
  have bits: "ty' AND LEFT \<noteq> 0 \<longrightarrow> ty' AND ZEROPAD = 0" "(ty' AND LEFT \<noteq> 0) = (ty AND LEFT \<noteq> 0)"
    "(ty' AND ZEROPAD \<noteq> 0) = (ty AND LEFT = 0 \<and> ty AND ZEROPAD \<noteq> 0)"
    "ty' AND SIGN = ty AND SIGN" "ty' AND PLUS = ty AND PLUS" "ty' AND SPACE = ty AND SPACE"
    by (simp_all add: ty'_def and.assoc)
  then have "number_sign ty' n = number_sign ty n" by (simp add: number_sign_def)
  then have s: "number_sign ty' n = (sign, v)" by (simp add: nv)
  have b: "replicate (nat (sint p' - sint i)) 48 @ rev tmp = body"
    using lb by (simp add: sp i body_def)
  have "print_number e n base w p ty f = number_out e ty' c sign tmp p' (w - p') f"
    unfolding print_number_def Let_def ty'_def [symmetric] s prod.case ds_def [symmetric] tmp_def [symmetric]
      i_def [symmetric] p'_def [symmetric] c_def [symmetric] by (rule refl)
  also have "\<dots> = layout e (ty AND LEFT \<noteq> 0) (ty AND LEFT = 0 \<and> ty AND ZEROPAD \<noteq> 0) sign body (w - p') f"
    using number_out_layout [OF bits(1) c_def] b by (simp add: bits(2,3) i_def)
  finally show thesis
  proof (rule that [OF _ t])
    show "sign_text ty n = (if sign = 0 then [] else [sign])" using number_sign_text [OF nv] by simp
    have l: "int (length body) < 1073741824" using lt by simp
    have "sint w = - 1 \<and> count w = 0 \<or> sint w = int (count w)" by (simp add: sw count_def)
    then show "- (2 ^ 30) \<le> sint (w - p')" "nat (sint (w - p') - int d) = count w - length body - d" for d
      using l unfolding sz by auto
  qed
qed

lemma print_number_shown:
  assumes sh: "shown b e m k cs f" and t: "t = number_text ty (count w) (count p) (radix base) n"
    and room: "b + length cs + length t + k + 1 < 2 ^ 32" "length t < 2 ^ 30" and p: "p = - 1 \<or> 0 \<le> sint p"
  shows "shown b e m (k + 1) (cs @ t) (print_number e n base w p ty f)"
  using room(2) unfolding t
proof (rule print_number_layout [OF _ p, where e = e and f = f], goal_cases)
  case (1 sign body sz)
  show ?case unfolding 1(1) by (rule layout_shown [OF sh 1(2) _ 1(3) 1(4,5)]) (use room(1) t in simp)
qed

section \<open>Conversions\<close>

lemma sint_width_dec:
  assumes "count w < 2 ^ 31"
  shows "sint (w - 1) = sint w - 1" "sint (w - 2) = sint w - 2"
proof -
  have w: "- 1 \<le> sint w" using sint_count [OF assms] by simp
  then show d: "sint (w - 1) = sint w - 1" by (intro sint_dec) simp
  show "sint (w - 2) = sint w - 2" using sint_dec [of "w - 1"] d w by simp
qed

lemma put_char_text:
  assumes "count w < 2 ^ 31"
  shows "put_char e flags w c f = fold (put e) (text_field flags (count w) [c]) f"
proof -
  have "sint w = - 1 \<and> count w = 0 \<or> sint w = int (count w)"
    using sint_count [OF assms] by (simp add: count_def)
  then have "nat (sint w - 1) = count w - 1" by auto
  then show ?thesis using sint_width_dec [OF assms]
    by (simp add: put_char_def text_field_def filled_field_def width_loop_eq and.assoc Let_def)
qed

lemma pad_twice:
  assumes "- 1 \<le> sint w" "0 \<le> sint lo"
  shows "snd (pad_loop e c lo (fst (pad_loop e c lo w f)) g) = g"
proof -
  have "sint (w - 1) = sint w - 1" "sint (lo - 1) = sint lo - 1" using assms by (simp_all add: sint_dec)
  then have "\<not> lo <s fst (pad_loop e c lo w f)" by (auto simp: pad_loop_eq word_sless_alt)
  then show ?thesis by (simp add: pad_loop.simps)
qed

lemma put_text_text:
  assumes s: "terminated s" "length s < 2 ^ 31" and w: "count w < 2 ^ 31" and p: "p = - 1 \<or> 0 \<le> sint p" "p \<noteq> 0"
    and t: "t = (if p = - 1 then text_of s else take (unat p) (text_of s))"
  shows "put_text e flags w p s f = Some (fold (put e) (text_field flags (count w) t) f)"
proof -
  define len :: u32 where "len = word_of_nat (length (text_of s))"
  define l where "l = (if 0 <s p \<and> p <s len then p else len)"
  have "length (text_of s) \<le> length s" by (simp add: text_of_def length_takeWhile_le)
  then have "length (text_of s) < 2147483648" using s(2) by simp
  then have len: "unat len = length (text_of s)" "sint len = int (length (text_of s))"
    by (simp_all add: len_def unat_of_nat sint_nonneg)
  have l: "sint l = int (length t) \<and> unat l = length t"
  proof (cases "p = - 1")
    case True
    then show ?thesis using len by (simp add: l_def t)
  next
    case False
    obtain q where "unat p = q" "sint p = int q" "0 < q"
      using False p count_nonneg [of p] by (auto simp: count_def unat_gt_0)
    with False show ?thesis using len by (auto simp: l_def t word_sless_alt)
  qed
  have tk: "take (length t) s = t"
  proof -
    have "text_of s = take (length (text_of s)) s" unfolding text_of_def by (rule takeWhile_eq_take)
    then have "take n (text_of s) = take n s" if "n \<le> length (text_of s)" for n
      using that by (metis min.absorb1 take_take)
    from this [of "length t"] have "take (length t) (text_of s) = take (length t) s" by (simp add: t)
    moreover have "t = take (length t) (text_of s)" by (simp add: t min_def)
    ultimately show ?thesis by simp
  qed
  have sw: "sint w = (if w = - 1 then - 1 else int (count w))" by (rule sint_count [OF w])
  have "sint w = - 1 \<and> count w = 0 \<or> sint w = int (count w)" using sw by (simp add: count_def)
  then have n: "nat (sint w - int (length t)) = count w - length t" by auto
  have body: "(if 0 <s l then fold (put e) (take (unat l) s) g else g) = fold (put e) t g" for g
    using l tk by (cases t) simp_all
  have w1: "- 1 \<le> sint w" by (simp add: sw)
  have "put_text e flags w p s f =
    Some (let (w, f) = (if flags AND LEFT = 0 then pad_loop e 32 l w f else (w, f)) in snd (pad_loop e 32 l w (fold (put e) t f)))"
    using rt_strlen_eq [of s] s(1)
    unfolding put_text_def Let_def by (simp only: if_True bind.simps len_def [symmetric] l_def [symmetric] body) (simp add: case_prod_beta)
  also have "\<dots> = Some (fold (put e) (text_field flags (count w) t) f)"
  proof (cases "flags AND LEFT = 0")
    case True
    then show ?thesis using pad_twice [OF w1, of l e 32 f "fold (put e) t (snd (pad_loop e 32 l w f))"] l
      by (simp add: case_prod_beta) (simp add: pad_loop_eq n text_field_def filled_field_def and.assoc Let_def)
  qed (simp add: pad_loop_eq n l text_field_def filled_field_def and.assoc Let_def)
  finally show ?thesis .
qed

lemma radix_base [simp]: "radix 10 = 10" "radix 16 = 16"
  by (simp_all add: radix_def)

lemma length_text_field: "length (text_field fl w t) = max w (length t)"
  by (simp add: text_field_def length_filled_field)

lemma fmt_precision_range: "fmt_precision fmt args = Some (p, fmt', args') \<Longrightarrow> p = - 1 \<or> 0 \<le> sint p"
  by (cases fmt) (auto simp: bind_Some_iff word_sless_alt split: if_splits)

lemma convert_shown:
  assumes c: "convert_text c fl w p q fmt args = Some (t, fmt', args')"
    and sh: "shown b e m k cs f" and room: "b + length cs + length t + k + 1 < 2 ^ 32" "length t < 2 ^ 30"
    and p: "p = - 1 \<or> 0 \<le> sint p"
  shows "\<exists>f'. convert e c fl w p q fmt args f = Some (fmt', args', f') \<and> shown b e m (k + 1) (cs @ t) f'"
proof -
  have puts: "shown b e m (k + 1) (cs @ t) (fold (put e) t f)"
    by (rule shown_more [OF shown_puts [OF sh]]) (use room in simp_all)
  note num = print_number_shown [OF sh _ room p]
  note num16 = num [where base = 16, unfolded radix_base] and num10 = num [where base = 10, unfolded radix_base]
  have c8: "count 8 = 8" by (simp add: count_def)
  have "c \<noteq> 111" using c by (auto simp: convert_text_def)
  then consider "c = 99" | "c = 115" | "c = 112" | "c = 88 \<or> c = 120" | "c = 100 \<or> c = 105" | "c = 117"
    | "c \<notin> {99, 115, 112, 111, 88, 120, 100, 105, 117}"
    by auto
  then show ?thesis
  proof cases
    case 1
    with c obtain n where "va_word args = Some (n, args')" "t = text_field fl (count w) [ucast n]" "fmt' = fmt"
      by (auto simp: convert_text_def bind_Some_iff)
    moreover from this have "count w < 2 ^ 31" using room(2) by (simp add: length_text_field)
    ultimately show ?thesis using 1 puts by (simp add: convert_def put_char_text)
  next
    case 2
    with c obtain s where s: "va_text args = Some (s, args')" "terminated s" "length s < 2 ^ 31" "p \<noteq> 0" "fmt' = fmt"
      and t: "t = text_field fl (count w) (if p = - 1 then text_of s else take (unat p) (text_of s))"
      by (auto simp: convert_text_def bind_Some_iff)
    moreover have "count w < 2 ^ 31" using room(2) by (simp add: t length_text_field)
    ultimately show ?thesis using 2 puts put_text_text [OF s(2,3) _ p s(4) refl, of w e fl f]
      by (simp add: convert_def)
  next
    case 3
    with c obtain n where "va_word args = Some (n, args')" "fmt' = fmt"
      "t = (if w = - 1 then number_text (fl OR ZEROPAD) 8 (count p) 16 n else number_text fl (count w) (count p) 16 n)"
      by (auto simp: convert_text_def bind_Some_iff)
    then show ?thesis
      using 3 num16 [of "fl OR ZEROPAD" 8 n] num16 [of fl w n]
      by (cases "w = - 1") (simp_all add: convert_def c8)
  next
    case 4
    with c obtain n where "va_word args = Some (n, args')" "fmt' = fmt"
      "t = number_text (if c = 88 then fl OR LARGE else fl) (count w) (count p) 16 (arg_number q fl n)"
      by (auto simp: convert_text_def bind_Some_iff)
    moreover have "arg_number q (fl OR LARGE) n = arg_number q fl n"
      by (simp add: arg_number_def bit.conj_disj_distrib2)
    ultimately show ?thesis
      using 4 num16 [of "if c = 88 then fl OR LARGE else fl" w "arg_number q fl n"]
      by (auto simp: convert_def put_int_def Let_def)
  next
    case 5
    with c obtain n where "va_word args = Some (n, args')" "fmt' = fmt"
      "t = number_text (fl OR SIGN) (count w) (count p) 10 (arg_number q (fl OR SIGN) n)"
      by (auto simp: convert_text_def bind_Some_iff)
    then show ?thesis
      using 5 num10 [of "fl OR SIGN" w "arg_number q (fl OR SIGN) n"] by (auto simp: convert_def put_int_def Let_def)
  next
    case 6
    with c obtain n where "va_word args = Some (n, args')" "fmt' = fmt"
      "t = number_text fl (count w) (count p) 10 (arg_number q fl n)"
      by (auto simp: convert_text_def bind_Some_iff)
    then show ?thesis
      using 6 num10 [of fl w "arg_number q fl n"] by (simp add: convert_def put_int_def Let_def)
  next
    case 7
    with c puts show ?thesis by (auto simp: convert_text_def convert_def split: if_splits)
  qed
qed

lemma directive_shown:
  assumes "directive_text fmt args = Some (t, fmt', args')"
    and "shown b e m k cs f" "b + length cs + length t + k + 1 < 2 ^ 32" "length t < 2 ^ 30"
  shows "\<exists>f'. directive e fmt args f = Some (fmt', args', f') \<and> shown b e m (k + 1) (cs @ t) f'"
proof -
  obtain fl s0 w fl' s1 a1 p s2 a2 q c s3 where
    "fmt_flags 0 fmt = Some (fl, s0)" "fmt_width fl s0 args = Some (w, fl', s1, a1)"
    "fmt_precision s1 a1 = Some (p, s2, a2)" "fmt_qualifier s2 = Some (q, c # s3)"
    and c: "convert_text c fl' w p q s3 a2 = Some (t, fmt', args')"
    using assms(1) by (auto simp: directive_text_def bind_Some_iff neq_Nil_conv split: list.splits)
  with convert_shown [OF c assms(2-4) fmt_precision_range] show ?thesis
    by (auto simp: directive_def)
qed

lemma vsn_loop_shown:
  "\<lbrakk>formatted fmt args = Some t; shown b e m k cs f; b + length cs + length t + k + length fmt < 2 ^ 32; length t < 2 ^ 30\<rbrakk>
   \<Longrightarrow> \<exists>f'. vsn_loop e fmt args f = Some f' \<and> shown b e m (k + length fmt) (cs @ t) f'"
proof (induction fmt args arbitrary: t k cs f rule: formatted.induct)
  case (2 c fmt args)
  show ?case
  proof (cases "c = 0 \<or> c \<noteq> 37")
    case True
    show ?thesis
    proof (cases "c = 0")
      case True
      with 2 show ?thesis by (auto simp: formatted.simps vsn_loop.simps elim: shown_more)
    next
      case False
      with True "2.prems"(1) obtain t' where t: "formatted fmt args = Some t'" "t = c # t'"
        by (auto simp: formatted.simps)
      have "shown b e m k (cs @ [c]) (put e c f)" by (rule shown_put [OF "2.prems"(2)]) (use "2.prems"(3) in simp)
      with "2.IH"(1) [OF False _ t(1) this] True False "2.prems"(3,4) t(2) show ?thesis
        by (auto simp: vsn_loop.simps elim!: shown_more)
    qed
  next
    case False
    with "2.prems"(1) obtain t1 fmt1 args1 t2 where d: "directive_text fmt args = Some (t1, fmt1, args1)"
      and t2: "formatted fmt1 args1 = Some t2" and t: "t = t1 @ t2"
      by (auto simp: formatted.simps split: option.splits)
    have l: "length fmt1 \<le> length fmt" using d by (rule directive_text_shorter)
    obtain f1 where f1: "directive e fmt args f = Some (fmt1, args1, f1)" "shown b e m (k + 1) (cs @ t1) f1"
      using directive_shown [OF d "2.prems"(2), of] "2.prems"(3,4) by (auto simp: t)
    obtain f2 where "vsn_loop e fmt1 args1 f1 = Some f2" "shown b e m (k + 1 + length fmt1) ((cs @ t1) @ t2) f2"
      using "2.IH"(2) [OF _ _ d refl refl t2 f1(2)] False "2.prems"(3,4) l by (auto simp: t)
    with False f1(1) l show ?thesis by (auto simp: vsn_loop.simps t elim!: shown_more)
  qed
qed (simp add: formatted.simps)

section \<open>What is printed\<close>

definition write_text :: "nat \<Rightarrow> cbuf \<Rightarrow> memory \<Rightarrow> memory" where
  "write_text b cs m = (\<lambda>a. if b \<le> a \<and> a < b + length cs then cs ! (a - b) else m a)"

lemma stored_write: "stored b e cs m = write_text b (take (Suc e - b) cs) m"
  by (auto simp: stored_def write_text_def fun_eq_iff)

lemma write_text_snoc: "(write_text b cs m)(b + length cs := c) = write_text b (cs @ [c]) m"
  by (auto simp: write_text_def fun_eq_iff nth_append)

lemma write_text_last:
  "0 < n \<Longrightarrow> n \<le> length cs \<Longrightarrow> (write_text b (take n cs) m)(b + n - 1 := c) = write_text b (take (n - 1) cs @ [c]) m"
  by (auto simp: write_text_def fun_eq_iff nth_append)

text \<open>The loop, and the zero at the end: \<open>sz\<close> places from \<open>buf\<close> to \<open>e\<close>.\<close>

lemma vsn_ends:
  assumes t: "formatted fmt args = Some t" and e: "unat buf + n = Suc (unat e)" "0 < n"
    and room: "unat buf + length t + length fmt < 2 ^ 32" "length t < 2 ^ 30"
  obtains f where "vsn_loop e fmt args \<lparr>out_str = buf, out_mem = m\<rparr> = Some f"
    and "(out_mem f)(unat (if out_str f \<le> e then out_str f else e) := 0) = write_text (unat buf) (take (n - 1) t @ [0]) m"
    and "length t \<le> unat (out_str f - buf)" "unat (out_str f - buf) \<le> length t + length fmt"
    and "length t < n \<Longrightarrow> out_str f - buf = word_of_nat (length t)"
proof -
  let ?f = "\<lparr>out_str = buf, out_mem = m\<rparr>"
  have "shown (unat buf) e m 0 [] ?f" by (simp add: shown_def stored_def)
  from vsn_loop_shown [OF t this] room obtain f where f: "vsn_loop e fmt args ?f = Some f"
    and "shown (unat buf) e m (length fmt) t f" by auto
  moreover have "Suc (unat e) - unat buf = n" using e by simp
  ultimately obtain j where j: "j \<le> length fmt" "unat (out_str f) = unat buf + length t + j" "0 < j \<longrightarrow> unat e < unat buf + length t"
    and m: "out_mem f = write_text (unat buf) (take n t) m"
    by (auto simp: shown_def stored_write)
  have d: "unat (out_str f - buf) = length t + j" using j(2) by (simp add: unat_sub_if')
  show thesis
  proof (rule that [OF f])
    show "(out_mem f)(unat (if out_str f \<le> e then out_str f else e) := 0) = write_text (unat buf) (take (n - 1) t @ [0]) m"
    proof (cases "length t < n")
      case True
      then have "out_str f \<le> e" "unat (out_str f) = unat buf + length t" using j e by (auto simp: word_le_nat_alt)
      then show ?thesis using True by (simp add: m write_text_snoc)
    next
      case False
      then have "\<not> out_str f \<le> e" "unat e = unat buf + n - 1" using j e by (auto simp: word_le_nat_alt)
      then show ?thesis using False e(2) write_text_last [of n t "unat buf" m 0] by (simp add: m)
    qed
    show "length t \<le> unat (out_str f - buf)" "unat (out_str f - buf) \<le> length t + length fmt" using d j(1) by simp_all
    show "out_str f - buf = word_of_nat (length t)" if "length t < n"
    proof -
      have "j = 0" using that j(3) e by (cases j) auto
      then have "word_of_nat (unat (out_str f - buf)) = (word_of_nat (length t) :: u32)" using d by simp
      then show ?thesis by simp
    qed
  qed
qed

lemma rt_vsnprintf_run:
  assumes "vsn_loop e fmt args \<lparr>out_str = buf, out_mem = m\<rparr> = Some f" "e = (if buf + sz - 1 < buf then - 1 else buf + sz - 1)"
  shows "rt_vsnprintf buf sz fmt args m =
    Some (out_str f - buf, (out_mem f)(unat (if out_str f \<le> e then out_str f else e) := 0))"
  using assms by (simp add: rt_vsnprintf_def)


text \<open>
  A buffer of no places is taken for the whole address space: where the C library stores nothing,
  \<^verbatim>\<open>rt_snprintf\<close> with the size 0 stores the whole text and the zero behind it.
\<close>
theorem snprintf_size_zero:
  assumes "formatted fmt args = Some t" and "buf \<noteq> 0"
    and "unat buf + length t + length fmt < 2 ^ 32" "length t < 2 ^ 30"
  shows "rt_snprintf buf 0 fmt args m = Some (word_of_nat (length t), write_text (unat buf) (t @ [0]) m)"
proof -
  have e: "- 1 = (if buf + 0 - 1 < buf then - 1 else buf + 0 - 1)"
    using assms(2) by (simp add: word_less_nat_alt unat_minus_one unat_gt_0)
  have n: "unat buf + (2 ^ 32 - unat buf) = Suc (unat (- 1 :: u32))" "0 < 2 ^ 32 - unat buf" "length t < 2 ^ 32 - unat buf"
    using unsigned_less [of buf, where 'a = nat] assms(3) by (simp_all add: unsigned_minus_1_eq_mask mask_eq_exp_minus_1)
  show ?thesis
  proof (rule vsn_ends [OF assms(1) n(1,2) assms(3,4), of m])
    fix f
    assume f: "vsn_loop (- 1) fmt args \<lparr>out_str = buf, out_mem = m\<rparr> = Some f"
      "(out_mem f)(unat (if out_str f \<le> - 1 then out_str f else - 1) := 0)
        = write_text (unat buf) (take (2 ^ 32 - unat buf - 1) t @ [0]) m"
      "length t < 2 ^ 32 - unat buf \<Longrightarrow> out_str f - buf = word_of_nat (length t)"
    have "take (2 ^ 32 - unat buf - 1) t = t" using n(3) by (intro take_all) simp
    with rt_vsnprintf_run [OF f(1) e] f(3) [OF n(3)] show ?thesis by (simp only: rt_snprintf_def f(2))
  qed
qed

text \<open>\<^verbatim>\<open>rt_sprintf\<close> means the whole address space: its size \<open>-1\<close> gives the same call.\<close>

lemma sprintf_size_zero: "1 < buf \<Longrightarrow> rt_sprintf buf fmt args m = rt_snprintf buf 0 fmt args m"
proof -
  assume a: "1 < buf"
  have "buf \<noteq> 0" using a by auto
  then have u: "unat (buf - 1) = unat buf - 1" by (rule unat_minus_one)
  moreover from a have "1 < unat buf" by (simp add: word_less_nat_alt)
  ultimately have "buf - 1 \<noteq> 0" by (metis diff_is_0_eq leD unat_0)
  then have "unat (buf - 1 - 1) = unat buf - 1 - 1" by (metis u unat_minus_one)
  with u \<open>1 < unat buf\<close> have "buf - 2 < buf" "buf - 1 < buf" using a by (simp_all add: word_less_nat_alt)
  then show ?thesis by (simp add: rt_sprintf_def rt_vsprintf_def rt_snprintf_def rt_vsnprintf_def)
qed

text \<open>
  \<^verbatim>\<open>divide\<close> knows two bases, so \<^verbatim>\<open>%o\<close> prints the number in hexadecimal.
\<close>
theorem octal_prints_hex:
  "print_number e n 8 w p ty f = print_number e n 16 w p ty f"
proof -
  have "number_digits ds 8 v = number_digits ds 16 v" for ds v
  proof (induction ds "8 :: u8" v rule: number_digits.induct)
    case (1 ds v)
    then show ?case by (simp add: number_digits.simps [of ds _ v] divide_def)
  qed
  then show ?thesis by (simp only: print_number_def)
qed

lemma digit_char: "d < 10 \<Longrightarrow> small_digits ! d = word_of_nat (48 + d)"
proof -
  assume "d < 10"
  then have "d = 0 \<or> d = 1 \<or> d = 2 \<or> d = 3 \<or> d = 4 \<or> d = 5 \<or> d = 6 \<or> d = 7 \<or> d = 8 \<or> d = 9" by presburger
  then show ?thesis by (elim disjE; simp add: small_digits_def)
qed

lemma skip_atoi_digits:
  "skip_atoi i (numeral_text small_digits 10 n @ s) = skip_atoi (i * 10 ^ length (numeral_text small_digits 10 n) + word_of_nat n) s"
proof (induction small_digits "10 :: nat" n arbitrary: i s rule: numeral_text.induct)
  case (1 n)
  have d: "is_digit (48 + word_of_nat k)" "ucast (48 + word_of_nat k :: u8) = (48 + word_of_nat k :: u32)" if "k < 10" for k
  proof -
    have "k = 0 \<or> k = 1 \<or> k = 2 \<or> k = 3 \<or> k = 4 \<or> k = 5 \<or> k = 6 \<or> k = 7 \<or> k = 8 \<or> k = 9" using that by presburger
    then show "is_digit (48 + word_of_nat k)" "ucast (48 + word_of_nat k :: u8) = (48 + word_of_nat k :: u32)"
      by (elim disjE; simp add: is_digit_def)+
  qed
  show ?case
  proof (cases "n < 10")
    case True
    then show ?thesis using d [of n] by (simp add: numeral_text.simps [of _ _ n] digit_char mult.commute)
  next
    case False
    have "word_of_nat (n div 10) * 10 + word_of_nat (n mod 10) = (word_of_nat n :: u32)"
      by (metis div_mult_mod_eq of_nat_add of_nat_mult of_nat_numeral)
    then have n: "word_of_nat (n mod 10) + (10 * word_of_nat (n div 10) + x) = word_of_nat n + x" for x :: u32
      by (simp add: algebra_simps flip: add.assoc)
    show ?thesis
      using False 1 [of i "small_digits ! (n mod 10) # s"] d [of "n mod 10"] n
      by (simp add: numeral_text.simps [of _ _ n] digit_char algebra_simps)
  qed
qed

text \<open>
  What the width parser makes of a printed number is the number: \<^verbatim>\<open>skip_atoi\<close> reads back the
  decimal digits that \<^verbatim>\<open>print_number\<close> writes for a word, and stops behind them.
\<close>
theorem atoi_reads_number:
  assumes "\<not> is_digit c"
  shows "skip_atoi 0 (number_text 0 0 0 10 n @ c # s) = Some (n, c # s)"
  using assms
  by (simp add: number_text_def filled_field_def sign_text_def magnitude_def skip_atoi_digits)

text \<open>
  The sign that does not fit is not taken off the width: past the end of the buffer a negative number padded with
  zeros is counted one character too long, so the length of a truncated text depends on where it was cut.
\<close>

lemma out_str_puts: "out_str (fold (put e) xs f) = out_str f + word_of_nat (length xs)"
  by (induction xs arbitrary: f) simp_all

theorem truncation_miscounts:
  assumes "e < out_str f" "sint n < 0" "length (numeral_text small_digits 10 (nat \<bar>sint n\<bar>)) < unat w" "unat w < 2 ^ 30"
  shows "out_str (print_number e n 10 w (- 1) (SIGN OR ZEROPAD) f) = out_str f + w + 1"
    "length (number_text (SIGN OR ZEROPAD) (unat w) 0 10 n) = unat w"
proof -
  have c: "count w = unat w" "count (- 1) = 0" using assms(4)
    by (auto simp: count_def unsigned_minus_1_eq_mask mask_eq_exp_minus_1)
  have l: "length (number_text 3 (unat w) 0 10 n) = unat w"
    using assms(2,3) by (simp add: number_text_def length_filled_field sign_text_def magnitude_def)
  then show "length (number_text (SIGN OR ZEROPAD) (unat w) 0 10 n) = unat w" by simp
  have s: "sign_text 3 n = [45]" using assms(2) by (simp add: sign_text_def)
  from l assms(4) have "length (number_text 3 (count w) (count (- 1)) (radix 10) n) < 2 ^ 30" by (simp add: c radix_def)
  then show "out_str (print_number e n 10 w (- 1) (SIGN OR ZEROPAD) f) = out_str f + w + 1"
  proof (rule print_number_layout [where e = e and f = f], goal_cases)
    case (2 sign body sz)
    have sg: "sign \<noteq> 0" using 2(3) s by (auto split: if_splits)
    have "max (unat w) (1 + length body) = unat w"
      using l 2(2) s by (simp add: c radix_def length_filled_field)
    then have b: "length body < unat w" by simp
    have "nat (sint sz) = unat w - length body" using 2(5) [of 0] by (simp add: c)
    then have "print_number e n 10 w (- 1) 3 f = fold (put e) (sign # replicate (unat w - length body) 48 @ body) f"
      using 2(1) sg assms(1) by (simp add: layout_zero [OF 2(4)] del: fold_append)
    moreover have "length (sign # replicate (unat w - length body) 48 @ body) = unat w + 1" using b by simp
    ultimately have "out_str (print_number e n 10 w (- 1) 3 f) = out_str f + word_of_nat (unat w + 1)"
      by (simp only: out_str_puts)
    then show ?case by (simp add: add.assoc)
  qed simp
qed

section \<open>Witnesses\<close>


definition demo_format2 :: cbuf where
  "demo_format2 = [37, 45, 52, 115, 124, 37, 120, 0]"

lemma demo_digits:
  "numeral_text small_digits 10 42 = [52, 50]" "numeral_text small_digits 16 255 = [102, 102]"
  by (simp_all add: numeral_text.simps [of _ _ 42] numeral_text.simps [of _ _ 4] numeral_text.simps [of _ _ 255]
      numeral_text.simps [of _ _ 15] small_digits_def)

lemma replicate_two: "replicate 2 c = [c, c]"
  by (simp add: numeral_2_eq_2)

lemmas demo_simps = replicate_two formatted.simps directive_text_def convert_text_def is_digit_def number_text_def text_field_def
  sign_text_def magnitude_def filled_field_def arg_number_def count_def demo_digits text_of_def terminated_def


lemma demo_formatted2: "formatted demo_format2 [ArgText 4 [97, 98, 0], ArgWord 255] = Some [97, 98, 32, 32, 124, 102, 102]"
  by (simp add: demo_format2_def demo_simps)


theorem snprintf_size_zero_witness:
  "rt_snprintf 100 0 demo_format2 [ArgText 4 [97, 98, 0], ArgWord 255] m
     = Some (7, write_text 100 [97, 98, 32, 32, 124, 102, 102, 0] m)"
  using snprintf_size_zero [OF demo_formatted2, of 100 m] by (simp add: demo_format2_def)

theorem atoi_reads_number_witness:
  "skip_atoi 0 (number_text 0 0 0 10 1234 @ [46, 0]) = Some (1234, [46, 0])"
  by (rule atoi_reads_number) (simp add: is_digit_def)

theorem truncation_miscounts_witness:
  "out_str (print_number 100 (- 3) 10 5 (- 1) (SIGN OR ZEROPAD) \<lparr>out_str = 101, out_mem = m\<rparr>) = 107"
  using truncation_miscounts(1) [of 100 "\<lparr>out_str = 101, out_mem = m\<rparr>" "- 3" 5] by (simp add: numeral_text.simps [of _ _ 3])

end
