(* ===== verification/Spec2Isabelle.thy ===== *)
theory Spec2Isabelle
  imports KernelProps RingBuffer Completion Idle MemHeapCalls DeviceReg RingBlk WorkQueue Printf
begin

text \<open>
  A verification of the RT-Thread kernel, version 3.1.1, as this repository configures it for the
  STM32F4 board (\<^verbatim>\<open>bsp/stm32f4xx-HAL/rtconfig.h\<close>): 32 priorities, names of 8 bytes, a
  thousand ticks per second, every kind of IPC object, memory pools, the small memory heap and memory regions, devices, stack
  overflow checks, signals and the debug assertions of \<^verbatim>\<open>rtdebug.h\<close>. The debugging
  hooks of the kernel are null, and soft timers and modules are compiled out.

  \<^bold>\<open>The program.\<close> Threads are scheduled by priority, round robin among equals
  (\<^verbatim>\<open>scheduler.c\<close>, \<^verbatim>\<open>thread.c\<close>). The tick interrupt
  (\<^verbatim>\<open>clock.c\<close>) counts, ends time slices and fires the timers that are due
  (\<^verbatim>\<open>timer.c\<close>); every thread has a timer that ends its waits. Semaphores, mutexes,
  events, mailboxes and message queues (\<^verbatim>\<open>ipc.c\<close>) and memory pools
  (\<^verbatim>\<open>mempool.c\<close>) keep lists of the threads that wait on them. All of them are
  objects in the containers of \<^verbatim>\<open>object.c\<close>. The heap (\<^verbatim>\<open>mem.c\<close>)
  takes a semaphore, and so does every memory region (\<^verbatim>\<open>memheap.c\<close>). Devices
  (\<^verbatim>\<open>device.c\<close>) are objects with a count of their clients in front of the functions of a
  driver. Signals (\<^verbatim>\<open>signal.c\<close>) run handlers on threads, and the idle thread
  (\<^verbatim>\<open>idle.c\<close>) takes back the memory of threads that were deleted. The drivers communicate through a ring of bytes,
  a ring of blocks, a queue of pointers, completions and work queues (\<^verbatim>\<open>ringbuffer.c\<close>,
  \<^verbatim>\<open>ringblk_buf.c\<close>, \<^verbatim>\<open>dataqueue.c\<close>, \<^verbatim>\<open>completion.c\<close>,
  \<^verbatim>\<open>workqueue.c\<close> in \<^verbatim>\<open>components/drivers/src\<close>).

  \<^bold>\<open>The model.\<close> One record, \<open>kernel\<close> (theory \<open>KState\<close>), holds every kernel
  variable and control block; a control block is named by a number, a kernel object by an \<open>oid\<close>.
  An operation takes its arguments and the state and gives an option: \<open>None\<close> when the C code
  does not come back or leaves defined behaviour (a failed \<^verbatim>\<open>RT_ASSERT\<close>, a
  dereference outside a block, a loop that does not end), and otherwise its result and the new state.
  Code that runs with interrupts disabled is one step. A call that may block is cut at
  \<^verbatim>\<open>rt_schedule\<close>: it gives \<open>Pending\<close> or \<open>Waiting\<close> with the locals it
  keeps, and \<open>..._resumed\<close> is the code behind the cut, for the state in which the thread runs
  again. What the drivers, the heap and the signals keep is beside the kernel state, in a pair with it. Words have their width: \<open>u8\<close>, \<open>u16\<close>, \<open>u32\<close>; a signed time is a
  \<open>u32\<close> read with \<open>sint\<close>. What \<^verbatim>\<open>RT_KERNEL_MALLOC\<close> returns to a call that
  creates an object is an argument of that call.

  \<^bold>\<open>The theories and the code.\<close>
  \<^item> \<open>Prelude\<close>: word types, error codes, alignment, shared lemmas on lists and options.
  \<^item> \<open>RtList\<close> (\<^verbatim>\<open>include/rtservice.h\<close>): the rings and singly linked
    lists on pointers, and the lemmas that take them to sequences, on which the rest is stated.
  \<^item> \<open>Kservice\<close> (\<^verbatim>\<open>src/kservice.c\<close>): memory and string routines on a
    memory of bytes, \<^verbatim>\<open>__rt_ffs\<close>.
  \<^item> \<open>Printf\<close> (the second part of \<^verbatim>\<open>src/kservice.c\<close>): \<^verbatim>\<open>rt_vsnprintf\<close> and the calls on top of
    it, on the same memory; the format, its arguments and the strings are values. \<open>formatted\<close> is the text a format describes,
    without a buffer, and \<open>shown\<close> what of a text is stored and counted at some point of the output.
  \<^item> \<open>KState\<close> (\<^verbatim>\<open>include/rtdef.h\<close>): the control blocks and the state.
  \<^item> \<open>Objects\<close>, \<open>Timers\<close>, \<open>Scheduler\<close>, \<open>Threads\<close>, \<open>Clock\<close>: the
    source files of those names, one definition per function. \<open>Scheduler\<close> and \<open>Threads\<close> define
    the invariant \<open>kernel_wf\<close>: every thread is on the list its state asks for and on one
    only, the ready bitmap is the set of priorities with a ready thread, the timer list is sorted, and
    every active timer is on it. \<open>ThreadOps\<close> and \<open>Clock\<close> prove that the operations keep it,
    and \<open>expire\<close> and \<open>slice_charged\<close> in \<open>Clock\<close> say what a tick is to do;
    \<open>Sample\<close> is a state with five threads that satisfies it; \<open>KernelProps\<close> states the
    properties of this part.
  \<^item> \<open>Ipc\<close> (the first part of \<^verbatim>\<open>src/ipc.c\<close>): waiting lists, how a thread joins
    and leaves one. \<open>Sem\<close>, \<open>Mutex\<close>, \<open>Event\<close>, \<open>Mailbox\<close>, \<open>MsgQueue\<close>: the
    IPC objects, each with an abstract value that its operations are shown to act on: a count and
    a queue, an owner, flags, a sequence of mails, a sequence of messages. \<open>MsgQueue\<close> also has
    the step relation \<open>mq_step\<close> of the sections in which messages are copied with interrupts
    enabled, and the invariant that every interleaving of them keeps.
  \<^item> \<open>Fifo\<close>: the locale \<open>bounded_fifo\<close>, interpreted for the ring of a mailbox, the
    slots of a message queue and the byte ring; \<open>Alloc\<close>: the locale \<open>allocator\<close>, interpreted for
    memory pools, the heap and the regions; a run of requests has a result only if every call in it returns.
  \<^item> \<open>Mempool\<close> (\<^verbatim>\<open>src/mempool.c\<close>).
  \<^item> \<open>Mem\<close>, \<open>MemAlloc\<close>, \<open>MemCalls\<close> (\<^verbatim>\<open>src/mem.c\<close>): the heap on its
    headers, the invariant \<open>heap_ok\<close> (the headers tile the heap and point back to each other, no two free
    blocks are neighbours, the counters are right), and the calls with their semaphore.
  \<^item> \<open>MemHeap\<close>, \<open>MemRegion\<close>, \<open>MemResize\<close>, \<open>MemHeapSpec\<close>, \<open>MemHeapCalls\<close>
    (\<^verbatim>\<open>src/memheap.c\<close>): regions of memory on the pointers of their headers. \<open>MemHeap\<close> has the code of the
    locked sections; the invariant \<open>region\<close> says that the headers form a ring in the order of their addresses
    that tiles the region up to the tailer, that the free ones form the other ring, and that no two free blocks are
    neighbours; \<open>MemHeapSpec\<close> states the sections on the set \<open>mh_out\<close> of the blocks that are out, and
    \<open>MemHeapCalls\<close> has the calls with their semaphore.
  \<^item> \<open>Device\<close>, \<open>DeviceReg\<close> (\<^verbatim>\<open>src/device.c\<close>): the calls on devices, over drivers that are a
    parameter on the whole system state; \<open>dev_abs\<close> is what the layer keeps of a device, \<open>open_result\<close> and
    \<open>close_result\<close> what a call does to it. \<open>driver_keeps\<close>, \<open>driver_returns\<close> and \<open>driver_apart\<close> say what
    is asked of a driver. \<open>DeviceReg\<close> has the step relation of the calls of this layer, and the names.
  \<^item> \<open>Signals\<close> (\<^verbatim>\<open>src/signal.c\<close>): the signal fields of a thread and the nodes of
    its pending signals, with the pointers the code mixes up. The end of \<^verbatim>\<open>rt_schedule\<close> handles signals; for a
    thread that has none it does nothing (lemma \<open>rt_thread_handle_sig_none\<close>), and the theories before
    \<open>Signals\<close> are about such threads. \<open>handled\<close> says what the handling of a list of signals is to do, for handlers that
    keep the contract \<open>handlers_ok\<close>.
  \<^item> \<open>Idle\<close> (\<^verbatim>\<open>src/idle.c\<close>): the idle thread on the kernel, the heap and the signals together.
  \<^item> \<open>RingBuffer\<close>, \<open>DataQueue\<close>, \<open>Completion\<close> (\<^verbatim>\<open>components/drivers/src\<close>).
    After a pop that wakes a pusher the notification of the data queue is run in the same step.
  \<^item> \<open>RingBlk\<close>: the ring of blocks, with the invariant \<open>rbb_inv\<close> (the blocks in use form a run in the order
    of their addresses and a second one in front of it), the requests of a client and what runs of them keep.
  \<^item> \<open>WorkQueue\<close>: the calls on a work queue and the loop of its thread, cut where other threads come between
    its steps.

  \<^bold>\<open>What is shown.\<close> Each property stands behind a text with its number. They say which
  thread runs after \<^verbatim>\<open>rt_schedule\<close>; that a sleeping thread wakes at its tick and not
  before; what every branch of the IPC calls does to the object, the waiting threads and the caller,
  and that the invariant holds afterwards; that allocation never hands out memory twice, and that a deleted thread's memory
  comes back; that devices are counted and found by name; that what is put into a buffer comes out in order; that formatted output stays in its buffer; and, where the code does not do what it means to, what
  it does instead (the properties of kind error). A hypothesis \<open>runnable\<close> says that the stacks
  of the ready threads pass the overflow check and that one thread is ready, which the idle thread ensures.

  \<^bold>\<open>Loops.\<close> Loops over lists and words recurse on them. A loop whose end depends on the state is
  a \<open>partial_function\<close>, so that it gives \<open>None\<close> when it does not end; that it ends is shown
  where it is used (\<^verbatim>\<open>rt_timer_check\<close>, the loops that resume all threads of a list,
  the searches of the heap and of the regions, the handling of signals, the cleanup of threads, the
  searches of the ring of blocks, the end of a work). No fuel is used.

  \<^bold>\<open>Not modelled.\<close> The console and the aligned allocation of \<^verbatim>\<open>kservice.c\<close>; the context switch itself, which is assembly;
  the start of the system; the slab allocator, the part of \<^verbatim>\<open>memheap.c\<close> that would replace the
  heap and soft timers, which are compiled out; pipes and wait queues of the
  POSIX layer; the shell, the file systems, the network stack, the device drivers and the board
  files, which are vendored code or register-level glue above or below the kernel.
\<close>

end
